(* ===== verification/Php_Prelude.thy ===== *)
theory Php_Prelude
  imports Main "HOL-Library.Word" "HOL-Library.AList" "HOL-Library.Monad_Syntax" "HOL-Library.Multiset"
begin

text \<open>
  Shared vocabulary of the development: the machine model, the status codes of the C sources,
  characters as bytes, the parts of the C library that several components use
  (\<^verbatim>\<open>isdigit\<close>, \<^verbatim>\<open>isspace\<close>, \<^verbatim>\<open>tolower\<close>, \<^verbatim>\<open>strtol\<close>) and the list and map lemmas the
  component theories share.

  Machine model: ILP32, the platform of the sources' time. \<^verbatim>\<open>int\<close>, \<^verbatim>\<open>long\<close> and pointers have
  32 bits, \<^verbatim>\<open>char\<close> is signed and has 8 bits. An \<^verbatim>\<open>unsigned long\<close> is a \<open>32 word\<close>; a \<^verbatim>\<open>long\<close> is
  the same word read with \<open>sint\<close>. An address is a natural number and a possibly-NULL
  pointer an \<open>addr option\<close>. A computation that dereferences a wild pointer or does not
  return is \<open>None\<close> in the option monad.
\<close>

type_synonym ulong = "32 word"
type_synonym addr = nat

datatype status = SUCCESS | FAILURE

named_theorems c_library \<open>definitions of the C library functions the models call\<close>
named_theorems model_defs \<open>unfolding set used to evaluate models on concrete inputs\<close>

subsection \<open>Characters\<close>

definition byte_of :: "char \<Rightarrow> nat" where
  "byte_of c = of_char c"

definition schar_of :: "char \<Rightarrow> int" where
  "schar_of c = (let n = int (byte_of c) in if n < 128 then n else n - 256)"

definition is_digit :: "char \<Rightarrow> bool" where
  [c_library]: "is_digit c \<longleftrightarrow> 48 \<le> byte_of c \<and> byte_of c \<le> 57"

definition is_upper :: "char \<Rightarrow> bool" where
  [c_library]: "is_upper c \<longleftrightarrow> 65 \<le> byte_of c \<and> byte_of c \<le> 90"

definition is_lower :: "char \<Rightarrow> bool" where
  [c_library]: "is_lower c \<longleftrightarrow> 97 \<le> byte_of c \<and> byte_of c \<le> 122"

definition is_space :: "char \<Rightarrow> bool" where
  [c_library]: "is_space c \<longleftrightarrow> byte_of c = 32 \<or> 9 \<le> byte_of c \<and> byte_of c \<le> 13"

abbreviation NUL :: char where
  "NUL \<equiv> CHR 0x00"

definition chr :: "nat \<Rightarrow> char" where
  "chr n = char_of n"

definition to_lower :: "char \<Rightarrow> char" where
  [c_library]: "to_lower c = (if is_upper c then chr (byte_of c + 32) else c)"

definition to_upper :: "char \<Rightarrow> char" where
  [c_library]: "to_upper c = (if is_lower c then chr (byte_of c - 32) else c)"

lemma byte_of_less [simp]: "byte_of c < 256"
  by (simp add: byte_of_def)

lemma byte_of_chr [simp]: "byte_of (chr n) = n mod 256"
  by (simp add: byte_of_def chr_def)

lemma chr_byte_of [simp]: "chr (byte_of c) = c"
  by (simp add: byte_of_def chr_def)

lemma byte_of_inject [simp]: "byte_of c = byte_of d \<longleftrightarrow> c = d"
  by (simp add: byte_of_def)

subsection \<open>\<^verbatim>\<open>strtol\<close>\<close>

definition LONG_MAX :: int where
  "LONG_MAX = 2147483647"

definition LONG_MIN :: int where
  "LONG_MIN = - 2147483648"

definition digit_val :: "char \<Rightarrow> nat option" where
  [c_library]: "digit_val c =
     (if is_digit c then Some (byte_of c - 48)
      else if is_lower c then Some (byte_of c - 87)
      else if is_upper c then Some (byte_of c - 55)
      else None)"

text \<open>The value and the number of the leading digits of a string in a base.\<close>

fun scan_digits :: "nat \<Rightarrow> string \<Rightarrow> int \<Rightarrow> nat \<Rightarrow> int \<times> nat" where
  "scan_digits base [] acc n = (acc, n)"
| "scan_digits base (c # cs) acc n =
     (case digit_val c of
        None \<Rightarrow> (acc, n)
      | Some d \<Rightarrow> if d < base then scan_digits base cs (acc * int base + int d) (Suc n)
                  else (acc, n))"

text \<open>
  \<^verbatim>\<open>strtol (s, &end, base)\<close> on the bytes of \<open>s\<close> (the end of the list is the terminating NUL):
  the saturated value, the offset of \<open>end\<close> and whether \<open>errno\<close> became \<open>ERANGE\<close>.
\<close>

definition strtol :: "nat \<Rightarrow> string \<Rightarrow> int \<times> nat \<times> bool" where
  [c_library]: "strtol base s =
     (let ws = length (takeWhile is_space s);
          s1 = drop ws s;
          neg = (case s1 of c # _ \<Rightarrow> c = CHR ''-'' | [] \<Rightarrow> False);
          sg = (case s1 of c # _ \<Rightarrow> c = CHR ''-'' \<or> c = CHR ''+'' | [] \<Rightarrow> False);
          s2 = (if sg then drop 1 s1 else s1);
          hex = (case s2 of z # x # d # _ \<Rightarrow>
                   (base = 0 \<or> base = 16) \<and> z = CHR ''0'' \<and> to_lower x = CHR ''x'' \<and>
                   (case digit_val d of Some v \<Rightarrow> v < 16 | None \<Rightarrow> False)
                 | _ \<Rightarrow> False);
          b = (if hex then 16
               else if base = 0 then (case s2 of c # _ \<Rightarrow> if c = CHR ''0'' then 8 else 10 | [] \<Rightarrow> 10)
               else base);
          s3 = (if hex then drop 2 s2 else s2);
          (v, n) = scan_digits b s3 0 0;
          r = (if neg then - v else v)
      in if n = 0 then (0, 0, False)
         else (if r > LONG_MAX then LONG_MAX else if r < LONG_MIN then LONG_MIN else r,
               ws + (if sg then 1 else 0) + (if hex then 2 else 0) + n,
               r > LONG_MAX \<or> r < LONG_MIN))"

end
