(* ===== verification/Hash_Model.thy ===== *)
theory Hash_Model
  imports Php_Prelude
begin

text \<open>
  The hash table of \<^verbatim>\<open>php3_hash.c\<close>, at the level of its pointers. A table owns a heap of
  buckets (\<open>mem\<close>, an address to bucket map); every bucket is on one collision chain
  (\<^verbatim>\<open>arBuckets[i]\<close>, linked by \<^verbatim>\<open>pNext\<close>) and on the global doubly linked list
  (\<^verbatim>\<open>pListHead\<close>, \<^verbatim>\<open>pListTail\<close>, \<^verbatim>\<open>pListNext\<close>, \<^verbatim>\<open>pListLast\<close>) that keeps insertion order.

  A key is its \<^verbatim>\<open>nKeyLength\<close> bytes, the terminating NUL included, as the callers pass it.
  \<^verbatim>\<open>*pDest\<close> is returned as the address of the bucket that holds the data. Three fields of
  \<open>hashtable\<close> are not in the C struct: \<open>mem\<close> and \<open>brk\<close> (the next address \<^verbatim>\<open>malloc\<close> returns),
  \<open>destroyed\<close> (the data the table's destructor was called on, in order) and \<open>mallocs\<close> (whether
  each of the next \<^verbatim>\<open>malloc\<close> calls succeeds; when it runs out they all do). Only a persistent
  table uses plain \<^verbatim>\<open>malloc\<close>: \<^verbatim>\<open>emalloc\<close> of \<^verbatim>\<open>alloc.c\<close> never returns NULL.
  \<open>None\<close> is undefined behaviour: a dangling or NULL pointer is followed, or a loop never ends.
\<close>

unbundle bit_operations_syntax

datatype hash_flag = HASH_UPDATE | HASH_ADD | HASH_NEXT_INSERT
datatype del_flag = HASH_DEL_KEY | HASH_DEL_INDEX
datatype current_key = KEY_IS_STRING string | KEY_IS_LONG ulong | KEY_NON_EXISTANT

record 'a bucket =
  bk_h :: ulong
  arKey :: "string option"
  nKeyLength :: nat
  pData :: 'a
  bIsPointer :: bool
  pListNext :: "addr option"
  pListLast :: "addr option"
  pNext :: "addr option"

type_synonym 'a heap = "addr \<Rightarrow> 'a bucket option"

record 'a hashtable =
  nTableSize :: nat
  nHashSizeIndex :: nat
  nNumOfElements :: nat
  nNextFreeElement :: ulong
  pHashFunction :: "string \<Rightarrow> ulong"
  pInternalPointer :: "addr option"
  pListHead :: "addr option"
  pListTail :: "addr option"
  arBuckets :: "addr option list"
  pDestructor :: bool
  persistent :: bool
  mem :: "'a heap"
  brk :: addr
  destroyed :: "'a list"
  mallocs :: "bool list"

subsection \<open>Numeric keys, the hash function and the table sizes\<close>

text \<open>\<^verbatim>\<open>HANDLE_NUMERIC\<close>: the scan to the last byte of the key, which has to be the NUL.\<close>

fun numeric_tail :: "string \<Rightarrow> bool" where
  "numeric_tail [] = False"
| "numeric_tail [c] = (c = NUL)"
| "numeric_tail (c # d # cs) = (is_digit c \<and> numeric_tail (d # cs))"

definition handle_numeric :: "string \<Rightarrow> ulong option" where
  "handle_numeric key =
     (case key of
        [] \<Rightarrow> None
      | c # cs \<Rightarrow>
          if \<not> is_digit c then None
          else if c = CHR ''0'' \<and> length key > 2 then None
          else if numeric_tail cs then
            (let idx = fst (strtol 10 key) in
             if idx \<noteq> LONG_MAX then Some (word_of_int idx) else None)
          else None)"

definition PrimeNumbers :: "nat list" where
  "PrimeNumbers = [5, 11, 19, 53, 107, 223, 463, 983, 1979, 3907, 7963, 16229, 32531, 65407,
     130987, 262237, 524521, 1048793, 2097397, 4194103, 8388857, 16777447, 33554201, 67108961,
     134217487, 268435697, 536870683, 1073741621, 2147483399]"

text \<open>\<^verbatim>\<open>sizeof(PrimeNumbers) / sizeof(ulong)\<close>: an array of 4-byte \<^verbatim>\<open>uint\<close>s.\<close>

definition nNumPrimeNumbers :: nat where
  "nNumPrimeNumbers = (4 * length PrimeNumbers) div 4"

definition hashpjw_step :: "ulong \<Rightarrow> char \<Rightarrow> ulong" where
  "hashpjw_step h0 c =
     (let h = push_bit 4 h0 + word_of_int (schar_of c);
          g = h AND 0xF0000000
      in if g \<noteq> 0 then (h XOR drop_bit 24 g) XOR g else h)"

definition hashpjw :: "string \<Rightarrow> ulong" where
  "hashpjw key = foldl hashpjw_step 0 key"

definition bucket_index :: "nat \<Rightarrow> ulong \<Rightarrow> nat" where
  "bucket_index n h = unat h mod n"

subsection \<open>Memory\<close>

definition pemalloc :: "'a hashtable \<Rightarrow> bool \<times> 'a hashtable" where
  "pemalloc ht =
     (if persistent ht then
        (case mallocs ht of [] \<Rightarrow> (True, ht) | r # rs \<Rightarrow> (r, ht\<lparr>mallocs := rs\<rparr>))
      else (True, ht))"

definition upd_bucket :: "addr \<Rightarrow> ('a bucket \<Rightarrow> 'a bucket) \<Rightarrow> 'a hashtable \<Rightarrow> 'a hashtable option" where
  "upd_bucket a f ht =
     (case mem ht a of None \<Rightarrow> None | Some b \<Rightarrow> Some (ht\<lparr>mem := (mem ht)(a \<mapsto> f b)\<rparr>))"

definition call_destructor :: "'a \<Rightarrow> 'a hashtable \<Rightarrow> 'a hashtable" where
  "call_destructor d ht =
     (if pDestructor ht then ht\<lparr>destroyed := destroyed ht @ [d]\<rparr> else ht)"

subsection \<open>Initialisation\<close>

definition hash_size_index :: "nat \<Rightarrow> nat" where
  "hash_size_index nSize =
     (let i = length (takeWhile (\<lambda>p. \<not> nSize \<le> p) (take nNumPrimeNumbers PrimeNumbers))
      in if i = nNumPrimeNumbers then i - 1 else i)"

definition hash_init ::
    "nat \<Rightarrow> (string \<Rightarrow> ulong) option \<Rightarrow> bool \<Rightarrow> bool \<Rightarrow> bool list \<Rightarrow> status \<times> 'a hashtable option" where
  "hash_init nSize hashfn dtor pers mallocs0 =
     (let i = hash_size_index nSize;
          ht = \<lparr>nTableSize = PrimeNumbers ! i, nHashSizeIndex = i, nNumOfElements = 0,
                nNextFreeElement = 0,
                pHashFunction = (case hashfn of None \<Rightarrow> hashpjw | Some f \<Rightarrow> f),
                pInternalPointer = None, pListHead = None, pListTail = None,
                arBuckets = replicate (PrimeNumbers ! i) None,
                pDestructor = dtor, persistent = pers,
                mem = Map.empty, brk = 0, destroyed = [], mallocs = mallocs0\<rparr>;
          (ok, ht') = pemalloc ht
      in if ok then (SUCCESS, Some ht') else (FAILURE, None))"

subsection \<open>Collision chains and resizing\<close>

definition str_match :: "ulong \<Rightarrow> string \<Rightarrow> 'a bucket \<Rightarrow> bool" where
  "str_match h key b =
     (case arKey b of
        None \<Rightarrow> False
      | Some k \<Rightarrow> bk_h b = h \<and> nKeyLength b = length key \<and>
                  take (length key) k = key)"

definition idx_match :: "ulong \<Rightarrow> 'a bucket \<Rightarrow> bool" where
  "idx_match h b \<longleftrightarrow> arKey b = None \<and> bk_h b = h"

text \<open>\<^verbatim>\<open>while (p != NULL) { if (match) break; p = p->pNext; }\<close>\<close>

partial_function (option) chain_find ::
    "('a bucket \<Rightarrow> bool) \<Rightarrow> 'a heap \<Rightarrow> addr option \<Rightarrow> addr option option" where
  "chain_find P m p =
     (case p of
        None \<Rightarrow> Some None
      | Some a \<Rightarrow> (case m a of
                      None \<Rightarrow> None
                    | Some b \<Rightarrow> if P b then Some (Some a) else chain_find P m (pNext b)))"

partial_function (option) rehash_loop ::
    "addr option \<Rightarrow> 'a hashtable \<Rightarrow> 'a hashtable option" where
  "rehash_loop p ht =
     (case p of
        None \<Rightarrow> Some ht
      | Some a \<Rightarrow> (case mem ht a of
                      None \<Rightarrow> None
                    | Some b \<Rightarrow>
                        (let nIndex = bucket_index (nTableSize ht) (bk_h b)
                         in rehash_loop (pListNext b)
                              (ht\<lparr>mem := (mem ht)(a \<mapsto> b\<lparr>pNext := arBuckets ht ! nIndex\<rparr>),
                                  arBuckets := (arBuckets ht)[nIndex := Some a]\<rparr>))))"

definition hash_rehash :: "'a hashtable \<Rightarrow> 'a hashtable option" where
  "hash_rehash ht =
     rehash_loop (pListHead ht)
       (ht\<lparr>arBuckets := replicate (PrimeNumbers ! nHashSizeIndex ht) None\<rparr>)"

definition if_full_do_resize :: "'a hashtable \<Rightarrow> 'a hashtable option" where
  "if_full_do_resize ht =
     (if nNumOfElements ht > nTableSize ht \<and> nHashSizeIndex ht < nNumPrimeNumbers - 1 then
        (let (ok, ht1) = pemalloc ht in
         if ok then
           (let n = PrimeNumbers ! (nHashSizeIndex ht1 + 1) in
            hash_rehash (ht1\<lparr>arBuckets := arBuckets ht1 @ replicate (n - nTableSize ht1) None,
                             nTableSize := n,
                             nHashSizeIndex := nHashSizeIndex ht1 + 1\<rparr>))
         else Some ht1)
      else Some ht)"

subsection \<open>Insertion and update\<close>

text \<open>
  The common tail of the four insertion functions: the new bucket \<open>b\<close> goes to the front of its
  chain and to the end of the global list, and the table is resized when it is full. The
  address of the bucket is \<open>brk\<close>.
\<close>

definition link_bucket :: "nat \<Rightarrow> 'a bucket \<Rightarrow> 'a hashtable \<Rightarrow> 'a hashtable option" where
  "link_bucket nIndex b ht = do {
     let p = brk ht;
     let b1 = b\<lparr>pNext := arBuckets ht ! nIndex, pListLast := pListTail ht, pListNext := None\<rparr>;
     let ht1 = ht\<lparr>mem := (mem ht)(p \<mapsto> b1), brk := Suc p,
                  pInternalPointer := (if pInternalPointer ht = None then Some p
                                       else pInternalPointer ht),
                  arBuckets := (arBuckets ht)[nIndex := Some p],
                  pListTail := Some p\<rparr>;
     ht2 \<leftarrow> (case pListLast b1 of
               None \<Rightarrow> Some ht1
             | Some q \<Rightarrow> upd_bucket q (\<lambda>c. c\<lparr>pListNext := Some p\<rparr>) ht1);
     let ht3 = (if pListHead ht2 = None then ht2\<lparr>pListHead := Some p\<rparr> else ht2);
     if_full_do_resize (ht3\<lparr>nNumOfElements := nNumOfElements ht3 + 1\<rparr>)
   }"

definition bump_next_free :: "ulong \<Rightarrow> 'a hashtable \<Rightarrow> 'a hashtable" where
  "bump_next_free h ht =
     (if nNextFreeElement ht \<le> h then ht\<lparr>nNextFreeElement := h + 1\<rparr> else ht)"

type_synonym 'a op_result = "(status \<times> addr option \<times> 'a hashtable) option"

definition hash_index_update_or_next_insert ::
    "'a hashtable \<Rightarrow> ulong \<Rightarrow> 'a \<Rightarrow> hash_flag \<Rightarrow> 'a op_result" where
  "hash_index_update_or_next_insert ht h0 d flag = do {
     let h = (if flag = HASH_NEXT_INSERT then nNextFreeElement ht else h0);
     let nIndex = bucket_index (nTableSize ht) h;
     r \<leftarrow> chain_find (idx_match h) (mem ht) (arBuckets ht ! nIndex);
     case r of
       Some a \<Rightarrow>
         if flag = HASH_NEXT_INSERT \<or> flag = HASH_ADD then Some (FAILURE, None, ht)
         else do {
           b \<leftarrow> mem ht a;
           ht1 \<leftarrow> upd_bucket a (\<lambda>c. c\<lparr>pData := d\<rparr>) (call_destructor (pData b) ht);
           Some (SUCCESS, Some a, bump_next_free h ht1)
         }
     | None \<Rightarrow> do {
         let (ok1, ht1) = pemalloc ht;
         if \<not> ok1 then Some (FAILURE, None, ht1)
         else do {
           let (ok2, ht2) = pemalloc ht1;
           if \<not> ok2 then Some (FAILURE, None, ht2)
           else do {
             ht3 \<leftarrow> link_bucket nIndex
                      \<lparr>bk_h = h, arKey = None, nKeyLength = 0, pData = d, bIsPointer = False,
                       pListNext = None, pListLast = None, pNext = None\<rparr> (bump_next_free h ht2);
             Some (SUCCESS, Some (brk ht2), ht3)
           }
         }
       }
   }"

text \<open>
  When the third allocation fails the code frees the bucket and then reads \<^verbatim>\<open>p->arKey\<close> from it:
  a read of freed memory, \<open>None\<close> here.
\<close>

definition hash_add_or_update ::
    "'a hashtable \<Rightarrow> string \<Rightarrow> 'a \<Rightarrow> hash_flag \<Rightarrow> 'a op_result" where
  "hash_add_or_update ht key d flag =
     (if length key \<le> 0 then Some (FAILURE, None, ht)
      else (case handle_numeric key of
        Some idx \<Rightarrow> hash_index_update_or_next_insert ht idx d flag
      | None \<Rightarrow> do {
          let h = pHashFunction ht key;
          let nIndex = bucket_index (nTableSize ht) h;
          r \<leftarrow> chain_find (str_match h key) (mem ht) (arBuckets ht ! nIndex);
          case r of
            Some a \<Rightarrow>
              if flag = HASH_ADD then Some (FAILURE, None, ht)
              else do {
                b \<leftarrow> mem ht a;
                ht1 \<leftarrow> upd_bucket a (\<lambda>c. c\<lparr>pData := d\<rparr>) (call_destructor (pData b) ht);
                Some (SUCCESS, Some a, ht1)
              }
          | None \<Rightarrow> do {
              let (ok1, ht1) = pemalloc ht;
              if \<not> ok1 then Some (FAILURE, None, ht1)
              else do {
                let (ok2, ht2) = pemalloc ht1;
                if \<not> ok2 then Some (FAILURE, None, ht2)
                else do {
                  let (ok3, ht3) = pemalloc ht2;
                  if \<not> ok3 then None
                  else do {
                    ht4 \<leftarrow> link_bucket nIndex
                             \<lparr>bk_h = h, arKey = Some key, nKeyLength = length key, pData = d,
                              bIsPointer = False, pListNext = None, pListLast = None,
                              pNext = None\<rparr> ht3;
                    Some (SUCCESS, Some (brk ht3), ht4)
                  }
                }
              }
            }
        }))"

abbreviation hash_update :: "'a hashtable \<Rightarrow> string \<Rightarrow> 'a \<Rightarrow> 'a op_result" where
  "hash_update ht key d \<equiv> hash_add_or_update ht key d HASH_UPDATE"

abbreviation hash_add :: "'a hashtable \<Rightarrow> string \<Rightarrow> 'a \<Rightarrow> 'a op_result" where
  "hash_add ht key d \<equiv> hash_add_or_update ht key d HASH_ADD"

abbreviation hash_index_update :: "'a hashtable \<Rightarrow> ulong \<Rightarrow> 'a \<Rightarrow> 'a op_result" where
  "hash_index_update ht h d \<equiv> hash_index_update_or_next_insert ht h d HASH_UPDATE"

abbreviation hash_next_index_insert :: "'a hashtable \<Rightarrow> 'a \<Rightarrow> 'a op_result" where
  "hash_next_index_insert ht d \<equiv> hash_index_update_or_next_insert ht 0 d HASH_NEXT_INSERT"

text \<open>The pointer variants store the caller's pointer instead of a copy of the data.\<close>

definition repoint :: "addr \<Rightarrow> 'a \<Rightarrow> 'a hashtable \<Rightarrow> 'a hashtable option" where
  "repoint a d ht = do {
     b \<leftarrow> mem ht a;
     let ht1 = (if \<not> bIsPointer b then call_destructor (pData b) ht else ht);
     upd_bucket a (\<lambda>c. c\<lparr>pData := d, bIsPointer := True\<rparr>) ht1
   }"

definition hash_pointer_index_update_or_next_insert ::
    "'a hashtable \<Rightarrow> ulong \<Rightarrow> 'a \<Rightarrow> hash_flag \<Rightarrow> 'a op_result" where
  "hash_pointer_index_update_or_next_insert ht h0 d flag = do {
     let h = (if flag = HASH_NEXT_INSERT then nNextFreeElement ht else h0);
     let nIndex = bucket_index (nTableSize ht) h;
     r \<leftarrow> chain_find (idx_match h) (mem ht) (arBuckets ht ! nIndex);
     case r of
       Some a \<Rightarrow>
         if flag = HASH_NEXT_INSERT then Some (FAILURE, None, ht)
         else do {
           ht1 \<leftarrow> repoint a d ht;
           Some (SUCCESS, Some a, bump_next_free h ht1)
         }
     | None \<Rightarrow> do {
         let (ok1, ht1) = pemalloc ht;
         if \<not> ok1 then Some (FAILURE, None, ht1)
         else do {
           ht3 \<leftarrow> link_bucket nIndex
                    \<lparr>bk_h = h, arKey = None, nKeyLength = 0, pData = d, bIsPointer = True,
                     pListNext = None, pListLast = None, pNext = None\<rparr> (bump_next_free h ht1);
           Some (SUCCESS, Some (brk ht1), ht3)
         }
       }
   }"

definition hash_pointer_update :: "'a hashtable \<Rightarrow> string \<Rightarrow> 'a \<Rightarrow> 'a op_result" where
  "hash_pointer_update ht key d =
     (if length key \<le> 0 then Some (FAILURE, None, ht)
      else (case handle_numeric key of
        Some idx \<Rightarrow> hash_pointer_index_update_or_next_insert ht idx d HASH_UPDATE
      | None \<Rightarrow> do {
          let h = pHashFunction ht key;
          let nIndex = bucket_index (nTableSize ht) h;
          r \<leftarrow> chain_find (str_match h key) (mem ht) (arBuckets ht ! nIndex);
          case r of
            Some a \<Rightarrow> do { ht1 \<leftarrow> repoint a d ht; Some (SUCCESS, Some a, ht1) }
          | None \<Rightarrow> do {
              let (ok1, ht1) = pemalloc ht;
              if \<not> ok1 then Some (FAILURE, None, ht1)
              else do {
                let (ok2, ht2) = pemalloc ht1;
                if \<not> ok2 then Some (FAILURE, None, ht2)
                else do {
                  ht3 \<leftarrow> link_bucket nIndex
                           \<lparr>bk_h = h, arKey = Some key, nKeyLength = length key, pData = d,
                            bIsPointer = True, pListNext = None, pListLast = None,
                            pNext = None\<rparr> ht2;
                  Some (SUCCESS, Some (brk ht2), ht3)
                }
              }
            }
        }))"

subsection \<open>Lookup\<close>

definition hash_index_lookup :: "'a hashtable \<Rightarrow> ulong \<Rightarrow> addr option option" where
  "hash_index_lookup ht h =
     chain_find (idx_match h) (mem ht) (arBuckets ht ! bucket_index (nTableSize ht) h)"

definition hash_str_lookup :: "'a hashtable \<Rightarrow> string \<Rightarrow> addr option option" where
  "hash_str_lookup ht key =
     (let h = pHashFunction ht key in
      chain_find (str_match h key) (mem ht) (arBuckets ht ! bucket_index (nTableSize ht) h))"

text \<open>The find functions return the status and, on success, what \<^verbatim>\<open>*pData\<close> points to.\<close>

definition read_data :: "'a hashtable \<Rightarrow> addr option \<Rightarrow> (status \<times> 'a option) option" where
  "read_data ht r =
     (case r of
        None \<Rightarrow> Some (FAILURE, None)
      | Some a \<Rightarrow> do { b \<leftarrow> mem ht a; Some (SUCCESS, Some (pData b)) })"

definition hash_index_find :: "'a hashtable \<Rightarrow> ulong \<Rightarrow> (status \<times> 'a option) option" where
  "hash_index_find ht h = do { r \<leftarrow> hash_index_lookup ht h; read_data ht r }"

definition hash_find :: "'a hashtable \<Rightarrow> string \<Rightarrow> (status \<times> 'a option) option" where
  "hash_find ht key =
     (case handle_numeric key of
        Some idx \<Rightarrow> hash_index_find ht idx
      | None \<Rightarrow> do { r \<leftarrow> hash_str_lookup ht key; read_data ht r })"

definition hash_index_exists :: "'a hashtable \<Rightarrow> ulong \<Rightarrow> bool option" where
  "hash_index_exists ht h = do { r \<leftarrow> hash_index_lookup ht h; Some (r \<noteq> None) }"

definition hash_exists :: "'a hashtable \<Rightarrow> string \<Rightarrow> bool option" where
  "hash_exists ht key =
     (case handle_numeric key of
        Some idx \<Rightarrow> hash_index_exists ht idx
      | None \<Rightarrow> do { r \<leftarrow> hash_str_lookup ht key; Some (r \<noteq> None) })"

definition read_is_pointer :: "'a hashtable \<Rightarrow> addr option \<Rightarrow> bool option" where
  "read_is_pointer ht r =
     (case r of None \<Rightarrow> Some False | Some a \<Rightarrow> do { b \<leftarrow> mem ht a; Some (bIsPointer b) })"

definition hash_index_is_pointer :: "'a hashtable \<Rightarrow> ulong \<Rightarrow> bool option" where
  "hash_index_is_pointer ht h = do { r \<leftarrow> hash_index_lookup ht h; read_is_pointer ht r }"

text \<open>
  For an empty key \<^verbatim>\<open>_php3_hash_is_pointer\<close> returns \<^verbatim>\<open>FAILURE\<close>, that is -1, which its callers
  take for true.
\<close>

definition hash_is_pointer :: "'a hashtable \<Rightarrow> string \<Rightarrow> bool option" where
  "hash_is_pointer ht key =
     (if length key \<le> 0 then Some True
      else (case handle_numeric key of
        Some idx \<Rightarrow> hash_index_is_pointer ht idx
      | None \<Rightarrow> do { r \<leftarrow> hash_str_lookup ht key; read_is_pointer ht r }))"

end
