(* ===== verification/Hash_Ops.thy ===== *)
theory Hash_Ops
  imports Hash_Model
begin

text \<open>
  The rest of \<^verbatim>\<open>php3_hash.c\<close>: deletion, destruction, the apply functions, copying and merging
  tables, the internal pointer, sorting and minimum/maximum. \<^verbatim>\<open>qsort\<close> is the C library's: its
  model is a parameter, and what the proofs need of it (the result is a permutation) is a
  hypothesis of the lemmas about sorting.
\<close>

subsection \<open>Deletion\<close>

definition del_match :: "ulong \<Rightarrow> string \<Rightarrow> 'a bucket \<Rightarrow> bool" where
  "del_match h key b \<longleftrightarrow>
     bk_h b = h \<and>
     (case arKey b of
        None \<Rightarrow> True
      | Some k \<Rightarrow> nKeyLength b = length key \<and> take (length key) k = key)"

text \<open>The search remembers the previous bucket of the chain (\<^verbatim>\<open>t\<close>).\<close>

partial_function (option) chain_find_prev ::
    "('a bucket \<Rightarrow> bool) \<Rightarrow> 'a heap \<Rightarrow> addr option \<Rightarrow> addr option
      \<Rightarrow> (addr option \<times> addr) option option" where
  "chain_find_prev P m t p =
     (case p of
        None \<Rightarrow> Some None
      | Some a \<Rightarrow> (case m a of
                      None \<Rightarrow> None
                    | Some b \<Rightarrow> if P b then Some (Some (t, a))
                                else chain_find_prev P m (Some a) (pNext b)))"

text \<open>
  Unlinking the found bucket \<open>a\<close> (with its predecessor \<open>t\<close>) from its chain and from the global
  list, and freeing it. \<^verbatim>\<open>efree(NULL)\<close> reads the block header below address 0, so deleting by
  key a bucket that has no key is undefined for a table that is not persistent.
\<close>

definition unlink_bucket ::
    "nat \<Rightarrow> addr option \<Rightarrow> addr \<Rightarrow> del_flag \<Rightarrow> 'a hashtable \<Rightarrow> 'a hashtable option" where
  "unlink_bucket nIndex t a flag ht = do {
     b \<leftarrow> mem ht a;
     ht1 \<leftarrow> (if arBuckets ht ! nIndex = Some a
             then Some (ht\<lparr>arBuckets := (arBuckets ht)[nIndex := pNext b]\<rparr>)
             else (case t of
                     None \<Rightarrow> None
                   | Some t' \<Rightarrow> upd_bucket t' (\<lambda>c. c\<lparr>pNext := pNext b\<rparr>) ht));
     ht2 \<leftarrow> (case pListLast b of
               Some q \<Rightarrow> upd_bucket q (\<lambda>c. c\<lparr>pListNext := pListNext b\<rparr>) ht1
             | None \<Rightarrow> Some (ht1\<lparr>pListHead := pListNext b\<rparr>));
     ht3 \<leftarrow> (case pListNext b of
               Some q \<Rightarrow> upd_bucket q (\<lambda>c. c\<lparr>pListLast := pListLast b\<rparr>) ht2
             | None \<Rightarrow> Some (ht2\<lparr>pListTail := pListLast b\<rparr>));
     ht4 \<leftarrow> (if flag = HASH_DEL_KEY \<and> arKey b = None \<and> \<not> persistent ht3 then None
             else Some ht3);
     let ht5 = (if \<not> bIsPointer b then call_destructor (pData b) ht4 else ht4);
     let ht6 = (if pInternalPointer ht5 = Some a
                then ht5\<lparr>pInternalPointer := pListNext b\<rparr> else ht5);
     Some (ht6\<lparr>mem := (mem ht6)(a := None), nNumOfElements := nNumOfElements ht6 - 1\<rparr>)
   }"

definition hash_del_at ::
    "'a hashtable \<Rightarrow> string \<Rightarrow> ulong \<Rightarrow> del_flag \<Rightarrow> (status \<times> 'a hashtable) option" where
  "hash_del_at ht key h flag = do {
     let nIndex = bucket_index (nTableSize ht) h;
     r \<leftarrow> chain_find_prev (del_match h key) (mem ht) None (arBuckets ht ! nIndex);
     case r of
       None \<Rightarrow> Some (FAILURE, ht)
     | Some (t, a) \<Rightarrow> do { ht1 \<leftarrow> unlink_bucket nIndex t a flag ht; Some (SUCCESS, ht1) }
   }"

definition hash_del_key_or_index ::
    "'a hashtable \<Rightarrow> string \<Rightarrow> ulong \<Rightarrow> del_flag \<Rightarrow> (status \<times> 'a hashtable) option" where
  "hash_del_key_or_index ht key h flag =
     (if flag = HASH_DEL_KEY then
        (case handle_numeric key of
           Some idx \<Rightarrow> hash_del_at ht key idx HASH_DEL_INDEX
         | None \<Rightarrow> hash_del_at ht key (pHashFunction ht key) HASH_DEL_KEY)
      else hash_del_at ht key h flag)"

abbreviation hash_del :: "'a hashtable \<Rightarrow> string \<Rightarrow> (status \<times> 'a hashtable) option" where
  "hash_del ht key \<equiv> hash_del_key_or_index ht key 0 HASH_DEL_KEY"

abbreviation hash_index_del :: "'a hashtable \<Rightarrow> ulong \<Rightarrow> (status \<times> 'a hashtable) option" where
  "hash_index_del ht h \<equiv> hash_del_key_or_index ht [] h HASH_DEL_INDEX"

partial_function (option) destroy_loop ::
    "addr option \<Rightarrow> 'a hashtable \<Rightarrow> 'a hashtable option" where
  "destroy_loop p ht =
     (case p of
        None \<Rightarrow> Some ht
      | Some a \<Rightarrow> (case mem ht a of
                      None \<Rightarrow> None
                    | Some b \<Rightarrow>
                        (let ht1 = (if \<not> bIsPointer b then call_destructor (pData b) ht else ht)
                         in destroy_loop (pListNext b) (ht1\<lparr>mem := (mem ht1)(a := None)\<rparr>))))"

text \<open>The struct itself stays, its pointers dangling; what is left of the heap is returned in it.\<close>

definition hash_destroy :: "'a hashtable \<Rightarrow> 'a hashtable option" where
  "hash_destroy ht = do {
     ht1 \<leftarrow> destroy_loop (pListHead ht) ht;
     Some (ht1\<lparr>arBuckets := []\<rparr>)
   }"

subsection \<open>Apply\<close>

text \<open>
  The callback receives a pointer to the data: it may change the data, and returns whether the
  entry is to be deleted. What else it reads and changes is a state \<open>s\<close>, so that a call later in the
  walk may depend on the calls before it. The next bucket is read before the callback runs.
\<close>

type_synonym ('a, 's) apply_func = "'a \<Rightarrow> 's \<Rightarrow> bool \<times> 'a \<times> 's"

definition apply_one ::
    "('a, 's) apply_func \<Rightarrow> addr \<Rightarrow> 'a bucket \<Rightarrow> 's \<Rightarrow> 'a hashtable \<Rightarrow> ('s \<times> 'a hashtable) option" where
  "apply_one destruct a b s ht =
     (case destruct (pData b) s of
        (del, d, s') \<Rightarrow> do {
          ht1 \<leftarrow> upd_bucket a (\<lambda>c. c\<lparr>pData := d\<rparr>) ht;
          ht2 \<leftarrow> (if del then
                    (case arKey b of
                       None \<Rightarrow> map_option snd (hash_index_del ht1 (bk_h b))
                     | Some k \<Rightarrow> map_option snd (hash_del ht1 (take (nKeyLength b) k)))
                  else Some ht1);
          Some (s', ht2)
        })"

partial_function (option) apply_loop ::
    "('a, 's) apply_func \<Rightarrow> addr option \<Rightarrow> 's \<Rightarrow> 'a hashtable \<Rightarrow> ('s \<times> 'a hashtable) option" where
  "apply_loop destruct p s ht =
     (case p of
        None \<Rightarrow> Some (s, ht)
      | Some a \<Rightarrow> (case mem ht a of
                      None \<Rightarrow> None
                    | Some b \<Rightarrow> Option.bind (apply_one destruct a b s ht)
                                  (\<lambda>r. apply_loop destruct (pListNext b) (fst r) (snd r))))"

definition hash_apply :: "'a hashtable \<Rightarrow> ('a, 's) apply_func \<Rightarrow> 's \<Rightarrow> ('s \<times> 'a hashtable) option" where
  "hash_apply ht destruct s = apply_loop destruct (pListHead ht) s ht"

definition hash_apply_with_argument ::
    "'a hashtable \<Rightarrow> ('a \<Rightarrow> 'b \<Rightarrow> 's \<Rightarrow> bool \<times> 'a \<times> 's) \<Rightarrow> 'b \<Rightarrow> 's \<Rightarrow> ('s \<times> 'a hashtable) option" where
  "hash_apply_with_argument ht destruct argument s =
     apply_loop (\<lambda>d. destruct d argument) (pListHead ht) s ht"

subsection \<open>The internal pointer\<close>

definition hash_num_elements :: "'a hashtable \<Rightarrow> nat" where
  "hash_num_elements ht = nNumOfElements ht"

definition hash_next_free_element :: "'a hashtable \<Rightarrow> ulong" where
  "hash_next_free_element ht = nNextFreeElement ht"

definition hash_internal_pointer_reset :: "'a hashtable \<Rightarrow> 'a hashtable" where
  "hash_internal_pointer_reset ht = ht\<lparr>pInternalPointer := pListHead ht\<rparr>"

definition hash_internal_pointer_end :: "'a hashtable \<Rightarrow> 'a hashtable" where
  "hash_internal_pointer_end ht = ht\<lparr>pInternalPointer := pListTail ht\<rparr>"

definition hash_move_forward :: "'a hashtable \<Rightarrow> 'a hashtable option" where
  "hash_move_forward ht =
     (case pInternalPointer ht of
        None \<Rightarrow> Some ht
      | Some a \<Rightarrow> do { b \<leftarrow> mem ht a; Some (ht\<lparr>pInternalPointer := pListNext b\<rparr>) })"

definition hash_move_backwards :: "'a hashtable \<Rightarrow> 'a hashtable option" where
  "hash_move_backwards ht =
     (case pInternalPointer ht of
        None \<Rightarrow> Some ht
      | Some a \<Rightarrow> do { b \<leftarrow> mem ht a; Some (ht\<lparr>pInternalPointer := pListLast b\<rparr>) })"

definition hash_get_current_key :: "'a hashtable \<Rightarrow> current_key option" where
  "hash_get_current_key ht =
     (case pInternalPointer ht of
        None \<Rightarrow> Some KEY_NON_EXISTANT
      | Some a \<Rightarrow> do {
          b \<leftarrow> mem ht a;
          (case arKey b of
             Some k \<Rightarrow> Some (KEY_IS_STRING (take (nKeyLength b) k))
           | None \<Rightarrow> Some (KEY_IS_LONG (bk_h b)))
        })"

definition hash_get_current_data :: "'a hashtable \<Rightarrow> (status \<times> 'a option) option" where
  "hash_get_current_data ht = read_data ht (pInternalPointer ht)"

subsection \<open>Copying and merging\<close>

definition copy_one :: "('a \<Rightarrow> 'a) \<Rightarrow> 'a bucket \<Rightarrow> 'a hashtable \<Rightarrow> 'a hashtable option" where
  "copy_one ctor b t =
     (case arKey b of
        Some k \<Rightarrow> map_option (snd \<circ> snd) (hash_update t (take (nKeyLength b) k) (ctor (pData b)))
      | None \<Rightarrow> map_option (snd \<circ> snd) (hash_index_update t (bk_h b) (ctor (pData b))))"

partial_function (option) copy_loop ::
    "('a \<Rightarrow> 'a) \<Rightarrow> 'a heap \<Rightarrow> addr option \<Rightarrow> 'a hashtable \<Rightarrow> 'a hashtable option" where
  "copy_loop ctor m p t =
     (case p of
        None \<Rightarrow> Some t
      | Some a \<Rightarrow> (case m a of
                      None \<Rightarrow> None
                    | Some b \<Rightarrow> Option.bind (copy_one ctor b t)
                                  (\<lambda>t1. copy_loop ctor m (pListNext b) t1)))"

definition hash_copy :: "'a hashtable \<Rightarrow> ('a \<Rightarrow> 'a) \<Rightarrow> 'a hashtable option option" where
  "hash_copy source ctor =
     (case hash_init (nTableSize source) (Some (pHashFunction source)) (pDestructor source)
             False [] of
        (_, None) \<Rightarrow> Some None
      | (_, Some t) \<Rightarrow> do {
          t1 \<leftarrow> copy_loop ctor (mem source) (pListHead source) t;
          Some (Some (t1\<lparr>pInternalPointer := pListHead t1\<rparr>))
        })"

definition construct_at ::
    "('a \<Rightarrow> 'a) option \<Rightarrow> (status \<times> addr option \<times> 'a hashtable) \<Rightarrow> 'a hashtable option" where
  "construct_at ctor r =
     (case (r, ctor) of
        ((SUCCESS, Some a, t), Some f) \<Rightarrow> upd_bucket a (\<lambda>c. c\<lparr>pData := f (pData c)\<rparr>) t
      | ((_, _, t), _) \<Rightarrow> Some t)"

definition merge_one :: "('a \<Rightarrow> 'a) option \<Rightarrow> 'a bucket \<Rightarrow> 'a hashtable \<Rightarrow> 'a hashtable option" where
  "merge_one ctor b t =
     (case arKey b of
        Some k \<Rightarrow> Option.bind (hash_add t (take (nKeyLength b) k) (pData b)) (construct_at ctor)
      | None \<Rightarrow> do {
          ex \<leftarrow> hash_index_exists t (bk_h b);
          if ex then Some t
          else Option.bind (hash_index_update t (bk_h b) (pData b)) (construct_at ctor)
        })"

partial_function (option) merge_loop ::
    "('a \<Rightarrow> 'a) option \<Rightarrow> 'a heap \<Rightarrow> addr option \<Rightarrow> 'a hashtable \<Rightarrow> 'a hashtable option" where
  "merge_loop ctor m p t =
     (case p of
        None \<Rightarrow> Some t
      | Some a \<Rightarrow> (case m a of
                      None \<Rightarrow> None
                    | Some b \<Rightarrow> Option.bind (merge_one ctor b t)
                                  (\<lambda>t1. merge_loop ctor m (pListNext b) t1)))"

definition hash_merge ::
    "'a hashtable \<Rightarrow> 'a hashtable \<Rightarrow> ('a \<Rightarrow> 'a) option \<Rightarrow> 'a hashtable option" where
  "hash_merge target source ctor = do {
     t1 \<leftarrow> merge_loop ctor (mem source) (pListHead source) target;
     Some (t1\<lparr>pInternalPointer := pListHead t1\<rparr>)
   }"

subsection \<open>Sorting, minimum and maximum\<close>

partial_function (option) list_walk :: "'a heap \<Rightarrow> addr option \<Rightarrow> addr list option" where
  "list_walk m p =
     (case p of
        None \<Rightarrow> Some []
      | Some a \<Rightarrow> (case m a of
                      None \<Rightarrow> None
                    | Some b \<Rightarrow> Option.bind (list_walk m (pListNext b)) (\<lambda>xs. Some (a # xs))))"

fun relink_loop :: "addr list \<Rightarrow> 'a hashtable \<Rightarrow> 'a hashtable option" where
  "relink_loop [] ht = Some ht"
| "relink_loop (a # xs) ht = do {
     ht1 \<leftarrow> (case pListTail ht of
               None \<Rightarrow> Some ht
             | Some t \<Rightarrow> upd_bucket t (\<lambda>c. c\<lparr>pListNext := Some a\<rparr>) ht);
     ht2 \<leftarrow> upd_bucket a (\<lambda>c. c\<lparr>pListLast := pListTail ht1, pListNext := None\<rparr>) ht1;
     relink_loop xs (ht2\<lparr>pListTail := Some a\<rparr>)
   }"

partial_function (option) renumber_loop ::
    "addr option \<Rightarrow> nat \<Rightarrow> 'a hashtable \<Rightarrow> (nat \<times> 'a hashtable) option" where
  "renumber_loop p i ht =
     (case p of
        None \<Rightarrow> Some (i, ht)
      | Some a \<Rightarrow> (case mem ht a of
                      None \<Rightarrow> None
                    | Some b \<Rightarrow>
                        renumber_loop (pListNext b) (Suc i)
                          (ht\<lparr>mem := (mem ht)(a \<mapsto> b\<lparr>arKey := None, nKeyLength := 0,
                                                     bk_h := of_nat i\<rparr>)\<rparr>)))"

definition heap_cmp :: "('a bucket \<Rightarrow> 'a bucket \<Rightarrow> int) \<Rightarrow> 'a heap \<Rightarrow> addr \<Rightarrow> addr \<Rightarrow> int" where
  "heap_cmp compar m a c = compar (the (m a)) (the (m c))"

definition hash_renumber :: "'a hashtable \<Rightarrow> 'a hashtable option" where
  "hash_renumber ht = do {
     (i, ht1) \<leftarrow> renumber_loop (pListHead ht) 0 ht;
     hash_rehash (ht1\<lparr>nNextFreeElement := of_nat i\<rparr>)
   }"

definition hash_sort ::
    "((addr \<Rightarrow> addr \<Rightarrow> int) \<Rightarrow> addr list \<Rightarrow> addr list) \<Rightarrow> 'a hashtable
      \<Rightarrow> ('a bucket \<Rightarrow> 'a bucket \<Rightarrow> int) \<Rightarrow> bool \<Rightarrow> (status \<times> 'a hashtable) option" where
  "hash_sort qsort ht compar renumber =
     (if nNumOfElements ht \<le> 1 then Some (SUCCESS, ht)
      else do {
        let (ok, ht0) = pemalloc ht;
        if \<not> ok then Some (FAILURE, ht0)
        else do {
          xs \<leftarrow> list_walk (mem ht0) (pListHead ht0);
          let arTmp = qsort (heap_cmp compar (mem ht0)) xs;
          let hd_p = (case arTmp of [] \<Rightarrow> None | a # _ \<Rightarrow> Some a);
          ht1 \<leftarrow> relink_loop arTmp
                   (ht0\<lparr>pListHead := hd_p, pListTail := None, pInternalPointer := hd_p\<rparr>);
          ht2 \<leftarrow> (if renumber then hash_renumber ht1 else Some ht1);
          Some (SUCCESS, ht2)
        }
      })"

text \<open>\<^verbatim>\<open>while ((p = p->pListNext)) if (compar(&res, &p) < 0 or > 0) res = p;\<close>\<close>

partial_function (option) minmax_loop ::
    "('a bucket \<Rightarrow> 'a bucket \<Rightarrow> int) \<Rightarrow> bool \<Rightarrow> 'a heap \<Rightarrow> addr option \<Rightarrow> 'a bucket
      \<Rightarrow> 'a bucket option" where
  "minmax_loop compar mx m p res =
     (case p of
        None \<Rightarrow> Some res
      | Some a \<Rightarrow> (case m a of
                      None \<Rightarrow> None
                    | Some b \<Rightarrow>
                        minmax_loop compar mx m (pListNext b)
                          (if (if mx then compar res b < 0 else compar res b > 0)
                           then b else res)))"

definition hash_minmax ::
    "'a hashtable \<Rightarrow> ('a bucket \<Rightarrow> 'a bucket \<Rightarrow> int) \<Rightarrow> bool \<Rightarrow> (status \<times> 'a option) option" where
  "hash_minmax ht compar mx =
     (if nNumOfElements ht = 0 then Some (FAILURE, None)
      else do {
        a \<leftarrow> pListHead ht;
        b \<leftarrow> mem ht a;
        r \<leftarrow> minmax_loop compar mx (mem ht) (pListNext b) b;
        Some (SUCCESS, Some (pData r))
      })"

end
