(* ===== verification/Hash_Heap.thy ===== *)
theory Hash_Heap
  imports Hash_Ops
begin

text \<open>
  Pointer reasoning for the hash table: list segments of the global doubly linked list,
  collision chains, and how the loops of \<open>Hash_Model\<close> and \<open>Hash_Ops\<close> that follow the
  pointers compute list functions. Segments depend only on the list links of a bucket, chains
  only on its chain link, and keys and data on neither, which is what the congruence lemmas say.
\<close>

definition hd_or :: "'b list \<Rightarrow> 'b option \<Rightarrow> 'b option" where
  "hd_or xs n = (case xs of [] \<Rightarrow> n | a # _ \<Rightarrow> Some a)"

definition last_or :: "'b list \<Rightarrow> 'b option \<Rightarrow> 'b option" where
  "last_or xs p = (if xs = [] then p else Some (last xs))"

lemma hd_or_simps [simp]:
  "hd_or [] n = n" "hd_or (a # xs) n = Some a" "hd_or (xs @ ys) n = hd_or xs (hd_or ys n)"
  by (simp_all add: hd_or_def split: list.splits)

lemma last_or_simps [simp]:
  "last_or [] p = p" "last_or (a # xs) p = last_or xs (Some a)" "last_or (xs @ [a]) p = Some a"
  "last_or (xs @ ys) p = last_or ys (last_or xs p)"
  by (simp_all add: last_or_def)

lemma hd_or_None_iff [simp]: "hd_or xs None = None \<longleftrightarrow> xs = []"
  by (cases xs) simp_all

lemma last_or_None_iff [simp]: "last_or xs None = None \<longleftrightarrow> xs = []"
  by (simp add: last_or_def)

lemma last_or_Some_in: "last_or xs None = Some a \<Longrightarrow> a \<in> set xs"
  by (auto simp: last_or_def split: if_splits)

lemma hd_or_Some_in: "hd_or xs None = Some a \<Longrightarrow> a \<in> set xs"
  by (cases xs) auto

subsection \<open>Segments of the global list\<close>

fun dseg :: "'a heap \<Rightarrow> addr option \<Rightarrow> addr list \<Rightarrow> addr option \<Rightarrow> bool" where
  "dseg m prev [] nxt = True"
| "dseg m prev (a # xs) nxt =
     (\<exists>b. m a = Some b \<and> pListLast b = prev \<and> pListNext b = hd_or xs nxt \<and>
          dseg m (Some a) xs nxt)"

definition links :: "'a bucket \<Rightarrow> addr option \<times> addr option" where
  "links b = (pListLast b, pListNext b)"

lemma dseg_append [simp]:
  "dseg m prev (xs @ ys) nxt \<longleftrightarrow>
     dseg m prev xs (hd_or ys nxt) \<and> dseg m (last_or xs prev) ys nxt"
  by (induction xs arbitrary: prev) auto

lemma dseg_cong:
  assumes "\<And>a. a \<in> set xs \<Longrightarrow> map_option links (m a) = map_option links (m' a)"
  shows "dseg m prev xs nxt \<longleftrightarrow> dseg m' prev xs nxt"
  using assms
proof (induction xs arbitrary: prev)
  case (Cons a xs)
  have "map_option links (m a) = map_option links (m' a)"
    by (rule Cons.prems) simp
  then show ?case
    using Cons by (cases "m a"; cases "m' a") (auto simp: links_def)
qed simp

lemma dseg_upd_other [simp]: "a \<notin> set xs \<Longrightarrow> dseg (m(a := v)) prev xs nxt \<longleftrightarrow> dseg m prev xs nxt"
  by (rule dseg_cong) auto

lemma dseg_in_dom: "dseg m prev xs nxt \<Longrightarrow> set xs \<subseteq> dom m"
  by (induction xs arbitrary: prev) auto

subsection \<open>Collision chains\<close>

fun chain :: "'a heap \<Rightarrow> addr option \<Rightarrow> addr list \<Rightarrow> bool" where
  "chain m p [] = (p = None)"
| "chain m p (a # ys) = (p = Some a \<and> (\<exists>b. m a = Some b \<and> chain m (pNext b) ys))"

lemma chain_cong:
  assumes "\<And>a. a \<in> set ys \<Longrightarrow> map_option pNext (m a) = map_option pNext (m' a)"
  shows "chain m p ys \<longleftrightarrow> chain m' p ys"
  using assms
proof (induction ys arbitrary: p)
  case (Cons a ys)
  have "map_option pNext (m a) = map_option pNext (m' a)"
    by (rule Cons.prems) simp
  then show ?case
    using Cons by (cases "m a"; cases "m' a") auto
qed simp

lemma chain_upd_other [simp]: "a \<notin> set ys \<Longrightarrow> chain (m(a := v)) p ys \<longleftrightarrow> chain m p ys"
  by (rule chain_cong) auto

lemma chain_None [simp]: "chain m None ys \<longleftrightarrow> ys = []"
  by (cases ys) auto

lemma chain_head: "chain m p ys \<Longrightarrow> p = hd_or ys None"
  by (cases ys) auto

lemma chain_unique: "chain m p ys \<Longrightarrow> chain m p zs \<Longrightarrow> ys = zs"
proof (induction ys arbitrary: p zs)
  case (Cons a ys)
  then show ?case by (cases zs) auto
qed auto

lemma chain_relink:
  assumes "chain m p (us @ a # vs)" and "distinct (us @ a # vs)" and "us \<noteq> []"
    and "m a = Some b" and "m (last us) = Some c"
  shows "chain (m(last us \<mapsto> c\<lparr>pNext := pNext b\<rparr>)) p (us @ vs)"
  using assms
proof (induction us arbitrary: p)
  case (Cons x us)
  obtain d where d: "p = Some x" "m x = Some d" "chain m (pNext d) (us @ a # vs)"
    using Cons.prems(1) by auto
  show ?case
  proof (cases "us = []")
    case True
    then have "chain m (pNext b) vs" "x \<notin> set vs" "c = d"
      using d Cons.prems(2,4,5) by auto
    then have "chain (m(x \<mapsto> c\<lparr>pNext := pNext b\<rparr>)) (Some x) (x # vs)" by simp
    then show ?thesis unfolding True d(1) by (simp only: last.simps append.simps if_True simp_thms)
  next
    case False
    then have "x \<noteq> last us" "last (x # us) = last us" using Cons.prems(2) by auto
    then show ?thesis using d Cons.IH[OF d(3)] Cons.prems False by simp
  qed
qed simp

subsection \<open>The pointer-chasing loops\<close>

lemma chain_find_eq:
  "chain m p ys \<Longrightarrow> chain_find P m p = Some (find (\<lambda>a. P (the (m a))) ys)"
proof (induction ys arbitrary: p)
  case Nil
  then show ?case by (simp add: chain_find.simps)
next
  case (Cons a ys)
  then obtain b where "p = Some a" "m a = Some b" "chain m (pNext b) ys" by auto
  then show ?case using Cons.IH by (subst chain_find.simps) simp
qed

lemma chain_find_prev_None:
  "chain m p ys \<Longrightarrow> (\<And>a. a \<in> set ys \<Longrightarrow> \<not> P (the (m a))) \<Longrightarrow> chain_find_prev P m t p = Some None"
proof (induction ys arbitrary: p t)
  case Nil
  then show ?case by (simp add: chain_find_prev.simps)
next
  case (Cons a ys)
  then obtain b where b: "p = Some a" "m a = Some b" "chain m (pNext b) ys" by auto
  then have "\<not> P b" using Cons.prems(2)[of a] by simp
  then show ?case using b Cons.IH[OF b(3)] Cons.prems(2) by (subst chain_find_prev.simps) simp
qed

lemma chain_find_prev_Some:
  "chain m p (us @ a # vs) \<Longrightarrow> (\<And>x. x \<in> set us \<Longrightarrow> \<not> P (the (m x))) \<Longrightarrow> P (the (m a)) \<Longrightarrow>
   chain_find_prev P m t p = Some (Some (last_or us t, a))"
proof (induction us arbitrary: p t)
  case Nil
  then show ?case by (subst chain_find_prev.simps) auto
next
  case (Cons x us)
  then obtain b where b: "p = Some x" "m x = Some b" "chain m (pNext b) (us @ a # vs)" by auto
  then have "\<not> P b" using Cons.prems(2)[of x] by simp
  then show ?case
    using b Cons.IH[OF b(3)] Cons.prems(2,3) by (subst chain_find_prev.simps) simp
qed

lemma list_walk_eq: "dseg m prev xs None \<Longrightarrow> list_walk m (hd_or xs None) = Some xs"
proof (induction xs arbitrary: prev)
  case Nil
  then show ?case by (simp add: list_walk.simps)
next
  case (Cons a xs)
  then obtain b where "m a = Some b" "pListNext b = hd_or xs None" "dseg m (Some a) xs None"
    by auto
  then show ?case using Cons.IH by (subst list_walk.simps) simp
qed

lemma find_unique:
  assumes "\<And>x y. x \<in> set ys \<Longrightarrow> y \<in> set ys \<Longrightarrow> P x \<Longrightarrow> P y \<Longrightarrow> x = y"
  shows "find P ys = Some a \<longleftrightarrow> a \<in> set ys \<and> P a"
  using assms by (induction ys) auto

end
