(* ===== verification/Hash_Inv.thy ===== *)
theory Hash_Inv
  imports Hash_Heap
begin

text \<open>
  The representation invariant of the hash table and its abstraction: the list of the entries
  (key and data) in the order of the global list. \<open>hash_repr ht xs\<close> says that \<open>xs\<close> are the
  buckets of the global list, that they are all the live buckets, that every chain holds the
  buckets of its index, that keys are unique and normalised, and that the counters and the
  internal pointer agree with the list.
\<close>

datatype hkey = IntKey ulong | StrKey string

definition norm_key :: "string \<Rightarrow> hkey" where
  "norm_key s = (case handle_numeric s of Some i \<Rightarrow> IntKey i | None \<Rightarrow> StrKey s)"

definition key_of :: "'a bucket \<Rightarrow> hkey" where
  "key_of b = (case arKey b of None \<Rightarrow> IntKey (bk_h b) | Some k \<Rightarrow> StrKey k)"

definition bkey :: "'a heap \<Rightarrow> addr \<Rightarrow> hkey" where
  "bkey m a = key_of (the (m a))"

definition bdata :: "'a heap \<Rightarrow> addr \<Rightarrow> 'a" where
  "bdata m a = pData (the (m a))"

definition bidx :: "nat \<Rightarrow> 'a heap \<Rightarrow> addr \<Rightarrow> nat" where
  "bidx n m a = bucket_index n (bk_h (the (m a)))"

definition bucket_ok :: "(string \<Rightarrow> ulong) \<Rightarrow> 'a bucket \<Rightarrow> bool" where
  "bucket_ok hf b \<longleftrightarrow>
     (case arKey b of
        None \<Rightarrow> nKeyLength b = 0
      | Some k \<Rightarrow> k \<noteq> [] \<and> nKeyLength b = length k \<and> bk_h b = hf k \<and> handle_numeric k = None)"

definition entries :: "'a heap \<Rightarrow> addr list \<Rightarrow> (hkey \<times> 'a) list" where
  "entries m xs = map (\<lambda>a. (bkey m a, bdata m a)) xs"

definition list_ok :: "'a heap \<Rightarrow> addr option \<Rightarrow> addr option \<Rightarrow> addr list \<Rightarrow> bool" where
  "list_ok m hd_p tl_p xs \<longleftrightarrow>
     distinct xs \<and> dom m = set xs \<and> dseg m None xs None \<and>
     hd_p = hd_or xs None \<and> tl_p = last_or xs None"

definition chains_ok :: "nat \<Rightarrow> 'a heap \<Rightarrow> addr option list \<Rightarrow> bool" where
  "chains_ok n m bs \<longleftrightarrow>
     0 < n \<and> length bs = n \<and>
     (\<forall>i<n. \<exists>ys. chain m (bs ! i) ys \<and> distinct ys \<and> set ys = {a \<in> dom m. bidx n m a = i})"

definition keys_ok :: "(string \<Rightarrow> ulong) \<Rightarrow> 'a heap \<Rightarrow> bool" where
  "keys_ok hf m \<longleftrightarrow> (\<forall>a b. m a = Some b \<longrightarrow> bucket_ok hf b) \<and> inj_on (bkey m) (dom m)"

definition size_ok :: "'a hashtable \<Rightarrow> bool" where
  "size_ok ht \<longleftrightarrow>
     nHashSizeIndex ht < nNumPrimeNumbers \<and> nTableSize ht = PrimeNumbers ! nHashSizeIndex ht"

definition hash_repr :: "'a hashtable \<Rightarrow> addr list \<Rightarrow> bool" where
  "hash_repr ht xs \<longleftrightarrow>
     list_ok (mem ht) (pListHead ht) (pListTail ht) xs \<and>
     chains_ok (nTableSize ht) (mem ht) (arBuckets ht) \<and>
     keys_ok (pHashFunction ht) (mem ht) \<and>
     size_ok ht \<and>
     nNumOfElements ht = length xs \<and>
     (\<forall>a \<in> set xs. a < brk ht) \<and>
     (\<forall>a. pInternalPointer ht = Some a \<longrightarrow> a \<in> set xs)"

text \<open>The abstraction as a function: the walk along the global list.\<close>

definition hash_addrs :: "'a hashtable \<Rightarrow> addr list" where
  "hash_addrs ht = (case list_walk (mem ht) (pListHead ht) of Some xs \<Rightarrow> xs | None \<Rightarrow> [])"

definition hash_inv :: "'a hashtable \<Rightarrow> bool" where
  "hash_inv ht \<longleftrightarrow> hash_repr ht (hash_addrs ht)"

definition hash_entries :: "'a hashtable \<Rightarrow> (hkey \<times> 'a) list" where
  "hash_entries ht = entries (mem ht) (hash_addrs ht)"

lemma hash_repr_addrs: "hash_repr ht xs \<Longrightarrow> hash_addrs ht = xs"
  by (auto simp: hash_repr_def list_ok_def hash_addrs_def list_walk_eq)

lemma hash_repr_inv: "hash_repr ht xs \<Longrightarrow> hash_inv ht"
  by (simp add: hash_inv_def hash_repr_addrs)

lemma hash_repr_entries: "hash_repr ht xs \<Longrightarrow> hash_entries ht = entries (mem ht) xs"
  by (simp add: hash_entries_def hash_repr_addrs)

lemma hash_inv_repr: "hash_inv ht \<Longrightarrow> hash_repr ht (hash_addrs ht)"
  by (simp add: hash_inv_def)

text \<open>The cursor, seen from outside: how many entries precede the internal pointer.\<close>

definition cursor_of :: "'a hashtable \<Rightarrow> addr option \<Rightarrow> nat option" where
  "cursor_of ht p = (case p of None \<Rightarrow> None | Some a \<Rightarrow> Some (length (takeWhile (\<lambda>x. x \<noteq> a) (hash_addrs ht))))"

subsection \<open>What a change of links keeps\<close>

text \<open>Two heaps agree up to the chain link of every bucket, or up to all links.\<close>

definition strip_chain :: "'a bucket \<Rightarrow> 'a bucket" where
  "strip_chain b = b\<lparr>pNext := None\<rparr>"

definition strip_links :: "'a bucket \<Rightarrow> 'a bucket" where
  "strip_links b = b\<lparr>pNext := None, pListNext := None, pListLast := None\<rparr>"

definition chain_eq :: "'a heap \<Rightarrow> 'a heap \<Rightarrow> bool" where
  "chain_eq m m' \<longleftrightarrow> (\<forall>a. map_option strip_chain (m a) = map_option strip_chain (m' a))"

definition links_eq :: "'a heap \<Rightarrow> 'a heap \<Rightarrow> bool" where
  "links_eq m m' \<longleftrightarrow> (\<forall>a. map_option strip_links (m a) = map_option strip_links (m' a))"

lemma strip_chainD:
  "strip_chain b = strip_chain c \<Longrightarrow>
   bk_h b = bk_h c \<and> arKey b = arKey c \<and> nKeyLength b = nKeyLength c \<and> pData b = pData c \<and>
   bIsPointer b = bIsPointer c \<and> pListNext b = pListNext c \<and> pListLast b = pListLast c"
  by (cases b; cases c) (simp add: strip_chain_def)

lemma strip_linksD:
  "strip_links b = strip_links c \<Longrightarrow>
   bk_h b = bk_h c \<and> arKey b = arKey c \<and> nKeyLength b = nKeyLength c \<and> pData b = pData c \<and>
   bIsPointer b = bIsPointer c"
  by (cases b; cases c) (simp add: strip_links_def)

lemma chain_eq_links_eq: "chain_eq m m' \<Longrightarrow> links_eq m m'"
proof -
  assume *: "chain_eq m m'"
  have "strip_links b = strip_links (strip_chain b)" for b :: "'a bucket"
    by (cases b) (simp add: strip_links_def strip_chain_def)
  then have "map_option strip_links x = map_option strip_links (map_option strip_chain x)"
    for x :: "'a bucket option" by (cases x) auto
  with * show ?thesis by (metis chain_eq_def links_eq_def)
qed

lemma links_eq_cases:
  assumes "links_eq m m'"
  obtains "m a = None" "m' a = None"
  | b b' where "m a = Some b" "m' a = Some b'" "strip_links b = strip_links b'"
  using assms by (cases "m a"; cases "m' a") (auto simp: links_eq_def elim: allE[of _ a])

lemma links_eq_None: "links_eq m m' \<Longrightarrow> m' a = None \<longleftrightarrow> m a = None"
  by (rule links_eq_cases[of m m' a]) auto

lemma links_eq_dom: "links_eq m m' \<Longrightarrow> dom m' = dom m"
  by (simp add: dom_def links_eq_None)

lemma links_eq_refl [simp]: "links_eq m m"
  by (simp add: links_eq_def)

lemma chain_eq_refl [simp]: "chain_eq m m"
  by (simp add: chain_eq_def)

lemma links_eq_trans: "links_eq m m' \<Longrightarrow> links_eq m' m'' \<Longrightarrow> links_eq m m''"
  by (simp add: links_eq_def)

lemma chain_eq_trans: "chain_eq m m' \<Longrightarrow> chain_eq m' m'' \<Longrightarrow> chain_eq m m''"
  by (simp add: chain_eq_def)

lemma links_eq_bkey: "links_eq m m' \<Longrightarrow> bkey m' a = bkey m a"
  by (rule links_eq_cases[of m m' a])
     (auto simp: bkey_def key_of_def dest!: strip_linksD split: option.splits)

lemma links_eq_bdata: "links_eq m m' \<Longrightarrow> bdata m' a = bdata m a"
  by (rule links_eq_cases[of m m' a]) (auto simp: bdata_def dest!: strip_linksD)

lemma links_eq_bidx: "links_eq m m' \<Longrightarrow> bidx n m' a = bidx n m a"
  by (rule links_eq_cases[of m m' a]) (auto simp: bidx_def dest!: strip_linksD)

lemma links_eq_entries: "links_eq m m' \<Longrightarrow> entries m' xs = entries m xs"
  by (simp add: entries_def links_eq_bkey links_eq_bdata)

lemma bucket_ok_strip: "strip_links b = strip_links c \<Longrightarrow> bucket_ok hf b = bucket_ok hf c"
  by (auto simp: bucket_ok_def dest!: strip_linksD split: option.splits)

lemma links_eq_keys_ok: "links_eq m m' \<Longrightarrow> keys_ok hf m \<Longrightarrow> keys_ok hf m'"
proof -
  assume eq: "links_eq m m'" and ok: "keys_ok hf m"
  have "bkey m' = bkey m" by (simp add: fun_eq_iff links_eq_bkey[OF eq])
  moreover have "bucket_ok hf b'" if "m' a = Some b'" for a b'
    using that ok by (rule_tac links_eq_cases[OF eq, of a]) (auto simp: keys_ok_def dest: bucket_ok_strip)
  ultimately show ?thesis using ok links_eq_dom[OF eq] by (simp add: keys_ok_def)
qed

lemma chain_eq_dseg: "chain_eq m m' \<Longrightarrow> dseg m' p xs q \<longleftrightarrow> dseg m p xs q"
proof (rule dseg_cong)
  fix a assume *: "chain_eq m m'"
  show "map_option links (m' a) = map_option links (m a)"
    by (cases "m a"; cases "m' a")
       (use *[unfolded chain_eq_def, rule_format, of a] in \<open>auto simp: links_def dest!: strip_chainD\<close>)
qed

text \<open>A write to the list links of a bucket keeps every chain.\<close>

lemma chains_ok_links:
  assumes ok: "chains_ok n m bs" and eq: "links_eq m m'"
    and nx: "\<And>a. map_option pNext (m' a) = map_option pNext (m a)"
  shows "chains_ok n m' bs"
proof -
  have "chain m' p ys = chain m p ys" for p ys by (rule chain_cong) (simp add: nx)
  then show ?thesis
    using ok links_eq_dom[OF eq] by (simp add: chains_ok_def links_eq_bidx[OF eq])
qed

end
