(* ===== verification/Hash_Insert.thy ===== *)
theory Hash_Insert
  imports Hash_Inv
begin

text \<open>
  Resizing and the insertion of a bucket keep the representation invariant and append one
  entry; the search loops find the bucket of a key.
\<close>

subsection \<open>The prime table\<close>

lemma nNumPrimeNumbers_eq [simp]: "nNumPrimeNumbers = length PrimeNumbers"
  by (simp add: nNumPrimeNumbers_def)

lemma length_PrimeNumbers: "length PrimeNumbers = 29"
  by (simp add: PrimeNumbers_def)

lemma primes_pos: "i < length PrimeNumbers \<Longrightarrow> 0 < PrimeNumbers ! i"
proof -
  have "\<forall>p \<in> set PrimeNumbers. 0 < p" by (simp add: PrimeNumbers_def)
  then show "i < length PrimeNumbers \<Longrightarrow> ?thesis" by simp
qed

lemma primes_sorted: "sorted_wrt (<) PrimeNumbers"
  by (simp add: PrimeNumbers_def)

lemma size_ok_pos: "size_ok ht \<Longrightarrow> 0 < nTableSize ht"
  by (simp add: size_ok_def primes_pos)

lemma bucket_index_less: "0 < n \<Longrightarrow> bucket_index n h < n"
  by (simp add: bucket_index_def)

subsection \<open>Rehashing\<close>

lemma chain_eq_upd_pNext: "m a = Some b \<Longrightarrow> chain_eq m (m(a \<mapsto> b\<lparr>pNext := q\<rparr>))"
  by (simp add: chain_eq_def strip_chain_def)

lemma rehash_loop_ok:
  assumes "dseg (mem ht) prev todo None" and "distinct (dn @ todo)"
    and "0 < nTableSize ht" and "length (arBuckets ht) = nTableSize ht"
    and "\<And>i. i < nTableSize ht \<Longrightarrow>
           chain (mem ht) (arBuckets ht ! i)
             (rev (filter (\<lambda>a. bidx (nTableSize ht) (mem ht) a = i) dn))"
  shows "\<exists>m bs. rehash_loop (hd_or todo None) ht = Some (ht\<lparr>mem := m, arBuckets := bs\<rparr>) \<and>
           chain_eq (mem ht) m \<and> length bs = nTableSize ht \<and>
           (\<forall>i < nTableSize ht. chain m (bs ! i)
             (rev (filter (\<lambda>a. bidx (nTableSize ht) (mem ht) a = i) (dn @ todo))))"
  using assms
proof (induction todo arbitrary: prev dn ht)
  case Nil
  then show ?case by (intro exI[of _ "mem ht"] exI[of _ "arBuckets ht"]) (simp add: rehash_loop.simps)
next
  case (Cons a todo)
  let ?n = "nTableSize ht"
  obtain b where b: "mem ht a = Some b" "pListNext b = hd_or todo None"
      "dseg (mem ht) (Some a) todo None" using Cons.prems(1) by auto
  define j where "j = bidx ?n (mem ht) a"
  have jb: "j = bucket_index ?n (bk_h b)" using b by (simp add: j_def bidx_def)
  have j: "j < ?n" using Cons.prems(3) jb by (simp add: bucket_index_less)
  define ht1 where "ht1 = ht\<lparr>mem := (mem ht)(a \<mapsto> b\<lparr>pNext := arBuckets ht ! j\<rparr>),
                              arBuckets := (arBuckets ht)[j := Some a]\<rparr>"
  have ceq: "chain_eq (mem ht) (mem ht1)" using b by (simp add: ht1_def chain_eq_upd_pNext)
  have bidx1: "bidx ?n (mem ht1) x = bidx ?n (mem ht) x" for x
    by (rule links_eq_bidx[OF chain_eq_links_eq[OF ceq]])
  have fresh: "a \<notin> set dn" "a \<notin> set todo" using Cons.prems(2) by auto
  have chains: "chain (mem ht1) (arBuckets ht1 ! i)
      (rev (filter (\<lambda>x. bidx ?n (mem ht1) x = i) (dn @ [a])))" if i: "i < ?n" for i
  proof (cases "i = j")
    case True
    then show ?thesis
      using Cons.prems(4) Cons.prems(5)[OF i] fresh j
      by (simp add: ht1_def j_def[symmetric] bidx1[unfolded ht1_def, simplified])
  next
    case False
    then show ?thesis
      using Cons.prems(4) Cons.prems(5)[OF i] fresh
      by (simp add: ht1_def j_def[symmetric] bidx1[unfolded ht1_def, simplified])
  qed
  have "\<exists>m bs. rehash_loop (hd_or todo None) ht1 = Some (ht1\<lparr>mem := m, arBuckets := bs\<rparr>) \<and>
           chain_eq (mem ht1) m \<and> length bs = nTableSize ht1 \<and>
           (\<forall>i < nTableSize ht1. chain m (bs ! i)
             (rev (filter (\<lambda>a. bidx (nTableSize ht1) (mem ht1) a = i) ((dn @ [a]) @ todo))))"
  proof (rule Cons.IH)
    show "dseg (mem ht1) (Some a) todo None" using b fresh by (simp add: ht1_def)
    show "distinct ((dn @ [a]) @ todo)" using Cons.prems(2) by simp
    show "0 < nTableSize ht1" "length (arBuckets ht1) = nTableSize ht1"
      using Cons.prems(3,4) by (simp_all add: ht1_def)
    have n1: "nTableSize ht1 = ?n" by (simp add: ht1_def)
    show "chain (mem ht1) (arBuckets ht1 ! i)
      (rev (filter (\<lambda>x. bidx (nTableSize ht1) (mem ht1) x = i) (dn @ [a])))"
      if "i < nTableSize ht1" for i using chains[of i] that unfolding n1 by blast
  qed
  moreover have n1: "nTableSize ht1 = ?n" by (simp add: ht1_def)
  ultimately obtain m bs where 1: "rehash_loop (hd_or todo None) ht1 = Some (ht1\<lparr>mem := m, arBuckets := bs\<rparr>)"
    "chain_eq (mem ht1) m" "length bs = ?n"
    "\<forall>i < ?n. chain m (bs ! i) (rev (filter (\<lambda>a. bidx ?n (mem ht) a = i) ((dn @ [a]) @ todo)))"
    unfolding n1 bidx1 by blast
  have "rehash_loop (hd_or (a # todo) None) ht = rehash_loop (hd_or todo None) ht1"
    using b jb by (subst rehash_loop.simps) (simp add: ht1_def Let_def)
  then show ?case
    using 1 chain_eq_trans[OF ceq 1(2)]
    by (intro exI[of _ m] exI[of _ bs]) (simp add: ht1_def)
qed

lemma hash_rehash_ok:
  assumes l: "list_ok (mem ht) (pListHead ht) (pListTail ht) xs"
    and n: "0 < nTableSize ht" "PrimeNumbers ! nHashSizeIndex ht = nTableSize ht"
  shows "\<exists>m bs. hash_rehash ht = Some (ht\<lparr>mem := m, arBuckets := bs\<rparr>) \<and>
           chain_eq (mem ht) m \<and> chains_ok (nTableSize ht) m bs"
proof -
  let ?ht = "ht\<lparr>arBuckets := replicate (nTableSize ht) None\<rparr>"
  have "\<exists>m bs. rehash_loop (hd_or xs None) ?ht = Some (?ht\<lparr>mem := m, arBuckets := bs\<rparr>) \<and>
           chain_eq (mem ?ht) m \<and> length bs = nTableSize ?ht \<and>
           (\<forall>i < nTableSize ?ht. chain m (bs ! i)
             (rev (filter (\<lambda>a. bidx (nTableSize ?ht) (mem ?ht) a = i) ([] @ xs))))"
    by (rule rehash_loop_ok) (use l n in \<open>auto simp: list_ok_def\<close>)
  then obtain m bs where 1: "rehash_loop (hd_or xs None) ?ht = Some (?ht\<lparr>mem := m, arBuckets := bs\<rparr>)"
    "chain_eq (mem ht) m" "length bs = nTableSize ht"
    "\<And>i. i < nTableSize ht \<Longrightarrow>
       chain m (bs ! i) (rev (filter (\<lambda>a. bidx (nTableSize ht) (mem ht) a = i) xs))"
    by auto
  have leq: "links_eq (mem ht) m" by (rule chain_eq_links_eq[OF 1(2)])
  have "chains_ok (nTableSize ht) m bs"
    unfolding chains_ok_def links_eq_bidx[OF leq] links_eq_dom[OF leq]
  proof (intro conjI allI impI)
    fix i assume "i < nTableSize ht"
    from 1(4)[OF this] l show "\<exists>ys. chain m (bs ! i) ys \<and> distinct ys \<and>
        set ys = {a \<in> dom (mem ht). bidx (nTableSize ht) (mem ht) a = i}"
      by (intro exI[of _ "rev (filter (\<lambda>a. bidx (nTableSize ht) (mem ht) a = i) xs)"])
         (auto simp: list_ok_def)
  qed (use n 1 in simp_all)
  moreover have "hash_rehash ht = Some (ht\<lparr>mem := m, arBuckets := bs\<rparr>)"
    using l 1(1) n by (simp add: hash_rehash_def list_ok_def)
  ultimately show ?thesis using 1(2) by blast
qed

subsection \<open>Resizing\<close>

text \<open>The fields that neither a rehash nor an allocation touches.\<close>

definition same_frame :: "'a hashtable \<Rightarrow> 'a hashtable \<Rightarrow> bool" where
  "same_frame ht ht' \<longleftrightarrow>
     pHashFunction ht' = pHashFunction ht \<and> pDestructor ht' = pDestructor ht \<and>
     persistent ht' = persistent ht \<and> (mallocs ht = [] \<longrightarrow> mallocs ht' = [])"

lemma same_frame_refl [simp]: "same_frame ht ht"
  by (simp add: same_frame_def)

lemma same_frame_trans: "same_frame a b \<Longrightarrow> same_frame b c \<Longrightarrow> same_frame a c"
  by (simp add: same_frame_def)

definition same_rest :: "'a hashtable \<Rightarrow> 'a hashtable \<Rightarrow> bool" where
  "same_rest ht ht' \<longleftrightarrow>
     same_frame ht ht' \<and> pInternalPointer ht' = pInternalPointer ht \<and>
     nNextFreeElement ht' = nNextFreeElement ht \<and> destroyed ht' = destroyed ht \<and>
     brk ht' = brk ht"

lemma pemalloc_cases:
  obtains ok ms where "pemalloc ht = (ok, ht\<lparr>mallocs := ms\<rparr>)"
    "\<not> persistent ht \<or> mallocs ht = [] \<longrightarrow> ok \<and> ms = mallocs ht"
proof
  show "pemalloc ht = (fst (pemalloc ht), ht\<lparr>mallocs := mallocs (snd (pemalloc ht))\<rparr>)"
    by (cases "mallocs ht") (auto simp: pemalloc_def)
  show "\<not> persistent ht \<or> mallocs ht = [] \<longrightarrow> fst (pemalloc ht) \<and> mallocs (snd (pemalloc ht)) = mallocs ht"
    by (cases "mallocs ht") (auto simp: pemalloc_def)
qed

lemma hash_repr_irrelevant [simp]:
  "hash_repr (ht\<lparr>mallocs := ms\<rparr>) xs = hash_repr ht xs"
  "hash_repr (ht\<lparr>destroyed := ds\<rparr>) xs = hash_repr ht xs"
  "hash_repr (ht\<lparr>nNextFreeElement := nf\<rparr>) xs = hash_repr ht xs"
  by (simp_all add: hash_repr_def size_ok_def)

lemma resize_ok:
  assumes r: "hash_repr ht xs"
  shows "\<exists>ht'. if_full_do_resize ht = Some ht' \<and> hash_repr ht' xs \<and>
               chain_eq (mem ht) (mem ht') \<and> same_rest ht ht'"
proof (cases "nNumOfElements ht > nTableSize ht \<and> nHashSizeIndex ht < nNumPrimeNumbers - 1")
  case False
  then show ?thesis using r by (auto simp: if_full_do_resize_def same_rest_def)
next
  case True
  obtain ok ms where pm: "pemalloc ht = (ok, ht\<lparr>mallocs := ms\<rparr>)"
    "\<not> persistent ht \<or> mallocs ht = [] \<longrightarrow> ok \<and> ms = mallocs ht" by (rule pemalloc_cases)
  show ?thesis
  proof (cases ok)
    case False
    then show ?thesis
      using r True pm by (auto simp: if_full_do_resize_def same_rest_def same_frame_def)
  next
    case ok: True
    let ?i = "nHashSizeIndex ht + 1"
    have i: "?i < length PrimeNumbers" using True length_PrimeNumbers by simp
    define ht1 where "ht1 = ht\<lparr>mallocs := ms,
        arBuckets := arBuckets ht @ replicate (PrimeNumbers ! ?i - nTableSize ht) None,
        nTableSize := PrimeNumbers ! ?i, nHashSizeIndex := ?i\<rparr>"
    have "\<exists>m bs. hash_rehash ht1 = Some (ht1\<lparr>mem := m, arBuckets := bs\<rparr>) \<and>
        chain_eq (mem ht1) m \<and> chains_ok (nTableSize ht1) m bs"
      by (rule hash_rehash_ok[of _ xs])
         (use r primes_pos[OF i] in \<open>simp_all add: ht1_def hash_repr_def\<close>)
    then obtain m bs where 1: "hash_rehash ht1 = Some (ht1\<lparr>mem := m, arBuckets := bs\<rparr>)"
      "chain_eq (mem ht) m" "chains_ok (PrimeNumbers ! ?i) m bs" by (auto simp: ht1_def)
    have leq: "links_eq (mem ht) m" by (rule chain_eq_links_eq[OF 1(2)])
    have "hash_repr (ht1\<lparr>mem := m, arBuckets := bs\<rparr>) xs"
      using r 1(3) i links_eq_keys_ok[OF leq] links_eq_dom[OF leq] chain_eq_dseg[OF 1(2)]
      by (auto simp: hash_repr_def ht1_def size_ok_def list_ok_def)
    moreover have "if_full_do_resize ht = hash_rehash ht1"
      using True pm ok by (simp add: if_full_do_resize_def ht1_def Let_def)
    ultimately show ?thesis
      using 1(1,2) pm(2) by (auto simp: ht1_def same_rest_def same_frame_def)
  qed
qed

subsection \<open>Linking a new bucket\<close>

lemma chains_ok_insert:
  assumes ok: "chains_ok n m bs" and p: "p \<notin> dom m"
    and i: "i = bucket_index n (bk_h b)" and nx: "pNext b = bs ! i"
  shows "chains_ok n (m(p \<mapsto> b)) (bs[i := Some p])"
  unfolding chains_ok_def
proof (intro conjI allI impI)
  have n: "0 < n" "length bs = n" using ok by (simp_all add: chains_ok_def)
  then show "0 < n" "length (bs[i := Some p]) = n" by simp_all
  fix j assume j: "j < n"
  then obtain ys where ys: "chain m (bs ! j) ys" "distinct ys" "set ys = {a \<in> dom m. bidx n m a = j}"
    using ok by (auto simp: chains_ok_def)
  then have py: "p \<notin> set ys" using p by auto
  have bi: "bidx n (m(p \<mapsto> b)) a = (if a = p then i else bidx n m a)" for a
    using i by (simp add: bidx_def)
  show "\<exists>zs. chain (m(p \<mapsto> b)) (bs[i := Some p] ! j) zs \<and> distinct zs \<and>
      set zs = {a \<in> dom (m(p \<mapsto> b)). bidx n (m(p \<mapsto> b)) a = j}"
  proof (cases "j = i")
    case True
    then show ?thesis using ys py n j nx p by (intro exI[of _ "p # ys"]) (auto simp: bi)
  next
    case False
    then show ?thesis using ys py n j p by (intro exI[of _ ys]) (auto simp: bi)
  qed
qed

lemma keys_ok_insert:
  assumes ok: "keys_ok hf m" and p: "p \<notin> dom m" and b: "bucket_ok hf b"
    and fresh: "key_of b \<notin> bkey m ` dom m"
  shows "keys_ok hf (m(p \<mapsto> b))"
proof -
  have bk: "bkey (m(p \<mapsto> b)) a = (if a = p then key_of b else bkey m a)" for a
    by (simp add: bkey_def)
  have new: "bkey m a \<noteq> key_of b" if "a \<in> dom m" for a using fresh that by (metis imageI)
  have "inj_on (bkey (m(p \<mapsto> b))) (insert p (dom m))"
  proof (rule inj_onI)
    fix x y assume "x \<in> insert p (dom m)" "y \<in> insert p (dom m)"
      "bkey (m(p \<mapsto> b)) x = bkey (m(p \<mapsto> b)) y"
    then show "x = y"
      using ok new[of x] new[of y] unfolding bk keys_ok_def
      by (auto split: if_splits dest: inj_onD)
  qed
  then show ?thesis using ok b by (auto simp: keys_ok_def)
qed

lemma dseg_last_next:
  assumes "dseg m prev xs n0" "distinct xs" "xs \<noteq> []" "m (last xs) = Some c"
  shows "dseg (m(last xs \<mapsto> c\<lparr>pListNext := n\<rparr>)) prev xs n"
proof -
  obtain us a where xs: "xs = us @ [a]" using assms(3) by (metis append_butlast_last_id)
  then show ?thesis using assms by simp
qed

text \<open>What an insertion of the entry \<open>(k, d)\<close> at address \<open>p\<close> does to a table.\<close>

definition appended ::
    "'a hashtable \<Rightarrow> addr list \<Rightarrow> 'a bucket \<Rightarrow> 'a hashtable \<Rightarrow> bool" where
  "appended ht xs b ht' \<longleftrightarrow>
     hash_repr ht' (xs @ [brk ht]) \<and>
     entries (mem ht') (xs @ [brk ht]) = entries (mem ht) xs @ [(key_of b, pData b)] \<and>
     same_frame ht ht' \<and> nNextFreeElement ht' = nNextFreeElement ht \<and>
     destroyed ht' = destroyed ht \<and>
     pInternalPointer ht' = (if pInternalPointer ht = None then Some (brk ht) else pInternalPointer ht)"

lemma entries_cong:
  assumes "\<And>a. a \<in> set xs \<Longrightarrow> map_option strip_links (m a) = map_option strip_links (m' a)"
  shows "entries m xs = entries m' xs"
  unfolding entries_def
proof (rule map_cong[OF refl])
  fix a assume a: "a \<in> set xs"
  show "(bkey m a, bdata m a) = (bkey m' a, bdata m' a)"
    using assms[OF a] by (cases "m a"; cases "m' a"; cases "arKey (the (m a))")
      (auto simp: bkey_def bdata_def key_of_def dest!: strip_linksD)
qed

lemma link_bucket_ok:
  assumes r: "hash_repr ht xs" and b: "bucket_ok (pHashFunction ht) b"
    and fresh: "key_of b \<notin> bkey (mem ht) ` set xs"
    and i: "i = bucket_index (nTableSize ht) (bk_h b)"
  shows "\<exists>ht'. link_bucket i b ht = Some ht' \<and> appended ht xs b ht'"
proof -
  let ?p = "brk ht" and ?m = "mem ht" and ?n = "nTableSize ht"
  have l: "distinct xs" "dom ?m = set xs" "dseg ?m None xs None"
      "pListHead ht = hd_or xs None" "pListTail ht = last_or xs None"
    using r by (auto simp: hash_repr_def list_ok_def)
  have p: "?p \<notin> set xs" using r by (auto simp: hash_repr_def)
  define b1 where "b1 = b\<lparr>pNext := arBuckets ht ! i, pListLast := pListTail ht, pListNext := None\<rparr>"
  have b1: "bucket_ok (pHashFunction ht) b1" "key_of b1 = key_of b" "bk_h b1 = bk_h b" "pData b1 = pData b"
    using b by (auto simp: b1_def bucket_ok_def key_of_def split: option.splits)
  define m1 where "m1 = ?m(?p \<mapsto> b1)"
  define m2 where "m2 = (if xs = [] then m1 else m1(last xs \<mapsto> (the (m1 (last xs)))\<lparr>pListNext := Some ?p\<rparr>))"
  have lastin: "xs \<noteq> [] \<Longrightarrow> last xs \<in> dom m1" using l by (auto simp: m1_def)
  have leq: "links_eq m1 m2" using lastin by (auto simp: m2_def links_eq_def strip_links_def)
  have nx: "map_option pNext (m2 a) = map_option pNext (m1 a)" for a
    using lastin by (auto simp: m2_def)
  have c2: "chains_ok ?n m2 ((arBuckets ht)[i := Some ?p])"
  proof (rule chains_ok_links[OF _ leq nx])
    show "chains_ok ?n m1 ((arBuckets ht)[i := Some ?p])"
      unfolding m1_def by (rule chains_ok_insert) (use r l p i b1 in \<open>auto simp: hash_repr_def b1_def\<close>)
  qed
  have k2: "keys_ok (pHashFunction ht) m2"
  proof (rule links_eq_keys_ok[OF leq])
    show "keys_ok (pHashFunction ht) m1"
      unfolding m1_def by (rule keys_ok_insert) (use r l p b1 fresh in \<open>auto simp: hash_repr_def\<close>)
  qed
  have d2: "dom m2 = set (xs @ [?p])"
    unfolding links_eq_dom[OF leq] by (auto simp: m1_def l)
  have s2: "dseg m2 None (xs @ [?p]) None"
  proof (cases "xs = []")
    case True
    then show ?thesis by (simp add: m2_def m1_def b1_def l)
  next
    case False
    have d1: "dseg m1 None xs None" using l p by (simp add: m1_def)
    obtain c where c: "m1 (last xs) = Some c" using lastin False by auto
    have "dseg (m1(last xs \<mapsto> c\<lparr>pListNext := Some ?p\<rparr>)) None xs (Some ?p)"
      by (rule dseg_last_next[OF d1 l(1) False c])
    then have "dseg m2 None xs (Some ?p)" using False c by (simp add: m2_def)
    moreover have "m2 ?p = Some b1" using False p by (auto simp: m2_def m1_def)
    ultimately show ?thesis using False by (simp add: b1_def l)
  qed
  define ht2 where "ht2 = ht\<lparr>mem := m2, brk := Suc ?p,
      pInternalPointer := (if pInternalPointer ht = None then Some ?p else pInternalPointer ht),
      arBuckets := (arBuckets ht)[i := Some ?p], pListTail := Some ?p,
      pListHead := hd_or (xs @ [?p]) None, nNumOfElements := nNumOfElements ht + 1\<rparr>"
  have r2: "hash_repr ht2 (xs @ [?p])"
    using r c2 k2 d2 s2 l p by (auto simp: hash_repr_def list_ok_def ht2_def size_ok_def)
  define htA where "htA = ht\<lparr>mem := m1, brk := Suc ?p,
      pInternalPointer := (if pInternalPointer ht = None then Some ?p else pInternalPointer ht),
      arBuckets := (arBuckets ht)[i := Some ?p], pListTail := Some ?p\<rparr>"
  have lb: "link_bucket i b ht =
      Option.bind (case pListLast b1 of
                     None \<Rightarrow> Some htA
                   | Some q \<Rightarrow> upd_bucket q (\<lambda>c. c\<lparr>pListNext := Some ?p\<rparr>) htA)
        (\<lambda>h2. let h3 = (if pListHead h2 = None then h2\<lparr>pListHead := Some ?p\<rparr> else h2)
              in if_full_do_resize (h3\<lparr>nNumOfElements := nNumOfElements h3 + 1\<rparr>))"
    by (simp only: link_bucket_def Let_def htA_def m1_def b1_def)
  have lk: "link_bucket i b ht = if_full_do_resize ht2"
  proof (cases "xs = []")
    case True
    then have "pListLast b1 = None" "pListHead htA = None" using l by (simp_all add: b1_def htA_def)
    then show ?thesis unfolding lb using True by (simp add: htA_def ht2_def m2_def Let_def)
  next
    case False
    then have t: "pListLast b1 = Some (last xs)" "pListHead htA = hd_or (xs @ [?p]) None"
        "pListHead htA \<noteq> None"
      using l by (auto simp: b1_def htA_def last_or_def hd_or_def split: list.splits)
    obtain c where "m1 (last xs) = Some c" using lastin False by auto
    then have "upd_bucket (last xs) (\<lambda>c. c\<lparr>pListNext := Some ?p\<rparr>) htA = Some (htA\<lparr>mem := m2\<rparr>)"
      using False by (simp add: upd_bucket_def htA_def m2_def)
    moreover have "ht2 = htA\<lparr>mem := m2, nNumOfElements := nNumOfElements htA + 1\<rparr>"
      by (rule hashtable.equality) (use t(2) in \<open>simp_all add: htA_def ht2_def\<close>)
    ultimately show ?thesis unfolding lb using t(1,3) by (auto simp: Let_def)
  qed
  obtain ht' where ht': "if_full_do_resize ht2 = Some ht'" "hash_repr ht' (xs @ [?p])"
      "chain_eq (mem ht2) (mem ht')" "same_rest ht2 ht'"
    using resize_ok[OF r2] by blast
  have "entries (mem ht') (xs @ [?p]) = entries m2 (xs @ [?p])"
    using links_eq_entries[OF chain_eq_links_eq[OF ht'(3)]] by (simp add: ht2_def)
  also have "\<dots> = entries m1 (xs @ [?p])" by (rule links_eq_entries[OF leq])
  also have "\<dots> = entries ?m xs @ [(key_of b, pData b)]"
    using p b1 by (auto simp: entries_def m1_def bkey_def bdata_def)
  finally have "entries (mem ht') (xs @ [?p]) = entries ?m xs @ [(key_of b, pData b)]" .
  then show ?thesis
    using lk ht' by (auto simp: appended_def same_rest_def same_frame_def ht2_def)
qed

end
