(* ===== verification/Hash_Refine.thy ===== *)
theory Hash_Refine
  imports Hash_Insert
begin

text \<open>
  The insertion and lookup functions of the hash table implement an association list kept in
  insertion order: lookup is \<open>map_of\<close>, insertion and update are \<open>AList.update\<close> (replace in
  place, or append).
\<close>

subsection \<open>Association lists\<close>

lemma alist_update_new: "k \<notin> fst ` set al \<Longrightarrow> AList.update k v al = al @ [(k, v)]"
  by (induction al) auto

lemma fst_entries [simp]: "fst ` set (entries m xs) = bkey m ` set xs"
  by (force simp: entries_def)

lemma map_fst_entries: "map fst (entries m xs) = map (bkey m) xs"
  by (simp add: entries_def)

lemma map_of_entries:
  "map_of (entries m xs) k = map_option (bdata m) (find (\<lambda>a. bkey m a = k) xs)"
  by (induction xs) (auto simp: entries_def)

lemma hash_repr_distinct_keys: "hash_repr ht xs \<Longrightarrow> distinct (map fst (entries (mem ht) xs))"
  by (auto simp: hash_repr_def list_ok_def keys_ok_def map_fst_entries distinct_map)

lemma hash_inv_distinct: "hash_inv ht \<Longrightarrow> distinct (map fst (hash_entries ht))"
  using hash_repr_distinct_keys[OF hash_inv_repr] by (simp add: hash_entries_def)

subsection \<open>Finding the bucket of a key\<close>

definition addr_of :: "'a hashtable \<Rightarrow> addr list \<Rightarrow> hkey \<Rightarrow> addr option" where
  "addr_of ht xs k = find (\<lambda>a. bkey (mem ht) a = k) xs"

lemma addr_of_Some:
  assumes "hash_repr ht xs"
  shows "addr_of ht xs k = Some a \<longleftrightarrow> a \<in> set xs \<and> bkey (mem ht) a = k"
  unfolding addr_of_def
  by (rule find_unique)
     (use assms in \<open>auto simp: hash_repr_def list_ok_def keys_ok_def dest: inj_onD\<close>)

lemma addr_of_None: "addr_of ht xs k = None \<longleftrightarrow> k \<notin> bkey (mem ht) ` set xs"
  by (auto simp: addr_of_def find_None_iff)

lemma addr_of_not_None: "(\<exists>a. addr_of ht xs k = Some a) \<longleftrightarrow> k \<in> bkey (mem ht) ` set xs"
  using addr_of_None[of ht xs k] by auto

lemma map_of_addr_of: "map_of (entries (mem ht) xs) k = map_option (bdata (mem ht)) (addr_of ht xs k)"
  by (simp add: map_of_entries addr_of_def)

lemma hash_repr_bucket:
  "hash_repr ht xs \<Longrightarrow> mem ht a = Some b \<Longrightarrow> a \<in> set xs \<and> bucket_ok (pHashFunction ht) b"
  by (auto simp: hash_repr_def list_ok_def keys_ok_def)

lemma hash_repr_dom: "hash_repr ht xs \<Longrightarrow> a \<in> set xs \<Longrightarrow> \<exists>b. mem ht a = Some b"
  by (auto simp: hash_repr_def list_ok_def)

text \<open>The chain of the index of \<open>h\<close> holds the bucket of every key whose hash is \<open>h\<close>.\<close>

lemma chain_lookup:
  assumes r: "hash_repr ht xs"
    and P: "\<And>a b. mem ht a = Some b \<Longrightarrow> P b \<longleftrightarrow> key_of b = k"
    and h: "\<And>a b. mem ht a = Some b \<Longrightarrow> key_of b = k \<Longrightarrow> bk_h b = h"
  shows "chain_find P (mem ht) (arBuckets ht ! bucket_index (nTableSize ht) h) =
         Some (addr_of ht xs k)"
proof -
  let ?i = "bucket_index (nTableSize ht) h"
  have "size_ok ht" using r by (simp add: hash_repr_def)
  then have i: "?i < nTableSize ht" by (simp add: bucket_index_less size_ok_pos)
  have dm: "dom (mem ht) = set xs" using r by (simp add: hash_repr_def list_ok_def)
  obtain ys where ys: "chain (mem ht) (arBuckets ht ! ?i) ys"
      "set ys = {a \<in> set xs. bidx (nTableSize ht) (mem ht) a = ?i}"
    using r i dm by (auto simp: hash_repr_def chains_ok_def)
  have Pk: "P (the (mem ht a)) \<longleftrightarrow> bkey (mem ht) a = k" if "a \<in> set xs" for a
    using that dm P[of a] by (force simp: bkey_def)
  have hk: "bidx (nTableSize ht) (mem ht) a = ?i" if "a \<in> set xs" "bkey (mem ht) a = k" for a
    using that dm h[of a] by (force simp: bidx_def bkey_def)
  have "find (\<lambda>a. P (the (mem ht a))) ys = Some a \<longleftrightarrow> addr_of ht xs k = Some a" for a
  proof -
    have "find (\<lambda>a. P (the (mem ht a))) ys = Some a \<longleftrightarrow> a \<in> set ys \<and> P (the (mem ht a))"
    proof (rule find_unique)
      fix x y assume "x \<in> set ys" "y \<in> set ys" "P (the (mem ht x))" "P (the (mem ht y))"
      then have "bkey (mem ht) x = k" "bkey (mem ht) y = k" "x \<in> set xs" "y \<in> set xs"
        using ys Pk by auto
      then show "x = y" using r dm by (auto simp: hash_repr_def keys_ok_def dest: inj_onD)
    qed
    then show ?thesis using ys Pk hk by (auto simp: addr_of_Some[OF r])
  qed
  then have "find (\<lambda>a. P (the (mem ht a))) ys = addr_of ht xs k"
    by (metis not_Some_eq)
  then show ?thesis using chain_find_eq[OF ys(1), of P] by simp
qed

lemma idx_lookup:
  assumes r: "hash_repr ht xs"
  shows "chain_find (idx_match h) (mem ht) (arBuckets ht ! bucket_index (nTableSize ht) h) =
         Some (addr_of ht xs (IntKey h))"
  by (rule chain_lookup[OF r]) (auto simp: idx_match_def key_of_def split: option.splits)

lemma str_match_iff:
  assumes "bucket_ok hf b"
  shows "str_match (hf key) key b \<longleftrightarrow> key_of b = StrKey key"
proof (cases "arKey b")
  case None
  then show ?thesis by (simp add: str_match_def key_of_def)
next
  case (Some k)
  then have "bk_h b = hf k" "nKeyLength b = length k" using assms by (auto simp: bucket_ok_def)
  then show ?thesis using Some by (auto simp: str_match_def key_of_def)
qed

lemma str_lookup:
  assumes r: "hash_repr ht xs"
  shows "chain_find (str_match (pHashFunction ht key) key) (mem ht)
           (arBuckets ht ! bucket_index (nTableSize ht) (pHashFunction ht key)) =
         Some (addr_of ht xs (StrKey key))"
proof (rule chain_lookup[OF r])
  fix a b assume "mem ht a = Some b"
  then have ok: "bucket_ok (pHashFunction ht) b" using hash_repr_bucket[OF r] by blast
  show "str_match (pHashFunction ht key) key b \<longleftrightarrow> key_of b = StrKey key"
    by (rule str_match_iff[OF ok])
  show "key_of b = StrKey key \<Longrightarrow> bk_h b = pHashFunction ht key"
    using ok by (auto simp: key_of_def bucket_ok_def split: option.splits)
qed

subsection \<open>Lookup is \<open>map_of\<close>\<close>

definition find_result :: "'a option \<Rightarrow> status \<times> 'a option" where
  "find_result r = (case r of None \<Rightarrow> (FAILURE, None) | Some d \<Rightarrow> (SUCCESS, Some d))"

lemma read_data_addr_of:
  assumes r: "hash_repr ht xs"
  shows "read_data ht (addr_of ht xs k) = Some (find_result (map_of (hash_entries ht) k))"
proof (cases "addr_of ht xs k")
  case None
  then show ?thesis
    by (simp add: read_data_def find_result_def hash_repr_entries[OF r] map_of_addr_of)
next
  case (Some a)
  then obtain b where "mem ht a = Some b" using addr_of_Some[OF r] hash_repr_dom[OF r] by blast
  then show ?thesis using Some
    by (simp add: read_data_def find_result_def hash_repr_entries[OF r] map_of_addr_of bdata_def)
qed

lemma hash_index_find_eq:
  assumes "hash_inv ht"
  shows "hash_index_find ht h = Some (find_result (map_of (hash_entries ht) (IntKey h)))"
  using idx_lookup[OF hash_inv_repr[OF assms], of h] read_data_addr_of[OF hash_inv_repr[OF assms]]
  by (simp add: hash_index_find_def hash_index_lookup_def)

lemma hash_find_eq:
  assumes "hash_inv ht"
  shows "hash_find ht key = Some (find_result (map_of (hash_entries ht) (norm_key key)))"
  using str_lookup[OF hash_inv_repr[OF assms], of key] read_data_addr_of[OF hash_inv_repr[OF assms]]
    hash_index_find_eq[OF assms]
  by (simp add: hash_find_def hash_str_lookup_def norm_key_def Let_def split: option.splits)

lemma hash_index_exists_eq:
  assumes "hash_inv ht"
  shows "hash_index_exists ht h = Some (IntKey h \<in> fst ` set (hash_entries ht))"
  using idx_lookup[OF hash_inv_repr[OF assms], of h]
  by (simp add: addr_of_not_None hash_index_exists_def hash_index_lookup_def hash_entries_def)

lemma hash_exists_eq:
  assumes "hash_inv ht"
  shows "hash_exists ht key = Some (norm_key key \<in> fst ` set (hash_entries ht))"
  using str_lookup[OF hash_inv_repr[OF assms], of key] hash_index_exists_eq[OF assms]
  by (simp add: addr_of_not_None hash_exists_def hash_str_lookup_def norm_key_def Let_def hash_entries_def
           split: option.splits)

subsection \<open>Replacing the data of a bucket\<close>

definition replaced :: "'a hashtable \<Rightarrow> addr list \<Rightarrow> addr \<Rightarrow> 'a \<Rightarrow> 'a hashtable \<Rightarrow> bool" where
  "replaced ht xs a d ht' \<longleftrightarrow>
     hash_repr ht' xs \<and>
     entries (mem ht') xs = AList.update (bkey (mem ht) a) d (entries (mem ht) xs) \<and>
     same_frame ht ht' \<and> pInternalPointer ht' = pInternalPointer ht"

lemma entries_upd_data:
  assumes "distinct xs" "inj_on (bkey m) (set xs)" "a \<in> set xs" "m a = Some b"
    "key_of b' = key_of b"
  shows "entries (m(a \<mapsto> b')) xs = AList.update (bkey m a) (pData b') (entries m xs)"
  using assms(1-3)
proof (induction xs)
  case (Cons x xs)
  show ?case
  proof (cases "x = a")
    case True
    have "entries (m(a \<mapsto> b')) xs = entries m xs"
      by (rule entries_cong) (use Cons.prems True in auto)
    then show ?thesis using True assms(4,5) by (simp add: entries_def bkey_def bdata_def)
  next
    case False
    then have "bkey m x \<noteq> bkey m a" using Cons.prems by (auto dest: inj_onD)
    then show ?thesis
      using False Cons by (simp add: entries_def) (simp add: bkey_def bdata_def)
  qed
qed simp

text \<open>Any write to a bucket that keeps its key and links keeps the representation.\<close>

lemma hash_repr_write:
  assumes r: "hash_repr ht xs" and b: "mem ht a = Some b"
    and same: "bk_h b' = bk_h b" "arKey b' = arKey b" "nKeyLength b' = nKeyLength b"
      "pListNext b' = pListNext b" "pListLast b' = pListLast b" "pNext b' = pNext b"
  shows "hash_repr (ht\<lparr>mem := (mem ht)(a \<mapsto> b')\<rparr>) xs"
proof -
  let ?m = "mem ht" and ?m' = "(mem ht)(a \<mapsto> b')"
  have bk: "bkey ?m' = bkey ?m" using b same by (auto simp: fun_eq_iff bkey_def key_of_def split: option.splits)
  have bi: "bidx n ?m' = bidx n ?m" for n using b same by (auto simp: fun_eq_iff bidx_def)
  have dm: "dom ?m' = dom ?m" using b by auto
  have ch: "chain ?m' p ys = chain ?m p ys" for p ys
    by (rule chain_cong) (use b same in auto)
  have ds: "dseg ?m' p ys q = dseg ?m p ys q" for p ys q
    by (rule dseg_cong) (use b same in \<open>auto simp: links_def\<close>)
  have ok: "bucket_ok hf b' = bucket_ok hf b" for hf using same by (simp add: bucket_ok_def split: option.split)
  have keys: "keys_ok hf ?m' \<longleftrightarrow> keys_ok hf ?m" for hf
    unfolding keys_ok_def bk dm using b by (intro conj_cong refl) (auto simp: ok)
  show ?thesis
    using r keys dm ds by (auto simp: hash_repr_def list_ok_def chains_ok_def bi ch size_ok_def)
qed

lemma upd_data_replaced:
  assumes r: "hash_repr ht xs" and a: "mem ht a = Some b"
    and b': "b' = b\<lparr>pData := d\<rparr> \<or> b' = b\<lparr>pData := d, bIsPointer := True\<rparr>"
    and ht': "ht' = ht\<lparr>mem := (mem ht)(a \<mapsto> b'), destroyed := ds, nNextFreeElement := nf\<rparr>"
  shows "replaced ht xs a d ht'"
proof -
  have "hash_repr (ht\<lparr>mem := (mem ht)(a \<mapsto> b')\<rparr>) xs"
    by (rule hash_repr_write[OF r a]) (use b' in auto)
  then have "hash_repr ht' xs" unfolding ht' by simp
  moreover have "entries ((mem ht)(a \<mapsto> b')) xs =
      AList.update (bkey (mem ht) a) (pData b') (entries (mem ht) xs)"
  proof (rule entries_upd_data[where b = b])
    show "key_of b' = key_of b" using b' by (auto simp: key_of_def split: option.split)
  qed (use r a hash_repr_bucket[OF r a] in \<open>auto simp: hash_repr_def list_ok_def keys_ok_def\<close>)
  moreover have "pData b' = d" using b' by auto
  ultimately show ?thesis unfolding ht' by (simp add: replaced_def same_frame_def)
qed

subsection \<open>The outcome of an insertion\<close>

text \<open>
  What every insertion function does, whichever way it ends. \<open>upd\<close> says whether a present key
  may be overwritten, \<open>nf\<close> is the next free index after a success and \<open>dl\<close> what the
  destructor was called on. Only a persistent table can run out of memory, and then nothing
  but the allocator's state has changed.
\<close>

definition alloc_ok :: "'a hashtable \<Rightarrow> bool" where
  "alloc_ok ht \<longleftrightarrow> \<not> persistent ht \<or> mallocs ht = []"

definition has_key :: "'a hashtable \<Rightarrow> hkey \<Rightarrow> bool" where
  "has_key ht k \<longleftrightarrow> k \<in> fst ` set (hash_entries ht)"

definition next_free_after :: "ulong \<Rightarrow> ulong \<Rightarrow> ulong" where
  "next_free_after h nf = (if nf \<le> h then h + 1 else nf)"

definition insert_success ::
    "'a hashtable \<Rightarrow> hkey \<Rightarrow> 'a \<Rightarrow> ulong \<Rightarrow> 'a list \<Rightarrow> addr option \<times> 'a hashtable \<Rightarrow> bool" where
  "insert_success ht k d nf dl res \<longleftrightarrow>
     (case res of (r, ht') \<Rightarrow>
        hash_inv ht' \<and> same_frame ht ht' \<and>
        hash_entries ht' = AList.update k d (hash_entries ht) \<and>
        hash_addrs ht' = (if has_key ht k then hash_addrs ht else hash_addrs ht @ [brk ht]) \<and>
        pInternalPointer ht' =
          (if has_key ht k \<or> pInternalPointer ht \<noteq> None then pInternalPointer ht else r) \<and>
        nNextFreeElement ht' = nf \<and> destroyed ht' = destroyed ht @ dl \<and>
        (\<exists>a. r = Some a \<and> addr_of ht' (hash_addrs ht') k = Some a))"

definition insert_failure :: "'a hashtable \<Rightarrow> addr option \<times> 'a hashtable \<Rightarrow> bool" where
  "insert_failure ht res \<longleftrightarrow> fst res = None \<and>
     (\<exists>ms. snd res = ht\<lparr>mallocs := ms\<rparr> \<and> (alloc_ok ht \<longrightarrow> ms = mallocs ht))"

definition insert_outcome ::
    "'a hashtable \<Rightarrow> hkey \<Rightarrow> 'a \<Rightarrow> bool \<Rightarrow> ulong \<Rightarrow> 'a list \<Rightarrow> status \<times> addr option \<times> 'a hashtable
      \<Rightarrow> bool" where
  "insert_outcome ht k d upd nf dl res \<longleftrightarrow>
     (if fst res = SUCCESS
      then (upd \<or> \<not> has_key ht k) \<and> insert_success ht k d nf dl (snd res)
      else (upd \<or> \<not> has_key ht k \<longrightarrow> \<not> alloc_ok ht) \<and> insert_failure ht (snd res))"

lemma has_key_addr_of:
  "hash_repr ht xs \<Longrightarrow> has_key ht k \<longleftrightarrow> addr_of ht xs k \<noteq> None"
  by (simp add: has_key_def hash_repr_entries addr_of_None)

lemma bump_next_free_eq:
  "bump_next_free h ht = ht\<lparr>nNextFreeElement := next_free_after h (nNextFreeElement ht)\<rparr>"
  by (simp add: bump_next_free_def next_free_after_def)

lemma call_destructor_eq:
  "call_destructor d ht = ht\<lparr>destroyed := destroyed ht @ (if pDestructor ht then [d] else [])\<rparr>"
  by (simp add: call_destructor_def)

lemma upd_bucket_Some:
  "mem ht a = Some b \<Longrightarrow> upd_bucket a f ht = Some (ht\<lparr>mem := (mem ht)(a \<mapsto> f b)\<rparr>)"
  by (simp add: upd_bucket_def)

lemma alloc_ok_pemalloc: "alloc_ok ht \<Longrightarrow> pemalloc ht = (True, ht)"
  by (auto simp: alloc_ok_def pemalloc_def)

lemma pemalloc_mallocs: "\<exists>ok ms. pemalloc ht = (ok, ht\<lparr>mallocs := ms\<rparr>)"
  by (rule pemalloc_cases[of ht]) blast

lemma replaced_success:
  assumes r: "hash_repr ht xs" and a: "addr_of ht xs k = Some a"
    and rep: "replaced ht xs a d ht'" and nf: "nNextFreeElement ht' = nf"
    and dl: "destroyed ht' = destroyed ht @ dl"
  shows "insert_success ht k d nf dl (Some a, ht')"
proof -
  have k: "a \<in> set xs" "bkey (mem ht) a = k" using a addr_of_Some[OF r] by auto
  have r': "hash_repr ht' xs" and e: "entries (mem ht') xs = AList.update k d (entries (mem ht) xs)"
    using rep k by (auto simp: replaced_def)
  have "map fst (entries (mem ht') xs) = map fst (entries (mem ht) xs)"
    using k by (auto simp: e AList.update_keys map_fst_entries)
  then have "bkey (mem ht') a = k" using k by (simp add: map_fst_entries)
  then have "addr_of ht' xs k = Some a" using addr_of_Some[OF r'] k by blast
  then show ?thesis
    using r r' e a nf dl rep
    by (auto simp: insert_success_def hash_repr_inv hash_repr_entries hash_repr_addrs
        has_key_addr_of replaced_def)
qed

lemma appended_success:
  assumes r: "hash_repr ht xs" and a: "addr_of ht xs (key_of b) = None"
    and app: "appended ht xs b ht'" and nf: "nNextFreeElement ht = nf"
  shows "insert_success ht (key_of b) (pData b) nf [] (Some (brk ht), ht')"
proof -
  let ?ys = "xs @ [brk ht]"
  have r': "hash_repr ht' ?ys"
    and e: "entries (mem ht') ?ys = entries (mem ht) xs @ [(key_of b, pData b)]"
    using app by (auto simp: appended_def)
  have "key_of b \<notin> fst ` set (entries (mem ht) xs)" using a addr_of_None by auto
  then have upd: "entries (mem ht') ?ys = AList.update (key_of b) (pData b) (entries (mem ht) xs)"
    by (simp add: e alist_update_new)
  have "map fst (entries (mem ht') ?ys) = map fst (entries (mem ht) xs) @ [key_of b]" by (simp add: e)
  then have "bkey (mem ht') (brk ht) = key_of b" by (simp add: map_fst_entries)
  then have "addr_of ht' ?ys (key_of b) = Some (brk ht)" using addr_of_Some[OF r'] by simp
  then show ?thesis
    using r r' upd a nf app
    by (auto simp: insert_success_def hash_repr_inv hash_repr_entries hash_repr_addrs
        has_key_addr_of appended_def)
qed

text \<open>The state before the link differs from the table only in the allocator and the next free index.\<close>

lemma appended_success_from:
  assumes r: "hash_repr ht xs" and a: "addr_of ht xs (key_of b) = None"
    and b: "bucket_ok (pHashFunction ht) b" and i: "i = bucket_index (nTableSize ht) (bk_h b)"
    and ht1: "ht1 = ht\<lparr>mallocs := ms, nNextFreeElement := nf\<rparr>"
    and ms: "mallocs ht = [] \<longrightarrow> ms = []"
  shows "\<exists>ht'. link_bucket i b ht1 = Some ht' \<and>
           insert_success ht (key_of b) (pData b) nf [] (Some (brk ht), ht')"
proof -
  have r1: "hash_repr ht1 xs" using r by (simp add: ht1)
  have "key_of b \<notin> bkey (mem ht1) ` set xs" using a addr_of_None[of ht] by (simp add: ht1)
  then obtain ht' where l: "link_bucket i b ht1 = Some ht'" and app: "appended ht1 xs b ht'"
    using link_bucket_ok[OF r1 _ _, of b i] b i by (auto simp: ht1)
  have "addr_of ht1 xs (key_of b) = None" using a by (simp add: ht1 addr_of_def)
  from appended_success[OF r1 this app, of nf]
  have s: "insert_success ht1 (key_of b) (pData b) nf [] (Some (brk ht), ht')" by (simp add: ht1)
  have ad: "hash_addrs ht1 = hash_addrs ht" "hash_entries ht1 = hash_entries ht"
    by (simp_all add: ht1 hash_entries_def hash_addrs_def)
  have hk: "has_key ht1 k = has_key ht k" for k by (simp add: has_key_def ad)
  have fl: "brk ht1 = brk ht" "pInternalPointer ht1 = pInternalPointer ht" "destroyed ht1 = destroyed ht"
    by (simp_all add: ht1)
  have sf: "same_frame ht ht'" if "same_frame ht1 ht'"
    using that ms by (simp add: same_frame_def ht1)
  show ?thesis
    using l s sf unfolding insert_success_def
    by (cases "has_key ht (key_of b)"; cases "pInternalPointer ht") (simp_all add: ad hk fl)
qed

text \<open>The bucket the code builds for a new entry, before it is linked.\<close>

abbreviation idx_bucket :: "ulong \<Rightarrow> 'a \<Rightarrow> bool \<Rightarrow> 'a bucket" where
  "idx_bucket h d ptr \<equiv>
     \<lparr>bk_h = h, arKey = None, nKeyLength = 0, pData = d, bIsPointer = ptr,
      pListNext = None, pListLast = None, pNext = None\<rparr>"

abbreviation str_bucket :: "ulong \<Rightarrow> string \<Rightarrow> 'a \<Rightarrow> bool \<Rightarrow> 'a bucket" where
  "str_bucket h key d ptr \<equiv>
     \<lparr>bk_h = h, arKey = Some key, nKeyLength = length key, pData = d, bIsPointer = ptr,
      pListNext = None, pListLast = None, pNext = None\<rparr>"

lemma idx_bucket_success:
  assumes r: "hash_repr ht xs" and a: "addr_of ht xs (IntKey h) = None"
    and i: "i = bucket_index (nTableSize ht) h"
    and ht1: "ht1 = ht\<lparr>mallocs := ms, nNextFreeElement := nf\<rparr>"
    and ms: "mallocs ht = [] \<longrightarrow> ms = []"
  shows "\<exists>ht'. link_bucket i (idx_bucket h d ptr) ht1 = Some ht' \<and>
           insert_success ht (IntKey h) d nf [] (Some (brk ht), ht')"
  using appended_success_from[OF r, where b = "idx_bucket h d ptr" and nf = nf] assms
  by (simp add: key_of_def bucket_ok_def)

lemma str_bucket_success:
  assumes r: "hash_repr ht xs" and a: "addr_of ht xs (StrKey key) = None"
    and key: "key \<noteq> []" "handle_numeric key = None" and h: "h = pHashFunction ht key"
    and i: "i = bucket_index (nTableSize ht) h"
    and ht1: "ht1 = ht\<lparr>mallocs := ms\<rparr>"
    and ms: "mallocs ht = [] \<longrightarrow> ms = []"
  shows "\<exists>ht'. link_bucket i (str_bucket h key d ptr) ht1 = Some ht' \<and>
           insert_success ht (StrKey key) d (nNextFreeElement ht) [] (Some (brk ht), ht')"
  using appended_success_from[OF r, where b = "str_bucket h key d ptr" and nf = "nNextFreeElement ht"] assms
  by (simp add: key_of_def bucket_ok_def)

end
