(* ===== verification/Hash_Update.thy ===== *)
theory Hash_Update
  imports Hash_Refine
begin

text \<open>
  The outcome of the four insertion functions of \<^verbatim>\<open>php3_hash.c\<close> on every branch: each returns
  (no wild pointer, no endless loop), keeps the invariant, and either succeeds as
  \<open>insert_success\<close> says or fails leaving the table as it was.
\<close>

definition old_data :: "'a hashtable \<Rightarrow> hkey \<Rightarrow> 'a list" where
  "old_data ht k =
     (case map_of (hash_entries ht) k of
        None \<Rightarrow> [] | Some d \<Rightarrow> if pDestructor ht then [d] else [])"

lemma old_data_None: "\<not> has_key ht k \<Longrightarrow> old_data ht k = []"
  by (simp add: old_data_def has_key_def) (metis map_of_eq_None_iff option.simps(4))

lemma old_data_addr:
  assumes r: "hash_repr ht xs" and "addr_of ht xs k = Some a" "mem ht a = Some b"
  shows "old_data ht k = (if pDestructor ht then [pData b] else [])"
  using assms by (simp add: old_data_def hash_repr_entries[OF r] map_of_addr_of bdata_def)

lemma insert_failure_same [simp]: "insert_failure ht (None, ht)"
  unfolding insert_failure_def by (rule conjI, simp, rule exI[of _ "mallocs ht"], simp)

lemma insert_failure_mallocs [simp]:
  "(alloc_ok ht \<longrightarrow> ms = mallocs ht) \<Longrightarrow> insert_failure ht (None, ht\<lparr>mallocs := ms\<rparr>)"
  unfolding insert_failure_def by auto

text \<open>One allocation, seen from the table: the success flag and a change of the script.\<close>

lemma pemalloc_obtain:
  obtains ok ms where "pemalloc (ht\<lparr>mallocs := ms0\<rparr>) = (ok, ht\<lparr>mallocs := ms\<rparr>)"
    "\<not> persistent ht \<or> ms0 = [] \<longrightarrow> ok \<and> ms = ms0"
proof (rule pemalloc_cases[of "ht\<lparr>mallocs := ms0\<rparr>"])
  fix ok ms
  assume "pemalloc (ht\<lparr>mallocs := ms0\<rparr>) = (ok, ht\<lparr>mallocs := ms0, mallocs := ms\<rparr>)"
    "\<not> persistent (ht\<lparr>mallocs := ms0\<rparr>) \<or> mallocs (ht\<lparr>mallocs := ms0\<rparr>) = []
      \<longrightarrow> ok \<and> ms = mallocs (ht\<lparr>mallocs := ms0\<rparr>)"
  then show thesis by (intro that[of ok ms]) simp_all
qed

lemma pemalloc_obtain0:
  obtains ok ms where "pemalloc ht = (ok, ht\<lparr>mallocs := ms\<rparr>)"
    "alloc_ok ht \<longrightarrow> ok" "mallocs ht = [] \<longrightarrow> ms = []" "alloc_ok ht \<longrightarrow> ms = mallocs ht"
proof (rule pemalloc_cases[of ht])
  fix ok ms
  assume *: "pemalloc ht = (ok, ht\<lparr>mallocs := ms\<rparr>)"
    "\<not> persistent ht \<or> mallocs ht = [] \<longrightarrow> ok \<and> ms = mallocs ht"
  show thesis by (rule that[OF *(1)]) (use *(2) in \<open>auto simp: alloc_ok_def\<close>)
qed

subsection \<open>Numeric keys\<close>

lemma index_update_outcome:
  assumes inv: "hash_inv ht"
    and h: "h = (if flag = HASH_NEXT_INSERT then nNextFreeElement ht else h0)"
  shows "\<exists>res. hash_index_update_or_next_insert ht h0 d flag = Some res \<and>
           insert_outcome ht (IntKey h) d (flag = HASH_UPDATE)
             (next_free_after h (nNextFreeElement ht)) (old_data ht (IntKey h)) res"
proof -
  define xs where "xs = hash_addrs ht"
  have r: "hash_repr ht xs" using hash_inv_repr[OF inv] by (simp add: xs_def)
  note look = idx_lookup[OF r, of h]
  note hk = has_key_addr_of[OF r, of "IntKey h"]
  show ?thesis
  proof (cases "addr_of ht xs (IntKey h)")
    case (Some a)
    then have hk': "has_key ht (IntKey h)" using hk by simp
    obtain b where b: "mem ht a = Some b" using Some addr_of_Some[OF r] hash_repr_dom[OF r] by blast
    show ?thesis
    proof (cases "flag = HASH_UPDATE")
      case False
      then have "hash_index_update_or_next_insert ht h0 d flag = Some (FAILURE, None, ht)"
        using look Some h by (cases flag) (simp_all add: hash_index_update_or_next_insert_def)
      then show ?thesis using hk' False by (simp add: insert_outcome_def)
    next
      case True
      let ?ht' = "ht\<lparr>mem := (mem ht)(a \<mapsto> b\<lparr>pData := d\<rparr>),
          destroyed := destroyed ht @ old_data ht (IntKey h),
          nNextFreeElement := next_free_after h (nNextFreeElement ht)\<rparr>"
      have "hash_index_update_or_next_insert ht h0 d flag = Some (SUCCESS, Some a, ?ht')"
        using look Some h True b old_data_addr[OF r Some b]
        by (simp add: hash_index_update_or_next_insert_def call_destructor_eq upd_bucket_def
            bump_next_free_eq)
      moreover have "insert_success ht (IntKey h) d (next_free_after h (nNextFreeElement ht))
          (old_data ht (IntKey h)) (Some a, ?ht')"
        by (rule replaced_success[OF r Some upd_data_replaced[OF r b]]) auto
      ultimately show ?thesis using True by (simp add: insert_outcome_def)
    qed
  next
    case None
    then have nk: "\<not> has_key ht (IntKey h)" using hk by simp
    obtain ok1 ms1 where p1: "pemalloc ht = (ok1, ht\<lparr>mallocs := ms1\<rparr>)" "alloc_ok ht \<longrightarrow> ok1"
      "mallocs ht = [] \<longrightarrow> ms1 = []" "alloc_ok ht \<longrightarrow> ms1 = mallocs ht" by (rule pemalloc_obtain0)
    obtain ok2 ms2 where p2: "pemalloc (ht\<lparr>mallocs := ms1\<rparr>) = (ok2, ht\<lparr>mallocs := ms2\<rparr>)"
      "\<not> persistent ht \<or> ms1 = [] \<longrightarrow> ok2 \<and> ms2 = ms1" by (rule pemalloc_obtain)
    have ms2: "mallocs ht = [] \<longrightarrow> ms2 = []" using p1(3) p2(2) by auto
    obtain ht' where ht': "link_bucket (bucket_index (nTableSize ht) h) (idx_bucket h d False)
          (ht\<lparr>mallocs := ms2, nNextFreeElement := next_free_after h (nNextFreeElement ht)\<rparr>) = Some ht'"
      "insert_success ht (IntKey h) d (next_free_after h (nNextFreeElement ht)) [] (Some (brk ht), ht')"
      using idx_bucket_success[OF r None refl refl ms2] by blast
    have ok2: "alloc_ok ht \<longrightarrow> ok2" using p2(2) p1(4) by (auto simp: alloc_ok_def)
    have "hash_index_update_or_next_insert ht h0 d flag =
        (if \<not> ok1 then Some (FAILURE, None, ht\<lparr>mallocs := ms1\<rparr>)
         else if \<not> ok2 then Some (FAILURE, None, ht\<lparr>mallocs := ms2\<rparr>)
         else Some (SUCCESS, Some (brk ht), ht'))"
      using look None h p1 p2 ht'
      by (simp add: hash_index_update_or_next_insert_def bump_next_free_eq)
    then show ?thesis
      using nk ht' p1 ok2 by (auto simp: insert_outcome_def old_data_None)
  qed
qed

text \<open>The pointer variant: the destructor is not called on the data of a pointer bucket.\<close>

definition old_ptr_data :: "'a hashtable \<Rightarrow> hkey \<Rightarrow> 'a list" where
  "old_ptr_data ht k =
     (case addr_of ht (hash_addrs ht) k of
        None \<Rightarrow> []
      | Some a \<Rightarrow> if bIsPointer (the (mem ht a)) then [] else old_data ht k)"

lemma repoint_success:
  assumes r: "hash_repr ht xs" and a: "addr_of ht xs k = Some a"
  shows "\<exists>ht'. repoint a d ht = Some ht' \<and>
           (\<forall>nf. insert_success ht k d nf (old_ptr_data ht k) (Some a, ht'\<lparr>nNextFreeElement := nf\<rparr>)) \<and>
           nNextFreeElement ht' = nNextFreeElement ht"
proof -
  obtain b where b: "mem ht a = Some b" using a addr_of_Some[OF r] hash_repr_dom[OF r] by blast
  let ?ht' = "ht\<lparr>mem := (mem ht)(a \<mapsto> b\<lparr>pData := d, bIsPointer := True\<rparr>),
      destroyed := destroyed ht @ old_ptr_data ht k\<rparr>"
  have "old_ptr_data ht k = (if \<not> bIsPointer b \<and> pDestructor ht then [pData b] else [])"
    using a b old_data_addr[OF r a b] by (simp add: old_ptr_data_def hash_repr_addrs[OF r])
  then have "repoint a d ht = Some ?ht'"
    using b by (simp add: repoint_def call_destructor_eq upd_bucket_def)
  moreover have "insert_success ht k d nf (old_ptr_data ht k) (Some a, ?ht'\<lparr>nNextFreeElement := nf\<rparr>)" for nf
    by (rule replaced_success[OF r a upd_data_replaced[OF r b]]) auto
  ultimately show ?thesis by auto
qed

lemma pointer_index_outcome:
  assumes inv: "hash_inv ht"
    and h: "h = (if flag = HASH_NEXT_INSERT then nNextFreeElement ht else h0)"
  shows "\<exists>res. hash_pointer_index_update_or_next_insert ht h0 d flag = Some res \<and>
           insert_outcome ht (IntKey h) d (flag \<noteq> HASH_NEXT_INSERT)
             (next_free_after h (nNextFreeElement ht)) (old_ptr_data ht (IntKey h)) res"
proof -
  define xs where "xs = hash_addrs ht"
  have r: "hash_repr ht xs" using hash_inv_repr[OF inv] by (simp add: xs_def)
  note look = idx_lookup[OF r, of h]
  note hk = has_key_addr_of[OF r, of "IntKey h"]
  show ?thesis
  proof (cases "addr_of ht xs (IntKey h)")
    case (Some a)
    then have hk': "has_key ht (IntKey h)" using hk by simp
    obtain ht' where ht': "repoint a d ht = Some ht'" "nNextFreeElement ht' = nNextFreeElement ht"
      "\<And>nf. insert_success ht (IntKey h) d nf (old_ptr_data ht (IntKey h))
         (Some a, ht'\<lparr>nNextFreeElement := nf\<rparr>)" using repoint_success[OF r Some] by blast
    show ?thesis
    proof (cases "flag = HASH_NEXT_INSERT")
      case True
      then have "hash_pointer_index_update_or_next_insert ht h0 d flag = Some (FAILURE, None, ht)"
        using look Some h by (simp add: hash_pointer_index_update_or_next_insert_def)
      then show ?thesis using hk' True by (simp add: insert_outcome_def)
    next
      case False
      then have "hash_pointer_index_update_or_next_insert ht h0 d flag =
          Some (SUCCESS, Some a, ht'\<lparr>nNextFreeElement := next_free_after h (nNextFreeElement ht)\<rparr>)"
        using look Some h ht'
        by (simp add: hash_pointer_index_update_or_next_insert_def bump_next_free_eq)
      then show ?thesis using False ht'(3) by (simp add: insert_outcome_def)
    qed
  next
    case None
    then have nk: "\<not> has_key ht (IntKey h)" using hk by simp
    have od: "old_ptr_data ht (IntKey h) = []"
      using None by (simp add: old_ptr_data_def xs_def)
    obtain ok1 ms1 where p1: "pemalloc ht = (ok1, ht\<lparr>mallocs := ms1\<rparr>)" "alloc_ok ht \<longrightarrow> ok1"
      "mallocs ht = [] \<longrightarrow> ms1 = []" "alloc_ok ht \<longrightarrow> ms1 = mallocs ht" by (rule pemalloc_obtain0)
    obtain ht' where ht': "link_bucket (bucket_index (nTableSize ht) h) (idx_bucket h d True)
          (ht\<lparr>mallocs := ms1, nNextFreeElement := next_free_after h (nNextFreeElement ht)\<rparr>) = Some ht'"
      "insert_success ht (IntKey h) d (next_free_after h (nNextFreeElement ht)) [] (Some (brk ht), ht')"
      using idx_bucket_success[OF r None refl refl p1(3)] by blast
    have "hash_pointer_index_update_or_next_insert ht h0 d flag =
        (if \<not> ok1 then Some (FAILURE, None, ht\<lparr>mallocs := ms1\<rparr>)
         else Some (SUCCESS, Some (brk ht), ht'))"
      using look None h p1 ht'
      by (simp add: hash_pointer_index_update_or_next_insert_def bump_next_free_eq)
    then show ?thesis using nk ht' p1 od by (auto simp: insert_outcome_def)
  qed
qed

subsection \<open>String keys\<close>

text \<open>
  With a persistent table the third allocation may fail, and then the code reads freed memory:
  the only way \<^verbatim>\<open>_php3_hash_add_or_update\<close> is undefined on a well-formed table.
\<close>

lemma str_update_outcome:
  assumes inv: "hash_inv ht" and key: "key \<noteq> []" "handle_numeric key = None"
  shows "(\<exists>res. hash_add_or_update ht key d flag = Some res \<and>
           insert_outcome ht (StrKey key) d (flag \<noteq> HASH_ADD)
             (nNextFreeElement ht) (old_data ht (StrKey key)) res) \<or>
         (hash_add_or_update ht key d flag = None \<and> \<not> alloc_ok ht \<and> \<not> has_key ht (StrKey key))"
proof -
  define xs where "xs = hash_addrs ht"
  define h where "h = pHashFunction ht key"
  have r: "hash_repr ht xs" using hash_inv_repr[OF inv] by (simp add: xs_def)
  note look = str_lookup[OF r, of key, folded h_def]
  note hk = has_key_addr_of[OF r, of "StrKey key"]
  show ?thesis
  proof (cases "addr_of ht xs (StrKey key)")
    case (Some a)
    then have hk': "has_key ht (StrKey key)" using hk by simp
    obtain b where b: "mem ht a = Some b" using Some addr_of_Some[OF r] hash_repr_dom[OF r] by blast
    show ?thesis
    proof (cases "flag = HASH_ADD")
      case True
      then have "hash_add_or_update ht key d flag = Some (FAILURE, None, ht)"
        using look Some key by (simp add: hash_add_or_update_def h_def)
      then show ?thesis using hk' True by (simp add: insert_outcome_def)
    next
      case False
      let ?ht' = "ht\<lparr>mem := (mem ht)(a \<mapsto> b\<lparr>pData := d\<rparr>),
          destroyed := destroyed ht @ old_data ht (StrKey key),
          nNextFreeElement := nNextFreeElement ht\<rparr>"
      have "hash_add_or_update ht key d flag = Some (SUCCESS, Some a, ?ht')"
        using look Some False b key old_data_addr[OF r Some b]
        by (simp add: hash_add_or_update_def h_def call_destructor_eq upd_bucket_def)
      moreover have "insert_success ht (StrKey key) d (nNextFreeElement ht)
          (old_data ht (StrKey key)) (Some a, ?ht')"
        by (rule replaced_success[OF r Some upd_data_replaced[OF r b,
              where b' = "b\<lparr>pData := d\<rparr>" and nf = "nNextFreeElement ht"
                and ds = "destroyed ht @ old_data ht (StrKey key)"]]) simp_all
      ultimately show ?thesis using False by (simp add: insert_outcome_def)
    qed
  next
    case None
    then have nk: "\<not> has_key ht (StrKey key)" using hk by simp
    obtain ok1 ms1 where p1: "pemalloc ht = (ok1, ht\<lparr>mallocs := ms1\<rparr>)" "alloc_ok ht \<longrightarrow> ok1"
      "mallocs ht = [] \<longrightarrow> ms1 = []" "alloc_ok ht \<longrightarrow> ms1 = mallocs ht" by (rule pemalloc_obtain0)
    obtain ok2 ms2 where p2: "pemalloc (ht\<lparr>mallocs := ms1\<rparr>) = (ok2, ht\<lparr>mallocs := ms2\<rparr>)"
      "\<not> persistent ht \<or> ms1 = [] \<longrightarrow> ok2 \<and> ms2 = ms1" by (rule pemalloc_obtain)
    obtain ok3 ms3 where p3: "pemalloc (ht\<lparr>mallocs := ms2\<rparr>) = (ok3, ht\<lparr>mallocs := ms3\<rparr>)"
      "\<not> persistent ht \<or> ms2 = [] \<longrightarrow> ok3 \<and> ms3 = ms2" by (rule pemalloc_obtain)
    have ms3: "mallocs ht = [] \<longrightarrow> ms3 = []" using p1(3) p2(2) p3(2) by auto
    have ok: "alloc_ok ht \<longrightarrow> ok2 \<and> ok3" using p1(4) p2(2) p3(2) by (auto simp: alloc_ok_def)
    obtain ht' where ht': "link_bucket (bucket_index (nTableSize ht) h) (str_bucket h key d False)
          (ht\<lparr>mallocs := ms3\<rparr>) = Some ht'"
      "insert_success ht (StrKey key) d (nNextFreeElement ht) [] (Some (brk ht), ht')"
      using str_bucket_success[OF r None key h_def refl refl ms3] by blast
    have "hash_add_or_update ht key d flag =
        (if \<not> ok1 then Some (FAILURE, None, ht\<lparr>mallocs := ms1\<rparr>)
         else if \<not> ok2 then Some (FAILURE, None, ht\<lparr>mallocs := ms2\<rparr>)
         else if \<not> ok3 then None
         else Some (SUCCESS, Some (brk ht), ht'))"
      using look None key p1 p2 p3 ht' by (simp add: hash_add_or_update_def h_def)
    then show ?thesis
      using nk ht' p1(2) ok by (cases ok1; cases ok2; cases ok3)
        (auto simp: insert_outcome_def old_data_None)
  qed
qed

lemma str_pointer_outcome:
  assumes inv: "hash_inv ht" and key: "key \<noteq> []" "handle_numeric key = None"
  shows "\<exists>res. hash_pointer_update ht key d = Some res \<and>
           insert_outcome ht (StrKey key) d True
             (nNextFreeElement ht) (old_ptr_data ht (StrKey key)) res"
proof -
  define xs where "xs = hash_addrs ht"
  define h where "h = pHashFunction ht key"
  have r: "hash_repr ht xs" using hash_inv_repr[OF inv] by (simp add: xs_def)
  note look = str_lookup[OF r, of key, folded h_def]
  show ?thesis
  proof (cases "addr_of ht xs (StrKey key)")
    case (Some a)
    obtain ht' where ht': "repoint a d ht = Some ht'" "nNextFreeElement ht' = nNextFreeElement ht"
      "\<And>nf. insert_success ht (StrKey key) d nf (old_ptr_data ht (StrKey key))
         (Some a, ht'\<lparr>nNextFreeElement := nf\<rparr>)" using repoint_success[OF r Some] by blast
    have "ht' = ht'\<lparr>nNextFreeElement := nNextFreeElement ht\<rparr>" using ht'(2) by simp
    then have s: "insert_success ht (StrKey key) d (nNextFreeElement ht)
        (old_ptr_data ht (StrKey key)) (Some a, ht')" using ht'(3) by metis
    have "hash_pointer_update ht key d = Some (SUCCESS, Some a, ht')"
      using look Some key ht' by (simp add: hash_pointer_update_def h_def)
    then show ?thesis using s by (simp add: insert_outcome_def)
  next
    case None
    then have od: "old_ptr_data ht (StrKey key) = []" by (simp add: old_ptr_data_def xs_def)
    obtain ok1 ms1 where p1: "pemalloc ht = (ok1, ht\<lparr>mallocs := ms1\<rparr>)" "alloc_ok ht \<longrightarrow> ok1"
      "mallocs ht = [] \<longrightarrow> ms1 = []" "alloc_ok ht \<longrightarrow> ms1 = mallocs ht" by (rule pemalloc_obtain0)
    obtain ok2 ms2 where p2: "pemalloc (ht\<lparr>mallocs := ms1\<rparr>) = (ok2, ht\<lparr>mallocs := ms2\<rparr>)"
      "\<not> persistent ht \<or> ms1 = [] \<longrightarrow> ok2 \<and> ms2 = ms1" by (rule pemalloc_obtain)
    have ms2: "mallocs ht = [] \<longrightarrow> ms2 = []" using p1(3) p2(2) by auto
    have ok2: "alloc_ok ht \<longrightarrow> ok2" using p2(2) p1(4) by (auto simp: alloc_ok_def)
    obtain ht' where ht': "link_bucket (bucket_index (nTableSize ht) h) (str_bucket h key d True)
          (ht\<lparr>mallocs := ms2\<rparr>) = Some ht'"
      "insert_success ht (StrKey key) d (nNextFreeElement ht) [] (Some (brk ht), ht')"
      using str_bucket_success[OF r None key h_def refl refl ms2] by blast
    have "hash_pointer_update ht key d =
        (if \<not> ok1 then Some (FAILURE, None, ht\<lparr>mallocs := ms1\<rparr>)
         else if \<not> ok2 then Some (FAILURE, None, ht\<lparr>mallocs := ms2\<rparr>)
         else Some (SUCCESS, Some (brk ht), ht'))"
      using look None key p1 p2 ht' by (simp add: hash_pointer_update_def h_def)
    then show ?thesis using ht' p1(2) ok2 od by (auto simp: insert_outcome_def)
  qed
qed

subsection \<open>Any key\<close>

lemma update_outcome:
  assumes inv: "hash_inv ht" and key: "key \<noteq> []" and ok: "alloc_ok ht" and flag: "flag \<noteq> HASH_NEXT_INSERT"
  shows "\<exists>res nf. hash_add_or_update ht key d flag = Some res \<and>
           insert_outcome ht (norm_key key) d (flag = HASH_UPDATE) nf (old_data ht (norm_key key)) res \<and>
           nf = (case handle_numeric key of
                   None \<Rightarrow> nNextFreeElement ht
                 | Some h \<Rightarrow> next_free_after h (nNextFreeElement ht))"
proof (cases "handle_numeric key")
  case None
  moreover have "(flag = HASH_UPDATE) = (flag \<noteq> HASH_ADD)" using flag by (cases flag) auto
  ultimately show ?thesis
    using str_update_outcome[OF inv key None, of d flag] ok by (auto simp: norm_key_def)
next
  case (Some h)
  have "h = (if flag = HASH_NEXT_INSERT then nNextFreeElement ht else h)" using flag by simp
  from index_update_outcome[OF inv this, of d] show ?thesis
    using Some key by (auto simp: norm_key_def hash_add_or_update_def)
qed

end
