(* ===== verification/Hash_Delete.thy ===== *)
theory Hash_Delete
  imports Hash_Update
begin

text \<open>
  Deletion: unlinking a bucket from its chain and from the global list keeps the representation
  and removes exactly its entry; \<^verbatim>\<open>_php3_hash_destroy\<close> frees every bucket once and
  \<^verbatim>\<open>_php3_hash_apply\<close> filters the entries.
\<close>

subsection \<open>Unlinking from the global list\<close>

lemma dseg_head_prev:
  assumes "dseg m prev (v # vs) nxt" "v \<notin> set vs" "m v = Some d"
  shows "dseg (m(v \<mapsto> d\<lparr>pListLast := q\<rparr>)) q (v # vs) nxt"
  using assms by auto

lemma last_in_dom: "us \<noteq> [] \<Longrightarrow> set us \<subseteq> dom m \<Longrightarrow> \<exists>b. m (last us) = Some b"
  by (meson domD last_in_set subsetD)

lemma hd_in_dom: "vs \<noteq> [] \<Longrightarrow> set vs \<subseteq> dom m \<Longrightarrow> \<exists>b. m (hd vs) = Some b"
  by (meson domD hd_in_set subsetD)

definition unlink_list :: "addr list \<Rightarrow> addr list \<Rightarrow> 'a heap \<Rightarrow> 'a heap" where
  "unlink_list us vs m =
     (let m2 = (if us = [] then m
                else m(last us \<mapsto> (the (m (last us)))\<lparr>pListNext := hd_or vs None\<rparr>))
      in if vs = [] then m2
         else m2(hd vs \<mapsto> (the (m2 (hd vs)))\<lparr>pListLast := last_or us None\<rparr>))"

lemma unlink_list_dseg:
  assumes d: "dseg m None (us @ a # vs) None" and dist: "distinct (us @ a # vs)"
  shows "dseg (unlink_list us vs m) None (us @ vs) None"
proof -
  have sub: "set (us @ a # vs) \<subseteq> dom m" by (rule dseg_in_dom[OF d])
  define m2 where "m2 = (if us = [] then m
      else m(last us \<mapsto> (the (m (last us)))\<lparr>pListNext := hd_or vs None\<rparr>))"
  have us: "dseg m2 None us (hd_or vs None)"
  proof (cases "us = []")
    case False
    then obtain c where c: "m (last us) = Some c" using sub last_in_dom[of us m] by auto
    have "dseg m None us (Some a)" using d by simp
    from dseg_last_next[OF this _ False c] dist c show ?thesis by (simp add: m2_def False)
  qed (simp add: m2_def)
  have vs: "dseg m2 (Some a) vs None"
  proof (cases "us = []")
    case False
    then have "last us \<notin> set vs" using dist by (auto dest: last_in_set)
    then show ?thesis using d False by (auto simp: m2_def)
  qed (use d in \<open>auto simp: m2_def\<close>)
  show ?thesis
  proof (cases vs)
    case Nil
    moreover have "unlink_list us vs m = m2" using Nil by (simp add: unlink_list_def m2_def)
    ultimately show ?thesis using us by simp
  next
    case (Cons v vs')
    have "m v \<noteq> None" using sub Cons by auto
    then have "m2 v \<noteq> None" by (auto simp: m2_def)
    then obtain e where e: "m2 v = Some e" by blast
    have v: "v \<notin> set us" "v \<notin> set vs'" using dist Cons by auto
    have "dseg (m2(v \<mapsto> e\<lparr>pListLast := last_or us None\<rparr>)) (last_or us None) (v # vs') None"
      using dseg_head_prev vs Cons v e by blast
    moreover have "dseg (m2(v \<mapsto> e\<lparr>pListLast := last_or us None\<rparr>)) None us (Some v)"
      using us v Cons by simp
    moreover have "unlink_list us vs m = (if vs = [] then m2
        else m2(hd vs \<mapsto> (the (m2 (hd vs)))\<lparr>pListLast := last_or us None\<rparr>))"
      unfolding unlink_list_def m2_def[symmetric] Let_def by (rule refl)
    then have "unlink_list us vs m = m2(v \<mapsto> e\<lparr>pListLast := last_or us None\<rparr>)"
      using Cons e by simp
    ultimately show ?thesis using Cons e by simp
  qed
qed

lemma unlink_list_links_eq: "set (us @ vs) \<subseteq> dom m \<Longrightarrow> links_eq m (unlink_list us vs m)"
proof -
  assume sub: "set (us @ vs) \<subseteq> dom m"
  define m2 where "m2 = (if us = [] then m
      else m(last us \<mapsto> (the (m (last us)))\<lparr>pListNext := hd_or vs None\<rparr>))"
  have "us \<noteq> [] \<Longrightarrow> last us \<in> dom m" using sub last_in_dom[of us m] by auto
  then have 1: "links_eq m m2" by (auto simp: m2_def links_eq_def strip_links_def)
  have "vs \<noteq> [] \<Longrightarrow> hd vs \<in> dom m2" using sub links_eq_dom[OF 1] hd_in_dom[of vs m] by auto
  then have "links_eq m2 (unlink_list us vs m)"
    by (auto simp: unlink_list_def m2_def[symmetric] links_eq_def strip_links_def)
  then show ?thesis by (rule links_eq_trans[OF 1])
qed

lemma unlink_list_pNext:
  assumes sub: "set (us @ vs) \<subseteq> dom m"
  shows "map_option pNext (unlink_list us vs m a) = map_option pNext (m a)"
proof -
  define m2 where "m2 = (if us = [] then m
      else m(last us \<mapsto> (the (m (last us)))\<lparr>pListNext := hd_or vs None\<rparr>))"
  have 1: "us \<noteq> [] \<Longrightarrow> last us \<in> dom m" using sub last_in_dom[of us m] by auto
  then have 2: "vs \<noteq> [] \<Longrightarrow> hd vs \<in> dom m2" using sub hd_in_dom[of vs m] by (auto simp: m2_def)
  have 3: "map_option pNext (m2 x) = map_option pNext (m x)" for x
    using 1 by (auto simp: m2_def)
  show ?thesis
    using 2 3[of a] by (auto simp: unlink_list_def m2_def[symmetric])
qed

subsection \<open>Unlinking from a chain\<close>

definition unlink_chain :: "addr list \<Rightarrow> addr option \<Rightarrow> 'a heap \<Rightarrow> 'a heap" where
  "unlink_chain cs n m =
     (if cs = [] then m else m(last cs \<mapsto> (the (m (last cs)))\<lparr>pNext := n\<rparr>))"

lemma unlink_chain_eq: "set cs \<subseteq> dom m \<Longrightarrow> chain_eq m (unlink_chain cs n m)"
proof -
  assume "set cs \<subseteq> dom m"
  then have "cs \<noteq> [] \<Longrightarrow> last cs \<in> dom m" using last_in_dom[of cs m] by auto
  then show ?thesis by (auto simp: unlink_chain_def chain_eq_def strip_chain_def)
qed

lemma chain_in_dom: "chain m p ys \<Longrightarrow> set ys \<subseteq> dom m"
  by (induction ys arbitrary: p) auto

lemma unlink_chain_chain:
  assumes "chain m p (cs @ a # ds)" "distinct (cs @ a # ds)" "m a = Some b"
  shows "chain (unlink_chain cs (pNext b) m) (if cs = [] then pNext b else p) (cs @ ds)"
proof (cases "cs = []")
  case True
  then show ?thesis using assms by (simp add: unlink_chain_def)
next
  case False
  then obtain c where "m (last cs) = Some c"
    using chain_in_dom[OF assms(1)] last_in_dom[of cs m] by auto
  then show ?thesis
    using chain_relink[OF assms(1,2) False assms(3)] False by (simp add: unlink_chain_def)
qed

text \<open>The chains after both unlinkings and the free.\<close>

lemma chains_ok_delete:
  assumes ok: "chains_ok n m bs" and b: "m a = Some b" and i: "i = bucket_index n (bk_h b)"
    and ch: "chain m (bs ! i) (cs @ a # ds)" "distinct (cs @ a # ds)"
    and m1: "m1 = unlink_chain cs (pNext b) m" and leq: "links_eq m1 m3"
    and nx: "\<And>x. map_option pNext (m3 x) = map_option pNext (m1 x)"
  shows "chains_ok n (m3(a := None)) (if cs = [] then bs[i := pNext b] else bs)"
  unfolding chains_ok_def
proof (intro conjI allI impI)
  let ?bs = "if cs = [] then bs[i := pNext b] else bs" and ?m = "m3(a := None)"
  have n: "0 < n" "length bs = n" using ok by (simp_all add: chains_ok_def)
  show "0 < n" "length ?bs = n" using n by simp_all
  have in_n: "i < n" using n i by (simp add: bucket_index_less)
  have sub: "set (cs @ a # ds) \<subseteq> dom m" by (rule chain_in_dom[OF ch(1)])
  have ceq: "chain_eq m m1" unfolding m1 by (rule unlink_chain_eq) (use sub in auto)
  have leq': "links_eq m m3" by (rule links_eq_trans[OF chain_eq_links_eq[OF ceq] leq])
  have bi: "bidx n ?m x = bidx n m x" if "x \<noteq> a" for x
    using links_eq_bidx[OF leq', of n x] that by (simp add: bidx_def)
  have dm: "dom ?m = dom m - {a}" using links_eq_dom[OF leq'] by auto
  have c3: "chain m3 p ys = chain m1 p ys" for p ys by (rule chain_cong) (simp add: nx)
  fix j assume j: "j < n"
  then obtain ys where ys: "chain m (bs ! j) ys" "distinct ys" "set ys = {x \<in> dom m. bidx n m x = j}"
    using ok by (auto simp: chains_ok_def)
  show "\<exists>zs. chain ?m (?bs ! j) zs \<and> distinct zs \<and> set zs = {x \<in> dom ?m. bidx n ?m x = j}"
  proof (cases "j = i")
    case True
    then have e: "ys = cs @ a # ds" using chain_unique[OF ys(1)] ch(1) by simp
    have "?bs ! i = (if cs = [] then pNext b else bs ! i)" using in_n n by simp
    then have "chain m1 (?bs ! i) (cs @ ds)" using unlink_chain_chain[OF ch b] by (simp add: m1)
    moreover have "a \<notin> set (cs @ ds)" using ch(2) by auto
    ultimately have "chain ?m (?bs ! i) (cs @ ds)" by (simp add: c3)
    moreover have "set (cs @ ds) = {x \<in> dom ?m. bidx n ?m x = i}"
    proof -
      have "set (cs @ ds) = set ys - {a}" using ch(2) by (auto simp: e)
      also have "\<dots> = {x \<in> dom ?m. bidx n m x = i}" unfolding ys(3) dm True by auto
      also have "\<dots> = {x \<in> dom ?m. bidx n ?m x = i}" using bi by (auto simp: dm)
      finally show ?thesis .
    qed
    ultimately show ?thesis using ch(2) True by (intro exI[of _ "cs @ ds"]) auto
  next
    case False
    have ba: "bidx n m a = i" using b i by (simp add: bidx_def)
    then have na: "a \<notin> set ys" using ys(3) False by auto
    have "cs \<noteq> [] \<Longrightarrow> last cs \<notin> set ys"
    proof -
      assume "cs \<noteq> []"
      obtain zs where zs: "chain m (bs ! i) zs" "set zs = {x \<in> dom m. bidx n m x = i}"
        using ok in_n by (auto simp: chains_ok_def)
      then have "zs = cs @ a # ds" using chain_unique ch(1) by blast
      then have "bidx n m (last cs) = i" using zs(2) \<open>cs \<noteq> []\<close> by (metis (mono_tags, lifting) UnI1 last_in_set mem_Collect_eq set_append)
      then show ?thesis using ys(3) False by auto
    qed
    then have "chain m1 (bs ! j) ys" using ys(1) by (auto simp: m1 unlink_chain_def)
    moreover have "?bs ! j = bs ! j" using False by simp
    ultimately have "chain ?m (?bs ! j) ys" using na by (simp add: c3)
    moreover have "set ys = {x \<in> dom ?m. bidx n ?m x = j}"
    proof -
      have "set ys = {x \<in> dom ?m. bidx n m x = j}" using na unfolding ys(3) dm by auto
      also have "\<dots> = {x \<in> dom ?m. bidx n ?m x = j}" using bi by (auto simp: dm)
      finally show ?thesis .
    qed
    ultimately show ?thesis using ys(2) by blast
  qed
qed

lemma keys_ok_delete: "keys_ok hf m \<Longrightarrow> keys_ok hf (m(a := None))"
proof -
  assume ok: "keys_ok hf m"
  have "inj_on (bkey (m(a := None))) (dom m - {a})"
    using ok by (auto simp: keys_ok_def inj_on_def bkey_def split: if_splits)
  then show ?thesis using ok by (auto simp: keys_ok_def split: if_splits)
qed

subsection \<open>The whole unlinking\<close>

definition deleted ::
    "'a hashtable \<Rightarrow> addr list \<Rightarrow> addr \<Rightarrow> addr list \<Rightarrow> 'a hashtable \<Rightarrow> bool" where
  "deleted ht us a vs ht' \<longleftrightarrow>
     hash_repr ht' (us @ vs) \<and>
     entries (mem ht') (us @ vs) = entries (mem ht) us @ entries (mem ht) vs \<and>
     (\<forall>x. x \<noteq> a \<longrightarrow> map_option strip_links (mem ht' x) = map_option strip_links (mem ht x)) \<and>
     same_frame ht ht' \<and> nNextFreeElement ht' = nNextFreeElement ht \<and>
     pInternalPointer ht' =
       (if pInternalPointer ht = Some a then hd_or vs None else pInternalPointer ht) \<and>
     destroyed ht' = destroyed ht @
       (if \<not> bIsPointer (the (mem ht a)) \<and> pDestructor ht then [bdata (mem ht) a] else [])"

lemma upd_bucket_mem:
  assumes "m a = Some b"
  shows "upd_bucket a f (ht\<lparr>mem := m\<rparr>) = Some (ht\<lparr>mem := m(a \<mapsto> f b)\<rparr>)"
  using assms by (simp add: upd_bucket_def)

lemma unlink_bucket_ok:
  assumes r: "hash_repr ht (us @ a # vs)" and b: "mem ht a = Some b"
    and i: "i = bucket_index (nTableSize ht) (bk_h b)"
    and ch: "chain (mem ht) (arBuckets ht ! i) (cs @ a # ds)" "distinct (cs @ a # ds)"
    and ub: "flag = HASH_DEL_KEY \<and> arKey b = None \<longrightarrow> persistent ht"
  shows "\<exists>ht'. unlink_bucket i (last_or cs None) a flag ht = Some ht' \<and> deleted ht us a vs ht'"
proof -
  let ?m = "mem ht" and ?n = "nTableSize ht"
  define bs where "bs = (if cs = [] then (arBuckets ht)[i := pNext b] else arBuckets ht)"
  define m1 where "m1 = unlink_chain cs (pNext b) ?m"
  define m2 where "m2 = (if us = [] then m1
      else m1(last us \<mapsto> (the (m1 (last us)))\<lparr>pListNext := hd_or vs None\<rparr>))"
  define m3 where "m3 = unlink_list us vs m1"
  have l: "distinct (us @ a # vs)" "dom ?m = set (us @ a # vs)" "dseg ?m None (us @ a # vs) None"
      "pListHead ht = hd_or (us @ a # vs) None" "pListTail ht = last_or (us @ a # vs) None"
    using r by (auto simp: hash_repr_def list_ok_def)
  have lb: "pListLast b = last_or us None" "pListNext b = hd_or vs None" using l(3) b by auto
  have csd: "set cs \<subseteq> dom ?m" using chain_in_dom[OF ch(1)] by simp
  have ceq: "chain_eq ?m m1" unfolding m1_def by (rule unlink_chain_eq[OF csd])
  have dm1: "dom m1 = set (us @ a # vs)" using links_eq_dom[OF chain_eq_links_eq[OF ceq]] l by simp
  have sub: "set (us @ vs) \<subseteq> dom m1" using dm1 by auto
  have leq13: "links_eq m1 m3" unfolding m3_def by (rule unlink_list_links_eq[OF sub])
  have leq: "links_eq ?m m3" by (rule links_eq_trans[OF chain_eq_links_eq[OF ceq] leq13])
  have d1: "dseg m1 None (us @ a # vs) None" using l(3) chain_eq_dseg[OF ceq] by blast
  have d3: "dseg (m3(a := None)) None (us @ vs) None"
    using unlink_list_dseg[OF d1 l(1)] l(1) by (simp add: m3_def)
  have c3: "chains_ok ?n (m3(a := None)) bs"
    unfolding bs_def
    by (rule chains_ok_delete[OF _ b i ch m1_def leq13])
       (use r unlink_list_pNext[OF sub] in \<open>simp_all add: hash_repr_def m3_def\<close>)
  have k3: "keys_ok (pHashFunction ht) (m3(a := None))"
    by (rule keys_ok_delete[OF links_eq_keys_ok[OF leq]]) (use r in \<open>simp add: hash_repr_def\<close>)
  have dm3: "dom (m3(a := None)) = set (us @ vs)" using links_eq_dom[OF leq] l by auto
  define ht' where "ht' = ht\<lparr>mem := m3(a := None), arBuckets := bs,
      pListHead := hd_or (us @ vs) None, pListTail := last_or (us @ vs) None,
      destroyed := destroyed ht @ (if \<not> bIsPointer b \<and> pDestructor ht then [pData b] else []),
      pInternalPointer := (if pInternalPointer ht = Some a then hd_or vs None else pInternalPointer ht),
      nNumOfElements := nNumOfElements ht - 1\<rparr>"
  have ip: "x \<in> set (us @ vs)" if "pInternalPointer ht' = Some x" for x
    using that r hd_or_Some_in[of vs x]
    by (auto simp: ht'_def hash_repr_def split: if_splits)
  have r': "hash_repr ht' (us @ vs)"
    using r c3 k3 d3 dm3 l(1) ip by (auto simp: hash_repr_def list_ok_def ht'_def size_ok_def)
  have e: "entries (m3(a := None)) (us @ vs) = entries ?m us @ entries ?m vs"
  proof -
    have "entries (m3(a := None)) (us @ vs) = entries m3 (us @ vs)"
      by (rule entries_cong) (use l(1) in auto)
    then show ?thesis using links_eq_entries[OF leq, of "us @ vs"] by (simp add: entries_def)
  qed
  have hd_bs: "arBuckets ht ! i = Some a \<longleftrightarrow> cs = []"
    using chain_head[OF ch(1)] ch(2) by (cases cs) auto
  define h1 where "h1 = ht\<lparr>arBuckets := bs, mem := m1\<rparr>"
  have s1: "(if arBuckets ht ! i = Some a then Some (ht\<lparr>arBuckets := (arBuckets ht)[i := pNext b]\<rparr>)
      else (case last_or cs None of None \<Rightarrow> None
            | Some t' \<Rightarrow> upd_bucket t' (\<lambda>c. c\<lparr>pNext := pNext b\<rparr>) ht)) = Some h1"
  proof (cases "cs = []")
    case True
    then show ?thesis by (simp add: hd_bs h1_def bs_def m1_def unlink_chain_def)
  next
    case False
    then obtain c where "?m (last cs) = Some c" using last_in_dom csd by blast
    then show ?thesis using False
      by (simp add: hd_bs h1_def bs_def m1_def unlink_chain_def upd_bucket_def last_or_def)
  qed
  define h2 where "h2 = (if us = [] then h1\<lparr>pListHead := hd_or vs None\<rparr> else h1\<lparr>mem := m2\<rparr>)"
  have s2: "(case pListLast b of Some q \<Rightarrow> upd_bucket q (\<lambda>c. c\<lparr>pListNext := pListNext b\<rparr>) h1
      | None \<Rightarrow> Some (h1\<lparr>pListHead := pListNext b\<rparr>)) = Some h2"
  proof (cases "us = []")
    case False
    then obtain c where "m1 (last us) = Some c" using last_in_dom[of us m1] sub by auto
    then show ?thesis using False
      by (simp add: lb h2_def h1_def m2_def upd_bucket_def last_or_def)
  qed (simp add: lb h2_def)
  have m2': "mem h2 = m2" by (simp add: h2_def h1_def m2_def)
  define h3 where "h3 = (if vs = [] then h2\<lparr>pListTail := last_or us None\<rparr> else h2\<lparr>mem := m3\<rparr>)"
  have s3: "(case pListNext b of Some q \<Rightarrow> upd_bucket q (\<lambda>c. c\<lparr>pListLast := pListLast b\<rparr>) h2
      | None \<Rightarrow> Some (h2\<lparr>pListTail := pListLast b\<rparr>)) = Some h3"
  proof (cases vs)
    case Nil
    then show ?thesis by (simp add: lb h3_def)
  next
    case (Cons v vs')
    have "links_eq m1 m2"
      using last_in_dom[of us m1] sub by (auto simp: m2_def links_eq_def strip_links_def)
    then obtain c where c: "m2 v = Some c" using sub links_eq_dom Cons by fastforce
    have "m3 = (if vs = [] then m2
        else m2(hd vs \<mapsto> (the (m2 (hd vs)))\<lparr>pListLast := last_or us None\<rparr>))"
      unfolding m3_def unlink_list_def m2_def[symmetric] Let_def by (rule refl)
    then have "m3 = m2(v \<mapsto> c\<lparr>pListLast := last_or us None\<rparr>)" using Cons c by simp
    then show ?thesis using Cons c by (simp add: lb h3_def upd_bucket_def m2')
  qed
  have m3': "mem h3 = m3"
    by (simp add: h3_def m2') (simp add: m3_def unlink_list_def m2_def Let_def)
  have m21: "us = [] \<Longrightarrow> m2 = m1" and m32: "vs = [] \<Longrightarrow> m3 = m2"
    by (simp_all add: m2_def m3_def unlink_list_def)
  have fr: "pDestructor h3 = pDestructor ht" "persistent h3 = persistent ht"
      "destroyed h3 = destroyed ht" "pInternalPointer h3 = pInternalPointer ht"
    by (simp_all add: h3_def h2_def h1_def)
  have "unlink_bucket i (last_or cs None) a flag ht =
      (let h5 = (if \<not> bIsPointer b then call_destructor (pData b) h3 else h3);
           h6 = (if pInternalPointer h5 = Some a then h5\<lparr>pInternalPointer := pListNext b\<rparr> else h5)
       in Some (h6\<lparr>mem := (mem h6)(a := None), nNumOfElements := nNumOfElements h6 - 1\<rparr>))"
  proof -
    have "(if flag = HASH_DEL_KEY \<and> arKey b = None \<and> \<not> persistent h3 then None else Some h3) = Some h3"
      using ub fr by auto
    then show ?thesis unfolding unlink_bucket_def by (simp only: b s1 s2 s3 Option.bind.bind_lunit Let_def)
  qed
  also have "\<dots> = Some ht'"
    unfolding Let_def option.inject
    by (rule hashtable.equality)
       (auto simp: call_destructor_eq fr m3' m21 m32 ht'_def lb h3_def h2_def h1_def last_or_def l(4,5)
         hd_or_def split: list.splits)
  finally have u: "unlink_bucket i (last_or cs None) a flag ht = Some ht'" .
  have fr': "map_option strip_links ((m3(a := None)) x) = map_option strip_links (?m x)" if "x \<noteq> a" for x
    using leq that by (simp add: links_eq_def)
  have "deleted ht us a vs ht'"
    unfolding deleted_def using r' e fr' b
    by (simp add: ht'_def same_frame_def bdata_def)
  then show ?thesis using u by blast
qed

end
