(* ===== verification/Hash_Remove.thy ===== *)
theory Hash_Remove
  imports Hash_Delete
begin

text \<open>
  The outcome of \<^verbatim>\<open>_php3_hash_del_key_or_index\<close>, \<^verbatim>\<open>_php3_hash_destroy\<close> and \<^verbatim>\<open>_php3_hash_apply\<close>.
  The comparison of the deletion loop accepts any bucket without a key whose number equals the
  hash of the deleted string (\<open>numeric_clash\<close>): away from that case deletion removes exactly
  the entry of the key, in that case it is wrong.
\<close>

lemma alist_delete_split:
  "k \<notin> fst ` set xs \<Longrightarrow> k \<notin> fst ` set ys \<Longrightarrow> AList.delete k (xs @ (k, d) # ys) = xs @ ys"
proof (induction xs)
  case Nil
  then show ?case by simp
qed auto

definition ptr_data :: "'a hashtable \<Rightarrow> addr \<Rightarrow> 'a list" where
  "ptr_data ht a =
     (if \<not> bIsPointer (the (mem ht a)) \<and> pDestructor ht then [bdata (mem ht) a] else [])"

definition freed_data :: "'a hashtable \<Rightarrow> hkey \<Rightarrow> 'a list" where
  "freed_data ht k = (case addr_of ht (hash_addrs ht) k of None \<Rightarrow> [] | Some a \<Rightarrow> ptr_data ht a)"

text \<open>The internal pointer after the removal of \<open>k\<close>: it moves to the next entry if it was there.\<close>

definition next_addr :: "addr list \<Rightarrow> addr \<Rightarrow> addr option" where
  "next_addr xs a = hd_or (drop 1 (dropWhile (\<lambda>x. x \<noteq> a) xs)) None"

lemma next_addr_split: "a \<notin> set us \<Longrightarrow> next_addr (us @ a # vs) a = hd_or vs None"
proof -
  assume "a \<notin> set us"
  then have "dropWhile (\<lambda>x. x \<noteq> a) (us @ a # vs) = a # vs"
    by (subst dropWhile_append2) auto
  then show ?thesis by (simp add: next_addr_def)
qed

definition remove_success :: "'a hashtable \<Rightarrow> hkey \<Rightarrow> 'a hashtable \<Rightarrow> bool" where
  "remove_success ht k ht' \<longleftrightarrow>
     hash_inv ht' \<and> same_frame ht ht' \<and>
     hash_entries ht' = AList.delete k (hash_entries ht) \<and>
     nNextFreeElement ht' = nNextFreeElement ht \<and>
     destroyed ht' = destroyed ht @ freed_data ht k \<and>
     (\<exists>a. addr_of ht (hash_addrs ht) k = Some a \<and>
          hash_addrs ht' = remove1 a (hash_addrs ht) \<and>
          pInternalPointer ht' =
            (if pInternalPointer ht = Some a then next_addr (hash_addrs ht) a
             else pInternalPointer ht))"

definition remove_outcome :: "'a hashtable \<Rightarrow> hkey \<Rightarrow> status \<times> 'a hashtable \<Rightarrow> bool" where
  "remove_outcome ht k res \<longleftrightarrow>
     (if fst res = SUCCESS then has_key ht k \<and> remove_success ht k (snd res)
      else \<not> has_key ht k \<and> snd res = ht)"

lemma deleted_success:
  assumes r: "hash_repr ht (us @ a # vs)" and a: "addr_of ht (us @ a # vs) k = Some a"
    and d: "deleted ht us a vs ht'"
  shows "remove_success ht k ht'"
proof -
  let ?xs = "us @ a # vs"
  have k: "bkey (mem ht) a = k" using a addr_of_Some[OF r] by blast
  have dist: "distinct ?xs" "inj_on (bkey (mem ht)) (set ?xs)"
    using r by (auto simp: hash_repr_def list_ok_def keys_ok_def)
  have nk: "bkey (mem ht) x \<noteq> k" if "x \<in> set us \<union> set vs" for x
  proof
    assume "bkey (mem ht) x = k"
    then have "x = a" using k that inj_onD[OF dist(2), of x a] by auto
    then show False using that dist(1) by auto
  qed
  have r': "hash_repr ht' (us @ vs)"
    and e: "entries (mem ht') (us @ vs) = entries (mem ht) us @ entries (mem ht) vs"
    using d by (auto simp: deleted_def)
  have "entries (mem ht) ?xs = entries (mem ht) us @ (k, bdata (mem ht) a) # entries (mem ht) vs"
    by (simp add: entries_def k)
  moreover have "k \<notin> fst ` set (entries (mem ht) us)" "k \<notin> fst ` set (entries (mem ht) vs)"
    using nk by auto
  ultimately have "AList.delete k (entries (mem ht) ?xs) = entries (mem ht') (us @ vs)"
    unfolding e by (simp add: alist_delete_split del: fst_entries)
  moreover have "remove1 a ?xs = us @ vs" using dist(1) by (simp add: remove1_append)
  moreover have "next_addr ?xs a = hd_or vs None" using dist(1) by (simp add: next_addr_split)
  ultimately show ?thesis
    using d r r' a
    by (auto simp: remove_success_def deleted_def hash_repr_inv[OF r'] hash_repr_entries[OF r]
        hash_repr_entries[OF r'] hash_repr_addrs[OF r] hash_repr_addrs[OF r'] freed_data_def ptr_data_def)
qed

lemma del_at_list:
  assumes r: "hash_repr ht xs"
    and P: "\<And>a b. mem ht a = Some b \<Longrightarrow> del_match h key b \<longleftrightarrow> key_of b = k"
    and h: "\<And>a b. mem ht a = Some b \<Longrightarrow> key_of b = k \<Longrightarrow> bk_h b = h"
    and ub: "\<And>a b. mem ht a = Some b \<Longrightarrow> key_of b = k \<Longrightarrow>
               flag = HASH_DEL_KEY \<and> arKey b = None \<longrightarrow> persistent ht"
  shows "case addr_of ht xs k of
           None \<Rightarrow> hash_del_at ht key h flag = Some (FAILURE, ht)
         | Some a \<Rightarrow> \<exists>us vs ht'. xs = us @ a # vs \<and>
             hash_del_at ht key h flag = Some (SUCCESS, ht') \<and> deleted ht us a vs ht'"
proof -
  let ?i = "bucket_index (nTableSize ht) h"
  have "size_ok ht" using r by (simp add: hash_repr_def)
  then have i: "?i < nTableSize ht" by (simp add: bucket_index_less size_ok_pos)
  have dm: "dom (mem ht) = set xs" using r by (simp add: hash_repr_def list_ok_def)
  obtain ys where ys: "chain (mem ht) (arBuckets ht ! ?i) ys" "distinct ys"
      "set ys = {a \<in> set xs. bidx (nTableSize ht) (mem ht) a = ?i}"
    using r i dm by (auto simp: hash_repr_def chains_ok_def)
  have Pk: "del_match h key (the (mem ht a)) \<longleftrightarrow> bkey (mem ht) a = k" if "a \<in> set xs" for a
    using that dm P[of a] by (force simp: bkey_def)
  show ?thesis
  proof (cases "addr_of ht xs k")
    case None
    then have "\<not> del_match h key (the (mem ht a))" if "a \<in> set ys" for a
      using that ys(3) Pk addr_of_None[of ht xs k] by auto
    then have "chain_find_prev (del_match h key) (mem ht) None (arBuckets ht ! ?i) = Some None"
      by (intro chain_find_prev_None[OF ys(1)])
    with None show ?thesis by (simp add: hash_del_at_def)
  next
    case (Some a)
    then have a: "a \<in> set xs" "bkey (mem ht) a = k" using addr_of_Some[OF r] by auto
    then obtain b where b: "mem ht a = Some b" "key_of b = k" using dm by (force simp: bkey_def)
    have bh: "bk_h b = h" using h b by blast
    have "a \<in> set ys" using a b bh ys(3) by (simp add: bidx_def)
    then obtain cs ds where cd: "ys = cs @ a # ds" by (meson split_list)
    obtain us vs where uv: "xs = us @ a # vs" using a(1) by (meson split_list)
    have ncs: "\<not> del_match h key (the (mem ht x))" if "x \<in> set cs" for x
    proof
      assume "del_match h key (the (mem ht x))"
      moreover have x: "x \<in> set xs" using that ys(3) cd by auto
      ultimately have "x = a" using Pk addr_of_Some[OF r, of k] Some by (metis option.inject)
      then show False using that ys(2) cd by auto
    qed
    have fp: "chain_find_prev (del_match h key) (mem ht) None (arBuckets ht ! ?i) =
        Some (Some (last_or cs None, a))"
      by (rule chain_find_prev_Some) (use ys cd ncs Pk a in auto)
    obtain ht' where "unlink_bucket ?i (last_or cs None) a flag ht = Some ht'" "deleted ht us a vs ht'"
      using unlink_bucket_ok[OF r[unfolded uv] b(1) _ _ _ ub[OF b], of ?i cs ds] ys cd bh by auto
    then show ?thesis using fp Some uv by (auto simp: hash_del_at_def)
  qed
qed

lemma del_at_outcome:
  assumes inv: "hash_inv ht"
    and P: "\<And>a b. mem ht a = Some b \<Longrightarrow> del_match h key b \<longleftrightarrow> key_of b = k"
    and h: "\<And>a b. mem ht a = Some b \<Longrightarrow> key_of b = k \<Longrightarrow> bk_h b = h"
    and ub: "\<And>a b. mem ht a = Some b \<Longrightarrow> key_of b = k \<Longrightarrow>
               flag = HASH_DEL_KEY \<and> arKey b = None \<longrightarrow> persistent ht"
  shows "\<exists>res. hash_del_at ht key h flag = Some res \<and> remove_outcome ht k res"
proof -
  have r: "hash_repr ht (hash_addrs ht)" by (rule hash_inv_repr[OF inv])
  have *: "case addr_of ht (hash_addrs ht) k of
           None \<Rightarrow> hash_del_at ht key h flag = Some (FAILURE, ht)
         | Some a \<Rightarrow> \<exists>us vs ht'. hash_addrs ht = us @ a # vs \<and>
             hash_del_at ht key h flag = Some (SUCCESS, ht') \<and> deleted ht us a vs ht'"
    by (rule del_at_list[OF r P h ub])
  show ?thesis
  proof (cases "addr_of ht (hash_addrs ht) k")
    case None
    then show ?thesis using * has_key_addr_of[OF r, of k] by (simp add: remove_outcome_def)
  next
    case (Some a)
    then obtain us vs ht' where d: "hash_addrs ht = us @ a # vs"
        "hash_del_at ht key h flag = Some (SUCCESS, ht')" "deleted ht us a vs ht'"
      using * by auto
    have "remove_success ht k ht'"
      by (rule deleted_success[OF _ _ d(3)]) (use r Some d(1) in simp_all)
    then show ?thesis
      using d Some has_key_addr_of[OF r, of k] by (simp add: remove_outcome_def)
  qed
qed

text \<open>Which buckets the comparison of the deletion loop accepts.\<close>

lemma del_match_index:
  assumes "bucket_ok hf b" and "key = [] \<or> handle_numeric key \<noteq> None"
  shows "del_match h key b \<longleftrightarrow> key_of b = IntKey h"
  using assms by (auto simp: del_match_def key_of_def bucket_ok_def split: option.splits)

lemma del_match_str:
  assumes "bucket_ok hf b"
  shows "del_match (hf key) key b \<longleftrightarrow> key_of b = StrKey key \<or> key_of b = IntKey (hf key)"
proof (cases "arKey b")
  case (Some k)
  then have "bk_h b = hf k" "nKeyLength b = length k" using assms by (auto simp: bucket_ok_def)
  then show ?thesis using Some by (auto simp: del_match_def key_of_def)
qed (auto simp: del_match_def key_of_def)

lemma key_of_Str_hash:
  "bucket_ok hf b \<Longrightarrow> key_of b = StrKey key \<Longrightarrow> bk_h b = hf key"
  by (auto simp: key_of_def bucket_ok_def split: option.splits)

lemma key_of_Int_hash: "key_of b = IntKey h \<Longrightarrow> bk_h b = h \<and> arKey b = None"
  by (auto simp: key_of_def split: option.splits)

lemma index_del_outcome:
  assumes inv: "hash_inv ht"
  shows "\<exists>res. hash_index_del ht h = Some res \<and> remove_outcome ht (IntKey h) res"
proof -
  have "\<exists>res. hash_del_at ht [] h HASH_DEL_INDEX = Some res \<and> remove_outcome ht (IntKey h) res"
  proof (rule del_at_outcome[OF inv])
    fix a b assume "mem ht a = Some b"
    then have "bucket_ok (pHashFunction ht) b" using hash_repr_bucket[OF hash_inv_repr[OF inv]] by blast
    then show "del_match h [] b \<longleftrightarrow> key_of b = IntKey h" by (rule del_match_index) simp
  qed (use key_of_Int_hash in auto)
  then show ?thesis by (simp add: hash_del_key_or_index_def)
qed

definition numeric_clash :: "'a hashtable \<Rightarrow> string \<Rightarrow> bool" where
  "numeric_clash ht key \<longleftrightarrow>
     handle_numeric key = None \<and> has_key ht (IntKey (pHashFunction ht key))"

lemma has_key_mem:
  "hash_inv ht \<Longrightarrow> mem ht a = Some b \<Longrightarrow> has_key ht (key_of b)"
  using hash_repr_bucket[OF hash_inv_repr, of ht a b]
  by (force simp: has_key_def hash_entries_def bkey_def)

lemma key_del_outcome:
  assumes inv: "hash_inv ht" and nc: "\<not> numeric_clash ht key"
  shows "\<exists>res. hash_del ht key = Some res \<and> remove_outcome ht (norm_key key) res"
proof (cases "handle_numeric key")
  case None
  note bok = hash_repr_bucket[OF hash_inv_repr[OF inv]]
  have "\<exists>res. hash_del_at ht key (pHashFunction ht key) HASH_DEL_KEY = Some res \<and>
      remove_outcome ht (StrKey key) res"
  proof (rule del_at_outcome[OF inv])
    fix a b assume b: "mem ht a = Some b"
    then have ok: "bucket_ok (pHashFunction ht) b" using bok by blast
    have "key_of b \<noteq> IntKey (pHashFunction ht key)"
      using has_key_mem[OF inv b] nc None by (auto simp: numeric_clash_def)
    then show "del_match (pHashFunction ht key) key b \<longleftrightarrow> key_of b = StrKey key"
      using del_match_str[OF ok] by simp
    assume k: "key_of b = StrKey key"
    show "bk_h b = pHashFunction ht key" using key_of_Str_hash[OF ok k] .
    show "HASH_DEL_KEY = HASH_DEL_KEY \<and> arKey b = None \<longrightarrow> persistent ht"
      using k by (auto simp: key_of_def)
  qed
  then show ?thesis using None by (simp add: hash_del_key_or_index_def norm_key_def)
next
  case (Some h)
  have "\<exists>res. hash_del_at ht key h HASH_DEL_INDEX = Some res \<and> remove_outcome ht (IntKey h) res"
  proof (rule del_at_outcome[OF inv])
    fix a b assume "mem ht a = Some b"
    then have "bucket_ok (pHashFunction ht) b" using hash_repr_bucket[OF hash_inv_repr[OF inv]] by blast
    then show "del_match h key b \<longleftrightarrow> key_of b = IntKey h" by (rule del_match_index) (simp add: Some)
  qed (use key_of_Int_hash in auto)
  then show ?thesis using Some by (simp add: hash_del_key_or_index_def norm_key_def)
qed

text \<open>
  With a clash and no entry of the key itself: a persistent table loses the entry of the number,
  another table calls \<^verbatim>\<open>efree(NULL)\<close>.
\<close>

lemma clash_del_persistent:
  assumes inv: "hash_inv ht" and cl: "numeric_clash ht key" and nk: "\<not> has_key ht (norm_key key)"
    and p: "persistent ht"
  shows "\<exists>res. hash_del ht key = Some res \<and> remove_outcome ht (IntKey (pHashFunction ht key)) res"
proof -
  let ?h = "pHashFunction ht key"
  have None: "handle_numeric key = None" using cl by (simp add: numeric_clash_def)
  have "\<exists>res. hash_del_at ht key ?h HASH_DEL_KEY = Some res \<and> remove_outcome ht (IntKey ?h) res"
  proof (rule del_at_outcome[OF inv])
    fix a b assume b: "mem ht a = Some b"
    have "key_of b \<noteq> StrKey key"
      using has_key_mem[OF inv b] nk None by (auto simp: norm_key_def)
    then show "del_match ?h key b \<longleftrightarrow> key_of b = IntKey ?h"
      using del_match_str hash_repr_bucket[OF hash_inv_repr[OF inv] b] by blast
  qed (use p key_of_Int_hash in auto)
  then show ?thesis using None by (simp add: hash_del_key_or_index_def)
qed

lemma upd_bucket_persistent: "upd_bucket a f ht = Some ht' \<Longrightarrow> persistent ht' = persistent ht"
  by (auto simp: upd_bucket_def split: option.splits)

lemma unlink_null_key:
  assumes b: "mem ht a = Some b" and k: "arKey b = None" and p: "\<not> persistent ht"
  shows "unlink_bucket i t a HASH_DEL_KEY ht = None"
proof (rule ccontr)
  assume "unlink_bucket i t a HASH_DEL_KEY ht \<noteq> None"
  then obtain ht' where "unlink_bucket i t a HASH_DEL_KEY ht = Some ht'" by blast
  then obtain ht1 ht2 ht3 where
    1: "(if arBuckets ht ! i = Some a then Some (ht\<lparr>arBuckets := (arBuckets ht)[i := pNext b]\<rparr>)
        else (case t of None \<Rightarrow> None
              | Some t' \<Rightarrow> upd_bucket t' (\<lambda>c. c\<lparr>pNext := pNext b\<rparr>) ht)) = Some ht1" and
    2: "(case pListLast b of Some q \<Rightarrow> upd_bucket q (\<lambda>c. c\<lparr>pListNext := pListNext b\<rparr>) ht1
        | None \<Rightarrow> Some (ht1\<lparr>pListHead := pListNext b\<rparr>)) = Some ht2" and
    3: "(case pListNext b of Some q \<Rightarrow> upd_bucket q (\<lambda>c. c\<lparr>pListLast := pListLast b\<rparr>) ht2
        | None \<Rightarrow> Some (ht2\<lparr>pListTail := pListLast b\<rparr>)) = Some ht3" and
    4: "(if HASH_DEL_KEY = HASH_DEL_KEY \<and> arKey b = None \<and> \<not> persistent ht3 then None
        else Some ht3) \<noteq> None"
    unfolding unlink_bucket_def Option.bind_eq_Some_conv b option.inject by blast
  have "persistent ht1 = persistent ht" using 1
    by (auto split: if_splits option.splits dest: upd_bucket_persistent)
  moreover have "persistent ht2 = persistent ht1" using 2
    by (auto split: option.splits dest: upd_bucket_persistent)
  moreover have "persistent ht3 = persistent ht2" using 3
    by (auto split: option.splits dest: upd_bucket_persistent)
  ultimately show False using 4 k p by simp
qed

lemma clash_del_undefined:
  assumes inv: "hash_inv ht" and cl: "numeric_clash ht key" and nk: "\<not> has_key ht (norm_key key)"
    and p: "\<not> persistent ht"
  shows "hash_del ht key = None"
proof -
  let ?h = "pHashFunction ht key" and ?n = "nTableSize ht" and ?xs = "hash_addrs ht"
  let ?i = "bucket_index ?n ?h"
  have r: "hash_repr ht ?xs" by (rule hash_inv_repr[OF inv])
  have None: "handle_numeric key = None" using cl by (simp add: numeric_clash_def)
  obtain a where "addr_of ht ?xs (IntKey ?h) = Some a"
    using cl has_key_addr_of[OF r] by (auto simp: numeric_clash_def)
  then have a: "a \<in> set ?xs" "bkey (mem ht) a = IntKey ?h" using addr_of_Some[OF r] by auto
  obtain b where b: "mem ht a = Some b" using hash_repr_dom[OF r a(1)] by blast
  have match: "del_match ?h key (the (mem ht x)) \<longleftrightarrow> x = a" if x: "x \<in> set ?xs" for x
  proof -
    obtain c where c: "mem ht x = Some c" using hash_repr_dom[OF r x] by blast
    have "key_of c \<noteq> StrKey key" using has_key_mem[OF inv c] nk None by (auto simp: norm_key_def)
    then have "del_match ?h key c \<longleftrightarrow> bkey (mem ht) x = IntKey ?h"
      using del_match_str hash_repr_bucket[OF r c] c by (auto simp: bkey_def)
    also have "\<dots> \<longleftrightarrow> x = a"
    proof -
      have "inj_on (bkey (mem ht)) (set ?xs)"
        using r by (auto simp: hash_repr_def list_ok_def keys_ok_def)
      from inj_on_eq_iff[OF this x a(1)] show ?thesis by (simp add: a(2))
    qed
    finally show ?thesis using c by simp
  qed
  have "size_ok ht" "dom (mem ht) = set ?xs" using r by (simp_all add: hash_repr_def list_ok_def)
  then obtain ys where ys: "chain (mem ht) (arBuckets ht ! ?i) ys" "distinct ys"
      "set ys = {x \<in> set ?xs. bidx ?n (mem ht) x = ?i}"
    using r by (auto simp: hash_repr_def chains_ok_def dest: spec[of _ ?i] simp: bucket_index_less size_ok_pos)
  have "bk_h b = ?h" using a(2) b key_of_Int_hash by (auto simp: bkey_def)
  then have "a \<in> set ys" using ys(3) a b by (simp add: bidx_def)
  then obtain cs ds where cd: "ys = cs @ a # ds" by (meson split_list)
  have "chain_find_prev (del_match ?h key) (mem ht) None (arBuckets ht ! ?i) =
      Some (Some (last_or cs None, a))"
    by (rule chain_find_prev_Some) (use ys cd match in auto)
  moreover have "arKey b = None" using a(2) b key_of_Int_hash by (auto simp: bkey_def)
  ultimately show ?thesis
    using unlink_null_key[OF b _ p] None by (simp add: hash_del_key_or_index_def hash_del_at_def)
qed

subsection \<open>Destruction\<close>

text \<open>What the destructor is called on: the data of the buckets that are not pointers.\<close>

definition owned_data :: "'a heap \<Rightarrow> addr list \<Rightarrow> 'a list" where
  "owned_data m xs = map (bdata m) (filter (\<lambda>a. \<not> bIsPointer (the (m a))) xs)"

lemma owned_data_upd: "a \<notin> set xs \<Longrightarrow> owned_data (m(a := v)) xs = owned_data m xs"
  by (induction xs) (auto simp: owned_data_def bdata_def)

lemma destroy_loop_ok:
  assumes "dseg (mem ht) prev xs None" and "distinct xs"
  shows "\<exists>ht'. destroy_loop (hd_or xs None) ht = Some ht' \<and>
           (\<forall>a. mem ht' a = (if a \<in> set xs then None else mem ht a)) \<and>
           destroyed ht' = destroyed ht @ (if pDestructor ht then owned_data (mem ht) xs else [])"
  using assms
proof (induction xs arbitrary: prev ht)
  case Nil
  then show ?case by (simp add: destroy_loop.simps owned_data_def)
next
  case (Cons a xs)
  then obtain b where b: "mem ht a = Some b" "pListNext b = hd_or xs None"
      "dseg (mem ht) (Some a) xs None" by auto
  define ht1 where "ht1 = (if \<not> bIsPointer b then call_destructor (pData b) ht else ht)"
  define ht2 where "ht2 = ht1\<lparr>mem := (mem ht1)(a := None)\<rparr>"
  have m2: "mem ht2 = (mem ht)(a := None)" "pDestructor ht2 = pDestructor ht"
    by (simp_all add: ht2_def ht1_def call_destructor_eq)
  have d2: "destroyed ht2 = destroyed ht @
      (if pDestructor ht \<and> \<not> bIsPointer b then [pData b] else [])"
    by (simp add: ht2_def ht1_def call_destructor_eq)
  have na: "a \<notin> set xs" "distinct xs" using Cons.prems(2) by auto
  have "dseg (mem ht2) (Some a) xs None" using b(3) na by (simp add: m2)
  from Cons.IH[OF this na(2)] obtain ht' where ht': "destroy_loop (hd_or xs None) ht2 = Some ht'"
      "\<forall>x. mem ht' x = (if x \<in> set xs then None else mem ht2 x)"
      "destroyed ht' = destroyed ht2 @ (if pDestructor ht2 then owned_data (mem ht2) xs else [])"
    by blast
  have "destroy_loop (hd_or (a # xs) None) ht = Some ht'"
    using b ht'(1) by (subst destroy_loop.simps) (simp add: ht2_def ht1_def Let_def)
  moreover have "owned_data (mem ht) (a # xs) = (if bIsPointer b then [] else [pData b]) @ owned_data (mem ht) xs"
    using b by (simp add: owned_data_def bdata_def)
  ultimately show ?case
    using ht'(2,3) na by (auto simp: m2 d2 owned_data_upd)
qed

lemma destroy_ok:
  assumes inv: "hash_inv ht"
  shows "\<exists>ht'. hash_destroy ht = Some ht' \<and> mem ht' = Map.empty \<and>
           destroyed ht' = destroyed ht @
             (if pDestructor ht then owned_data (mem ht) (hash_addrs ht) else [])"
proof -
  have r: "hash_repr ht (hash_addrs ht)" by (rule hash_inv_repr[OF inv])
  then have l: "dseg (mem ht) None (hash_addrs ht) None" "distinct (hash_addrs ht)"
      "pListHead ht = hd_or (hash_addrs ht) None" "dom (mem ht) = set (hash_addrs ht)"
    by (auto simp: hash_repr_def list_ok_def)
  from destroy_loop_ok[OF l(1,2)] obtain ht' where ht': "destroy_loop (pListHead ht) ht = Some ht'"
      "\<forall>a. mem ht' a = (if a \<in> set (hash_addrs ht) then None else mem ht a)"
      "destroyed ht' = destroyed ht @
         (if pDestructor ht then owned_data (mem ht) (hash_addrs ht) else [])"
    unfolding l(3) by blast
  have "mem ht' = Map.empty" using ht'(2) l(4) by (auto simp: fun_eq_iff)
  then show ?thesis using ht' by (simp add: hash_destroy_def)
qed

end
