(* ===== verification/Hash_Iter.thy ===== *)
theory Hash_Iter
  imports Hash_Remove
begin

text \<open>
  The functions of \<^verbatim>\<open>php3_hash.c\<close> that go through a whole table: apply, copy and merge, seen as
  functions on the list of entries.
\<close>

lemma remove_success_repr:
  assumes "remove_success ht k ht'" and r: "hash_repr ht (us @ a # ws)"
    and a: "bkey (mem ht) a = k"
  shows "hash_repr ht' (us @ ws)"
proof -
  have ad: "hash_addrs ht = us @ a # ws" by (rule hash_repr_addrs[OF r])
  have "addr_of ht (us @ a # ws) k = Some a" using addr_of_Some[OF r, of k a] a by simp
  then have "hash_addrs ht' = remove1 a (us @ a # ws)"
    using assms(1) ad by (auto simp: remove_success_def)
  moreover have "a \<notin> set us" using r by (auto simp: hash_repr_def list_ok_def)
  ultimately have "hash_addrs ht' = us @ ws" by (simp add: remove1_append)
  then show ?thesis using assms(1) hash_inv_repr by (fastforce simp: remove_success_def)
qed

lemma bkey_mem: "mem ht a = Some b \<Longrightarrow> bkey (mem ht) a = key_of b"
  by (simp add: bkey_def)

lemma key_of_norm:
  assumes "bucket_ok hf b" and "arKey b = Some k"
  shows "key_of b = StrKey k" "norm_key (take (nKeyLength b) k) = StrKey k"
    "take (nKeyLength b) k = k" "k \<noteq> []" "handle_numeric k = None"
  using assms by (auto simp: bucket_ok_def key_of_def norm_key_def)

subsection \<open>Apply\<close>

definition no_clash :: "'a hashtable \<Rightarrow> bool" where
  "no_clash ht \<longleftrightarrow> (\<forall>key. has_key ht (StrKey key) \<longrightarrow> \<not> has_key ht (IntKey (pHashFunction ht key)))"

text \<open>The same walk on the list of entries: what is kept, and the state after the last call.\<close>

fun apply_entries :: "('a, 's) apply_func \<Rightarrow> (hkey \<times> 'a) list \<Rightarrow> 's \<Rightarrow> (hkey \<times> 'a) list \<times> 's" where
  "apply_entries destruct [] s = ([], s)"
| "apply_entries destruct ((k, d) # es) s =
     (case destruct d s of
        (del, d', s') \<Rightarrow>
          (case apply_entries destruct es s' of
             (rest, t) \<Rightarrow> (if del then rest else (k, d') # rest, t)))"

lemma apply_entries_Cons:
  "apply_entries destruct (e # es) s =
     (fst (apply_entries destruct [e] s) @ fst (apply_entries destruct es (snd (apply_entries destruct [e] s))),
      snd (apply_entries destruct es (snd (apply_entries destruct [e] s))))"
  by (cases e) (auto split: prod.splits)

lemma apply_entries_keys: "fst ` set (fst (apply_entries destruct es s)) \<subseteq> fst ` set es"
proof (induction es arbitrary: s)
  case (Cons e es)
  obtain k d where e: "e = (k, d)" by fastforce
  obtain del d' s' where c: "destruct d s = (del, d', s')" by (cases "destruct d s") auto
  obtain r t where r: "apply_entries destruct es s' = (r, t)" by fastforce
  have "fst ` set r \<subseteq> fst ` set es" using Cons[of s'] r by simp
  then show ?case by (cases del) (auto simp: e c r)
qed simp

lemma apply_one_ok:
  assumes r: "hash_repr ht (us @ a # ws)" and nc: "no_clash ht" and b: "mem ht a = Some b"
  shows "\<exists>ht' vs es s'. apply_one destruct a b s ht = Some (s', ht') \<and> same_frame ht ht' \<and>
           hash_repr ht' (vs @ ws) \<and> entries (mem ht') ws = entries (mem ht) ws \<and>
           entries (mem ht') vs = entries (mem ht) us @ es \<and>
           apply_entries destruct [(bkey (mem ht) a, bdata (mem ht) a)] s = (es, s')"
proof -
  obtain del d s' where call: "destruct (pData b) s = (del, d, s')" by (cases "destruct (pData b) s") auto
  let ?xs = "us @ a # ws" and ?d = d
  define ht1 where "ht1 = ht\<lparr>mem := (mem ht)(a \<mapsto> b\<lparr>pData := ?d\<rparr>)\<rparr>"
  have rep: "replaced ht ?xs a ?d ht1"
    by (rule upd_data_replaced[OF r b, where ds = "destroyed ht" and nf = "nNextFreeElement ht"
          and b' = "b\<lparr>pData := ?d\<rparr>"]) (simp_all add: ht1_def)
  then have r1: "hash_repr ht1 ?xs" and sf1: "same_frame ht ht1" by (auto simp: replaced_def)
  have dist: "distinct ?xs" using r by (auto simp: hash_repr_def list_ok_def)
  have oth: "entries (mem ht1) zs = entries (mem ht) zs" if "a \<notin> set zs" for zs
    by (rule entries_cong) (use that in \<open>auto simp: ht1_def\<close>)
  have k1: "bkey (mem ht1) a = key_of b" "bdata (mem ht1) a = ?d"
    by (simp_all add: ht1_def bkey_def bdata_def key_of_def split: option.split)
  have k0: "bkey (mem ht) a = key_of b" "bdata (mem ht) a = pData b"
    using b by (simp_all add: bkey_def bdata_def)
  have u: "upd_bucket a (\<lambda>c. c\<lparr>pData := ?d\<rparr>) ht = Some ht1"
    using b by (simp add: upd_bucket_def ht1_def)
  show ?thesis
  proof (cases del)
    case False
    then have "apply_one destruct a b s ht = Some (s', ht1)" using u call by (simp add: apply_one_def)
    moreover have "hash_repr ht1 ((us @ [a]) @ ws)" using r1 by simp
    moreover have "entries (mem ht1) (us @ [a]) = entries (mem ht) us @ [(bkey (mem ht) a, d)]"
      using dist oth[of us] k0 k1 by (simp add: entries_def)
    moreover have "apply_entries destruct [(bkey (mem ht) a, bdata (mem ht) a)] s = ([(bkey (mem ht) a, d)], s')"
      using False call k0 by simp
    ultimately show ?thesis using sf1 oth[of ws] dist by (intro exI[of _ ht1] exI[of _ "us @ [a]"] exI conjI) auto
  next
    case True
    have inv1: "hash_inv ht1" by (rule hash_repr_inv[OF r1])
    have keys1: "fst ` set (hash_entries ht1) = fst ` set (hash_entries ht)"
      using rep by (simp add: hash_repr_entries[OF r] hash_repr_entries[OF r1] replaced_def
          AList.dom_update del: fst_entries) (force simp: entries_def)
    then have hk: "has_key ht1 = has_key ht" by (simp add: has_key_def fun_eq_iff)
    have m1: "mem ht1 a = Some (b\<lparr>pData := ?d\<rparr>)" by (simp add: ht1_def)
    have ka: "has_key ht1 (key_of b)"
      using has_key_addr_of[OF r1] addr_of_Some[OF r1, of "key_of b" a] k1 by simp
    have "\<exists>ht'. apply_one destruct a b s ht = Some (s', ht') \<and> remove_success ht1 (key_of b) ht'"
    proof (cases "arKey b")
      case None
      then have kb: "key_of b = IntKey (bk_h b)" by (simp add: key_of_def)
      obtain res where "hash_index_del ht1 (bk_h b) = Some res" "remove_outcome ht1 (key_of b) res"
        using index_del_outcome[OF inv1] kb by metis
      then show ?thesis using True None u ka call
        by (cases res) (auto simp: apply_one_def remove_outcome_def split: if_splits)
    next
      case (Some k)
      have ok: "bucket_ok (pHashFunction ht) b" using hash_repr_bucket[OF r b] by blast
      note kn = key_of_norm[OF ok Some]
      have "\<not> numeric_clash ht1 k"
        using nc ka kn(1) by (simp add: numeric_clash_def no_clash_def hk) (simp add: ht1_def)
      moreover have "norm_key k = key_of b" using kn(1,2,3) by simp
      ultimately obtain res where res: "hash_del ht1 k = Some res" "remove_outcome ht1 (key_of b) res"
        using key_del_outcome[OF inv1, of k] by auto
      then have "remove_success ht1 (key_of b) (snd res)"
        using ka by (auto simp: remove_outcome_def split: if_splits)
      moreover have "apply_one destruct a b s ht = Some (s', snd res)"
        unfolding apply_one_def call prod.case u by (simp only: True Some kn(3) res(1) Option.bind.bind_lunit
            if_True option.case option.map snd_conv)
      ultimately show ?thesis by blast
    qed
    then obtain ht' where ht': "apply_one destruct a b s ht = Some (s', ht')" "remove_success ht1 (key_of b) ht'"
      by blast
    have r': "hash_repr ht' (us @ ws)" by (rule remove_success_repr[OF ht'(2) r1 k1(1)])
    have "entries (mem ht') (us @ ws) = AList.delete (key_of b) (entries (mem ht1) ?xs)"
      using ht'(2) hash_repr_entries[OF r'] hash_repr_entries[OF r1] by (simp add: remove_success_def)
    also have "\<dots> = entries (mem ht1) us @ entries (mem ht1) ws"
    proof -
      have "key_of b \<notin> fst ` set (entries (mem ht1) us)" "key_of b \<notin> fst ` set (entries (mem ht1) ws)"
        using hash_repr_distinct_keys[OF r1] k1 by (simp_all add: map_fst_entries)
      then show ?thesis
        using alist_delete_split[of "key_of b" "entries (mem ht1) us" "entries (mem ht1) ws" ?d]
        by (simp add: entries_def k1)
    qed
    also have "\<dots> = entries (mem ht) us @ entries (mem ht) ws" using oth dist by simp
    finally have e: "entries (mem ht') us = entries (mem ht) us" "entries (mem ht') ws = entries (mem ht) ws"
      by (auto simp: entries_def)
    have "same_frame ht ht'" using sf1 ht'(2) same_frame_trans by (auto simp: remove_success_def)
    then show ?thesis
      using ht' r' e True k0 call by (intro exI[of _ ht'] exI[of _ us] exI[of _ "[]"] exI[of _ s']) simp
  qed
qed

lemma apply_loop_ok:
  assumes "hash_repr ht (us @ ws)" and "no_clash ht"
  shows "\<exists>ht'. apply_loop destruct (hd_or ws None) s ht = Some (snd (apply_entries destruct (entries (mem ht) ws) s), ht') \<and>
           hash_inv ht' \<and> same_frame ht ht' \<and>
           hash_entries ht' = entries (mem ht) us @ fst (apply_entries destruct (entries (mem ht) ws) s)"
  using assms
proof (induction ws arbitrary: us s ht)
  case Nil
  then show ?case
    by (simp add: apply_loop.simps hash_repr_inv hash_repr_entries) (simp add: entries_def)
next
  case (Cons a ws)
  obtain b where b: "mem ht a = Some b" using hash_repr_dom[OF Cons.prems(1), of a] by auto
  have nx: "pListNext b = hd_or ws None"
    using Cons.prems(1) b by (auto simp: hash_repr_def list_ok_def)
  obtain ht1 vs es s' where 1: "apply_one destruct a b s ht = Some (s', ht1)" "same_frame ht ht1"
      "hash_repr ht1 (vs @ ws)" "entries (mem ht1) ws = entries (mem ht) ws"
      "entries (mem ht1) vs = entries (mem ht) us @ es"
      "apply_entries destruct [(bkey (mem ht) a, bdata (mem ht) a)] s = (es, s')"
    using apply_one_ok[OF Cons.prems b, where destruct = destruct and s = s] by blast
  have es: "fst ` set es \<subseteq> {bkey (mem ht) a}"
    using apply_entries_keys[of destruct "[(bkey (mem ht) a, bdata (mem ht) a)]" s, unfolded 1(6)] by simp
  have sub: "has_key ht k" if "has_key ht1 k" for k
  proof -
    have "k \<in> fst ` set (entries (mem ht1) vs @ entries (mem ht1) ws)"
      using that hash_repr_entries[OF 1(3)] by (simp add: has_key_def entries_def)
    then show ?thesis
      using es unfolding 1(4,5) has_key_def hash_repr_entries[OF Cons.prems(1)]
      by (auto simp: entries_def)
  qed
  have "no_clash ht1" using Cons.prems(2) sub 1(2) by (auto simp: no_clash_def same_frame_def)
  from Cons.IH[OF 1(3) this, of s'] obtain ht' where
      "apply_loop destruct (hd_or ws None) s' ht1 = Some (snd (apply_entries destruct (entries (mem ht1) ws) s'), ht')"
      "hash_inv ht'" "same_frame ht1 ht'"
      "hash_entries ht' = entries (mem ht1) vs @ fst (apply_entries destruct (entries (mem ht1) ws) s')"
    by blast
  note ht' = this[unfolded 1(4,5)]
  have loop: "apply_loop destruct (hd_or (a # ws) None) s ht = apply_loop destruct (hd_or ws None) s' ht1"
    using b nx 1(1) by (subst apply_loop.simps) simp
  have ents: "entries (mem ht) (a # ws) = (bkey (mem ht) a, bdata (mem ht) a) # entries (mem ht) ws"
    by (simp add: entries_def)
  note walk = apply_entries_Cons[of destruct "(bkey (mem ht) a, bdata (mem ht) a)" "entries (mem ht) ws" s, unfolded 1(6) fst_conv snd_conv]
  show ?case
    unfolding loop ents walk fst_conv snd_conv
    using ht'(1,2,4) same_frame_trans[OF 1(2) ht'(3)] by (intro exI[of _ ht'] conjI) (simp_all only: append_assoc)
qed

lemma apply_ok:
  assumes inv: "hash_inv ht" and nc: "no_clash ht"
  shows "\<exists>ht'. hash_apply ht destruct s = Some (snd (apply_entries destruct (hash_entries ht) s), ht') \<and>
           hash_inv ht' \<and> same_frame ht ht' \<and>
           hash_entries ht' = fst (apply_entries destruct (hash_entries ht) s)"
proof -
  have r: "hash_repr ht ([] @ hash_addrs ht)" using hash_inv_repr[OF inv] by simp
  have "pListHead ht = hd_or (hash_addrs ht) None" using r by (simp add: hash_repr_def list_ok_def)
  then show ?thesis
    using apply_loop_ok[OF r nc, of destruct s] by (simp add: hash_apply_def hash_entries_def) (simp add: entries_def)
qed

subsection \<open>Initialisation and copying\<close>

lemma hash_size_index_ok: "hash_size_index n < length PrimeNumbers"
  by (auto simp: hash_size_index_def Let_def length_PrimeNumbers)
     (metis length_PrimeNumbers length_takeWhile_le le_neq_implies_less)

lemma init_ok:
  assumes "\<not> pers \<or> ms = []"
  shows "\<exists>t. hash_init n hf dtor pers ms = (SUCCESS, Some t) \<and> hash_inv t \<and> hash_entries t = [] \<and>
           hash_addrs t = [] \<and> nNextFreeElement t = 0 \<and>
           pHashFunction t = (case hf of None \<Rightarrow> hashpjw | Some f \<Rightarrow> f) \<and> pDestructor t = dtor \<and>
           persistent t = pers \<and> destroyed t = [] \<and> alloc_ok t"
proof -
  let ?i = "hash_size_index n"
  define t where "t = \<lparr>nTableSize = PrimeNumbers ! ?i, nHashSizeIndex = ?i, nNumOfElements = 0,
        nNextFreeElement = 0, pHashFunction = (case hf of None \<Rightarrow> hashpjw | Some f \<Rightarrow> f),
        pInternalPointer = None, pListHead = None, pListTail = None,
        arBuckets = replicate (PrimeNumbers ! ?i) None, pDestructor = dtor, persistent = pers,
        mem = (Map.empty :: 'a heap), brk = 0, destroyed = [], mallocs = ms\<rparr>"
  have "pemalloc t = (True, t)" using assms by (auto simp: pemalloc_def t_def)
  then have i: "hash_init n hf dtor pers ms = (SUCCESS, Some t)"
    by (simp add: hash_init_def t_def Let_def)
  have r: "hash_repr t []"
    using hash_size_index_ok primes_pos
    by (simp add: hash_repr_def t_def list_ok_def chains_ok_def keys_ok_def size_ok_def)
  have "hash_inv t" "hash_entries t = []" "hash_addrs t = []"
    using hash_repr_inv[OF r] hash_repr_entries[OF r] hash_repr_addrs[OF r] by (simp_all add: entries_def)
  then show ?thesis using i assms by (intro exI[of _ t]) (simp add: t_def alloc_ok_def)
qed

text \<open>Folding updates over entries with fresh, distinct keys appends them.\<close>

lemma fold_update_append:
  "distinct (map fst es) \<Longrightarrow> fst ` set es \<inter> fst ` set al = {} \<Longrightarrow>
   fold (\<lambda>e. AList.update (fst e) (f (snd e))) es al = al @ map (\<lambda>e. (fst e, f (snd e))) es"
proof (induction es arbitrary: al)
  case (Cons e es)
  then have "fst e \<notin> fst ` set al" "fst e \<notin> fst ` set es" by auto
  then show ?case using Cons by (auto simp: alist_update_new)
qed simp

definition frame_t :: "'a hashtable \<Rightarrow> 'a hashtable \<Rightarrow> bool" where
  "frame_t t t' \<longleftrightarrow> hash_inv t' \<and> same_frame t t' \<and> (alloc_ok t \<longrightarrow> alloc_ok t')"

lemma same_frame_alloc_ok: "same_frame t t' \<Longrightarrow> alloc_ok t \<Longrightarrow> alloc_ok t'"
  by (auto simp: same_frame_def alloc_ok_def)

lemma bucket_update:
  assumes inv: "hash_inv t" and ok: "alloc_ok t" and b: "bucket_ok hf b"
  shows "\<exists>t' r. (case arKey b of
             Some k \<Rightarrow> hash_update t (take (nKeyLength b) k) d
           | None \<Rightarrow> hash_index_update t (bk_h b) d) = Some (SUCCESS, r, t') \<and>
           hash_inv t' \<and> same_frame t t' \<and> hash_entries t' = AList.update (key_of b) d (hash_entries t)"
proof (cases "arKey b")
  case None
  have "bk_h b = (if HASH_UPDATE = HASH_NEXT_INSERT then nNextFreeElement t else bk_h b)" by simp
  from index_update_outcome[OF inv this, of d] obtain res where
    "hash_index_update t (bk_h b) d = Some res"
    "insert_outcome t (IntKey (bk_h b)) d True (next_free_after (bk_h b) (nNextFreeElement t))
       (old_data t (IntKey (bk_h b))) res" by auto
  then show ?thesis using None ok
    by (cases res) (auto simp: insert_outcome_def insert_success_def key_of_def split: if_splits)
next
  case (Some k)
  note kn = key_of_norm[OF b Some]
  from update_outcome[OF inv kn(4) ok, of HASH_UPDATE d] obtain res nf where
    "hash_update t k d = Some res"
    "insert_outcome t (norm_key k) d True nf (old_data t (norm_key k)) res" by auto
  moreover have "norm_key k = StrKey k" using kn by simp
  ultimately show ?thesis using Some ok kn
    by (cases res) (auto simp: insert_outcome_def insert_success_def split: if_splits)
qed

lemma copy_one_ok:
  assumes "hash_inv t" "alloc_ok t" "bucket_ok hf b"
  shows "\<exists>t'. copy_one ctor b t = Some t' \<and> hash_inv t' \<and> same_frame t t' \<and>
           hash_entries t' = AList.update (key_of b) (ctor (pData b)) (hash_entries t)"
  using bucket_update[OF assms, of "ctor (pData b)"]
  by (cases "arKey b") (auto simp: copy_one_def)

lemma copy_loop_ok:
  assumes "dseg m prev xs None" and "\<forall>a b. m a = Some b \<longrightarrow> bucket_ok hf b"
    and "hash_inv t" and "alloc_ok t"
  shows "\<exists>t'. copy_loop ctor m (hd_or xs None) t = Some t' \<and> hash_inv t' \<and> same_frame t t' \<and>
           hash_entries t' = fold (\<lambda>e. AList.update (fst e) (ctor (snd e))) (entries m xs) (hash_entries t)"
  using assms
proof (induction xs arbitrary: prev t)
  case Nil
  then show ?case by (simp add: copy_loop.simps entries_def)
next
  case (Cons a xs)
  then obtain b where b: "m a = Some b" "pListNext b = hd_or xs None" "dseg m (Some a) xs None"
    by auto
  obtain t1 where t1: "copy_one ctor b t = Some t1" "hash_inv t1" "same_frame t t1"
      "hash_entries t1 = AList.update (key_of b) (ctor (pData b)) (hash_entries t)"
    using copy_one_ok[OF Cons.prems(3,4) Cons.prems(2)[rule_format, OF b(1)], of ctor] by blast
  obtain t' where "copy_loop ctor m (hd_or xs None) t1 = Some t'" "hash_inv t'" "same_frame t1 t'"
      "hash_entries t' = fold (\<lambda>e. AList.update (fst e) (ctor (snd e))) (entries m xs) (hash_entries t1)"
    using Cons.IH[OF b(3) Cons.prems(2) t1(2) same_frame_alloc_ok[OF t1(3) Cons.prems(4)]] by blast
  moreover have "copy_loop ctor m (hd_or (a # xs) None) t = copy_loop ctor m (hd_or xs None) t1"
    using b t1(1) by (subst copy_loop.simps) simp
  moreover have "entries m (a # xs) = (key_of b, pData b) # entries m xs"
    using b by (simp add: entries_def bkey_def bdata_def)
  ultimately show ?case using t1 same_frame_trans[OF t1(3)] by simp
qed

lemma hash_repr_cursor:
  assumes "hash_repr t xs" and "\<And>a. p = Some a \<Longrightarrow> a \<in> set xs"
  shows "hash_repr (t\<lparr>pInternalPointer := p\<rparr>) xs"
proof -
  have "size_ok (t\<lparr>pInternalPointer := p\<rparr>) = size_ok t" by (simp add: size_ok_def)
  then show ?thesis using assms by (simp add: hash_repr_def)
qed

lemma reset_cursor:
  assumes inv: "hash_inv t"
  shows "hash_inv (t\<lparr>pInternalPointer := pListHead t\<rparr>)"
    and "hash_entries (t\<lparr>pInternalPointer := pListHead t\<rparr>) = hash_entries t"
proof -
  have r: "hash_repr t (hash_addrs t)" by (rule hash_inv_repr[OF inv])
  have "pListHead t = hd_or (hash_addrs t) None" using r by (simp add: hash_repr_def list_ok_def)
  then have "hash_repr (t\<lparr>pInternalPointer := pListHead t\<rparr>) (hash_addrs t)"
    using hash_repr_cursor[OF r] hd_or_Some_in by metis
  then show "hash_inv (t\<lparr>pInternalPointer := pListHead t\<rparr>)" by (rule hash_repr_inv)
  show "hash_entries (t\<lparr>pInternalPointer := pListHead t\<rparr>) = hash_entries t"
    by (simp add: hash_entries_def hash_addrs_def)
qed

lemma copy_ok:
  assumes inv: "hash_inv ht"
  shows "\<exists>t. hash_copy ht ctor = Some (Some t) \<and> hash_inv t \<and>
           hash_entries t = map (\<lambda>e. (fst e, ctor (snd e))) (hash_entries ht) \<and>
           pInternalPointer t = pListHead t \<and> \<not> persistent t \<and>
           pHashFunction t = pHashFunction ht \<and> pDestructor t = pDestructor ht"
proof -
  obtain t0 :: "'a hashtable" where t0: "hash_init (nTableSize ht) (Some (pHashFunction ht)) (pDestructor ht) False [] =
      (SUCCESS, Some t0)" "hash_inv t0" "hash_entries t0 = []" "pHashFunction t0 = pHashFunction ht"
      "pDestructor t0 = pDestructor ht" "\<not> persistent t0" "alloc_ok t0"
    using init_ok[of False "[]" "nTableSize ht" "Some (pHashFunction ht)" "pDestructor ht"] by auto
  have r: "hash_repr ht (hash_addrs ht)" by (rule hash_inv_repr[OF inv])
  have d: "dseg (mem ht) None (hash_addrs ht) None" "pListHead ht = hd_or (hash_addrs ht) None"
    using r by (auto simp: hash_repr_def list_ok_def)
  have bok: "\<forall>a b. mem ht a = Some b \<longrightarrow> bucket_ok (pHashFunction ht) b"
    using hash_repr_bucket[OF r] by blast
  obtain t1 where t1: "copy_loop ctor (mem ht) (pListHead ht) t0 = Some t1" "hash_inv t1" "same_frame t0 t1"
      "hash_entries t1 = fold (\<lambda>e. AList.update (fst e) (ctor (snd e))) (hash_entries ht) []"
    using copy_loop_ok[OF d(1) bok t0(2,7), of ctor] by (auto simp: d(2) t0(3) hash_entries_def[of ht])
  have "hash_entries t1 = map (\<lambda>e. (fst e, ctor (snd e))) (hash_entries ht)"
    using fold_update_append[OF hash_inv_distinct[OF inv], of "[]" ctor] t1(4) by simp
  then show ?thesis
    using t0 t1 reset_cursor[OF t1(2)] by (auto simp: hash_copy_def same_frame_def)
qed

end
