(* ===== verification/Hash_Order.thy ===== *)
theory Hash_Order
  imports Hash_Iter
begin

text \<open>
  Merging, sorting, renumbering, minimum and maximum, and the internal pointer.
\<close>

subsection \<open>Merging\<close>

definition ctor_of :: "('a \<Rightarrow> 'a) option \<Rightarrow> 'a \<Rightarrow> 'a" where
  "ctor_of c = (case c of None \<Rightarrow> id | Some f \<Rightarrow> f)"

lemma construct_at_ok:
  assumes inv: "hash_inv t" and s: "insert_success t k d nf dl (r, t')"
  shows "\<exists>t2. construct_at ctor (SUCCESS, r, t') = Some t2 \<and> hash_inv t2 \<and> same_frame t t2 \<and>
           hash_entries t2 = AList.update k (ctor_of ctor d) (hash_entries t)"
proof -
  obtain a where a: "r = Some a" "addr_of t' (hash_addrs t') k = Some a" "hash_inv t'" "same_frame t t'"
      "hash_entries t' = AList.update k d (hash_entries t)"
    using s by (auto simp: insert_success_def)
  have r': "hash_repr t' (hash_addrs t')" by (rule hash_inv_repr[OF a(3)])
  have k: "a \<in> set (hash_addrs t')" "bkey (mem t') a = k" using a(2) addr_of_Some[OF r'] by auto
  obtain b where b: "mem t' a = Some b" using hash_repr_dom[OF r' k(1)] by blast
  have "map_of (hash_entries t') k = Some (pData b)"
    using a(2) b by (simp add: hash_entries_def map_of_addr_of bdata_def)
  then have pd: "pData b = d" unfolding a(5) by (simp add: AList.update_conv')
  show ?thesis
  proof (cases ctor)
    case None
    then show ?thesis using a by (simp add: construct_at_def ctor_of_def)
  next
    case (Some f)
    define t2 where "t2 = t'\<lparr>mem := (mem t')(a \<mapsto> b\<lparr>pData := f (pData b)\<rparr>)\<rparr>"
    have rep: "replaced t' (hash_addrs t') a (f d) t2"
      by (rule upd_data_replaced[OF r' b, where ds = "destroyed t'" and nf = "nNextFreeElement t'"
            and b' = "b\<lparr>pData := f d\<rparr>"]) (simp_all add: t2_def pd)
    then have r2: "hash_repr t2 (hash_addrs t')" by (simp add: replaced_def)
    have "hash_entries t2 = AList.update k (f d) (hash_entries t')"
      using rep k hash_repr_entries[OF r2] hash_repr_entries[OF r'] by (simp add: replaced_def)
    moreover have "construct_at ctor (SUCCESS, r, t') = Some t2"
      using Some a(1) b by (simp add: construct_at_def upd_bucket_def t2_def)
    moreover have "same_frame t t2" using a(4) rep same_frame_trans by (auto simp: replaced_def)
    ultimately show ?thesis using Some a(5) hash_repr_inv[OF r2] by (simp add: ctor_of_def)
  qed
qed

lemma insert_failure_entries:
  assumes "insert_failure t (r, t')"
  shows "hash_entries t' = hash_entries t" "hash_inv t \<Longrightarrow> hash_inv t'" "hash_addrs t' = hash_addrs t"
proof -
  obtain ms where "t' = t\<lparr>mallocs := ms\<rparr>" using assms by (auto simp: insert_failure_def)
  then show "hash_entries t' = hash_entries t" "hash_inv t \<Longrightarrow> hash_inv t'" "hash_addrs t' = hash_addrs t"
    by (simp_all add: hash_entries_def hash_addrs_def hash_inv_def)
qed

definition merge_entry :: "('a \<Rightarrow> 'a) option \<Rightarrow> hkey \<times> 'a \<Rightarrow> (hkey \<times> 'a) list \<Rightarrow> (hkey \<times> 'a) list" where
  "merge_entry ctor e al =
     (if fst e \<in> fst ` set al then al else al @ [(fst e, ctor_of ctor (snd e))])"

lemma merge_one_ok:
  assumes inv: "hash_inv t" and ok: "alloc_ok t" and b: "bucket_ok hf b"
  shows "\<exists>t'. merge_one ctor b t = Some t' \<and> hash_inv t' \<and> same_frame t t' \<and>
           hash_entries t' = merge_entry ctor (key_of b, pData b) (hash_entries t)"
proof (cases "arKey b")
  case None
  then have kb: "key_of b = IntKey (bk_h b)" by (simp add: key_of_def)
  have ex: "hash_index_exists t (bk_h b) = Some (has_key t (key_of b))"
    using hash_index_exists_eq[OF inv] by (simp add: has_key_def kb)
  show ?thesis
  proof (cases "has_key t (key_of b)")
    case True
    then show ?thesis using None ex inv by (simp add: merge_one_def merge_entry_def has_key_def)
  next
    case False
    have "bk_h b = (if HASH_UPDATE = HASH_NEXT_INSERT then nNextFreeElement t else bk_h b)" by simp
    from index_update_outcome[OF inv this, of "pData b"] obtain res nf dl where
      res: "hash_index_update t (bk_h b) (pData b) = Some res"
      "insert_outcome t (key_of b) (pData b) True nf dl res" unfolding kb by auto
    then obtain r t' where s: "res = (SUCCESS, r, t')" "insert_success t (key_of b) (pData b) nf dl (r, t')"
      using ok by (cases res) (auto simp: insert_outcome_def split: if_splits)
    from construct_at_ok[OF inv s(2), of ctor] False show ?thesis
      using None ex res(1) s(1)
      by (auto simp: merge_one_def merge_entry_def has_key_def alist_update_new)
  qed
next
  case (Some k)
  note kn = key_of_norm[OF b Some]
  have nk: "norm_key k = key_of b" using kn(1-3) by simp
  from update_outcome[OF inv kn(4) ok, of HASH_ADD "pData b"] obtain res nf where
    res: "hash_add t k (pData b) = Some res"
    "insert_outcome t (key_of b) (pData b) False nf (old_data t (key_of b)) res" unfolding nk by auto
  show ?thesis
  proof (cases "has_key t (key_of b)")
    case True
    then obtain r t' where s: "res = (FAILURE, r, t')" "insert_failure t (r, t')"
      using res(2) by (cases res; cases "fst res") (auto simp: insert_outcome_def)
    then have "merge_one ctor b t = Some t'"
      using Some res(1) kn(3) by (simp add: merge_one_def construct_at_def split: option.splits)
    moreover have "same_frame t t'"
      using s(2) ok by (auto simp: insert_failure_def)
    ultimately show ?thesis
      using True insert_failure_entries[OF s(2)] inv by (simp add: merge_entry_def has_key_def)
  next
    case False
    then obtain r t' where s: "res = (SUCCESS, r, t')"
        "insert_success t (key_of b) (pData b) nf (old_data t (key_of b)) (r, t')"
      using ok res(2) by (cases res) (auto simp: insert_outcome_def split: if_splits)
    from construct_at_ok[OF inv s(2), of ctor] False show ?thesis
      using Some res(1) s(1) kn(3)
      by (auto simp: merge_one_def merge_entry_def has_key_def alist_update_new)
  qed
qed

lemma merge_loop_ok:
  assumes "dseg m prev xs None" and "\<forall>a b. m a = Some b \<longrightarrow> bucket_ok hf b"
    and "hash_inv t" and "alloc_ok t"
  shows "\<exists>t'. merge_loop ctor m (hd_or xs None) t = Some t' \<and> hash_inv t' \<and> same_frame t t' \<and>
           hash_entries t' = fold (merge_entry ctor) (entries m xs) (hash_entries t)"
  using assms
proof (induction xs arbitrary: prev t)
  case Nil
  then show ?case by (simp add: merge_loop.simps entries_def)
next
  case (Cons a xs)
  then obtain b where b: "m a = Some b" "pListNext b = hd_or xs None" "dseg m (Some a) xs None"
    by auto
  obtain t1 where t1: "merge_one ctor b t = Some t1" "hash_inv t1" "same_frame t t1"
      "hash_entries t1 = merge_entry ctor (key_of b, pData b) (hash_entries t)"
    using merge_one_ok[OF Cons.prems(3,4) Cons.prems(2)[rule_format, OF b(1)], of ctor] by blast
  obtain t' where "merge_loop ctor m (hd_or xs None) t1 = Some t'" "hash_inv t'" "same_frame t1 t'"
      "hash_entries t' = fold (merge_entry ctor) (entries m xs) (hash_entries t1)"
    using Cons.IH[OF b(3) Cons.prems(2) t1(2) same_frame_alloc_ok[OF t1(3) Cons.prems(4)]] by blast
  moreover have "merge_loop ctor m (hd_or (a # xs) None) t = merge_loop ctor m (hd_or xs None) t1"
    using b t1(1) by (subst merge_loop.simps) simp
  moreover have "entries m (a # xs) = (key_of b, pData b) # entries m xs"
    using b by (simp add: entries_def bkey_def bdata_def)
  ultimately show ?case using t1 same_frame_trans[OF t1(3)] by simp
qed

lemma fold_merge_entry:
  "distinct (map fst es) \<Longrightarrow>
   fold (merge_entry c) es al =
     al @ map (\<lambda>e. (fst e, ctor_of c (snd e))) (filter (\<lambda>e. fst e \<notin> fst ` set al) es)"
proof (induction es arbitrary: al)
  case (Cons e es)
  have "filter (\<lambda>x. fst x \<noteq> fst e \<and> fst x \<notin> fst ` set al) es = filter (\<lambda>x. fst x \<notin> fst ` set al) es"
    using Cons.prems by (intro filter_cong) (auto simp: image_iff)
  then show ?case using Cons by (auto simp: merge_entry_def)
qed simp

lemma merge_ok:
  assumes inv: "hash_inv target" "hash_inv source" and ok: "alloc_ok target"
  shows "\<exists>t. hash_merge target source ctor = Some t \<and> hash_inv t \<and> same_frame target t \<and>
           pInternalPointer t = pListHead t \<and>
           hash_entries t = hash_entries target @
             map (\<lambda>e. (fst e, ctor_of ctor (snd e)))
               (filter (\<lambda>e. \<not> has_key target (fst e)) (hash_entries source))"
proof -
  have r: "hash_repr source (hash_addrs source)" by (rule hash_inv_repr[OF inv(2)])
  have d: "dseg (mem source) None (hash_addrs source) None" "pListHead source = hd_or (hash_addrs source) None"
    using r by (auto simp: hash_repr_def list_ok_def)
  have bok: "\<forall>a b. mem source a = Some b \<longrightarrow> bucket_ok (pHashFunction source) b"
    using hash_repr_bucket[OF r] by blast
  obtain t1 where t1: "merge_loop ctor (mem source) (pListHead source) target = Some t1" "hash_inv t1"
      "same_frame target t1"
      "hash_entries t1 = fold (merge_entry ctor) (hash_entries source) (hash_entries target)"
    using merge_loop_ok[OF d(1) bok inv(1) ok, of ctor] by (auto simp: d(2) hash_entries_def[of source])
  then show ?thesis
    using reset_cursor[OF t1(2)] fold_merge_entry[OF hash_inv_distinct[OF inv(2)]]
    by (auto simp: hash_merge_def same_frame_def has_key_def)
qed

subsection \<open>Sorting\<close>

lemma relink_loop_ok:
  assumes "dseg (mem ht) None dn None" and "distinct (dn @ todo)" and "set (dn @ todo) \<subseteq> dom (mem ht)"
    and "pListTail ht = last_or dn None"
  shows "\<exists>m. relink_loop todo ht = Some (ht\<lparr>mem := m, pListTail := last_or (dn @ todo) None\<rparr>) \<and>
           dseg m None (dn @ todo) None \<and> links_eq (mem ht) m \<and>
           (\<forall>a. map_option pNext (m a) = map_option pNext (mem ht a))"
  using assms
proof (induction todo arbitrary: dn ht)
  case Nil
  then have "ht = ht\<lparr>mem := mem ht, pListTail := last_or dn None\<rparr>" by (intro hashtable.equality) auto
  then show ?case using Nil by (intro exI[of _ "mem ht"]) simp
next
  case (Cons a todo)
  define m1 where "m1 = (if dn = [] then mem ht
      else (mem ht)(last dn \<mapsto> (the (mem ht (last dn)))\<lparr>pListNext := Some a\<rparr>))"
  have a: "a \<in> dom (mem ht)" "a \<notin> set dn" using Cons.prems(2,3) by auto
  have "dn \<noteq> [] \<Longrightarrow> last dn \<in> dom (mem ht)" using Cons.prems(3) last_in_dom[of dn "mem ht"] by auto
  then have eq1: "links_eq (mem ht) m1" "map_option pNext (m1 x) = map_option pNext (mem ht x)" for x
    by (auto simp: m1_def links_eq_def strip_links_def)
  obtain b where b: "m1 a = Some b" using a links_eq_dom[OF eq1(1)] by blast
  define m2 where "m2 = m1(a \<mapsto> b\<lparr>pListLast := last_or dn None, pListNext := None\<rparr>)"
  have eq2: "links_eq m1 m2" "map_option pNext (m2 x) = map_option pNext (m1 x)" for x
    using b by (auto simp: m2_def links_eq_def strip_links_def)
  define ht2 where "ht2 = ht\<lparr>mem := m2, pListTail := Some a\<rparr>"
  have d1: "dseg m1 None dn (Some a)"
  proof (cases "dn = []")
    case False
    then obtain c where "mem ht (last dn) = Some c" using Cons.prems(3) last_in_dom[of dn "mem ht"] by auto
    then show ?thesis using dseg_last_next[OF Cons.prems(1) _ False] Cons.prems(2) False by (simp add: m1_def)
  qed simp
  have d2: "dseg (mem ht2) None (dn @ [a]) None" using d1 a(2) by (simp add: ht2_def m2_def)
  have IH: "\<exists>m. relink_loop todo ht2 = Some (ht2\<lparr>mem := m, pListTail := last_or ((dn @ [a]) @ todo) None\<rparr>) \<and>
           dseg m None ((dn @ [a]) @ todo) None \<and> links_eq (mem ht2) m \<and>
           (\<forall>a. map_option pNext (m a) = map_option pNext (mem ht2 a))"
    by (rule Cons.IH[OF d2])
       (use Cons.prems(2,3) links_eq_dom[OF links_eq_trans[OF eq1(1) eq2(1)]] in \<open>auto simp: ht2_def\<close>)
  have s1: "(case pListTail ht of None \<Rightarrow> Some ht
      | Some t \<Rightarrow> upd_bucket t (\<lambda>c. c\<lparr>pListNext := Some a\<rparr>) ht) = Some (ht\<lparr>mem := m1\<rparr>)"
  proof (cases "dn = []")
    case True
    then show ?thesis using Cons.prems(4) by (simp add: m1_def)
  next
    case False
    then obtain c where "mem ht (last dn) = Some c" using Cons.prems(3) last_in_dom[of dn "mem ht"] by auto
    then show ?thesis using False Cons.prems(4) by (simp add: m1_def last_or_def upd_bucket_def)
  qed
  have "relink_loop (a # todo) ht = relink_loop todo ht2"
    unfolding relink_loop.simps s1 using b Cons.prems(4) by (simp add: upd_bucket_def ht2_def m2_def)
  then show ?case
    using IH links_eq_trans[OF links_eq_trans[OF eq1(1) eq2(1)]] eq1(2) eq2(2)
    by (auto simp: ht2_def)
qed

text \<open>Relinking in the order \<open>ys\<close>, a permutation of the buckets.\<close>

lemma relink_repr:
  assumes r: "hash_repr ht xs" and p: "mset ys = mset xs" and ne: "ys \<noteq> []"
  shows "\<exists>ht'. relink_loop ys (ht\<lparr>pListHead := hd_or ys None, pListTail := None,
             pInternalPointer := hd_or ys None\<rparr>) = Some ht' \<and> hash_repr ht' ys \<and>
           links_eq (mem ht) (mem ht') \<and> same_frame ht ht' \<and>
           nNextFreeElement ht' = nNextFreeElement ht \<and> pInternalPointer ht' = pListHead ht' \<and>
           destroyed ht' = destroyed ht"
proof -
  let ?h = "ht\<lparr>pListHead := hd_or ys None, pListTail := None, pInternalPointer := hd_or ys None\<rparr>"
  have l: "distinct xs" "dom (mem ht) = set xs" using r by (auto simp: hash_repr_def list_ok_def)
  have ys: "distinct ys" "set ys = set xs" "length ys = length xs"
    using p l(1) mset_eq_setD[OF p] mset_eq_length[OF p] mset_eq_imp_distinct_iff[OF p] by auto
  obtain m where m: "relink_loop ys ?h = Some (?h\<lparr>mem := m, pListTail := last_or ys None\<rparr>)"
      "dseg m None ys None" "links_eq (mem ht) m" "\<And>a. map_option pNext (m a) = map_option pNext (mem ht a)"
    using relink_loop_ok[of ?h "[]" ys] ys l by auto
  define ht' where "ht' = ?h\<lparr>mem := m, pListTail := last_or ys None\<rparr>"
  have "hash_repr ht' ys"
    using r ys m(2) chains_ok_links[OF _ m(3,4)] links_eq_keys_ok[OF m(3)] links_eq_dom[OF m(3)] l
      hd_or_Some_in[of ys]
    by (auto simp: hash_repr_def list_ok_def ht'_def size_ok_def)
  then show ?thesis using m by (intro exI[of _ ht']) (simp add: ht'_def same_frame_def)
qed

lemma entries_sort:
  assumes "mset ys = mset xs"
  shows "mset (entries m ys) = mset (entries m xs)"
  using assms by (simp add: entries_def)

end
