(* ===== verification/Hash_Sort.thy ===== *)
theory Hash_Sort
  imports Hash_Order
begin

text \<open>
  \<^verbatim>\<open>_php3_hash_sort\<close>, \<^verbatim>\<open>_php3_hash_minmax\<close> and the enumeration of a table with its internal
  pointer. \<^verbatim>\<open>qsort\<close> is a parameter of \<open>hash_sort\<close>; what is used of it is that it permutes the
  array of bucket pointers and leaves it sorted under the comparison it was given.
\<close>

subsection \<open>Renumbering\<close>

definition renumbered :: "nat \<Rightarrow> 'a bucket \<Rightarrow> 'a bucket" where
  "renumbered i b = b\<lparr>arKey := None, nKeyLength := 0, bk_h := of_nat i\<rparr>"

lemma renumbered_simps [simp]:
  "pListNext (renumbered i b) = pListNext b" "pListLast (renumbered i b) = pListLast b"
  "pData (renumbered i b) = pData b" "key_of (renumbered i b) = IntKey (of_nat i)"
  "bucket_ok hf (renumbered i b)" "links (renumbered i b) = links b"
  by (simp_all add: renumbered_def key_of_def bucket_ok_def links_def)

lemma renumber_loop_ok:
  assumes "dseg (mem ht) prev xs None" and "distinct xs"
  shows "\<exists>m. renumber_loop (hd_or xs None) i ht = Some (i + length xs, ht\<lparr>mem := m\<rparr>) \<and>
           (\<forall>a. a \<notin> set xs \<longrightarrow> m a = mem ht a) \<and>
           (\<forall>j < length xs. m (xs ! j) = map_option (renumbered (i + j)) (mem ht (xs ! j)))"
  using assms
proof (induction xs arbitrary: prev i ht)
  case Nil
  then show ?case by (intro exI[of _ "mem ht"]) (simp add: renumber_loop.simps)
next
  case (Cons a xs)
  then obtain b where b: "mem ht a = Some b" "pListNext b = hd_or xs None" "dseg (mem ht) (Some a) xs None"
    by auto
  define ht1 where "ht1 = ht\<lparr>mem := (mem ht)(a \<mapsto> renumbered i b)\<rparr>"
  have "dseg (mem ht1) (Some a) xs None"
    using b(3) Cons.prems(2) by (simp add: ht1_def)
  then obtain m where m: "renumber_loop (hd_or xs None) (Suc i) ht1 = Some (Suc i + length xs, ht1\<lparr>mem := m\<rparr>)"
      "\<And>x. x \<notin> set xs \<Longrightarrow> m x = mem ht1 x"
      "\<And>j. j < length xs \<Longrightarrow> m (xs ! j) = map_option (renumbered (Suc i + j)) (mem ht1 (xs ! j))"
    using Cons.IH[of ht1 "Some a" "Suc i"] Cons.prems(2) by auto
  have "renumber_loop (hd_or (a # xs) None) i ht = renumber_loop (hd_or xs None) (Suc i) ht1"
    by (subst renumber_loop.simps) (simp add: b(1,2) ht1_def renumbered_def)
  moreover have "m ((a # xs) ! j) = map_option (renumbered (i + j)) (mem ht ((a # xs) ! j))"
    if "j < length (a # xs)" for j
  proof (cases j)
    case 0
    then show ?thesis using m(2)[of a] Cons.prems(2) b(1) by (simp add: ht1_def)
  next
    case (Suc k)
    then have "xs ! k \<noteq> a" using that Cons.prems(2) by (metis Suc_less_eq distinct.simps(2) length_Cons nth_mem)
    then show ?thesis using m(3)[of k] that Suc by (simp add: ht1_def)
  qed
  ultimately show ?case using m(1,2) by (intro exI[of _ m]) (simp add: ht1_def)
qed

lemma of_nat_ulong_inj:
  "i < 2 ^ 32 \<Longrightarrow> j < 2 ^ 32 \<Longrightarrow> (of_nat i :: ulong) = of_nat j \<longleftrightarrow> i = j"
  by (simp add: word_unat_eq_iff unat_of_nat take_bit_nat_eq_self)

definition renumbered_entries :: "(hkey \<times> 'a) list \<Rightarrow> (hkey \<times> 'a) list" where
  "renumbered_entries es = map (\<lambda>(i, e). (IntKey (of_nat i), snd e)) (enumerate 0 es)"

lemma hash_renumber_ok:
  assumes r: "hash_repr ht xs" and len: "length xs \<le> 2 ^ 32"
  shows "\<exists>ht'. hash_renumber ht = Some ht' \<and> hash_repr ht' xs \<and> same_frame ht ht' \<and>
           nNextFreeElement ht' = of_nat (length xs) \<and> destroyed ht' = destroyed ht \<and>
           pInternalPointer ht' = pInternalPointer ht \<and> pListHead ht' = pListHead ht \<and>
           entries (mem ht') xs = renumbered_entries (entries (mem ht) xs)"
proof -
  have l: "distinct xs" "dom (mem ht) = set xs" "dseg (mem ht) None xs None"
      "pListHead ht = hd_or xs None" "pListTail ht = last_or xs None"
    using r by (auto simp: hash_repr_def list_ok_def)
  obtain m where m: "renumber_loop (pListHead ht) 0 ht = Some (length xs, ht\<lparr>mem := m\<rparr>)"
      "\<And>x. x \<notin> set xs \<Longrightarrow> m x = mem ht x"
      "\<And>j. j < length xs \<Longrightarrow> m (xs ! j) = map_option (renumbered j) (mem ht (xs ! j))"
    using renumber_loop_ok[OF l(3,1), of 0] l(4) by auto
  have mb: "\<exists>b. mem ht (xs ! j) = Some b \<and> m (xs ! j) = Some (renumbered j b)" if "j < length xs" for j
    using m(3)[OF that] l(2) nth_mem[OF that] by (metis domD option.simps(9))
  have mi: "\<exists>j < length xs. a = xs ! j" if "a \<in> set xs" for a using that by (metis in_set_conv_nth)
  have d1: "dom m = set xs"
  proof
    show "dom m \<subseteq> set xs" using m(2) l(2) by (metis domI domIff subsetI)
    show "set xs \<subseteq> dom m" using mb mi by (metis domI subsetI)
  qed
  have "map_option links (m a) = map_option links (mem ht a)" for a
  proof (cases "a \<in> set xs")
    case True
    then show ?thesis using mi[OF True] mb by fastforce
  qed (simp add: m(2))
  from dseg_cong[OF this] have seg: "dseg m None xs None" using l(3) by simp
  let ?h1 = "ht\<lparr>mem := m, nNextFreeElement := of_nat (length xs)\<rparr>"
  have lok: "list_ok (mem ?h1) (pListHead ?h1) (pListTail ?h1) xs"
    using l seg d1 by (simp add: list_ok_def)
  have sz: "0 < nTableSize ht" "PrimeNumbers ! nHashSizeIndex ht = nTableSize ht"
    using r size_ok_pos[of ht] by (auto simp: hash_repr_def size_ok_def)
  obtain m2 bs where m2: "hash_rehash ?h1 = Some (?h1\<lparr>mem := m2, arBuckets := bs\<rparr>)"
      "chain_eq m m2" "chains_ok (nTableSize ht) m2 bs"
    using hash_rehash_ok[OF lok] sz by auto
  have "inj_on (bkey m) (dom m)"
  proof (rule inj_onI)
    fix a c assume *: "a \<in> dom m" "c \<in> dom m" "bkey m a = bkey m c"
    obtain i j where ij: "a = xs ! i" "i < length xs" "c = xs ! j" "j < length xs"
      using mi[of a] mi[of c] * d1 by metis
    then have "(of_nat i :: ulong) = of_nat j" using *(3) mb[OF ij(2)] mb[OF ij(4)] by (auto simp: bkey_def)
    then show "a = c" using of_nat_ulong_inj[of i j] ij len by simp
  qed
  moreover have "bucket_ok (pHashFunction ht) b" if "m a = Some b" for a b
  proof -
    have "a \<in> set xs" using that d1 by auto
    then show ?thesis using mi mb that by fastforce
  qed
  ultimately have k: "keys_ok (pHashFunction ht) m" by (simp add: keys_ok_def)
  note le = chain_eq_links_eq[OF m2(2)]
  define ht' where "ht' = ?h1\<lparr>mem := m2, arBuckets := bs\<rparr>"
  have "list_ok m2 (pListHead ht) (pListTail ht) xs"
    using lok links_eq_dom[OF le] chain_eq_dseg[OF m2(2)] by (simp add: list_ok_def)
  then have "hash_repr ht' xs"
    using r m2(3) links_eq_keys_ok[OF le k] by (simp add: hash_repr_def ht'_def size_ok_def)
  moreover have "entries m2 xs = renumbered_entries (entries (mem ht) xs)"
    unfolding links_eq_entries[OF le] renumbered_entries_def
  proof (rule nth_equalityI)
    fix j assume "j < length (entries m xs)"
    then have "j < length xs" by (simp add: entries_def)
    with mb[OF this] show "entries m xs ! j =
        map (\<lambda>(i, e). (IntKey (of_nat i), snd e)) (enumerate 0 (entries (mem ht) xs)) ! j"
      by (auto simp: entries_def nth_enumerate_eq bkey_def bdata_def)
  qed (simp add: entries_def)
  moreover have "hash_renumber ht = Some ht'" using m(1) m2(1) by (simp add: hash_renumber_def ht'_def)
  ultimately show ?thesis by (intro exI[of _ ht']) (simp add: ht'_def same_frame_def)
qed

subsection \<open>Sorting\<close>

text \<open>
  What the code relies on of \<^verbatim>\<open>qsort\<close>: for a comparison that is a total preorder the result is
  a sorted permutation of the array.
\<close>

definition cmp_preorder :: "('b \<Rightarrow> 'b \<Rightarrow> int) \<Rightarrow> bool" where
  "cmp_preorder c \<longleftrightarrow> (\<forall>x y. c x y \<le> 0 \<or> c y x \<le> 0) \<and> (\<forall>x y z. c x y \<le> 0 \<longrightarrow> c y z \<le> 0 \<longrightarrow> c x z \<le> 0)"

definition sorts :: "((addr \<Rightarrow> addr \<Rightarrow> int) \<Rightarrow> addr list \<Rightarrow> addr list) \<Rightarrow> bool" where
  "sorts qsort \<longleftrightarrow> (\<forall>c xs. mset (qsort c xs) = mset xs \<and>
     (cmp_preorder c \<longrightarrow> sorted_wrt (\<lambda>x y. c x y \<le> 0) (qsort c xs)))"

definition sort_entries_by :: "(hkey \<times> 'a \<Rightarrow> hkey \<times> 'a \<Rightarrow> int) \<Rightarrow> 'a bucket \<Rightarrow> 'a bucket \<Rightarrow> int" where
  "sort_entries_by c b d = c (key_of b, pData b) (key_of d, pData d)"

lemma pemalloc_alloc_ok: "alloc_ok ht \<Longrightarrow> pemalloc ht = (True, ht)"
  by (auto simp: pemalloc_def alloc_ok_def)

lemma entries_nth: "entries m xs = map (\<lambda>a. (bkey m a, bdata m a)) xs"
  by (rule entries_def)

lemma hash_inv_count: "hash_inv ht \<Longrightarrow> nNumOfElements ht = length (hash_entries ht)"
  using hash_inv_repr[of ht] by (auto simp: hash_repr_def list_ok_def hash_entries_def entries_def)

text \<open>The allocation may have used up an answer of \<^verbatim>\<open>malloc\<close>: \<open>ht\<close> is the table after it.\<close>

lemma sort_allocated:
  assumes inv: "hash_inv ht" and alloc: "pemalloc ht0 = (True, ht)" "nNumOfElements ht0 = nNumOfElements ht"
    and qs: "sorts qsort" and c: "cmp_preorder c"
    and many: "length (hash_entries ht) > 1"
    and len: "length (hash_entries ht) \<le> 2 ^ 32"
  shows "\<exists>ht' es. hash_sort qsort ht0 (sort_entries_by c) renumber = Some (SUCCESS, ht') \<and>
           hash_inv ht' \<and> same_frame ht ht' \<and> destroyed ht' = destroyed ht \<and>
           mset es = mset (hash_entries ht) \<and> sorted_wrt (\<lambda>x y. c x y \<le> 0) es \<and>
           hash_entries ht' = (if renumber then renumbered_entries es else es) \<and>
           nNextFreeElement ht' = (if renumber then of_nat (length es) else nNextFreeElement ht) \<and>
           pInternalPointer ht' = pListHead ht'"
proof -
  define xs where "xs = hash_addrs ht"
  have r: "hash_repr ht xs" using hash_inv_repr[OF inv] by (simp add: xs_def)
  have lx: "length xs = length (hash_entries ht)" by (simp add: xs_def hash_entries_def entries_def)
  have walk: "list_walk (mem ht) (pListHead ht) = Some xs" "nNumOfElements ht = length xs"
    using r by (auto simp: hash_repr_def list_ok_def list_walk_eq)
  let ?cmp = "heap_cmp (sort_entries_by c) (mem ht)"
  define ys where "ys = qsort ?cmp xs"
  have "cmp_preorder ?cmp"
    using c unfolding cmp_preorder_def heap_cmp_def sort_entries_by_def by blast
  then have ys: "mset ys = mset xs" "sorted_wrt (\<lambda>x y. ?cmp x y \<le> 0) ys"
    using qs by (auto simp: sorts_def ys_def)
  have ne: "ys \<noteq> []" using ys(1) many lx by auto
  then have hd: "(case ys of [] \<Rightarrow> None | a # _ \<Rightarrow> Some a) = hd_or ys None" by (cases ys) auto
  obtain ht1 where ht1: "relink_loop ys (ht\<lparr>pListHead := hd_or ys None, pListTail := None,
             pInternalPointer := hd_or ys None\<rparr>) = Some ht1" "hash_repr ht1 ys"
      "links_eq (mem ht) (mem ht1)" "same_frame ht ht1" "nNextFreeElement ht1 = nNextFreeElement ht"
      "pInternalPointer ht1 = pListHead ht1" "destroyed ht1 = destroyed ht"
    using relink_repr[OF r ys(1) ne] by blast
  define es where "es = entries (mem ht1) ys"
  have es: "es = entries (mem ht) ys" by (simp add: es_def links_eq_entries[OF ht1(3)])
  have p: "mset es = mset (hash_entries ht)"
    unfolding es hash_repr_entries[OF r] by (rule entries_sort[OF ys(1)])
  have s: "sorted_wrt (\<lambda>x y. c x y \<le> 0) es"
    using ys(2) unfolding es entries_def
    by (simp add: sorted_wrt_map heap_cmp_def sort_entries_by_def bkey_def bdata_def)
  have run: "hash_sort qsort ht0 (sort_entries_by c) renumber =
      do { ht2 \<leftarrow> (if renumber then hash_renumber ht1 else Some ht1); Some (SUCCESS, ht2) }"
    using many lx walk alloc ht1(1)
    by (simp add: hash_sort_def ys_def[symmetric] hd Let_def)
  show ?thesis
  proof (cases renumber)
    case False
    then show ?thesis
      using run p s ht1 hash_repr_inv[OF ht1(2)] hash_repr_entries[OF ht1(2)]
      by (intro exI[of _ ht1] exI[of _ es]) (simp add: es_def)
  next
    case True
    have ly: "length ys = length (hash_entries ht)" using mset_eq_length[OF ys(1)] lx by simp
    have "length ys \<le> 2 ^ 32" using ly len by simp
    from hash_renumber_ok[OF ht1(2) this] obtain ht2 where ht2: "hash_renumber ht1 = Some ht2"
      "hash_repr ht2 ys" "same_frame ht1 ht2" "nNextFreeElement ht2 = of_nat (length ys)"
      "destroyed ht2 = destroyed ht1" "pInternalPointer ht2 = pInternalPointer ht1"
      "pListHead ht2 = pListHead ht1" "entries (mem ht2) ys = renumbered_entries es"
      by (auto simp: es_def)
    have "length es = length ys" by (simp add: es entries_def)
    then show ?thesis
      using run p s ht1 ht2 True hash_repr_inv[OF ht2(2)] hash_repr_entries[OF ht2(2)]
        same_frame_trans[OF ht1(4) ht2(3)]
      by (intro exI[of _ ht2] exI[of _ es]) simp
  qed
qed

lemma hash_inv_mallocs: "hash_inv ht \<Longrightarrow> hash_inv (ht\<lparr>mallocs := ms\<rparr>)" "hash_entries (ht\<lparr>mallocs := ms\<rparr>) = hash_entries ht"
proof -
  show "hash_entries (ht\<lparr>mallocs := ms\<rparr>) = hash_entries ht"
    by (simp add: hash_entries_def hash_addrs_def)
  assume "hash_inv ht"
  then have "hash_repr ht (hash_addrs ht)" by (rule hash_inv_repr)
  then have "hash_repr (ht\<lparr>mallocs := ms\<rparr>) (hash_addrs ht)" by simp
  then show "hash_inv (ht\<lparr>mallocs := ms\<rparr>)" by (rule hash_repr_inv)
qed

lemma sort_ok:
  assumes inv: "hash_inv ht" and alloc: "pemalloc ht = (True, ht\<lparr>mallocs := ms\<rparr>)"
    and rest: "sorts qsort" "cmp_preorder c" "length (hash_entries ht) > 1" "length (hash_entries ht) \<le> 2 ^ 32"
  shows "\<exists>ht' es. hash_sort qsort ht (sort_entries_by c) renumber = Some (SUCCESS, ht') \<and>
           hash_inv ht' \<and> mset es = mset (hash_entries ht) \<and> sorted_wrt (\<lambda>x y. c x y \<le> 0) es \<and>
           hash_entries ht' = (if renumber then renumbered_entries es else es) \<and>
           nNextFreeElement ht' = (if renumber then of_nat (length es) else nNextFreeElement ht) \<and>
           pInternalPointer ht' = pListHead ht'"
proof -
  have "nNumOfElements ht = nNumOfElements (ht\<lparr>mallocs := ms\<rparr>)" by simp
  from sort_allocated[OF hash_inv_mallocs(1)[OF inv] alloc this rest(1,2), unfolded hash_inv_mallocs(2), OF rest(3,4), of renumber]
  obtain ht' es where "hash_sort qsort ht (sort_entries_by c) renumber = Some (SUCCESS, ht')"
      "hash_inv ht'" "mset es = mset (hash_entries ht)" "sorted_wrt (\<lambda>x y. c x y \<le> 0) es"
      "hash_entries ht' = (if renumber then renumbered_entries es else es)"
      "nNextFreeElement ht' = (if renumber then of_nat (length es) else nNextFreeElement (ht\<lparr>mallocs := ms\<rparr>))"
      "pInternalPointer ht' = pListHead ht'" by blast
  then show ?thesis by (intro exI[of _ ht'] exI[of _ es]) simp
qed

end
