(* ===== verification/Hash_Cursor.thy ===== *)
theory Hash_Cursor
  imports Hash_Sort
begin

text \<open>
  Enumerating a table with its internal pointer, the minimum and maximum of
  \<^verbatim>\<open>_php3_hash_minmax\<close>, and the range of the hash function.
\<close>

subsection \<open>The loops of the callers\<close>

text \<open>
  \<^verbatim>\<open>for (reset; get_current_data == SUCCESS; move_forward) { ... get_current_key ... }\<close>, the
  loop by which the interpreter walks an array, and its mirror image.
\<close>

partial_function (option) traverse ::
    "('a hashtable \<Rightarrow> 'a hashtable option) \<Rightarrow> 'a hashtable \<Rightarrow> (current_key \<times> 'a) list option" where
  "traverse step ht = do {
     (st, d) \<leftarrow> hash_get_current_data ht;
     if st = FAILURE then Some []
     else do {
       k \<leftarrow> hash_get_current_key ht;
       ht' \<leftarrow> step ht;
       rest \<leftarrow> traverse step ht';
       Some ((k, the d) # rest)
     }
   }"

definition current_of :: "hkey \<Rightarrow> current_key" where
  "current_of k = (case k of IntKey i \<Rightarrow> KEY_IS_LONG i | StrKey s \<Rightarrow> KEY_IS_STRING s)"

lemma bucket_ok_current:
  "bucket_ok hf b \<Longrightarrow>
   (case arKey b of Some k \<Rightarrow> Some (KEY_IS_STRING (take (nKeyLength b) k)) | None \<Rightarrow> Some (KEY_IS_LONG (bk_h b)))
     = Some (current_of (key_of b))"
  by (auto simp: bucket_ok_def key_of_def current_of_def split: option.splits)

lemma traverse_step:
  assumes "pInternalPointer ht = Some a" "mem ht a = Some b" "bucket_ok hf b" "step ht = Some ht'"
    "traverse step ht' = Some es"
  shows "traverse step ht = Some ((current_of (key_of b), pData b) # es)"
  using assms bucket_ok_current[OF assms(3)]
  by (subst traverse.simps)
     (simp add: hash_get_current_data_def read_data_def hash_get_current_key_def)

lemma traverse_end: "pInternalPointer ht = None \<Longrightarrow> traverse step ht = Some []"
  by (subst traverse.simps) (simp add: hash_get_current_data_def read_data_def)

lemma traverse_forward:
  "dseg (mem ht) prev xs None \<Longrightarrow> \<forall>a b. mem ht a = Some b \<longrightarrow> bucket_ok hf b \<Longrightarrow>
   traverse hash_move_forward (ht\<lparr>pInternalPointer := hd_or xs None\<rparr>) =
     Some (map (\<lambda>e. (current_of (fst e), snd e)) (entries (mem ht) xs))"
proof (induction xs arbitrary: prev)
  case Nil
  then show ?case by (simp add: traverse_end entries_def)
next
  case (Cons a xs)
  then obtain b where b: "mem ht a = Some b" "pListNext b = hd_or xs None" "dseg (mem ht) (Some a) xs None"
    by auto
  have ih: "traverse hash_move_forward (ht\<lparr>pInternalPointer := hd_or xs None\<rparr>) =
      Some (map (\<lambda>e. (current_of (fst e), snd e)) (entries (mem ht) xs))"
    by (rule Cons.IH[OF b(3) Cons.prems(2)])
  have "hash_move_forward (ht\<lparr>pInternalPointer := Some a\<rparr>) = Some (ht\<lparr>pInternalPointer := hd_or xs None\<rparr>)"
    using b by (simp add: hash_move_forward_def)
  from traverse_step[OF _ _ _ this ih, of a b hf] show ?case
    using b Cons.prems(2) by (simp add: entries_def bkey_def bdata_def)
qed

lemma traverse_backward:
  "dseg (mem ht) None xs nxt \<Longrightarrow> \<forall>a b. mem ht a = Some b \<longrightarrow> bucket_ok hf b \<Longrightarrow>
   traverse hash_move_backwards (ht\<lparr>pInternalPointer := last_or xs None\<rparr>) =
     Some (map (\<lambda>e. (current_of (fst e), snd e)) (rev (entries (mem ht) xs)))"
proof (induction xs arbitrary: nxt rule: rev_induct)
  case Nil
  then show ?case by (simp add: traverse_end entries_def)
next
  case (snoc a xs)
  then obtain b where b: "mem ht a = Some b" "pListLast b = last_or xs None" "dseg (mem ht) None xs (Some a)"
    by auto
  have ih: "traverse hash_move_backwards (ht\<lparr>pInternalPointer := last_or xs None\<rparr>) =
      Some (map (\<lambda>e. (current_of (fst e), snd e)) (rev (entries (mem ht) xs)))"
    by (rule snoc.IH[OF b(3) snoc.prems(2)])
  have "hash_move_backwards (ht\<lparr>pInternalPointer := Some a\<rparr>) = Some (ht\<lparr>pInternalPointer := last_or xs None\<rparr>)"
    using b by (simp add: hash_move_backwards_def)
  from traverse_step[OF _ _ _ this ih, of a b hf] show ?case
    using b snoc.prems(2) by (simp add: entries_def bkey_def bdata_def)
qed

lemma traverse_ok:
  assumes inv: "hash_inv ht"
  shows "traverse hash_move_forward (hash_internal_pointer_reset ht) =
           Some (map (\<lambda>e. (current_of (fst e), snd e)) (hash_entries ht))"
    and "traverse hash_move_backwards (hash_internal_pointer_end ht) =
           Some (map (\<lambda>e. (current_of (fst e), snd e)) (rev (hash_entries ht)))"
proof -
  have r: "hash_repr ht (hash_addrs ht)" by (rule hash_inv_repr[OF inv])
  have d: "dseg (mem ht) None (hash_addrs ht) None" "pListHead ht = hd_or (hash_addrs ht) None"
      "pListTail ht = last_or (hash_addrs ht) None"
    using r by (auto simp: hash_repr_def list_ok_def)
  have bok: "\<forall>a b. mem ht a = Some b \<longrightarrow> bucket_ok (pHashFunction ht) b"
    using hash_repr_bucket[OF r] by blast
  show "traverse hash_move_forward (hash_internal_pointer_reset ht) =
           Some (map (\<lambda>e. (current_of (fst e), snd e)) (hash_entries ht))"
    using traverse_forward[OF d(1) bok] by (simp add: hash_internal_pointer_reset_def d(2) hash_entries_def)
  show "traverse hash_move_backwards (hash_internal_pointer_end ht) =
           Some (map (\<lambda>e. (current_of (fst e), snd e)) (rev (hash_entries ht)))"
    using traverse_backward[OF d(1) bok] by (simp add: hash_internal_pointer_end_def d(3) hash_entries_def)
qed

subsection \<open>Minimum and maximum\<close>

definition best :: "(hkey \<times> 'a \<Rightarrow> hkey \<times> 'a \<Rightarrow> int) \<Rightarrow> bool \<Rightarrow> hkey \<times> 'a \<Rightarrow> hkey \<times> 'a \<Rightarrow> hkey \<times> 'a" where
  "best c mx r e = (if (if mx then c r e < 0 else c r e > 0) then e else r)"

lemma minmax_loop_ok:
  "dseg m prev xs None \<Longrightarrow>
   \<exists>r'. minmax_loop (sort_entries_by c) mx m (hd_or xs None) r = Some r' \<and>
        (key_of r', pData r') = foldl (best c mx) (key_of r, pData r) (entries m xs)"
proof (induction xs arbitrary: prev r)
  case Nil
  then show ?case by (simp add: minmax_loop.simps entries_def)
next
  case (Cons a xs)
  then obtain b where b: "m a = Some b" "pListNext b = hd_or xs None" "dseg m (Some a) xs None" by auto
  let ?r = "if (if mx then sort_entries_by c r b < 0 else sort_entries_by c r b > 0) then b else r"
  obtain r' where r': "minmax_loop (sort_entries_by c) mx m (hd_or xs None) ?r = Some r'"
      "(key_of r', pData r') = foldl (best c mx) (key_of ?r, pData ?r) (entries m xs)"
    using Cons.IH[OF b(3), of ?r] by blast
  have "minmax_loop (sort_entries_by c) mx m (hd_or (a # xs) None) r =
      minmax_loop (sort_entries_by c) mx m (hd_or xs None) ?r"
    using b by (subst minmax_loop.simps) simp
  moreover have "(key_of ?r, pData ?r) = best c mx (key_of r, pData r) (key_of b, pData b)"
    by (simp add: best_def sort_entries_by_def)
  ultimately show ?case using r' b by (simp add: entries_def bkey_def bdata_def)
qed

text \<open>A comparison whose sign is antisymmetric.\<close>

definition cmp_order :: "('b \<Rightarrow> 'b \<Rightarrow> int) \<Rightarrow> bool" where
  "cmp_order c \<longleftrightarrow> cmp_preorder c \<and> (\<forall>x y. 0 < c x y \<longleftrightarrow> c y x < 0)"

lemma foldl_best:
  assumes c: "cmp_order c"
  shows "foldl (best c mx) r es \<in> set (r # es) \<and>
         (\<forall>e \<in> set (r # es). if mx then c e (foldl (best c mx) r es) \<le> 0 else c (foldl (best c mx) r es) e \<le> 0)"
proof (induction es arbitrary: r)
  case Nil
  have "c r r \<le> 0" using c unfolding cmp_order_def cmp_preorder_def by blast
  then show ?case by simp
next
  case (Cons e es)
  let ?s = "best c mx r e" and ?f = "foldl (best c mx) (best c mx r e) es"
  have t: "c x y \<le> 0 \<Longrightarrow> c y z \<le> 0 \<Longrightarrow> c x z \<le> 0" for x y z
    using c unfolding cmp_order_def cmp_preorder_def by blast
  have a: "0 < c x y \<longleftrightarrow> c y x < 0" for x y using c unfolding cmp_order_def by blast
  have rr: "c x x \<le> 0" for x using c unfolding cmp_order_def cmp_preorder_def by blast
  have s: "if mx then c r ?s \<le> 0 \<and> c e ?s \<le> 0 else c ?s r \<le> 0 \<and> c ?s e \<le> 0"
    using a[of r e] a[of e r] rr[of r] rr[of e] by (auto simp: best_def)
  note ih = Cons.IH[of ?s]
  have sf: "if mx then c ?s ?f \<le> 0 else c ?f ?s \<le> 0" using ih by (cases mx) auto
  have "if mx then c x ?f \<le> 0 else c ?f x \<le> 0" if "x = r \<or> x = e" for x
    using that s sf t[of x ?s ?f] t[of ?f ?s x] by (cases mx) auto
  moreover have "?s = r \<or> ?s = e" by (simp add: best_def)
  ultimately show ?case using ih by (cases mx) auto
qed

lemma minmax_ok:
  assumes inv: "hash_inv ht" and c: "cmp_order c"
  shows "case hash_entries ht of
           [] \<Rightarrow> hash_minmax ht (sort_entries_by c) mx = Some (FAILURE, None)
         | _ \<Rightarrow> \<exists>e \<in> set (hash_entries ht).
                 hash_minmax ht (sort_entries_by c) mx = Some (SUCCESS, Some (snd e)) \<and>
                 (\<forall>e' \<in> set (hash_entries ht). if mx then c e' e \<le> 0 else c e e' \<le> 0)"
proof -
  define xs where "xs = hash_addrs ht"
  have r: "hash_repr ht xs" using hash_inv_repr[OF inv] by (simp add: xs_def)
  note en = hash_repr_entries[OF r]
  have d: "dseg (mem ht) None xs None" "pListHead ht = hd_or xs None" "nNumOfElements ht = length xs"
    using r by (auto simp: hash_repr_def list_ok_def)
  show ?thesis
  proof (cases xs)
    case Nil
    then show ?thesis using d by (simp add: en entries_def hash_minmax_def)
  next
    case (Cons a ys)
    then obtain b where b: "mem ht a = Some b" "pListNext b = hd_or ys None" "dseg (mem ht) (Some a) ys None"
      using d(1) by auto
    obtain r' where r': "minmax_loop (sort_entries_by c) mx (mem ht) (hd_or ys None) b = Some r'"
        "(key_of r', pData r') = foldl (best c mx) (key_of b, pData b) (entries (mem ht) ys)"
      using minmax_loop_ok[OF b(3)] by blast
    have es: "hash_entries ht = (key_of b, pData b) # entries (mem ht) ys"
      using b by (simp add: en Cons entries_def bkey_def bdata_def)
    have "hash_minmax ht (sort_entries_by c) mx = Some (SUCCESS, Some (snd (key_of r', pData r')))"
      using d(2,3) b r'(1) Cons by (simp add: hash_minmax_def)
    moreover have "(key_of r', pData r') \<in> set (hash_entries ht) \<and>
        (\<forall>e' \<in> set (hash_entries ht).
           if mx then c e' (key_of r', pData r') \<le> 0 else c (key_of r', pData r') e' \<le> 0)"
      unfolding es r'(2) by (rule foldl_best[OF c])
    ultimately have "\<exists>e \<in> set (hash_entries ht).
        hash_minmax ht (sort_entries_by c) mx = Some (SUCCESS, Some (snd e)) \<and>
        (\<forall>e' \<in> set (hash_entries ht). if mx then c e' e \<le> 0 else c e e' \<le> 0)"
      by (intro bexI[of _ "(key_of r', pData r')"]) simp_all
    then show ?thesis by (simp add: es)
  qed
qed

end
