(* ===== verification/Php_Array.thy ===== *)
theory Php_Array
  imports Hash_Cursor
begin

text \<open>
  The abstract array behind the hash table: its entries in order and the next free index. The
  operations of \<^verbatim>\<open>php3_hash.c\<close> are functional refinements of operations on it: for a table
  \<open>ht\<close> in its invariant and \<open>array_of ht\<close> its abstraction, \<open>array_of (op ht) = aop (array_of ht)\<close>.
  The values of the interpreter hold arrays in this form.

  The contract the clients of a table use is the locale \<open>table\<close>; it is met by the code's string
  operations, by its index operations and by the abstract array.
\<close>

datatype 'a parray = PArr (ents: "(hkey \<times> 'a) list") (next_free: ulong)

definition array_of :: "'a hashtable \<Rightarrow> 'a parray" where
  "array_of ht = PArr (hash_entries ht) (nNextFreeElement ht)"

definition arr_empty :: "'a parray" where
  "arr_empty = PArr [] 0"

definition arr_key :: "string \<Rightarrow> hkey" where
  "arr_key s = norm_key (s @ [NUL])"

fun bump_next :: "hkey \<Rightarrow> ulong \<Rightarrow> ulong" where
  "bump_next (IntKey h) nf = next_free_after h nf"
| "bump_next (StrKey s) nf = nf"

definition arr_find :: "'a parray \<Rightarrow> hkey \<Rightarrow> 'a option" where
  "arr_find a k = map_of (ents a) k"

definition arr_update :: "'a parray \<Rightarrow> hkey \<Rightarrow> 'a \<Rightarrow> 'a parray" where
  "arr_update a k v = PArr (AList.update k v (ents a)) (bump_next k (next_free a))"

definition arr_append :: "'a parray \<Rightarrow> 'a \<Rightarrow> 'a parray option" where
  "arr_append a v =
     (if IntKey (next_free a) \<in> fst ` set (ents a) then None
      else Some (arr_update a (IntKey (next_free a)) v))"

definition arr_delete :: "'a parray \<Rightarrow> hkey \<Rightarrow> 'a parray" where
  "arr_delete a k = PArr (AList.delete k (ents a)) (next_free a)"

definition arr_size :: "'a parray \<Rightarrow> nat" where
  "arr_size a = length (ents a)"

definition arr_inv :: "'a parray \<Rightarrow> bool" where
  "arr_inv a \<longleftrightarrow> distinct (map fst (ents a))"

lemmas arr_defs = arr_find_def arr_update_def arr_append_def arr_delete_def arr_size_def

subsection \<open>The contract of a table\<close>

locale table =
  fixes inv :: "'t \<Rightarrow> bool"
    and assoc :: "'t \<Rightarrow> ('n \<times> 'v) list"
    and name :: "'k \<Rightarrow> 'n"
    and can_put :: "'t \<Rightarrow> 'k \<Rightarrow> bool"
    and can_del :: "'t \<Rightarrow> 'k \<Rightarrow> bool"
    and put :: "'t \<Rightarrow> 'k \<Rightarrow> 'v \<Rightarrow> 't option"
    and get :: "'t \<Rightarrow> 'k \<Rightarrow> 'v option option"
    and del :: "'t \<Rightarrow> 'k \<Rightarrow> (bool \<times> 't) option"
  assumes assoc_distinct: "inv t \<Longrightarrow> distinct (map fst (assoc t))"
    and put_law: "inv t \<Longrightarrow> can_put t k \<Longrightarrow>
          \<exists>t'. put t k v = Some t' \<and> inv t' \<and> assoc t' = AList.update (name k) v (assoc t) \<and>
               (\<forall>j. can_put t j \<longrightarrow> can_put t' j) \<and> (can_del t k \<longrightarrow> can_del t' k)"
    and get_law: "inv t \<Longrightarrow> get t k = Some (map_of (assoc t) (name k))"
    and del_law: "inv t \<Longrightarrow> can_del t k \<Longrightarrow>
          \<exists>t'. del t k = Some (name k \<in> fst ` set (assoc t), t') \<and> inv t' \<and>
               assoc t' = AList.delete (name k) (assoc t)"
begin

lemma get_put:
  assumes "inv t" "can_put t k"
  shows "\<exists>t'. put t k v = Some t' \<and> inv t' \<and>
              get t' j = Some (if name j = name k then Some v else map_of (assoc t) (name j))"
proof -
  obtain t' where t': "put t k v = Some t'" "inv t'" "assoc t' = AList.update (name k) v (assoc t)"
    using put_law[OF assms, of v] by blast
  then show ?thesis by (simp add: get_law AList.update_conv')
qed

lemma get_del:
  assumes "inv t" "can_del t k"
  shows "\<exists>b t'. del t k = Some (b, t') \<and> inv t' \<and>
              get t' j = Some (if name j = name k then None else map_of (assoc t) (name j))"
proof -
  obtain t' where t': "del t k = Some (name k \<in> fst ` set (assoc t), t')" "inv t'"
      "assoc t' = AList.delete (name k) (assoc t)"
    using del_law[OF assms] by blast
  then show ?thesis by (simp add: get_law AList.delete_conv')
qed

text \<open>Putting a fresh key and deleting it again restores the table.\<close>

lemma put_del:
  assumes "inv t" "can_put t k" "can_del t k" "get t k = Some None"
  shows "\<exists>t1 t2. put t k v = Some t1 \<and> del t1 k = Some (True, t2) \<and> inv t2 \<and> assoc t2 = assoc t"
proof -
  obtain t1 where t1: "put t k v = Some t1" "inv t1" "assoc t1 = AList.update (name k) v (assoc t)"
      "can_del t1 k"
    using put_law[OF assms(1,2), of v] assms(3) by blast
  obtain t2 where t2: "del t1 k = Some (name k \<in> fst ` set (assoc t1), t2)" "inv t2"
      "assoc t2 = AList.delete (name k) (assoc t1)"
    using del_law[OF t1(2,4)] by blast
  have new: "name k \<notin> fst ` set (assoc t)"
    using assms(4) get_law[OF assms(1), of k] by (simp add: map_of_eq_None_iff)
  then have e: "assoc t1 = assoc t @ [(name k, v)]" unfolding t1(3) by (rule alist_update_new)
  have "AList.delete (name k) (assoc t) = assoc t" using new by (rule AList.delete_id)
  then have "AList.delete (name k) (assoc t1) = assoc t" unfolding e by (simp add: AList.delete_eq)
  moreover have "name k \<in> fst ` set (assoc t1)" unfolding e by simp
  ultimately show ?thesis using t1(1) t2 by auto
qed

text \<open>Putting a list of pairs builds the map of the pairs, the last of equal keys winning.\<close>

lemma put_list:
  assumes "inv t" "\<forall>p \<in> set ps. can_put t (fst p)"
  shows "\<exists>t'. foldl (\<lambda>r p. Option.bind r (\<lambda>u. put u (fst p) (snd p))) (Some t) ps = Some t' \<and> inv t' \<and>
           map_of (assoc t') = map_of (assoc t) ++ map_of (rev (map (\<lambda>p. (name (fst p), snd p)) ps))"
  using assms
proof (induction ps arbitrary: t)
  case (Cons p ps)
  obtain t1 where t1: "put t (fst p) (snd p) = Some t1" "inv t1"
      "assoc t1 = AList.update (name (fst p)) (snd p) (assoc t)" "\<forall>j. can_put t j \<longrightarrow> can_put t1 j"
    using put_law[of t "fst p" "snd p"] Cons.prems by auto
  then obtain t' where
    "foldl (\<lambda>r p. Option.bind r (\<lambda>u. put u (fst p) (snd p))) (Some t1) ps = Some t'" "inv t'"
    "map_of (assoc t') = map_of (assoc t1) ++ map_of (rev (map (\<lambda>p. (name (fst p), snd p)) ps))"
    using Cons.IH[OF t1(2)] Cons.prems by auto
  then show ?case using t1 by (simp add: AList.update_conv' map_add_upd_left fun_eq_iff map_add_def split: option.split)
qed simp

end

subsection \<open>The code's tables meet the contract\<close>

definition table_inv :: "'a hashtable \<Rightarrow> bool" where
  "table_inv ht \<longleftrightarrow> hash_inv ht \<and> alloc_ok ht"

definition ht_put :: "'a hashtable \<Rightarrow> string \<Rightarrow> 'a \<Rightarrow> 'a hashtable option" where
  "ht_put ht k v = map_option (snd \<circ> snd) (hash_update ht k v)"

definition ht_get :: "'a hashtable \<Rightarrow> string \<Rightarrow> 'a option option" where
  "ht_get ht k = map_option snd (hash_find ht k)"

definition ht_del :: "'a hashtable \<Rightarrow> string \<Rightarrow> (bool \<times> 'a hashtable) option" where
  "ht_del ht k = map_option (map_prod (\<lambda>st. st = SUCCESS) id) (hash_del ht k)"

definition ix_put :: "'a hashtable \<Rightarrow> ulong \<Rightarrow> 'a \<Rightarrow> 'a hashtable option" where
  "ix_put ht k v = map_option (snd \<circ> snd) (hash_index_update ht k v)"

definition ix_get :: "'a hashtable \<Rightarrow> ulong \<Rightarrow> 'a option option" where
  "ix_get ht k = map_option snd (hash_index_find ht k)"

definition ix_del :: "'a hashtable \<Rightarrow> ulong \<Rightarrow> (bool \<times> 'a hashtable) option" where
  "ix_del ht k = map_option (map_prod (\<lambda>st. st = SUCCESS) id) (hash_index_del ht k)"

lemma find_result_snd [simp]: "snd (find_result r) = r"
  by (simp add: find_result_def split: option.split)

lemma remove_outcome_table:
  assumes "remove_outcome ht k res" "table_inv ht"
  shows "(fst res = SUCCESS) = (k \<in> fst ` set (hash_entries ht))" "table_inv (snd res)"
    "hash_entries (snd res) = AList.delete k (hash_entries ht)"
proof -
  have "(fst res = SUCCESS) = has_key ht k" "table_inv (snd res)"
    "hash_entries (snd res) = AList.delete k (hash_entries ht)"
    using assms by (auto simp: remove_outcome_def remove_success_def table_inv_def has_key_def
        intro: same_frame_alloc_ok split: if_splits)
  then show "(fst res = SUCCESS) = (k \<in> fst ` set (hash_entries ht))" "table_inv (snd res)"
    "hash_entries (snd res) = AList.delete k (hash_entries ht)" by (simp_all add: has_key_def)
qed

lemma index_update_table:
  assumes "table_inv ht"
  shows "\<exists>r ht'. hash_index_update ht h v = Some (SUCCESS, r, ht') \<and> table_inv ht' \<and>
           same_frame ht ht' \<and> array_of ht' = arr_update (array_of ht) (IntKey h) v"
proof -
  have inv: "hash_inv ht" "alloc_ok ht" using assms by (simp_all add: table_inv_def)
  have "h = (if HASH_UPDATE = HASH_NEXT_INSERT then nNextFreeElement ht else h)" by simp
  from index_update_outcome[OF inv(1) this, of v] obtain res where
    "hash_index_update ht h v = Some res"
    "insert_outcome ht (IntKey h) v True (next_free_after h (nNextFreeElement ht))
       (old_data ht (IntKey h)) res" by auto
  then show ?thesis
    using inv(2) by (cases res)
      (auto simp: insert_outcome_def insert_success_def table_inv_def array_of_def arr_update_def
        intro: same_frame_alloc_ok split: if_splits)
qed

lemma update_table:
  assumes "table_inv ht" "key \<noteq> []"
  shows "\<exists>r ht'. hash_update ht key v = Some (SUCCESS, r, ht') \<and> table_inv ht' \<and>
           same_frame ht ht' \<and> array_of ht' = arr_update (array_of ht) (norm_key key) v"
proof -
  have inv: "hash_inv ht" "alloc_ok ht" using assms by (simp_all add: table_inv_def)
  obtain res nf where res: "hash_update ht key v = Some res"
    "insert_outcome ht (norm_key key) v True nf (old_data ht (norm_key key)) res"
    "nf = (case handle_numeric key of None \<Rightarrow> nNextFreeElement ht
           | Some h \<Rightarrow> next_free_after h (nNextFreeElement ht))"
    using update_outcome[OF inv(1) assms(2) inv(2), of HASH_UPDATE v] by auto
  have "nf = bump_next (norm_key key) (nNextFreeElement ht)"
    by (simp add: res(3) norm_key_def split: option.split)
  then show ?thesis
    using res(1,2) inv(2) by (cases res)
      (auto simp: insert_outcome_def insert_success_def table_inv_def array_of_def arr_update_def
        intro: same_frame_alloc_ok split: if_splits)
qed

lemma array_of_entries: "array_of t' = arr_update (array_of t) k v \<Longrightarrow>
    hash_entries t' = AList.update k v (hash_entries t)"
  by (simp add: array_of_def arr_update_def)

lemma numeric_clash_update:
  assumes "hash_entries t' = AList.update (norm_key k) v (hash_entries t)" "same_frame t t'"
    "\<not> numeric_clash t k"
  shows "\<not> numeric_clash t' k"
  using assms by (auto simp: numeric_clash_def has_key_def norm_key_def AList.dom_update same_frame_def)

interpretation ht: table table_inv hash_entries norm_key "\<lambda>ht k. k \<noteq> []" "\<lambda>ht k. \<not> numeric_clash ht k"
  ht_put ht_get ht_del
proof unfold_locales
  fix t :: "'a hashtable" and k v
  assume inv: "table_inv t"
  then have hi: "hash_inv t" by (simp add: table_inv_def)
  show "distinct (map fst (hash_entries t))" by (rule hash_inv_distinct[OF hi])
  show "ht_get t k = Some (map_of (hash_entries t) (norm_key k))"
    by (simp add: ht_get_def hash_find_eq[OF hi])
  show "\<exists>t'. ht_put t k v = Some t' \<and> table_inv t' \<and>
      hash_entries t' = AList.update (norm_key k) v (hash_entries t) \<and>
      (\<forall>j. j \<noteq> [] \<longrightarrow> j \<noteq> []) \<and> (\<not> numeric_clash t k \<longrightarrow> \<not> numeric_clash t' k)" if "k \<noteq> []"
    using update_table[OF inv that, of v] array_of_entries numeric_clash_update
    by (fastforce simp: ht_put_def)
  show "\<exists>t'. ht_del t k = Some (norm_key k \<in> fst ` set (hash_entries t), t') \<and> table_inv t' \<and>
      hash_entries t' = AList.delete (norm_key k) (hash_entries t)" if nc: "\<not> numeric_clash t k"
  proof -
    obtain res where res: "hash_del t k = Some res" "remove_outcome t (norm_key k) res"
      using key_del_outcome[OF hi nc] by blast
    have "ht_del t k = Some (fst res = SUCCESS, snd res)"
      by (cases res) (simp add: ht_del_def res(1))
    then show ?thesis using remove_outcome_table[OF res(2) inv] by simp
  qed
qed

interpretation ix: table table_inv hash_entries IntKey "\<lambda>ht k. True" "\<lambda>ht k. True"
  ix_put ix_get ix_del
proof unfold_locales
  fix t :: "'a hashtable" and k v
  assume inv: "table_inv t"
  then have hi: "hash_inv t" by (simp add: table_inv_def)
  show "distinct (map fst (hash_entries t))" by (rule hash_inv_distinct[OF hi])
  show "ix_get t k = Some (map_of (hash_entries t) (IntKey k))"
    by (simp add: ix_get_def hash_index_find_eq[OF hi])
  show "\<exists>t'. ix_put t k v = Some t' \<and> table_inv t' \<and>
      hash_entries t' = AList.update (IntKey k) v (hash_entries t) \<and>
      (\<forall>j::ulong. True \<longrightarrow> True) \<and> (True \<longrightarrow> True)"
    using index_update_table[OF inv, of k v] array_of_entries by (fastforce simp: ix_put_def)
  show "\<exists>t'. ix_del t k = Some (IntKey k \<in> fst ` set (hash_entries t), t') \<and> table_inv t' \<and>
      hash_entries t' = AList.delete (IntKey k) (hash_entries t)"
  proof -
    obtain res where res: "hash_index_del t k = Some res" "remove_outcome t (IntKey k) res"
      using index_del_outcome[OF hi] by blast
    have "ix_del t k = Some (fst res = SUCCESS, snd res)"
      by (cases res) (simp add: ix_del_def res(1))
    then show ?thesis using remove_outcome_table[OF res(2) inv] by simp
  qed
qed

interpretation arr: table arr_inv ents id "\<lambda>a k. True" "\<lambda>a k. True"
  "\<lambda>a k v. Some (arr_update a k v)" "\<lambda>a k. Some (arr_find a k)"
  "\<lambda>a k. Some (k \<in> fst ` set (ents a), arr_delete a k)"
  by unfold_locales (auto simp: arr_inv_def arr_defs distinct_update AList.distinct_delete)

end
