(* ===== verification/Php_Double.thy ===== *)
theory Php_Double
  imports Php_Prelude
begin

text \<open>
  \<^verbatim>\<open>double\<close>: IEEE 754 binary64 with rounding to nearest, ties to even, computed on integers, and
  the parts of the C library that read and print doubles (\<^verbatim>\<open>strtod\<close>, \<^verbatim>\<open>%.*G\<close>). A finite number
  is a sign (true is negative), a mantissa below \<open>2 ^ 53\<close> and an exponent; the value is
  \<open>mantissa * 2 ^ exponent\<close>. An operation rounds the exact result once.

  The lemmas at the end say when the arithmetic is exact: on integers below \<open>2 ^ 53\<close> it is
  integer arithmetic, which is what the overflow tests of \<^verbatim>\<open>operators.c\<close> rely on.
\<close>

datatype double = Fin bool int int | Inf bool | NaN

function bitlen :: "int \<Rightarrow> int" where
  "bitlen n = (if n \<le> 0 then 0 else 1 + bitlen (n div 2))"
  by pat_completeness auto
termination by (relation "measure nat") auto

declare bitlen.simps [simp del]

text \<open>\<open>num / den\<close> in units of \<open>2 ^ e\<close>, as a fraction.\<close>

definition scale_frac :: "int \<Rightarrow> int \<Rightarrow> int \<Rightarrow> int \<times> int" where
  "scale_frac e num den = (if 0 \<le> e then (num, den * 2 ^ nat e) else (num * 2 ^ nat (- e), den))"

definition half_even :: "int \<Rightarrow> int \<Rightarrow> int" where
  "half_even n d =
     (let q = n div d; r = n mod d in if 2 * r > d \<or> 2 * r = d \<and> odd q then q + 1 else q)"

text \<open>The rounded mantissa and exponent of a positive fraction; the exponent has no upper bound here.\<close>

definition round_frac :: "int \<Rightarrow> int \<Rightarrow> int \<times> int" where
  "round_frac num den =
     (let e0 = max (- 1074) (bitlen num - bitlen den - 53);
          (n0, d0) = scale_frac e0 num den;
          e = (if n0 div d0 \<ge> 2 ^ 53 then e0 + 1 else e0);
          (n, d) = scale_frac e num den;
          q = half_even n d
      in if q = 2 ^ 53 then (2 ^ 52, e + 1) else (q, e))"

definition mk_double :: "bool \<Rightarrow> int \<Rightarrow> int \<Rightarrow> double" where
  "mk_double s num den =
     (if num = 0 then Fin s 0 (- 1074)
      else (let (m, e) = round_frac num den in if e > 971 then Inf s else Fin s m e))"

definition mk_double_int :: "bool \<Rightarrow> int \<Rightarrow> int \<Rightarrow> double" where
  "mk_double_int zero_sign n e =
     (let s = (if n = 0 then zero_sign else n < 0); (a, b) = scale_frac (- e) 1 1
      in mk_double s (\<bar>n\<bar> * a) b)"

definition d_of_int :: "int \<Rightarrow> double" where
  "d_of_int n = mk_double_int False n 0"

text \<open>The signed mantissa of a number in units of \<open>2 ^ e\<close>, for an \<open>e\<close> not above its exponent.\<close>

definition units :: "bool \<Rightarrow> int \<Rightarrow> int \<Rightarrow> int \<Rightarrow> int" where
  "units s m ex e = (if s then - 1 else 1) * m * 2 ^ nat (ex - e)"

fun dneg :: "double \<Rightarrow> double" where
  "dneg (Fin s m e) = Fin (\<not> s) m e"
| "dneg (Inf s) = Inf (\<not> s)"
| "dneg NaN = NaN"

fun dadd :: "double \<Rightarrow> double \<Rightarrow> double" where
  "dadd (Fin s1 m1 e1) (Fin s2 m2 e2) =
     (let e = min e1 e2 in mk_double_int (s1 \<and> s2) (units s1 m1 e1 e + units s2 m2 e2 e) e)"
| "dadd (Fin _ _ _) (Inf s) = Inf s"
| "dadd (Inf s) (Fin _ _ _) = Inf s"
| "dadd (Inf s) (Inf t) = (if s = t then Inf s else NaN)"
| "dadd NaN _ = NaN"
| "dadd _ NaN = NaN"

definition dsub :: "double \<Rightarrow> double \<Rightarrow> double" where
  "dsub x y = dadd x (dneg y)"

fun dmul :: "double \<Rightarrow> double \<Rightarrow> double" where
  "dmul (Fin s1 m1 e1) (Fin s2 m2 e2) =
     mk_double_int (s1 \<noteq> s2) (units s1 m1 0 0 * units s2 m2 0 0) (e1 + e2)"
| "dmul (Fin s1 m1 e1) (Inf s) = (if m1 = 0 then NaN else Inf (s1 \<noteq> s))"
| "dmul (Inf s) (Fin s1 m1 e1) = (if m1 = 0 then NaN else Inf (s1 \<noteq> s))"
| "dmul (Inf s) (Inf t) = Inf (s \<noteq> t)"
| "dmul NaN _ = NaN"
| "dmul _ NaN = NaN"

fun ddiv :: "double \<Rightarrow> double \<Rightarrow> double" where
  "ddiv (Fin s1 m1 e1) (Fin s2 m2 e2) =
     (if m2 = 0 then (if m1 = 0 then NaN else Inf (s1 \<noteq> s2))
      else (let (a, b) = scale_frac (e2 - e1) m1 m2 in mk_double (s1 \<noteq> s2) a b))"
| "ddiv (Fin s1 _ _) (Inf s) = Fin (s1 \<noteq> s) 0 (- 1074)"
| "ddiv (Inf s) (Fin s1 _ _) = Inf (s1 \<noteq> s)"
| "ddiv (Inf _) (Inf _) = NaN"
| "ddiv NaN _ = NaN"
| "ddiv _ NaN = NaN"

text \<open>Comparisons; every comparison with a NaN is false.\<close>

fun dless :: "double \<Rightarrow> double \<Rightarrow> bool" where
  "dless (Fin s1 m1 e1) (Fin s2 m2 e2) =
     (let e = min e1 e2 in units s1 m1 e1 e < units s2 m2 e2 e)"
| "dless (Fin _ _ _) (Inf s) = (\<not> s)"
| "dless (Inf s) (Fin _ _ _) = s"
| "dless (Inf s) (Inf t) = (s \<and> \<not> t)"
| "dless NaN _ = False"
| "dless _ NaN = False"

fun deq :: "double \<Rightarrow> double \<Rightarrow> bool" where
  "deq (Fin s1 m1 e1) (Fin s2 m2 e2) =
     (let e = min e1 e2 in units s1 m1 e1 e = units s2 m2 e2 e)"
| "deq (Inf s) (Inf t) = (s = t)"
| "deq _ _ = False"

abbreviation dzero :: double where
  "dzero \<equiv> Fin False 0 (- 1074)"

text \<open>The truth value of a double: \<^verbatim>\<open>dval ? 1 : 0\<close>.\<close>

fun dtrue :: "double \<Rightarrow> bool" where
  "dtrue (Fin _ m _) = (m \<noteq> 0)"
| "dtrue _ = True"

text \<open>\<^verbatim>\<open>(long) d\<close>: truncation; undefined (\<open>None\<close>) when the integer does not fit.\<close>

fun dtrunc :: "double \<Rightarrow> int option" where
  "dtrunc (Fin s m e) =
     (let (a, b) = scale_frac (- e) m 1; n = a div b in Some (if s then - n else n))"
| "dtrunc _ = None"

definition d_to_long :: "double \<Rightarrow> ulong option" where
  "d_to_long d = do {
     n \<leftarrow> dtrunc d;
     (if LONG_MIN \<le> n \<and> n \<le> LONG_MAX then Some (word_of_int n) else None)
   }"

subsection \<open>Decimal numbers\<close>

function dec_digits :: "int \<Rightarrow> string" where
  "dec_digits n =
     (if n < 10 then [chr (nat (48 + n))] else dec_digits (n div 10) @ [chr (nat (48 + n mod 10))])"
  by pat_completeness auto
termination by (relation "measure nat") auto

declare dec_digits.simps [simp del]

text \<open>\<^verbatim>\<open>%ld\<close>\<close>

definition dec_of_int :: "int \<Rightarrow> string" where
  "dec_of_int n = (if n < 0 then CHR ''-'' # dec_digits (- n) else dec_digits n)"

text \<open>\<^verbatim>\<open>num / den * 10 ^ k\<close> as a fraction.\<close>

definition scale_dec :: "int \<Rightarrow> int \<Rightarrow> int \<Rightarrow> int \<times> int" where
  "scale_dec k num den = (if 0 \<le> k then (num * 10 ^ nat k, den) else (num, den * 10 ^ nat (- k)))"

text \<open>
  \<^verbatim>\<open>strtod\<close> on decimal numbers (C89: no hexadecimal, infinity or NaN): the number, the offset
  where the scan stopped, and whether \<^verbatim>\<open>errno\<close> became \<^verbatim>\<open>ERANGE\<close> (overflow, or a number that
  is not zero underflowed to zero).
\<close>

definition strtod :: "string \<Rightarrow> double \<times> nat \<times> bool" where
  [c_library]: "strtod s =
     (let ws = length (takeWhile is_space s);
          s1 = drop ws s;
          neg = (case s1 of c # _ \<Rightarrow> c = CHR ''-'' | [] \<Rightarrow> False);
          sg = (case s1 of c # _ \<Rightarrow> c = CHR ''-'' \<or> c = CHR ''+'' | [] \<Rightarrow> False);
          s2 = (if sg then drop 1 s1 else s1);
          ip = takeWhile is_digit s2;
          s3 = drop (length ip) s2;
          dot = (case s3 of c # _ \<Rightarrow> c = CHR ''.'' | [] \<Rightarrow> False);
          fp = (if dot then takeWhile is_digit (drop 1 s3) else []);
          s4 = (if dot then drop (1 + length fp) s3 else s3);
          (ex, exlen) =
            (case s4 of
               c # r \<Rightarrow>
                 if c = CHR ''e'' \<or> c = CHR ''E'' then
                   (let eneg = (case r of d # _ \<Rightarrow> d = CHR ''-'' | [] \<Rightarrow> False);
                        esg = (case r of d # _ \<Rightarrow> d = CHR ''-'' \<or> d = CHR ''+'' | [] \<Rightarrow> False);
                        (v, n) = scan_digits 10 (if esg then drop 1 r else r) 0 0
                    in if n = 0 then (0, 0)
                       else (if eneg then - v else v, 1 + (if esg then 1 else 0) + n))
                 else (0, 0)
             | [] \<Rightarrow> (0, 0));
          m = fst (scan_digits 10 (ip @ fp) 0 0);
          (a, b) = scale_dec (ex - int (length fp)) m 1;
          d = mk_double neg a b
      in if ip = [] \<and> fp = [] then (dzero, 0, False)
         else (d, ws + (if sg then 1 else 0) + length ip + (if dot then 1 else 0) + length fp + exlen,
               (case d of Fin _ dm _ \<Rightarrow> dm = 0 \<and> m \<noteq> 0 | _ \<Rightarrow> True)))"

text \<open>The decimal exponent of a positive fraction: \<open>10 ^ x \<le> num / den < 10 ^ (x + 1)\<close>.\<close>

function dec_shift :: "int \<Rightarrow> int \<Rightarrow> int" where
  "dec_shift num den = (if den \<le> num \<or> num \<le> 0 then 0 else 1 + dec_shift (num * 10) den)"
  by pat_completeness auto
termination by (relation "measure (\<lambda>(num, den). nat (den - num))") auto

declare dec_shift.simps [simp del]

definition dec_exponent :: "int \<Rightarrow> int \<Rightarrow> int" where
  "dec_exponent num den =
     (if den \<le> num then int (length (dec_digits (num div den))) - 1
      else - dec_shift num den)"

text \<open>\<^verbatim>\<open>%.*G\<close>\<close>

definition strip_zeros :: "string \<Rightarrow> string" where
  "strip_zeros s = rev (dropWhile (\<lambda>c. c = CHR ''0'') (rev s))"

definition with_fraction :: "string \<Rightarrow> string \<Rightarrow> string" where
  "with_fraction i f = (if strip_zeros f = [] then i else i @ CHR ''.'' # strip_zeros f)"

definition pad2 :: "string \<Rightarrow> string" where
  "pad2 s = (if length s < 2 then CHR ''0'' # s else s)"

definition format_G_frac :: "nat \<Rightarrow> int \<Rightarrow> int \<Rightarrow> string" where
  "format_G_frac prec num den =
     (let p = (if prec = 0 then 1 else prec);
          x0 = dec_exponent num den;
          (n, d) = scale_dec (int p - 1 - x0) num den;
          q0 = half_even n d;
          (q, x) = (if q0 = 10 ^ p then (10 ^ (p - 1), x0 + 1) else (q0, x0));
          ds = dec_digits q
      in if x < - 4 \<or> int p \<le> x
         then with_fraction (take 1 ds) (drop 1 ds) @ CHR ''E'' #
              (if x < 0 then CHR ''-'' else CHR ''+'') # pad2 (dec_digits \<bar>x\<bar>)
         else if x < 0
         then with_fraction ''0'' (replicate (nat (- x - 1)) (CHR ''0'') @ ds)
         else with_fraction (take (nat x + 1) ds) (drop (nat x + 1) ds))"

fun format_G :: "nat \<Rightarrow> double \<Rightarrow> string" where
  "format_G prec (Fin s m e) =
     (if s then ''-'' else []) @
     (if m = 0 then ''0''
      else (let (a, b) = scale_frac (- e) m 1 in format_G_frac prec a b))"
| "format_G prec (Inf s) = (if s then ''-INF'' else ''INF'')"
| "format_G prec NaN = ''NAN''"


subsection \<open>Rounding of integers\<close>

lemma bitlen_pos: "0 < n \<Longrightarrow> bitlen n = 1 + bitlen (n div 2)"
  by (subst bitlen.simps) simp

lemma bitlen_bounds:
  "0 < n \<Longrightarrow> 0 < bitlen n \<and> 2 ^ nat (bitlen n - 1) \<le> n \<and> n < 2 ^ nat (bitlen n)"
proof (induction n rule: bitlen.induct)
  case (1 n)
  show ?case
  proof (cases "n = 1")
    case True
    then show ?thesis by (simp add: bitlen.simps)
  next
    case False
    then have h: "0 < n div 2" using 1 by linarith
    then have ih: "0 < bitlen (n div 2)" "2 ^ nat (bitlen (n div 2) - 1) \<le> n div 2"
        "n div 2 < 2 ^ nat (bitlen (n div 2))"
      using 1 by auto
    obtain k where k: "bitlen (n div 2) = int (Suc k)" using ih(1) by (metis gr0_implies_Suc pos_int_cases)
    have "bitlen n = 1 + bitlen (n div 2)" by (rule bitlen_pos) (use 1 in simp)
    moreover have "nat (1 + int (Suc k)) = Suc (Suc k)" "nat (int (Suc k) - 1) = k" by simp_all
    ultimately show ?thesis using ih k by (simp del: of_nat_Suc) linarith
  qed
qed

lemma bitlen_unique:
  assumes "2 ^ k \<le> n" "n < 2 ^ Suc k"
  shows "bitlen n = int (Suc k)"
proof -
  have "0 < n" using assms(1) by (meson less_le_trans zero_less_numeral zero_less_power)
  then have b: "0 < bitlen n" "2 ^ nat (bitlen n - 1) \<le> n" "n < 2 ^ nat (bitlen n)"
    using bitlen_bounds by auto
  have "(2::int) ^ nat (bitlen n - 1) < 2 ^ Suc k" "(2::int) ^ k < 2 ^ nat (bitlen n)"
    using assms b by linarith+
  then have "nat (bitlen n - 1) < Suc k" "k < nat (bitlen n)"
    by (meson one_less_numeral_iff power_less_imp_less_exp semiring_norm(76))+
  then show ?thesis using b(1) by linarith
qed

lemma bitlen_mult: "0 < c \<Longrightarrow> bitlen (c * 2 ^ k) = bitlen c + int k"
proof -
  assume c: "0 < c"
  note b = bitlen_bounds[OF c]
  obtain j where j: "bitlen c = int (Suc j)" using b by (metis gr0_implies_Suc pos_int_cases)
  have "nat (int (Suc j) - 1) = j" "nat (1 + int j) = Suc j" by simp_all
  then have "2 ^ (j + k) \<le> c * 2 ^ k" "c * 2 ^ k < 2 ^ Suc (j + k)"
    using b by (simp_all add: j power_add)
  from bitlen_unique[OF this] show ?thesis by (simp add: j)
qed

lemma bitlen_pow2: "bitlen (2 ^ k) = int k + 1"
  using bitlen_unique[of k "2 ^ k"] by simp

text \<open>An integer, as a fraction with a power of two below: the exponent leaves 53 bits.\<close>

lemma round_frac_int:
  assumes N: "0 < N"
  shows "round_frac (N * 2 ^ k) (2 ^ k) =
           (let e = bitlen N - 53; (n, d) = scale_frac e (N * 2 ^ k) (2 ^ k); q = half_even n d
            in if q = 2 ^ 53 then (2 ^ 52, e + 1) else (q, e))"
proof -
  note b = bitlen_bounds[OF N]
  let ?e = "bitlen N - 54"
  have e0: "max (- 1074) (bitlen (N * 2 ^ k) - bitlen (2 ^ k) - 53) = ?e"
    using b by (simp add: bitlen_mult[OF N] bitlen_pow2)
  have "(case scale_frac ?e (N * 2 ^ k) (2 ^ k) of (n0, d0) \<Rightarrow> 2 ^ 53 \<le> n0 div d0)"
  proof (cases "0 \<le> ?e")
    case True
    then have p: "nat (bitlen N - 1) = 53 + nat ?e" by linarith
    have "2 ^ 53 * 2 ^ nat ?e \<le> N" using b by (simp add: p power_add)
    from zdiv_mono1[OF this, of "2 ^ nat ?e"] have "2 ^ 53 \<le> N div 2 ^ nat ?e" by simp
    then show ?thesis using True by (simp add: scale_frac_def)
  next
    case False
    then have p: "nat (bitlen N - 1) + nat (- ?e) = 53" using b by linarith
    have "(2::int) ^ 53 = 2 ^ nat (bitlen N - 1) * 2 ^ nat (- ?e)" by (simp only: p flip: power_add)
    also have "\<dots> \<le> N * 2 ^ nat (- ?e)" using b by simp
    finally show ?thesis using False by (simp add: scale_frac_def mult.assoc mult.left_commute[of "2 ^ k"])
  qed
  then show ?thesis unfolding round_frac_def Let_def e0
    by (auto simp: split: prod.splits)
qed


lemma half_even_exact: "0 < d \<Longrightarrow> half_even (q * d) d = q"
  by (simp add: half_even_def)

lemma half_even_ge: "0 < d \<Longrightarrow> q * d \<le> n \<Longrightarrow> q \<le> half_even n d"
proof -
  assume *: "0 < d" "q * d \<le> n"
  then have "q \<le> n div d" using zdiv_mono1[of "q * d" n d] by simp
  then show ?thesis by (simp add: half_even_def Let_def)
qed

lemma round_frac_exact:
  assumes N: "0 < N" "N < 2 ^ 53"
  shows "round_frac (N * 2 ^ k) (2 ^ k) = (N * 2 ^ nat (53 - bitlen N), bitlen N - 53)"
proof -
  note b = bitlen_bounds[OF N(1)]
  have "(2::int) ^ nat (bitlen N - 1) < 2 ^ 53" using b N by linarith
  then have "nat (bitlen N - 1) < 53" by (rule power_less_imp_less_exp[rotated]) simp
  then have le: "bitlen N \<le> 53" using b by linarith
  let ?s = "nat (53 - bitlen N)"
  have sc: "scale_frac (bitlen N - 53) (N * 2 ^ k) (2 ^ k) = (N * 2 ^ ?s * 2 ^ k, 2 ^ k)"
    using le by (auto simp: scale_frac_def mult.assoc mult.left_commute)
  have "N * 2 ^ ?s < 2 ^ nat (bitlen N) * 2 ^ ?s" using b by simp
  also have "\<dots> = 2 ^ 53" using le b by (simp flip: power_add) (simp add: nat_add_distrib[symmetric])
  finally have "N * 2 ^ ?s \<noteq> 2 ^ 53" by simp
  then show ?thesis by (simp add: round_frac_int[OF N(1)] sc half_even_exact)
qed

lemma round_frac_big:
  assumes N: "2 ^ 53 \<le> N"
  shows "2 ^ 52 \<le> fst (round_frac (N * 2 ^ k) (2 ^ k)) \<and> 1 \<le> snd (round_frac (N * 2 ^ k) (2 ^ k))"
proof -
  have N0: "0 < N" using N by (meson less_le_trans zero_less_numeral zero_less_power)
  note b = bitlen_bounds[OF N0]
  have "(2::int) ^ 53 < 2 ^ nat (bitlen N)" using b N by linarith
  then have "53 < nat (bitlen N)" by (rule power_less_imp_less_exp[rotated]) simp
  then have ge: "1 \<le> bitlen N - 53" by linarith
  let ?e = "bitlen N - 53"
  have sc: "scale_frac ?e (N * 2 ^ k) (2 ^ k) = (N * 2 ^ k, 2 ^ k * 2 ^ nat ?e)"
    using ge by (simp add: scale_frac_def)
  have "nat (bitlen N - 1) = 52 + nat ?e" using ge by linarith
  then have "2 ^ 52 * 2 ^ nat ?e \<le> N" using b by (simp add: power_add)
  then have "2 ^ 52 * 2 ^ nat ?e * 2 ^ k \<le> N * 2 ^ k" by (rule mult_right_mono) simp
  then have "2 ^ 52 * (2 ^ k * 2 ^ nat ?e) \<le> N * 2 ^ k" by (simp add: ac_simps)
  from half_even_ge[OF _ this] have "2 ^ 52 \<le> half_even (N * 2 ^ k) (2 ^ k * 2 ^ nat ?e)" by simp
  then show ?thesis using ge by (auto simp: round_frac_int[OF N0] sc Let_def)
qed

subsection \<open>Arithmetic on integers is exact\<close>

text \<open>A double that holds the integer \<open>n\<close>.\<close>

definition holds_int :: "double \<Rightarrow> int \<Rightarrow> bool" where
  "holds_int d n \<longleftrightarrow>
     (\<exists>s m ex. d = Fin s m ex \<and> ex \<le> 0 \<and> (if s then - m else m) = n * 2 ^ nat (- ex))"

lemma holds_int_units:
  assumes "(if s then - m else m) = n * 2 ^ nat (- ex)" "e \<le> ex" "ex \<le> 0"
  shows "units s m ex e = n * 2 ^ nat (- e)"
proof -
  have "nat (- e) = nat (- ex) + nat (ex - e)" using assms by linarith
  then have "n * 2 ^ nat (- e) = (if s then - m else m) * 2 ^ nat (ex - e)"
    by (simp add: assms(1) power_add)
  then show ?thesis by (simp add: units_def)
qed

lemma mk_double_int_exact:
  assumes "\<bar>n\<bar> < 2 ^ 53" "e \<le> 0"
  shows "holds_int (mk_double_int zs (n * 2 ^ nat (- e)) e) n"
proof -
  have sc: "scale_frac (- e) 1 1 = (1, 2 ^ nat (- e))" using assms(2) by (auto simp: scale_frac_def)
  show ?thesis
  proof (cases "n = 0")
    case True
    then show ?thesis by (simp add: mk_double_int_def sc mk_double_def holds_int_def)
  next
    case False
    have b: "0 < bitlen \<bar>n\<bar>" using bitlen_bounds[of "\<bar>n\<bar>"] False by simp
    have "(2::int) ^ nat (bitlen \<bar>n\<bar> - 1) < 2 ^ 53" using bitlen_bounds[of "\<bar>n\<bar>"] assms False by linarith
    then have "nat (bitlen \<bar>n\<bar> - 1) < 53" by (rule power_less_imp_less_exp[rotated]) simp
    then have le: "bitlen \<bar>n\<bar> \<le> 53" by linarith
    have "round_frac (\<bar>n\<bar> * 2 ^ nat (- e)) (2 ^ nat (- e)) =
        (\<bar>n\<bar> * 2 ^ nat (53 - bitlen \<bar>n\<bar>), bitlen \<bar>n\<bar> - 53)"
      by (rule round_frac_exact) (use False assms in auto)
    then have "mk_double_int zs (n * 2 ^ nat (- e)) e =
        Fin (n < 0) (\<bar>n\<bar> * 2 ^ nat (53 - bitlen \<bar>n\<bar>)) (bitlen \<bar>n\<bar> - 53)"
      using False le by (simp add: mk_double_int_def sc mk_double_def abs_mult mult_less_0_iff)
    then show ?thesis using le by (auto simp: holds_int_def)
  qed
qed

lemma holds_int_of_int: "\<bar>n\<bar> < 2 ^ 53 \<Longrightarrow> holds_int (d_of_int n) n"
  using mk_double_int_exact[of n 0 False] by (simp add: d_of_int_def)

lemma holds_int_neg: "holds_int d n \<Longrightarrow> holds_int (dneg d) (- n)"
  by (auto simp: holds_int_def split: if_splits)

lemma holds_int_add:
  assumes "holds_int x a" "holds_int y b" "\<bar>a + b\<bar> < 2 ^ 53"
  shows "holds_int (dadd x y) (a + b)"
proof -
  obtain s m e where x: "x = Fin s m e" "e \<le> 0" "(if s then - m else m) = a * 2 ^ nat (- e)"
    using assms(1) by (auto simp: holds_int_def)
  obtain t k f where y: "y = Fin t k f" "f \<le> 0" "(if t then - k else k) = b * 2 ^ nat (- f)"
    using assms(2) by (auto simp: holds_int_def)
  let ?e = "min e f"
  have "units s m e ?e + units t k f ?e = (a + b) * 2 ^ nat (- ?e)"
    using holds_int_units[OF x(3) _ x(2), of ?e] holds_int_units[OF y(3) _ y(2), of ?e]
    by (simp add: distrib_right)
  then show ?thesis
    using mk_double_int_exact[OF assms(3), of ?e "s \<and> t"] x y by (simp add: Let_def)
qed

lemma holds_int_sub:
  assumes "holds_int x a" "holds_int y b" "\<bar>a - b\<bar> < 2 ^ 53"
  shows "holds_int (dsub x y) (a - b)"
  using holds_int_add[OF assms(1) holds_int_neg[OF assms(2)]] assms(3) by (simp add: dsub_def)

lemma holds_int_less:
  assumes "holds_int x a" "holds_int y b"
  shows "dless x y \<longleftrightarrow> a < b" "deq x y \<longleftrightarrow> a = b"
proof -
  obtain s m e where x: "x = Fin s m e" "e \<le> 0" "(if s then - m else m) = a * 2 ^ nat (- e)"
    using assms(1) by (auto simp: holds_int_def)
  obtain t k f where y: "y = Fin t k f" "f \<le> 0" "(if t then - k else k) = b * 2 ^ nat (- f)"
    using assms(2) by (auto simp: holds_int_def)
  let ?e = "min e f"
  have "units s m e ?e = a * 2 ^ nat (- ?e)" "units t k f ?e = b * 2 ^ nat (- ?e)"
    using holds_int_units[OF x(3) _ x(2), of ?e] holds_int_units[OF y(3) _ y(2), of ?e] by simp_all
  then show "dless x y \<longleftrightarrow> a < b" "deq x y \<longleftrightarrow> a = b" using x y by (simp_all add: Let_def)
qed

lemma holds_int_mult:
  assumes "holds_int x a" "holds_int y b"
  obtains zs e where "e \<le> 0" "dmul x y = mk_double_int zs (a * b * 2 ^ nat (- e)) e"
proof -
  obtain s m e where x: "x = Fin s m e" "e \<le> 0" "(if s then - m else m) = a * 2 ^ nat (- e)"
    using assms(1) by (auto simp: holds_int_def)
  obtain t k f where y: "y = Fin t k f" "f \<le> 0" "(if t then - k else k) = b * 2 ^ nat (- f)"
    using assms(2) by (auto simp: holds_int_def)
  have u: "units s m 0 0 = a * 2 ^ nat (- e)" "units t k 0 0 = b * 2 ^ nat (- f)"
    using x(3) y(3) by (auto simp: units_def)
  have "nat (- (e + f)) = nat (- e) + nat (- f)" using x(2) y(2) by linarith
  then have "units s m 0 0 * units t k 0 0 = a * b * 2 ^ nat (- (e + f))"
    unfolding u by (simp add: power_add)
  then have "dmul x y = mk_double_int (s \<noteq> t) (a * b * 2 ^ nat (- (e + f))) (e + f)"
    by (simp add: x(1) y(1))
  then show ?thesis using x(2) y(2) by (intro that[of "e + f"]) auto
qed

text \<open>A product is compared correctly with an integer below \<open>2 ^ 52\<close>, also when it is rounded.\<close>

lemma holds_int_mult_less:
  assumes "holds_int x a" "holds_int y b" "holds_int z c" "\<bar>c\<bar> < 2 ^ 52"
  shows "dless z (dmul x y) \<longleftrightarrow> c < a * b"
proof -
  obtain zs e where p: "e \<le> 0" "dmul x y = mk_double_int zs (a * b * 2 ^ nat (- e)) e"
    by (rule holds_int_mult[OF assms(1,2)])
  show ?thesis
  proof (cases "\<bar>a * b\<bar> < 2 ^ 53")
    case True
    show ?thesis unfolding p(2) by (rule holds_int_less(1)[OF assms(3) mk_double_int_exact[OF True p(1)]])
  next
    case False
    obtain s m f where z: "z = Fin s m f" "f \<le> 0" "(if s then - m else m) = c * 2 ^ nat (- f)"
      using assms(3) by (auto simp: holds_int_def)
    have sc: "scale_frac (- e) 1 1 = (1, 2 ^ nat (- e))" using p(1) by (auto simp: scale_frac_def)
    define N where "N = a * b"
    have ne: "N \<noteq> 0" using False by (auto simp: N_def)
    define r where "r = round_frac (\<bar>N\<bar> * 2 ^ nat (- e)) (2 ^ nat (- e))"
    have r: "2 ^ 52 \<le> fst r" "1 \<le> snd r" using round_frac_big[of "\<bar>N\<bar>"] False by (auto simp: r_def N_def)
    have mk: "dmul x y = (if snd r > 971 then Inf (N < 0) else Fin (N < 0) (fst r) (snd r))"
      using ne by (cases r) (simp add: p(2) N_def[symmetric] mk_double_int_def sc mk_double_def r_def Let_def abs_mult
          mult_less_0_iff)
    have c: "c < N \<longleftrightarrow> \<not> N < 0" using assms(4) False by (auto simp: N_def)
    show ?thesis
    proof (cases "snd r > 971")
      case True
      then show ?thesis using z c by (simp add: mk N_def)
    next
      case False
      let ?k = "nat (snd r - f)"
      have k: "nat (- f) \<le> ?k" using r(2) z(2) by linarith
      have min: "min f (snd r) = f" using r(2) z(2) by simp
      have u: "units s m f f = c * 2 ^ nat (- f)" using holds_int_units[OF z(3) _ z(2), of f] by simp
      have "\<bar>c\<bar> * 2 ^ nat (- f) < 2 ^ 52 * 2 ^ nat (- f)" using assms(4) by simp
      also have "\<dots> \<le> 2 ^ 52 * 2 ^ ?k" using k by (intro mult_left_mono power_increasing) auto
      also have "\<dots> \<le> fst r * 2 ^ ?k" using r(1) by (intro mult_right_mono) auto
      finally have "\<bar>c * 2 ^ nat (- f)\<bar> < fst r * 2 ^ ?k" by (simp add: abs_mult)
      moreover have "dless z (dmul x y) \<longleftrightarrow> c * 2 ^ nat (- f) < units (N < 0) (fst r) (snd r) f"
        using z(1) False by (simp add: mk min u Let_def)
      moreover have "units (N < 0) (fst r) (snd r) f = (if N < 0 then - 1 else 1) * (fst r * 2 ^ ?k)"
        by (simp add: units_def)
      ultimately show ?thesis using c by (auto simp: N_def)
    qed
  qed
qed

end
