(* ===== verification/Php_Values.thy ===== *)
theory Php_Values
  imports Php_Array Php_Double
begin

text \<open>
  The values of the interpreter (\<^verbatim>\<open>pval\<close> of \<^verbatim>\<open>php.h\<close>) and the conversions of \<^verbatim>\<open>operators.c\<close>.
  A \<^verbatim>\<open>long\<close> is a 32 bit word read with \<open>sint\<close>; arrays and objects hold their table as the
  abstract array that \<open>Php_Array\<close> proves the hash table to implement. Strings are their
  \<^verbatim>\<open>str.len\<close> bytes. A user function holds the offset of its token, an internal one its index.

  A conversion replaces the value in place in C; here it returns the new value. \<open>None\<close> is the
  undefined cast of a double that does not fit. The error messages are not modelled.
\<close>

datatype pval =
    IS_LONG (lval: ulong)
  | IS_DOUBLE (dval: double)
  | IS_STRING (str: string)
  | IS_ARRAY "pval parray"
  | IS_OBJECT "pval parray"
  | IS_CLASS "pval parray"
  | IS_USER_FUNCTION int
  | IS_INTERNAL_FUNCTION int
  | IS_NULL

abbreviation long :: "int \<Rightarrow> pval" where
  "long n \<equiv> IS_LONG (word_of_int n)"

definition var_reset :: pval where
  "var_reset = IS_STRING []"

fun is_hash :: "pval \<Rightarrow> bool" where
  "is_hash (IS_ARRAY _) = True"
| "is_hash (IS_OBJECT _) = True"
| "is_hash _ = False"

text \<open>The result of \<^verbatim>\<open>is_numeric_string\<close>, with the number it stores (built without BC math).\<close>

datatype numeric = Not_numeric | Numeric_long ulong | Numeric_double double

definition is_numeric_string :: "string \<Rightarrow> numeric" where
  "is_numeric_string s =
     (if s = [] then Not_numeric
      else (case strtol 10 s of (n, e, erange) \<Rightarrow>
        if \<not> erange \<and> e = length s then Numeric_long (word_of_int n)
        else (case strtod s of (d, e', erange') \<Rightarrow>
          if \<not> erange' \<and> e' = length s then Numeric_double d
          else Not_numeric)))"

definition string_to_long :: "nat \<Rightarrow> string \<Rightarrow> ulong" where
  "string_to_long base s = word_of_int (fst (strtol base s))"

fun convert_string_to_number :: "pval \<Rightarrow> pval" where
  "convert_string_to_number (IS_STRING s) =
     (case is_numeric_string s of
        Numeric_long n \<Rightarrow> IS_LONG n
      | Numeric_double d \<Rightarrow> IS_DOUBLE d
      | Not_numeric \<Rightarrow> IS_LONG (string_to_long 10 s))"
| "convert_string_to_number v = v"

fun convert_double_to_long :: "pval \<Rightarrow> pval option" where
  "convert_double_to_long (IS_DOUBLE d) = map_option IS_LONG (d_to_long d)"
| "convert_double_to_long v = Some v"

fun convert_to_long_base :: "pval \<Rightarrow> nat \<Rightarrow> pval option" where
  "convert_to_long_base (IS_LONG n) base = Some (IS_LONG n)"
| "convert_to_long_base (IS_DOUBLE d) base = map_option IS_LONG (d_to_long d)"
| "convert_to_long_base (IS_STRING s) base = Some (IS_LONG (string_to_long base s))"
| "convert_to_long_base (IS_ARRAY a) base = Some (IS_LONG (if arr_size a \<noteq> 0 then 1 else 0))"
| "convert_to_long_base (IS_OBJECT a) base = Some (IS_LONG (if arr_size a \<noteq> 0 then 1 else 0))"
| "convert_to_long_base _ base = Some (IS_LONG 0)"

definition convert_to_long :: "pval \<Rightarrow> pval option" where
  "convert_to_long v = convert_to_long_base v 10"

fun convert_to_double :: "pval \<Rightarrow> pval" where
  "convert_to_double (IS_LONG n) = IS_DOUBLE (d_of_int (sint n))"
| "convert_to_double (IS_DOUBLE d) = IS_DOUBLE d"
| "convert_to_double (IS_STRING s) = IS_DOUBLE (fst (strtod s))"
| "convert_to_double (IS_ARRAY a) = IS_DOUBLE (d_of_int (if arr_size a \<noteq> 0 then 1 else 0))"
| "convert_to_double (IS_OBJECT a) = IS_DOUBLE (d_of_int (if arr_size a \<noteq> 0 then 1 else 0))"
| "convert_to_double _ = IS_DOUBLE (d_of_int 0)"

fun convert_to_boolean_long :: "pval \<Rightarrow> pval" where
  "convert_to_boolean_long (IS_LONG n) = IS_LONG n"
| "convert_to_boolean_long (IS_DOUBLE d) = IS_LONG (if dtrue d then 1 else 0)"
| "convert_to_boolean_long (IS_STRING s) = IS_LONG (if s = [] \<or> s = ''0'' then 0 else 1)"
| "convert_to_boolean_long (IS_ARRAY a) = IS_LONG (if arr_size a \<noteq> 0 then 1 else 0)"
| "convert_to_boolean_long (IS_OBJECT a) = IS_LONG (if arr_size a \<noteq> 0 then 1 else 0)"
| "convert_to_boolean_long _ = IS_LONG 0"

text \<open>\<open>precision\<close> is \<^verbatim>\<open>php3_ini.precision\<close>, 14 unless configured.\<close>

fun convert_to_string :: "nat \<Rightarrow> pval \<Rightarrow> pval" where
  "convert_to_string precision (IS_STRING s) = IS_STRING s"
| "convert_to_string precision (IS_LONG n) = IS_STRING (dec_of_int (sint n))"
| "convert_to_string precision (IS_DOUBLE d) = IS_STRING (format_G precision d)"
| "convert_to_string precision (IS_ARRAY a) = IS_STRING ''Array''"
| "convert_to_string precision (IS_OBJECT a) = IS_STRING ''Object''"
| "convert_to_string precision _ = var_reset"

definition scalar_to_array :: "pval \<Rightarrow> pval" where
  "scalar_to_array v = IS_ARRAY (arr_update arr_empty (IntKey 0) v)"

definition scalar_to_object :: "pval \<Rightarrow> pval" where
  "scalar_to_object v = IS_OBJECT (arr_update arr_empty (arr_key ''scalar'') v)"

fun convert_to_array :: "pval \<Rightarrow> pval" where
  "convert_to_array (IS_ARRAY a) = IS_ARRAY a"
| "convert_to_array (IS_OBJECT a) = IS_ARRAY a"
| "convert_to_array v = scalar_to_array v"

fun convert_to_object :: "pval \<Rightarrow> pval" where
  "convert_to_object (IS_ARRAY a) = IS_OBJECT a"
| "convert_to_object (IS_OBJECT a) = IS_OBJECT a"
| "convert_to_object v = scalar_to_object v"

definition pval_is_true :: "pval \<Rightarrow> bool" where
  "pval_is_true v = (lval (convert_to_boolean_long v) \<noteq> 0)"

subsection \<open>Strings\<close>

definition php3_str_tolower :: "string \<Rightarrow> string" where
  "php3_str_tolower s = map to_lower s"

text \<open>
  \<^verbatim>\<open>memcmp\<close>: the difference of the first bytes that differ (C fixes its sign only).
\<close>

fun memcmp :: "string \<Rightarrow> string \<Rightarrow> nat \<Rightarrow> int" where
  "memcmp (a # as) (b # bs) (Suc n) =
     (if a = b then memcmp as bs n else int (byte_of a) - int (byte_of b))"
| "memcmp _ _ _ = 0"

definition php3_binary_strcmp :: "string \<Rightarrow> string \<Rightarrow> int" where
  "php3_binary_strcmp s1 s2 =
     (let r = memcmp s1 s2 (min (length s1) (length s2))
      in if r = 0 then int (length s1) - int (length s2) else r)"

fun strcasecmp_loop :: "string \<Rightarrow> string \<Rightarrow> int" where
  "strcasecmp_loop (a # as) (b # bs) =
     (if to_lower a \<noteq> to_lower b \<or> as = [] \<or> bs = []
      then int (byte_of (to_lower a)) - int (byte_of (to_lower b))
      else strcasecmp_loop as bs)"
| "strcasecmp_loop _ _ = 0"

definition php3_binary_strcasecmp :: "string \<Rightarrow> string \<Rightarrow> int" where
  "php3_binary_strcasecmp s1 s2 =
     (if length s1 \<noteq> length s2 \<or> s1 = [] then int (length s1) - int (length s2)
      else strcasecmp_loop s1 s2)"

text \<open>The byte-wise lexicographic order the comparison implements.\<close>

fun bytes_less :: "string \<Rightarrow> string \<Rightarrow> bool" where
  "bytes_less _ [] = False"
| "bytes_less [] (b # bs) = True"
| "bytes_less (a # as) (b # bs) = (byte_of a < byte_of b \<or> a = b \<and> bytes_less as bs)"

lemma binary_strcmp_Cons:
  "php3_binary_strcmp (a # as) (b # bs) =
     (if a = b then php3_binary_strcmp as bs else int (byte_of a) - int (byte_of b))"
  by (simp add: php3_binary_strcmp_def Let_def) 

lemma binary_strcmp_sign:
  "(php3_binary_strcmp s t < 0 \<longleftrightarrow> bytes_less s t) \<and> (php3_binary_strcmp s t = 0 \<longleftrightarrow> s = t) \<and>
   (php3_binary_strcmp s t > 0 \<longleftrightarrow> bytes_less t s)"
proof (induction s t rule: bytes_less.induct)
  case (1 s)
  then show ?case by (cases s) (auto simp: php3_binary_strcmp_def)
next
  case (2 b bs)
  then show ?case by (simp add: php3_binary_strcmp_def)
next
  case (3 a as b bs)
  show ?case
  proof (cases "a = b")
    case True
    then show ?thesis using 3 by (simp add: binary_strcmp_Cons)
  next
    case False
    moreover have "byte_of a \<noteq> byte_of b" using False by simp
    ultimately show ?thesis by (auto simp: binary_strcmp_Cons)
  qed
qed

lemma bytes_less_irrefl: "\<not> bytes_less s s"
  by (induction s) auto

lemma bytes_less_trans: "bytes_less s t \<Longrightarrow> bytes_less t u \<Longrightarrow> bytes_less s u"
proof (induction s t arbitrary: u rule: bytes_less.induct)
  case (2 b bs)
  then show ?case by (cases u) auto
next
  case (3 a as b bs)
  then show ?case by (cases u) auto
qed simp

lemma bytes_less_total: "s \<noteq> t \<Longrightarrow> bytes_less s t \<or> bytes_less t s"
  using binary_strcmp_sign[of s t] by linarith

lemma strcasecmp_loop_eq:
  "length s = length t \<Longrightarrow> strcasecmp_loop s t = 0 \<longleftrightarrow> map to_lower s = map to_lower t"
proof (induction s t rule: strcasecmp_loop.induct)
  case (1 a as b bs)
  then show ?case by auto
qed auto

lemma binary_strcasecmp_eq:
  "php3_binary_strcasecmp s t = 0 \<longleftrightarrow> php3_str_tolower s = php3_str_tolower t"
proof (cases "length s = length t")
  case True
  then show ?thesis by (auto simp: php3_binary_strcasecmp_def php3_str_tolower_def strcasecmp_loop_eq)
next
  case False
  then have "php3_str_tolower s \<noteq> php3_str_tolower t"
    unfolding php3_str_tolower_def by (metis length_map)
  then show ?thesis using False by (simp add: php3_binary_strcasecmp_def)
qed

end
