(* ===== verification/Php_Operators.thy ===== *)
theory Php_Operators
  imports Php_Values
begin

text \<open>
  The operators of \<^verbatim>\<open>operators.c\<close>. An operator returns its status and the value left in
  \<^verbatim>\<open>*result\<close>. Signed \<open>+\<close>, \<open>-\<close>, \<open>*\<close> and \<open>++\<close> wrap around; \<open>None\<close> is a computation C leaves
  undefined and the machine traps or the compiler does not fix: a cast of a double that does not
  fit, \<^verbatim>\<open>LONG_MIN / -1\<close>, \<^verbatim>\<open>LONG_MIN % -1\<close>, a shift by a negative count or by 32 and more.
  \<open>precision\<close> is the setting used to print doubles. The notice about \<open>+\<close> on string operands and
  the other messages are not modelled.
\<close>

unbundle bit_operations_syntax

type_synonym op_result = "status \<times> pval"

abbreviation fails :: op_result where
  "fails \<equiv> (FAILURE, var_reset)"

subsection \<open>Arithmetic\<close>

definition long_max_d :: double where
  "long_max_d = d_of_int LONG_MAX"

definition long_min_d :: double where
  "long_min_d = d_of_int LONG_MIN"

definition l2d :: "ulong \<Rightarrow> double" where
  "l2d n = d_of_int (sint n)"

text \<open>\<^verbatim>\<open>_php3_hash_merge\<close> on the abstract arrays: the entries of the second that are new.\<close>

definition arr_merge :: "pval parray \<Rightarrow> pval parray \<Rightarrow> pval parray" where
  "arr_merge a b =
     PArr (ents a @ filter (\<lambda>e. fst e \<notin> fst ` set (ents a)) (ents b))
       (fold (\<lambda>e. bump_next (fst e)) (filter (\<lambda>e. fst e \<notin> fst ` set (ents a)) (ents b)) (next_free a))"

definition add_numbers :: "pval \<Rightarrow> pval \<Rightarrow> op_result" where
  "add_numbers op1 op2 =
     (case (op1, op2) of
        (IS_LONG a, IS_LONG b) \<Rightarrow>
          (let d = dadd (l2d a) (l2d b) in
           if dless long_max_d d then (SUCCESS, IS_DOUBLE d) else (SUCCESS, IS_LONG (a + b)))
      | (IS_DOUBLE a, IS_LONG b) \<Rightarrow> (SUCCESS, IS_DOUBLE (dadd a (l2d b)))
      | (IS_LONG a, IS_DOUBLE b) \<Rightarrow> (SUCCESS, IS_DOUBLE (dadd (l2d a) b))
      | (IS_DOUBLE a, IS_DOUBLE b) \<Rightarrow> (SUCCESS, IS_DOUBLE (dadd a b))
      | _ \<Rightarrow> fails)"

definition add_function :: "pval \<Rightarrow> pval \<Rightarrow> op_result" where
  "add_function op1 op2 =
     (case (op1, op2) of
        (IS_ARRAY a, IS_ARRAY b) \<Rightarrow> (SUCCESS, IS_ARRAY (arr_merge a b))
      | _ \<Rightarrow> add_numbers (convert_string_to_number op1) (convert_string_to_number op2))"

definition sub_function :: "pval \<Rightarrow> pval \<Rightarrow> op_result" where
  "sub_function op1 op2 =
     (case (convert_string_to_number op1, convert_string_to_number op2) of
        (IS_LONG a, IS_LONG b) \<Rightarrow>
          (let d = dsub (l2d a) (l2d b) in
           if dless d long_min_d then (SUCCESS, IS_DOUBLE d) else (SUCCESS, IS_LONG (a - b)))
      | (IS_DOUBLE a, IS_LONG b) \<Rightarrow> (SUCCESS, IS_DOUBLE (dsub a (l2d b)))
      | (IS_LONG a, IS_DOUBLE b) \<Rightarrow> (SUCCESS, IS_DOUBLE (dsub (l2d a) b))
      | (IS_DOUBLE a, IS_DOUBLE b) \<Rightarrow> (SUCCESS, IS_DOUBLE (dsub a b))
      | _ \<Rightarrow> fails)"

definition mul_function :: "pval \<Rightarrow> pval \<Rightarrow> op_result" where
  "mul_function op1 op2 =
     (case (convert_string_to_number op1, convert_string_to_number op2) of
        (IS_LONG a, IS_LONG b) \<Rightarrow>
          (let d = dmul (l2d a) (l2d b) in
           if dless long_max_d d then (SUCCESS, IS_DOUBLE d) else (SUCCESS, IS_LONG (a * b)))
      | (IS_DOUBLE a, IS_LONG b) \<Rightarrow> (SUCCESS, IS_DOUBLE (dmul a (l2d b)))
      | (IS_LONG a, IS_DOUBLE b) \<Rightarrow> (SUCCESS, IS_DOUBLE (dmul (l2d a) b))
      | (IS_DOUBLE a, IS_DOUBLE b) \<Rightarrow> (SUCCESS, IS_DOUBLE (dmul a b))
      | _ \<Rightarrow> fails)"

text \<open>C's truncating division and remainder.\<close>

definition c_div :: "int \<Rightarrow> int \<Rightarrow> int" where
  "c_div a b = sgn a * sgn b * (\<bar>a\<bar> div \<bar>b\<bar>)"

definition c_mod :: "int \<Rightarrow> int \<Rightarrow> int" where
  "c_mod a b = sgn a * (\<bar>a\<bar> mod \<bar>b\<bar>)"

fun is_zero :: "pval \<Rightarrow> bool" where
  "is_zero (IS_LONG n) = (n = 0)"
| "is_zero (IS_DOUBLE d) = deq d dzero"
| "is_zero _ = False"

definition div_longs :: "ulong \<Rightarrow> ulong \<Rightarrow> op_result option" where
  "div_longs a b =
     (if sint a = LONG_MIN \<and> sint b = - 1 then None
      else if c_mod (sint a) (sint b) = 0
      then Some (SUCCESS, long (c_div (sint a) (sint b)))
      else Some (SUCCESS, IS_DOUBLE (ddiv (l2d a) (l2d b))))"

definition div_function :: "pval \<Rightarrow> pval \<Rightarrow> op_result option" where
  "div_function op1 op2 =
     (let v1 = convert_string_to_number op1; v2 = convert_string_to_number op2 in
      if is_zero v2 then Some fails
      else (case (v1, v2) of
              (IS_LONG a, IS_LONG b) \<Rightarrow> div_longs a b
            | (IS_DOUBLE a, IS_LONG b) \<Rightarrow> Some (SUCCESS, IS_DOUBLE (ddiv a (l2d b)))
            | (IS_LONG a, IS_DOUBLE b) \<Rightarrow> Some (SUCCESS, IS_DOUBLE (ddiv (l2d a) b))
            | (IS_DOUBLE a, IS_DOUBLE b) \<Rightarrow> Some (SUCCESS, IS_DOUBLE (ddiv a b))
            | _ \<Rightarrow> Some fails))"

definition mod_function :: "pval \<Rightarrow> pval \<Rightarrow> op_result option" where
  "mod_function op1 op2 = do {
     v1 \<leftarrow> convert_to_long op1;
     v2 \<leftarrow> convert_to_long op2;
     (if lval v2 = 0 then Some fails
      else if sint (lval v1) = LONG_MIN \<and> sint (lval v2) = - 1 then None
      else Some (SUCCESS, long (c_mod (sint (lval v1)) (sint (lval v2)))))
   }"

subsection \<open>Boolean operators\<close>

definition boolean_or_function :: "pval \<Rightarrow> pval \<Rightarrow> op_result" where
  "boolean_or_function op1 op2 =
     (if lval (convert_to_boolean_long op1) \<noteq> 0 then (SUCCESS, IS_LONG 1)
      else if lval (convert_to_boolean_long op2) \<noteq> 0 then (SUCCESS, IS_LONG 1)
      else (SUCCESS, IS_LONG 0))"

definition boolean_and_function :: "pval \<Rightarrow> pval \<Rightarrow> op_result" where
  "boolean_and_function op1 op2 =
     (if lval (convert_to_boolean_long op1) = 0 then (SUCCESS, IS_LONG 0)
      else if lval (convert_to_boolean_long op2) = 0 then (SUCCESS, IS_LONG 0)
      else (SUCCESS, IS_LONG 1))"

definition boolean_xor_function :: "pval \<Rightarrow> pval \<Rightarrow> op_result" where
  "boolean_xor_function op1 op2 =
     (SUCCESS, IS_LONG (lval (convert_to_boolean_long op1) XOR lval (convert_to_boolean_long op2)))"

definition boolean_not_function :: "pval \<Rightarrow> op_result" where
  "boolean_not_function op1 =
     (SUCCESS, IS_LONG (if lval (convert_to_boolean_long op1) = 0 then 1 else 0))"

subsection \<open>Bitwise operators\<close>

definition char_op :: "(nat \<Rightarrow> nat \<Rightarrow> nat) \<Rightarrow> char \<Rightarrow> char \<Rightarrow> char" where
  "char_op f a b = chr (f (byte_of a) (byte_of b))"

definition bitwise_not_function :: "pval \<Rightarrow> op_result option" where
  "bitwise_not_function op1 = do {
     v \<leftarrow> convert_double_to_long op1;
     (case v of
        IS_LONG n \<Rightarrow> Some (SUCCESS, IS_LONG (NOT n))
      | IS_STRING s \<Rightarrow> Some (SUCCESS, IS_STRING (map (\<lambda>c. chr (255 - byte_of c)) s))
      | _ \<Rightarrow> Some fails)
   }"

text \<open>The result has the length of the longer string for \<^verbatim>\<open>|\<close>, of the shorter for \<^verbatim>\<open>&\<close> and \<^verbatim>\<open>^\<close>.\<close>

definition string_or :: "string \<Rightarrow> string \<Rightarrow> string" where
  "string_or s t =
     (let (longer, shorter) = (if length s \<ge> length t then (s, t) else (t, s))
      in map2 (char_op (OR)) longer shorter @ drop (length shorter) longer)"

definition string_and :: "string \<Rightarrow> string \<Rightarrow> string" where
  "string_and s t =
     (let (longer, shorter) = (if length s \<ge> length t then (s, t) else (t, s))
      in map2 (char_op (AND)) shorter longer)"

definition string_xor :: "string \<Rightarrow> string \<Rightarrow> string" where
  "string_xor s t =
     (let (longer, shorter) = (if length s \<ge> length t then (s, t) else (t, s))
      in map2 (char_op (XOR)) shorter longer)"

definition bitwise_function ::
    "(string \<Rightarrow> string \<Rightarrow> string) \<Rightarrow> (ulong \<Rightarrow> ulong \<Rightarrow> ulong) \<Rightarrow> pval \<Rightarrow> pval \<Rightarrow> op_result option" where
  "bitwise_function sop lop op1 op2 =
     (case (op1, op2) of
        (IS_STRING s, IS_STRING t) \<Rightarrow> Some (SUCCESS, IS_STRING (sop s t))
      | _ \<Rightarrow> do {
          v1 \<leftarrow> convert_to_long op1;
          v2 \<leftarrow> convert_to_long op2;
          Some (SUCCESS, IS_LONG (lop (lval v1) (lval v2)))
        })"

definition bitwise_or_function :: "pval \<Rightarrow> pval \<Rightarrow> op_result option" where
  "bitwise_or_function = bitwise_function string_or (OR)"

definition bitwise_and_function :: "pval \<Rightarrow> pval \<Rightarrow> op_result option" where
  "bitwise_and_function = bitwise_function string_and (AND)"

definition bitwise_xor_function :: "pval \<Rightarrow> pval \<Rightarrow> op_result option" where
  "bitwise_xor_function = bitwise_function string_xor (XOR)"

definition shift_function :: "(nat \<Rightarrow> ulong \<Rightarrow> ulong) \<Rightarrow> pval \<Rightarrow> pval \<Rightarrow> op_result option" where
  "shift_function sh op1 op2 = do {
     v1 \<leftarrow> convert_to_long op1;
     v2 \<leftarrow> convert_to_long op2;
     (if unat (lval v2) < 32 then Some (SUCCESS, IS_LONG (sh (unat (lval v2)) (lval v1))) else None)
   }"

definition shift_left_function :: "pval \<Rightarrow> pval \<Rightarrow> op_result option" where
  "shift_left_function = shift_function push_bit"

definition shift_right_function :: "pval \<Rightarrow> pval \<Rightarrow> op_result option" where
  "shift_right_function = shift_function signed_drop_bit"

subsection \<open>Strings\<close>

definition add_char_to_string :: "pval \<Rightarrow> char \<Rightarrow> op_result" where
  "add_char_to_string op1 c =
     (case op1 of IS_STRING s \<Rightarrow> (SUCCESS, IS_STRING (s @ [c])) | _ \<Rightarrow> fails)"

definition concat_function :: "nat \<Rightarrow> pval \<Rightarrow> pval \<Rightarrow> op_result" where
  "concat_function precision op1 op2 =
     (case (convert_to_string precision op1, convert_to_string precision op2) of
        (IS_STRING s, IS_STRING t) \<Rightarrow> (SUCCESS, IS_STRING (s @ t))
      | _ \<Rightarrow> fails)"

subsection \<open>Comparison\<close>

definition php3_smart_strcmp :: "string \<Rightarrow> string \<Rightarrow> pval" where
  "php3_smart_strcmp s1 s2 =
     (case (is_numeric_string s1, is_numeric_string s2) of
        (Numeric_long a, Numeric_long b) \<Rightarrow> IS_LONG (a - b)
      | (Numeric_double a, Numeric_double b) \<Rightarrow> IS_DOUBLE (dsub a b)
      | (Numeric_long _, Numeric_double b) \<Rightarrow> IS_DOUBLE (dsub (fst (strtod s1)) b)
      | (Numeric_double a, Numeric_long _) \<Rightarrow> IS_DOUBLE (dsub a (fst (strtod s2)))
      | _ \<Rightarrow> long (php3_binary_strcmp s1 s2))"

fun to_double :: "pval \<Rightarrow> double option" where
  "to_double (IS_LONG n) = Some (l2d n)"
| "to_double (IS_DOUBLE d) = Some d"
| "to_double _ = None"

definition compare_function :: "pval \<Rightarrow> pval \<Rightarrow> op_result" where
  "compare_function op1 op2 =
     (case (op1, op2) of
        (IS_STRING s, IS_STRING t) \<Rightarrow> (SUCCESS, php3_smart_strcmp s t)
      | _ \<Rightarrow>
          (let v1 = convert_string_to_number op1; v2 = convert_string_to_number op2 in
           case (v1, v2) of
             (IS_LONG a, IS_LONG b) \<Rightarrow> (SUCCESS, IS_LONG (a - b))
           | _ \<Rightarrow> (case (to_double v1, to_double v2) of
                      (Some a, Some b) \<Rightarrow> (SUCCESS, IS_DOUBLE (dsub a b))
                    | _ \<Rightarrow> fails)))"

definition bool_result :: "bool \<Rightarrow> op_result" where
  "bool_result b = (SUCCESS, IS_LONG (if b then 1 else 0))"

definition is_equal_function :: "pval \<Rightarrow> pval \<Rightarrow> op_result" where
  "is_equal_function op1 op2 =
     (case compare_function op1 op2 of
        (FAILURE, r) \<Rightarrow> (FAILURE, r)
      | (SUCCESS, r) \<Rightarrow> bool_result (lval (convert_to_boolean_long r) = 0))"

definition is_not_equal_function :: "pval \<Rightarrow> pval \<Rightarrow> op_result" where
  "is_not_equal_function op1 op2 =
     (case compare_function op1 op2 of
        (FAILURE, r) \<Rightarrow> (FAILURE, r)
      | (SUCCESS, r) \<Rightarrow> bool_result (lval (convert_to_boolean_long r) \<noteq> 0))"

text \<open>The four orderings test the sign of the comparison's result.\<close>

definition ordering :: "(int \<Rightarrow> bool) \<Rightarrow> (double \<Rightarrow> bool) \<Rightarrow> pval \<Rightarrow> pval \<Rightarrow> op_result" where
  "ordering ltest dtest op1 op2 =
     (case compare_function op1 op2 of
        (FAILURE, r) \<Rightarrow> (FAILURE, r)
      | (SUCCESS, IS_LONG n) \<Rightarrow> bool_result (ltest (sint n))
      | (SUCCESS, IS_DOUBLE d) \<Rightarrow> bool_result (dtest d)
      | _ \<Rightarrow> fails)"

definition is_smaller_function :: "pval \<Rightarrow> pval \<Rightarrow> op_result" where
  "is_smaller_function = ordering (\<lambda>n. n < 0) (\<lambda>d. dless d dzero)"

definition is_smaller_or_equal_function :: "pval \<Rightarrow> pval \<Rightarrow> op_result" where
  "is_smaller_or_equal_function = ordering (\<lambda>n. n \<le> 0) (\<lambda>d. dless d dzero \<or> deq d dzero)"

definition is_greater_function :: "pval \<Rightarrow> pval \<Rightarrow> op_result" where
  "is_greater_function = ordering (\<lambda>n. n > 0) (\<lambda>d. dless dzero d)"

definition is_greater_or_equal_function :: "pval \<Rightarrow> pval \<Rightarrow> op_result" where
  "is_greater_or_equal_function = ordering (\<lambda>n. n \<ge> 0) (\<lambda>d. dless dzero d \<or> deq d dzero)"

subsection \<open>Increment and decrement\<close>

datatype last_kind = NO_KIND | LOWER_CASE | UPPER_CASE | NUMERIC

text \<open>
  The loop of \<^verbatim>\<open>increment_string\<close> runs from the last byte to the first: here along the reversed
  string. It returns the changed string, the carry and the kind of the byte it changed last.
\<close>

fun increment_loop :: "string \<Rightarrow> bool \<Rightarrow> last_kind \<Rightarrow> string \<times> bool \<times> last_kind" where
  "increment_loop [] carry kind = ([], carry, kind)"
| "increment_loop (c # cs) carry kind =
     (if is_lower c then
        (if c = CHR ''z'' then apfst (Cons (CHR ''a'')) (increment_loop cs True LOWER_CASE)
         else (chr (byte_of c + 1) # cs, False, LOWER_CASE))
      else if is_upper c then
        (if c = CHR ''Z'' then apfst (Cons (CHR ''A'')) (increment_loop cs True UPPER_CASE)
         else (chr (byte_of c + 1) # cs, False, UPPER_CASE))
      else if is_digit c then
        (if c = CHR ''9'' then apfst (Cons (CHR ''0'')) (increment_loop cs True NUMERIC)
         else (chr (byte_of c + 1) # cs, False, NUMERIC))
      else (c # cs, False, kind))"

definition increment_string :: "string \<Rightarrow> string" where
  "increment_string s =
     (case increment_loop (rev s) False NO_KIND of
        (r, carry, kind) \<Rightarrow>
          if carry then
            (case kind of
               NUMERIC \<Rightarrow> CHR ''1'' # rev r
             | UPPER_CASE \<Rightarrow> CHR ''A'' # rev r
             | LOWER_CASE \<Rightarrow> CHR ''a'' # rev r
             | NO_KIND \<Rightarrow> rev r)
          else rev r)"

fun increment_function :: "pval \<Rightarrow> op_result" where
  "increment_function (IS_LONG n) = (SUCCESS, IS_LONG (n + 1))"
| "increment_function (IS_DOUBLE d) = (SUCCESS, IS_DOUBLE (dadd d (d_of_int 1)))"
| "increment_function (IS_STRING s) =
     (SUCCESS, if s = [] then IS_LONG 1 else IS_STRING (increment_string s))"
| "increment_function v = (FAILURE, v)"

fun decrement_function :: "pval \<Rightarrow> op_result" where
  "decrement_function (IS_LONG n) = (SUCCESS, IS_LONG (n - 1))"
| "decrement_function (IS_DOUBLE d) = (SUCCESS, IS_DOUBLE (dsub d (d_of_int 1)))"
| "decrement_function (IS_STRING s) =
     (SUCCESS,
      if s = [] then long (- 1)
      else (case is_numeric_string s of
              Numeric_long n \<Rightarrow> IS_LONG (n - 1)
            | _ \<Rightarrow> IS_STRING s))"
| "decrement_function v = (FAILURE, v)"

end
