(* ===== verification/Php_Arith.thy ===== *)
theory Php_Arith
  imports Php_Operators
begin

text \<open>
  What the operators compute: when the arithmetic on longs is exact, becomes a double or wraps
  around, when the comparisons agree with the order of the numbers, and what the string
  increment counts.
\<close>

subsection \<open>Longs\<close>

lemma sint_of_int: "sint (word_of_int n :: ulong) = (n + 2147483648) mod 4294967296 - 2147483648"
  by (simp add: signed_take_bit_eq_take_bit_shift take_bit_eq_mod sint_sbintrunc')

lemma sint_of_int_range: "LONG_MIN \<le> n \<Longrightarrow> n \<le> LONG_MAX \<Longrightarrow> sint (word_of_int n :: ulong) = n"
  by (simp add: sint_of_int LONG_MIN_def LONG_MAX_def)

lemma sint_range: "LONG_MIN \<le> sint (a :: ulong)" "sint (a :: ulong) \<le> LONG_MAX"
  using sint_ge[of a] sint_lt[of a] by (simp_all add: LONG_MIN_def LONG_MAX_def)

lemma word_of_sint: "(a :: ulong) = word_of_int (sint a)"
  by simp

lemma plus_words: "a + b = (word_of_int (sint a + sint b) :: ulong)"
  by (simp add: wi_hom_add[symmetric])

lemma minus_words: "a - b = (word_of_int (sint a - sint b) :: ulong)"
  by (simp add: wi_hom_sub[symmetric])

lemma times_words: "a * b = (word_of_int (sint a * sint b) :: ulong)"
  by (simp add: wi_hom_mult[symmetric])

lemma l2d_holds: "holds_int (l2d a) (sint a)"
  unfolding l2d_def
  by (rule holds_int_of_int) (use sint_range[of a] in \<open>simp add: LONG_MIN_def LONG_MAX_def abs_less_iff\<close>)

lemma long_max_holds: "holds_int long_max_d LONG_MAX"
  unfolding long_max_d_def by (rule holds_int_of_int) (simp add: LONG_MAX_def)

lemma long_min_holds: "holds_int long_min_d LONG_MIN"
  unfolding long_min_d_def by (rule holds_int_of_int) (simp add: LONG_MIN_def)

lemmas long_bounds = LONG_MIN_def LONG_MAX_def

lemma sint_sum_bounds:
  "\<bar>sint (a::ulong) + sint (b::ulong)\<bar> < 2 ^ 53" "\<bar>sint (a::ulong) - sint (b::ulong)\<bar> < 2 ^ 53"
  using sint_range[of a] sint_range[of b] by (auto simp: long_bounds abs_less_iff)

lemma sint_of_int_low:
  "2 * LONG_MIN \<le> n \<Longrightarrow> n < LONG_MIN \<Longrightarrow> sint (word_of_int n :: ulong) = n + 4294967296"
proof -
  assume *: "2 * LONG_MIN \<le> n" "n < LONG_MIN"
  have "(n + 2147483648) mod 4294967296 = (n + 2147483648 + 4294967296) mod 4294967296"
    by (simp only: mod_add_self2)
  also have "\<dots> = n + 2147483648 + 4294967296"
    by (rule mod_pos_pos_trivial) (use * in \<open>auto simp: long_bounds\<close>)
  finally show ?thesis by (simp add: sint_of_int)
qed

lemma sint_of_int_high:
  "LONG_MAX < n \<Longrightarrow> n \<le> 2 * LONG_MAX + 1 \<Longrightarrow> sint (word_of_int n :: ulong) = n - 4294967296"
proof -
  assume *: "LONG_MAX < n" "n \<le> 2 * LONG_MAX + 1"
  have "(n + 2147483648) mod 4294967296 = (n + 2147483648 - 4294967296) mod 4294967296"
    by (simp only: minus_mod_self2)
  also have "\<dots> = n + 2147483648 - 4294967296"
    by (rule mod_pos_pos_trivial) (use * in \<open>auto simp: long_bounds\<close>)
  finally show ?thesis by (simp add: sint_of_int)
qed

text \<open>Addition: exact or a double above \<^verbatim>\<open>LONG_MAX\<close>, but it wraps around below \<^verbatim>\<open>LONG_MIN\<close>.\<close>

lemma add_longs:
  "\<exists>r. add_function (IS_LONG a) (IS_LONG b) = (SUCCESS, r) \<and>
     (if LONG_MAX < sint a + sint b then \<exists>d. r = IS_DOUBLE d \<and> holds_int d (sint a + sint b)
      else if LONG_MIN \<le> sint a + sint b then r = long (sint a + sint b) \<and> sint (lval r) = sint a + sint b
      else r = IS_LONG (a + b) \<and> sint (a + b) = sint a + sint b + 2 ^ 32 \<and> 0 \<le> sint (a + b))"
proof -
  let ?n = "sint a + sint b"
  have h: "holds_int (dadd (l2d a) (l2d b)) ?n"
    by (rule holds_int_add[OF l2d_holds l2d_holds sint_sum_bounds(1)])
  have run: "add_function (IS_LONG a) (IS_LONG b) =
      (SUCCESS, if LONG_MAX < ?n then IS_DOUBLE (dadd (l2d a) (l2d b)) else IS_LONG (a + b))"
    by (simp add: add_function_def add_numbers_def Let_def holds_int_less(1)[OF long_max_holds h])
  consider "LONG_MAX < ?n" | "\<not> LONG_MAX < ?n" "LONG_MIN \<le> ?n" | "?n < LONG_MIN" by linarith
  then show ?thesis
  proof cases
    case 1
    then show ?thesis using run h by simp
  next
    case 2
    then have "sint (a + b) = ?n" using sint_of_int_range[of ?n] by (simp only: plus_words)
    then show ?thesis using run 2 by simp
  next
    case 3
    have lo: "2 * LONG_MIN \<le> ?n" using sint_range[of a] sint_range[of b] by linarith
    then have "sint (a + b) = ?n + 4294967296" using sint_of_int_low[OF lo 3] by (simp only: plus_words)
    then show ?thesis using run 3 lo by (auto simp: long_bounds)
  qed
qed

text \<open>Subtraction: a double below \<^verbatim>\<open>LONG_MIN\<close>, but it wraps around above \<^verbatim>\<open>LONG_MAX\<close>.\<close>

lemma sub_longs:
  "\<exists>r. sub_function (IS_LONG a) (IS_LONG b) = (SUCCESS, r) \<and>
     (if sint a - sint b < LONG_MIN then \<exists>d. r = IS_DOUBLE d \<and> holds_int d (sint a - sint b)
      else if sint a - sint b \<le> LONG_MAX then r = long (sint a - sint b) \<and> sint (lval r) = sint a - sint b
      else r = IS_LONG (a - b) \<and> sint (a - b) = sint a - sint b - 2 ^ 32 \<and> sint (a - b) < 0)"
proof -
  let ?n = "sint a - sint b"
  have h: "holds_int (dsub (l2d a) (l2d b)) ?n"
    by (rule holds_int_sub[OF l2d_holds l2d_holds sint_sum_bounds(2)])
  have run: "sub_function (IS_LONG a) (IS_LONG b) =
      (SUCCESS, if ?n < LONG_MIN then IS_DOUBLE (dsub (l2d a) (l2d b)) else IS_LONG (a - b))"
    by (simp add: sub_function_def Let_def holds_int_less(1)[OF h long_min_holds])
  consider "?n < LONG_MIN" | "\<not> ?n < LONG_MIN" "?n \<le> LONG_MAX" | "LONG_MAX < ?n" by linarith
  then show ?thesis
  proof cases
    case 1
    then show ?thesis using run h by simp
  next
    case 2
    then have "sint (a - b) = ?n" using sint_of_int_range[of ?n] by (simp only: minus_words)
    then show ?thesis using run 2 by simp
  next
    case 3
    have hi: "?n \<le> 2 * LONG_MAX + 1" using sint_range[of a] sint_range[of b] by (simp add: long_bounds)
    then have "sint (a - b) = ?n - 4294967296" using sint_of_int_high[OF 3 hi] by (simp only: minus_words)
    then show ?thesis using run 3 hi by (auto simp: long_bounds)
  qed
qed

text \<open>
  Multiplication: a double exactly when the product is above \<^verbatim>\<open>LONG_MAX\<close>; otherwise the product
  modulo \<open>2 ^ 32\<close>, which is the product when it is not below \<^verbatim>\<open>LONG_MIN\<close>.
\<close>

lemma mul_longs:
  "mul_function (IS_LONG a) (IS_LONG b) =
     (SUCCESS, if LONG_MAX < sint a * sint b then IS_DOUBLE (dmul (l2d a) (l2d b))
               else long (sint a * sint b))"
proof -
  have "dless long_max_d (dmul (l2d a) (l2d b)) \<longleftrightarrow> LONG_MAX < sint a * sint b"
    by (rule holds_int_mult_less[OF l2d_holds l2d_holds long_max_holds]) (simp add: LONG_MAX_def)
  then show ?thesis by (simp add: mul_function_def Let_def)
qed

lemma c_div_mod: "b \<noteq> 0 \<Longrightarrow> c_div a b * b + c_mod a b = a"
proof -
  assume "b \<noteq> 0"
  have "c_div a b * b = sgn a * ((\<bar>a\<bar> div \<bar>b\<bar>) * (sgn b * b))" unfolding c_div_def by (simp only: ac_simps)
  also have "sgn b * b = \<bar>b\<bar>" by (simp add: abs_sgn mult.commute)
  finally have "c_div a b * b + c_mod a b = sgn a * (\<bar>a\<bar> div \<bar>b\<bar> * \<bar>b\<bar> + \<bar>a\<bar> mod \<bar>b\<bar>)"
    by (simp only: c_mod_def distrib_left)
  also have "\<dots> = sgn a * \<bar>a\<bar>" by simp
  finally show ?thesis by (simp add: sgn_mult_abs)
qed

lemma c_mod_bound: "b \<noteq> 0 \<Longrightarrow> \<bar>c_mod a b\<bar> < \<bar>b\<bar>"
  by (auto simp: c_mod_def abs_mult sgn_if)

lemma c_div_range:
  assumes "b \<noteq> 0" "LONG_MIN \<le> a" "a \<le> LONG_MAX" "\<not> (a = LONG_MIN \<and> b = - 1)"
  shows "LONG_MIN \<le> c_div a b \<and> c_div a b \<le> LONG_MAX"
proof -
  have q: "0 \<le> \<bar>a\<bar> div \<bar>b\<bar>" using assms(1) by (simp add: pos_imp_zdiv_nonneg_iff)
  show ?thesis
  proof (cases "\<bar>b\<bar> = 1")
    case True
    then show ?thesis using assms by (auto simp: c_div_def sgn_if long_bounds abs_if split: if_splits)
  next
    case False
    then have "2 \<le> \<bar>b\<bar>" using assms(1) by linarith
    then have "\<bar>a\<bar> div \<bar>b\<bar> \<le> \<bar>a\<bar> div 2" by (intro zdiv_mono2) auto
    then have "\<bar>a\<bar> div \<bar>b\<bar> \<le> LONG_MAX" using assms(2,3) by (auto simp: long_bounds)
    then show ?thesis using q by (auto simp: c_div_def sgn_if long_bounds)
  qed
qed

text \<open>Division of longs: an exact long when the remainder is zero, a double otherwise.\<close>

lemma div_longs:
  assumes "sint b \<noteq> 0"
  shows "div_function (IS_LONG a) (IS_LONG b) =
           (if sint a = LONG_MIN \<and> sint b = - 1 then None
            else if sint b dvd sint a then Some (SUCCESS, long (sint a div sint b))
            else Some (SUCCESS, IS_DOUBLE (ddiv (l2d a) (l2d b))))"
proof -
  have nz: "b \<noteq> 0" using assms by auto
  have m: "c_mod (sint a) (sint b) = 0 \<longleftrightarrow> sint b dvd sint a"
    by (auto simp: c_mod_def sgn_if dvd_eq_mod_eq_0[symmetric])
  have d: "c_div (sint a) (sint b) = sint a div sint b" if "sint b dvd sint a"
  proof -
    have "c_div (sint a) (sint b) * sint b = sint a"
      using c_div_mod[OF assms, of "sint a"] m that by simp
    then show ?thesis using assms by (metis nonzero_mult_div_cancel_right)
  qed
  show ?thesis using nz m d by (simp add: div_function_def Php_Operators.div_longs_def)
qed

lemma mod_longs:
  assumes "sint b \<noteq> 0" "\<not> (sint a = LONG_MIN \<and> sint b = - 1)"
  shows "\<exists>r. mod_function (IS_LONG a) (IS_LONG b) = Some (SUCCESS, IS_LONG r) \<and>
           \<bar>sint r\<bar> < \<bar>sint b\<bar> \<and> (\<exists>q. sint a = q * sint b + sint r) \<and> (sint r = 0 \<or> sgn (sint r) = sgn (sint a))"
proof -
  let ?m = "c_mod (sint a) (sint b)"
  have b: "\<bar>?m\<bar> < \<bar>sint b\<bar>" by (rule c_mod_bound[OF assms(1)])
  have "sint (word_of_int ?m :: ulong) = ?m"
    by (rule sint_of_int_range) (use b sint_range[of b] in \<open>auto simp: long_bounds\<close>)
  moreover have "b \<noteq> 0" using assms(1) by auto
  then have "mod_function (IS_LONG a) (IS_LONG b) = Some (SUCCESS, long ?m)"
    using assms(2) by (simp add: mod_function_def convert_to_long_def)
  moreover have "sint a = c_div (sint a) (sint b) * sint b + ?m" using c_div_mod[OF assms(1)] by simp
  moreover have "?m = 0 \<or> sgn ?m = sgn (sint a)"
  proof (cases "\<bar>sint a\<bar> mod \<bar>sint b\<bar> = 0")
    case False
    moreover have "0 \<le> \<bar>sint a\<bar> mod \<bar>sint b\<bar>" using assms(1) by (intro pos_mod_sign) simp
    ultimately have "sgn (\<bar>sint a\<bar> mod \<bar>sint b\<bar>) = 1" by (simp only: sgn_1_pos)
    then show ?thesis by (simp add: c_mod_def sgn_mult)
  qed (simp add: c_mod_def)
  ultimately show ?thesis using b by (intro exI[of _ "word_of_int ?m"]) auto
qed

text \<open>
  The comparison of longs by the sign of their difference: right exactly when the difference
  does not overflow.
\<close>

lemma smaller_longs:
  "is_smaller_function (IS_LONG a) (IS_LONG b) =
     (SUCCESS, IS_LONG (if (sint a < sint b) = (LONG_MIN \<le> sint a - sint b \<and> sint a - sint b \<le> LONG_MAX)
                        then 1 else 0))"
proof -
  let ?n = "sint a - sint b"
  have run: "is_smaller_function (IS_LONG a) (IS_LONG b) = bool_result (sint (a - b) < 0)"
    by (simp add: is_smaller_function_def ordering_def compare_function_def)
  have dist: "\<not> sint a - sint b < 0 \<longleftrightarrow> sint b \<le> sint a" by linarith
  consider "?n < LONG_MIN" | "LONG_MIN \<le> ?n" "?n \<le> LONG_MAX" | "LONG_MAX < ?n" by linarith
  then show ?thesis
  proof cases
    case 1
    have "2 * LONG_MIN \<le> ?n" using sint_range[of a] sint_range[of b] by (simp add: long_bounds)
    from sint_of_int_low[OF this 1] have "sint (a - b) = ?n + 4294967296" by (simp only: minus_words)
    moreover have "0 \<le> ?n + 4294967296" using sint_range[of a] sint_range[of b] by (simp add: long_bounds)
    moreover have "sint a < sint b" using 1 by (simp add: long_bounds)
    ultimately show ?thesis using 1 unfolding run bool_result_def by simp
  next
    case 2
    then have "sint (a - b) = ?n" using sint_of_int_range[of ?n] by (simp only: minus_words)
    then show ?thesis using 2 unfolding run bool_result_def by simp
  next
    case 3
    have "?n \<le> 2 * LONG_MAX + 1" using sint_range[of a] sint_range[of b] by (simp add: long_bounds)
    from sint_of_int_high[OF 3 this] have "sint (a - b) = ?n - 4294967296" by (simp only: minus_words)
    moreover have "?n - 4294967296 < 0" using sint_range[of a] sint_range[of b] by (simp add: long_bounds)
    moreover have "\<not> sint a < sint b" using 3 by (simp add: long_bounds)
    ultimately show ?thesis using 3 unfolding run bool_result_def by simp
  qed
qed

lemma equal_longs:
  "is_equal_function (IS_LONG a) (IS_LONG b) = (SUCCESS, IS_LONG (if a = b then 1 else 0))"
  by (simp add: is_equal_function_def compare_function_def bool_result_def)


subsection \<open>The string increment counts\<close>

text \<open>
  The number a string stands for: decimal digits count from 0 in base 10, letters from 1 in
  base 26 (\<open>z\<close> is followed by \<open>aa\<close>).
\<close>

definition count_value :: "int \<Rightarrow> int \<Rightarrow> string \<Rightarrow> int" where
  "count_value base off s = foldl (\<lambda>n c. n * base + (int (byte_of c) - off)) 0 s"

fun rev_value :: "int \<Rightarrow> int \<Rightarrow> string \<Rightarrow> int" where
  "rev_value base off [] = 0"
| "rev_value base off (c # cs) = int (byte_of c) - off + base * rev_value base off cs"

lemma count_value_rev: "count_value base off (rev r) = rev_value base off r"
  by (induction r) (simp_all add: count_value_def)

lemma increment_loop_class:
  assumes small: "\<And>c cs y k. P c \<Longrightarrow> c \<noteq> mx \<Longrightarrow>
        increment_loop (c # cs) y k = (chr (byte_of c + 1) # cs, False, K) \<and>
        P (chr (byte_of c + 1)) \<and> byte_of c + 1 < 256"
    and big: "\<And>cs y k. increment_loop (mx # cs) y k = apfst (Cons mn) (increment_loop cs True K)"
    and lim: "P mn" "int (byte_of mx) + 1 = int (byte_of mn) + base"
  shows "\<forall>c \<in> set r. P c \<Longrightarrow> r \<noteq> [] \<or> y \<and> k = K \<Longrightarrow>
    \<exists>r' cy. increment_loop r y k = (r', cy, K) \<and> length r' = length r \<and> (\<forall>c \<in> set r'. P c) \<and>
      rev_value base off r' + (if cy then base ^ length r else 0) = rev_value base off r + 1"
proof (induction r arbitrary: y k)
  case Nil
  then show ?case by (auto intro: exI[of _ True])
next
  case (Cons c cs)
  show ?case
  proof (cases "c = mx")
    case False
    then have "increment_loop (c # cs) y k = (chr (byte_of c + 1) # cs, False, K)"
      "P (chr (byte_of c + 1))" "byte_of c + 1 < 256"
      using small[of c cs y k] Cons.prems(1) by auto
    then show ?thesis using Cons.prems(1)
      by (intro exI[of _ "chr (byte_of c + 1) # cs"] exI[of _ False]) (simp del: increment_loop.simps)
  next
    case True
    obtain r' cy where r': "increment_loop cs True K = (r', cy, K)" "length r' = length cs"
        "\<forall>c \<in> set r'. P c"
        "rev_value base off r' + (if cy then base ^ length cs else 0) = rev_value base off cs + 1"
      using Cons.IH[of True K] Cons.prems(1) by auto
    have "base * rev_value base off r' + (if cy then base ^ Suc (length cs) else 0) =
        base * (rev_value base off r' + (if cy then base ^ length cs else 0))"
      by (simp add: distrib_left)
    also have "\<dots> = base * rev_value base off cs + base" unfolding r'(4) by (simp add: distrib_left)
    finally have "int (byte_of mn) - off + base * rev_value base off r' + (if cy then base ^ Suc (length cs) else 0)
        = int (byte_of mx) - off + base * rev_value base off cs + 1"
      using lim(2) by linarith
    then show ?thesis using True r' big[of cs y k] lim(1)
      by (intro exI[of _ "mn # r'"] exI[of _ cy]) (cases cy; simp)
  qed
qed

lemma is_digit_not_letter: "is_digit c \<Longrightarrow> \<not> is_lower c \<and> \<not> is_upper c"
  by (simp add: c_library)

lemma is_upper_not_lower: "is_upper c \<Longrightarrow> \<not> is_lower c"
  by (simp add: c_library)

lemma increment_digits:
  "\<forall>c \<in> set r. is_digit c \<Longrightarrow> r \<noteq> [] \<Longrightarrow>
    \<exists>r' cy. increment_loop r y k = (r', cy, NUMERIC) \<and> length r' = length r \<and> (\<forall>c \<in> set r'. is_digit c) \<and>
      rev_value 10 48 r' + (if cy then 10 ^ length r else 0) = rev_value 10 48 r + 1"
proof (rule increment_loop_class[where mx = "CHR ''9''" and mn = "CHR ''0''"])
  fix c cs y k assume *: "is_digit c" "c \<noteq> CHR ''9''"
  then have "byte_of c \<noteq> byte_of (CHR ''9'')" by (simp only: byte_of_inject) simp
  then have "byte_of c < 57" using * by (simp add: is_digit_def byte_of_def)
  then show "increment_loop (c # cs) y k = (chr (byte_of c + 1) # cs, False, NUMERIC) \<and>
      is_digit (chr (byte_of c + 1)) \<and> byte_of c + 1 < 256"
    using * is_digit_not_letter[OF *(1)] by (simp add: is_digit_def)
qed (simp_all add: is_digit_def is_lower_def is_upper_def byte_of_def)

lemma increment_lower:
  "\<forall>c \<in> set r. is_lower c \<Longrightarrow> r \<noteq> [] \<Longrightarrow>
    \<exists>r' cy. increment_loop r y k = (r', cy, LOWER_CASE) \<and> length r' = length r \<and> (\<forall>c \<in> set r'. is_lower c) \<and>
      rev_value 26 96 r' + (if cy then 26 ^ length r else 0) = rev_value 26 96 r + 1"
proof (rule increment_loop_class[where mx = "CHR ''z''" and mn = "CHR ''a''"])
  fix c cs y k assume *: "is_lower c" "c \<noteq> CHR ''z''"
  then have "byte_of c \<noteq> byte_of (CHR ''z'')" by (simp only: byte_of_inject) simp
  then have "byte_of c < 122" using * by (simp add: is_lower_def byte_of_def)
  then show "increment_loop (c # cs) y k = (chr (byte_of c + 1) # cs, False, LOWER_CASE) \<and>
      is_lower (chr (byte_of c + 1)) \<and> byte_of c + 1 < 256"
    using * by (simp add: is_lower_def)
qed (simp_all add: is_lower_def byte_of_def)

lemma increment_upper:
  "\<forall>c \<in> set r. is_upper c \<Longrightarrow> r \<noteq> [] \<Longrightarrow>
    \<exists>r' cy. increment_loop r y k = (r', cy, UPPER_CASE) \<and> length r' = length r \<and> (\<forall>c \<in> set r'. is_upper c) \<and>
      rev_value 26 64 r' + (if cy then 26 ^ length r else 0) = rev_value 26 64 r + 1"
proof (rule increment_loop_class[where mx = "CHR ''Z''" and mn = "CHR ''A''"])
  fix c cs y k assume *: "is_upper c" "c \<noteq> CHR ''Z''"
  then have "byte_of c \<noteq> byte_of (CHR ''Z'')" by (simp only: byte_of_inject) simp
  then have "byte_of c < 90" using * by (simp add: is_upper_def byte_of_def)
  then show "increment_loop (c # cs) y k = (chr (byte_of c + 1) # cs, False, UPPER_CASE) \<and>
      is_upper (chr (byte_of c + 1)) \<and> byte_of c + 1 < 256"
    using * is_upper_not_lower[OF *(1)] by (simp add: is_upper_def)
qed (simp_all add: is_upper_def is_lower_def byte_of_def)

lemma rev_value_append:
  "rev_value base off (r @ s) = rev_value base off r + base ^ length r * rev_value base off s"
  by (induction r) (simp_all add: distrib_left mult.assoc)

text \<open>The carry out of the first byte is the digit that \<^verbatim>\<open>increment_string\<close> puts in front.\<close>

lemma increment_string_value:
  assumes loop: "increment_loop (rev s) False NO_KIND = (r', cy, K)" "length r' = length s"
    and val: "rev_value base off r' + (if cy then base ^ length s else 0) = rev_value base off (rev s) + 1"
    and K: "cy \<Longrightarrow> increment_string s = c # rev r'" "int (byte_of c) - off = 1"
  shows "count_value base off (increment_string s) = count_value base off s + 1"
proof -
  have s: "count_value base off s = rev_value base off (rev s)"
    using count_value_rev[of base off "rev s"] by simp
  show ?thesis
  proof (cases cy)
    case False
    then have "increment_string s = rev r'" using loop(1) by (simp add: increment_string_def)
    then show ?thesis using val False by (simp add: s count_value_rev)
  next
    case True
    have "count_value base off (c # rev r') = rev_value base off (r' @ [c])"
      using count_value_rev[of base off "r' @ [c]"] by simp
    then show ?thesis using val True K loop(2) by (simp add: s rev_value_append)
  qed
qed

lemma increment_string_counts:
  assumes "s \<noteq> []"
  shows "(\<forall>c \<in> set s. is_digit c) \<longrightarrow> count_value 10 48 (increment_string s) = count_value 10 48 s + 1"
    and "(\<forall>c \<in> set s. is_lower c) \<longrightarrow> count_value 26 96 (increment_string s) = count_value 26 96 s + 1"
    and "(\<forall>c \<in> set s. is_upper c) \<longrightarrow> count_value 26 64 (increment_string s) = count_value 26 64 s + 1"
proof -
  have ne: "rev s \<noteq> []" using assms by simp
  show "(\<forall>c \<in> set s. is_digit c) \<longrightarrow> count_value 10 48 (increment_string s) = count_value 10 48 s + 1"
  proof
    assume "\<forall>c \<in> set s. is_digit c"
    then obtain r' cy where r: "increment_loop (rev s) False NO_KIND = (r', cy, NUMERIC)" "length r' = length (rev s)"
      "rev_value 10 48 r' + (if cy then 10 ^ length (rev s) else 0) = rev_value 10 48 (rev s) + 1"
      using increment_digits[OF _ ne] by fastforce
    show "count_value 10 48 (increment_string s) = count_value 10 48 s + 1"
      by (rule increment_string_value[OF r(1), where c = "CHR ''1''"])
         (use r in \<open>auto simp: increment_string_def byte_of_def\<close>)
  qed
  show "(\<forall>c \<in> set s. is_lower c) \<longrightarrow> count_value 26 96 (increment_string s) = count_value 26 96 s + 1"
  proof
    assume "\<forall>c \<in> set s. is_lower c"
    then obtain r' cy where r: "increment_loop (rev s) False NO_KIND = (r', cy, LOWER_CASE)" "length r' = length (rev s)"
      "rev_value 26 96 r' + (if cy then 26 ^ length (rev s) else 0) = rev_value 26 96 (rev s) + 1"
      using increment_lower[OF _ ne] by fastforce
    show "count_value 26 96 (increment_string s) = count_value 26 96 s + 1"
      by (rule increment_string_value[OF r(1), where c = "CHR ''a''"])
         (use r in \<open>auto simp: increment_string_def byte_of_def\<close>)
  qed
  show "(\<forall>c \<in> set s. is_upper c) \<longrightarrow> count_value 26 64 (increment_string s) = count_value 26 64 s + 1"
  proof
    assume "\<forall>c \<in> set s. is_upper c"
    then obtain r' cy where r: "increment_loop (rev s) False NO_KIND = (r', cy, UPPER_CASE)" "length r' = length (rev s)"
      "rev_value 26 64 r' + (if cy then 26 ^ length (rev s) else 0) = rev_value 26 64 (rev s) + 1"
      using increment_upper[OF _ ne] by fastforce
    show "count_value 26 64 (increment_string s) = count_value 26 64 s + 1"
      by (rule increment_string_value[OF r(1), where c = "CHR ''A''"])
         (use r in \<open>auto simp: increment_string_def byte_of_def\<close>)
  qed
qed

end
