(* ===== verification/Php_Keys.thy ===== *)
theory Php_Keys
  imports Php_Arith
begin

text \<open>
  Numeric string keys: \<^verbatim>\<open>HANDLE_NUMERIC\<close> turns exactly the canonical decimal numbers below
  \<^verbatim>\<open>LONG_MAX\<close> into indexes. So two string keys never share an entry, and a key and an index share
  one exactly when the key is the decimal form of the index.
\<close>

definition dec_value :: "string \<Rightarrow> int" where
  "dec_value s = foldl (\<lambda>n c. n * 10 + (int (byte_of c) - 48)) 0 s"

lemma dec_value_snoc [simp]: "dec_value (s @ [c]) = dec_value s * 10 + (int (byte_of c) - 48)"
  by (simp add: dec_value_def)

lemma dec_value_Nil [simp]: "dec_value [] = 0"
  by (simp add: dec_value_def)

lemma is_digit_range: "is_digit c \<Longrightarrow> 48 \<le> int (byte_of c) \<and> int (byte_of c) \<le> 57"
  by (simp add: is_digit_def)

lemma dec_value_nonneg: "\<forall>c \<in> set s. is_digit c \<Longrightarrow> 0 \<le> dec_value s"
  by (induction s rule: rev_induct) (auto dest: is_digit_range)

lemma dec_digits_value: "0 \<le> n \<Longrightarrow> dec_value (dec_digits n) = n \<and> (\<forall>c \<in> set (dec_digits n). is_digit c)"
proof (induction n rule: dec_digits.induct)
  case (1 n)
  show ?case
  proof (cases "n < 10")
    case True
    then have "nat (48 + n) < 256" "48 \<le> nat (48 + n)" "nat (48 + n) \<le> 57" using 1 by linarith+
    then show ?thesis using True 1 by (subst (1 2) dec_digits.simps) (simp add: dec_value_def is_digit_def)
  next
    case False
    have "nat (48 + n mod 10) < 256" using pos_mod_bound[of 10 n] by simp
    then show ?thesis using False 1
      by (subst (1 2) dec_digits.simps) (auto simp: is_digit_def)
  qed
qed

lemma dec_digits_canonical:
  "\<forall>c \<in> set s. is_digit c \<Longrightarrow> s \<noteq> [] \<Longrightarrow> hd s \<noteq> CHR ''0'' \<or> length s = 1 \<Longrightarrow> dec_digits (dec_value s) = s"
proof (induction s rule: rev_induct)
  case (snoc c s)
  have c: "48 \<le> int (byte_of c)" "int (byte_of c) \<le> 57" using snoc.prems(1) is_digit_range by auto
  show ?case
  proof (cases "s = []")
    case True
    then show ?thesis using c by (simp add: dec_digits.simps dec_value_def nat_add_distrib)
  next
    case False
    then have hd: "hd s \<noteq> CHR ''0''" using snoc.prems(3) by simp
    have pos: "1 \<le> dec_value s"
    proof -
      obtain d r where s: "s = d # r" using False by (cases s) auto
      have "byte_of d \<noteq> byte_of (CHR ''0'')" using hd s by (simp only: byte_of_inject) simp
      then have d: "1 \<le> int (byte_of d) - 48" using snoc.prems(1) s by (auto simp: is_digit_def byte_of_def)
      have "\<forall>c \<in> set r. is_digit c \<Longrightarrow> 1 \<le> dec_value (d # r)"
      proof (induction r rule: rev_induct)
        case Nil
        then show ?case using d by (simp add: dec_value_def)
      next
        case (snoc x xs)
        then have "1 \<le> dec_value (d # xs)" "is_digit x" by auto
        moreover have "dec_value (d # xs @ [x]) = dec_value (d # xs) * 10 + (int (byte_of x) - 48)"
          using dec_value_snoc[of "d # xs" x] by simp
        ultimately show ?case using is_digit_range[of x] by linarith
      qed
      then show ?thesis using snoc.prems(1) s by simp
    qed
    define v where "v = dec_value (s @ [c])"
    have v: "v = dec_value s * 10 + (int (byte_of c) - 48)" by (simp add: v_def)
    have "v div 10 = dec_value s" "v mod 10 = int (byte_of c) - 48" unfolding v using c by auto
    moreover have "\<not> v < 10" using pos c v by linarith
    ultimately have "dec_digits v = dec_digits (dec_value s) @ [c]"
      by (subst dec_digits.simps) simp
    then show ?thesis using snoc.IH snoc.prems False hd by (simp add: v_def)
  qed
qed simp

lemma scan_digits_all:
  "\<forall>c \<in> set ds. is_digit c \<Longrightarrow>
   scan_digits 10 (ds @ [NUL]) acc n =
     (foldl (\<lambda>n c. n * 10 + (int (byte_of c) - 48)) acc ds, n + length ds)"
proof (induction ds arbitrary: acc n)
  case Nil
  then show ?case by (simp add: digit_val_def is_digit_def is_lower_def is_upper_def byte_of_def)
next
  case (Cons c ds)
  then have "digit_val c = Some (byte_of c - 48)" "byte_of c - 48 < 10"
    "int (byte_of c - 48) = int (byte_of c) - 48"
    by (auto simp: digit_val_def is_digit_def)
  then show ?case using Cons by simp
qed

lemma strtol_digits:
  assumes "\<forall>c \<in> set ds. is_digit c" "ds \<noteq> []"
  shows "fst (strtol 10 (ds @ [NUL])) = (if dec_value ds > LONG_MAX then LONG_MAX else dec_value ds)"
proof -
  obtain c cs where ds: "ds = c # cs" using assms(2) by (cases ds) auto
  have "is_digit c" using assms(1) ds by simp
  then have "48 \<le> byte_of c" "byte_of c \<le> 57" by (auto simp: is_digit_def)
  moreover have "byte_of CHR ''-'' = 45" "byte_of CHR ''+'' = 43" by (simp_all add: byte_of_def)
  ultimately have c: "\<not> is_space c" "c \<noteq> CHR ''-''" "c \<noteq> CHR ''+''"
    by (auto simp: is_space_def)
  have ws: "takeWhile is_space (ds @ [NUL]) = []" using c(1) ds by simp
  have sc: "scan_digits 10 (c # cs @ [NUL]) 0 0 = (dec_value ds, length ds)"
    using scan_digits_all[OF assms(1), of 0 0] by (simp add: dec_value_def ds)
  have hex: "(case c # cs @ [NUL] of z # x # d # _ \<Rightarrow>
                   (10 = (0::nat) \<or> 10 = (16::nat)) \<and> z = CHR ''0'' \<and> to_lower x = CHR ''x'' \<and>
                   (case digit_val d of Some v \<Rightarrow> v < 16 | None \<Rightarrow> False)
                 | _ \<Rightarrow> False) = False"
    by (simp split: list.split)
  have "0 \<le> dec_value ds" using dec_value_nonneg[OF assms(1)] .
  then have "\<not> dec_value ds < LONG_MIN" by (simp add: LONG_MIN_def)
  then show ?thesis using ds c ws sc hex by (simp add: strtol_def Let_def)
qed

lemma numeric_tail_iff: "numeric_tail s \<longleftrightarrow> (\<exists>ds. s = ds @ [NUL] \<and> (\<forall>c \<in> set ds. is_digit c))"
proof (induction s rule: numeric_tail.induct)
  case (3 c d cs)
  show ?case
  proof
    assume "numeric_tail (c # d # cs)"
    then obtain ds where "d # cs = ds @ [NUL]" "\<forall>x \<in> set ds. is_digit x" "is_digit c" using 3 by auto
    then show "\<exists>ds. c # d # cs = ds @ [NUL] \<and> (\<forall>c \<in> set ds. is_digit c)"
      by (intro exI[of _ "c # ds"]) auto
  next
    assume "\<exists>ds. c # d # cs = ds @ [NUL] \<and> (\<forall>c \<in> set ds. is_digit c)"
    then obtain ds where ds: "c # d # cs = ds @ [NUL]" "\<forall>c \<in> set ds. is_digit c" by blast
    then obtain e where e: "ds = c # e" "d # cs = e @ [NUL]" by (cases ds) auto
    have "numeric_tail (d # cs)" unfolding 3 using e ds(2) by auto
    moreover have "is_digit c" using e(1) ds(2) by simp
    ultimately show "numeric_tail (c # d # cs)" by simp
  qed
qed auto

lemma handle_numeric_iff:
  "handle_numeric key = Some i \<longleftrightarrow> sint i \<ge> 0 \<and> sint i < LONG_MAX \<and> key = dec_digits (sint i) @ [NUL]"
proof
  assume h: "handle_numeric key = Some i"
  then obtain c cs where key: "key = c # cs" by (cases key) (auto simp: handle_numeric_def)
  then have c: "is_digit c" "\<not> (c = CHR ''0'' \<and> length key > 2)" "numeric_tail cs"
      "fst (strtol 10 key) \<noteq> LONG_MAX" "i = word_of_int (fst (strtol 10 key))"
    using h by (auto simp: handle_numeric_def Let_def split: if_splits)
  obtain ds where ds: "cs = ds @ [NUL]" "\<forall>c \<in> set ds. is_digit c" using c(3) numeric_tail_iff by blast
  define s where "s = c # ds"
  have s: "key = s @ [NUL]" "\<forall>c \<in> set s. is_digit c" "s \<noteq> []" "hd s \<noteq> CHR ''0'' \<or> length s = 1"
    using key ds c by (auto simp: s_def)
  have v: "fst (strtol 10 key) = (if dec_value s > LONG_MAX then LONG_MAX else dec_value s)"
    unfolding s(1) by (rule strtol_digits[OF s(2,3)])
  then have d: "dec_value s < LONG_MAX" "i = word_of_int (dec_value s)" using c(4,5) by (auto split: if_splits)
  have "0 \<le> dec_value s" by (rule dec_value_nonneg[OF s(2)])
  then have "sint i = dec_value s"
    using d sint_of_int_range[of "dec_value s"] by (simp add: long_bounds)
  then show "sint i \<ge> 0 \<and> sint i < LONG_MAX \<and> key = dec_digits (sint i) @ [NUL]"
    using d(1) \<open>0 \<le> dec_value s\<close> dec_digits_canonical[OF s(2-4)] s(1) by simp
next
  assume i: "sint i \<ge> 0 \<and> sint i < LONG_MAX \<and> key = dec_digits (sint i) @ [NUL]"
  define ds where "ds = dec_digits (sint i)"
  have ds: "dec_value ds = sint i" "\<forall>c \<in> set ds. is_digit c" using dec_digits_value[of "sint i"] i by (auto simp: ds_def)
  have ne: "ds \<noteq> []" by (simp add: ds_def dec_digits.simps[of "sint i"])
  then obtain c cs where c: "ds = c # cs" by (cases ds) auto
  have zero: "\<not> (c = CHR ''0'' \<and> cs \<noteq> [])"
  proof
    assume *: "c = CHR ''0'' \<and> cs \<noteq> []"
    have "hd (dec_digits n) \<noteq> CHR ''0'' \<or> length (dec_digits n) = 1" if "0 \<le> n" for n
      using that
    proof (induction n rule: dec_digits.induct)
      case (1 n)
      show ?case
      proof (cases "n < 10")
        case True
        then show ?thesis by (simp add: dec_digits.simps[of n])
      next
        case False
        have b: "nat (48 + n div 10) \<noteq> 48" using False by linarith
        have "dec_digits (n div 10) \<noteq> []" by (simp add: dec_digits.simps[of "n div 10"])
        moreover have "hd (dec_digits (n div 10)) \<noteq> CHR ''0''"
        proof (cases "n div 10 < 10")
          case True
          have "byte_of (chr (nat (48 + n div 10))) \<noteq> byte_of (CHR ''0'')"
            using True b False by (simp add: byte_of_def[of "CHR ''0''"])
          then have "chr (nat (48 + n div 10)) \<noteq> CHR ''0''" by metis
          then show ?thesis using True by (simp add: dec_digits.simps[of "n div 10"])
        next
          case big: False
          then have "length (dec_digits (n div 10)) \<noteq> 1"
            by (subst dec_digits.simps) (simp add: dec_digits.simps[of "n div 10 div 10"])
          then show ?thesis using 1 False by auto
        qed
        ultimately show ?thesis using False by (simp add: dec_digits.simps[of n])
      qed
    qed
    from this[of "sint i"] i * c show False by (auto simp: ds_def[symmetric])
  qed
  have nt: "numeric_tail (cs @ [NUL])" unfolding numeric_tail_iff using ds(2) c by auto
  have st: "fst (strtol 10 (ds @ [NUL])) = sint i" using strtol_digits[OF ds(2) ne] i ds(1) by simp
  show "handle_numeric key = Some i"
    using i c zero nt st ds(2) by (auto simp: handle_numeric_def ds_def[symmetric] Let_def)
qed

lemma norm_key_inject: "norm_key s = norm_key t \<longleftrightarrow> s = t"
proof
  assume eq: "norm_key s = norm_key t"
  show "s = t"
  proof (cases "handle_numeric s")
    case None
    then show ?thesis using eq by (simp add: norm_key_def split: option.splits)
  next
    case (Some i)
    then have "handle_numeric t = Some i" using eq by (simp add: norm_key_def split: option.splits)
    then show ?thesis using Some by (simp only: handle_numeric_iff)
  qed
qed simp

lemma arr_key_inject: "arr_key s = arr_key t \<longleftrightarrow> s = t"
  by (simp add: arr_key_def norm_key_inject)

end
