(* ===== verification/Hash_Properties.thy ===== *)
theory Hash_Properties
  imports Php_Array Hash_Order Hash_Sort Hash_Cursor Php_Keys
begin

text \<open>
  The properties of the hash table, each followed by an instance on a small table, and the
  composition of its operations: a sequence of insertions and deletions has the effect of the
  same sequence on an ordered association list.
\<close>

subsection \<open>Sequences of operations\<close>

datatype 'a hop =
    Store string 'a
  | Store_new string 'a
  | Store_at ulong 'a
  | Append 'a
  | Remove string
  | Remove_at ulong

fun hash_op :: "'a hop \<Rightarrow> 'a hashtable \<Rightarrow> 'a hashtable option" where
  "hash_op (Store k v) t = map_option (snd \<circ> snd) (hash_update t k v)"
| "hash_op (Store_new k v) t = map_option (snd \<circ> snd) (hash_add t k v)"
| "hash_op (Store_at i v) t = map_option (snd \<circ> snd) (hash_index_update t i v)"
| "hash_op (Append v) t = map_option (snd \<circ> snd) (hash_next_index_insert t v)"
| "hash_op (Remove k) t = map_option snd (hash_del t k)"
| "hash_op (Remove_at i) t = map_option snd (hash_index_del t i)"

fun hash_ops :: "'a hop list \<Rightarrow> 'a hashtable \<Rightarrow> 'a hashtable option" where
  "hash_ops [] t = Some t"
| "hash_ops (x # xs) t = Option.bind (hash_op x t) (hash_ops xs)"

text \<open>
  The same on arrays. \<open>None\<close>: a string key is deleted while its hash value is an index in use.
\<close>

fun arr_op :: "(string \<Rightarrow> ulong) \<Rightarrow> 'a hop \<Rightarrow> 'a parray \<Rightarrow> 'a parray option" where
  "arr_op hf (Store k v) a = Some (if k = [] then a else arr_update a (norm_key k) v)"
| "arr_op hf (Store_new k v) a =
     Some (if k = [] \<or> arr_find a (norm_key k) \<noteq> None then a else arr_update a (norm_key k) v)"
| "arr_op hf (Store_at i v) a = Some (arr_update a (IntKey i) v)"
| "arr_op hf (Append v) a = Some (case arr_append a v of None \<Rightarrow> a | Some b \<Rightarrow> b)"
| "arr_op hf (Remove k) a =
     (if handle_numeric k = None \<and> arr_find a (IntKey (hf k)) \<noteq> None then None
      else Some (arr_delete a (norm_key k)))"
| "arr_op hf (Remove_at i) a = Some (arr_delete a (IntKey i))"

fun arr_ops :: "(string \<Rightarrow> ulong) \<Rightarrow> 'a hop list \<Rightarrow> 'a parray \<Rightarrow> 'a parray option" where
  "arr_ops hf [] a = Some a"
| "arr_ops hf (x # xs) a = Option.bind (arr_op hf x a) (arr_ops hf xs)"

lemma arr_find_array_of: "arr_find (array_of t) k \<noteq> None \<longleftrightarrow> has_key t k"
  by (simp add: arr_find_def array_of_def has_key_def map_of_eq_None_iff)

lemma insert_outcome_array:
  assumes "insert_outcome t k v upd (bump_next k (nNextFreeElement t)) dl res" "table_inv t"
  shows "table_inv (snd (snd res)) \<and> same_frame t (snd (snd res)) \<and>
    array_of (snd (snd res)) =
      (if upd \<or> \<not> has_key t k then arr_update (array_of t) k v else array_of t)"
  using assms
  by (cases res)
     (auto simp: insert_outcome_def insert_success_def insert_failure_def table_inv_def array_of_def
        arr_update_def same_frame_def intro: same_frame_alloc_ok split: if_splits)

lemma remove_outcome_array:
  assumes "remove_outcome t k res" "table_inv t"
  shows "table_inv (snd res) \<and> same_frame t (snd res) \<and> array_of (snd res) = arr_delete (array_of t) k"
  using assms remove_outcome_table[OF assms]
  by (cases res)
     (auto simp: remove_outcome_def remove_success_def array_of_def arr_delete_def same_frame_def
        split: if_splits)

lemma update_array:
  assumes t: "table_inv t" and k: "k \<noteq> []" and flag: "flag \<noteq> HASH_NEXT_INSERT"
  shows "\<exists>res. hash_add_or_update t k v flag = Some res \<and> table_inv (snd (snd res)) \<and>
    same_frame t (snd (snd res)) \<and>
    array_of (snd (snd res)) =
      (if flag = HASH_UPDATE \<or> \<not> has_key t (norm_key k)
       then arr_update (array_of t) (norm_key k) v else array_of t)"
proof -
  obtain res nf where res: "hash_add_or_update t k v flag = Some res"
    "insert_outcome t (norm_key k) v (flag = HASH_UPDATE) nf (old_data t (norm_key k)) res"
    "nf = (case handle_numeric k of None \<Rightarrow> nNextFreeElement t | Some h \<Rightarrow> next_free_after h (nNextFreeElement t))"
    using update_outcome[OF _ k _ flag, of t v] t by (auto simp: table_inv_def)
  have "nf = bump_next (norm_key k) (nNextFreeElement t)"
    by (simp add: res(3) norm_key_def split: option.split)
  then have "insert_outcome t (norm_key k) v (flag = HASH_UPDATE) (bump_next (norm_key k) (nNextFreeElement t))
      (old_data t (norm_key k)) res" using res(2) by simp
  from insert_outcome_array[OF this t] res(1) show ?thesis by auto
qed

lemma index_array:
  assumes t: "table_inv t" and h: "h = (if flag = HASH_NEXT_INSERT then nNextFreeElement t else h0)"
  shows "\<exists>res. hash_index_update_or_next_insert t h0 v flag = Some res \<and> table_inv (snd (snd res)) \<and>
    same_frame t (snd (snd res)) \<and>
    array_of (snd (snd res)) =
      (if flag = HASH_UPDATE \<or> \<not> has_key t (IntKey h)
       then arr_update (array_of t) (IntKey h) v else array_of t)"
proof -
  obtain res where r: "hash_index_update_or_next_insert t h0 v flag = Some res"
    and "insert_outcome t (IntKey h) v (flag = HASH_UPDATE) (bump_next (IntKey h) (nNextFreeElement t))
       (old_data t (IntKey h)) res"
    using index_update_outcome[OF _ h, of v] t by (auto simp: table_inv_def)
  from insert_outcome_array[OF this(2) t] r show ?thesis by auto
qed

lemma hash_op_ok:
  assumes t: "table_inv t" and a: "arr_op (pHashFunction t) x (array_of t) = Some a"
  shows "\<exists>t'. hash_op x t = Some t' \<and> table_inv t' \<and> same_frame t t' \<and> array_of t' = a"
proof (cases x)
  case (Store k v)
  then show ?thesis using a t update_array[OF t, of k HASH_UPDATE v]
    by (cases "k = []") (auto simp: hash_add_or_update_def same_frame_def)
next
  case (Store_new k v)
  then show ?thesis using a t update_array[OF t, of k HASH_ADD v]
    by (cases "k = []") (auto simp: hash_add_or_update_def same_frame_def arr_find_array_of[unfolded not_None_eq])
next
  case (Store_at i v)
  then show ?thesis using a index_array[OF t, of i HASH_UPDATE i v] by auto
next
  case (Append v)
  have "a = (if has_key t (IntKey (nNextFreeElement t)) then array_of t
             else arr_update (array_of t) (IntKey (nNextFreeElement t)) v)"
    using a Append by (simp add: arr_append_def array_of_def has_key_def split: if_splits)
  then show ?thesis using Append index_array[OF t refl, where flag = HASH_NEXT_INSERT and v = v and ?h0.0 = 0] by auto
next
  case (Remove k)
  have nc: "\<not> numeric_clash t k" and d: "a = arr_delete (array_of t) (norm_key k)"
    using a Remove arr_find_array_of[of t] by (auto simp: numeric_clash_def split: if_splits)
  obtain res where "hash_del t k = Some res" "remove_outcome t (norm_key k) res"
    using key_del_outcome[OF _ nc] t by (auto simp: table_inv_def)
  then show ?thesis using remove_outcome_array[OF _ t] Remove d by auto
next
  case (Remove_at i)
  obtain res where "hash_index_del t i = Some res" "remove_outcome t (IntKey i) res"
    using index_del_outcome[of t i] t by (auto simp: table_inv_def)
  then show ?thesis using remove_outcome_array[OF _ t] Remove_at a by auto
qed

lemma hash_ops_ok:
  "table_inv t \<Longrightarrow> arr_ops (pHashFunction t) xs (array_of t) = Some a \<Longrightarrow>
    \<exists>t'. hash_ops xs t = Some t' \<and> table_inv t' \<and> same_frame t t' \<and> array_of t' = a"
proof (induction xs arbitrary: t)
  case Nil
  then show ?case by (auto simp: same_frame_def)
next
  case (Cons x xs)
  then obtain b where b: "arr_op (pHashFunction t) x (array_of t) = Some b"
      "arr_ops (pHashFunction t) xs b = Some a"
    by (auto simp: bind_eq_Some_conv)
  obtain t1 where t1: "hash_op x t = Some t1" "table_inv t1" "same_frame t t1" "array_of t1 = b"
    using hash_op_ok[OF Cons.prems(1) b(1)] by blast
  then obtain t2 where "hash_ops xs t1 = Some t2" "table_inv t2" "same_frame t1 t2" "array_of t2 = a"
    using Cons.IH[OF t1(2)] b(2) by (auto simp: same_frame_def)
  then show ?case using t1 by (auto simp: same_frame_def)
qed

subsection \<open>A small table\<close>

definition empty_table :: "nat hashtable" where
  "empty_table = the (snd (hash_init 3 None True False []))"

definition key_b :: string where
  "key_b = [CHR ''b'', NUL]"

definition sample_ops :: "nat hop list" where
  "sample_ops = [Store key_b 20, Append 10]"

definition sample :: "nat hashtable" where
  "sample = the (hash_ops sample_ops empty_table)"

lemma empty_table_ok:
  "table_inv empty_table \<and> array_of empty_table = arr_empty \<and> pHashFunction empty_table = hashpjw \<and>
   pDestructor empty_table \<and> \<not> persistent empty_table \<and> mallocs empty_table = []"
  using init_ok[of False "[]" 3 None True, where ?'a = nat]
  by (auto simp: empty_table_def table_inv_def array_of_def arr_empty_def alloc_ok_def hash_init_def pemalloc_def Let_def)

lemma key_b_norm: "handle_numeric key_b = None" "norm_key key_b = StrKey key_b"
  by (simp_all add: key_b_def handle_numeric_def norm_key_def is_digit_def byte_of_def)

lemma sample_ok:
  "table_inv sample \<and> array_of sample = PArr [(StrKey key_b, 20), (IntKey 0, 10)] 1 \<and>
   pHashFunction sample = hashpjw \<and> pDestructor sample \<and> \<not> persistent sample"
proof -
  have "arr_ops (pHashFunction empty_table) sample_ops (array_of empty_table) =
      Some (PArr [(StrKey key_b, 20), (IntKey 0, 10)] 1)"
    using empty_table_ok
    by (simp add: sample_ops_def key_b_norm arr_empty_def arr_update_def arr_append_def
        next_free_after_def) (simp add: key_b_def)
  then show ?thesis
    using hash_ops_ok[of empty_table sample_ops] empty_table_ok
    by (auto simp: sample_def same_frame_def)
qed

lemma sample_entries:
  "hash_inv sample" "alloc_ok sample" "hash_entries sample = [(StrKey key_b, 20), (IntKey 0, 10)]"
  "nNextFreeElement sample = 1"
  using sample_ok by (auto simp: table_inv_def array_of_def)

lemma sample_hash: "hashpjw key_b = 1568" "\<not> numeric_clash sample key_b" "no_clash sample"
proof -
  show h: "hashpjw key_b = 1568"
    by (simp add: hashpjw_def key_b_def hashpjw_step_def Let_def schar_of_def byte_of_def)
  then show "\<not> numeric_clash sample key_b" "no_clash sample"
    using sample_ok by (auto simp: numeric_clash_def no_clash_def has_key_def sample_entries)
qed

text \<open>A sorting function that meets the hypothesis on \<^verbatim>\<open>qsort\<close>.\<close>

fun insert_by :: "(addr \<Rightarrow> addr \<Rightarrow> int) \<Rightarrow> addr \<Rightarrow> addr list \<Rightarrow> addr list" where
  "insert_by c x [] = [x]"
| "insert_by c x (y # ys) = (if c x y \<le> 0 then x # y # ys else y # insert_by c x ys)"

definition insertion_sort :: "(addr \<Rightarrow> addr \<Rightarrow> int) \<Rightarrow> addr list \<Rightarrow> addr list" where
  "insertion_sort c xs = foldr (insert_by c) xs []"

lemma insert_by_mset: "mset (insert_by c x ys) = add_mset x (mset ys)"
  by (induction ys) auto

lemma insert_by_sorted:
  assumes "cmp_preorder c"
  shows "sorted_wrt (\<lambda>x y. c x y \<le> 0) ys \<Longrightarrow> sorted_wrt (\<lambda>x y. c x y \<le> 0) (insert_by c x ys)"
proof (induction ys)
  case (Cons y ys)
  have "set (insert_by c x ys) = insert x (set ys)" by (metis insert_by_mset set_mset_add_mset_insert set_mset_mset)
  then show ?case using Cons assms unfolding cmp_preorder_def by (simp; metis)
qed simp

lemma insertion_sort_sorts: "sorts insertion_sort"
proof -
  have "mset (insertion_sort c xs) = mset xs" for c xs
    by (induction xs) (simp_all add: insertion_sort_def insert_by_mset)
  moreover have "sorted_wrt (\<lambda>x y. c x y \<le> 0) (insertion_sort c xs)" if "cmp_preorder c" for c xs
    by (induction xs) (simp_all add: insertion_sort_def insert_by_sorted[OF that])
  ultimately show ?thesis by (simp add: sorts_def)
qed

subsection \<open>Properties\<close>

text \<open>C15: any sequence of insertions, updates, appends and deletions that starts from a new table
  (whose allocations succeed) is defined, keeps the representation invariant and leaves the
  entries, their order and the next free index of the same sequence on an ordered association
  list, provided no string key is deleted while its hash value is an index in use.\<close>
theorem hash_refines_array:
  fixes a :: "'a parray"
  assumes "\<not> pers \<or> ms = []"
    and "arr_ops (case hf of None \<Rightarrow> hashpjw | Some f \<Rightarrow> f) xs arr_empty = Some a"
  shows "\<exists>t0 t. hash_init n hf dtor pers ms = (SUCCESS, Some t0) \<and> hash_ops xs t0 = Some t \<and>
    hash_inv t \<and> array_of t = a"
proof -
  obtain t0 :: "'a hashtable" where t0: "hash_init n hf dtor pers ms = (SUCCESS, Some t0)" "table_inv t0"
      "array_of t0 = arr_empty" "pHashFunction t0 = (case hf of None \<Rightarrow> hashpjw | Some f \<Rightarrow> f)"
    using init_ok[OF assms(1), of n hf dtor] by (auto simp: table_inv_def array_of_def arr_empty_def)
  have "arr_ops (pHashFunction t0) xs (array_of t0) = Some a" using assms(2) t0 by simp
  from hash_ops_ok[OF t0(2) this] t0(1) show ?thesis by (auto simp: table_inv_def)
qed

theorem hash_refines_array_witness:
  "\<exists>t0 t. hash_init 3 None True False [] = (SUCCESS, Some t0) \<and>
     hash_ops [Append (7::nat), Store_at 5 8, Append 9, Remove_at 5] t0 = Some t \<and>
     hash_inv t \<and> array_of t = PArr [(IntKey 0, 7), (IntKey 6, 9)] 7"
  by (rule hash_refines_array)
     (simp_all add: arr_empty_def arr_append_def arr_update_def arr_delete_def next_free_after_def)

text \<open>\<^verbatim>\<open>_php3_hash_add_or_update\<close> on a string key. An add fails exactly when the key is
  present or an allocation fails, and then changes nothing; otherwise the data is stored under
  the key, at the end of the order if it is new, an old value is destroyed, the cursor is
  set when there was none, and the invariant holds. If the third allocation of a new entry
  fails the code reads freed memory.\<close>
theorem hash_insert_string:
  assumes "hash_inv ht" and "key \<noteq> []" and "handle_numeric key = None"
  shows "(\<exists>res. hash_add_or_update ht key d flag = Some res \<and>
            insert_outcome ht (StrKey key) d (flag \<noteq> HASH_ADD)
              (nNextFreeElement ht) (old_data ht (StrKey key)) res) \<or>
         (hash_add_or_update ht key d flag = None \<and> \<not> alloc_ok ht \<and> \<not> has_key ht (StrKey key))"
  by (rule str_update_outcome[OF assms])

theorem hash_insert_string_witness:
  "\<exists>res. hash_add_or_update sample key_b 30 HASH_UPDATE = Some res \<and>
     insert_outcome sample (StrKey key_b) 30 True 1 [20] res"
  using hash_insert_string[OF sample_entries(1), of key_b 30 HASH_UPDATE] key_b_norm sample_entries sample_ok
  by (simp add: old_data_def) (simp add: key_b_def)

text \<open>\<^verbatim>\<open>_php3_hash_index_update_or_next_insert\<close> under its three flags, with the next free
  index that follows: an update stores, an add or an append of a used index fails and changes
  nothing.\<close>
lemma hash_insert_index:
  assumes "hash_inv ht"
    and "h = (if flag = HASH_NEXT_INSERT then nNextFreeElement ht else h0)"
  shows "\<exists>res. hash_index_update_or_next_insert ht h0 d flag = Some res \<and>
           insert_outcome ht (IntKey h) d (flag = HASH_UPDATE)
             (next_free_after h (nNextFreeElement ht)) (old_data ht (IntKey h)) res"
  by (rule index_update_outcome[OF assms])

theorem hash_insert_index_witness:
  "\<exists>res. hash_index_update_or_next_insert sample 0 30 HASH_NEXT_INSERT = Some res \<and>
     insert_outcome sample (IntKey 1) 30 False 2 [] res"
  using hash_insert_index[OF sample_entries(1) refl, where flag = HASH_NEXT_INSERT and ?h0.0 = 0 and d = 30] sample_entries
  by (simp add: old_data_def next_free_after_def)

text \<open>a lookup of any key on a well-formed table is defined and returns what the entries hold
  under the normalised key; the existence tests agree with it.\<close>
theorem hash_lookup_exact:
  assumes "hash_inv ht"
  shows "hash_find ht key = Some (find_result (map_of (hash_entries ht) (norm_key key))) \<and>
         hash_index_find ht h = Some (find_result (map_of (hash_entries ht) (IntKey h))) \<and>
         hash_exists ht key = Some (norm_key key \<in> fst ` set (hash_entries ht)) \<and>
         hash_index_exists ht h = Some (IntKey h \<in> fst ` set (hash_entries ht))"
  by (simp add: assms hash_find_eq hash_index_find_eq hash_exists_eq hash_index_exists_eq)

theorem hash_lookup_exact_witness:
  "hash_find sample key_b = Some (SUCCESS, Some 20) \<and> hash_index_find sample 3 = Some (FAILURE, None)"
  using hash_lookup_exact[OF sample_entries(1), of key_b 3]
  by (simp add: sample_entries key_b_norm find_result_def)

text \<open>C16: deletion. An index, or a string key whose hash value is no index in use, is removed
  exactly when present: its data is destroyed once, the order of the others stays, and a cursor
  on it moves to the next entry; otherwise nothing changes.\<close>
theorem hash_delete_exact:
  assumes "hash_inv ht"
  shows "(\<exists>res. hash_index_del ht h = Some res \<and> remove_outcome ht (IntKey h) res) \<and>
         (numeric_clash ht key \<or>
          (\<exists>res. hash_del ht key = Some res \<and> remove_outcome ht (norm_key key) res))"
  using index_del_outcome[OF assms] key_del_outcome[OF assms] by blast

theorem hash_delete_exact_witness:
  "\<exists>res. hash_del sample key_b = Some res \<and> remove_outcome sample (StrKey key_b) res"
  using hash_delete_exact[OF sample_entries(1), of 0 key_b] sample_hash(2) key_b_norm by simp

text \<open>C17: \<^verbatim>\<open>_php3_hash_del_key_or_index\<close> looks only at the hash value of an entry that has a numeric index. Deleting a
  string key that is absent while its hash value is an index in use thus removes the entry of that index from a
  persistent table, and in a request's table it is the \<^verbatim>\<open>efree\<close> of the entry's NULL key.\<close>
theorem hash_delete_clash:
  assumes "hash_inv ht" and "numeric_clash ht key" and "\<not> has_key ht (norm_key key)"
  shows "if persistent ht
         then \<exists>res. hash_del ht key = Some res \<and> remove_outcome ht (IntKey (pHashFunction ht key)) res
         else hash_del ht key = None"
  using clash_del_persistent[OF assms] clash_del_undefined[OF assms] by simp

theorem hash_delete_clash_witness:
  "\<exists>t. hash_ops [Store_at 1568 7] empty_table = Some t \<and> hash_del t key_b = None"
proof -
  have "arr_ops (pHashFunction empty_table) [Store_at 1568 7] (array_of empty_table) =
      Some (PArr [(IntKey 1568, 7)] 1569)"
    using empty_table_ok by (simp add: arr_empty_def arr_update_def next_free_after_def)
  then obtain t where t: "hash_ops [Store_at 1568 7] empty_table = Some t" "table_inv t"
      "same_frame empty_table t" "array_of t = PArr [(IntKey 1568, 7)] 1569"
    using hash_ops_ok empty_table_ok by blast
  then have "hash_inv t" "numeric_clash t key_b" "\<not> has_key t (norm_key key_b)" "\<not> persistent t"
    using empty_table_ok key_b_norm sample_hash(1)
    by (auto simp: table_inv_def same_frame_def numeric_clash_def has_key_def array_of_def)
  then show ?thesis using hash_delete_clash[of t key_b] t(1) by auto
qed

text \<open>C18: \<^verbatim>\<open>_php3_hash_destroy\<close> frees every bucket, each once and none after it was freed, and
  calls the destructor on the data the table owns, in order.\<close>
theorem hash_destroy_all:
  assumes "hash_inv ht"
  shows "\<exists>ht'. hash_destroy ht = Some ht' \<and> mem ht' = Map.empty \<and>
           destroyed ht' = destroyed ht @
             (if pDestructor ht then owned_data (mem ht) (hash_addrs ht) else [])"
  by (rule destroy_ok[OF assms])

theorem hash_destroy_all_witness:
  "\<exists>ht'. hash_destroy sample = Some ht' \<and> mem ht' = Map.empty"
  using hash_destroy_all[OF sample_entries(1)] by blast

text \<open>C19: \<^verbatim>\<open>_php3_hash_apply\<close> calls the function on the data of every entry, once and in the order of the table, each call with the
  state that the call before it left; it keeps the entries the function does not ask to delete, with the data as changed, in
  their order, and deletes the others, although the table changes during the walk. This holds for tables in which the
  hash value of no string key is an index in use; otherwise a deletion may take the entry of that index.\<close>
theorem hash_apply_exact:
  assumes "hash_inv ht" and "no_clash ht"
  shows "\<exists>ht'. hash_apply ht destruct s = Some (snd (apply_entries destruct (hash_entries ht) s), ht') \<and> hash_inv ht' \<and>
           hash_entries ht' = fst (apply_entries destruct (hash_entries ht) s)"
  using apply_ok[OF assms, of destruct s] by blast

text \<open>A function that logs what it is called on, deletes 20 and increments the rest.\<close>

theorem hash_apply_exact_witness:
  "\<exists>ht'. hash_apply sample (\<lambda>d log. (d = 20, d + 1, log @ [d])) [] = Some ([20, 10], ht') \<and> hash_inv ht' \<and>
     hash_entries ht' = [(IntKey 0, 11)]"
  using hash_apply_exact[OF sample_entries(1) sample_hash(3), of "\<lambda>d log. (d = 20, d + 1, log @ [d])" "[]"]
  by (simp add: sample_entries)

text \<open>C20: \<^verbatim>\<open>_php3_hash_copy\<close> builds a well-formed table with the same keys in the same order and
  the copied data.\<close>
theorem hash_copy_exact:
  assumes "hash_inv ht"
  shows "\<exists>t. hash_copy ht ctor = Some (Some t) \<and> hash_inv t \<and>
           hash_entries t = map (\<lambda>e. (fst e, ctor (snd e))) (hash_entries ht) \<and>
           pInternalPointer t = pListHead t"
  using copy_ok[OF assms] by blast

theorem hash_copy_exact_witness:
  "\<exists>t. hash_copy sample Suc = Some (Some t) \<and> hash_inv t \<and>
     hash_entries t = [(StrKey key_b, 21), (IntKey 0, 11)]"
  using hash_copy_exact[OF sample_entries(1), of Suc] by (simp add: sample_entries) blast

text \<open>\<^verbatim>\<open>_php3_hash_merge\<close> keeps the target's entries and appends those of the source whose
  keys the target lacks, constructed, in the source's order.\<close>
theorem hash_merge_exact:
  assumes "hash_inv target" and "hash_inv source" and "alloc_ok target"
  shows "\<exists>t. hash_merge target source ctor = Some t \<and> hash_inv t \<and>
           hash_entries t = hash_entries target @
             map (\<lambda>e. (fst e, ctor_of ctor (snd e)))
               (filter (\<lambda>e. \<not> has_key target (fst e)) (hash_entries source))"
  using merge_ok[OF assms] by blast

theorem hash_merge_exact_witness:
  "\<exists>t. hash_merge sample sample (Some Suc) = Some t \<and> hash_inv t \<and>
     hash_entries t = [(StrKey key_b, 20), (IntKey 0, 10)]"
  using hash_merge_exact[OF sample_entries(1) sample_entries(1) sample_entries(2), of "Some Suc"]
  by (simp add: sample_entries has_key_def)

text \<open>C21: \<^verbatim>\<open>_php3_hash_sort\<close>, for a comparison that is a total preorder and a \<^verbatim>\<open>qsort\<close> that sorts by such a comparison.
  A table of at most one entry is left as it is, also when a renumbering is asked for, so its key stays. A larger one
  is left as it is, with failure, when the temporary array cannot be allocated, and is else relinked into a sorted permutation
  of its entries, with the keys 0, 1, 2 and so on and the next index after them when a renumbering is asked for, and with the
  internal pointer on the first; the invariant is kept. (A count of entries is below \<open>2 ^ 32\<close>.)\<close>
theorem hash_sort_exact:
  assumes "hash_inv ht" and "sorts qsort" and "cmp_preorder c" and "length (hash_entries ht) \<le> 2 ^ 32"
  shows "if length (hash_entries ht) \<le> 1 then hash_sort qsort ht (sort_entries_by c) renumber = Some (SUCCESS, ht)
         else if \<not> fst (pemalloc ht) then
           \<exists>ms. hash_sort qsort ht (sort_entries_by c) renumber = Some (FAILURE, ht\<lparr>mallocs := ms\<rparr>)
         else \<exists>ht' es. hash_sort qsort ht (sort_entries_by c) renumber = Some (SUCCESS, ht') \<and>
           hash_inv ht' \<and> mset es = mset (hash_entries ht) \<and> sorted_wrt (\<lambda>x y. c x y \<le> 0) es \<and>
           hash_entries ht' = (if renumber then renumbered_entries es else es) \<and>
           nNextFreeElement ht' = (if renumber then of_nat (length es) else nNextFreeElement ht) \<and>
           pInternalPointer ht' = pListHead ht'"
proof -
  obtain ok ms where p: "pemalloc ht = (ok, ht\<lparr>mallocs := ms\<rparr>)"
    using pemalloc_mallocs by blast
  have n: "nNumOfElements ht = length (hash_entries ht)"
    by (rule hash_inv_count[OF assms(1)])
  consider (few) "length (hash_entries ht) \<le> 1" | (fails) "length (hash_entries ht) > 1" "\<not> ok"
    | (sort) "length (hash_entries ht) > 1" ok by linarith
  then show ?thesis
  proof cases
    case few
    then show ?thesis using n by (simp add: hash_sort_def)
  next
    case fails
    then show ?thesis using n p by (auto simp: hash_sort_def)
  next
    case sort
    then show ?thesis using sort_ok[OF assms(1) _ assms(2,3) sort(1) assms(4), of ms renumber] p by simp
  qed
qed

theorem hash_sort_exact_witness:
  "\<exists>ht' es. hash_sort insertion_sort sample (sort_entries_by (\<lambda>x y. int (snd x) - int (snd y))) True =
       Some (SUCCESS, ht') \<and> hash_inv ht' \<and> mset es = {# (StrKey key_b, 20), (IntKey 0, 10) #} \<and>
     hash_entries ht' = renumbered_entries es"
proof -
  have c: "cmp_preorder (\<lambda>x y :: hkey \<times> nat. int (snd x) - int (snd y))"
    by (auto simp: cmp_preorder_def)
  have "fst (pemalloc sample)"
    using pemalloc_alloc_ok[OF sample_entries(2)] by simp
  then show ?thesis
    using hash_sort_exact[OF sample_entries(1) insertion_sort_sorts c, of True]
    by (auto simp: sample_entries)
qed

text \<open>C22: a walk with the internal pointer, reset or set to the end and moved until there is no
  current entry, visits every entry once, in order or in reverse order.\<close>
theorem hash_walk_exact:
  assumes "hash_inv ht"
  shows "traverse hash_move_forward (hash_internal_pointer_reset ht) =
           Some (map (\<lambda>e. (current_of (fst e), snd e)) (hash_entries ht)) \<and>
         traverse hash_move_backwards (hash_internal_pointer_end ht) =
           Some (map (\<lambda>e. (current_of (fst e), snd e)) (rev (hash_entries ht)))"
  using traverse_ok[OF assms] by blast

theorem hash_walk_exact_witness:
  "traverse hash_move_backwards (hash_internal_pointer_end sample) =
     Some [(KEY_IS_LONG 0, 10), (KEY_IS_STRING key_b, 20)]"
  using hash_walk_exact[OF sample_entries(1)] by (simp add: sample_entries current_of_def)

text \<open>\<^verbatim>\<open>_php3_hash_minmax\<close> finds an extremal entry, and fails on the empty table.\<close>
lemma hash_minmax_exact:
  assumes "hash_inv ht" and "cmp_order c"
  shows "case hash_entries ht of
           [] \<Rightarrow> hash_minmax ht (sort_entries_by c) mx = Some (FAILURE, None)
         | _ \<Rightarrow> \<exists>e \<in> set (hash_entries ht).
                 hash_minmax ht (sort_entries_by c) mx = Some (SUCCESS, Some (snd e)) \<and>
                 (\<forall>e' \<in> set (hash_entries ht). if mx then c e' e \<le> 0 else c e e' \<le> 0)"
  by (rule minmax_ok[OF assms])

theorem hash_minmax_exact_witness:
  "hash_minmax sample (sort_entries_by (\<lambda>x y. int (snd x) - int (snd y))) True = Some (SUCCESS, Some 20)"
proof -
  have c: "cmp_order (\<lambda>x y :: hkey \<times> nat. int (snd x) - int (snd y))"
    by (auto simp: cmp_order_def cmp_preorder_def)
  show ?thesis
    using hash_minmax_exact[OF sample_entries(1) c, of True] by (auto simp: sample_entries)
qed

text \<open>C29: the keys \<^verbatim>\<open>HANDLE_NUMERIC\<close> turns into an index are exactly the canonical decimal
  numerals below \<^verbatim>\<open>LONG_MAX\<close>, so no two strings name the same entry.\<close>
theorem numeric_keys_exact:
  "(handle_numeric key = Some i \<longleftrightarrow> 0 \<le> sint i \<and> sint i < LONG_MAX \<and> key = dec_digits (sint i) @ [NUL]) \<and>
   (norm_key s = norm_key t \<longleftrightarrow> s = t)"
  using handle_numeric_iff norm_key_inject by auto

end
