(* ===== verification/Php_Constants.thy ===== *)
theory Php_Constants
  imports Php_Keys
begin

text \<open>
  The table of constants (\<^verbatim>\<open>constants.c\<close>), a persistent hash table keyed by the lower-cased name.
  \<open>c_name\<close> is the first \<^verbatim>\<open>name_len\<close> bytes of \<^verbatim>\<open>c->name\<close>, the terminating NUL included. A field the
  code leaves uninitialised is an argument of the model.
\<close>

definition CONST_CS :: ulong where "CONST_CS = 1"
definition CONST_PERSISTENT :: ulong where "CONST_PERSISTENT = 2"

record php3_constant =
  c_value :: pval
  c_flags :: ulong
  c_name :: string
  c_module :: int

type_synonym constants = "php3_constant hashtable"

definition register_constant :: "php3_constant \<Rightarrow> constants \<Rightarrow> constants option" where
  "register_constant c t = map_option (snd \<circ> snd) (hash_add t (php3_str_tolower (c_name c)) c)"

definition php3_register_long_constant ::
    "string \<Rightarrow> ulong \<Rightarrow> ulong \<Rightarrow> int \<Rightarrow> constants \<Rightarrow> constants option" where
  "php3_register_long_constant name l flags m t =
     register_constant \<lparr>c_value = IS_LONG l, c_flags = flags, c_name = name, c_module = m\<rparr> t"

definition php3_register_double_constant ::
    "string \<Rightarrow> double \<Rightarrow> ulong \<Rightarrow> int \<Rightarrow> constants \<Rightarrow> constants option" where
  "php3_register_double_constant name d flags m t =
     register_constant \<lparr>c_value = IS_DOUBLE d, c_flags = flags, c_name = name, c_module = m\<rparr> t"

definition php3_register_stringl_constant ::
    "string \<Rightarrow> string \<Rightarrow> ulong \<Rightarrow> int \<Rightarrow> constants \<Rightarrow> constants option" where
  "php3_register_stringl_constant name s flags m t =
     register_constant \<lparr>c_value = IS_STRING s, c_flags = flags, c_name = name, c_module = m\<rparr> t"

text \<open>Whether the constant found under the lower-cased name is the one named \<open>name\<close>.\<close>

definition constant_matches :: "php3_constant \<Rightarrow> string \<Rightarrow> bool" where
  "constant_matches c name \<longleftrightarrow>
     \<not> (c_flags c AND CONST_CS \<noteq> 0 \<and> memcmp (c_name c) name (length name) \<noteq> 0)"

definition php3_get_constant :: "constants \<Rightarrow> string \<Rightarrow> pval option option" where
  "php3_get_constant t name = do {
     (st, c) \<leftarrow> hash_find t (php3_str_tolower name @ [NUL]);
     (case c of
        Some k \<Rightarrow> Some (if constant_matches k name then Some (c_value k) else None)
      | None \<Rightarrow> Some None)
   }"

definition php3_defined :: "constants \<Rightarrow> string \<Rightarrow> bool option" where
  "php3_defined t name = do {
     (st, c) \<leftarrow> hash_find t (php3_str_tolower name @ [NUL]);
     (case c of Some k \<Rightarrow> Some (constant_matches k name) | None \<Rightarrow> Some False)
   }"

fun is_scalar :: "pval \<Rightarrow> bool" where
  "is_scalar (IS_LONG _) = True"
| "is_scalar (IS_DOUBLE _) = True"
| "is_scalar (IS_STRING _) = True"
| "is_scalar _ = False"

text \<open>
  \<^verbatim>\<open>define(var, val[, non_cs])\<close>: the result is what it returns (true or false) and the table.
  \<open>m\<close> is the \<^verbatim>\<open>module_number\<close> the code does not set.
\<close>

definition php3_define ::
    "nat \<Rightarrow> int \<Rightarrow> pval \<Rightarrow> pval \<Rightarrow> pval option \<Rightarrow> constants \<Rightarrow> (bool \<times> constants) option" where
  "php3_define precision m var val non_cs t = do {
     case_sensitive \<leftarrow> (case non_cs of
                           None \<Rightarrow> Some CONST_CS
                         | Some v \<Rightarrow> do { l \<leftarrow> convert_to_long v;
                                         Some (if lval l \<noteq> 0 then 0 else CONST_CS) });
     if \<not> is_scalar val then Some (False, t)
     else do {
       t' \<leftarrow> register_constant
               \<lparr>c_value = val, c_flags = case_sensitive OR NOT CONST_PERSISTENT,
                c_name = str (convert_to_string precision var) @ [NUL], c_module = m\<rparr> t;
       Some (True, t')
     }
   }"

text \<open>The two callbacks change nothing but the table; their state is \<open>()\<close>.\<close>

definition clean_non_persistent_constant :: "php3_constant \<Rightarrow> unit \<Rightarrow> bool \<times> php3_constant \<times> unit" where
  "clean_non_persistent_constant c u = (c_flags c AND CONST_PERSISTENT = 0, c, u)"

definition clean_module_constant :: "php3_constant \<Rightarrow> int \<Rightarrow> unit \<Rightarrow> bool \<times> php3_constant \<times> unit" where
  "clean_module_constant c module_number u = (c_module c = module_number, c, u)"

definition clean_non_persistent_constants :: "constants \<Rightarrow> constants option" where
  "clean_non_persistent_constants t = map_option snd (hash_apply t clean_non_persistent_constant ())"

definition clean_module_constants :: "constants \<Rightarrow> int \<Rightarrow> constants option" where
  "clean_module_constants t module_number =
     map_option snd (hash_apply_with_argument t clean_module_constant module_number ())"

text \<open>\<^verbatim>\<open>php3_startup_constants\<close>; the version and the name of the system come from the build.\<close>

definition php3_startup_constants :: "string \<Rightarrow> string \<Rightarrow> (status \<times> constants option) option" where
  "php3_startup_constants php_version php_os =
     (case hash_init 20 None True True [] of
        (FAILURE, _) \<Rightarrow> Some (FAILURE, None)
      | (SUCCESS, None) \<Rightarrow> None
      | (SUCCESS, Some t) \<Rightarrow> do {
          t \<leftarrow> php3_register_stringl_constant (''PHP_VERSION'' @ [NUL]) php_version (CONST_PERSISTENT OR CONST_CS) 0 t;
          t \<leftarrow> php3_register_long_constant (''TRUE'' @ [NUL]) 1 CONST_PERSISTENT 0 t;
          t \<leftarrow> php3_register_stringl_constant (''FALSE'' @ [NUL]) [] CONST_PERSISTENT 0 t;
          t \<leftarrow> php3_register_stringl_constant (''PHP_OS'' @ [NUL]) php_os (CONST_PERSISTENT OR CONST_CS) 0 t;
          t \<leftarrow> php3_register_long_constant (''E_ERROR'' @ [NUL]) 1 (CONST_PERSISTENT OR CONST_CS) 0 t;
          t \<leftarrow> php3_register_long_constant (''E_WARNING'' @ [NUL]) 2 (CONST_PERSISTENT OR CONST_CS) 0 t;
          t \<leftarrow> php3_register_long_constant (''E_NOTICE'' @ [NUL]) 8 (CONST_PERSISTENT OR CONST_CS) 0 t;
          t \<leftarrow> php3_register_long_constant (''E_PARSE'' @ [NUL]) 4 (CONST_PERSISTENT OR CONST_CS) 0 t;
          t \<leftarrow> php3_register_long_constant (''E_ALL'' @ [NUL]) 63 (CONST_PERSISTENT OR CONST_CS) 0 t;
          Some (SUCCESS, Some t)
        })"

subsection \<open>Lookup after registration\<close>

definition constant_at :: "constants \<Rightarrow> string \<Rightarrow> php3_constant option" where
  "constant_at t name = map_of (hash_entries t) (arr_key (php3_str_tolower name))"

definition constant_found :: "php3_constant option \<Rightarrow> string \<Rightarrow> pval option" where
  "constant_found c name =
     (case c of None \<Rightarrow> None | Some k \<Rightarrow> if constant_matches k name then Some (c_value k) else None)"

lemma get_constant_ok:
  "table_inv t \<Longrightarrow> php3_get_constant t name = Some (constant_found (constant_at t name) name)"
  using hash_find_eq[of t]
  by (auto simp: table_inv_def php3_get_constant_def constant_at_def arr_key_def find_result_def
      constant_found_def split: option.splits)

lemma defined_ok:
  "table_inv t \<Longrightarrow> php3_defined t name = Some (constant_found (constant_at t name) name \<noteq> None)"
  using hash_find_eq[of t]
  by (auto simp: table_inv_def php3_defined_def constant_at_def arr_key_def find_result_def
      constant_found_def split: option.splits)

lemma tolower_NUL: "php3_str_tolower (name @ [NUL]) = php3_str_tolower name @ [NUL]"
  by (simp add: php3_str_tolower_def to_lower_def is_upper_def byte_of_def)

lemma register_ok:
  assumes t: "table_inv t" and c: "c_name c = name @ [NUL]"
  shows "\<exists>t'. register_constant c t = Some t' \<and> table_inv t' \<and>
           (\<forall>n. constant_at t' n =
              (if php3_str_tolower n = php3_str_tolower name \<and> constant_at t name = None then Some c
               else constant_at t n))"
proof -
  let ?k = "php3_str_tolower (c_name c)"
  have k: "?k = php3_str_tolower name @ [NUL]" by (simp add: c tolower_NUL)
  have inv: "hash_inv t" "alloc_ok t" using t by (simp_all add: table_inv_def)
  obtain res nf where res: "hash_add t ?k c = Some res"
    "insert_outcome t (norm_key ?k) c False nf (old_data t (norm_key ?k)) res"
    using update_outcome[OF inv(1) _ inv(2), of ?k HASH_ADD c] by (auto simp: k)
  have hk: "has_key t (norm_key ?k) \<longleftrightarrow> constant_at t name \<noteq> None"
    by (simp add: has_key_def constant_at_def k arr_key_def map_of_eq_None_iff)
  have run: "register_constant c t = Some (snd (snd res))" by (simp add: register_constant_def res(1))
  have key: "norm_key (php3_str_tolower n @ [NUL]) = norm_key ?k \<longleftrightarrow> php3_str_tolower n = php3_str_tolower name" for n
    by (simp add: k norm_key_inject)
  show ?thesis
  proof (cases "fst res = SUCCESS")
    case True
    then have s: "\<not> has_key t (norm_key ?k)" "hash_inv (snd (snd res))" "same_frame t (snd (snd res))"
      "hash_entries (snd (snd res)) = AList.update (norm_key ?k) c (hash_entries t)"
      using res(2) by (auto simp: insert_outcome_def insert_success_def split: prod.splits)
    have "table_inv (snd (snd res))" using s(2) same_frame_alloc_ok[OF s(3) inv(2)] by (simp add: table_inv_def)
    moreover have "constant_at (snd (snd res)) n =
        (if php3_str_tolower n = php3_str_tolower name then Some c else constant_at t n)" for n
      by (simp add: constant_at_def s(4) AList.update_conv' arr_key_def key)
    ultimately show ?thesis using run s(1) hk by simp
  next
    case False
    then have f: "has_key t (norm_key ?k)" "insert_failure t (snd res)"
      using res(2) inv(2) by (auto simp: insert_outcome_def)
    then have "snd (snd res) = t" using inv(2) by (auto simp: insert_failure_def)
    then show ?thesis using run t f(1) hk by auto
  qed
qed

lemma memcmp_same: "length s = length t \<Longrightarrow> memcmp (s @ u) t (length t) = 0 \<longleftrightarrow> s = t"
proof (induction t arbitrary: s)
  case (Cons b t)
  then obtain a r where s: "s = a # r" "length r = length t" by (cases s) auto
  then show ?case using Cons.IH[OF s(2)] by auto
qed simp

lemma matches_name:
  assumes "c_name c = name @ [NUL]" "php3_str_tolower n = php3_str_tolower name"
  shows "constant_matches c n \<longleftrightarrow> c_flags c AND CONST_CS = 0 \<or> n = name"
proof -
  have "length n = length name" using arg_cong[OF assms(2), of length] by (simp add: php3_str_tolower_def)
  then show ?thesis using memcmp_same[of name n "[NUL]"] by (auto simp: constant_matches_def assms(1))
qed

text \<open>A registered constant is found under its name, in any case unless it is case sensitive.\<close>

lemma register_then_get:
  assumes "table_inv t" "c_name c = name @ [NUL]" "constant_at t name = None"
  shows "\<exists>t'. register_constant c t = Some t' \<and> table_inv t' \<and>
    (\<forall>n. php3_get_constant t' n =
       (if php3_str_tolower n = php3_str_tolower name
        then Some (if c_flags c AND CONST_CS = 0 \<or> n = name then Some (c_value c) else None)
        else php3_get_constant t n))"
proof -
  obtain t' where t': "register_constant c t = Some t'" "table_inv t'"
    "\<And>n. constant_at t' n = (if php3_str_tolower n = php3_str_tolower name then Some c else constant_at t n)"
    using register_ok[OF assms(1,2)] assms(3) by auto
  have "php3_get_constant t' n =
       (if php3_str_tolower n = php3_str_tolower name
        then Some (if c_flags c AND CONST_CS = 0 \<or> n = name then Some (c_value c) else None)
        else php3_get_constant t n)" for n
    using matches_name[OF assms(2), of n]
    by (simp add: get_constant_ok[OF t'(2)] get_constant_ok[OF assms(1)] t'(3) constant_found_def)
  then show ?thesis using t'(1,2) by blast
qed

lemma register_twice:
  assumes "table_inv t" "c_name c = name @ [NUL]" "constant_at t name \<noteq> None"
  shows "\<exists>t'. register_constant c t = Some t' \<and> table_inv t' \<and>
    (\<forall>n. php3_get_constant t' n = php3_get_constant t n)"
proof -
  obtain t' where t': "register_constant c t = Some t'" "table_inv t'" "\<And>n. constant_at t' n = constant_at t n"
    using register_ok[OF assms(1,2)] assms(3) by auto
  then show ?thesis using get_constant_ok[OF t'(2)] get_constant_ok[OF assms(1)] by auto
qed

text \<open>
  \<^verbatim>\<open>define\<close> sets the flags to \<^verbatim>\<open>case_sensitive | ~CONST_PERSISTENT\<close>, which has the bit
  \<^verbatim>\<open>CONST_CS\<close> whatever \<^verbatim>\<open>case_sensitive\<close> is: every user constant is case sensitive.
\<close>

lemma define_flags: "(x OR NOT CONST_PERSISTENT) AND CONST_CS \<noteq> 0" if "x = 0 \<or> x = CONST_CS"
  using that by (auto simp: CONST_CS_def CONST_PERSISTENT_def)

lemma define_then_get:
  assumes t: "table_inv t" and v: "is_scalar v" and n: "constant_at t name = None"
    and third: "non_cs = None \<or> (\<exists>k. non_cs = Some (IS_LONG k))"
  shows "\<exists>t'. php3_define precision m (IS_STRING name) v non_cs t = Some (True, t') \<and> table_inv t' \<and>
    (\<forall>n. php3_get_constant t' n =
       (if php3_str_tolower n = php3_str_tolower name then Some (if n = name then Some v else None)
        else php3_get_constant t n))"
proof -
  define cs :: ulong where "cs = (case non_cs of Some (IS_LONG k) \<Rightarrow> if k \<noteq> 0 then 0 else CONST_CS | _ \<Rightarrow> CONST_CS)"
  define c where "c = \<lparr>c_value = v, c_flags = cs OR NOT CONST_PERSISTENT, c_name = name @ [NUL], c_module = m\<rparr>"
  have cs: "cs = 0 \<or> cs = CONST_CS" using third by (auto simp: cs_def)
  have fl: "c_flags c AND CONST_CS \<noteq> 0" using define_flags[OF cs] by (simp add: c_def)
  have nm: "c_name c = name @ [NUL]" by (simp add: c_def)
  obtain t' where t': "register_constant c t = Some t'" "table_inv t'"
    "\<forall>n. php3_get_constant t' n =
       (if php3_str_tolower n = php3_str_tolower name
        then Some (if c_flags c AND CONST_CS = 0 \<or> n = name then Some (c_value c) else None)
        else php3_get_constant t n)"
    using register_then_get[OF t nm n] by blast
  have "php3_define precision m (IS_STRING name) v non_cs t = Some (True, t')"
    using third v t'(1) by (auto simp: php3_define_def convert_to_long_def cs_def c_def)
  then show ?thesis using t'(2,3) fl by (intro exI[of _ t']) (simp add: c_def)
qed

text \<open>The cleaning at the end of a request keeps exactly the persistent constants.\<close>

lemma clean_non_persistent_ok:
  assumes "hash_inv t" "no_clash t"
  shows "\<exists>t'. clean_non_persistent_constants t = Some t' \<and> hash_inv t' \<and>
    hash_entries t' = filter (\<lambda>e. c_flags (snd e) AND CONST_PERSISTENT \<noteq> 0) (hash_entries t)"
proof -
  have "fst (apply_entries clean_non_persistent_constant es ()) =
      filter (\<lambda>e. c_flags (snd e) AND CONST_PERSISTENT \<noteq> 0) es" for es
    by (induction es) (auto simp: clean_non_persistent_constant_def split: prod.splits)
  then show ?thesis
    using apply_ok[OF assms, of clean_non_persistent_constant "()"]
    by (auto simp: clean_non_persistent_constants_def)
qed

end
