(* ===== verification/Php_List.thy ===== *)
theory Php_List
  imports Php_Array
begin

text \<open>
  The resource lists of \<^verbatim>\<open>list.c\<close>: a hash table from resource ids to pointers with a type, and
  the destructors that are looked up by that type. The pointers of the extensions are values of
  a type variable.
\<close>

record 'p list_entry =
  le_ptr :: 'p
  le_type :: int

record 'd list_destructors_entry =
  list_destructor :: "'d option"
  plist_destructor :: "'d option"
  ld_module_number :: int
  ld_resource_id :: int

definition php3_list_do_insert ::
    "'p list_entry hashtable \<Rightarrow> 'p \<Rightarrow> int \<Rightarrow> (ulong \<times> 'p list_entry hashtable) option" where
  "php3_list_do_insert l ptr ty = do {
     let index = hash_next_free_element l;
     let index = (if index = 0 then index + 1 else index);
     (st, r, l') \<leftarrow> hash_index_update l index \<lparr>le_ptr = ptr, le_type = ty\<rparr>;
     Some (index, l')
   }"

definition php3_list_do_delete ::
    "'p list_entry hashtable \<Rightarrow> ulong \<Rightarrow> (status \<times> 'p list_entry hashtable) option" where
  "php3_list_do_delete l i = hash_index_del l i"

text \<open>The pointer found (NULL is \<open>None\<close>) and \<^verbatim>\<open>*type\<close>.\<close>

definition php3_list_do_find :: "'p list_entry hashtable \<Rightarrow> ulong \<Rightarrow> ('p option \<times> int) option" where
  "php3_list_do_find l i = do {
     (st, e) \<leftarrow> hash_index_find l i;
     (case e of
        Some le \<Rightarrow> Some (Some (le_ptr le), le_type le)
      | None \<Rightarrow> Some (None, - 1))
   }"

text \<open>What the destructor of an entry does: it calls a function on the pointer, nothing, or warns.\<close>

datatype ('d, 'p) dtor_event = Call_destructor 'd 'p | No_destructor | Unknown_type int

definition run_destructor ::
    "('d list_destructors_entry \<Rightarrow> 'd option) \<Rightarrow> 'd list_destructors_entry hashtable
      \<Rightarrow> 'p list_entry \<Rightarrow> ('d, 'p) dtor_event option" where
  "run_destructor field lds le = do {
     (st, ld) \<leftarrow> hash_index_find lds (word_of_int (le_type le));
     (case ld of
        Some e \<Rightarrow> (case field e of
                      Some d \<Rightarrow> Some (Call_destructor d (le_ptr le))
                    | None \<Rightarrow> Some No_destructor)
      | None \<Rightarrow> Some (Unknown_type (le_type le)))
   }"

definition list_entry_destructor ::
    "'d list_destructors_entry hashtable \<Rightarrow> 'p list_entry \<Rightarrow> ('d, 'p) dtor_event option" where
  "list_entry_destructor = run_destructor list_destructor"

definition plist_entry_destructor ::
    "'d list_destructors_entry hashtable \<Rightarrow> 'p list_entry \<Rightarrow> ('d, 'p) dtor_event option" where
  "plist_entry_destructor = run_destructor plist_destructor"

subsection \<open>Resource ids are fresh\<close>

text \<open>
  All keys are positive ids below the next free one. The invariant holds as long as the ids have
  not run out: an id of \<^verbatim>\<open>ULONG_MAX\<close> would make the next free element wrap around to 0.
\<close>

definition resource_list :: "'p list_entry hashtable \<Rightarrow> bool" where
  "resource_list l \<longleftrightarrow> table_inv l \<and>
     (\<forall>k \<in> fst ` set (hash_entries l). \<exists>i. k = IntKey i \<and> 0 < i \<and> i < nNextFreeElement l)"

definition resource_at :: "'p list_entry hashtable \<Rightarrow> ulong \<Rightarrow> 'p list_entry option" where
  "resource_at l i = map_of (hash_entries l) (IntKey i)"

lemma list_find_ok:
  assumes "resource_list l"
  shows "php3_list_do_find l i =
           Some (case resource_at l i of None \<Rightarrow> (None, - 1) | Some le \<Rightarrow> (Some (le_ptr le), le_type le))"
  using assms hash_index_find_eq[of l i]
  by (auto simp: resource_list_def table_inv_def php3_list_do_find_def resource_at_def find_result_def
      split: option.splits)

lemma list_insert_ok:
  assumes l: "resource_list l" and room: "nNextFreeElement l < 0xFFFFFFFF"
  shows "\<exists>i l'. php3_list_do_insert l p ty = Some (i, l') \<and> resource_list l' \<and> 0 < i \<and>
           resource_at l i = None \<and> nNextFreeElement l' = i + 1 \<and> i < 0xFFFFFFFF \<and>
           (\<forall>j. resource_at l' j = (if j = i then Some \<lparr>le_ptr = p, le_type = ty\<rparr> else resource_at l j))"
proof -
  define nf where "nf = nNextFreeElement l"
  define i where "i = (if nf = 0 then nf + 1 else nf)"
  have keys: "\<exists>j. k = IntKey j \<and> 0 < j \<and> j < nf" if "k \<in> fst ` set (hash_entries l)" for k
    using l that by (auto simp: resource_list_def nf_def)
  have i3: "i < 0xFFFFFFFF" using room by (simp add: i_def nf_def)
  have i: "0 < i" "nf \<le> i" by (auto simp: i_def word_neq_0_conv[symmetric])
  have i4: "i < i + 1" using i3 by (simp add: word_less_nat_alt unat_word_ariths)
  have fresh: "IntKey i \<notin> fst ` set (hash_entries l)" using keys i(2) by force
  have inv: "table_inv l" using l by (simp add: resource_list_def)
  obtain r l' where l': "hash_index_update l i \<lparr>le_ptr = p, le_type = ty\<rparr> = Some (SUCCESS, r, l')"
      "table_inv l'" "array_of l' = arr_update (array_of l) (IntKey i) \<lparr>le_ptr = p, le_type = ty\<rparr>"
    using index_update_table[OF inv] by blast
  have e: "hash_entries l' = hash_entries l @ [(IntKey i, \<lparr>le_ptr = p, le_type = ty\<rparr>)]"
    using array_of_entries[OF l'(3)] alist_update_new[OF fresh] by simp
  have n: "nNextFreeElement l' = i + 1"
    using l'(3) i(2) by (simp add: array_of_def arr_update_def next_free_after_def nf_def)
  have ex: "\<exists>j. k = IntKey j \<and> 0 < j \<and> j < i + 1" if hk: "k \<in> fst ` set (hash_entries l')" for k
  proof (cases "k = IntKey i")
    case True
    then show ?thesis using i(1) i4 by auto
  next
    case False
    then obtain j where "k = IntKey j" "0 < j" "j < nf" using hk e keys[of k] by auto
    moreover have "j < i + 1" using \<open>j < nf\<close> i(2) i4 by (meson less_le_trans less_trans)
    ultimately show ?thesis by blast
  qed
  have run: "php3_list_do_insert l p ty = Some (i, l')"
    unfolding php3_list_do_insert_def hash_next_free_element_def Let_def nf_def[symmetric]
      i_def[symmetric] l'(1) by simp
  have at: "resource_at l' j = (if j = i then Some \<lparr>le_ptr = p, le_type = ty\<rparr> else resource_at l j)" for j
    using array_of_entries[OF l'(3)] by (simp add: resource_at_def AList.update_conv')
  have "resource_at l i = None"
    using fresh unfolding resource_at_def by (simp only: map_of_eq_None_iff) simp
  moreover have "resource_list l'" unfolding resource_list_def n using l'(2) ex by blast
  ultimately show ?thesis using run at n i(1) i3 by blast
qed

lemma list_delete_ok:
  assumes l: "resource_list l"
  shows "\<exists>st l'. php3_list_do_delete l i = Some (st, l') \<and> resource_list l' \<and>
           (st = SUCCESS \<longleftrightarrow> resource_at l i \<noteq> None) \<and> nNextFreeElement l' = nNextFreeElement l \<and>
           (\<forall>j. resource_at l' j = (if j = i then None else resource_at l j))"
proof -
  have inv: "table_inv l" "hash_inv l" using l by (simp_all add: resource_list_def table_inv_def)
  obtain res where res: "hash_index_del l i = Some res" "remove_outcome l (IntKey i) res"
    using index_del_outcome[OF inv(2)] by blast
  note t = remove_outcome_table[OF res(2) inv(1)]
  have nf: "nNextFreeElement (snd res) = nNextFreeElement l"
    using res(2) by (auto simp: remove_outcome_def remove_success_def split: if_splits)
  have "set (hash_entries (snd res)) \<subseteq> set (hash_entries l)"
    unfolding t(3) by (auto simp: AList.delete_eq)
  then have "resource_list (snd res)" using l t(2) nf by (fastforce simp: resource_list_def)
  moreover have "(fst res = SUCCESS) = (resource_at l i \<noteq> None)"
    by (simp add: t(1) resource_at_def map_of_eq_None_iff)
  moreover have "resource_at (snd res) j = (if j = i then None else resource_at l j)" for j
    by (simp add: resource_at_def t(3) AList.delete_conv')
  ultimately show ?thesis using res(1) nf
    by (intro exI[of _ "fst res"] exI[of _ "snd res"]) (simp add: php3_list_do_delete_def)
qed

lemma run_destructor_ok:
  assumes "table_inv lds"
  shows "run_destructor field lds le =
           Some (case map_of (hash_entries lds) (IntKey (word_of_int (le_type le))) of
                   None \<Rightarrow> Unknown_type (le_type le)
                 | Some ld \<Rightarrow> (case field ld of None \<Rightarrow> No_destructor | Some d \<Rightarrow> Call_destructor d (le_ptr le)))"
  using assms hash_index_find_eq[of lds]
  by (auto simp: table_inv_def run_destructor_def find_result_def split: option.splits)

end
