(* ===== verification/Php_Stack.thy ===== *)
theory Php_Stack
  imports Php_Prelude
begin

text \<open>
  The stack of \<^verbatim>\<open>stack.c\<close> (on which the interpreter keeps its control structures), the
  contract of a stack as a locale, and the proof that the code meets it.

  \<^verbatim>\<open>elements\<close> is an array of \<^verbatim>\<open>max\<close> pointers to copies of the pushed values: \<open>Some x\<close> is a live
  copy, \<open>None\<close> a slot that was never written or whose block was freed. An operation is \<open>None\<close>
  when it reads or frees such a slot, or indexes outside of the array. \<^verbatim>\<open>emalloc\<close> and
  \<^verbatim>\<open>erealloc\<close> of \<^verbatim>\<open>alloc.c\<close> end the request rather than return NULL, so the branches that
  test for NULL are not taken.
\<close>

definition STACK_BLOCK_SIZE :: nat where
  "STACK_BLOCK_SIZE = 64"

record 'a stack =
  top :: nat
  max_size :: nat
  elements :: "'a option list"

definition stack_init :: "status \<times> 'a stack" where
  "stack_init =
     (SUCCESS, \<lparr>top = 0, max_size = STACK_BLOCK_SIZE, elements = replicate STACK_BLOCK_SIZE None\<rparr>)"

text \<open>\<^verbatim>\<open>stack_push\<close> returns the index the element got.\<close>

definition stack_push :: "'a stack \<Rightarrow> 'a \<Rightarrow> (nat \<times> 'a stack) option" where
  "stack_push s e =
     (let s1 = (if top s \<ge> max_size s
                then s\<lparr>max_size := max_size s + STACK_BLOCK_SIZE,
                       elements := elements s @ replicate STACK_BLOCK_SIZE None\<rparr>
                else s)
      in if top s1 < length (elements s1)
         then Some (top s1, s1\<lparr>elements := (elements s1)[top s1 := Some e], top := Suc (top s1)\<rparr>)
         else None)"

definition stack_top :: "'a stack \<Rightarrow> (status \<times> 'a option) option" where
  "stack_top s =
     (if top s > 0 then
        (if top s - 1 < length (elements s)
         then do { e \<leftarrow> elements s ! (top s - 1); Some (SUCCESS, Some e) }
         else None)
      else Some (FAILURE, None))"

definition stack_del_top :: "'a stack \<Rightarrow> (status \<times> 'a stack) option" where
  "stack_del_top s =
     (if top s > 0 then
        (if top s - 1 < length (elements s)
         then do { _ \<leftarrow> elements s ! (top s - 1);
                   Some (SUCCESS, s\<lparr>top := top s - 1, elements := (elements s)[top s - 1 := None]\<rparr>) }
         else None)
      else Some (SUCCESS, s))"

text \<open>\<^verbatim>\<open>FAILURE\<close> is -1, which the callers of \<^verbatim>\<open>stack_int_top\<close> do not tell from an element -1.\<close>

definition stack_int_top :: "int stack \<Rightarrow> int option" where
  "stack_int_top s = do {
     (st, e) \<leftarrow> stack_top s;
     (case e of Some n \<Rightarrow> Some n | None \<Rightarrow> Some (- 1))
   }"

definition stack_is_empty :: "'a stack \<Rightarrow> bool" where
  "stack_is_empty s = (top s = 0)"

fun free_elements :: "nat \<Rightarrow> nat \<Rightarrow> 'a option list \<Rightarrow> 'a option list option" where
  "free_elements i 0 es = Some es"
| "free_elements i (Suc n) es =
     (if i < length es
      then do { _ \<leftarrow> es ! i; free_elements (Suc i) n (es[i := None]) }
      else None)"

text \<open>The blocks still live after \<^verbatim>\<open>stack_destroy\<close>; the array itself is freed.\<close>

definition stack_destroy :: "'a stack \<Rightarrow> (status \<times> 'a option list) option" where
  "stack_destroy s = do { es \<leftarrow> free_elements 0 (top s) (elements s); Some (SUCCESS, es) }"

subsection \<open>The contract\<close>

text \<open>
  What the interpreter relies on: the operations never go wrong on a well-formed stack and act
  as \<open>Cons\<close>, \<open>hd\<close> and \<open>tl\<close> on the list of its elements, top first.
\<close>

locale lifo =
  fixes inv :: "'s \<Rightarrow> bool"
    and contents :: "'s \<Rightarrow> 'a list"
    and push :: "'s \<Rightarrow> 'a \<Rightarrow> 's option"
    and peek :: "'s \<Rightarrow> 'a option option"
    and pop :: "'s \<Rightarrow> 's option"
  assumes push_law: "inv s \<Longrightarrow> \<exists>s'. push s x = Some s' \<and> inv s' \<and> contents s' = x # contents s"
    and peek_law: "inv s \<Longrightarrow> peek s = Some (case contents s of [] \<Rightarrow> None | x # _ \<Rightarrow> Some x)"
    and pop_law: "inv s \<Longrightarrow> \<exists>s'. pop s = Some s' \<and> inv s' \<and> contents s' = tl (contents s)"
begin

lemma push_list:
  "inv s \<Longrightarrow> \<exists>s'. foldl (\<lambda>r x. Option.bind r (\<lambda>t. push t x)) (Some s) xs = Some s' \<and> inv s' \<and>
                  contents s' = rev xs @ contents s"
proof (induction xs arbitrary: s)
  case (Cons x xs)
  obtain s1 where s1: "push s x = Some s1" "inv s1" "contents s1 = x # contents s"
    using push_law[OF Cons.prems] by blast
  then show ?case using Cons.IH[OF s1(2)] by auto
qed simp

lemma pop_times:
  "inv s \<Longrightarrow> \<exists>s'. ((\<lambda>r. Option.bind r pop) ^^ n) (Some s) = Some s' \<and> inv s' \<and>
                  contents s' = drop n (contents s)"
proof (induction n)
  case (Suc n)
  then obtain s1 where s1: "((\<lambda>r. Option.bind r pop) ^^ n) (Some s) = Some s1" "inv s1"
    "contents s1 = drop n (contents s)" by blast
  then show ?case using pop_law[OF s1(2)] by (auto simp: drop_Suc tl_drop)
qed simp

text \<open>Last in, first out.\<close>

lemma push_pop:
  assumes "inv s"
  shows "\<exists>s1 s2. foldl (\<lambda>r x. Option.bind r (\<lambda>t. push t x)) (Some s) xs = Some s1 \<and>
           ((\<lambda>r. Option.bind r pop) ^^ k) (Some s1) = Some s2 \<and> inv s2 \<and>
           contents s2 = drop k (rev xs @ contents s)"
proof -
  obtain s1 where "foldl (\<lambda>r x. Option.bind r (\<lambda>t. push t x)) (Some s) xs = Some s1" "inv s1"
      "contents s1 = rev xs @ contents s"
    using push_list[OF assms, of xs] by blast
  then show ?thesis using pop_times[of s1 k] by auto
qed

end

subsection \<open>The code meets the contract\<close>

definition stack_inv :: "'a stack \<Rightarrow> bool" where
  "stack_inv s \<longleftrightarrow>
     length (elements s) = max_size s \<and> top s \<le> max_size s \<and> STACK_BLOCK_SIZE \<le> max_size s \<and>
     STACK_BLOCK_SIZE dvd max_size s \<and>
     (\<forall>i < max_size s. elements s ! i = None \<longleftrightarrow> top s \<le> i)"

definition stack_contents :: "'a stack \<Rightarrow> 'a list" where
  "stack_contents s = rev (map the (take (top s) (elements s)))"

lemma stack_init_ok:
  "fst (stack_init :: status \<times> 'a stack) = SUCCESS"
  "stack_inv (snd (stack_init :: status \<times> 'a stack))"
  "stack_contents (snd (stack_init :: status \<times> 'a stack)) = []"
  by (simp_all add: stack_init_def stack_inv_def stack_contents_def)

lemma stack_push_ok:
  assumes "stack_inv s"
  shows "\<exists>s'. stack_push s e = Some (top s, s') \<and> stack_inv s' \<and> top s' = Suc (top s) \<and>
              stack_contents s' = e # stack_contents s"
proof -
  define s1 where "s1 = (if top s \<ge> max_size s
                then s\<lparr>max_size := max_size s + STACK_BLOCK_SIZE,
                       elements := elements s @ replicate STACK_BLOCK_SIZE None\<rparr>
                else s)"
  have s1: "stack_inv s1" "top s1 = top s" "top s1 < max_size s1" "stack_contents s1 = stack_contents s"
    using assms by (auto simp: s1_def stack_inv_def stack_contents_def nth_append STACK_BLOCK_SIZE_def)
  let ?s' = "s1\<lparr>elements := (elements s1)[top s1 := Some e], top := Suc (top s1)\<rparr>"
  have l: "top s1 < length (elements s1)" using s1 by (simp add: stack_inv_def)
  have "stack_push s e = Some (top s1, ?s')"
    unfolding stack_push_def s1_def[symmetric] Let_def using l by simp
  moreover have "stack_inv ?s'"
    using s1(1,3) l by (auto simp: stack_inv_def nth_list_update)
  moreover have "stack_contents ?s' = e # stack_contents s1"
    using l by (simp add: stack_contents_def take_Suc_conv_app_nth)
  ultimately show ?thesis using s1 by simp
qed

lemma stack_top_elem:
  assumes "stack_inv s" "top s > 0"
  obtains e where "elements s ! (top s - 1) = Some e" "top s - 1 < length (elements s)"
    "stack_contents s = e # rev (map the (take (top s - 1) (elements s)))"
proof -
  obtain n where n: "top s = Suc n" using assms(2) by (cases "top s") auto
  have l: "n < length (elements s)" using assms n by (simp add: stack_inv_def)
  moreover obtain e where "elements s ! n = Some e"
    using assms n l by (cases "elements s ! n") (auto simp: stack_inv_def)
  moreover have "stack_contents s = the (elements s ! n) # rev (map the (take n (elements s)))"
    using n l by (simp add: stack_contents_def take_Suc_conv_app_nth)
  ultimately show ?thesis using n by (intro that[of e]) simp_all
qed

lemma stack_top_ok:
  assumes "stack_inv s"
  shows "stack_top s = Some (case stack_contents s of [] \<Rightarrow> (FAILURE, None) | x # _ \<Rightarrow> (SUCCESS, Some x))"
proof (cases "top s > 0")
  case True
  from stack_top_elem[OF assms this] show ?thesis
    by (metis (no_types, lifting) True bind.bind_lunit list.simps(5) stack_top_def)
next
  case False
  then show ?thesis by (simp add: stack_top_def stack_contents_def)
qed

lemma stack_del_top_ok:
  assumes "stack_inv s"
  shows "\<exists>s'. stack_del_top s = Some (SUCCESS, s') \<and> stack_inv s' \<and>
              stack_contents s' = tl (stack_contents s)"
proof (cases "top s > 0")
  case True
  then obtain e where e: "elements s ! (top s - 1) = Some e" "top s - 1 < length (elements s)"
    "stack_contents s = e # rev (map the (take (top s - 1) (elements s)))"
    by (rule stack_top_elem[OF assms])
  let ?s' = "s\<lparr>top := top s - 1, elements := (elements s)[top s - 1 := None]\<rparr>"
  have "stack_del_top s = Some (SUCCESS, ?s')" using e True by (simp add: stack_del_top_def)
  moreover have "stack_inv ?s'"
    using assms True e(2) by (auto simp: stack_inv_def nth_list_update)
  moreover have "stack_contents ?s' = tl (stack_contents s)" unfolding e(3) by (simp add: stack_contents_def)
  ultimately show ?thesis by simp
next
  case False
  then show ?thesis using assms by (simp add: stack_del_top_def stack_contents_def)
qed

lemma stack_is_empty_ok: "stack_inv s \<Longrightarrow> stack_is_empty s \<longleftrightarrow> stack_contents s = []"
  by (auto simp: stack_is_empty_def stack_contents_def stack_inv_def STACK_BLOCK_SIZE_def)

lemma stack_int_top_ok:
  "stack_inv s \<Longrightarrow> stack_int_top s = Some (case stack_contents s of [] \<Rightarrow> - 1 | n # _ \<Rightarrow> n)"
  by (simp add: stack_int_top_def stack_top_ok split: list.split)

interpretation st: lifo stack_inv stack_contents
  "\<lambda>s x. map_option snd (stack_push s x)" "\<lambda>s. map_option snd (stack_top s)"
  "\<lambda>s. map_option snd (stack_del_top s)"
proof unfold_locales
  fix s :: "'a stack" and x
  assume inv: "stack_inv s"
  show "\<exists>s'. map_option snd (stack_push s x) = Some s' \<and> stack_inv s' \<and>
      stack_contents s' = x # stack_contents s"
    using stack_push_ok[OF inv, of x] by auto
  show "map_option snd (stack_top s) = Some (case stack_contents s of [] \<Rightarrow> None | x # _ \<Rightarrow> Some x)"
    using stack_top_ok[OF inv] by (simp split: list.split)
  show "\<exists>s'. map_option snd (stack_del_top s) = Some s' \<and> stack_inv s' \<and>
      stack_contents s' = tl (stack_contents s)"
    using stack_del_top_ok[OF inv] by auto
qed

text \<open>\<^verbatim>\<open>stack_destroy\<close> frees every element exactly once.\<close>

lemma free_elements_ok:
  assumes "i + n \<le> length es" and "\<forall>j < n. es ! (i + j) \<noteq> None"
  shows "free_elements i n es = Some (take i es @ replicate n None @ drop (i + n) es)"
  using assms
proof (induction n arbitrary: i es)
  case (Suc n)
  obtain x where x: "es ! i = Some x" using Suc.prems(2) by fastforce
  have "free_elements (Suc i) n (es[i := None]) =
      Some (take (Suc i) (es[i := None]) @ replicate n None @ drop (Suc i + n) (es[i := None]))"
  proof (rule Suc.IH)
    show "Suc i + n \<le> length (es[i := None])" using Suc.prems(1) by simp
    show "\<forall>j<n. es[i := None] ! (Suc i + j) \<noteq> None"
    proof (intro allI impI)
      fix j assume "j < n"
      then have "es ! (i + Suc j) \<noteq> None" using Suc.prems(2) by blast
      then show "es[i := None] ! (Suc i + j) \<noteq> None" by simp
    qed
  qed
  moreover have "i < length es" using Suc.prems(1) by simp
  ultimately show ?case using x by (simp add: take_Suc_conv_app_nth)
qed simp

lemma stack_destroy_ok:
  assumes "stack_inv s"
  shows "stack_destroy s = Some (SUCCESS, replicate (max_size s) None)"
proof -
  have "free_elements 0 (top s) (elements s) =
      Some (take 0 (elements s) @ replicate (top s) None @ drop (0 + top s) (elements s))"
    by (rule free_elements_ok) (use assms in \<open>auto simp: stack_inv_def\<close>)
  moreover have "replicate (top s) None @ drop (top s) (elements s) = replicate (max_size s) None"
  proof (rule nth_equalityI)
    show "length (replicate (top s) None @ drop (top s) (elements s)) =
        length (replicate (max_size s) (None :: 'a option))"
      using assms by (simp add: stack_inv_def)
    fix i assume "i < length (replicate (top s) None @ drop (top s) (elements s))"
    then show "(replicate (top s) None @ drop (top s) (elements s)) ! i = replicate (max_size s) None ! i"
      using assms by (auto simp: stack_inv_def nth_append)
  qed
  ultimately show ?thesis by (simp add: stack_destroy_def)
qed

end
