(* ===== verification/Core_Properties.thy ===== *)
theory Core_Properties
  imports Php_Arith Php_Constants Php_List Php_Stack Hash_Properties
begin

text \<open>
  Properties of the values and operators, the constants, the resource lists and the stack, each
  with an instance.
\<close>

subsection \<open>Operators\<close>

text \<open>C33: \<^verbatim>\<open>add_function\<close> and \<^verbatim>\<open>sub_function\<close> on longs are exact: a sum above \<^verbatim>\<open>LONG_MAX\<close> and a
  difference below \<^verbatim>\<open>LONG_MIN\<close> become the double that holds it. On the other side, which the code
  does not test, the result wraps to a long of the wrong sign.\<close>
theorem add_sub_longs:
  "(\<exists>r. add_function (IS_LONG a) (IS_LONG b) = (SUCCESS, r) \<and>
     (if LONG_MAX < sint a + sint b then \<exists>d. r = IS_DOUBLE d \<and> holds_int d (sint a + sint b)
      else if LONG_MIN \<le> sint a + sint b then r = long (sint a + sint b) \<and> sint (lval r) = sint a + sint b
      else r = IS_LONG (a + b) \<and> sint (a + b) = sint a + sint b + 2 ^ 32 \<and> 0 \<le> sint (a + b))) \<and>
   (\<exists>r. sub_function (IS_LONG a) (IS_LONG b) = (SUCCESS, r) \<and>
     (if sint a - sint b < LONG_MIN then \<exists>d. r = IS_DOUBLE d \<and> holds_int d (sint a - sint b)
      else if sint a - sint b \<le> LONG_MAX then r = long (sint a - sint b) \<and> sint (lval r) = sint a - sint b
      else r = IS_LONG (a - b) \<and> sint (a - b) = sint a - sint b - 2 ^ 32 \<and> sint (a - b) < 0))"
  using add_longs[of a b] sub_longs[of a b] by blast

text \<open>C35: \<^verbatim>\<open>div_function\<close> on longs gives the exact quotient as a long when the divisor divides, a
  double otherwise, and traps on \<^verbatim>\<open>LONG_MIN / -1\<close>; \<^verbatim>\<open>mod_function\<close> gives the remainder with the sign
  of the dividend; a zero divisor is an error.\<close>
theorem div_mod_longs:
  "if sint b = 0
   then div_function (IS_LONG a) (IS_LONG b) = Some (FAILURE, var_reset) \<and>
        mod_function (IS_LONG a) (IS_LONG b) = Some (FAILURE, var_reset)
   else if sint a = LONG_MIN \<and> sint b = - 1
   then div_function (IS_LONG a) (IS_LONG b) = None \<and> mod_function (IS_LONG a) (IS_LONG b) = None
   else div_function (IS_LONG a) (IS_LONG b) =
          Some (SUCCESS, if sint b dvd sint a then long (sint a div sint b)
                         else IS_DOUBLE (ddiv (l2d a) (l2d b))) \<and>
        (\<exists>r. mod_function (IS_LONG a) (IS_LONG b) = Some (SUCCESS, IS_LONG r) \<and>
             \<bar>sint r\<bar> < \<bar>sint b\<bar> \<and> (\<exists>q. sint a = q * sint b + sint r) \<and>
             (sint r = 0 \<or> sgn (sint r) = sgn (sint a)))"
proof -
  have zero: "div_function (IS_LONG a) (IS_LONG 0) = Some (FAILURE, var_reset)"
    "mod_function (IS_LONG a) (IS_LONG 0) = Some (FAILURE, var_reset)"
    by (simp_all add: div_function_def mod_function_def convert_to_long_def)
  have trap: "mod_function (IS_LONG a) (IS_LONG b) = None" if "sint a = LONG_MIN" "sint b = - 1"
  proof -
    have "b \<noteq> 0" using that(2) by auto
    then show ?thesis using that by (simp add: mod_function_def convert_to_long_def)
  qed
  have "sint b = 0 \<longleftrightarrow> b = 0" by (metis signed_0 word_of_sint)
  then show ?thesis
    using zero trap div_longs[of b a] mod_longs[of b a] by (cases "b = 0") auto
qed

text \<open>\<^verbatim>\<open>compare_function\<close> subtracts longs: the order it gives is right exactly when the
  difference does not overflow; equality is always right.\<close>
theorem compare_longs:
  "is_smaller_function (IS_LONG a) (IS_LONG b) =
     (SUCCESS, IS_LONG (if (sint a < sint b) = (LONG_MIN \<le> sint a - sint b \<and> sint a - sint b \<le> LONG_MAX)
                        then 1 else 0)) \<and>
   is_equal_function (IS_LONG a) (IS_LONG b) = (SUCCESS, IS_LONG (if a = b then 1 else 0))"
  using smaller_longs equal_longs by blast

text \<open>\<^verbatim>\<open>xor\<close> joins the bits of two integers: two values that are both true give true.\<close>

lemma xor_of_two_truths:
  "boolean_xor_function (IS_LONG 2) (IS_LONG 1) = (SUCCESS, IS_LONG 3) \<and> pval_is_true (IS_LONG 2) \<and> pval_is_true (IS_LONG 1) \<and>
    pval_is_true (IS_LONG 3)"
  by code_simp











text \<open>incrementing a string of digits, of lower-case or of upper-case letters counts: it is
  one more as a decimal number, or as a number with the digits a=1 to z=26, carries included.\<close>
theorem increment_counts:
  assumes "s \<noteq> []"
  shows "((\<forall>c \<in> set s. is_digit c) \<longrightarrow> count_value 10 48 (increment_string s) = count_value 10 48 s + 1) \<and>
    ((\<forall>c \<in> set s. is_lower c) \<longrightarrow> count_value 26 96 (increment_string s) = count_value 26 96 s + 1) \<and>
    ((\<forall>c \<in> set s. is_upper c) \<longrightarrow> count_value 26 64 (increment_string s) = count_value 26 64 s + 1)"
  using increment_string_counts[OF assms] by blast

theorem increment_counts_witness:
  "count_value 26 96 (increment_string ''az'') = 53 \<and> count_value 10 48 (increment_string ''99'') = 100"
  using increment_counts[of "''az''"] increment_counts[of "''99''"]
  by (simp add: is_lower_def is_digit_def byte_of_def count_value_def)

text \<open>\<^verbatim>\<open>php3_binary_strcmp\<close> is the lexicographic order of the bytes, whatever they are, and
  \<^verbatim>\<open>php3_binary_strcasecmp\<close> is zero exactly on strings that are the same in lower case.\<close>
theorem strcmp_order:
  "(php3_binary_strcmp s t < 0 \<longleftrightarrow> bytes_less s t) \<and> (php3_binary_strcmp s t = 0 \<longleftrightarrow> s = t) \<and>
   (php3_binary_strcmp s t > 0 \<longleftrightarrow> bytes_less t s) \<and>
   (php3_binary_strcasecmp s t = 0 \<longleftrightarrow> php3_str_tolower s = php3_str_tolower t)"
  using binary_strcmp_sign binary_strcasecmp_eq by blast

subsection \<open>Constants\<close>

text \<open>C40: a constant registered under a new name is found afterwards, by its exact name if it is
  case-sensitive and under any case if it is not; no other lookup changes.\<close>
theorem constant_found_after_register:
  assumes "table_inv t" and "c_name c = name @ [NUL]" and "constant_at t name = None"
  shows "\<exists>t'. register_constant c t = Some t' \<and> table_inv t' \<and>
    (\<forall>n. php3_get_constant t' n =
       (if php3_str_tolower n = php3_str_tolower name
        then Some (if c_flags c AND CONST_CS = 0 \<or> n = name then Some (c_value c) else None)
        else php3_get_constant t n))"
  by (rule register_then_get[OF assms])

lemma new_constants: "\<exists>t :: constants. table_inv t \<and> hash_entries t = []"
  using init_ok[of False "[]" 20 None True, where ?'a = php3_constant] by (auto simp: table_inv_def)

theorem constant_found_after_register_witness:
  "\<exists>t t'. register_constant \<lparr>c_value = IS_LONG 5, c_flags = 0, c_name = ''Ab'' @ [NUL], c_module = 0\<rparr> t =
       Some t' \<and> php3_get_constant t' ''aB'' = Some (Some (IS_LONG 5))"
proof -
  obtain t :: constants where t: "table_inv t" "hash_entries t = []" using new_constants by blast
  then have "constant_at t ''Ab'' = None" by (simp add: constant_at_def)
  from constant_found_after_register[OF t(1) _ this,
      of "\<lparr>c_value = IS_LONG 5, c_flags = 0, c_name = ''Ab'' @ [NUL], c_module = 0\<rparr>"]
  obtain t' where t': "register_constant \<lparr>c_value = IS_LONG 5, c_flags = 0, c_name = ''Ab'' @ [NUL], c_module = 0\<rparr> t = Some t'"
    "\<And>n. php3_get_constant t' n = (if php3_str_tolower n = php3_str_tolower ''Ab''
        then Some (Some (IS_LONG 5)) else php3_get_constant t n)"
    by auto
  have "php3_str_tolower ''aB'' = php3_str_tolower ''Ab''"
    by code_simp
  then have "php3_get_constant t' ''aB'' = Some (Some (IS_LONG 5))" using t'(2) by simp
  then show ?thesis using t'(1) by blast
qed

text \<open>\<^verbatim>\<open>define\<close> ignores its third argument: the constant is case-sensitive whatever it is,
  because \<^verbatim>\<open>case_sensitive | ~CONST_PERSISTENT\<close> sets every other flag.\<close>
theorem define_is_case_sensitive:
  assumes "table_inv t" and "is_scalar v" and "constant_at t name = None"
    and "non_cs = None \<or> (\<exists>k. non_cs = Some (IS_LONG k))"
  shows "\<exists>t'. php3_define precision m (IS_STRING name) v non_cs t = Some (True, t') \<and> table_inv t' \<and>
    (\<forall>n. php3_get_constant t' n =
       (if php3_str_tolower n = php3_str_tolower name then Some (if n = name then Some v else None)
        else php3_get_constant t n))"
  by (rule define_then_get[OF assms])

theorem define_is_case_sensitive_witness:
  "\<exists>t t'. php3_define 14 0 (IS_STRING ''A'') (IS_LONG 5) (Some (IS_LONG 1)) t = Some (True, t') \<and>
     php3_get_constant t' ''A'' = Some (Some (IS_LONG 5)) \<and> php3_get_constant t' ''a'' = Some None"
proof -
  obtain t :: constants where t: "table_inv t" "hash_entries t = []" using new_constants by blast
  then have "constant_at t ''A'' = None" by (simp add: constant_at_def)
  moreover have "php3_str_tolower ''a'' = php3_str_tolower ''A''"
    by code_simp
  ultimately obtain t' where
    "php3_define 14 0 (IS_STRING ''A'') (IS_LONG 5) (Some (IS_LONG 1)) t = Some (True, t')"
    "php3_get_constant t' ''A'' = Some (Some (IS_LONG 5))" "php3_get_constant t' ''a'' = Some None"
    using define_is_case_sensitive[OF t(1), of "IS_LONG 5" "''A''" "Some (IS_LONG 1)" 14 0] by auto
  then show ?thesis by blast
qed

text \<open>the end of a request removes exactly the constants without \<^verbatim>\<open>CONST_PERSISTENT\<close>.\<close>
theorem clean_keeps_persistent:
  assumes "hash_inv t" and "no_clash t"
  shows "\<exists>t'. clean_non_persistent_constants t = Some t' \<and> hash_inv t' \<and>
    hash_entries t' = filter (\<lambda>e. c_flags (snd e) AND CONST_PERSISTENT \<noteq> 0) (hash_entries t)"
  by (rule clean_non_persistent_ok[OF assms])

theorem clean_keeps_persistent_witness:
  "\<exists>t t'. clean_non_persistent_constants t = Some t' \<and> hash_entries t' = [] \<and> hash_entries t \<noteq> []"
proof -
  let ?c = "\<lparr>c_value = IS_LONG 5, c_flags = 1, c_name = [NUL], c_module = 0\<rparr>"
  obtain t0 :: constants where t0: "table_inv t0" "hash_entries t0 = []" using new_constants by blast
  have "\<exists>r t. hash_index_update t0 4 ?c = Some (SUCCESS, r, t) \<and> table_inv t \<and>
      same_frame t0 t \<and> array_of t = arr_update (array_of t0) (IntKey 4) ?c"
    by (rule index_update_table[OF t0(1)])
  then obtain t where t: "table_inv t" "hash_entries t = [(IntKey 4, ?c)]"
    using t0(2) by (auto simp: array_of_def arr_update_def)
  then have "hash_inv t" "no_clash t" by (auto simp: table_inv_def no_clash_def has_key_def)
  from clean_keeps_persistent[OF this] t(2) show ?thesis by (fastforce simp: CONST_PERSISTENT_def)
qed

subsection \<open>Resource lists and the stack\<close>

text \<open>\<^verbatim>\<open>php3_list_do_insert\<close> gives an id that is positive and not in use, under which the
  pointer and its type are found; all other resources stay. Deleting an id removes exactly it.\<close>
theorem resource_ids_fresh:
  assumes "resource_list l" and "nNextFreeElement l < 0xFFFFFFFF"
  shows "\<exists>i l'. php3_list_do_insert l p ty = Some (i, l') \<and> resource_list l' \<and> 0 < i \<and>
           resource_at l i = None \<and> php3_list_do_find l' i = Some (Some p, ty) \<and>
           (\<forall>j. j \<noteq> i \<longrightarrow> php3_list_do_find l' j = php3_list_do_find l j)"
proof -
  obtain i l' where i: "php3_list_do_insert l p ty = Some (i, l')" "resource_list l'" "0 < i"
      "resource_at l i = None"
      "\<And>j. resource_at l' j = (if j = i then Some \<lparr>le_ptr = p, le_type = ty\<rparr> else resource_at l j)"
    using list_insert_ok[OF assms, of p ty] by blast
  then show ?thesis using list_find_ok[OF i(2)] list_find_ok[OF assms(1)] by (auto split: option.split)
qed

theorem resource_ids_fresh_witness:
  "\<exists>l i l'. php3_list_do_insert l (''handle'') 3 = Some (i, l') \<and> 0 < i \<and>
     php3_list_do_find l' i = Some (Some ''handle'', 3)"
proof -
  obtain l :: "string list_entry hashtable" where "table_inv l" "hash_entries l = []" "nNextFreeElement l = 0"
    using init_ok[of False "[]" 0 None True, where ?'a = "string list_entry"] by (auto simp: table_inv_def)
  then have "resource_list l" "nNextFreeElement l < 0xFFFFFFFF" by (simp_all add: resource_list_def)
  from resource_ids_fresh[OF this, of "''handle''" 3] show ?thesis by blast
qed

text \<open>on a well-formed stack, pushing the elements of a list and popping any number of times
  never goes wrong and leaves what it should: a block is never used after it was freed, whatever
  the growth of the array.\<close>
theorem stack_push_pop:
  assumes "stack_inv s"
  shows "\<exists>s1 s2. foldl (\<lambda>r x. Option.bind r (\<lambda>t. map_option snd (stack_push t x))) (Some s) xs = Some s1 \<and>
           ((\<lambda>r. Option.bind r (\<lambda>t. map_option snd (stack_del_top t))) ^^ k) (Some s1) = Some s2 \<and>
           stack_inv s2 \<and> stack_contents s2 = drop k (rev xs @ stack_contents s)"
  using st.push_pop[OF assms, of xs k] by simp

theorem stack_push_pop_witness:
  "\<exists>s1 s2. foldl (\<lambda>r x. Option.bind r (\<lambda>t. map_option snd (stack_push t x)))
       (Some (snd stack_init)) [1, 2, 3 :: nat] = Some s1 \<and>
     ((\<lambda>r. Option.bind r (\<lambda>t. map_option snd (stack_del_top t))) ^^ 1) (Some s1) = Some s2 \<and>
     stack_contents s2 = [2, 1]"
  using stack_push_pop[OF stack_init_ok(2), of "[1, 2, 3 :: nat]" 1] by (auto simp: stack_init_ok)

end
