(* ===== verification/Control_Model.thy ===== *)
theory Control_Model
  imports Php_Operators Php_Stack
begin

text \<open>
  The control structures of \<^verbatim>\<open>control_structures_inline.h\<close>. The interpreter executes a script
  while it parses it: the parser runs over every token once, the actions of
  \<^verbatim>\<open>language-parser.y\<close> call the handlers below, and \<^verbatim>\<open>Execute\<close> says whether the current code has
  any effect. A loop jumps back by rewriting its first token and moving the token cache to it
  (\<^verbatim>\<open>seek_token\<close>); a \<^verbatim>\<open>for\<close> moreover swaps its second and third expression in the cache after
  the first iteration (\<^verbatim>\<open>tc_switch\<close>), so that the increment comes before the condition.

  \<open>istate\<close> is the part of the globals the handlers use. The stacks are the contents of the stacks
  of \<^verbatim>\<open>stack.c\<close>, top first (\<open>Php_Stack\<close>); \<^verbatim>\<open>stack_int_top\<close> of an empty stack is -1. \<open>tok\<close> is the
  type of the token at an offset, \<open>switched\<close> the flag \<^verbatim>\<open>cs_data.switched\<close> of the token and
  \<open>swapped\<close> whether \<^verbatim>\<open>tc_switch\<close> has swapped the expressions behind it. \<open>env\<close> is everything the
  expressions of a script can read and change: the variables and the output.
\<close>

abbreviation EXECUTE :: int where "EXECUTE \<equiv> 0"
abbreviation BEFORE_EXECUTE :: int where "BEFORE_EXECUTE \<equiv> 1"
abbreviation DONT_EXECUTE :: int where "DONT_EXECUTE \<equiv> 2"

datatype change = DO_NOTHING | DO_BREAK | DO_CONTINUE

datatype token =
  WHILE | CONTINUED_WHILE | DO | CONTINUED_DOWHILE | FOR | CONTINUED_FOR | SWITCH

record switch_expr =
  se_expr :: pval
  se_offset :: int
  se_Execute :: bool

record 'e istate =
  Execute :: bool
  ExecuteFlag :: int
  css :: "int list"
  for_stack :: "int list"
  switch_stack :: "switch_expr list"
  loop_nest_level :: int
  loop_change_type :: change
  loop_change_level :: int
  returned :: bool
  return_value :: pval
  tok :: "int \<Rightarrow> token"
  switched :: "int \<Rightarrow> bool"
  swapped :: "int \<Rightarrow> bool"
  env :: 'e

definition int_top :: "int list \<Rightarrow> int" where
  "int_top st = (case st of [] \<Rightarrow> - 1 | n # _ \<Rightarrow> n)"

definition should_execute :: "'e istate \<Rightarrow> bool" where
  "should_execute s \<longleftrightarrow>
     ExecuteFlag s = EXECUTE \<and> \<not> returned s \<and> loop_change_type s = DO_NOTHING"

text \<open>\<^verbatim>\<open>ExecuteFlag = f; Execute = SHOULD_EXECUTE;\<close>\<close>

definition set_flag :: "int \<Rightarrow> 'e istate \<Rightarrow> 'e istate" where
  "set_flag f s = (let s1 = s\<lparr>ExecuteFlag := f\<rparr> in s1\<lparr>Execute := should_execute s1\<rparr>)"

definition push_flag :: "'e istate \<Rightarrow> 'e istate" where
  "push_flag s = s\<lparr>css := ExecuteFlag s # css s\<rparr>"

definition pop_flag :: "'e istate \<Rightarrow> 'e istate" where
  "pop_flag s = set_flag (int_top (css s)) (s\<lparr>css := tl (css s)\<rparr>)"

definition tc_set_token :: "int \<Rightarrow> token \<Rightarrow> 'e istate \<Rightarrow> 'e istate" where
  "tc_set_token off t s = s\<lparr>tok := (tok s)(off := t)\<rparr>"

subsection \<open>\<^verbatim>\<open>while\<close> and \<^verbatim>\<open>do\<close>\<close>

definition cs_start_while :: "int \<Rightarrow> pval \<Rightarrow> 'e istate \<Rightarrow> 'e istate" where
  "cs_start_while off expr s0 =
     (let s = push_flag (s0\<lparr>loop_nest_level := loop_nest_level s0 + 1\<rparr>)
      in if Execute s then
           set_flag (if pval_is_true expr then EXECUTE else DONT_EXECUTE) (tc_set_token off WHILE s)
         else s)"

definition change_here :: "'e istate \<Rightarrow> bool" where
  "change_here s \<longleftrightarrow>
     loop_change_type s \<noteq> DO_NOTHING \<and> loop_change_level s = loop_nest_level s"

definition clear_change :: "'e istate \<Rightarrow> 'e istate" where
  "clear_change s = s\<lparr>loop_change_type := DO_NOTHING, loop_change_level := 0\<rparr>"

definition leave_loop :: "'e istate \<Rightarrow> 'e istate" where
  "leave_loop s = (let s1 = pop_flag s in s1\<lparr>loop_nest_level := loop_nest_level s1 - 1\<rparr>)"

text \<open>The handlers that end an iteration also return whether they moved back to the loop's token.\<close>

definition cs_end_while :: "int \<Rightarrow> 'e istate \<Rightarrow> bool \<times> 'e istate" where
  "cs_end_while off s =
     (let (seek, s1) =
        (if Execute s then (True, tc_set_token off CONTINUED_WHILE s)
         else if change_here s then
           (if loop_change_type s = DO_CONTINUE
            then (True, clear_change (tc_set_token off CONTINUED_WHILE s))
            else (False, clear_change s))
         else (False, s))
      in (seek, leave_loop s1))"

definition cs_start_do_while :: "int \<Rightarrow> 'e istate \<Rightarrow> 'e istate" where
  "cs_start_do_while off s0 =
     (let s = push_flag (s0\<lparr>loop_nest_level := loop_nest_level s0 + 1\<rparr>)
      in if Execute s then tc_set_token off DO s else s)"

definition cs_force_eval_do_while :: "'e istate \<Rightarrow> 'e istate" where
  "cs_force_eval_do_while s =
     (if loop_change_level s = loop_nest_level s \<and> loop_change_type s = DO_CONTINUE
      then set_flag EXECUTE (clear_change s)
      else s)"

definition cs_end_do_while :: "int \<Rightarrow> pval \<Rightarrow> 'e istate \<Rightarrow> bool \<times> 'e istate" where
  "cs_end_do_while off expr s =
     (let (seek, s1) =
        (if Execute s \<and> pval_is_true expr then (True, tc_set_token off CONTINUED_DOWHILE s)
         else if change_here s then (False, clear_change s)
         else (False, s))
      in (seek, leave_loop s1))"

subsection \<open>\<^verbatim>\<open>if\<close>\<close>

definition cs_start_if :: "pval \<Rightarrow> 'e istate \<Rightarrow> 'e istate" where
  "cs_start_if expr s0 =
     (let s = push_flag s0
      in if Execute s then set_flag (if pval_is_true expr then EXECUTE else BEFORE_EXECUTE) s
         else s\<lparr>ExecuteFlag := DONT_EXECUTE\<rparr>)"

definition cs_end_if :: "'e istate \<Rightarrow> 'e istate" where
  "cs_end_if s = pop_flag s"

definition stop_if_executed :: "'e istate \<Rightarrow> 'e istate" where
  "stop_if_executed s = (if ExecuteFlag s = EXECUTE then set_flag DONT_EXECUTE s else s)"

definition cs_elseif_start_evaluate :: "'e istate \<Rightarrow> 'e istate" where
  "cs_elseif_start_evaluate s0 =
     (let s1 = stop_if_executed s0;
          local_stack_top = int_top (css s1);
          s2 = push_flag s1
      in if ExecuteFlag s2 = BEFORE_EXECUTE \<and> local_stack_top = EXECUTE
         then set_flag EXECUTE s2 else s2)"

definition cs_elseif_end_evaluate :: "'e istate \<Rightarrow> 'e istate" where
  "cs_elseif_end_evaluate s = pop_flag s"

definition cs_start_elseif :: "pval \<Rightarrow> 'e istate \<Rightarrow> 'e istate" where
  "cs_start_elseif expr s0 =
     (let s1 = stop_if_executed s0
      in if ExecuteFlag s1 = BEFORE_EXECUTE \<and> pval_is_true expr then set_flag EXECUTE s1 else s1)"

definition cs_start_else :: "'e istate \<Rightarrow> 'e istate" where
  "cs_start_else s0 =
     (let s1 = stop_if_executed s0
      in if ExecuteFlag s1 = BEFORE_EXECUTE then set_flag EXECUTE s1 else s1)"

subsection \<open>\<^verbatim>\<open>break\<close>, \<^verbatim>\<open>continue\<close> and \<^verbatim>\<open>return\<close>\<close>

text \<open>\<open>None\<close>: the level is a double that does not fit a long.\<close>

definition cs_break_continue ::
    "pval option \<Rightarrow> change \<Rightarrow> 'e istate \<Rightarrow> (status \<times> 'e istate) option" where
  "cs_break_continue expr op_type s =
     (if Execute s then do {
        level \<leftarrow> (case expr of
                    Some e \<Rightarrow> do { v \<leftarrow> convert_to_long e; Some (loop_nest_level s - sint (lval v) + 1) }
                  | None \<Rightarrow> Some (loop_nest_level s));
        let s1 = s\<lparr>loop_change_level := level\<rparr>;
        if level \<le> 0 then Some (FAILURE, s1)
        else if level > loop_nest_level s1 then Some (FAILURE, s1)
        else Some (SUCCESS, s1\<lparr>loop_change_type := op_type, Execute := False\<rparr>)
      }
      else Some (SUCCESS, s))"

text \<open>Inside a function (\<^verbatim>\<open>function_name\<close> is set). Outside of one, \<^verbatim>\<open>return\<close> ends the file in the scanner and prints the value.\<close>

definition cs_return :: "pval option \<Rightarrow> 'e istate \<Rightarrow> 'e istate" where
  "cs_return expr s =
     (if Execute s then
        set_flag DONT_EXECUTE
          (s\<lparr>return_value := (case expr of Some e \<Rightarrow> e | None \<Rightarrow> var_reset), returned := True\<rparr>)
      else s)"

subsection \<open>\<^verbatim>\<open>for\<close>\<close>

text \<open>\<open>sw\<close> is \<^verbatim>\<open>for_token->cs_data.switched\<close>, the copy the parser made when it read the token.\<close>

definition for_pre_expr1 :: "int \<Rightarrow> 'e istate \<Rightarrow> 'e istate" where
  "for_pre_expr1 off s0 =
     (let s = push_flag (s0\<lparr>loop_nest_level := loop_nest_level s0 + 1\<rparr>)
      in if Execute s then
           (let s1 = tc_set_token off FOR s
            in if int_top (for_stack s1) = off then set_flag DONT_EXECUTE s1 else s1)
         else s)"

definition for_pre_expr2 :: "int \<Rightarrow> bool \<Rightarrow> 'e istate \<Rightarrow> 'e istate" where
  "for_pre_expr2 off sw s0 =
     (let s = set_flag (int_top (css s0)) s0
      in if sw \<and> int_top (for_stack s) \<noteq> off then set_flag DONT_EXECUTE s else s)"

definition for_pre_expr3 :: "bool \<Rightarrow> 'e istate \<Rightarrow> 'e istate" where
  "for_pre_expr3 sw s0 =
     (let s = set_flag (int_top (css s0)) s0
      in if Execute s \<and> \<not> sw then set_flag DONT_EXECUTE s else s)"

definition for_pre_statement :: "bool \<Rightarrow> pval \<Rightarrow> pval \<Rightarrow> 'e istate \<Rightarrow> 'e istate" where
  "for_pre_statement sw expr2 expr3 s0 =
     (let s = set_flag (int_top (css s0)) s0
      in if Execute s \<and> sw then set_flag (if pval_is_true expr3 then EXECUTE else DONT_EXECUTE) s
         else if Execute s \<and> \<not> sw then set_flag (if pval_is_true expr2 then EXECUTE else DONT_EXECUTE) s
         else s)"

definition tc_switch_expressions :: "int \<Rightarrow> 'e istate \<Rightarrow> 'e istate" where
  "tc_switch_expressions off s = s\<lparr>swapped := (swapped s)(off := \<not> swapped s off)\<rparr>"

definition tc_set_switched :: "int \<Rightarrow> 'e istate \<Rightarrow> 'e istate" where
  "tc_set_switched off s = s\<lparr>switched := (switched s)(off := True)\<rparr>"

definition pop_for :: "int \<Rightarrow> 'e istate \<Rightarrow> 'e istate" where
  "pop_for off s = (if int_top (for_stack s) = off then s\<lparr>for_stack := tl (for_stack s)\<rparr> else s)"

definition for_post_statement :: "int \<Rightarrow> bool \<Rightarrow> 'e istate \<Rightarrow> bool \<times> 'e istate" where
  "for_post_statement off sw s0 =
     (let s1 = (if int_top (for_stack s0) \<noteq> off then s0\<lparr>for_stack := off # for_stack s0\<rparr> else s0);
          s = (if \<not> sw then tc_set_switched off (tc_switch_expressions off s1) else s1);
          (seek, s2) =
            (if Execute s then (True, tc_set_token off CONTINUED_FOR s)
             else if change_here s then
               (if loop_change_type s = DO_CONTINUE
                then (True, clear_change (tc_set_token off CONTINUED_FOR s))
                else (False, clear_change (pop_for off s)))
             else (False, pop_for off s))
      in (seek, leave_loop s2))"

subsection \<open>\<^verbatim>\<open>switch\<close>\<close>

definition cs_switch_start :: "int \<Rightarrow> pval \<Rightarrow> 'e istate \<Rightarrow> 'e istate" where
  "cs_switch_start off expr s0 =
     (let s = push_flag (s0\<lparr>loop_nest_level := loop_nest_level s0 + 1\<rparr>)
      in s\<lparr>switch_stack := \<lparr>se_expr = expr, se_offset = off, se_Execute = Execute s\<rparr> # switch_stack s\<rparr>)"

text \<open>\<open>None\<close> is \<^verbatim>\<open>default\<close>.\<close>

definition cs_switch_case_pre :: "pval option \<Rightarrow> 'e istate \<Rightarrow> 'e istate" where
  "cs_switch_case_pre case_expr s =
     (if Execute s then
        (case switch_stack s of
           [] \<Rightarrow> s
         | se # rest \<Rightarrow>
             if se_offset se \<noteq> - 1 then
               (let is_equal = (case case_expr of
                                  Some e \<Rightarrow> pval_is_true (snd (is_equal_function (se_expr se) e))
                                | None \<Rightarrow> False)
                in if case_expr = None \<or> is_equal
                   then set_flag EXECUTE (s\<lparr>switch_stack := se\<lparr>se_offset := - 1\<rparr> # rest\<rparr>)
                   else set_flag DONT_EXECUTE s)
             else s)
      else s)"

definition cs_switch_case_post :: "'e istate \<Rightarrow> 'e istate" where
  "cs_switch_case_post s = set_flag (int_top (css s)) s"

definition cs_switch_end :: "'e istate \<Rightarrow> 'e istate" where
  "cs_switch_end s =
     (let s1 = (if \<not> Execute s \<and> loop_change_level s = loop_nest_level s
                then s\<lparr>loop_change_type := DO_NOTHING\<rparr> else s);
          s2 = pop_flag s1
      in s2\<lparr>switch_stack := tl (switch_stack s2), loop_nest_level := loop_nest_level s2 - 1\<rparr>)"

subsection \<open>Short-circuit operators\<close>

text \<open>
  An action that is guarded by \<^verbatim>\<open>Execute\<close> leaves its result unset when it is false: \<open>junk\<close>, an
  arbitrary value.
\<close>

definition cs_pre_boolean_or :: "pval \<Rightarrow> 'e istate \<Rightarrow> 'e istate" where
  "cs_pre_boolean_or left s0 =
     (let s = push_flag s0
      in if Execute s \<and> pval_is_true left then set_flag DONT_EXECUTE s else s)"

definition cs_post_boolean_or :: "pval \<Rightarrow> pval \<Rightarrow> pval \<Rightarrow> 'e istate \<Rightarrow> pval \<times> 'e istate" where
  "cs_post_boolean_or junk left right s0 =
     (let s = pop_flag s0
      in (if Execute s then snd (boolean_or_function left right) else junk, s))"

definition cs_pre_boolean_and :: "pval \<Rightarrow> 'e istate \<Rightarrow> 'e istate" where
  "cs_pre_boolean_and left s0 =
     (let s = push_flag s0
      in if Execute s \<and> \<not> pval_is_true left then set_flag DONT_EXECUTE s else s)"

definition cs_post_boolean_and :: "pval \<Rightarrow> pval \<Rightarrow> pval \<Rightarrow> 'e istate \<Rightarrow> pval \<times> 'e istate" where
  "cs_post_boolean_and junk left right s0 =
     (let s = pop_flag s0
      in (if Execute s then snd (boolean_and_function left right) else junk, s))"

definition cs_questionmark_op_pre_expr1 :: "pval \<Rightarrow> 'e istate \<Rightarrow> 'e istate" where
  "cs_questionmark_op_pre_expr1 truth s0 =
     (let s = push_flag s0
      in if Execute s \<and> \<not> pval_is_true truth then set_flag DONT_EXECUTE s else s)"

definition cs_questionmark_op_pre_expr2 :: "pval \<Rightarrow> 'e istate \<Rightarrow> 'e istate" where
  "cs_questionmark_op_pre_expr2 truth s0 =
     (let s = set_flag (int_top (css s0)) s0
      in if Execute s \<and> pval_is_true truth then set_flag DONT_EXECUTE s else s)"

definition cs_questionmark_op_post_expr2 ::
    "pval \<Rightarrow> pval \<Rightarrow> pval \<Rightarrow> pval \<Rightarrow> 'e istate \<Rightarrow> pval \<times> 'e istate" where
  "cs_questionmark_op_post_expr2 junk truth expr1 expr2 s0 =
     (let s = pop_flag s0
      in (if Execute s then (if pval_is_true truth then expr1 else expr2) else junk, s))"

subsection \<open>Functions and \<^verbatim>\<open>require\<close>\<close>

text \<open>The body of a function is skipped when it is declared; the flags at its end.\<close>

definition start_function_decleration :: "'e istate \<Rightarrow> 'e istate" where
  "start_function_decleration s = set_flag DONT_EXECUTE (push_flag s)"

definition end_function_flags :: "'e istate \<Rightarrow> 'e istate" where
  "end_function_flags s = pop_flag s"

text \<open>
  \<^verbatim>\<open>require\<close> evaluates its expression also in code that is not executed, when it is read for the first time. The function
  state (here its flow of control) is kept in one global variable meanwhile, \<^verbatim>\<open>php3g_function_state_for_require\<close>.
  \<open>include_file\<close> pushes the file on the scanner; the first result is whether the token is marked as included.
\<close>

type_synonym flow = "int \<times> int \<times> change \<times> bool"

definition flow_of :: "'e istate \<Rightarrow> flow" where
  "flow_of s = (loop_nest_level s, loop_change_level s, loop_change_type s, returned s)"

fun set_flow :: "flow \<Rightarrow> 'e istate \<Rightarrow> 'e istate" where
  "set_flow (n, l, t, r) s = s\<lparr>loop_nest_level := n, loop_change_level := l, loop_change_type := t, returned := r\<rparr>"

definition php3cs_start_require :: "bool \<Rightarrow> 'e istate \<Rightarrow> flow \<times> 'e istate" where
  "php3cs_start_require included s =
     (flow_of s,
      let s1 = push_flag s
      in if \<not> included then set_flag EXECUTE (set_flow (0, 0, DO_NOTHING, False) s1) else set_flag DONT_EXECUTE s1)"

definition php3cs_end_require :: "('e istate \<Rightarrow> 'e istate) \<Rightarrow> flow \<Rightarrow> bool \<Rightarrow> 'e istate \<Rightarrow> bool \<times> 'e istate" where
  "php3cs_end_require include_file saved included s =
     (let s1 = pop_flag (set_flow saved s)
      in if \<not> included then (True, include_file s1) else (included, s1))"

text \<open>The flags and the flow of control are as before, whatever the expression was.\<close>

lemma require_restores:
  assumes "php3cs_start_require included s = (saved, s1)" "css s2 = css s1" "Execute s = should_execute s"
  shows "snd (php3cs_end_require (\<lambda>s. s) saved included s2) =
    s2\<lparr>loop_nest_level := loop_nest_level s, loop_change_level := loop_change_level s, loop_change_type := loop_change_type s,
      returned := returned s, ExecuteFlag := ExecuteFlag s, Execute := Execute s, css := css s\<rparr>"
  using assms by (auto simp: php3cs_start_require_def php3cs_end_require_def flow_of_def pop_flag_def set_flag_def
      push_flag_def int_top_def should_execute_def Let_def split: if_splits)

subsection \<open>The parser's actions\<close>

text \<open>
  The statements and expressions of \<^verbatim>\<open>language-parser.y\<close> that the handlers serve. \<open>Prim f\<close> is an
  expression without control structure: its action computes \<open>f\<close> when \<^verbatim>\<open>Execute\<close> is set. A loop
  carries the offset of its first token.
\<close>

datatype 'e expr =
    Prim "'e \<Rightarrow> pval \<times> 'e"
  | Or "'e expr" "'e expr"
  | And "'e expr" "'e expr"
  | Cond "'e expr" "'e expr" "'e expr"

datatype 'e stmt =
    Expr "'e expr"
  | Block "'e stmt list"
  | If "'e expr" "'e stmt" "('e expr \<times> 'e stmt) list" "'e stmt option"
  | While int "'e expr" "'e stmt"
  | DoWhile int "'e stmt" "'e expr"
  | For int "'e expr list" "'e expr list" "'e expr list" "'e stmt"
  | Switch int "'e expr" "('e expr option \<times> 'e stmt list) list"
  | Break "'e expr option"
  | Continue "'e expr option"
  | Return "'e expr option"

fun run_expr :: "pval \<Rightarrow> 'e expr \<Rightarrow> 'e istate \<Rightarrow> pval \<times> 'e istate" where
  "run_expr junk (Prim f) s =
     (if Execute s then (case f (env s) of (v, e) \<Rightarrow> (v, s\<lparr>env := e\<rparr>)) else (junk, s))"
| "run_expr junk (Or a b) s =
     (let (l, s1) = run_expr junk a s; (r, s2) = run_expr junk b (cs_pre_boolean_or l s1)
      in cs_post_boolean_or junk l r s2)"
| "run_expr junk (And a b) s =
     (let (l, s1) = run_expr junk a s; (r, s2) = run_expr junk b (cs_pre_boolean_and l s1)
      in cs_post_boolean_and junk l r s2)"
| "run_expr junk (Cond c a b) s =
     (let (t, s1) = run_expr junk c s;
          (x, s2) = run_expr junk a (cs_questionmark_op_pre_expr1 t s1);
          (y, s3) = run_expr junk b (cs_questionmark_op_pre_expr2 t s2)
      in cs_questionmark_op_post_expr2 junk t x y s3)"

text \<open>\<^verbatim>\<open>for_expr\<close>: an empty list counts as true; otherwise the value of the last expression.\<close>

fun run_exprs :: "pval \<Rightarrow> 'e expr list \<Rightarrow> 'e istate \<Rightarrow> pval \<times> 'e istate" where
  "run_exprs junk [] s = (IS_LONG 1, s)"
| "run_exprs junk [e] s = run_expr junk e s"
| "run_exprs junk (e # f # es) s = run_exprs junk (f # es) (snd (run_expr junk e s))"

fun run_expr_opt :: "pval \<Rightarrow> 'e expr option \<Rightarrow> 'e istate \<Rightarrow> pval option \<times> 'e istate" where
  "run_expr_opt junk None s = (None, s)"
| "run_expr_opt junk (Some e) s = (case run_expr junk e s of (v, s1) \<Rightarrow> (Some v, s1))"

text \<open>The parser goes on, or ends because an action failed (\<^verbatim>\<open>DO_OR_DIE\<close>).\<close>

datatype 'e result = Running "'e istate" | Aborted 'e

fun andthen :: "'e result option \<Rightarrow> ('e istate \<Rightarrow> 'e result option) \<Rightarrow> 'e result option" where
  "andthen (Some (Running s)) f = f s"
| "andthen r f = r"

text \<open>
  The iterations of a loop: the statement starts at a token of type \<open>first\<close>; when the end of an
  iteration moved back to it, the grammar's \<^verbatim>\<open>..._iterations\<close> rule takes the token, now of type
  \<open>again\<close>. Any other token is a parse error (\<open>None\<close>), as is running out of \<open>fuel\<close> iterations.
\<close>

fun iterate ::
    "nat \<Rightarrow> int \<Rightarrow> token \<Rightarrow> token \<Rightarrow> ('e istate \<Rightarrow> 'e result option \<times> ('e istate \<Rightarrow> bool \<times> 'e istate))
      \<Rightarrow> 'e istate \<Rightarrow> 'e result option" where
  "iterate 0 off first again body s = None"
| "iterate (Suc n) off first again body s =
     (if tok s off \<noteq> first then None
      else (case body s of
              (r, fin) \<Rightarrow> andthen r (\<lambda>s1. case fin s1 of
                 (seek, s2) \<Rightarrow> if seek then iterate n off again again body s2 else Some (Running s2))))"

fun run :: "pval \<Rightarrow> nat \<Rightarrow> 'e stmt \<Rightarrow> 'e istate \<Rightarrow> 'e result option"
  and run_block :: "pval \<Rightarrow> nat \<Rightarrow> 'e stmt list \<Rightarrow> 'e istate \<Rightarrow> 'e result option"
  and run_elseifs :: "pval \<Rightarrow> nat \<Rightarrow> ('e expr \<times> 'e stmt) list \<Rightarrow> 'e istate \<Rightarrow> 'e result option"
  and run_cases ::
    "pval \<Rightarrow> nat \<Rightarrow> ('e expr option \<times> 'e stmt list) list \<Rightarrow> 'e istate \<Rightarrow> 'e result option"
where
  "run junk n (Expr e) s = Some (Running (snd (run_expr junk e s)))"
| "run junk n (Block ss) s = run_block junk n ss s"
| "run junk n (If c a eifs els) s =
     (let (v, s1) = run_expr junk c s in
      andthen (run junk n a (cs_start_if v s1)) (\<lambda>s2.
      andthen (run_elseifs junk n eifs s2) (\<lambda>s3.
      andthen (case els of None \<Rightarrow> Some (Running s3) | Some b \<Rightarrow> run junk n b (cs_start_else s3)) (\<lambda>s4.
      Some (Running (cs_end_if s4))))))"
| "run junk n (While off c b) s =
     iterate n off WHILE CONTINUED_WHILE
       (\<lambda>t. let (v, t1) = run_expr junk c t in (run junk n b (cs_start_while off v t1), cs_end_while off)) s"
| "run junk n (DoWhile off b c) s =
     iterate n off DO CONTINUED_DOWHILE
       (\<lambda>t. (run junk n b (cs_start_do_while off t),
             \<lambda>t1. let (v, t2) = run_expr junk c (cs_force_eval_do_while t1) in cs_end_do_while off v t2)) s"
| "run junk n (For off e1 e2 e3 b) s =
     iterate n off FOR CONTINUED_FOR
       (\<lambda>t. let sw = switched t off;
                sp = swapped t off;
                t1 = snd (run_exprs junk e1 (for_pre_expr1 off t));
                (v2, t2) = run_exprs junk (if sp then e3 else e2) (for_pre_expr2 off sw t1);
                (v3, t3) = run_exprs junk (if sp then e2 else e3) (for_pre_expr3 sw t2)
            in (run junk n b (for_pre_statement sw v2 v3 t3), for_post_statement off sw)) s"
| "run junk n (Switch off c cases) s =
     (let (v, s1) = run_expr junk c s in
      andthen (run_cases junk n cases (cs_switch_start off v s1)) (\<lambda>s2. Some (Running (cs_switch_end s2))))"
| "run junk n (Break e) s =
     (let (v, s1) = run_expr_opt junk e s in
      (case cs_break_continue v DO_BREAK s1 of
         None \<Rightarrow> None
       | Some (FAILURE, s2) \<Rightarrow> Some (Aborted (env s2))
       | Some (SUCCESS, s2) \<Rightarrow> Some (Running s2)))"
| "run junk n (Continue e) s =
     (let (v, s1) = run_expr_opt junk e s in
      (case cs_break_continue v DO_CONTINUE s1 of
         None \<Rightarrow> None
       | Some (FAILURE, s2) \<Rightarrow> Some (Aborted (env s2))
       | Some (SUCCESS, s2) \<Rightarrow> Some (Running s2)))"
| "run junk n (Return e) s =
     (let (v, s1) = run_expr_opt junk e s in Some (Running (cs_return v s1)))"
| "run_block junk n [] s = Some (Running s)"
| "run_block junk n (a # as) s = andthen (run junk n a s) (run_block junk n as)"
| "run_elseifs junk n [] s = Some (Running s)"
| "run_elseifs junk n ((c, a) # rest) s =
     (let (v, s1) = run_expr junk c (cs_elseif_start_evaluate s);
          s2 = cs_start_elseif v (cs_elseif_end_evaluate s1)
      in andthen (run junk n a s2) (run_elseifs junk n rest))"
| "run_cases junk n [] s = Some (Running s)"
| "run_cases junk n ((c, body) # rest) s =
     (let (v, s1) = run_expr_opt junk c s
      in andthen (run_block junk n body (cs_switch_case_pre v s1))
           (\<lambda>s2. run_cases junk n rest (cs_switch_case_post s2)))"

end
