(* ===== verification/Control_Sem.thy ===== *)
theory Control_Sem
  imports Control_Model
begin

text \<open>
  The structured semantics of the same statements, without flags, stacks or tokens: a statement
  at loop nesting level \<open>N\<close> ends normally or with a jump (the level of the loop it breaks or
  continues), a return or an error that ends the script. \<open>sem\<close> is what the interpreter has to
  implement; \<open>n\<close> bounds the iterations of each loop, and \<open>None\<close> is a loop that needs more (or a
  level that is a double out of range).
\<close>

datatype outcome = Normal | Brk int | Cont int | Ret pval | Failed

fun eval :: "'e expr \<Rightarrow> 'e \<Rightarrow> pval \<times> 'e" where
  "eval (Prim f) e = f e"
| "eval (Or a b) e =
     (let (l, e1) = eval a e in
      if pval_is_true l then (IS_LONG 1, e1)
      else (let (r, e2) = eval b e1 in (IS_LONG (if pval_is_true r then 1 else 0), e2)))"
| "eval (And a b) e =
     (let (l, e1) = eval a e in
      if pval_is_true l
      then (let (r, e2) = eval b e1 in (IS_LONG (if pval_is_true r then 1 else 0), e2))
      else (IS_LONG 0, e1))"
| "eval (Cond c a b) e =
     (let (t, e1) = eval c e in if pval_is_true t then eval a e1 else eval b e1)"

fun evals :: "'e expr list \<Rightarrow> 'e \<Rightarrow> pval \<times> 'e" where
  "evals [] e = (IS_LONG 1, e)"
| "evals [x] e = eval x e"
| "evals (x # y # xs) e = evals (y # xs) (snd (eval x e))"

fun eval_opt :: "'e expr option \<Rightarrow> 'e \<Rightarrow> pval option \<times> 'e" where
  "eval_opt None e = (None, e)"
| "eval_opt (Some x) e = (case eval x e of (v, e1) \<Rightarrow> (Some v, e1))"

text \<open>The level a jump goes to, when there is such a loop.\<close>

definition jump_level :: "int \<Rightarrow> pval option \<Rightarrow> int option option" where
  "jump_level N v = do {
     l \<leftarrow> (case v of None \<Rightarrow> Some N | Some x \<Rightarrow> do { k \<leftarrow> convert_to_long x; Some (N - sint (lval k) + 1) });
     Some (if 1 \<le> l \<and> l \<le> N then Some l else None)
   }"

text \<open>What the loop at level \<open>N\<close> does with the outcome of its body: iterate again or end.\<close>

fun loop_end :: "int \<Rightarrow> outcome \<Rightarrow> bool \<times> outcome" where
  "loop_end N Normal = (True, Normal)"
| "loop_end N (Brk l) = (False, if l = N then Normal else Brk l)"
| "loop_end N (Cont l) = (if l = N then (True, Normal) else (False, Cont l))"
| "loop_end N out = (False, out)"

fun switch_end :: "int \<Rightarrow> outcome \<Rightarrow> outcome" where
  "switch_end N (Brk l) = (if l = N then Normal else Brk l)"
| "switch_end N (Cont l) = (if l = N then Normal else Cont l)"
| "switch_end N out = out"

fun sem_iter ::
    "nat \<Rightarrow> ('e \<Rightarrow> (bool \<times> outcome \<times> 'e) option) \<Rightarrow> 'e \<Rightarrow> (outcome \<times> 'e) option" where
  "sem_iter 0 f e = None"
| "sem_iter (Suc n) f e =
     (case f e of
        None \<Rightarrow> None
      | Some (again, out, e1) \<Rightarrow> if again then sem_iter n f e1 else Some (out, e1))"

definition seq_normal ::
    "(outcome \<times> 'e) option \<Rightarrow> ('e \<Rightarrow> (outcome \<times> 'e) option) \<Rightarrow> (outcome \<times> 'e) option" where
  "seq_normal r f =
     (case r of
        None \<Rightarrow> None
      | Some (out, e) \<Rightarrow> if out = Normal then f e else Some (out, e))"

definition while_body :: "int \<Rightarrow> (outcome \<times> 'e) option \<Rightarrow> (bool \<times> outcome \<times> 'e) option" where
  "while_body N r =
     map_option (\<lambda>(out, e). (fst (loop_end N out), snd (loop_end N out), e)) r"

definition do_body ::
    "int \<Rightarrow> 'e expr \<Rightarrow> (outcome \<times> 'e) option \<Rightarrow> (bool \<times> outcome \<times> 'e) option" where
  "do_body N c r =
     map_option (\<lambda>(out, e).
       if fst (loop_end N out) then (pval_is_true (fst (eval c e)), Normal, snd (eval c e))
       else (False, snd (loop_end N out), e)) r"

definition for_body ::
    "int \<Rightarrow> 'e expr list \<Rightarrow> (outcome \<times> 'e) option \<Rightarrow> (bool \<times> outcome \<times> 'e) option" where
  "for_body N x3 r =
     map_option (\<lambda>(out, e).
       if fst (loop_end N out) then (True, Normal, snd (evals x3 e))
       else (False, snd (loop_end N out), e)) r"

definition else_part ::
    "(outcome option \<times> 'e) option \<Rightarrow> ('e \<Rightarrow> (outcome \<times> 'e) option) \<Rightarrow> (outcome \<times> 'e) option" where
  "else_part r f =
     (case r of
        None \<Rightarrow> None
      | Some (Some out, e) \<Rightarrow> Some (out, e)
      | Some (None, e) \<Rightarrow> f e)"

function (sequential) sem :: "nat \<Rightarrow> 'e stmt \<Rightarrow> int \<Rightarrow> 'e \<Rightarrow> (outcome \<times> 'e) option"
  and sem_block :: "nat \<Rightarrow> 'e stmt list \<Rightarrow> int \<Rightarrow> 'e \<Rightarrow> (outcome \<times> 'e) option"
  and sem_elseifs ::
    "nat \<Rightarrow> ('e expr \<times> 'e stmt) list \<Rightarrow> int \<Rightarrow> 'e \<Rightarrow> (outcome option \<times> 'e) option"
  and sem_cases ::
    "nat \<Rightarrow> ('e expr option \<times> 'e stmt list) list \<Rightarrow> bool \<Rightarrow> pval \<Rightarrow> int \<Rightarrow> 'e \<Rightarrow> (outcome \<times> 'e) option"
where
  "sem n (Expr x) N e = Some (Normal, snd (eval x e))"
| "sem n (Block ss) N e = sem_block n ss N e"
| "sem n (If c a eifs els) N e =
     (let (v, e1) = eval c e in
      if pval_is_true v then sem n a N e1
      else else_part (sem_elseifs n eifs N e1)
             (\<lambda>e2. case els of None \<Rightarrow> Some (Normal, e2) | Some b \<Rightarrow> sem n b N e2))"
| "sem n (While off c b) N e =
     sem_iter n (\<lambda>e. let (v, e1) = eval c e in
        if pval_is_true v then while_body (N + 1) (sem n b (N + 1) e1)
        else Some (False, Normal, e1)) e"
| "sem n (DoWhile off b c) N e = sem_iter n (\<lambda>e. do_body (N + 1) c (sem n b (N + 1) e)) e"
| "sem n (For off x1 x2 x3 b) N e =
     sem_iter n (\<lambda>e. let (v, e1) = evals x2 e in
        if pval_is_true v then for_body (N + 1) x3 (sem n b (N + 1) e1)
        else Some (False, Normal, e1)) (snd (evals x1 e))"
| "sem n (Switch off c cases) N e =
     (let (v, e1) = eval c e in
      map_option (apfst (switch_end (N + 1))) (sem_cases n cases False v (N + 1) e1))"
| "sem n (Break x) N e =
     (let (v, e1) = eval_opt x e in
      map_option (\<lambda>l. (case l of None \<Rightarrow> Failed | Some k \<Rightarrow> Brk k, e1)) (jump_level N v))"
| "sem n (Continue x) N e =
     (let (v, e1) = eval_opt x e in
      map_option (\<lambda>l. (case l of None \<Rightarrow> Failed | Some k \<Rightarrow> Cont k, e1)) (jump_level N v))"
| "sem n (Return x) N e =
     (let (v, e1) = eval_opt x e in Some (Ret (case v of None \<Rightarrow> var_reset | Some r \<Rightarrow> r), e1))"
| "sem_block n [] N e = Some (Normal, e)"
| "sem_block n (a # rest) N e = seq_normal (sem n a N e) (sem_block n rest N)"
| "sem_elseifs n [] N e = Some (None, e)"
| "sem_elseifs n ((c, a) # rest) N e =
     (let (v, e1) = eval c e in
      if pval_is_true v then map_option (apfst Some) (sem n a N e1)
      else sem_elseifs n rest N e1)"
| "sem_cases n [] m v N e = Some (Normal, e)"
| "sem_cases n ((c, body) # rest) m v N e =
     (let (cv, e1) = eval_opt c e in
      if m \<or> (case cv of None \<Rightarrow> True | Some x \<Rightarrow> pval_is_true (snd (is_equal_function v x)))
      then seq_normal (sem_block n body N e1) (sem_cases n rest True v N)
      else sem_cases n rest False v N e1)"
  by pat_completeness auto

termination
  by (relation "measure (case_sum
        (case_sum (\<lambda>x. size (fst (snd x))) (\<lambda>x. size_list size (fst (snd x))))
        (case_sum (\<lambda>x. size_list (size_prod size size) (fst (snd x)))
                  (\<lambda>x. size_list (size_prod (size_option size) (size_list size)) (fst (snd x)))))")
     simp_all

text \<open>The tokens of the loops and switches of a statement, with the type the scanner gave them.\<close>

fun loops :: "'e stmt \<Rightarrow> (int \<times> token) list"
  and loops_block :: "'e stmt list \<Rightarrow> (int \<times> token) list"
  and loops_elseifs :: "('e expr \<times> 'e stmt) list \<Rightarrow> (int \<times> token) list"
  and loops_cases :: "('e expr option \<times> 'e stmt list) list \<Rightarrow> (int \<times> token) list"
where
  "loops (Expr x) = []"
| "loops (Block ss) = loops_block ss"
| "loops (If c a eifs els) =
     loops a @ loops_elseifs eifs @ (case els of None \<Rightarrow> [] | Some b \<Rightarrow> loops b)"
| "loops (While off c b) = (off, WHILE) # loops b"
| "loops (DoWhile off b c) = (off, DO) # loops b"
| "loops (For off x1 x2 x3 b) = (off, FOR) # loops b"
| "loops (Switch off c cases) = (off, SWITCH) # loops_cases cases"
| "loops (Break x) = []"
| "loops (Continue x) = []"
| "loops (Return x) = []"
| "loops_block [] = []"
| "loops_block (a # rest) = loops a @ loops_block rest"
| "loops_elseifs [] = []"
| "loops_elseifs ((c, a) # rest) = loops a @ loops_elseifs rest"
| "loops_cases [] = []"
| "loops_cases ((c, body) # rest) = loops_block body @ loops_cases rest"

end
