(* ===== verification/Control_Skip.thy ===== *)
theory Control_Skip
  imports Control_Sem
begin

text \<open>
  Code that is not executed has no effect: run from a state in which \<^verbatim>\<open>Execute\<close> is off for a
  reason that lasts (a false condition around it, a pending jump to an outer loop, a return), a
  statement leaves everything as it was, up to the swapping of \<^verbatim>\<open>for\<close> expressions.
\<close>

definition live :: "'e istate \<Rightarrow> bool" where
  "live s \<longleftrightarrow> Execute s \<and> ExecuteFlag s = EXECUTE \<and> \<not> returned s \<and> loop_change_type s = DO_NOTHING"

definition dead :: "'e istate \<Rightarrow> bool" where
  "dead s \<longleftrightarrow> \<not> Execute s \<and> \<not> should_execute s \<and>
     (loop_change_type s \<noteq> DO_NOTHING \<longrightarrow> loop_change_level s \<le> loop_nest_level s)"

lemmas flag_defs = set_flag_def push_flag_def pop_flag_def should_execute_def int_top_def Let_def

lemmas loop_defs = cs_start_while_def cs_end_while_def cs_start_do_while_def cs_force_eval_do_while_def
  cs_end_do_while_def change_here_def clear_change_def leave_loop_def tc_set_token_def

lemmas if_defs = cs_start_if_def cs_end_if_def stop_if_executed_def cs_elseif_start_evaluate_def
  cs_elseif_end_evaluate_def cs_start_elseif_def cs_start_else_def

lemmas for_defs = for_pre_expr1_def for_pre_expr2_def for_pre_expr3_def for_pre_statement_def
  tc_switch_expressions_def tc_set_switched_def pop_for_def for_post_statement_def

lemmas switch_defs = cs_switch_start_def cs_switch_case_pre_def cs_switch_case_post_def cs_switch_end_def

lemmas op_defs = cs_pre_boolean_or_def cs_post_boolean_or_def cs_pre_boolean_and_def
  cs_post_boolean_and_def cs_questionmark_op_pre_expr1_def cs_questionmark_op_pre_expr2_def
  cs_questionmark_op_post_expr2_def

subsection \<open>Expressions\<close>

lemma run_expr_skip: "\<not> Execute s \<Longrightarrow> \<not> should_execute s \<Longrightarrow> snd (run_expr junk x s) = s"
proof (induction x arbitrary: s)
  case (Prim f)
  then show ?case by simp
next
  case (Or a b)
  obtain l where a: "run_expr junk a s = (l, s)" using Or.IH(1)[OF Or.prems] by (metis prod.collapse)
  have p: "cs_pre_boolean_or l s = push_flag s" using Or.prems by (simp add: op_defs flag_defs)
  have "\<not> Execute (push_flag s)" "\<not> should_execute (push_flag s)"
    using Or.prems by (simp_all add: flag_defs)
  from Or.IH(2)[OF this] obtain r where b: "run_expr junk b (push_flag s) = (r, push_flag s)"
    by (metis prod.collapse)
  show ?case using Or.prems by (simp add: a p b) (simp add: op_defs flag_defs)
next
  case (And a b)
  obtain l where a: "run_expr junk a s = (l, s)" using And.IH(1)[OF And.prems] by (metis prod.collapse)
  have p: "cs_pre_boolean_and l s = push_flag s" using And.prems by (simp add: op_defs flag_defs)
  have "\<not> Execute (push_flag s)" "\<not> should_execute (push_flag s)"
    using And.prems by (simp_all add: flag_defs)
  from And.IH(2)[OF this] obtain r where b: "run_expr junk b (push_flag s) = (r, push_flag s)"
    by (metis prod.collapse)
  show ?case using And.prems by (simp add: a p b) (simp add: op_defs flag_defs)
next
  case (Cond c a b)
  obtain l where c: "run_expr junk c s = (l, s)" using Cond.IH(1)[OF Cond.prems] by (metis prod.collapse)
  have p: "cs_questionmark_op_pre_expr1 l s = push_flag s" using Cond.prems by (simp add: op_defs flag_defs)
  have q: "\<not> Execute (push_flag s)" "\<not> should_execute (push_flag s)"
    using Cond.prems by (simp_all add: flag_defs)
  have p2: "cs_questionmark_op_pre_expr2 l (push_flag s) = push_flag s"
    using Cond.prems by (auto simp: op_defs flag_defs)
  obtain r where a: "run_expr junk a (push_flag s) = (r, push_flag s)"
    using Cond.IH(2)[OF q] by (metis prod.collapse)
  obtain r2 where b: "run_expr junk b (push_flag s) = (r2, push_flag s)"
    using Cond.IH(3)[OF q] by (metis prod.collapse)
  show ?case using Cond.prems by (simp add: c p a p2 b) (simp add: op_defs flag_defs)
qed

lemma run_exprs_skip: "\<not> Execute s \<Longrightarrow> \<not> should_execute s \<Longrightarrow> snd (run_exprs junk xs s) = s"
  by (induction junk xs s rule: run_exprs.induct) (simp_all add: run_expr_skip)

lemma run_expr_opt_skip: "\<not> Execute s \<Longrightarrow> \<not> should_execute s \<Longrightarrow> snd (run_expr_opt junk x s) = s"
  by (cases x) (simp_all add: run_expr_skip split: prod.split, metis run_expr_skip snd_conv)

lemma live_execs: "live s \<Longrightarrow> Execute s" "live s \<Longrightarrow> should_execute s" "live s \<Longrightarrow> ExecuteFlag s = EXECUTE"
  by (simp_all add: live_def should_execute_def)

lemma boolean_or_true: "pval_is_true l \<Longrightarrow> snd (boolean_or_function l r) = IS_LONG 1"
  "\<not> pval_is_true l \<Longrightarrow> snd (boolean_or_function l r) = IS_LONG (if pval_is_true r then 1 else 0)"
  by (simp_all add: boolean_or_function_def pval_is_true_def)

lemma boolean_and_true: "\<not> pval_is_true l \<Longrightarrow> snd (boolean_and_function l r) = IS_LONG 0"
  "pval_is_true l \<Longrightarrow> snd (boolean_and_function l r) = IS_LONG (if pval_is_true r then 1 else 0)"
  by (simp_all add: boolean_and_function_def pval_is_true_def)

lemma run_expr_live:
  "live s \<Longrightarrow> run_expr junk x s = (fst (eval x (env s)), s\<lparr>env := snd (eval x (env s))\<rparr>)"
proof (induction x arbitrary: s)
  case (Prim f)
  then show ?case by (simp add: live_def split: prod.split)
next
  case (Or a b)
  let ?s1 = "s\<lparr>env := snd (eval a (env s))\<rparr>" and ?l = "fst (eval a (env s))"
  have a: "run_expr junk a s = (?l, ?s1)" by (rule Or.IH(1)[OF Or.prems])
  show ?case
  proof (cases "pval_is_true ?l")
    case True
    let ?s2 = "set_flag DONT_EXECUTE (push_flag ?s1)"
    have p: "cs_pre_boolean_or ?l ?s1 = ?s2" using True Or.prems by (simp add: op_defs live_def flag_defs)
    obtain r where b: "run_expr junk b ?s2 = (r, ?s2)"
      using run_expr_skip[of ?s2 junk b] by (simp add: flag_defs) (metis prod.collapse)
    show ?thesis using True Or.prems
      by (simp add: a p b boolean_or_true split_beta) (simp add: op_defs live_def flag_defs boolean_or_true)
  next
    case False
    have p: "cs_pre_boolean_or ?l ?s1 = push_flag ?s1" using False by (simp add: op_defs live_def flag_defs)
    have "live (push_flag ?s1)" using Or.prems by (simp add: live_def flag_defs)
    from Or.IH(2)[OF this] show ?thesis using False Or.prems
      by (simp add: a p boolean_or_true split_beta)
         (auto simp: op_defs live_def flag_defs boolean_or_true)
  qed
next
  case (And a b)
  let ?s1 = "s\<lparr>env := snd (eval a (env s))\<rparr>" and ?l = "fst (eval a (env s))"
  have a: "run_expr junk a s = (?l, ?s1)" by (rule And.IH(1)[OF And.prems])
  show ?case
  proof (cases "pval_is_true ?l")
    case False
    let ?s2 = "set_flag DONT_EXECUTE (push_flag ?s1)"
    have p: "cs_pre_boolean_and ?l ?s1 = ?s2" using False And.prems by (simp add: op_defs live_def flag_defs)
    obtain r where b: "run_expr junk b ?s2 = (r, ?s2)"
      using run_expr_skip[of ?s2 junk b] by (simp add: flag_defs) (metis prod.collapse)
    show ?thesis using False And.prems
      by (simp add: a p b split_beta) (simp add: op_defs live_def flag_defs boolean_and_true)
  next
    case True
    have p: "cs_pre_boolean_and ?l ?s1 = push_flag ?s1" using True by (simp add: op_defs live_def flag_defs)
    have "live (push_flag ?s1)" using And.prems by (simp add: live_def flag_defs)
    from And.IH(2)[OF this] show ?thesis using True And.prems
      by (simp add: a p split_beta)
         (auto simp: op_defs live_def flag_defs boolean_and_true)
  qed
next
  case (Cond c a b)
  let ?s1 = "s\<lparr>env := snd (eval c (env s))\<rparr>" and ?l = "fst (eval c (env s))"
  have c: "run_expr junk c s = (?l, ?s1)" by (rule Cond.IH(1)[OF Cond.prems])
  show ?case
  proof (cases "pval_is_true ?l")
    case True
    have p: "cs_questionmark_op_pre_expr1 ?l ?s1 = push_flag ?s1" using True by (simp add: op_defs flag_defs)
    have l: "live (push_flag ?s1)" using Cond.prems by (simp add: live_def flag_defs)
    let ?e1 = "snd (eval c (env s))"
    let ?x = "fst (eval a ?e1)" and ?s2 = "push_flag ?s1\<lparr>env := snd (eval a ?e1)\<rparr>"
    have a: "run_expr junk a (push_flag ?s1) = (?x, ?s2)" using Cond.IH(2)[OF l] by (simp add: flag_defs)
    let ?s3 = "set_flag DONT_EXECUTE ?s2"
    have p2: "cs_questionmark_op_pre_expr2 ?l ?s2 = ?s3"
      using True Cond.prems by (simp add: op_defs live_def flag_defs)
    obtain y where b: "run_expr junk b ?s3 = (y, ?s3)"
      using run_expr_skip[of ?s3 junk b] by (simp add: flag_defs) (metis prod.collapse)
    show ?thesis using True Cond.prems
      by (simp add: c p a p2 b split_beta) (simp add: op_defs live_def flag_defs)
  next
    case False
    let ?s2 = "set_flag DONT_EXECUTE (push_flag ?s1)"
    have p: "cs_questionmark_op_pre_expr1 ?l ?s1 = ?s2"
      using False Cond.prems by (simp add: op_defs live_def flag_defs)
    obtain x where a: "run_expr junk a ?s2 = (x, ?s2)"
      using run_expr_skip[of ?s2 junk a] by (simp add: flag_defs) (metis prod.collapse)
    have p2: "cs_questionmark_op_pre_expr2 ?l ?s2 = push_flag ?s1"
      using False Cond.prems by (simp add: op_defs live_def flag_defs)
    have "live (push_flag ?s1)" using Cond.prems by (simp add: live_def flag_defs)
    from Cond.IH(3)[OF this] show ?thesis using False Cond.prems
      by (simp add: c p a p2 split_beta) (simp add: op_defs live_def flag_defs)
  qed
qed

lemma run_exprs_live:
  "live s \<Longrightarrow> run_exprs junk xs s = (fst (evals xs (env s)), s\<lparr>env := snd (evals xs (env s))\<rparr>)"
proof (induction junk xs s rule: run_exprs.induct)
  case (3 junk x y xs s)
  have "live (s\<lparr>env := snd (eval x (env s))\<rparr>)" using 3(2) by (simp add: live_def)
  then show ?case using 3 run_expr_live[OF 3(2), of junk x] by simp
qed (simp_all add: run_expr_live)

lemma run_expr_opt_live:
  "live s \<Longrightarrow> run_expr_opt junk x s = (fst (eval_opt x (env s)), s\<lparr>env := snd (eval_opt x (env s))\<rparr>)"
  by (cases x) (simp_all add: run_expr_live split: prod.split)


subsection \<open>Statements\<close>

text \<open>
  The flag \<^verbatim>\<open>switched\<close> of a token tells the order of the expressions behind it; the tokens of the
  loops \<open>ls\<close> have their first type, and no \<^verbatim>\<open>for\<close> of \<open>ls\<close> is being executed.
\<close>

definition sync :: "'e istate \<Rightarrow> bool" where
  "sync s \<longleftrightarrow> swapped s = switched s"

definition ready :: "(int \<times> token) list \<Rightarrow> 'e istate \<Rightarrow> bool" where
  "ready ls s \<longleftrightarrow>
     distinct (map fst ls) \<and> (\<forall>p \<in> set ls. tok s (fst p) = snd p \<and> 0 \<le> fst p \<and> fst p \<notin> set (for_stack s))"

definition skips :: "(int \<times> token) list \<Rightarrow> 'e istate \<Rightarrow> 'e istate \<Rightarrow> bool" where
  "skips ls s s' \<longleftrightarrow>
     (\<exists>f. s' = s\<lparr>switched := f, swapped := f\<rparr> \<and> (\<forall>off. off \<notin> fst ` set ls \<longrightarrow> f off = switched s off))"

lemma ready_append [simp]: "ready (ls @ ms) s \<longleftrightarrow> ready ls s \<and> ready ms s \<and> fst ` set ls \<inter> fst ` set ms = {}"
  by (auto simp: ready_def)

lemma ready_Nil [simp]: "ready [] s"
  by (simp add: ready_def)

lemma ready_Cons [simp]:
  "ready ((off, t) # ls) s \<longleftrightarrow>
     off \<notin> fst ` set ls \<and> tok s off = t \<and> 0 \<le> off \<and> off \<notin> set (for_stack s) \<and> ready ls s"
  by (auto simp: ready_def)

lemma ready_cong: "tok s' = tok s \<Longrightarrow> for_stack s' = for_stack s \<Longrightarrow> ready ls s' = ready ls s"
  by (simp add: ready_def)

lemma skips_refl: "sync s \<Longrightarrow> skips ls s s"
  unfolding skips_def sync_def by (rule exI[of _ "switched s"]) simp

lemma skips_keeps:
  assumes "skips ls s s'"
  shows "dead s' = dead s" "sync s'" "ready ms s' = ready ms s" "Execute s' = Execute s"
    "ExecuteFlag s' = ExecuteFlag s" "css s' = css s"
  using assms by (auto simp: skips_def dead_def sync_def should_execute_def intro!: ready_cong)

lemma skips_trans:
  assumes "skips ls s s'" "skips ms s' s''" "fst ` set ls \<union> fst ` set ms \<subseteq> fst ` set ns"
  shows "skips ns s s''"
proof -
  obtain f g where f: "s' = s\<lparr>switched := f, swapped := f\<rparr>" "\<forall>off. off \<notin> fst ` set ls \<longrightarrow> f off = switched s off"
    and g: "s'' = s'\<lparr>switched := g, swapped := g\<rparr>" "\<forall>off. off \<notin> fst ` set ms \<longrightarrow> g off = switched s' off"
    using assms(1,2) unfolding skips_def by auto
  have "g off = switched s off" if "off \<notin> fst ` set ns" for off
  proof -
    have "off \<notin> fst ` set ls" "off \<notin> fst ` set ms" using assms(3) that by blast+
    then show ?thesis using f g by auto
  qed
  moreover have "s'' = s\<lparr>switched := g, swapped := g\<rparr>" using f(1) g(1) by simp
  ultimately show ?thesis unfolding skips_def by auto
qed

lemma skips_append: "skips ls s s' \<Longrightarrow> skips ms s' s'' \<Longrightarrow> skips (ls @ ms) s s''"
  by (rule skips_trans) auto

lemma dead_flags: "dead s \<Longrightarrow> \<not> Execute s" "dead s \<Longrightarrow> \<not> should_execute s"
  by (simp_all add: dead_def)

lemma dead_exprs:
  assumes "dead s"
  shows "\<exists>v. run_expr junk x s = (v, s)" "\<exists>v. run_exprs junk xs s = (v, s)"
    "\<exists>v. run_expr_opt junk xo s = (v, s)"
  using run_expr_skip[of s junk x] run_exprs_skip[of s junk xs] run_expr_opt_skip[of s junk xo]
    dead_flags[OF assms] by (metis prod.collapse)+

text \<open>The state inside of a loop that is skipped, and back.\<close>

definition enter :: "'e istate \<Rightarrow> 'e istate" where
  "enter s = push_flag (s\<lparr>loop_nest_level := loop_nest_level s + 1\<rparr>)"

lemma enter_dead: "dead s \<Longrightarrow> dead (enter s)"
  by (auto simp: enter_def dead_def flag_defs)

lemma enter_keeps [simp]: "sync (enter s) = sync s" "ready ls (enter s) = ready ls s"
    "Execute (enter s) = Execute s" "for_stack (enter s) = for_stack s"
    "tok (enter s) = tok s" "css (enter s) = ExecuteFlag s # css s" "ExecuteFlag (enter s) = ExecuteFlag s"
    "switched (enter s) = switched s" "swapped (enter s) = swapped s" "env (enter s) = env s"
    "should_execute (enter s) = should_execute s"
  by (auto simp: enter_def push_flag_def sync_def should_execute_def intro!: ready_cong)

lemma leave_skips:
  assumes "dead s" "skips ls (enter s) u"
  shows "skips ls s (leave_loop u)" "\<not> Execute u" "\<not> change_here u"
proof -
  obtain f where f: "u = enter s\<lparr>switched := f, swapped := f\<rparr>" "\<forall>off. off \<notin> fst ` set ls \<longrightarrow> f off = switched s off"
    using assms(2) by (auto simp: skips_def)
  have "leave_loop u = s\<lparr>switched := f, swapped := f\<rparr>"
    using assms(1) unfolding f(1) by (auto simp: leave_loop_def enter_def dead_def flag_defs)
  then show "skips ls s (leave_loop u)" using f(2) by (auto simp: skips_def)
  show "\<not> Execute u" "\<not> change_here u"
    using assms(1) by (auto simp: f(1) change_here_def enter_def push_flag_def dead_def)
qed

lemma andthen_Running [simp]: "andthen (Some (Running s)) f = f s"
  by simp

lemma skip_all:
  fixes junk :: pval and P :: "'e stmt" and Ps :: "'e stmt list"
    and Es :: "('e expr \<times> 'e stmt) list" and Cs :: "('e expr option \<times> 'e stmt list) list"
  assumes n: "0 < n"
  shows skip_stmt: "\<And>s. dead s \<Longrightarrow> sync s \<Longrightarrow> ready (loops P) s \<Longrightarrow>
           \<exists>s'. run junk n P s = Some (Running s') \<and> skips (loops P) s s'"
    and skip_block: "\<And>s. dead s \<Longrightarrow> sync s \<Longrightarrow> ready (loops_block Ps) s \<Longrightarrow>
           \<exists>s'. run_block junk n Ps s = Some (Running s') \<and> skips (loops_block Ps) s s'"
    and skip_elseifs: "\<And>s. dead s \<Longrightarrow> ExecuteFlag s = DONT_EXECUTE \<Longrightarrow> sync s \<Longrightarrow> ready (loops_elseifs Es) s \<Longrightarrow>
           \<exists>s'. run_elseifs junk n Es s = Some (Running s') \<and> skips (loops_elseifs Es) s s'"
    and skip_cases: "\<And>s. dead s \<Longrightarrow> css s \<noteq> [] \<and> hd (css s) = ExecuteFlag s \<Longrightarrow> sync s \<Longrightarrow> ready (loops_cases Cs) s \<Longrightarrow>
           \<exists>s'. run_cases junk n Cs s = Some (Running s') \<and> skips (loops_cases Cs) s s'"
proof (induction P and Ps and Es and Cs rule: loops_loops_block_loops_elseifs_loops_cases.induct)
  case (1 x)
  then show ?case using run_expr_skip[OF dead_flags(1)[OF 1(1)] dead_flags(2)[OF 1(1)], of junk x] skips_refl
    by simp
next
  case (2 ss)
  then show ?case by simp
next
  case (3 c a eifs els)
  obtain v where v: "run_expr junk c s = (v, s)" using dead_exprs(1)[OF 3(4)] by blast
  let ?u = "s\<lparr>css := ExecuteFlag s # css s, ExecuteFlag := DONT_EXECUTE\<rparr>"
  have st: "cs_start_if v s = ?u" for v using 3(4) by (simp add: cs_start_if_def push_flag_def dead_def Let_def)
  have u: "dead ?u" "sync ?u" using 3(4,5) by (auto simp: dead_def sync_def should_execute_def)
  have ru: "ready ls ?u = ready ls s" for ls by (rule ready_cong) simp_all
  have rd: "ready (loops a) s" "ready (loops_elseifs eifs) s" "\<And>b. els = Some b \<Longrightarrow> ready (loops b) s"
    using 3(6) by (auto split: option.splits)
  obtain u1 where u1: "run junk n a ?u = Some (Running u1)" "skips (loops a) ?u u1"
    using 3(1)[OF u] rd ru by blast
  note k1 = skips_keeps[OF u1(2)]
  obtain u2 where u2: "run_elseifs junk n eifs u1 = Some (Running u2)" "skips (loops_elseifs eifs) u1 u2"
    using 3(2)[of u1] u(1) k1 rd(2) ru by auto
  note k2 = skips_keeps[OF u2(2)]
  have flag: "ExecuteFlag u2 = DONT_EXECUTE" using k1(5) k2(5) by simp
  have el: "cs_start_else u2 = u2" using flag by (simp add: if_defs flag_defs)
  have sk: "skips (loops a @ loops_elseifs eifs) ?u u2" by (rule skips_append[OF u1(2) u2(2)])
  obtain u3 where u3: "(case els of None \<Rightarrow> Some (Running u2) | Some b \<Rightarrow> run junk n b (cs_start_else u2)) = Some (Running u3)"
      "skips (loops (If c a eifs els)) ?u u3"
  proof (cases els)
    case None
    then show thesis using that[of u2] sk by simp
  next
    case (Some b)
    obtain u3 where u3: "run junk n b u2 = Some (Running u3)" "skips (loops b) u2 u3"
      using 3(3)[OF Some, of u2] u(1) k1 k2 rd(3)[OF Some] ru by auto
    from sk have "skips (loops (If c a eifs els)) ?u u3" by (rule skips_trans[OF _ u3(2)]) (auto simp: Some)
    then show thesis using that[of u3] u3(1) Some el by simp
  qed
  obtain f where f: "u3 = ?u\<lparr>switched := f, swapped := f\<rparr>"
      "\<forall>off. off \<notin> fst ` set (loops (If c a eifs els)) \<longrightarrow> f off = switched s off"
    using u3(2) by (auto simp: skips_def)
  have "cs_end_if u3 = s\<lparr>switched := f, swapped := f\<rparr>"
    using 3(4) unfolding f(1) by (auto simp: cs_end_if_def flag_defs dead_def)
  moreover have "run junk n (If c a eifs els) s = Some (Running (cs_end_if u3))"
    using v st u1(1) u2(1) u3(1) by simp
  ultimately show ?case using f(2) by (auto simp: skips_def)
next
  case (4 off c b)
  obtain m where m: "n = Suc m" using n by (cases n) auto
  obtain v where v: "run_expr junk c s = (v, s)" using dead_exprs(1)[OF 4(2)] by blast
  have st: "cs_start_while off v s = enter s" for v
    using 4(2) by (simp add: cs_start_while_def enter_def push_flag_def dead_def Let_def)
  obtain u where u: "run junk n b (enter s) = Some (Running u)" "skips (loops b) (enter s) u"
    using 4(1)[OF enter_dead[OF 4(2)]] 4(3,4) by auto
  note l = leave_skips[OF 4(2) u(2)]
  have "cs_end_while off u = (False, leave_loop u)" using l(2,3) by (simp add: cs_end_while_def)
  moreover have "skips (loops (While off c b)) s (leave_loop u)"
    by (rule skips_trans[OF l(1) skips_refl[where ls = "[]"]]) (auto intro: skips_keeps(2)[OF l(1)])
  ultimately show ?case
    using v st u(1) 4(4) by (simp add: m)
next
  case (5 off b c)
  obtain m where m: "n = Suc m" using n by (cases n) auto
  have st: "cs_start_do_while off s = enter s"
    using 5(2) by (simp add: cs_start_do_while_def enter_def push_flag_def dead_def Let_def)
  obtain u where u: "run junk n b (enter s) = Some (Running u)" "skips (loops b) (enter s) u"
    using 5(1)[OF enter_dead[OF 5(2)]] 5(3,4) by auto
  note l = leave_skips[OF 5(2) u(2)]
  have du: "dead u" using skips_keeps(1)[OF u(2)] enter_dead[OF 5(2)] by simp
  obtain v where v: "run_expr junk c u = (v, u)" using dead_exprs(1)[OF du] by blast
  have "cs_force_eval_do_while u = u" using l(3) by (auto simp: cs_force_eval_do_while_def change_here_def)
  moreover have "cs_end_do_while off v u = (False, leave_loop u)" for v using l(2,3) by (simp add: cs_end_do_while_def)
  moreover have "skips (loops (DoWhile off b c)) s (leave_loop u)"
    by (rule skips_trans[OF l(1) skips_refl[where ls = "[]"]]) (auto intro: skips_keeps(2)[OF l(1)])
  ultimately show ?case
    using v st u(1) 5(4) by (simp add: m)
next
  case (6 off x1 x2 x3 b)
  obtain m where m: "n = Suc m" using n by (cases n) auto
  let ?sw = "switched s off" and ?e = "enter s"
  have de: "dead ?e" by (rule enter_dead[OF 6(2)])
  have p1: "for_pre_expr1 off s = ?e"
    using 6(2) by (simp add: for_pre_expr1_def enter_def push_flag_def dead_def Let_def)
  have same: "set_flag (int_top (css w)) w = ?e" if "w = ?e \<or> w = ?e\<lparr>ExecuteFlag := DONT_EXECUTE\<rparr>" for w
    using that de by (auto simp: set_flag_def int_top_def dead_def should_execute_def enter_def push_flag_def)
  define w where "w = for_pre_expr2 off ?sw ?e"
  have w: "w = ?e \<or> w = ?e\<lparr>ExecuteFlag := DONT_EXECUTE\<rparr>"
    using same[of ?e] de by (auto simp: w_def for_pre_expr2_def Let_def set_flag_def should_execute_def dead_def)
  have dw: "dead w" using w de by (auto simp: dead_def should_execute_def)
  obtain v1 where v1: "run_exprs junk x1 ?e = (v1, ?e)" using dead_exprs(2)[OF de] by blast
  obtain v2 where v2: "run_exprs junk (if ?sw then x3 else x2) w = (v2, w)" using dead_exprs(2)[OF dw] by blast
  obtain v3 where v3: "run_exprs junk (if ?sw then x2 else x3) ?e = (v3, ?e)" using dead_exprs(2)[OF de] by blast
  have p3: "for_pre_expr3 ?sw w = ?e" using same[OF w] de by (simp add: for_pre_expr3_def dead_def Let_def)
  have p4: "for_pre_statement ?sw v v' ?e = ?e" for v v'
    using same[of ?e] de by (simp add: for_pre_statement_def dead_def Let_def)
  have rb: "ready (loops b) ?e" "off \<notin> fst ` set (loops b)" "off \<notin> set (for_stack s)" "0 \<le> off" "tok s off = FOR"
    using 6(4) by auto
  obtain u where u: "run junk n b ?e = Some (Running u)" "skips (loops b) ?e u"
    using 6(1)[OF de _ rb(1)] 6(3) by auto
  obtain f where f: "u = ?e\<lparr>switched := f, swapped := f\<rparr>" "\<forall>o'. o' \<notin> fst ` set (loops b) \<longrightarrow> f o' = switched s o'"
    using u(2) by (auto simp: skips_def)
  note l = leave_skips[OF 6(2) u(2)]
  have fo: "f off = ?sw" using f(2) rb(2) by auto
  let ?g = "f(off := True)"
  have top: "int_top (for_stack s) \<noteq> off" using rb(3,4) by (cases "for_stack s") (auto simp: int_top_def)
  have pop: "enter s\<lparr>switched := g, swapped := h, for_stack := for_stack s\<rparr> = enter s\<lparr>switched := g, swapped := h\<rparr>"
    "enter s\<lparr>swapped := h, switched := g, for_stack := for_stack s\<rparr> = enter s\<lparr>switched := g, swapped := h\<rparr>"
    for g h by (simp_all add: enter_def push_flag_def)
  have "for_post_statement off ?sw u = (False, leave_loop (u\<lparr>switched := ?g, swapped := ?g\<rparr>))"
  proof (cases ?sw)
    case True
    then have "?g = f" using fo by (simp add: fun_eq_iff)
    then show ?thesis using True top l(2,3)
      by (auto simp: for_post_statement_def f(1) Let_def pop_for_def int_top_def change_here_def pop)
  next
    case False
    then have "f(off := \<not> f off) = ?g" using fo by simp
    then show ?thesis using False top l(2,3)
      by (auto simp: for_post_statement_def f(1) Let_def pop_for_def int_top_def change_here_def pop
          tc_switch_expressions_def tc_set_switched_def)
  qed
  moreover have "skips (loops (For off x1 x2 x3 b)) (enter s) (u\<lparr>switched := ?g, swapped := ?g\<rparr>)"
    unfolding skips_def using f by (intro exI[of _ ?g]) auto
  note l2 = leave_skips(1)[OF 6(2) this]
  ultimately show ?case
    using l2 v1 v2 v3 p1 p3 p4 u(1) rb(5) 6(3)
    by (simp add: m Let_def w_def[symmetric] sync_def)
next
  case (7 off c cases)
  obtain v where v: "run_expr junk c s = (v, s)" using dead_exprs(1)[OF 7(2)] by blast
  let ?u = "enter s\<lparr>switch_stack := \<lparr>se_expr = v, se_offset = off, se_Execute = False\<rparr> # switch_stack s\<rparr>"
  have st: "cs_switch_start off v s = ?u"
    using 7(2) by (simp add: cs_switch_start_def enter_def push_flag_def dead_def Let_def)
  have u: "dead ?u" "sync ?u" "css ?u \<noteq> [] \<and> hd (css ?u) = ExecuteFlag ?u" "ready (loops_cases cases) ?u"
    using enter_dead[OF 7(2)] 7(3,4)
    by (auto simp: dead_def sync_def should_execute_def intro: ready_cong[THEN iffD2] simp: ready_def)
  obtain u1 where u1: "run_cases junk n cases ?u = Some (Running u1)" "skips (loops_cases cases) ?u u1"
    using 7(1)[OF u(1,3,2,4)] by blast
  obtain f where f: "u1 = ?u\<lparr>switched := f, swapped := f\<rparr>" "\<forall>o'. o' \<notin> fst ` set (loops_cases cases) \<longrightarrow> f o' = switched s o'"
    using u1(2) by (auto simp: skips_def)
  have "cs_switch_end u1 = s\<lparr>switched := f, swapped := f\<rparr>"
    using 7(2) unfolding f(1) by (auto simp: cs_switch_end_def enter_def flag_defs dead_def)
  then show ?case using f(2) v st u1(1) by (auto simp: skips_def)
next
  case (8 x)
  obtain v where "run_expr_opt junk x s = (v, s)" using dead_exprs(3)[OF 8(1)] by blast
  then show ?case using skips_refl[OF 8(2)] dead_flags(1)[OF 8(1)] by (simp add: cs_break_continue_def)
next
  case (9 x)
  obtain v where "run_expr_opt junk x s = (v, s)" using dead_exprs(3)[OF 9(1)] by blast
  then show ?case using skips_refl[OF 9(2)] dead_flags(1)[OF 9(1)] by (simp add: cs_break_continue_def)
next
  case (10 x)
  obtain v where "run_expr_opt junk x s = (v, s)" using dead_exprs(3)[OF 10(1)] by blast
  then show ?case using skips_refl[OF 10(2)] dead_flags(1)[OF 10(1)] by (simp add: cs_return_def)
next
  case 11
  then show ?case using skips_refl by simp
next
  case (12 a rest)
  obtain u where u: "run junk n a s = Some (Running u)" "skips (loops a) s u"
    using 12(1)[of s] 12(3-5) by auto
  note k = skips_keeps[OF u(2)]
  obtain u2 where "run_block junk n rest u = Some (Running u2)" "skips (loops_block rest) u u2"
    using 12(2)[of u] k 12(3-5) by auto
  then show ?case using u skips_append[OF u(2)] by auto
next
  case 13
  then show ?case using skips_refl by simp
next
  case (14 c a rest)
  have st: "cs_elseif_start_evaluate s = push_flag s" using 14(4) by (simp add: if_defs flag_defs)
  have dp: "dead (push_flag s)" using 14(3) by (auto simp: dead_def push_flag_def should_execute_def)
  obtain v where v: "run_expr junk c (push_flag s) = (v, push_flag s)" using dead_exprs(1)[OF dp] by blast
  have en: "cs_elseif_end_evaluate (push_flag s) = s" using 14(3) by (auto simp: if_defs flag_defs dead_def)
  have se: "cs_start_elseif v s = s" for v using 14(4) by (simp add: if_defs flag_defs)
  obtain u where u: "run junk n a s = Some (Running u)" "skips (loops a) s u"
    using 14(1)[of s] 14(3-6) by auto
  note k = skips_keeps[OF u(2)]
  obtain u2 where "run_elseifs junk n rest u = Some (Running u2)" "skips (loops_elseifs rest) u u2"
    using 14(2)[of u] k 14(3-6) by auto
  then show ?case using u skips_append[OF u(2)] v st en se by auto
next
  case 15
  then show ?case using skips_refl by simp
next
  case (16 c body rest)
  obtain v where v: "run_expr_opt junk c s = (v, s)" using dead_exprs(3)[OF 16(3)] by blast
  have pre: "cs_switch_case_pre v s = s" for v using 16(3) by (simp add: cs_switch_case_pre_def dead_def)
  obtain u where u: "run_block junk n body s = Some (Running u)" "skips (loops_block body) s u"
    using 16(1)[of s] 16(3-6) by auto
  note k = skips_keeps[OF u(2)]
  have post: "cs_switch_case_post u = u"
    using k 16(3,4) by (cases "css s") (auto simp: cs_switch_case_post_def flag_defs dead_def)
  obtain u2 where "run_cases junk n rest u = Some (Running u2)" "skips (loops_cases rest) u u2"
    using 16(2)[of u] k 16(3-6) by auto
  then show ?case using u skips_append[OF u(2)] v pre post by auto
qed

end
