(* ===== verification/Control_Refine.thy ===== *)
theory Control_Refine
  imports Control_Skip
begin

text \<open>
  The flag machine implements the structured semantics: from a state in which code is executed,
  running a statement gives exactly what \<open>sem\<close> says, error and non-termination included, and
  restores the control stacks and the tokens.
\<close>

definition kept :: "(int \<times> token) list \<Rightarrow> 'e istate \<Rightarrow> 'e istate \<Rightarrow> bool" where
  "kept ls s s' \<longleftrightarrow>
     css s' = css s \<and> for_stack s' = for_stack s \<and> switch_stack s' = switch_stack s \<and>
     loop_nest_level s' = loop_nest_level s \<and> tok s' = tok s \<and> sync s' \<and>
     (\<forall>off. off \<notin> fst ` set ls \<longrightarrow> switched s' off = switched s off)"

text \<open>How the globals of the current function show an outcome.\<close>

fun shows_outcome :: "outcome \<Rightarrow> 'e istate \<Rightarrow> 'e istate \<Rightarrow> bool" where
  "shows_outcome Normal s s' \<longleftrightarrow>
     \<not> returned s' \<and> loop_change_type s' = DO_NOTHING \<and> return_value s' = return_value s"
| "shows_outcome (Brk l) s s' \<longleftrightarrow>
     \<not> returned s' \<and> loop_change_type s' = DO_BREAK \<and> loop_change_level s' = l \<and>
     l \<le> loop_nest_level s \<and> return_value s' = return_value s"
| "shows_outcome (Cont l) s s' \<longleftrightarrow>
     \<not> returned s' \<and> loop_change_type s' = DO_CONTINUE \<and> loop_change_level s' = l \<and>
     l \<le> loop_nest_level s \<and> return_value s' = return_value s"
| "shows_outcome (Ret v) s s' \<longleftrightarrow>
     returned s' \<and> loop_change_type s' = DO_NOTHING \<and> return_value s' = v"
| "shows_outcome Failed s s' \<longleftrightarrow> False"

definition settled :: "'e istate \<Rightarrow> bool" where
  "settled s \<longleftrightarrow> ExecuteFlag s = EXECUTE \<or> ExecuteFlag s = DONT_EXECUTE \<and> \<not> Execute s"

definition finished ::
    "(int \<times> token) list \<Rightarrow> 'e istate \<Rightarrow> outcome \<Rightarrow> 'e \<Rightarrow> 'e istate \<Rightarrow> bool" where
  "finished ls s out e s' \<longleftrightarrow>
     kept ls s s' \<and> shows_outcome out s s' \<and> env s' = e \<and> settled s' \<and>
     Execute s' = (out = Normal)"

definition agrees ::
    "(int \<times> token) list \<Rightarrow> 'e istate \<Rightarrow> (outcome \<times> 'e) option \<Rightarrow> 'e result option \<Rightarrow> bool" where
  "agrees ls s r q \<longleftrightarrow>
     (case r of
        None \<Rightarrow> q = None
      | Some (out, e) \<Rightarrow>
          if out = Failed then q = Some (Aborted e)
          else \<exists>s'. q = Some (Running s') \<and> finished ls s out e s')"

lemma finished_live: "finished ls s Normal e s' \<Longrightarrow> live s'"
  by (auto simp: finished_def live_def settled_def)

lemma finished_dead: "finished ls s out e s' \<Longrightarrow> out \<noteq> Normal \<Longrightarrow> dead s'"
  by (cases out) (auto simp: finished_def dead_def should_execute_def kept_def)

lemma kept_skips: "kept ls s s' \<Longrightarrow> skips ms s' s'' \<Longrightarrow> kept (ls @ ms) s s''"
  by (fastforce simp: kept_def skips_def sync_def image_Un)

lemma kept_append: "kept ls s s' \<Longrightarrow> kept ms s' s'' \<Longrightarrow> kept (ls @ ms) s s''"
  by (simp add: kept_def image_Un)

lemma kept_refl: "sync s \<Longrightarrow> kept ls s s"
  by (simp add: kept_def)

lemma kept_mono: "kept ls s s' \<Longrightarrow> set ls \<subseteq> set ms \<Longrightarrow> kept ms s s'"
  unfolding kept_def by blast

lemma kept_ready: "kept ls s s' \<Longrightarrow> ready ms s' = ready ms s" "kept ls s s' \<Longrightarrow> sync s'"
  by (simp_all add: kept_def ready_def)

lemma shows_outcome_skips: "shows_outcome out s s' \<Longrightarrow> skips ms s' s'' \<Longrightarrow> shows_outcome out s s''"
  by (cases out) (auto simp: skips_def)

lemma finished_skips:
  "finished ls s out e s' \<Longrightarrow> skips ms s' s'' \<Longrightarrow> finished (ls @ ms) s out e s''"
  using kept_skips shows_outcome_skips
  by (auto simp: finished_def settled_def skips_def) blast+

lemma shows_outcome_trans:
  "kept ls s s' \<Longrightarrow> shows_outcome Normal s s' \<Longrightarrow> shows_outcome out s' s'' \<Longrightarrow> shows_outcome out s s''"
  by (cases out) (auto simp: kept_def)

lemma finished_trans:
  "finished ls s Normal e s' \<Longrightarrow> finished ms s' out e' s'' \<Longrightarrow> finished (ls @ ms) s out e' s''"
  using kept_append shows_outcome_trans by (fastforce simp: finished_def)

lemma agrees_seq:
  assumes a: "agrees ls s r q"
    and normal: "\<And>e s'. finished ls s Normal e s' \<Longrightarrow> agrees ms s' (f e) (g s')"
    and skip: "\<And>out e s'. finished ls s out e s' \<Longrightarrow> out \<noteq> Normal \<Longrightarrow> \<exists>s''. g s' = Some (Running s'') \<and> skips ms s' s''"
  shows "agrees (ls @ ms) s (seq_normal r f) (andthen q g)"
proof (cases r)
  case None
  then show ?thesis using a by (simp add: agrees_def seq_normal_def)
next
  case (Some p)
  obtain out e where p: "p = (out, e)" by (cases p)
  show ?thesis
  proof (cases "out = Failed")
    case True
    then show ?thesis using a by (simp add: agrees_def seq_normal_def Some p)
  next
    case False
    then obtain s' where s': "q = Some (Running s')" "finished ls s out e s'"
      using a by (auto simp: agrees_def Some p)
    show ?thesis
    proof (cases "out = Normal")
      case True
      then have "agrees ms s' (f e) (g s')" using normal s'(2) by simp
      then show ?thesis using s' True finished_trans[of ls s e s' ms]
        by (auto simp: agrees_def seq_normal_def Some p split: option.splits if_splits)
    next
      case nn: False
      then obtain s'' where "g s' = Some (Running s'')" "skips ms s' s''" using skip[OF s'(2)] by blast
      then show ?thesis using s' nn False finished_skips[OF s'(2)]
        by (auto simp: agrees_def seq_normal_def Some p)
    qed
  qed
qed

subsection \<open>Loops\<close>

definition finishes ::
    "(outcome \<Rightarrow> 'e \<Rightarrow> 'e istate \<Rightarrow> bool) \<Rightarrow> (outcome \<times> 'e) option \<Rightarrow> 'e result option \<Rightarrow> bool" where
  "finishes Post r q \<longleftrightarrow>
     (case r of
        None \<Rightarrow> q = None
      | Some (out, e) \<Rightarrow>
          if out = Failed then q = Some (Aborted e)
          else \<exists>s'. q = Some (Running s') \<and> Post out e s')"

lemma agrees_finishes: "agrees ls s r q = finishes (finished ls s) r q"
  by (simp add: agrees_def finishes_def)

text \<open>
  One iteration at a time: \<open>Rel b e t\<close> relates the environment of the semantics to the state at
  the first (\<open>b\<close>) or a later iteration.
\<close>

definition iteration_ok ::
    "(bool \<Rightarrow> 'e \<Rightarrow> 'e istate \<Rightarrow> bool) \<Rightarrow> (outcome \<Rightarrow> 'e \<Rightarrow> 'e istate \<Rightarrow> bool)
      \<Rightarrow> (bool \<times> outcome \<times> 'e) option \<Rightarrow> 'e result option \<times> ('e istate \<Rightarrow> bool \<times> 'e istate) \<Rightarrow> bool" where
  "iteration_ok Rel Post r q \<longleftrightarrow>
     (case r of
        None \<Rightarrow> fst q = None
      | Some (ag, out, e) \<Rightarrow>
          if out = Failed then \<not> ag \<and> fst q = Some (Aborted e)
          else \<exists>t1. fst q = Some (Running t1) \<and> fst (snd q t1) = ag \<and>
                    (if ag then Rel False e (snd (snd q t1)) else Post out e (snd (snd q t1))))"

lemma iterate_ok:
  assumes tok: "\<And>b e t. Rel b e t \<Longrightarrow> tok t off = (if b then first else again)"
    and step: "\<And>b e t. Rel b e t \<Longrightarrow> iteration_ok Rel Post (f e) (body t)"
  shows "Rel b e t \<Longrightarrow>
    finishes Post (sem_iter n f e) (iterate n off (if b then first else again) again body t)"
proof (induction n arbitrary: b e t)
  case 0
  then show ?case by (simp add: finishes_def)
next
  case (Suc n)
  note tk = tok[OF Suc.prems] and st = step[OF Suc.prems]
  show ?case
  proof (cases "f e")
    case None
    then have "fst (body t) = None" using st by (simp add: iteration_ok_def)
    then show ?thesis using tk None by (cases "body t") (simp add: finishes_def)
  next
    case (Some p)
    obtain ag out e1 where p: "p = (ag, out, e1)" by (cases p)
    obtain q fin where b: "body t = (q, fin)" by (cases "body t")
    show ?thesis
    proof (cases "out = Failed")
      case True
      then show ?thesis using tk st b by (simp add: finishes_def iteration_ok_def Some p)
    next
      case False
      then obtain t1 where t1: "q = Some (Running t1)" "fst (fin t1) = ag"
        "if ag then Rel False e1 (snd (fin t1)) else Post out e1 (snd (fin t1))"
        using st b by (auto simp: iteration_ok_def Some p)
      obtain t2 where t2: "fin t1 = (ag, t2)" using t1(2) by (cases "fin t1") auto
      show ?thesis
      proof (cases ag)
        case True
        then have "finishes Post (sem_iter n f e1) (iterate n off again again body t2)"
          using Suc.IH[of False e1 t2] t1(3) t2 by simp
        then show ?thesis using tk b t1(1) t2 True by (simp add: Some p)
      next
        case ag: False
        then show ?thesis using tk b t1 t2 False by (simp add: Some p finishes_def)
      qed
    qed
  qed
qed

subsection \<open>One iteration\<close>

definition runs_ok :: "pval \<Rightarrow> nat \<Rightarrow> 'e stmt \<Rightarrow> bool" where
  "runs_ok junk n P \<longleftrightarrow>
     (\<forall>s. live s \<longrightarrow> sync s \<longrightarrow> ready (loops P) s \<longrightarrow>
       agrees (loops P) s (sem n P (loop_nest_level s) (env s)) (run junk n P s))"

text \<open>
  \<open>s\<close> is the state before the loop. \<open>at_loop\<close> is the state at the loop's token, \<open>inside\<close> the one
  at its body; \<open>fs\<close> is what the loop keeps on the \<^verbatim>\<open>for\<close> stack between two iterations.
\<close>

definition loop_frame :: "(int \<times> token) list \<Rightarrow> 'e istate \<Rightarrow> 'e \<Rightarrow> 'e istate \<Rightarrow> bool" where
  "loop_frame ls s e t \<longleftrightarrow>
     sync t \<and> env t = e \<and> switch_stack t = switch_stack s \<and> return_value t = return_value s \<and>
     \<not> returned t \<and> loop_change_type t = DO_NOTHING \<and>
     (\<forall>off. off \<notin> fst ` set ls \<longrightarrow> switched t off = switched s off)"

definition at_loop ::
    "int \<Rightarrow> token \<Rightarrow> int list \<Rightarrow> (int \<times> token) list \<Rightarrow> 'e istate \<Rightarrow> bool \<Rightarrow> 'e \<Rightarrow> 'e istate \<Rightarrow> bool" where
  "at_loop off again fs ls s b e t \<longleftrightarrow>
     loop_frame ls s e t \<and> Execute t \<and> ExecuteFlag t = EXECUTE \<and> css t = css s \<and>
     loop_nest_level t = loop_nest_level s \<and>
     tok t = (if b then tok s else (tok s)(off := again)) \<and>
     for_stack t = (if b then for_stack s else fs @ for_stack s)"

definition inside :: "int list \<Rightarrow> (int \<times> token) list \<Rightarrow> 'e istate \<Rightarrow> 'e \<Rightarrow> 'e istate \<Rightarrow> bool" where
  "inside fs ls s e u \<longleftrightarrow>
     loop_frame ls s e u \<and> css u = EXECUTE # css s \<and> loop_nest_level u = loop_nest_level s + 1 \<and>
     tok u = tok s \<and> for_stack u = fs @ for_stack s"

lemma inside_runs:
  assumes "runs_ok junk n b" "inside fs ls s e u" "Execute u" "ExecuteFlag u = EXECUTE" "ready (loops b) u"
  shows "agrees (loops b) u (sem n b (loop_nest_level s + 1) e) (run junk n b u)"
proof -
  have "live u" "sync u" "loop_nest_level u = loop_nest_level s + 1" "env u = e"
    using assms(2-4) by (simp_all add: inside_def loop_frame_def live_def)
  then show ?thesis using assms(1,5) unfolding runs_ok_def by fastforce
qed

lemma inside_ready:
  assumes "inside fs ls s e u" "ready ms s" "fst ` set ms \<inter> set fs = {}"
  shows "ready ms u"
  using assms by (fastforce simp: inside_def ready_def)

lemma while_end:
  fixes off :: int
  assumes "inside [] ls s e u" "finished ms u out e' u'" "set ms \<subseteq> set ls" "out \<noteq> Failed"
  defines "r \<equiv> cs_end_while off u'" and "l \<equiv> loop_end (loop_nest_level s + 1) out"
  shows "fst r = fst l"
    "fst l \<Longrightarrow> at_loop off CONTINUED_WHILE [] ls s False e' (snd r)"
    "\<not> fst l \<Longrightarrow> finished ls s (snd l) e' (snd r)"
proof -
  have fr: "\<forall>off. off \<notin> fst ` set ls \<longrightarrow> off \<notin> fst ` set ms" using assms(3) by blast
  note d = assms(1,2,4) fr
  show "fst r = fst l" unfolding r_def l_def using d
    by (cases out) (auto simp: finished_def inside_def loop_frame_def kept_def loop_defs flag_defs)
  show "fst l \<Longrightarrow> at_loop off CONTINUED_WHILE [] ls s False e' (snd r)" unfolding r_def l_def using d
    by (cases out)
       (auto simp: finished_def inside_def loop_frame_def at_loop_def kept_def loop_defs flag_defs
          sync_def split: if_splits)
  show "\<not> fst l \<Longrightarrow> finished ls s (snd l) e' (snd r)" unfolding r_def l_def using d
    by (cases out)
       (auto simp: finished_def inside_def loop_frame_def settled_def kept_def loop_defs flag_defs
          sync_def split: if_splits)
qed

text \<open>The end of an iteration that is not executed.\<close>

lemma while_skip_end:
  fixes off :: int
  assumes "inside [] ls s e u" "ExecuteFlag u = DONT_EXECUTE" "\<not> Execute u" "skips ms u u'" "set ms \<subseteq> set ls"
  shows "\<not> fst (cs_end_while off u') \<and> finished ls s Normal e (snd (cs_end_while off u'))"
proof -
  have fr: "\<forall>off. off \<notin> fst ` set ls \<longrightarrow> off \<notin> fst ` set ms" using assms(5) by blast
  show ?thesis using assms(1-4) fr
    by (auto simp: finished_def inside_def loop_frame_def settled_def kept_def loop_defs flag_defs
        skips_def sync_def)
qed

lemma inside_dead: "inside fs ls s e u \<Longrightarrow> ExecuteFlag u = DONT_EXECUTE \<Longrightarrow> \<not> Execute u \<Longrightarrow> dead u \<and> sync u"
  by (auto simp: inside_def loop_frame_def dead_def should_execute_def)

text \<open>An iteration whose body is executed: what the handlers at its end have to do.\<close>

definition ends_ok ::
    "(bool \<Rightarrow> 'e \<Rightarrow> 'e istate \<Rightarrow> bool) \<Rightarrow> (outcome \<Rightarrow> 'e \<Rightarrow> 'e istate \<Rightarrow> bool)
      \<Rightarrow> bool \<times> outcome \<times> 'e \<Rightarrow> bool \<times> 'e istate \<Rightarrow> bool" where
  "ends_ok Rel Post r q \<longleftrightarrow>
     (case r of (ag, out, e) \<Rightarrow>
        out \<noteq> Failed \<and> fst q = ag \<and> (if ag then Rel False e (snd q) else Post out e (snd q)))"

lemma body_step:
  assumes ag: "agrees ms u r q" and F: "\<And>e. h Failed e = (False, Failed, e)"
    and fin: "\<And>out e u'. finished ms u out e u' \<Longrightarrow> out \<noteq> Failed \<Longrightarrow> ends_ok Rel Post (h out e) (fin u')"
  shows "iteration_ok Rel Post (map_option (\<lambda>(out, e). h out e) r) (q, fin)"
proof (cases r)
  case None
  then show ?thesis using ag by (simp add: iteration_ok_def agrees_def)
next
  case (Some p)
  obtain out e where p: "p = (out, e)" by (cases p)
  show ?thesis
  proof (cases "out = Failed")
    case True
    then show ?thesis using ag F by (simp add: iteration_ok_def agrees_def Some p)
  next
    case False
    then obtain u' where u': "q = Some (Running u')" "finished ms u out e u'"
      using ag by (auto simp: agrees_def Some p)
    obtain g out' e' where h: "h out e = (g, out', e')" by (cases "h out e")
    show ?thesis using fin[OF u'(2) False] u'(1) by (auto simp: iteration_ok_def Some p ends_ok_def h)
  qed
qed

text \<open>An iteration whose body is skipped.\<close>

lemma skip_step:
  assumes "0 < n" and "inside fs ls s e u" and "ExecuteFlag u = DONT_EXECUTE" "\<not> Execute u"
    and "ready (loops b) u"
    and fin: "\<And>u'. skips (loops b) u u' \<Longrightarrow> \<not> fst (fin u') \<and> Post Normal e (snd (fin u'))"
  shows "iteration_ok Rel Post (Some (False, Normal, e)) (run junk n b u, fin)"
proof -
  obtain u' where "run junk n b u = Some (Running u')" "skips (loops b) u u'"
    using skip_stmt[OF assms(1)] inside_dead[OF assms(2-4)] assms(5) by metis
  then show ?thesis using fin[of u'] by (simp add: iteration_ok_def)
qed

lemma while_iteration:
  assumes n: "0 < n" and b: "runs_ok junk n b" and rd: "ready (loops (While off c b)) s"
    and at: "at_loop off CONTINUED_WHILE [] (loops (While off c b)) s first e t"
  shows "iteration_ok (at_loop off CONTINUED_WHILE [] (loops (While off c b)) s)
           (finished (loops (While off c b)) s)
           (let (v, e1) = eval c e in
              if pval_is_true v
              then while_body (loop_nest_level s + 1) (sem n b (loop_nest_level s + 1) e1)
              else Some (False, Normal, e1))
           (let (v, t1) = run_expr junk c t in (run junk n b (cs_start_while off v t1), cs_end_while off))"
proof -
  let ?ls = "loops (While off c b)"
  have lt: "live t" "env t = e" using at by (simp_all add: at_loop_def loop_frame_def live_def)
  obtain v e1 where v: "eval c e = (v, e1)" by (cases "eval c e")
  let ?t1 = "t\<lparr>env := e1\<rparr>"
  have rx: "run_expr junk c t = (v, ?t1)" using run_expr_live[OF lt(1), of junk c] lt(2) v by simp
  define u where "u = cs_start_while off v ?t1"
  have u: "inside [] ?ls s e1 u"
    "if pval_is_true v then Execute u \<and> ExecuteFlag u = EXECUTE else \<not> Execute u \<and> ExecuteFlag u = DONT_EXECUTE"
    using at rd
    by (auto simp: u_def at_loop_def inside_def loop_frame_def loop_defs flag_defs sync_def fun_eq_iff split: if_splits)
  have rb: "ready (loops b) u" by (rule inside_ready[OF u(1)]) (use rd in simp_all)
  have sub: "set (loops b) \<subseteq> set ?ls" by auto
  show ?thesis
  proof (cases "pval_is_true v")
    case False
    then have "iteration_ok (at_loop off CONTINUED_WHILE [] ?ls s) (finished ?ls s)
        (Some (False, Normal, e1)) (run junk n b u, cs_end_while off)"
      using u while_skip_end[OF u(1) _ _ _ sub] by (intro skip_step[OF n u(1) _ _ rb]) auto
    then show ?thesis using False by (simp add: v rx u_def)
  next
    case True
    then have ag: "agrees (loops b) u (sem n b (loop_nest_level s + 1) e1) (run junk n b u)"
      using inside_runs[OF b u(1) _ _ rb] u(2) by simp
    have "iteration_ok (at_loop off CONTINUED_WHILE [] ?ls s) (finished ?ls s)
        (while_body (loop_nest_level s + 1) (sem n b (loop_nest_level s + 1) e1)) (run junk n b u, cs_end_while off)"
      unfolding while_body_def
    proof (rule body_step[OF ag])
      fix out e' u'
      assume f: "finished (loops b) u out e' u'" "out \<noteq> Failed"
      then have "snd (loop_end (loop_nest_level s + 1) out) \<noteq> Failed" by (cases out) auto
      then show "ends_ok (at_loop off CONTINUED_WHILE [] ?ls s) (finished ?ls s)
          (fst (loop_end (loop_nest_level s + 1) out), snd (loop_end (loop_nest_level s + 1) out), e') (cs_end_while off u')"
        using while_end[OF u(1) f(1) sub f(2), of off] by (simp add: ends_ok_def)
    qed simp
    then show ?thesis using True by (simp add: v rx u_def)
  qed
qed

subsection \<open>\<^verbatim>\<open>do\<close>\<close>

lemma do_end:
  fixes off :: int
  assumes i: "inside [] ls s e u" and f: "finished ms u out e' u'" and sub: "set ms \<subseteq> set ls"
    and F: "out \<noteq> Failed"
  shows "ends_ok (at_loop off CONTINUED_DOWHILE [] ls s) (finished ls s)
           (if fst (loop_end (loop_nest_level s + 1) out) then (pval_is_true (fst (eval c e')), Normal, snd (eval c e'))
            else (False, snd (loop_end (loop_nest_level s + 1) out), e'))
           (let (v, t2) = run_expr junk c (cs_force_eval_do_while u') in cs_end_do_while off v t2)"
proof -
  have fr: "\<forall>off. off \<notin> fst ` set ls \<longrightarrow> off \<notin> fst ` set ms" using sub by blast
  define w where "w = cs_force_eval_do_while u'"
  show ?thesis
  proof (cases "fst (loop_end (loop_nest_level s + 1) out)")
    case True
    have w: "live w" "env w = e'" "kept ms u w" "return_value w = return_value s"
      using i f True F
      by (cases out; auto simp: w_def finished_def live_def settled_def inside_def loop_frame_def kept_def
          loop_defs flag_defs sync_def split: if_splits)+
    obtain v e1 where v: "eval c e' = (v, e1)" by (cases "eval c e'")
    have "run_expr junk c w = (v, w\<lparr>env := e1\<rparr>)" using run_expr_live[OF w(1), of junk c] w(2) v by simp
    then show ?thesis using i w True fr v unfolding w_def[symmetric]
      by (auto simp: ends_ok_def at_loop_def finished_def inside_def loop_frame_def kept_def
          live_def settled_def loop_defs flag_defs sync_def split: if_splits)
  next
    case False
    have w: "w = u'" using i f False F
      by (cases out) (auto simp: w_def finished_def inside_def kept_def loop_defs flag_defs split: if_splits)
    have "out \<noteq> Normal" using False by auto
    then have "dead u'" by (rule finished_dead[OF f])
    then obtain v where "run_expr junk c u' = (v, u')" using dead_exprs(1) by blast
    then show ?thesis using i f False F fr unfolding w_def[symmetric] w
      by (cases out) (auto simp: ends_ok_def finished_def inside_def loop_frame_def kept_def
          settled_def loop_defs flag_defs sync_def split: if_splits)
  qed
qed

lemma do_iteration:
  assumes b: "runs_ok junk n b" and rd: "ready (loops (DoWhile off b c)) s"
    and at: "at_loop off CONTINUED_DOWHILE [] (loops (DoWhile off b c)) s first e t"
  shows "iteration_ok (at_loop off CONTINUED_DOWHILE [] (loops (DoWhile off b c)) s)
           (finished (loops (DoWhile off b c)) s)
           (do_body (loop_nest_level s + 1) c (sem n b (loop_nest_level s + 1) e))
           (run junk n b (cs_start_do_while off t),
            \<lambda>t1. let (v, t2) = run_expr junk c (cs_force_eval_do_while t1) in cs_end_do_while off v t2)"
proof -
  let ?ls = "loops (DoWhile off b c)"
  define u where "u = cs_start_do_while off t"
  have u: "inside [] ?ls s e u" "Execute u" "ExecuteFlag u = EXECUTE"
    using at rd
    by (auto simp: u_def at_loop_def inside_def loop_frame_def loop_defs flag_defs sync_def fun_eq_iff split: if_splits)
  have rb: "ready (loops b) u" by (rule inside_ready[OF u(1)]) (use rd in simp_all)
  have sub: "set (loops b) \<subseteq> set ?ls" by auto
  show ?thesis unfolding do_body_def u_def[symmetric]
    by (rule body_step[OF inside_runs[OF b u(1) u(2) u(3) rb]], simp, rule do_end[OF u(1) _ sub])
qed

subsection \<open>\<^verbatim>\<open>for\<close>\<close>

lemma live_flags:
  assumes "live w"
  shows "set_flag EXECUTE w = w" "set_flag EXECUTE (set_flag d w) = w"
  using assms by (simp_all add: live_def set_flag_def should_execute_def)

lemma set_flag_keeps [simp]: "css (set_flag d w) = css w" "for_stack (set_flag d w) = for_stack w"
    "env (set_flag d w) = env w" "switched (set_flag d w) = switched w" "tok (set_flag d w) = tok w"
    "loop_nest_level (set_flag d w) = loop_nest_level w" "ExecuteFlag (set_flag d w) = d"
  by (simp_all add: set_flag_def Let_def)

lemma stopped_exprs: "\<exists>v. run_exprs junk xs (set_flag DONT_EXECUTE w) = (v, set_flag DONT_EXECUTE w)"
  using run_exprs_skip[of "set_flag DONT_EXECUTE w" junk xs]
  by (simp add: set_flag_def should_execute_def Let_def) (metis prod.collapse)

lemma int_top_other: "off \<notin> set fs \<Longrightarrow> 0 \<le> off \<Longrightarrow> int_top fs \<noteq> off"
  by (cases fs) (auto simp: int_top_def)

text \<open>The state at the second expression, with the environment \<open>e\<close>.\<close>

definition for_inner :: "int \<Rightarrow> 'e istate \<Rightarrow> 'e \<Rightarrow> 'e istate" where
  "for_inner off t e =
     t\<lparr>loop_nest_level := loop_nest_level t + 1, css := EXECUTE # css t, tok := (tok t)(off := FOR), env := e\<rparr>"

lemma for_inner_simps [simp]: "css (for_inner off t e) = EXECUTE # css t" "for_stack (for_inner off t e) = for_stack t"
    "env (for_inner off t e) = e" "live (for_inner off t e) = live t" "(for_inner off t e)\<lparr>env := e'\<rparr> = for_inner off t e'"
    "Execute (for_inner off t e) = Execute t"
  by (simp_all add: for_inner_def live_def)

definition for_rel ::
    "int \<Rightarrow> (int \<times> token) list \<Rightarrow> 'e istate \<Rightarrow> 'e expr list \<Rightarrow> 'e expr list \<Rightarrow> bool \<Rightarrow> 'e \<Rightarrow> 'e istate \<Rightarrow> bool" where
  "for_rel off ls s x1 x3 b e t \<longleftrightarrow>
     at_loop off CONTINUED_FOR [off] ls s b (env t) t \<and> (\<not> b \<longrightarrow> switched t off) \<and>
     e = snd (evals (if b then x1 else x3) (env t))"

lemma int_top_Cons [simp]: "int_top (n # fs) = n"
  by (simp add: int_top_def)

text \<open>The handlers before the body evaluate the expressions in their order in the semantics.\<close>

lemma for_start:
  fixes junk :: pval
  assumes rel: "for_rel off ls s x1 x3 b e t" and off: "off \<notin> set (for_stack s)" "0 \<le> off"
    and e2: "evals x2 e = (v, e1)"
  defines "sw \<equiv> switched t off"
  defines "t1 \<equiv> snd (run_exprs junk x1 (for_pre_expr1 off t))"
  defines "q2 \<equiv> run_exprs junk (if swapped t off then x3 else x2) (for_pre_expr2 off sw t1)"
  defines "q3 \<equiv> run_exprs junk (if swapped t off then x2 else x3) (for_pre_expr3 sw (snd q2))"
  shows "for_pre_statement sw (fst q2) (fst q3) (snd q3) =
           set_flag (if pval_is_true v then EXECUTE else DONT_EXECUTE) (for_inner off t e1)"
proof -
  have at: "at_loop off CONTINUED_FOR [off] ls s b (env t) t" using rel by (simp add: for_rel_def)
  have lt: "live t" using at by (simp add: at_loop_def loop_frame_def live_def)
  have sp: "swapped t off = sw" using at by (simp add: at_loop_def loop_frame_def sync_def sw_def)
  let ?w = "for_inner off t"
  have lw: "live (?w x)" for x using lt by simp
  note live_run = run_exprs_live[OF lw] live_flags[OF lw]
  have ex: "Execute t" "ExecuteFlag t = EXECUTE" using lt by (simp_all add: live_def)
  have start: "for_pre_expr1 off t = (if int_top (for_stack t) = off then set_flag DONT_EXECUTE (?w (env t)) else ?w (env t))"
    using ex by (auto simp: for_pre_expr1_def push_flag_def tc_set_token_def for_inner_def Let_def)
  have "\<exists>f. \<forall>x. run_exprs junk xs (set_flag DONT_EXECUTE (?w x)) = (f x, set_flag DONT_EXECUTE (?w x))" for xs
    by (rule choice) (simp add: stopped_exprs)
  then obtain a1 a2 where stop:
    "\<And>x. run_exprs junk x1 (set_flag DONT_EXECUTE (?w x)) = (a1 x, set_flag DONT_EXECUTE (?w x))"
    "\<And>x. run_exprs junk x3 (set_flag DONT_EXECUTE (?w x)) = (a2 x, set_flag DONT_EXECUTE (?w x))"
    by blast
  show ?thesis
  proof (cases b)
    case False
    then have top: "int_top (for_stack t) = off" "sw" and e: "e = snd (evals x3 (env t))"
      using rel by (simp_all add: for_rel_def at_loop_def sw_def)
    have "q2 = (fst (evals x3 (env t)), ?w e)"
      by (simp add: q2_def t1_def start top stop sp for_pre_expr2_def live_run e)
    then have "q3 = (v, ?w e1)" by (simp add: q3_def sp top for_pre_expr3_def live_run e2)
    then show ?thesis using ex by (simp add: for_pre_statement_def top live_run)
  next
    case True
    then have e: "e = snd (evals x1 (env t))" and top: "int_top (for_stack t) \<noteq> off"
      using rel int_top_other[OF off] by (simp_all add: for_rel_def at_loop_def)
    have t1: "t1 = ?w e" by (simp add: t1_def start top live_run e)
    show ?thesis
    proof (cases sw)
      case True
      have "q2 = (a2 e, set_flag DONT_EXECUTE (?w e))"
        by (simp add: q2_def t1 sp True for_pre_expr2_def live_run top stop)
      then have "q3 = (v, ?w e1)" by (simp add: q3_def sp True for_pre_expr3_def live_run e2)
      then show ?thesis using ex by (simp add: for_pre_statement_def True live_run)
    next
      case False
      have "q2 = (v, ?w e1)" by (simp add: q2_def t1 sp False for_pre_expr2_def live_run e2)
      then have "q3 = (a2 e1, set_flag DONT_EXECUTE (?w e1)) \<and> fst q2 = v"
        using ex by (simp add: q3_def sp False for_pre_expr3_def live_run stop)
      then show ?thesis using ex by (simp add: for_pre_statement_def False live_run)
    qed
  qed
qed

text \<open>\<^verbatim>\<open>for_post_statement\<close> in two steps: the bookkeeping of the stack and the switch, and the jump.\<close>

definition for_mark :: "int \<Rightarrow> bool \<Rightarrow> 'e istate \<Rightarrow> 'e istate" where
  "for_mark off sw u =
     (let u1 = (if int_top (for_stack u) \<noteq> off then u\<lparr>for_stack := off # for_stack u\<rparr> else u)
      in if \<not> sw then tc_set_switched off (tc_switch_expressions off u1) else u1)"

lemma for_mark_simps:
  assumes "switched u off = sw" "sync u" "for_stack u = fs @ st" "fs = [] \<or> fs = [off]" "off \<notin> set st" "0 \<le> off"
  shows "for_stack (for_mark off sw u) = off # st" "sync (for_mark off sw u)" "switched (for_mark off sw u) off"
    "o' \<noteq> off \<Longrightarrow> switched (for_mark off sw u) o' = switched u o'"
    "Execute (for_mark off sw u) = Execute u" "ExecuteFlag (for_mark off sw u) = ExecuteFlag u"
    "css (for_mark off sw u) = css u" "switch_stack (for_mark off sw u) = switch_stack u"
    "loop_nest_level (for_mark off sw u) = loop_nest_level u" "loop_change_type (for_mark off sw u) = loop_change_type u"
    "loop_change_level (for_mark off sw u) = loop_change_level u" "returned (for_mark off sw u) = returned u"
    "return_value (for_mark off sw u) = return_value u" "tok (for_mark off sw u) = tok u" "env (for_mark off sw u) = env u"
  using assms int_top_other[OF assms(5,6)]
  by (auto simp: for_mark_def tc_set_switched_def tc_switch_expressions_def sync_def Let_def fun_eq_iff)

lemma for_post_statement_mark:
  "for_post_statement off sw u =
     (let w = for_mark off sw u;
          (seek, s2) =
            (if Execute w then (True, tc_set_token off CONTINUED_FOR w)
             else if change_here w then
               (if loop_change_type w = DO_CONTINUE
                then (True, clear_change (tc_set_token off CONTINUED_FOR w))
                else (False, clear_change (pop_for off w)))
             else (False, pop_for off w))
      in (seek, leave_loop s2))"
  by (simp add: for_post_statement_def for_mark_def Let_def)

lemma for_end:
  fixes off :: int
  assumes i: "inside fs ls s e u" and fs: "fs = [] \<or> fs = [off]" "off \<notin> set (for_stack s)" "0 \<le> off"
    and f: "finished ms u out e' u'" and sub: "set ms \<subseteq> set ls" "off \<notin> fst ` set ms" "off \<in> fst ` set ls"
    and F: "out \<noteq> Failed" and sw: "sw = switched u off"
  shows "ends_ok (for_rel off ls s x1 x3) (finished ls s)
           (if fst (loop_end (loop_nest_level s + 1) out) then (True, Normal, snd (evals x3 e'))
            else (False, snd (loop_end (loop_nest_level s + 1) out), e'))
           (for_post_statement off sw u')"
proof -
  have fr: "\<forall>off. off \<notin> fst ` set ls \<longrightarrow> off \<notin> fst ` set ms" using sub(1) by blast
  have k: "switched u' off = sw" "sync u'" "for_stack u' = fs @ for_stack s"
    using f i sub(2) sw by (simp_all add: finished_def kept_def inside_def)
  note m = for_mark_simps[OF k fs(1,2,3)]
  have sw': "\<forall>o'. o' \<notin> fst ` set ls \<longrightarrow> switched (for_mark off sw u') o' = switched s o'"
  proof (intro allI impI)
    fix o' assume o': "o' \<notin> fst ` set ls"
    then have "o' \<noteq> off" using sub(3) by blast
    from m(4)[OF this] show "switched (for_mark off sw u') o' = switched s o'"
      using f i fr o' by (simp add: finished_def kept_def inside_def loop_frame_def)
  qed
  show ?thesis unfolding for_post_statement_mark using f i F sw' m(2,3)
    by (cases out)
       (auto simp: ends_ok_def for_rel_def at_loop_def finished_def inside_def loop_frame_def kept_def
          settled_def loop_defs flag_defs pop_for_def sync_def m(1) m(5-) split: if_splits)
qed

lemma for_iteration:
  assumes n: "0 < n" and b: "runs_ok junk n b" and rd: "ready (loops (For off x1 x2 x3 b)) s"
    and rel: "for_rel off (loops (For off x1 x2 x3 b)) s x1 x3 first e t"
  shows "iteration_ok (for_rel off (loops (For off x1 x2 x3 b)) s x1 x3) (finished (loops (For off x1 x2 x3 b)) s)
           (let (v, e1) = evals x2 e in
              if pval_is_true v
              then for_body (loop_nest_level s + 1) x3 (sem n b (loop_nest_level s + 1) e1)
              else Some (False, Normal, e1))
           (let sw = switched t off;
                sp = swapped t off;
                t1 = snd (run_exprs junk x1 (for_pre_expr1 off t));
                (v2, t2) = run_exprs junk (if sp then x3 else x2) (for_pre_expr2 off sw t1);
                (v3, t3) = run_exprs junk (if sp then x2 else x3) (for_pre_expr3 sw t2)
            in (run junk n b (for_pre_statement sw v2 v3 t3), for_post_statement off sw))"
proof -
  let ?ls = "loops (For off x1 x2 x3 b)" and ?sw = "switched t off"
  obtain v e1 where v: "evals x2 e = (v, e1)" by (cases "evals x2 e")
  have off: "off \<notin> set (for_stack s)" "0 \<le> off" "off \<notin> fst ` set (loops b)" "tok s off = FOR" using rd by auto
  define fs where "fs = (if first then [] else [off])"
  define u where "u = set_flag (if pval_is_true v then EXECUTE else DONT_EXECUTE) (for_inner off t e1)"
  note start = for_start[OF rel off(1,2) v, of junk, folded u_def]
  have u: "inside fs ?ls s e1 u" "switched u off = ?sw" "ExecuteFlag u = (if pval_is_true v then EXECUTE else DONT_EXECUTE)"
    "Execute u = pval_is_true v"
    using rel off(4)
    by (auto simp: u_def for_rel_def at_loop_def inside_def loop_frame_def for_inner_def set_flag_def should_execute_def
        sync_def fs_def fun_eq_iff Let_def split: if_splits)
  have fs: "fs = [] \<or> fs = [off]" by (simp add: fs_def)
  have "fst ` set (loops b) \<inter> set fs = {}" "ready (loops b) s" using off(3) fs rd by (elim disjE; simp)+
  then have rb: "ready (loops b) u" by (intro inside_ready[OF u(1)])
  have sub: "set (loops b) \<subseteq> set ?ls" "off \<in> fst ` set ?ls" by auto
  note fin = for_end[OF u(1) fs off(1,2) _ sub(1) off(3) sub(2) _ u(2)[symmetric], of _ _ _ x1 x3]
  show ?thesis
  proof (cases "pval_is_true v")
    case True
    then have ag: "agrees (loops b) u (sem n b (loop_nest_level s + 1) e1) (run junk n b u)"
      using inside_runs[OF b u(1) _ _ rb] u(3,4) by simp
    have "iteration_ok (for_rel off ?ls s x1 x3) (finished ?ls s)
        (for_body (loop_nest_level s + 1) x3 (sem n b (loop_nest_level s + 1) e1)) (run junk n b u, for_post_statement off ?sw)"
      unfolding for_body_def by (rule body_step[OF ag], simp, rule fin)
    then show ?thesis using True start by (simp add: v split_beta)
  next
    case False
    have "iteration_ok (for_rel off ?ls s x1 x3) (finished ?ls s)
        (Some (False, Normal, e1)) (run junk n b u, for_post_statement off ?sw)"
    proof (rule skip_step[OF n u(1) _ _ rb])
      fix u' assume sk: "skips (loops b) u u'"
      have k: "switched u' off = ?sw" "sync u'" "for_stack u' = fs @ for_stack s"
        using sk u(1,2) off(3) by (auto simp: skips_def inside_def sync_def)
      note m = for_mark_simps[OF k fs off(1,2)]
      have sw': "switched (for_mark off ?sw u') o' = switched s o'" if "o' \<notin> fst ` set ?ls" for o'
        using that m(4) sk u(1) by (auto simp: skips_def inside_def loop_frame_def)
      show "\<not> fst (for_post_statement off ?sw u') \<and> finished ?ls s Normal e1 (snd (for_post_statement off ?sw u'))"
        unfolding for_post_statement_mark using sk u False sw' m(2,3)
        by (auto simp: finished_def inside_def loop_frame_def kept_def skips_def
          settled_def loop_defs flag_defs pop_for_def sync_def m(1) m(5-) split: if_splits)
    qed (use u(3,4) False in simp_all)
    then show ?thesis using False start by (simp add: v split_beta)
  qed
qed

lemma loop_from:
  assumes step: "\<And>b e t. Rel b e t \<Longrightarrow> iteration_ok Rel (finished ls s) (f e) (body t)"
    and tok: "\<And>b e t. Rel b e t \<Longrightarrow> tok t off = (if b then first else again)"
    and start: "Rel True e s"
  shows "agrees ls s (sem_iter n f e) (iterate n off first again body s)"
  using iterate_ok[of Rel off first again "finished ls s" f body True e s n, OF tok step start]
  by (simp add: agrees_finishes)

lemma loops_ok:
  assumes n: "0 < n" and b: "runs_ok junk n b"
  shows while_ok: "runs_ok junk n (While off c b)" and do_ok: "runs_ok junk n (DoWhile off b c)"
    and for_ok: "runs_ok junk n (For off x1 x2 x3 b)"
proof -
  show "runs_ok junk n (While off c b)"
    unfolding runs_ok_def run.simps sem.simps
    by (intro allI impI, rule loop_from, rule while_iteration[OF n b], assumption+)
       (simp_all add: at_loop_def loop_frame_def live_def)
  show "runs_ok junk n (DoWhile off b c)"
    unfolding runs_ok_def run.simps sem.simps
    by (intro allI impI, rule loop_from, rule do_iteration[OF b], assumption+)
       (simp_all add: at_loop_def loop_frame_def live_def)
  show "runs_ok junk n (For off x1 x2 x3 b)"
    unfolding runs_ok_def run.simps sem.simps
    by (intro allI impI, rule loop_from, rule for_iteration[OF n b], assumption+)
       (simp_all add: for_rel_def at_loop_def loop_frame_def live_def)
qed

end
