(* ===== verification/Control_Correct.thy ===== *)
theory Control_Correct
  imports Control_Refine
begin

text \<open>
  The remaining statements (\<^verbatim>\<open>if\<close> with its \<^verbatim>\<open>elseif\<close>s, \<^verbatim>\<open>switch\<close>, \<^verbatim>\<open>break\<close>, \<^verbatim>\<open>continue\<close>,
  \<^verbatim>\<open>return\<close>) and the correctness of the flag machine for all programs.
\<close>

subsection \<open>\<^verbatim>\<open>if\<close>\<close>

text \<open>As \<open>finished\<close>, but \<^verbatim>\<open>Execute\<close> may have been switched off after a branch was executed.\<close>

definition resolved :: "(int \<times> token) list \<Rightarrow> 'e istate \<Rightarrow> outcome \<Rightarrow> 'e \<Rightarrow> 'e istate \<Rightarrow> bool" where
  "resolved ls s out e s' \<longleftrightarrow>
     kept ls s s' \<and> shows_outcome out s s' \<and> env s' = e \<and> settled s'"

lemma finished_resolved: "finished ls s out e s' \<Longrightarrow> resolved ls s out e s'"
  by (simp add: finished_def resolved_def)

lemma set_flag_more [simp]: "switch_stack (set_flag d w) = switch_stack w" "swapped (set_flag d w) = swapped w"
    "returned (set_flag d w) = returned w" "return_value (set_flag d w) = return_value w"
    "loop_change_type (set_flag d w) = loop_change_type w" "loop_change_level (set_flag d w) = loop_change_level w"
    "Execute (set_flag d w) \<longleftrightarrow> d = EXECUTE \<and> \<not> returned w \<and> loop_change_type w = DO_NOTHING"
  by (simp_all add: set_flag_def should_execute_def Let_def)

lemma shows_outcome_flag: "shows_outcome out s (set_flag f u) = shows_outcome out s u"
  by (cases out) (simp_all add: set_flag_def Let_def)

lemma resolved_stop:
  assumes "resolved ls s out e u"
  shows "resolved ls s out e (stop_if_executed u)" "dead (stop_if_executed u)"
    "ExecuteFlag (stop_if_executed u) = DONT_EXECUTE" "sync (stop_if_executed u)"
    "ready ms (stop_if_executed u) = ready ms s"
proof -
  have lvl: "loop_change_type u \<noteq> DO_NOTHING \<Longrightarrow> loop_change_level u \<le> loop_nest_level u"
    using assms by (cases out) (auto simp: resolved_def kept_def)
  show "resolved ls s out e (stop_if_executed u)" "dead (stop_if_executed u)"
    "ExecuteFlag (stop_if_executed u) = DONT_EXECUTE" "sync (stop_if_executed u)"
    using assms lvl
    by (auto simp: resolved_def stop_if_executed_def shows_outcome_flag settled_def dead_def kept_def sync_def
        should_execute_def)
  show "ready ms (stop_if_executed u) = ready ms s"
    using assms by (auto simp: resolved_def stop_if_executed_def kept_def ready_def set_flag_def Let_def)
qed

lemma resolved_skips: "resolved ls s out e s' \<Longrightarrow> skips ms s' s'' \<Longrightarrow> resolved (ls @ ms) s out e s''"
  using kept_skips shows_outcome_skips
  by (auto simp: resolved_def settled_def skips_def) blast+

lemma resolved_mono: "resolved ls s out e u \<Longrightarrow> set ls \<subseteq> set ms \<Longrightarrow> resolved ms s out e u"
  by (auto simp: resolved_def intro: kept_mono)

lemma stop_idem: "stop_if_executed (stop_if_executed u) = stop_if_executed u"
  by (simp add: stop_if_executed_def)

lemma elseifs_stop: "run_elseifs junk n (x # xs) u = run_elseifs junk n (x # xs) (stop_if_executed u)"
  by (cases x) (simp add: cs_elseif_start_evaluate_def stop_idem)

text \<open>After a branch was executed, the other branches are skipped.\<close>

lemma elseifs_skipped:
  assumes n: "0 < n" and u: "resolved ls s out e u" and rd: "ready (loops_elseifs Es) s"
  shows "\<exists>u'. run_elseifs junk n Es u = Some (Running u') \<and> resolved (ls @ loops_elseifs Es) s out e u'"
proof (cases Es)
  case Nil
  then show ?thesis using u by simp
next
  case (Cons x xs)
  note r = resolved_stop[OF u]
  obtain u' where "run_elseifs junk n Es (stop_if_executed u) = Some (Running u')"
      "skips (loops_elseifs Es) (stop_if_executed u) u'"
    using skip_elseifs[OF n r(2,3,4)] r(5) rd by blast
  then show ?thesis using resolved_skips[OF r(1)] elseifs_stop[of junk n x xs u] Cons by auto
qed

lemma else_skipped:
  assumes n: "0 < n" and u: "resolved ls s out e u" and rd: "ready (loops b) s"
  shows "\<exists>u'. run junk n b (cs_start_else u) = Some (Running u') \<and> resolved (ls @ loops b) s out e u'"
proof -
  note r = resolved_stop[OF u]
  have "cs_start_else u = stop_if_executed u" using r(3) by (simp add: cs_start_else_def)
  moreover obtain u' where "run junk n b (stop_if_executed u) = Some (Running u')"
      "skips (loops b) (stop_if_executed u) u'"
    using skip_stmt[OF n r(2,4)] r(5) rd by blast
  ultimately show ?thesis using resolved_skips[OF r(1)] by auto
qed

text \<open>The state at an \<^verbatim>\<open>elseif\<close> or \<^verbatim>\<open>else\<close> while no branch has been executed.\<close>

definition pending :: "'e istate \<Rightarrow> bool" where
  "pending s \<longleftrightarrow> \<not> Execute s \<and> ExecuteFlag s = BEFORE_EXECUTE \<and> \<not> returned s \<and>
     loop_change_type s = DO_NOTHING \<and> css s \<noteq> [] \<and> hd (css s) = EXECUTE \<and> sync s"

definition elseifs_ok ::
    "(int \<times> token) list \<Rightarrow> 'e istate \<Rightarrow> (outcome option \<times> 'e) option \<Rightarrow> 'e result option \<Rightarrow> bool" where
  "elseifs_ok ls s r q \<longleftrightarrow>
     (case r of
        None \<Rightarrow> q = None
      | Some (None, e) \<Rightarrow>
          \<exists>s'. q = Some (Running s') \<and> pending s' \<and> kept ls s s' \<and> env s' = e \<and> return_value s' = return_value s
      | Some (Some out, e) \<Rightarrow>
          if out = Failed then q = Some (Aborted e)
          else \<exists>s'. q = Some (Running s') \<and> resolved ls s out e s')"

text \<open>The start of the branch whose condition is the first true one.\<close>

lemma pending_execute:
  assumes "pending s"
  shows "live (set_flag EXECUTE s)" "sync (set_flag EXECUTE s)" "ready ms (set_flag EXECUTE s) = ready ms s"
    "loop_nest_level (set_flag EXECUTE s) = loop_nest_level s" "env (set_flag EXECUTE s) = env s"
    "finished ls (set_flag EXECUTE s) out e u \<Longrightarrow> resolved ls s out e u"
proof -
  show "live (set_flag EXECUTE s)" "sync (set_flag EXECUTE s)" "ready ms (set_flag EXECUTE s) = ready ms s"
    "loop_nest_level (set_flag EXECUTE s) = loop_nest_level s" "env (set_flag EXECUTE s) = env s"
    using assms by (simp_all add: pending_def live_def sync_def set_flag_def should_execute_def ready_def Let_def)
  show "resolved ls s out e u" if "finished ls (set_flag EXECUTE s) out e u"
    using that by (cases out) (auto simp: finished_def resolved_def kept_def set_flag_def Let_def)
qed

lemma elseif_condition:
  fixes junk :: pval
  assumes p: "pending s" and v: "eval c (env s) = (v, e1)"
  defines "q \<equiv> run_expr junk c (cs_elseif_start_evaluate s)"
  shows "fst q = v" "cs_elseif_end_evaluate (snd q) = s\<lparr>env := e1\<rparr>"
    "cs_start_elseif v (s\<lparr>env := e1\<rparr>) =
       (if pval_is_true v then set_flag EXECUTE (s\<lparr>env := e1\<rparr>) else s\<lparr>env := e1\<rparr>)"
proof -
  let ?w = "set_flag EXECUTE (push_flag s)"
  have st: "cs_elseif_start_evaluate s = ?w"
    using p by (auto simp: cs_elseif_start_evaluate_def stop_if_executed_def pending_def push_flag_def int_top_def
        Let_def split: list.split)
  have "live ?w" "env ?w = env s" using p by (simp_all add: pending_def live_def push_flag_def set_flag_def should_execute_def Let_def)
  then have q: "q = (v, ?w\<lparr>env := e1\<rparr>)" using run_expr_live[of ?w junk c] v by (simp add: q_def st)
  then show "fst q = v" by simp
  show "cs_elseif_end_evaluate (snd q) = s\<lparr>env := e1\<rparr>"
    using p by (simp add: q cs_elseif_end_evaluate_def pending_def flag_defs)
  show "cs_start_elseif v (s\<lparr>env := e1\<rparr>) =
       (if pval_is_true v then set_flag EXECUTE (s\<lparr>env := e1\<rparr>) else s\<lparr>env := e1\<rparr>)"
    using p by (simp add: cs_start_elseif_def stop_if_executed_def pending_def)
qed

lemma resolved_env [simp]: "resolved ls (s\<lparr>env := x\<rparr>) out e u = resolved ls s out e u"
  by (cases out) (simp_all add: resolved_def kept_def)

lemma pending_env [simp]: "pending (s\<lparr>env := x\<rparr>) = pending s"
  by (simp add: pending_def sync_def)

lemma frame_env [simp]: "ready ls (s\<lparr>env := x\<rparr>) = ready ls s" "live (s\<lparr>env := x\<rparr>) = live s"
    "sync (s\<lparr>env := x\<rparr>) = sync s"
  by (simp_all add: ready_def live_def sync_def)

lemma pending_dead: "pending s \<Longrightarrow> dead s" "pending s \<Longrightarrow> sync s"
  by (simp_all add: pending_def dead_def should_execute_def)

lemma pending_skips:
  assumes "pending s" "skips ls s u"
  shows "pending u" "kept ls s u" "env u = env s" "return_value u = return_value s" "loop_nest_level u = loop_nest_level s"
  using assms by (auto simp: pending_def skips_def kept_def sync_def)

lemma resolved_kept:
  assumes "kept ls s u" "return_value u = return_value s" "resolved ms u out e u'"
  shows "resolved (ls @ ms) s out e u'"
proof -
  have "kept (ls @ ms) s u'" using kept_append[OF assms(1)] assms(3) by (simp add: resolved_def)
  moreover have "shows_outcome out s u'" using assms by (cases out) (simp_all add: resolved_def kept_def)
  ultimately show ?thesis using assms(3) by (simp add: resolved_def)
qed

lemma elseifs_ok_after:
  assumes k: "kept ls s u" "return_value u = return_value s" and ok: "elseifs_ok ms u r q"
  shows "elseifs_ok (ls @ ms) s r q"
proof (cases r)
  case None
  then show ?thesis using ok by (simp add: elseifs_ok_def)
next
  case (Some p)
  obtain oo e where p: "p = (oo, e)" by (cases p)
  show ?thesis
  proof (cases oo)
    case None
    then obtain u' where "q = Some (Running u')" "pending u'" "kept ms u u'" "env u' = e"
        "return_value u' = return_value u"
      using ok by (auto simp: elseifs_ok_def Some p)
    then show ?thesis using kept_append[OF k(1)] k(2) None by (simp add: elseifs_ok_def Some p)
  next
    case oo: (Some out)
    show ?thesis
    proof (cases "out = Failed")
      case True
      then show ?thesis using ok oo by (simp add: elseifs_ok_def Some p)
    next
      case False
      then obtain u' where "q = Some (Running u')" "resolved ms u out e u'"
        using ok oo by (auto simp: elseifs_ok_def Some p)
      then show ?thesis using resolved_kept[OF k] False oo by (simp add: elseifs_ok_def Some p)
    qed
  qed
qed

text \<open>A branch is executed and what follows it is skipped.\<close>

lemma branch_taken:
  assumes ag: "agrees ls w r q" and res: "\<And>out e u. finished ls w out e u \<Longrightarrow> resolved ls s out e u"
    and rest: "\<And>out e u. resolved ls s out e u \<Longrightarrow> \<exists>u'. g u = Some (Running u') \<and> resolved (ls @ ms) s out e u'"
  shows "elseifs_ok (ls @ ms) s (map_option (apfst Some) r) (andthen q g)"
proof (cases r)
  case None
  then show ?thesis using ag by (simp add: elseifs_ok_def agrees_def)
next
  case (Some p)
  obtain out e where p: "p = (out, e)" by (cases p)
  show ?thesis
  proof (cases "out = Failed")
    case True
    then show ?thesis using ag by (simp add: elseifs_ok_def agrees_def Some p)
  next
    case False
    then obtain u where "q = Some (Running u)" "finished ls w out e u"
      using ag by (auto simp: agrees_def Some p)
    then show ?thesis using rest[OF res] False by (fastforce simp: elseifs_ok_def Some p)
  qed
qed

lemma elseifs_correct:
  assumes n: "0 < n"
  shows "\<forall>x \<in> set Es. runs_ok junk n (snd x) \<Longrightarrow> pending s \<Longrightarrow> ready (loops_elseifs Es) s \<Longrightarrow>
    elseifs_ok (loops_elseifs Es) s (sem_elseifs n Es (loop_nest_level s) (env s)) (run_elseifs junk n Es s)"
proof (induction Es arbitrary: s)
  case Nil
  then show ?case by (simp add: elseifs_ok_def kept_def pending_def)
next
  case (Cons x Es)
  obtain c a where x: "x = (c, a)" by (cases x)
  obtain v e1 where v: "eval c (env s) = (v, e1)" by (cases "eval c (env s)")
  let ?s1 = "s\<lparr>env := e1\<rparr>"
  note cond = elseif_condition[OF Cons.prems(2) v]
  have p1: "pending ?s1" using Cons.prems(2) by simp
  have rd: "ready (loops a) ?s1" "ready (loops_elseifs Es) ?s1" using Cons.prems(3) x by simp_all
  have ra: "runs_ok junk n a" using Cons.prems(1) x by simp
  show ?case
  proof (cases "pval_is_true v")
    case True
    note pe = pending_execute[OF p1]
    have ag: "agrees (loops a) (set_flag EXECUTE ?s1) (sem n a (loop_nest_level s) e1) (run junk n a (set_flag EXECUTE ?s1))"
      using ra pe(1-5) rd(1) unfolding runs_ok_def by fastforce
    have "elseifs_ok (loops a @ loops_elseifs Es) ?s1 (map_option (apfst Some) (sem n a (loop_nest_level s) e1))
        (andthen (run junk n a (set_flag EXECUTE ?s1)) (run_elseifs junk n Es))"
      by (rule branch_taken[OF ag pe(6)]) (assumption, rule elseifs_skipped[OF n _ rd(2)])
    then have "elseifs_ok (loops a @ loops_elseifs Es) s (map_option (apfst Some) (sem n a (loop_nest_level s) e1))
        (andthen (run junk n a (set_flag EXECUTE ?s1)) (run_elseifs junk n Es))"
      by (auto simp: elseifs_ok_def kept_def split: option.splits if_splits)
    then show ?thesis using True cond by (simp add: x v split_beta)
  next
    case False
    obtain u where u: "run junk n a ?s1 = Some (Running u)" "skips (loops a) ?s1 u"
      using skip_stmt[OF n pending_dead[OF p1] rd(1)] by blast
    note k = pending_skips[OF p1 u(2)]
    have "elseifs_ok (loops_elseifs Es) u (sem_elseifs n Es (loop_nest_level s) e1) (run_elseifs junk n Es u)"
      using Cons.IH[OF _ k(1)] Cons.prems(1) k rd(2) kept_ready(1)[OF k(2)] by simp
    then have "elseifs_ok (loops a @ loops_elseifs Es) s (sem_elseifs n Es (loop_nest_level s) e1) (run_elseifs junk n Es u)"
      by (rule elseifs_ok_after[rotated 2]) (use k in \<open>simp_all add: kept_def\<close>)
    then show ?thesis using False cond u(1) by (simp add: x v split_beta)
  qed
qed

lemma end_if:
  assumes "live s" "kept ls (push_flag s) u" "shows_outcome out (push_flag s) u" "env u = e"
  shows "finished ls s out e (cs_end_if u)"
  using assms by (cases out) (auto simp: finished_def kept_def cs_end_if_def flag_defs live_def settled_def sync_def)

lemma andthen_simps [simp]: "andthen None f = None" "andthen (Some (Aborted e)) f = Some (Aborted e)"
  by simp_all

lemma andthen_assoc: "andthen (andthen q f) g = andthen q (\<lambda>s. andthen (f s) g)"
proof (cases q)
  case (Some r)
  then show ?thesis by (cases r) simp_all
qed simp

lemma else_part_taken: "else_part (map_option (apfst Some) r) f = r"
  by (cases r) (auto simp: else_part_def apfst_def split: prod.split)

lemma if_ok:
  assumes n: "0 < n" and a: "runs_ok junk n a" and es: "\<forall>x \<in> set Es. runs_ok junk n (snd x)"
    and b: "\<And>b. els = Some b \<Longrightarrow> runs_ok junk n b"
  shows "runs_ok junk n (If c a Es els)"
  unfolding runs_ok_def
proof (intro allI impI)
  fix s :: "'a istate"
  assume l: "live s" and sy: "sync s" and rd: "ready (loops (If c a Es els)) s"
  let ?lels = "case els of None \<Rightarrow> [] | Some b \<Rightarrow> loops b"
  obtain v e1 where v: "eval c (env s) = (v, e1)" by (cases "eval c (env s)")
  let ?s1 = "s\<lparr>env := e1\<rparr>"
  let ?N = "loop_nest_level s"
  have rx: "run_expr junk c s = (v, ?s1)" using run_expr_live[OF l, of junk c] v by simp
  have l1: "live ?s1" using l by (simp add: live_def)
  define u where "u = cs_start_if v ?s1"
  have u: "u = set_flag (if pval_is_true v then EXECUTE else BEFORE_EXECUTE) (push_flag ?s1)"
    using l by (simp add: u_def cs_start_if_def push_flag_def live_def Let_def)
  have ru: "ready ls u = ready ls s" for ls by (simp add: u ready_def set_flag_def push_flag_def Let_def)
  have nu: "loop_nest_level u = ?N" "env u = e1" "sync u"
    using sy by (simp_all add: u push_flag_def sync_def set_flag_def Let_def)
  have rds: "ready (loops a) u" "ready (loops_elseifs Es) u" "ready ?lels u"
    using rd ru by auto
  define fin where "fin = (\<lambda>s3. andthen (case els of None \<Rightarrow> Some (Running s3) | Some b \<Rightarrow> run junk n b (cs_start_else s3))
      (\<lambda>s4. Some (Running (cs_end_if s4))))"
  have ended: "finished ls s out e (cs_end_if w)" if "kept ls u w" "shows_outcome out u w" "env w = e" for ls w out e
  proof -
    have "kept ls (push_flag ?s1) w" "shows_outcome out (push_flag ?s1) w"
      using that(1,2) by (simp_all add: u kept_def) (cases out; simp add: u)
    from end_if[OF l1 this that(3)] show ?thesis by (cases out) (simp_all add: finished_def kept_def)
  qed
  have skipped: "\<exists>w'. fin w = Some (Running w') \<and> finished (ls @ ?lels) s out e w'"
    if "resolved ls u out e w" for ls out e w
  proof -
    obtain w1 where w1: "(case els of None \<Rightarrow> Some (Running w) | Some b \<Rightarrow> run junk n b (cs_start_else w)) = Some (Running w1)"
        "resolved (ls @ ?lels) u out e w1"
    proof (cases els)
      case None
      then show thesis using that[of w] \<open>resolved ls u out e w\<close> by simp
    next
      case (Some b)
      then have "ready (loops b) u" using rds(3) by simp
      from else_skipped[OF n \<open>resolved ls u out e w\<close> this, of junk] show thesis using that Some by auto
    qed
    then show ?thesis using w1(1) ended[of "ls @ ?lels" w1 out e] by (simp add: fin_def resolved_def)
  qed
  have finish: "agrees (ls @ ?lels) s
      (else_part R (\<lambda>e2. case els of None \<Rightarrow> Some (Normal, e2) | Some b \<Rightarrow> sem n b ?N e2)) (andthen Q fin)"
    if ok: "elseifs_ok ls u R Q" for ls R Q
  proof (cases R)
    case None
    then show ?thesis using ok by (simp add: elseifs_ok_def else_part_def agrees_def)
  next
    case (Some p)
    obtain oo e where p: "p = (oo, e)" by (cases p)
    show ?thesis
    proof (cases oo)
      case oo: (Some out)
      show ?thesis
      proof (cases "out = Failed")
        case True
        then show ?thesis using ok oo by (simp add: elseifs_ok_def else_part_def agrees_def Some p)
      next
        case False
        then obtain w where "Q = Some (Running w)" "resolved ls u out e w"
          using ok oo by (auto simp: elseifs_ok_def Some p)
        then show ?thesis using skipped False oo by (fastforce simp: else_part_def agrees_def Some p)
      qed
    next
      case oo: None
      then obtain w where w: "Q = Some (Running w)" "pending w" "kept ls u w" "env w = e"
          "return_value w = return_value u"
        using ok by (auto simp: elseifs_ok_def Some p)
      show ?thesis
      proof (cases els)
        case None
        have "shows_outcome Normal u w" using w by (simp add: pending_def)
        then show ?thesis using ended[OF w(3) _ w(4)] w(1) None oo
          by (simp add: else_part_def agrees_def Some p fin_def)
      next
        case els: (Some b)
        note pe = pending_execute[OF w(2)]
        have nw: "loop_nest_level w = ?N" using w(3) nu by (simp add: kept_def)
        have st: "cs_start_else w = set_flag EXECUTE w"
          using w(2) by (simp add: cs_start_else_def stop_if_executed_def pending_def)
        have rw: "ready (loops b) w" using kept_ready(1)[OF w(3)] rds(3) els by simp
        have ag: "agrees (loops b) (set_flag EXECUTE w) (sem n b ?N e) (run junk n b (set_flag EXECUTE w))"
          using b[OF els] pe(1-5) rw nw w(4) unfolding runs_ok_def by fastforce
        show ?thesis
        proof (cases "sem n b ?N e")
          case None
          then show ?thesis using ag w(1) oo els st by (simp add: else_part_def agrees_def Some p fin_def)
        next
          case r: (Some r)
          obtain out e3 where r': "r = (out, e3)" by (cases r)
          show ?thesis
          proof (cases "out = Failed")
            case True
            then show ?thesis using ag w(1) oo els st by (simp add: else_part_def agrees_def Some p fin_def r r')
          next
            case False
            then obtain w1 where w1: "run junk n b (set_flag EXECUTE w) = Some (Running w1)"
                "finished (loops b) (set_flag EXECUTE w) out e3 w1"
              using ag by (auto simp: agrees_def r r')
            have "resolved (ls @ loops b) u out e3 w1" by (rule resolved_kept[OF w(3,5) pe(6)[OF w1(2)]])
            then have "finished (ls @ loops b) s out e3 (cs_end_if w1)" by (simp add: ended resolved_def)
            then show ?thesis using w1(1) w(1) oo els st False
              by (simp add: else_part_def agrees_def Some p fin_def r r')
          qed
        qed
      qed
    qed
  qed
  show "agrees (loops (If c a Es els)) s (sem n (If c a Es els) ?N (env s)) (run junk n (If c a Es els) s)"
  proof (cases "pval_is_true v")
    case True
    have lu: "live u" using l by (simp add: u True live_def push_flag_def)
    have ag: "agrees (loops a) u (sem n a ?N e1) (run junk n a u)"
      using a lu nu rds(1) unfolding runs_ok_def by fastforce
    have "elseifs_ok (loops a @ loops_elseifs Es) u (map_option (apfst Some) (sem n a ?N e1))
        (andthen (run junk n a u) (run_elseifs junk n Es))"
      by (rule branch_taken[OF ag finished_resolved]) (assumption, rule elseifs_skipped[OF n _ rds(2)])
    from finish[OF this] True show ?thesis
      by (simp add: v rx u_def[symmetric] fin_def andthen_assoc else_part_taken)
  next
    case False
    have p: "pending u"
      using l sy by (simp add: u False pending_def push_flag_def live_def sync_def)
    obtain u1 where u1: "run junk n a u = Some (Running u1)" "skips (loops a) u u1"
      using skip_stmt[OF n pending_dead[OF p] rds(1)] by blast
    note k = pending_skips[OF p u1(2)]
    have "elseifs_ok (loops_elseifs Es) u1 (sem_elseifs n Es ?N e1) (run_elseifs junk n Es u1)"
      using elseifs_correct[OF n es k(1)] k rds(2) kept_ready(1)[OF k(2)] nu by simp
    from finish[OF elseifs_ok_after[OF k(2,4) this]] False u1(1) show ?thesis
      by (simp add: v rx u_def[symmetric] fin_def)
  qed
qed

subsection \<open>\<^verbatim>\<open>switch\<close>\<close>

definition blocks_ok :: "pval \<Rightarrow> nat \<Rightarrow> 'e stmt list \<Rightarrow> bool" where
  "blocks_ok junk n Ps \<longleftrightarrow>
     (\<forall>s. live s \<longrightarrow> sync s \<longrightarrow> ready (loops_block Ps) s \<longrightarrow>
       agrees (loops_block Ps) s (sem_block n Ps (loop_nest_level s) (env s)) (run_block junk n Ps s))"

lemma finished_ready: "finished ls s out e u \<Longrightarrow> ready ms u = ready ms s"
  "finished ls s out e u \<Longrightarrow> sync u" "finished ls s out e u \<Longrightarrow> loop_nest_level u = loop_nest_level s"
  "finished ls s out e u \<Longrightarrow> env u = e" "finished ls s out e u \<Longrightarrow> css u = css s"
  "finished ls s out e u \<Longrightarrow> switch_stack u = switch_stack s"
  using kept_ready(1) by (auto simp: finished_def kept_def)

lemma block_ok:
  assumes n: "0 < n" and a: "runs_ok junk n a" and r: "blocks_ok junk n rest"
  shows "blocks_ok junk n (a # rest)"
  unfolding blocks_ok_def
proof (intro allI impI)
  fix s :: "'a istate" assume l: "live s" "sync s" and rd: "ready (loops_block (a # rest)) s"
  show "agrees (loops_block (a # rest)) s (sem_block n (a # rest) (loop_nest_level s) (env s)) (run_block junk n (a # rest) s)"
    unfolding loops_block.simps sem_block.simps run_block.simps
  proof (rule agrees_seq)
    show "agrees (loops a) s (sem n a (loop_nest_level s) (env s)) (run junk n a s)"
      using a l rd unfolding runs_ok_def by fastforce
    show "agrees (loops_block rest) u (sem_block n rest (loop_nest_level s) e) (run_block junk n rest u)"
      if "finished (loops a) s Normal e u" for e u
      using r finished_live[OF that] finished_ready[OF that] rd unfolding blocks_ok_def by fastforce
    show "\<exists>u'. run_block junk n rest u = Some (Running u') \<and> skips (loops_block rest) u u'"
      if "finished (loops a) s out e u" "out \<noteq> Normal" for out e u
      using skip_block[OF n finished_dead[OF that], of rest] finished_ready[OF that(1)] rd by simp
  qed
qed

text \<open>The value of the \<^verbatim>\<open>switch\<close> on top of its stack gets another offset when a case matches.\<close>

definition retop :: "int \<Rightarrow> 'e istate \<Rightarrow> 'e istate" where
  "retop o' s = s\<lparr>switch_stack := (hd (switch_stack s))\<lparr>se_offset := o'\<rparr> # tl (switch_stack s)\<rparr>"

lemma retop_simps [simp]: "live (retop o' s) = live s" "sync (retop o' s) = sync s" "ready ls (retop o' s) = ready ls s"
    "loop_nest_level (retop o' s) = loop_nest_level s" "env (retop o' s) = env s" "css (retop o' s) = css s"
    "retop o' (retop o'' s) = retop o' s" "retop o' (s\<lparr>env := x\<rparr>) = (retop o' s)\<lparr>env := x\<rparr>"
    "Execute (retop o' s) = Execute s" "return_value (retop o' s) = return_value s"
    "switch_stack (retop o' s) = (hd (switch_stack s))\<lparr>se_offset := o'\<rparr> # tl (switch_stack s)"
  by (simp_all add: retop_def live_def sync_def ready_def)

lemma retop_same: "switch_stack s \<noteq> [] \<Longrightarrow> retop (se_offset (hd (switch_stack s))) s = s"
  by (cases "switch_stack s") (simp_all add: retop_def)

lemma finished_env [simp]: "finished ls (s\<lparr>env := x\<rparr>) out e u = finished ls s out e u"
  by (cases out) (simp_all add: finished_def kept_def)

lemma finished_retop:
  assumes "finished ls s out e u"
  shows "finished ls (retop o' s) out e (retop o' u)"
  using assms by (cases out) (auto simp: finished_def kept_def retop_def settled_def sync_def)

definition cases_ok ::
    "(int \<times> token) list \<Rightarrow> 'e istate \<Rightarrow> (outcome \<times> 'e) option \<Rightarrow> 'e result option \<Rightarrow> bool" where
  "cases_ok ls s r q \<longleftrightarrow> finishes (\<lambda>out e u. \<exists>o'. finished ls (retop o' s) out e u) r q"

lemma cases_ok_after:
  assumes f: "finished ls s Normal e w" and ok: "cases_ok ms w r q"
  shows "cases_ok (ls @ ms) s r q"
proof -
  have t: "\<exists>o'. finished (ls @ ms) (retop o' s) out e' u" if "\<exists>o'. finished ms (retop o' w) out e' u" for out e' u
    using that finished_trans[OF finished_retop[OF f]] by blast
  show ?thesis using ok t unfolding cases_ok_def finishes_def
    by (cases r) (simp, simp split: prod.splits if_splits, blast)
qed

text \<open>The end of a case: \<^verbatim>\<open>ExecuteFlag\<close> is that of the \<^verbatim>\<open>switch\<close> again.\<close>

lemma case_post:
  assumes "finished ls s out e u" "css s \<noteq> []" "hd (css s) = EXECUTE"
  shows "finished ls s out e (cs_switch_case_post u)" "ExecuteFlag (cs_switch_case_post u) = EXECUTE"
proof -
  have "css u = css s" using assms(1) by (simp add: finished_def kept_def)
  then have post: "cs_switch_case_post u = set_flag EXECUTE u"
    using assms(2,3) by (cases "css s") (simp_all add: cs_switch_case_post_def int_top_def)
  show "ExecuteFlag (cs_switch_case_post u) = EXECUTE" by (simp add: post)
  show "finished ls s out e (cs_switch_case_post u)"
    using assms(1) unfolding post
    by (cases out) (auto simp: finished_def kept_def settled_def sync_def)
qed

lemma matched_case:
  assumes n: "0 < n" and top: "css s \<noteq> []" "hd (css s) = EXECUTE" and st: "switch_stack s \<noteq> []"
    and ag: "agrees ls s r q"
    and rest: "\<And>e u. finished ls s Normal e u \<Longrightarrow> cases_ok (loops_cases Cs) u (f e) (run_cases junk n Cs u)"
    and rd: "ready (loops_cases Cs) s"
  shows "cases_ok (ls @ loops_cases Cs) s (seq_normal r f) (andthen q (\<lambda>u. run_cases junk n Cs (cs_switch_case_post u)))"
proof (cases r)
  case None
  then show ?thesis using ag by (simp add: cases_ok_def finishes_def agrees_def seq_normal_def)
next
  case (Some p)
  obtain out e where p: "p = (out, e)" by (cases p)
  show ?thesis
  proof (cases "out = Failed")
    case True
    then show ?thesis using ag by (simp add: cases_ok_def finishes_def agrees_def seq_normal_def Some p)
  next
    case False
    then obtain u where u: "q = Some (Running u)" "finished ls s out e u" using ag by (auto simp: agrees_def Some p)
    note post = case_post[OF u(2) top]
    let ?w = "cs_switch_case_post u"
    show ?thesis
    proof (cases "out = Normal")
      case True
      have "cases_ok (loops_cases Cs) ?w (f e) (run_cases junk n Cs ?w)" using rest post(1) True by simp
      from cases_ok_after[OF post(1)[unfolded True] this] show ?thesis using True u(1)
        by (simp add: seq_normal_def Some p)
    next
      case nn: False
      have d: "dead ?w" by (rule finished_dead[OF post(1) nn])
      have c: "css ?w \<noteq> [] \<and> hd (css ?w) = ExecuteFlag ?w" using finished_ready(5)[OF post(1)] post(2) top by simp
      obtain u' where u': "run_cases junk n Cs ?w = Some (Running u')" "skips (loops_cases Cs) ?w u'"
        using skip_cases[OF n d c finished_ready(2)[OF post(1)], of Cs junk] finished_ready(1)[OF post(1)] rd by auto
      have "finished (ls @ loops_cases Cs) (retop (se_offset (hd (switch_stack s))) s) out e u'"
        using finished_skips[OF post(1) u'(2)] retop_same[OF st] by simp
      then show ?thesis using u'(1) u(1) nn False
        by (auto simp: cases_ok_def finishes_def seq_normal_def Some p)
    qed
  qed
qed

text \<open>The state at a \<^verbatim>\<open>case\<close> of a \<^verbatim>\<open>switch\<close> on \<open>v\<close>, before (\<open>m\<close> is false) or after a match.\<close>

definition at_case :: "int \<Rightarrow> pval \<Rightarrow> bool \<Rightarrow> 'e istate \<Rightarrow> bool" where
  "at_case off v m s \<longleftrightarrow> live s \<and> sync s \<and> css s \<noteq> [] \<and> hd (css s) = EXECUTE \<and> switch_stack s \<noteq> [] \<and>
     se_expr (hd (switch_stack s)) = v \<and> se_offset (hd (switch_stack s)) = (if m then - 1 else off)"

lemma case_pre:
  assumes "at_case off v m s" "off \<noteq> - 1"
  shows "cs_switch_case_pre cv s =
    (if m \<or> (case cv of None \<Rightarrow> True | Some x \<Rightarrow> pval_is_true (snd (is_equal_function v x)))
     then retop (- 1) s else set_flag DONT_EXECUTE s)"
proof -
  obtain se st where st: "switch_stack s = se # st" using assms(1) by (cases "switch_stack s") (auto simp: at_case_def)
  have live: "set_flag EXECUTE (retop (- 1) s) = retop (- 1) s" using assms(1) by (simp add: at_case_def live_flags)
  have same: "se_offset se = - 1 \<Longrightarrow> retop (- 1) s = s" using retop_same[of s] st by simp
  show ?thesis using assms st live same
    by (auto simp: cs_switch_case_pre_def at_case_def live_def retop_def Let_def split: option.splits)
qed

lemma cases_correct:
  assumes n: "0 < n" and off: "off \<noteq> - 1"
  shows "\<forall>x \<in> set Cs. blocks_ok junk n (snd x) \<Longrightarrow> at_case off v m s \<Longrightarrow> ready (loops_cases Cs) s \<Longrightarrow>
    cases_ok (loops_cases Cs) s (sem_cases n Cs m v (loop_nest_level s) (env s)) (run_cases junk n Cs s)"
proof (induction Cs arbitrary: s m)
  case Nil
  have "finished [] (retop (se_offset (hd (switch_stack s))) s) Normal (env s) s"
    using Nil.prems(2) retop_same[of s]
    by (simp add: finished_def kept_def settled_def at_case_def live_def)
  then show ?case by (auto simp: cases_ok_def finishes_def)
next
  case (Cons x Cs)
  obtain c body where x: "x = (c, body)" by (cases x)
  obtain cv e1 where cv: "eval_opt c (env s) = (cv, e1)" by (cases "eval_opt c (env s)")
  let ?s1 = "s\<lparr>env := e1\<rparr>" and ?N = "loop_nest_level s"
  have l: "live s" using Cons.prems(2) by (simp add: at_case_def)
  have rx: "run_expr_opt junk c s = (cv, ?s1)" using run_expr_opt_live[OF l, of junk c] cv by simp
  have at1: "at_case off v m ?s1" using Cons.prems(2) by (simp add: at_case_def live_def sync_def)
  note pre = case_pre[OF at1 off, of cv]
  have rd: "ready (loops_block body) s" "ready (loops_cases Cs) s" using Cons.prems(3) x by simp_all
  have bo: "blocks_ok junk n body" using Cons.prems(1) x by simp
  let ?match = "m \<or> (case cv of None \<Rightarrow> True | Some x \<Rightarrow> pval_is_true (snd (is_equal_function v x)))"
  show ?case
  proof (cases ?match)
    case True
    let ?s2 = "retop (- 1) ?s1"
    have at2: "at_case off v True ?s2" using at1 by (simp add: at_case_def)
    have ag: "agrees (loops_block body) ?s2 (sem_block n body ?N e1) (run_block junk n body ?s2)"
      using bo at2 rd(1) unfolding blocks_ok_def at_case_def by fastforce
    have "cases_ok (loops_block body @ loops_cases Cs) ?s2 (seq_normal (sem_block n body ?N e1) (sem_cases n Cs True v ?N))
        (andthen (run_block junk n body ?s2) (\<lambda>u. run_cases junk n Cs (cs_switch_case_post u)))"
    proof (rule matched_case[OF n _ _ _ ag])
      fix e u assume f: "finished (loops_block body) ?s2 Normal e u"
      then have "at_case off v True u"
        using finished_live[OF f] finished_ready(2,5,6)[OF f] at2 by (simp add: at_case_def)
      then show "cases_ok (loops_cases Cs) u (sem_cases n Cs True v ?N e) (run_cases junk n Cs u)"
        using Cons.IH[of True u] Cons.prems(1) finished_ready[OF f] rd(2) by simp
    qed (use at2 rd(2) in \<open>simp_all add: at_case_def\<close>)
    then have "cases_ok (loops_block body @ loops_cases Cs) s (seq_normal (sem_block n body ?N e1) (sem_cases n Cs True v ?N))
        (andthen (run_block junk n body ?s2) (\<lambda>u. run_cases junk n Cs (cs_switch_case_post u)))"
      by (simp add: cases_ok_def)
    then show ?thesis using True pre by (simp add: x cv rx)
  next
    case False
    let ?s2 = "set_flag DONT_EXECUTE ?s1"
    have d: "dead ?s2" "sync ?s2" using at1 by (simp_all add: at_case_def live_def dead_def should_execute_def sync_def)
    have r2: "ready ls ?s2 = ready ls s" for ls by (simp add: ready_def)
    obtain u where u: "run_block junk n body ?s2 = Some (Running u)" "skips (loops_block body) ?s2 u"
      using skip_block[OF n d, of body junk] r2 rd(1) by blast
    let ?w = "cs_switch_case_post u"
    have w: "?w = set_flag EXECUTE u"
      using u(2) at1 by (cases "css s") (auto simp: cs_switch_case_post_def skips_def at_case_def int_top_def)
    have fw: "finished (loops_block body) s Normal e1 ?w"
      using u(2) at1 unfolding w
      by (auto simp: finished_def kept_def skips_def at_case_def live_def settled_def sync_def)
    have atw: "at_case off v m ?w"
      using finished_live[OF fw] finished_ready(2,5,6)[OF fw] at1 by (simp add: at_case_def)
    have "cases_ok (loops_cases Cs) ?w (sem_cases n Cs m v ?N e1) (run_cases junk n Cs ?w)"
      using Cons.IH[OF _ atw] Cons.prems(1) finished_ready[OF fw] rd(2) by simp
    then have "cases_ok (loops_block body @ loops_cases Cs) s (sem_cases n Cs m v ?N e1) (run_cases junk n Cs ?w)"
      by (rule cases_ok_after[OF fw])
    then show ?thesis using False pre u(1) by (simp add: x cv rx)
  qed
qed

lemma end_switch:
  assumes l: "live s" "sync s" and out: "out \<noteq> Failed"
    and f: "finished ms (retop o' (enter s\<lparr>switch_stack := x # switch_stack s\<rparr>)) out e u" and sub: "set ms \<subseteq> set ls"
  shows "finished ls s (switch_end (loop_nest_level s + 1) out) e (cs_switch_end u)"
proof -
  have fr: "\<forall>off. off \<notin> fst ` set ls \<longrightarrow> off \<notin> fst ` set ms" using sub by blast
  show ?thesis using l f out fr
    by (cases out)
       (auto simp: finished_def kept_def cs_switch_end_def pop_flag_def enter_def push_flag_def retop_def live_def
          settled_def sync_def Let_def int_top_def)
qed

lemma switch_ok:
  assumes n: "0 < n" and cs: "\<forall>x \<in> set Cs. blocks_ok junk n (snd x)"
  shows "runs_ok junk n (Switch off c Cs)"
  unfolding runs_ok_def
proof (intro allI impI)
  fix s :: "'a istate"
  assume l: "live s" and sy: "sync s" and rd: "ready (loops (Switch off c Cs)) s"
  obtain v e1 where v: "eval c (env s) = (v, e1)" by (cases "eval c (env s)")
  let ?s1 = "s\<lparr>env := e1\<rparr>" and ?x = "\<lparr>se_expr = v, se_offset = off, se_Execute = True\<rparr>"
  let ?u = "enter ?s1\<lparr>switch_stack := ?x # switch_stack s\<rparr>" and ?N = "loop_nest_level s"
  have rx: "run_expr junk c s = (v, ?s1)" using run_expr_live[OF l, of junk c] v by simp
  have st: "cs_switch_start off v ?s1 = ?u"
    using l by (simp add: cs_switch_start_def enter_def push_flag_def live_def Let_def)
  have off: "off \<noteq> - 1" using rd by auto
  have at: "at_case off v False ?u"
    using l sy by (simp add: at_case_def live_def enter_def push_flag_def sync_def)
  have "ready (loops_cases Cs) ?u" using rd by (simp add: ready_def enter_def push_flag_def)
  then have ok: "cases_ok (loops_cases Cs) ?u (sem_cases n Cs False v (?N + 1) e1) (run_cases junk n Cs ?u)"
    using cases_correct[OF n off cs at] by (simp add: enter_def push_flag_def)
  have sub: "set (loops_cases Cs) \<subseteq> set (loops (Switch off c Cs))" by auto
  have fin: "finished (loops (Switch off c Cs)) s (switch_end (?N + 1) out) e (cs_switch_end w)"
    if "finished (loops_cases Cs) (retop o' ?u) out e w" "out \<noteq> Failed" for o' out e w
    using end_switch[of ?s1 out "loops_cases Cs" o' ?x e w] that l sy sub by simp
  have F: "switch_end M out = Failed \<longleftrightarrow> out = Failed" for M out by (cases out) auto
  show "agrees (loops (Switch off c Cs)) s (sem n (Switch off c Cs) ?N (env s)) (run junk n (Switch off c Cs) s)"
    using ok fin by (auto simp: v rx st agrees_def cases_ok_def finishes_def F split: option.splits)
qed

subsection \<open>Jumps\<close>

lemma jump_ok:
  assumes l: "live s" "sync s" and v: "eval_opt x (env s) = (v, e1)"
    and ty: "ty = DO_BREAK \<and> J = Brk \<or> ty = DO_CONTINUE \<and> J = Cont"
  shows "agrees [] s
      (map_option (\<lambda>l. (case l of None \<Rightarrow> Failed | Some k \<Rightarrow> J k, e1)) (jump_level (loop_nest_level s) v))
      (case cs_break_continue v ty (s\<lparr>env := e1\<rparr>) of
         None \<Rightarrow> None
       | Some (FAILURE, s2) \<Rightarrow> Some (Aborted (env s2))
       | Some (SUCCESS, s2) \<Rightarrow> Some (Running s2))"
proof -
  have ex: "Execute s" using l(1) by (simp add: live_def)
  let ?l = "case v of None \<Rightarrow> Some (loop_nest_level s)
            | Some x \<Rightarrow> do { k \<leftarrow> convert_to_long x; Some (loop_nest_level s - sint (lval k) + 1) }"
  show ?thesis
  proof (cases ?l)
    case None
    then show ?thesis using ex
      by (cases v) (simp_all add: jump_level_def cs_break_continue_def agrees_def Option.bind_eq_None_conv)
  next
    case (Some k)
    have jl: "jump_level (loop_nest_level s) v = Some (if 1 \<le> k \<and> k \<le> loop_nest_level s then Some k else None)"
      by (simp add: jump_level_def Some)
    let ?s1 = "s\<lparr>env := e1, loop_change_level := k\<rparr>"
    have bc: "cs_break_continue v ty (s\<lparr>env := e1\<rparr>) =
        (if k \<le> 0 then Some (FAILURE, ?s1)
         else if k > loop_nest_level s then Some (FAILURE, ?s1)
         else Some (SUCCESS, ?s1\<lparr>loop_change_type := ty, Execute := False\<rparr>))"
      using ex Some by (cases v) (auto simp: cs_break_continue_def Let_def split: option.splits bind_splits)
    show ?thesis using l ty
      by (auto simp: jl bc agrees_def finished_def kept_def live_def settled_def sync_def)
  qed
qed

lemma machine_correct:
  fixes junk :: pval and P :: "'e stmt" and Ps :: "'e stmt list"
    and Es :: "('e expr \<times> 'e stmt) list" and Cs :: "('e expr option \<times> 'e stmt list) list"
  assumes n: "0 < n"
  shows stmt_correct: "runs_ok junk n P" and block_correct: "blocks_ok junk n Ps"
    and elseifs_stmts: "\<forall>x \<in> set Es. runs_ok junk n (snd x)" and cases_blocks: "\<forall>x \<in> set Cs. blocks_ok junk n (snd x)"
proof (induction P and Ps and Es and Cs rule: loops_loops_block_loops_elseifs_loops_cases.induct)
  case (1 x)
  show ?case unfolding runs_ok_def
    by (auto simp: agrees_def run_expr_live finished_def kept_def live_def settled_def sync_def)
next
  case (2 ss)
  then show ?case by (simp add: runs_ok_def blocks_ok_def)
next
  case (3 c a eifs els)
  then show ?case by (intro if_ok[OF n]) auto
next
  case (4 off c b)
  then show ?case by (rule while_ok[OF n])
next
  case (5 off b c)
  then show ?case by (rule do_ok[OF n])
next
  case (6 off x1 x2 x3 b)
  then show ?case by (rule for_ok[OF n])
next
  case (7 off c cases)
  then show ?case by (rule switch_ok[OF n])
next
  case (8 x)
  show ?case unfolding runs_ok_def
  proof (intro allI impI)
    fix s :: "'e istate" assume l: "live s" "sync s"
    obtain v e1 where v: "eval_opt x (env s) = (v, e1)" by (cases "eval_opt x (env s)")
    show "agrees (loops (Break x)) s (sem n (Break x) (loop_nest_level s) (env s)) (run junk n (Break x) s)"
      using jump_ok[OF l v, of DO_BREAK Brk] by (simp add: v run_expr_opt_live[OF l(1)])
  qed
next
  case (9 x)
  show ?case unfolding runs_ok_def
  proof (intro allI impI)
    fix s :: "'e istate" assume l: "live s" "sync s"
    obtain v e1 where v: "eval_opt x (env s) = (v, e1)" by (cases "eval_opt x (env s)")
    show "agrees (loops (Continue x)) s (sem n (Continue x) (loop_nest_level s) (env s)) (run junk n (Continue x) s)"
      using jump_ok[OF l v, of DO_CONTINUE Cont] by (simp add: v run_expr_opt_live[OF l(1)])
  qed
next
  case (10 x)
  show ?case unfolding runs_ok_def
    by (auto simp: agrees_def run_expr_opt_live cs_return_def finished_def kept_def live_def settled_def sync_def
        split: prod.split)
next
  case 11
  show ?case unfolding blocks_ok_def
    by (auto simp: agrees_def finished_def kept_def live_def settled_def)
next
  case (12 a rest)
  then show ?case by (rule block_ok[OF n])
qed auto

subsection \<open>Properties\<close>

text \<open>The state in which a script starts: the tokens of its loops have their first type.\<close>

definition start_state :: "(int \<times> token) list \<Rightarrow> 'e \<Rightarrow> 'e istate" where
  "start_state ls e =
     \<lparr>Execute = True, ExecuteFlag = EXECUTE, css = [], for_stack = [], switch_stack = [], loop_nest_level = 0,
      loop_change_type = DO_NOTHING, loop_change_level = 0, returned = False, return_value = var_reset,
      tok = (\<lambda>off. case map_of ls off of Some t \<Rightarrow> t | None \<Rightarrow> WHILE),
      switched = (\<lambda>off. False), swapped = (\<lambda>off. False), env = e\<rparr>"

lemma start_ok:
  assumes "distinct (map fst ls)" "\<forall>off \<in> fst ` set ls. 0 \<le> off"
  shows "live (start_state ls e)" "sync (start_state ls e)" "ready ls (start_state ls e)"
  using assms by (auto simp: start_state_def live_def sync_def ready_def)

text \<open>C2: the interpreter's one-pass machine of flags, stacks and rewritten tokens implements the
  structured semantics of the statements. Run over any list of statements from a state in which
  code is executed, it does not return exactly when the semantics does not, aborts exactly when a
  jump leaves its loops, and otherwise ends with the environment of the semantics and the globals
  that show its outcome, with every stack and token restored.\<close>
theorem control_flow_correct:
  assumes "0 < n" and "live s" and "sync s" and "ready (loops_block Ps) s"
  shows "case sem_block n Ps (loop_nest_level s) (env s) of
           None \<Rightarrow> run_block junk n Ps s = None
         | Some (out, e) \<Rightarrow>
             if out = Failed then run_block junk n Ps s = Some (Aborted e)
             else \<exists>s'. run_block junk n Ps s = Some (Running s') \<and> env s' = e \<and> shows_outcome out s s' \<and>
                       Execute s' = (out = Normal) \<and> css s' = css s \<and> for_stack s' = for_stack s \<and>
                       switch_stack s' = switch_stack s \<and> loop_nest_level s' = loop_nest_level s \<and> tok s' = tok s"
proof -
  have "agrees (loops_block Ps) s (sem_block n Ps (loop_nest_level s) (env s)) (run_block junk n Ps s)"
    using block_correct[OF assms(1), of junk Ps] assms(2-4) unfolding blocks_ok_def by blast
  then show ?thesis by (auto simp: agrees_def finished_def kept_def split: option.splits prod.splits)
qed

text \<open>\<^verbatim>\<open>for (; $e < 5; $e++) { if ($e == 3) break; } while ($e < 4) $e++;\<close>\<close>

definition test :: "(int \<Rightarrow> bool) \<Rightarrow> int expr" where
  "test p = Prim (\<lambda>e. (IS_LONG (if p e then 1 else 0), e))"

definition incr :: "int expr" where
  "incr = Prim (\<lambda>e. (IS_LONG 0, e + 1))"

definition count_prog :: "int stmt list" where
  "count_prog =
     [For 4 [] [test (\<lambda>e. e < 5)] [incr] (If (test (\<lambda>e. e = 3)) (Break None) [] None),
      While 30 (test (\<lambda>e. e < 4)) (Expr incr)]"

lemma count_prog_sem: "sem_block 6 count_prog 0 0 = Some (Normal, 4)"
  by (simp add: count_prog_def test_def incr_def eval_nat_numeral seq_normal_def while_body_def for_body_def
      else_part_def jump_level_def pval_is_true_def)

theorem control_flow_correct_witness:
  "\<exists>s'. run_block var_reset 6 count_prog (start_state [(4, FOR), (30, WHILE)] 0) = Some (Running s') \<and>
     env s' = 4 \<and> Execute s' \<and> css s' = []"
proof -
  let ?s = "start_state [(4, FOR), (30, WHILE)] (0 :: int)"
  have l: "live ?s" "sync ?s" "ready [(4, FOR), (30, WHILE)] ?s" by (rule start_ok; simp)+
  have "loops_block count_prog = [(4, FOR), (30, WHILE)]" by (simp add: count_prog_def)
  then have "ready (loops_block count_prog) ?s" using l(3) by simp
  from control_flow_correct[OF _ l(1,2) this, of 6 var_reset] count_prog_sem obtain s' where
    "run_block var_reset 6 count_prog ?s = Some (Running s')" "env s' = 4" "Execute s'" "css s' = css ?s"
    by (auto simp: start_state_def)
  then show ?thesis by (auto simp: start_state_def)
qed

text \<open>C3: code that is not executed (a false condition around it, a pending jump to a loop outside,
  a return) has no effect, although the parser runs all its actions: the state stays as it is, up to
  the order in which the token cache keeps the expressions of its \<^verbatim>\<open>for\<close> loops.\<close>
theorem skipped_code:
  assumes "0 < n" and "dead s" and "sync s" and "ready (loops P) s"
  shows "\<exists>s' f. run junk n P s = Some (Running s') \<and> s' = s\<lparr>switched := f, swapped := f\<rparr> \<and>
           (\<forall>off. off \<notin> fst ` set (loops P) \<longrightarrow> f off = switched s off)"
  using skip_stmt[OF assms] unfolding skips_def by blast

theorem skipped_code_witness:
  "\<exists>s' f. run var_reset 1 (While 30 incr (Return None)) ((start_state [(30, WHILE)] 0)\<lparr>Execute := False, returned := True\<rparr>) =
       Some (Running s') \<and>
     s' = (start_state [(30, WHILE)] 0)\<lparr>Execute := False, returned := True, switched := f, swapped := f\<rparr>"
proof -
  let ?s = "(start_state [(30, WHILE)] (0 :: int))\<lparr>Execute := False, returned := True\<rparr>"
  have "dead ?s" "sync ?s" "ready (loops (While 30 incr (Return None))) ?s"
    by (simp_all add: start_state_def dead_def should_execute_def sync_def)
  from skipped_code[OF zero_less_one this, of var_reset] show ?thesis by blast
qed

end
