(* ===== verification/Token_Cache.thy ===== *)
theory Token_Cache
  imports Php_Values
begin

unbundle bit_operations_syntax

text \<open>
  The token caches of \<^verbatim>\<open>token_cache.c\<close>. The parser reads the tokens of a script from an array, so
  that a loop can go back; every \<^verbatim>\<open>eval\<close> and \<^verbatim>\<open>include\<close> has an array of its own. A token number
  holds the number of the array in its upper 12 bits and the index in its lower 20.

  \<open>tokens\<close> is the array of \<^verbatim>\<open>max_tokens\<close> tokens, \<open>None\<close> where nothing was written. The pointer
  \<^verbatim>\<open>GLOBAL(tc)\<close> is \<open>&token_caches[active]\<close> throughout. An operation is \<open>None\<close> when it reads
  outside of an array or a slot that was never written; \<^verbatim>\<open>emalloc\<close> and \<^verbatim>\<open>erealloc\<close> do not fail. The
  scanner is a parameter.
\<close>

text \<open>\<^verbatim>\<open>cs_data\<close> is a union: \<^verbatim>\<open>switched\<close> (of a \<^verbatim>\<open>for\<close>) and \<^verbatim>\<open>included\<close> (of an \<^verbatim>\<open>include\<close>) are the same byte.\<close>

record tc_token =
  token_type :: int
  t_val :: pval
  t_offset :: ulong
  t_cs_data :: nat
  t_lineno :: nat

record token_cache =
  tokens :: "tc_token option list"
  tc_count :: nat
  tc_pos :: nat
  tc_block :: nat

record token_cache_manager =
  caches :: "token_cache option list"
  active :: nat
  initialized :: nat
  last_token_type :: int

definition TOKEN_CACHE_BLOCK_SIZE :: nat where "TOKEN_CACHE_BLOCK_SIZE = 8192"
definition TOKEN_CACHES_BLOCK_SIZE :: nat where "TOKEN_CACHES_BLOCK_SIZE = 4"
definition TOKEN_BITS :: nat where "TOKEN_BITS = 20"
definition TC_BITS :: nat where "TC_BITS = 4 * 8 - TOKEN_BITS"

text \<open>The numbers of tokens are \<^verbatim>\<open>int\<close>s: \<open>>>\<close> is an arithmetic shift.\<close>

definition TC_OFFSET :: "int \<Rightarrow> int" where
  "TC_OFFSET n = n div 2 ^ TOKEN_BITS"

definition TOKEN_OFFSET :: "int \<Rightarrow> nat" where
  "TOKEN_OFFSET n = nat (n mod 2 ^ TOKEN_BITS)"

definition token_number :: "nat \<Rightarrow> nat \<Rightarrow> ulong" where
  "token_number a i = push_bit TOKEN_BITS (of_nat a) + of_nat i"

text \<open>Token types (\<^verbatim>\<open>language-parser.tab.h\<close>).\<close>

abbreviation "LOGICAL_OR \<equiv> 258 :: int"
abbreviation "PHP_PRINT \<equiv> 261 :: int"
abbreviation "NEW_TOKEN \<equiv> 288 :: int"
abbreviation "EXIT_TOKEN \<equiv> 289 :: int"
abbreviation "STRING_TOKEN \<equiv> 296 :: int"
abbreviation "NUM_STRING \<equiv> 297 :: int"
abbreviation "INLINE_HTML \<equiv> 298 :: int"
abbreviation "BAD_CHARACTER \<equiv> 300 :: int"
abbreviation "ENCAPSED_AND_WHITESPACE \<equiv> 301 :: int"
abbreviation "PHP_CLASS_OPERATOR \<equiv> 333 :: int"
abbreviation "DONE_EVAL \<equiv> 339 :: int"

text \<open>
  The reserved words: \<^verbatim>\<open>LOGICAL_OR\<close> to \<^verbatim>\<open>PHP_PRINT\<close>; \<^verbatim>\<open>NEW\<close> to \<^verbatim>\<open>ENDIF\<close>; \<^verbatim>\<open>PHP_ECHO\<close> to \<^verbatim>\<open>CONTINUE\<close>;
  \<^verbatim>\<open>OLD_FUNCTION\<close>, \<^verbatim>\<open>FUNCTION\<close>; \<^verbatim>\<open>PHP_CONST\<close> to \<^verbatim>\<open>EXTENDS\<close>; \<^verbatim>\<open>PHP_LIST\<close> to \<^verbatim>\<open>EVAL\<close>; \<^verbatim>\<open>PHP_LINE\<close>, \<^verbatim>\<open>PHP_FILE\<close>.
\<close>

definition is_reserved_word :: "int \<Rightarrow> bool" where
  "is_reserved_word t \<longleftrightarrow>
     258 \<le> t \<and> t \<le> 261 \<or> 288 \<le> t \<and> t \<le> 293 \<or> 302 \<le> t \<and> t \<le> 313 \<or> 317 \<le> t \<and> t \<le> 318 \<or>
     320 \<le> t \<and> t \<le> 332 \<or> 335 \<le> t \<and> t \<le> 338 \<or> 340 \<le> t \<and> t \<le> 341"

definition last_token_suggests_variable_reference :: "int \<Rightarrow> bool" where
  "last_token_suggests_variable_reference last_type \<longleftrightarrow> last_type = 36 \<or> last_type = PHP_CLASS_OPERATOR"

subsection \<open>Caches\<close>

definition tc_init :: "nat \<Rightarrow> token_cache" where
  "tc_init block_size = \<lparr>tokens = replicate block_size None, tc_count = 0, tc_pos = 0, tc_block = block_size\<rparr>"

definition tcm_init :: token_cache_manager where
  "tcm_init =
     \<lparr>caches = (replicate TOKEN_CACHES_BLOCK_SIZE None)[0 := Some (tc_init TOKEN_CACHE_BLOCK_SIZE)],
      active = 0, initialized = 1, last_token_type = - 1\<rparr>"

definition tcm_new :: "nat \<Rightarrow> token_cache_manager \<Rightarrow> status \<times> token_cache_manager" where
  "tcm_new block_size m =
     (if initialized m \<ge> 2 ^ TC_BITS then (FAILURE, m)
      else
        (let m1 = m\<lparr>initialized := initialized m + 1\<rparr>;
             m2 = (if initialized m1 \<ge> length (caches m1)
                   then m1\<lparr>caches := caches m1 @ replicate TOKEN_CACHES_BLOCK_SIZE None\<rparr> else m1);
             m3 = m2\<lparr>active := initialized m2 - 1\<rparr>
         in (SUCCESS, m3\<lparr>caches := (caches m3)[active m3 := Some (tc_init block_size)]\<rparr>)))"

text \<open>The cache at an index, and its update.\<close>

definition cache_at :: "int \<Rightarrow> token_cache_manager \<Rightarrow> token_cache option" where
  "cache_at a m = (if 0 \<le> a \<and> a < int (length (caches m)) then caches m ! nat a else None)"

definition set_cache :: "int \<Rightarrow> token_cache \<Rightarrow> token_cache_manager \<Rightarrow> token_cache_manager" where
  "set_cache a c m = m\<lparr>caches := (caches m)[nat a := Some c]\<rparr>"

definition token_at :: "nat \<Rightarrow> token_cache \<Rightarrow> tc_token option" where
  "token_at i c = (if i < length (tokens c) then tokens c ! i else None)"

subsection \<open>Reading\<close>

text \<open>
  \<open>lex_scan\<close> is the scanner on its state: the type, the value and the line of the next token and, for
  a reserved word, its text (\<^verbatim>\<open>phptext\<close>). The result is the type, the token if there is one and the
  states.
\<close>

definition store_token :: "tc_token \<Rightarrow> token_cache \<Rightarrow> token_cache option" where
  "store_token t c =
     (let c1 = (if tc_count c \<ge> length (tokens c) then c\<lparr>tokens := tokens c @ replicate (tc_block c) None\<rparr> else c)
      in if tc_count c1 < length (tokens c1)
         then Some (c1\<lparr>tokens := (tokens c1)[tc_count c1 := Some t], tc_count := tc_count c1 + 1\<rparr>)
         else None)"

definition scanned_token :: "int \<Rightarrow> nat \<Rightarrow> nat \<Rightarrow> int \<times> pval \<times> nat \<times> string \<Rightarrow> tc_token" where
  "scanned_token last_type a n r =
     (case r of (ty, v, line, text) \<Rightarrow>
        (let t = \<lparr>token_type = ty, t_val = v, t_offset = token_number a n, t_cs_data = 0, t_lineno = line\<rparr>
         in if last_token_suggests_variable_reference last_type \<and> is_reserved_word ty
            then t\<lparr>token_type := STRING_TOKEN, t_val := IS_STRING text\<rparr> else t))"

definition read_next_token ::
    "('s \<Rightarrow> (int \<times> pval \<times> nat \<times> string) \<times> 's) \<Rightarrow> bool \<Rightarrow> token_cache_manager \<Rightarrow> 's
      \<Rightarrow> (int \<times> tc_token option \<times> token_cache_manager \<times> 's) option" where
  "read_next_token lex_scan display m s = do {
     c \<leftarrow> cache_at (int (active m)) m;
     let next = (\<lambda>m c s. do {
         t \<leftarrow> token_at (tc_pos c) c;
         Some (token_type t, Some t, set_cache (int (active m)) (c\<lparr>tc_pos := tc_pos c + 1\<rparr>) m, s)
       });
     if tc_count c = tc_pos c \<or> display then
       (case lex_scan s of (r, s1) \<Rightarrow>
          if fst r = DONE_EVAL then Some (DONE_EVAL, None, m, s1)
          else (let t = scanned_token (last_token_type m) (active m) (tc_count c) r;
                    m1 = m\<lparr>last_token_type := token_type t\<rparr>
                in if display then Some (token_type t, Some t, m1, s1)
                   else do { c1 \<leftarrow> store_token t c; next m1 c1 s1 }))
     else next m c s
   }"

definition seek_token :: "int \<Rightarrow> token_cache_manager \<Rightarrow> (status \<times> token_cache_manager) option" where
  "seek_token n m =
     (let a = TC_OFFSET n; i = TOKEN_OFFSET n in
      if a \<ge> int (initialized m) then Some (FAILURE, m)
      else do {
        c \<leftarrow> cache_at a m;
        if i > tc_count c then Some (FAILURE, m)
        else Some (SUCCESS, set_cache a (c\<lparr>tc_pos := i\<rparr>) (m\<lparr>active := nat a\<rparr>))
      })"

definition tc_get_current_offset :: "token_cache_manager \<Rightarrow> int option" where
  "tc_get_current_offset m = do {
     c \<leftarrow> cache_at (int (active m)) m;
     Some (sint (token_number (active m) (tc_pos c)))
   }"

subsection \<open>Changing tokens\<close>

definition update_token ::
    "(tc_token \<Rightarrow> tc_token) \<Rightarrow> int \<Rightarrow> token_cache_manager \<Rightarrow> (status \<times> token_cache_manager) option" where
  "update_token f n m = do {
     c \<leftarrow> cache_at (TC_OFFSET n) m;
     if TOKEN_OFFSET n \<ge> tc_count c then Some (FAILURE, m)
     else do {
       t \<leftarrow> token_at (TOKEN_OFFSET n) c;
       Some (SUCCESS, set_cache (TC_OFFSET n) (c\<lparr>tokens := (tokens c)[TOKEN_OFFSET n := Some (f t)]\<rparr>) m)
     }
   }"

definition tc_set_type :: "int \<Rightarrow> int \<Rightarrow> token_cache_manager \<Rightarrow> (status \<times> token_cache_manager) option" where
  "tc_set_type n ty m = update_token (\<lambda>t. t\<lparr>token_type := ty\<rparr>) n m"

definition tc_mark_switched :: "int \<Rightarrow> token_cache_manager \<Rightarrow> (status \<times> token_cache_manager) option" where
  "tc_mark_switched n m = update_token (\<lambda>t. t\<lparr>t_cs_data := 1\<rparr>) n m"

definition tc_mark_included :: "int \<Rightarrow> token_cache_manager \<Rightarrow> (status \<times> token_cache_manager) option" where
  "tc_mark_included n m = update_token (\<lambda>t. t\<lparr>t_cs_data := 1\<rparr>) n m"

text \<open>\<open>Inl\<close> is \<^verbatim>\<open>FAILURE\<close>, which the callers cannot tell from a token of type -1.\<close>

definition tc_get_type :: "int \<Rightarrow> token_cache_manager \<Rightarrow> (status + int) option" where
  "tc_get_type n m = do {
     c \<leftarrow> cache_at (TC_OFFSET n) m;
     if TOKEN_OFFSET n \<ge> tc_count c then Some (Inl FAILURE)
     else do { t \<leftarrow> token_at (TOKEN_OFFSET n) c; Some (Inr (token_type t)) }
   }"

text \<open>\<^verbatim>\<open>memcpy (&a[dst], &src[from], n)\<close>: undefined outside of the arrays.\<close>

definition copy_into :: "nat \<Rightarrow> 'a list \<Rightarrow> 'a list \<Rightarrow> 'a list option" where
  "copy_into dst xs a =
     (if dst + length xs \<le> length a then Some (take dst a @ xs @ drop (dst + length xs) a) else None)"

definition copy_out :: "nat \<Rightarrow> nat \<Rightarrow> 'a list \<Rightarrow> 'a list option" where
  "copy_out from n a = (if from + n \<le> length a then Some (take n (drop from a)) else None)"

text \<open>The last loop of \<^verbatim>\<open>tc_switch\<close>: the tokens get their new offsets.\<close>

fun renumber_tokens :: "nat \<Rightarrow> nat \<Rightarrow> nat \<Rightarrow> tc_token option list \<Rightarrow> tc_token option list option" where
  "renumber_tokens a i 0 ts = Some ts"
| "renumber_tokens a i (Suc n) ts =
     (if i < length ts then do {
        t \<leftarrow> ts ! i;
        renumber_tokens a (Suc i) n (ts[i := Some (t\<lparr>t_offset := token_number a i\<rparr>)])
      }
      else None)"

text \<open>The smaller chunk is moved after the larger one has been saved.\<close>

definition swap_chunks :: "nat \<Rightarrow> nat \<Rightarrow> nat \<Rightarrow> 'a list \<Rightarrow> 'a list option" where
  "swap_chunks start middle fin ts =
     (let n1 = middle - start; n2 = fin - middle in
      if n1 < n2 then do {
        temp \<leftarrow> copy_out (middle + 1) n2 ts;
        chunk \<leftarrow> copy_out start n1 ts;
        ts' \<leftarrow> copy_into (fin - n1 + 1) chunk ts;
        copy_into start temp ts'
      }
      else do {
        temp \<leftarrow> copy_out start n1 ts;
        chunk \<leftarrow> copy_out (middle + 1) n2 ts;
        ts' \<leftarrow> copy_into start chunk ts;
        copy_into (fin - n1 + 1) temp ts'
      })"

definition tc_switch :: "int \<Rightarrow> int \<Rightarrow> int \<Rightarrow> token_cache_manager \<Rightarrow> (status \<times> token_cache_manager) option" where
  "tc_switch start_n end_n middle_n m = do {
     let a = TC_OFFSET start_n;
     let start = TOKEN_OFFSET start_n;
     let fin = TOKEN_OFFSET end_n;
     let middle = TOKEN_OFFSET middle_n;
     c \<leftarrow> cache_at a m;
     if fin \<ge> tc_count c \<or> middle < start \<or> middle > fin then Some (FAILURE, m)
     else if middle - start = 0 \<and> fin - middle = 0 then Some (SUCCESS, m)
     else do {
       middle_token \<leftarrow> token_at middle c;
       ts1 \<leftarrow> swap_chunks start middle fin (tokens c);
       ts2 \<leftarrow> renumber_tokens (nat a) start (fin + 1 - start) (ts1[start + (fin - middle) := Some middle_token]);
       Some (SUCCESS, set_cache a (c\<lparr>tokens := ts2\<rparr>) m)
     }
   }"

subsection \<open>Release\<close>

text \<open>The values that are given to \<^verbatim>\<open>pval_destructor\<close>, in order.\<close>

definition tc_destroy :: "token_cache \<Rightarrow> pval list option" where
  "tc_destroy c =
     (if tc_count c \<le> length (tokens c) then map_option (map t_val) (those (take (tc_count c) (tokens c))) else None)"

definition tcm_destroy :: "token_cache_manager \<Rightarrow> pval list option" where
  "tcm_destroy m =
     (if initialized m \<le> length (caches m) then do {
        cs \<leftarrow> those (take (initialized m) (caches m));
        vs \<leftarrow> those (map tc_destroy cs);
        Some (concat vs)
      }
      else None)"

subsection \<open>Saving and loading\<close>

text \<open>
  The file of a preprocessed script: its first bytes, the \<^verbatim>\<open>TokenCache\<close> structure (\<open>sv_max\<close> is
  \<^verbatim>\<open>max_tokens\<close> and \<open>sv_count\<close> is \<^verbatim>\<open>count\<close>), the array of the tokens (of
  whose values the string bytes are missing; at most \<open>sv_count\<close>, and fewer if the file is cut) and the bytes of the strings.
\<close>

record saved_cache =
  sv_magic :: string
  sv_max :: nat
  sv_count :: nat
  sv_block :: nat
  sv_tokens :: "tc_token list"
  sv_strings :: string

definition saves_string :: "tc_token \<Rightarrow> bool" where
  "saves_string t \<longleftrightarrow> token_type t \<in> {STRING_TOKEN, NUM_STRING, INLINE_HTML, ENCAPSED_AND_WHITESPACE, BAD_CHARACTER}"

definition loads_string :: "tc_token \<Rightarrow> bool" where
  "loads_string t \<longleftrightarrow> token_type t \<in> {STRING_TOKEN, NUM_STRING, INLINE_HTML, ENCAPSED_AND_WHITESPACE}"

fun string_bytes :: "tc_token list \<Rightarrow> string option" where
  "string_bytes [] = Some []"
| "string_bytes (t # ts) = do {
     s \<leftarrow> (if saves_string t then (case t_val t of IS_STRING s \<Rightarrow> Some s | _ \<Rightarrow> None) else Some []);
     r \<leftarrow> string_bytes ts;
     Some (s @ r)
   }"

text \<open>The pointers of the strings mean nothing in the file: of a string value it holds the length.\<close>

definition erased :: "tc_token \<Rightarrow> tc_token" where
  "erased t = (case t_val t of
      IS_STRING s \<Rightarrow> t\<lparr>t_val := IS_STRING (replicate (length s) (CHR 0x00))\<rparr>
    | _ \<Rightarrow> t)"

text \<open>What the script's own cache is written to; nothing when there is another one.\<close>

definition tcm_save :: "token_cache_manager \<Rightarrow> saved_cache option option" where
  "tcm_save m =
     (if initialized m > 1 then Some None
      else do {
        c \<leftarrow> cache_at 0 m;
        ts \<leftarrow> those (take (tc_count c) (tokens c));
        s \<leftarrow> string_bytes ts;
        Some (Some \<lparr>sv_magic = ''PHP3'', sv_max = length (tokens c), sv_count = tc_count c, sv_block = tc_block c,
          sv_tokens = map erased ts, sv_strings = s\<rparr>)
      })"

fun read_strings :: "tc_token list \<Rightarrow> string \<Rightarrow> (tc_token list option) option" where
  "read_strings [] bs = Some (Some [])"
| "read_strings (t # ts) bs =
     (if loads_string t then
        (case t_val t of
           IS_STRING s \<Rightarrow>
             (if length bs < length s then Some None
              else do {
                r \<leftarrow> read_strings ts (drop (length s) bs);
                Some (map_option (\<lambda>us. t\<lparr>t_val := IS_STRING (take (length s) bs)\<rparr> # us) r)
              })
         | _ \<Rightarrow> None)
      else do {
        r \<leftarrow> read_strings ts bs;
        Some (map_option (\<lambda>us. t # us) r)
      })"

text \<open>
  A failed load (the inner \<open>None\<close>) leaves a cache without tokens or with strings that are pointers of another process;
  the caller gives up.
\<close>

definition tcm_load :: "saved_cache \<Rightarrow> token_cache_manager \<Rightarrow> token_cache_manager option option" where
  "tcm_load f m =
     (if sv_magic f \<noteq> ''PHP3'' then Some None
      else if length (sv_tokens f) > sv_max f then None
      else if length (sv_tokens f) \<noteq> sv_count f then Some None
      else do {
        r \<leftarrow> read_strings (sv_tokens f) (sv_strings f);
        Some (map_option (\<lambda>ts. set_cache 0
               \<lparr>tokens = map Some ts @ replicate (sv_max f - length ts) None, tc_count = length ts, tc_pos = 0,
                tc_block = sv_block f\<rparr> m) r)
      })"

end
