(* ===== verification/Token_Properties.thy ===== *)
theory Token_Properties
  imports Token_Facts
begin

text \<open>The properties of the token caches.\<close>

subsection \<open>Exchanging two parts\<close>

lemma swap_parts:
  assumes "length xs = n1" "length ys = n2" "length pre = i"
  shows "\<exists>e. swap_chunks i (i + n1) (i + n1 + n2) (pre @ xs @ d # ys @ post) = Some (pre @ ys @ e # xs @ post)"
proof (cases "n1 < n2")
  case True
  let ?ts = "pre @ xs @ d # ys @ post"
  have y: "take n2 (drop (i + n1 + 1) ?ts) = ys" and x: "take n1 (drop i ?ts) = xs" using assms by simp_all
  have "take (i + n2 + 1) ?ts = pre @ take (n2 + 1) (xs @ d # ys)"
    using assms True by (simp add: Suc_diff_le)
  moreover have "drop (i + n2 + 1 + n1) ?ts = post" using assms by simp
  ultimately have "copy_into (i + n2 + 1) xs ?ts = Some (pre @ take (n2 + 1) (xs @ d # ys) @ xs @ post)"
    using assms by (simp add: copy_into_def add_ac)
  moreover have "length (drop n2 (take (n2 + 1) (xs @ d # ys))) = Suc 0" using assms by simp
  then obtain e where "drop n2 (take (n2 + 1) (xs @ d # ys)) = [e]"
    unfolding length_Suc_conv by blast
  then have "copy_into i ys (pre @ take (n2 + 1) (xs @ d # ys) @ xs @ post) = Some (pre @ ys @ e # xs @ post)"
    using assms by (simp add: copy_into_def)
  ultimately show ?thesis using True x y assms by (simp add: swap_chunks_def copy_out_def add_ac)
next
  case False
  let ?ts = "pre @ xs @ d # ys @ post"
  have y: "take n2 (drop (i + n1 + 1) ?ts) = ys" and x: "take n1 (drop i ?ts) = xs" using assms by simp_all
  have "length (drop n2 (xs @ d # ys)) = Suc n1" using assms by simp
  then obtain e es where e: "drop n2 (xs @ d # ys) = e # es" "length es = n1"
    unfolding length_Suc_conv by blast
  have "copy_into i ys ?ts = Some (pre @ ys @ drop n2 (xs @ d # ys) @ post)"
    using assms False by (simp add: copy_into_def)
  then have a: "copy_into i ys ?ts = Some (pre @ ys @ e # es @ post)" unfolding e(1) by simp
  have "copy_into (i + n2 + 1) xs (pre @ ys @ e # es @ post) = Some (pre @ ys @ e # xs @ post)"
    using assms e(2) by (simp add: copy_into_def)
  then show ?thesis using False x y a assms by (simp add: swap_chunks_def copy_out_def add_ac)
qed

text \<open>The tokens with the numbers of the places from \<open>i\<close> on.\<close>

fun renumbered :: "nat \<Rightarrow> nat \<Rightarrow> tc_token list \<Rightarrow> tc_token list" where
  "renumbered a i [] = []"
| "renumbered a i (t # ts) = t\<lparr>t_offset := token_number a i\<rparr> # renumbered a (Suc i) ts"

lemma renumbered_append: "renumbered a i (xs @ ys) = renumbered a i xs @ renumbered a (i + length xs) ys"
  by (induction xs arbitrary: i) auto

lemma length_renumbered [simp]: "length (renumbered a i ts) = length ts"
  by (induction ts arbitrary: i) auto

lemma renumbered_twice [simp]: "renumbered a i (renumbered a j ts) = renumbered a i ts"
  by (induction ts arbitrary: i j) auto

lemma renumbered_same: "(\<And>k. k < length ts \<Longrightarrow> t_offset (ts ! k) = token_number a (i + k)) \<Longrightarrow> renumbered a i ts = ts"
proof (induction ts arbitrary: i)
  case (Cons t ts)
  have "renumbered a (Suc i) ts = ts" using Cons.prems[of "Suc _"] by (intro Cons.IH) auto
  then show ?case using Cons.prems[of 0] by simp
qed simp

lemma renumber_tokens_exact:
  "length pre = i \<Longrightarrow> renumber_tokens a i (length ts) (pre @ map Some ts @ post) =
     Some (pre @ map Some (renumbered a i ts) @ post)"
proof (induction ts arbitrary: i pre)
  case (Cons t ts)
  then show ?case
    using Cons.IH[of "pre @ [Some (t\<lparr>t_offset := token_number a i\<rparr>)]" "Suc i"]
    by (simp add: list_update_append nth_append)
qed simp

text \<open>The tokens of a cache.\<close>

definition script :: "token_cache \<Rightarrow> tc_token list" where
  "script c = map the (take (tc_count c) (tokens c))"

definition with_script :: "tc_token list \<Rightarrow> token_cache \<Rightarrow> token_cache" where
  "with_script ts c = c\<lparr>tokens := map Some ts @ drop (tc_count c) (tokens c)\<rparr>"

lemma script_tokens:
  assumes "cache_ok a c"
  shows "tokens c = map Some (script c) @ drop (tc_count c) (tokens c)" "length (script c) = tc_count c"
    "renumbered a 0 (script c) = script c"
proof -
  have l: "tc_count c \<le> length (tokens c)" using assms by (simp add: cache_ok_def)
  show len: "length (script c) = tc_count c" using l by (simp add: script_def)
  have k: "tokens c ! k = Some (script c ! k)" "t_offset (script c ! k) = token_number a k" if "k < tc_count c" for k
  proof -
    obtain t where "tokens c ! k = Some t" "t_offset t = token_number a k" using token_at_ok[OF assms \<open>k < tc_count c\<close>] by metis
    then show "tokens c ! k = Some (script c ! k)" "t_offset (script c ! k) = token_number a k"
      using l that by (simp_all add: script_def)
  qed
  have "map Some (script c) = take (tc_count c) (tokens c)"
    using k l by (intro nth_equalityI) (simp_all add: len)
  then show "tokens c = map Some (script c) @ drop (tc_count c) (tokens c)" by (metis append_take_drop_id)
  show "renumbered a 0 (script c) = script c" using k by (intro renumbered_same) (simp add: len)
qed

lemma with_script_same: "cache_ok a c \<Longrightarrow> with_script (script c) c = c"
  using script_tokens(1)[of a c] by (simp add: with_script_def)

lemma with_script_again [simp]:
  "length ts = tc_count c \<Longrightarrow> with_script us (with_script ts c) = with_script us c"
  by (simp add: with_script_def)

lemma with_script_ok:
  assumes "cache_ok a c" "length ts = tc_count c" "renumbered a 0 ts = ts"
  shows "cache_ok a (with_script ts c)" "script (with_script ts c) = ts"
proof -
  have off: "t_offset (ts ! k) = token_number a k" if "k < length ts" for k
  proof -
    have "t_offset (renumbered a i ts ! k) = token_number a (i + k)" if "k < length ts" for i ts k
      using that by (induction ts arbitrary: i k) (auto simp: nth_Cons split: nat.splits)
    from this[of k ts 0] that show ?thesis using assms(3) by simp
  qed
  show "cache_ok a (with_script ts c)"
    using assms(1,2) off by (auto simp: cache_ok_def with_script_def nth_append)
  show "script (with_script ts c) = ts" using assms(2) by (simp add: script_def with_script_def)
qed

lemma cache_ok_at:
  assumes "manager_ok m" "a < initialized m" "cache_at (int a) m = Some c"
  shows "cache_ok a c"
  using manager_okD[OF assms(1,2)] assms(3) by (metis option.inject)

lemma tc_switch_cache:
  assumes m: "manager_ok m" and a: "a < initialized m"
    and c: "cache_at (int a) m = Some c" "script c = pre @ xs @ d # ys @ post"
    and i: "i = length pre" "n1 = length xs" "n2 = length ys"
    and num: "TOKEN_OFFSET start_n = i" "TC_OFFSET start_n = int a" "TOKEN_OFFSET end_n = i + n1 + n2"
      "TOKEN_OFFSET middle_n = i + n1"
  shows "tc_switch start_n end_n middle_n m =
      Some (SUCCESS, set_cache (int a) (with_script (renumbered a 0 (pre @ ys @ d # xs @ post)) c) m)"
proof -
  have ok: "cache_ok a c" by (rule cache_ok_at[OF m a c(1)])
  note s = script_tokens[OF ok]
  have len: "tc_count c = length pre + length xs + Suc (length ys + length post)" using s(2) c(2) by simp
  have pre: "renumbered a 0 pre = pre" and post: "renumbered a (i + n1 + 1 + n2) post = post"
    using s(3) i unfolding c(2) by (auto simp: renumbered_append append_eq_append_conv add_ac)
  show ?thesis
  proof (cases "n1 = 0 \<and> n2 = 0")
    case True
    then have "pre @ ys @ d # xs @ post = script c" using c(2) i by simp
    then have "with_script (renumbered a 0 (pre @ ys @ d # xs @ post)) c = c"
      using s(3) with_script_same[OF ok] by simp
    then show ?thesis using True num c(1) len i set_cache_same[OF c(1)] by (simp add: tc_switch_def)
  next
    case False
    define rest where "rest = drop (tc_count c) (tokens c)"
    let ?p = "map Some post @ rest"
    let ?new = "renumbered a 0 (pre @ ys @ d # xs @ post)"
    have ts: "tokens c = map Some pre @ map Some xs @ Some d # map Some ys @ ?p" using s(1) c(2) by (simp add: rest_def)
    have mid: "token_at (i + n1) c = Some d"
      unfolding token_at_def ts using i by (simp add: nth_append)
    obtain e where e: "swap_chunks i (i + n1) (i + n1 + n2) (tokens c) =
        Some (map Some pre @ map Some ys @ e # map Some xs @ ?p)"
      unfolding ts using swap_parts[of "map Some xs" n1 "map Some ys" n2 "map Some pre" i "Some d" ?p] i by auto
    have u: "(map Some pre @ map Some ys @ e # map Some xs @ ?p)[i + n2 := Some d] =
        map Some pre @ map Some (ys @ d # xs) @ ?p"
      using i by (simp add: list_update_append)
    have "renumber_tokens a i (Suc (n1 + n2)) (map Some pre @ map Some (ys @ d # xs) @ ?p) =
        Some (map Some pre @ map Some (renumbered a i (ys @ d # xs)) @ ?p)"
      using renumber_tokens_exact[of "map Some pre" i a "ys @ d # xs" ?p] i by (simp add: add_ac)
    also have "map Some pre @ map Some (renumbered a i (ys @ d # xs)) @ ?p =
        map Some ?new @ rest"
      using pre post i by (simp add: renumbered_append add_ac)
    finally have r: "renumber_tokens a i (Suc (n1 + n2)) (map Some pre @ map Some (ys @ d # xs) @ ?p) =
        Some (map Some ?new @ rest)" .
    have ws: "with_script ?new c = c\<lparr>tokens := map Some ?new @ rest\<rparr>" by (simp add: with_script_def rest_def)
    show ?thesis
      using False num c(1) len i mid e u r by (auto simp: tc_switch_def Let_def ws Suc_diff_le simp del: renumber_tokens.simps)
  qed
qed

lemma cache_of:
  assumes "manager_ok m" "0 \<le> n" "TC_OFFSET n < int (initialized m)"
  obtains a c where "TC_OFFSET n = int a" "a < initialized m" "cache_at (int a) m = Some c" "cache_ok a c"
proof -
  have "TC_OFFSET n = int (nat (TC_OFFSET n))" using assms(2) by (simp add: TC_OFFSET_def pos_imp_zdiv_nonneg_iff)
  moreover from this have a: "nat (TC_OFFSET n) < initialized m" using assms(3) by linarith
  ultimately show ?thesis using manager_okD[OF assms(1) a] that by metis
qed

lemma seek_token_ok:
  assumes "manager_ok m" "0 \<le> n"
  shows "\<exists>r m'. seek_token n m = Some (r, m') \<and> manager_ok m'"
proof (cases "TC_OFFSET n < int (initialized m)")
  case True
  obtain a c where c: "TC_OFFSET n = int a" "a < initialized m" "cache_at (int a) m = Some c" "cache_ok a c"
    by (rule cache_of[OF assms True])
  show ?thesis
  proof (cases "TOKEN_OFFSET n > tc_count c")
    case False
    then have "cache_ok a (c\<lparr>tc_pos := TOKEN_OFFSET n\<rparr>)" using c(4) by (auto simp: cache_ok_def)
    from manager_ok_set[OF assms(1) this] c(2)
    have "manager_ok ((set_cache (int a) (c\<lparr>tc_pos := TOKEN_OFFSET n\<rparr>) m)\<lparr>active := a\<rparr>)"
      by (simp add: manager_ok_def)
    then show ?thesis using c False by (simp add: seek_token_def Let_def)
  qed (use c assms in \<open>simp add: seek_token_def Let_def\<close>)
qed (use assms in \<open>simp add: seek_token_def Let_def\<close>)

lemma update_token_ok:
  assumes "manager_ok m" "0 \<le> n" "TC_OFFSET n < int (initialized m)" "\<And>t. t_offset (f t) = t_offset t"
  shows "\<exists>r m'. update_token f n m = Some (r, m') \<and> manager_ok m'"
proof -
  obtain a c where c: "TC_OFFSET n = int a" "a < initialized m" "cache_at (int a) m = Some c" "cache_ok a c"
    by (rule cache_of[OF assms(1-3)])
  show ?thesis
  proof (cases "TOKEN_OFFSET n < tc_count c")
    case True
    obtain t where t: "token_at (TOKEN_OFFSET n) c = Some t" "t_offset t = token_number a (TOKEN_OFFSET n)"
      using token_at_ok[OF c(4) True] by metis
    have "\<exists>u. (tokens c)[TOKEN_OFFSET n := Some (f t)] ! i = Some u \<and> t_offset u = token_number a i"
      if "i < tc_count c" for i
      using that c(4) t assms(4) by (cases "i = TOKEN_OFFSET n") (auto simp: cache_ok_def)
    then have "cache_ok a (c\<lparr>tokens := (tokens c)[TOKEN_OFFSET n := Some (f t)]\<rparr>)"
      using c(4) by (simp add: cache_ok_def)
    from manager_ok_set[OF assms(1) this] show ?thesis using c True t by (simp add: update_token_def)
  qed (use c assms in \<open>simp add: update_token_def\<close>)
qed

lemma tc_switch_ok:
  assumes "manager_ok m" "0 \<le> start_n" "TC_OFFSET start_n < int (initialized m)"
  shows "\<exists>r m'. tc_switch start_n end_n middle_n m = Some (r, m') \<and> manager_ok m'"
proof -
  obtain a c where c: "TC_OFFSET start_n = int a" "a < initialized m" "cache_at (int a) m = Some c" "cache_ok a c"
    by (rule cache_of[OF assms])
  define i j k where "i = TOKEN_OFFSET start_n" and "j = TOKEN_OFFSET middle_n" and "k = TOKEN_OFFSET end_n"
  note [simp] = i_def[symmetric] j_def[symmetric] k_def[symmetric]
  note sc = script_tokens[OF c(4)]
  show ?thesis
  proof (cases "k \<ge> tc_count c \<or> j < i \<or> j > k")
    case False
    then have b: "i \<le> j" "j \<le> k" "k < length (script c)" using sc(2) by auto
    define pre xs d ys post where "pre = take i (script c)" and "xs = take (j - i) (drop i (script c))"
      and "d = script c ! j" and "ys = take (k - j) (drop (j + 1) (script c))" and "post = drop (k + 1) (script c)"
    have "script c = take i (script c) @ take (j - i) (drop i (script c)) @ drop j (script c)"
      using b by (metis append_take_drop_id drop_drop le_add_diff_inverse2)
    also have "drop j (script c) = d # drop (j + 1) (script c)" using b by (simp add: d_def Cons_nth_drop_Suc)
    also have "drop (j + 1) (script c) = ys @ post"
    proof -
      have "post = drop (k - j) (drop (j + 1) (script c))" using b by (simp add: post_def)
      then show ?thesis unfolding ys_def by (simp only: append_take_drop_id)
    qed
    finally have s: "script c = pre @ xs @ d # ys @ post" unfolding pre_def xs_def .
    have l: "i = length pre" "j - i = length xs" "k - j = length ys"
      using b by (simp_all add: pre_def xs_def ys_def)
    let ?c = "with_script (renumbered a 0 (pre @ ys @ d # xs @ post)) c"
    have "tc_switch start_n end_n middle_n m = Some (SUCCESS, set_cache (int a) ?c m)"
      by (rule tc_switch_cache[OF assms(1) c(2,3) s l]) (use c(1) b in simp_all)
    moreover have "length (renumbered a 0 (pre @ ys @ d # xs @ post)) = tc_count c"
      using sc(2) s by simp
    from manager_ok_set[OF assms(1) with_script_ok(1)[OF c(4) this]]
    have "manager_ok (set_cache (int a) ?c m)" by simp
    ultimately show ?thesis by blast
  qed (use c assms in \<open>auto simp: tc_switch_def Let_def\<close>)
qed

lemma those_all: "(\<And>x. x \<in> set xs \<Longrightarrow> x \<noteq> None) \<Longrightarrow> \<exists>ys. those xs = Some ys \<and> xs = map Some ys"
  by (induction xs) force+

lemma tcm_destroy_ok:
  assumes m: "manager_ok m"
  shows "tcm_destroy m \<noteq> None"
proof -
  have "\<exists>a < initialized m. x = caches m ! a" if "x \<in> set (take (initialized m) (caches m))" for x
    using that by (auto simp: in_set_conv_nth)
  with m have ok: "\<exists>a c. x = Some c \<and> cache_ok a c" if "x \<in> set (take (initialized m) (caches m))" for x
    using that unfolding manager_ok_def by metis
  have c: "\<exists>c. x = Some c \<and> tc_destroy c \<noteq> None" if x: "x \<in> set (take (initialized m) (caches m))" for x
  proof -
    obtain a c where c: "x = Some c" "cache_ok a c" using ok[OF x] by blast
    have "those (take (tc_count c) (tokens c)) \<noteq> None"
      using those_all[of "map Some (script c)"] script_tokens(1,2)[OF c(2)]
      by (metis append_eq_conv_conj length_map list.set_map imageE option.distinct(1))
    then show ?thesis using c by (auto simp: tc_destroy_def cache_ok_def)
  qed
  from those_all[of "take (initialized m) (caches m)"] c obtain cs where
    cs: "those (take (initialized m) (caches m)) = Some cs" "take (initialized m) (caches m) = map Some cs" by force
  have "tc_destroy d \<noteq> None" if "d \<in> set cs" for d using c[of "Some d"] that cs(2) by auto
  with those_all[of "map tc_destroy cs"] obtain vs where "those (map tc_destroy cs) = Some vs" by force
  then show ?thesis using m cs(1) by (simp add: tcm_destroy_def manager_ok_def)
qed

subsection \<open>No operation leaves its arrays\<close>

text \<open>
  The calls of the parser: a new cache for an \<^verbatim>\<open>eval\<close> or \<^verbatim>\<open>include\<close>, the next token, and the operations
  on token numbers, given a number of an existing cache.
\<close>

inductive cache_step :: "token_cache_manager \<Rightarrow> token_cache_manager \<Rightarrow> bool" where
  new: "0 < n \<Longrightarrow> cache_step m (snd (tcm_new n m))"
| read: "read_next_token f False m (s :: string) = Some (ty, t, m', s') \<Longrightarrow> cache_step m m'"
| seek: "0 \<le> n \<Longrightarrow> seek_token n m = Some (r, m') \<Longrightarrow> cache_step m m'"
| set_type: "0 \<le> n \<Longrightarrow> TC_OFFSET n < int (initialized m) \<Longrightarrow> tc_set_type n ty m = Some (r, m') \<Longrightarrow> cache_step m m'"
| mark_switched: "0 \<le> n \<Longrightarrow> TC_OFFSET n < int (initialized m) \<Longrightarrow> tc_mark_switched n m = Some (r, m') \<Longrightarrow> cache_step m m'"
| mark_included: "0 \<le> n \<Longrightarrow> TC_OFFSET n < int (initialized m) \<Longrightarrow> tc_mark_included n m = Some (r, m') \<Longrightarrow> cache_step m m'"
| switch: "0 \<le> n \<Longrightarrow> TC_OFFSET n < int (initialized m) \<Longrightarrow> tc_switch n j i m = Some (r, m') \<Longrightarrow> cache_step m m'"

lemma cache_step_ok: "cache_step m m' \<Longrightarrow> manager_ok m \<Longrightarrow> manager_ok m'"
proof (induction rule: cache_step.induct)
  case (read f m s ty t m' s')
  from read_cases[OF read(2), of f s] read show ?case by (auto simp: moved_on_def)
next
  case (seek n m r m')
  then show ?case using seek_token_ok[of m n] by auto
next
  case (set_type n m ty r m')
  then show ?case using update_token_ok[of m n "\<lambda>t. t\<lparr>token_type := ty\<rparr>"] by (auto simp: tc_set_type_def)
next
  case (mark_switched n m r m')
  then show ?case using update_token_ok[of m n "\<lambda>t. t\<lparr>t_cs_data := 1\<rparr>"] by (auto simp: tc_mark_switched_def)
next
  case (mark_included n m r m')
  then show ?case using update_token_ok[of m n "\<lambda>t. t\<lparr>t_cs_data := 1\<rparr>"] by (auto simp: tc_mark_included_def)
next
  case (switch n m j i r m')
  then show ?case using tc_switch_ok[of m n j i] by auto
qed (rule tcm_new_ok)

lemma reachable_ok: "cache_step\<^sup>*\<^sup>* tcm_init m \<Longrightarrow> manager_ok m"
  by (induction rule: rtranclp_induct) (auto simp: tcm_init_ok intro: cache_step_ok)

text \<open>C5: In every state that the calls of the parser reach, no operation of the token caches reads outside of an
  array or a slot that was not written: the next token, seeking, changing the type or the marks of a token, exchanging
  parts and the release are all defined, provided the token number names an existing cache.\<close>
theorem token_caches_safe:
  assumes "cache_step\<^sup>*\<^sup>* tcm_init m" "0 \<le> n"
  shows "read_next_token f False m s \<noteq> None \<and> seek_token n m \<noteq> None \<and> tcm_destroy m \<noteq> None \<and>
    (TC_OFFSET n < int (initialized m) \<longrightarrow>
       tc_set_type n ty m \<noteq> None \<and> tc_mark_switched n m \<noteq> None \<and> tc_mark_included n m \<noteq> None \<and>
       tc_get_type n m \<noteq> None \<and> tc_switch n j i m \<noteq> None)"
proof -
  have m: "manager_ok m" using assms(1) by (rule reachable_ok)
  have "tc_get_type n m \<noteq> None" if l: "TC_OFFSET n < int (initialized m)"
  proof -
    obtain a c where c: "TC_OFFSET n = int a" "a < initialized m" "cache_at (int a) m = Some c" "cache_ok a c"
      by (rule cache_of[OF m assms(2) l])
    then show ?thesis using token_at_ok[OF c(4), of "TOKEN_OFFSET n"] by (fastforce simp: tc_get_type_def)
  qed
  then show ?thesis
    using read_cases[OF m, of f s] seek_token_ok[OF m assms(2)] tcm_destroy_ok[OF m]
      update_token_ok[OF m assms(2), of "\<lambda>t. t\<lparr>token_type := ty\<rparr>"]
      update_token_ok[OF m assms(2), of "\<lambda>t. t\<lparr>t_cs_data := 1\<rparr>"] tc_switch_ok[OF m assms(2), of j i]
    unfolding tc_set_type_def tc_mark_switched_def tc_mark_included_def by auto
qed

text \<open>A scanner on a string: one token of type 296 for every character.\<close>

definition char_scan :: "string \<Rightarrow> (int \<times> pval \<times> nat \<times> string) \<times> string" where
  "char_scan s = (case s of [] \<Rightarrow> ((DONE_EVAL, IS_LONG 0, 1, []), []) | c # r \<Rightarrow> ((STRING_TOKEN, IS_STRING [c], 1, [c]), r))"

text \<open>The state after \<^verbatim>\<open>tcm_init\<close> and two tokens.\<close>

definition two_tokens :: token_cache_manager where
  "two_tokens = fst (snd (the (read_tokens char_scan 2 tcm_init ''ab'')))"

lemma two_tokens_reachable: "cache_step\<^sup>*\<^sup>* tcm_init two_tokens"
proof -
  obtain t m1 s1 where r: "read_next_token char_scan False tcm_init ''ab'' = Some (token_type t, Some t, m1, s1)"
    and o1: "manager_ok m1" and s1: "s1 = ''b''"
    using read_cases[OF tcm_init_ok, of char_scan "''ab''"]
    by (auto simp: moved_on_def read_next_token_def tcm_init_def cache_at_def tc_init_def char_scan_def store_token_def
        Let_def token_at_def TOKEN_CACHES_BLOCK_SIZE_def TOKEN_CACHE_BLOCK_SIZE_def)
  from read_cases[OF o1, of char_scan s1] obtain t2 m2 s2 where
    q: "read_next_token char_scan False m1 s1 = Some (token_type t2, Some t2, m2, s2) \<or>
        read_next_token char_scan False m1 s1 = Some (DONE_EVAL, None, m2, s2)" by blast
  then have "two_tokens = m2"
    using r by (auto simp: two_tokens_def numeral_2_eq_2)
  moreover have "cache_step tcm_init m1" using r by (rule cache_step.read)
  moreover have "cache_step m1 m2" using q by (auto intro: cache_step.read)
  ultimately show ?thesis by (meson converse_rtranclp_into_rtranclp rtranclp.rtrancl_refl)
qed

lemma two_tokens_ok: "manager_ok two_tokens"
  using two_tokens_reachable by (rule reachable_ok)

lemma token_caches_safe_witness:
  "read_next_token char_scan False two_tokens ''c'' \<noteq> None \<and> seek_token 1 two_tokens \<noteq> None \<and>
   tc_switch 1 1 1 two_tokens \<noteq> None"
proof -
  have "0 < initialized two_tokens" using two_tokens_ok by (simp add: manager_ok_def)
  then have "TC_OFFSET 1 < int (initialized two_tokens)" by (simp add: TC_OFFSET_def TOKEN_BITS_def)
  then show ?thesis
    using token_caches_safe[OF two_tokens_reachable, of 1 char_scan "''c''" 0 1 1] by simp
qed

subsection \<open>Reading again\<close>

text \<open>C4: A loop reads its tokens again: after the tokens \<open>ts\<close> were read, seeking to the number that one of them
  carries and reading from there gives that token and those that followed it, whatever the scanner now holds, and leaves
  the token caches as they were. (The cache is one of the first 2048 and holds less than \<open>2 ^ 20\<close> tokens.)\<close>
theorem tokens_read_again:
  assumes "manager_ok m" "active m < 2048" "cache_at (int (active m)) m = Some c" "tc_pos c + length ts \<le> 2 ^ 20"
    and "read_tokens f n m s = Some (ts, m', s')" "k < length ts"
  shows "\<exists>m2. seek_token (sint (t_offset (ts ! k))) m' = Some (SUCCESS, m2) \<and>
    read_tokens g (length ts - k) m2 s2 = Some (drop k ts, m', s2)"
proof -
  let ?a = "active m"
  let ?p = "tc_pos c + k"
  from read_tokens_stored[OF assms(1,5,3)] obtain c' where m': "manager_ok m'" "active m' = ?a"
    and c': "cache_at (int ?a) m' = Some c'" "tc_pos c' = tc_pos c + length ts"
      "\<And>k. k < length ts \<Longrightarrow> token_at (tc_pos c + k) c' = Some (ts ! k)" by auto
  have a: "?a < initialized m'" using m' by (simp add: manager_ok_def)
  have ok: "cache_ok ?a c'" by (rule cache_ok_at[OF m'(1) a c'(1)])
  then have cnt: "tc_pos c + length ts \<le> tc_count c'" using c'(2) by (simp add: cache_ok_def)
  have "?p < tc_count c'" using cnt assms(6) by simp
  from token_at_ok[OF ok this] have off: "t_offset (ts ! k) = token_number ?a ?p"
    using c'(3)[OF assms(6)] by (metis option.inject)
  have num: "TOKEN_OFFSET (sint (t_offset (ts ! k))) = ?p" "TC_OFFSET (sint (t_offset (ts ! k))) = int ?a"
    unfolding off using assms(2,4,6) by (simp_all add: token_number_split)
  define m2 where "m2 = set_cache (int ?a) (c'\<lparr>tc_pos := ?p\<rparr>) m'"
  have act: "m2\<lparr>active := ?a\<rparr> = m2" using m'(2) by (simp add: m2_def)
  have "seek_token (sint (t_offset (ts ! k))) m' = Some (SUCCESS, m2)"
    using a c'(1) cnt assms(6) act by (simp add: seek_token_def num Let_def m2_def)
  moreover have at: "token_at i (c'\<lparr>tc_pos := q\<rparr>) = token_at i c'" for i q by (simp add: token_at_def)
  have "read_tokens g (length (drop k ts)) m2 s2 = Some (drop k ts,
      set_cache (int (active m2)) ((c'\<lparr>tc_pos := ?p\<rparr>)\<lparr>tc_pos := tc_pos (c'\<lparr>tc_pos := ?p\<rparr>) + length (drop k ts)\<rparr>) m2, s2)"
  proof (rule read_tokens_again)
    show "cache_at (int (active m2)) m2 = Some (c'\<lparr>tc_pos := ?p\<rparr>)"
      using cache_at_set[OF c'(1)] m'(2) by (simp add: m2_def)
    show "token_at (tc_pos (c'\<lparr>tc_pos := ?p\<rparr>) + j) (c'\<lparr>tc_pos := ?p\<rparr>) = Some (drop k ts ! j)"
      if "j < length (drop k ts)" for j
      using that c'(3)[of "k + j"] by (simp add: at add_ac)
  qed (use cnt assms(6) in simp)
  moreover have "c'\<lparr>tc_pos := tc_pos c + length ts\<rparr> = c'" using c'(2) by simp
  then have "set_cache (int ?a) (c'\<lparr>tc_pos := tc_pos c + length ts\<rparr>) m2 = m'"
    using set_cache_same[OF c'(1)] by (simp add: m2_def)
  ultimately show ?thesis using assms(6) m'(2) by (simp add: m2_def)
qed

lemma tokens_read_again_witness:
  "\<exists>ts m2. read_tokens char_scan 2 tcm_init ''ab'' = Some (ts, two_tokens, []) \<and>
     seek_token (sint (t_offset (ts ! 1))) two_tokens = Some (SUCCESS, m2) \<and>
     read_tokens char_scan 1 m2 ''zz'' = Some (drop 1 ts, two_tokens, ''zz'')"
proof -
  have c: "cache_at (int (active tcm_init)) tcm_init = Some (tc_init TOKEN_CACHE_BLOCK_SIZE)" "active tcm_init < 2048"
    by (simp_all add: tcm_init_def cache_at_def TOKEN_CACHES_BLOCK_SIZE_def)
  have "\<exists>ts m'. read_tokens char_scan 2 tcm_init ''ab'' = Some (ts, m', []) \<and> length ts = 2"
    by (simp add: numeral_2_eq_2 read_next_token_def tcm_init_def cache_at_def tc_init_def char_scan_def store_token_def
        Let_def token_at_def TOKEN_CACHES_BLOCK_SIZE_def TOKEN_CACHE_BLOCK_SIZE_def set_cache_def)
  then obtain ts m' where r: "read_tokens char_scan 2 tcm_init ''ab'' = Some (ts, m', [])" "length ts = 2" by blast
  have "m' = two_tokens" using r by (simp add: two_tokens_def)
  moreover have "tc_pos (tc_init TOKEN_CACHE_BLOCK_SIZE) + length ts \<le> 2 ^ 20" using r by (simp add: tc_init_def)
  from tokens_read_again[OF tcm_init_ok c(2,1) this r(1), of 1 char_scan "''zz''"]
  obtain m2 where "seek_token (sint (t_offset (ts ! 1))) m' = Some (SUCCESS, m2)"
    "read_tokens char_scan 1 m2 ''zz'' = Some (drop 1 ts, m', ''zz'')" using r(2) by auto
  ultimately show ?thesis using r by blast
qed

text \<open>C6: \<^verbatim>\<open>tc_switch\<close> exchanges the tokens before and after its middle token, keeps every other token and the position,
  and gives each token the number of its new place; a second call with the middle token at its new place restores
  the token caches exactly.\<close>
theorem tc_switch_exact:
  assumes "manager_ok m" "a < initialized m" "a < 2048" "cache_at (int a) m = Some c" "tc_count c \<le> 2 ^ 20"
    and "script c = pre @ xs @ d # ys @ post"
    and "i = length pre" "j = i + length xs" "k = j + length ys"
  shows "\<exists>m' c'. tc_switch (sint (token_number a i)) (sint (token_number a k)) (sint (token_number a j)) m = Some (SUCCESS, m') \<and>
    m' = set_cache (int a) c' m \<and> script c' = renumbered a 0 (pre @ ys @ d # xs @ post) \<and> tc_pos c' = tc_pos c \<and>
    tc_switch (sint (token_number a i)) (sint (token_number a k)) (sint (token_number a (i + length ys))) m' = Some (SUCCESS, m)"
proof -
  have ok: "cache_ok a c" by (rule cache_ok_at[OF assms(1,2,4)])
  note s = script_tokens[OF ok]
  have len: "tc_count c = length pre + length xs + Suc (length ys + length post)" using s(2) assms(6) by simp
  have num: "TOKEN_OFFSET (sint (token_number a h)) = h" "TC_OFFSET (sint (token_number a h)) = int a"
    if "h \<le> length pre + length xs + length ys" for h
    using assms(3,5) len that by (simp_all add: token_number_split)
  let ?new = "renumbered a 0 (pre @ ys @ d # xs @ post)"
  let ?c = "with_script ?new c"
  let ?m = "set_cache (int a) ?c m"
  have len_new: "length ?new = tc_count c" using len by simp
  have ok': "cache_ok a ?c" "script ?c = ?new" by (rule with_script_ok[OF ok len_new]; simp)+
  have fwd: "tc_switch (sint (token_number a i)) (sint (token_number a k)) (sint (token_number a j)) m = Some (SUCCESS, ?m)"
    by (rule tc_switch_cache[OF assms(1,2,4,6,7) refl refl]) (use assms(7-9) in \<open>simp_all add: num\<close>)
  have new: "script ?c = renumbered a 0 pre @ renumbered a i ys @
      d\<lparr>t_offset := token_number a (i + length ys)\<rparr> # renumbered a (Suc (i + length ys)) xs @
      renumbered a (Suc (i + length ys) + length xs) post"
    unfolding ok'(2) using assms(7) by (simp add: renumbered_append add_ac)
  have "tc_switch (sint (token_number a i)) (sint (token_number a k)) (sint (token_number a (i + length ys))) ?m =
      Some (SUCCESS, set_cache (int a) (with_script (renumbered a 0 (renumbered a 0 pre @
        renumbered a (Suc (i + length ys)) xs @ d\<lparr>t_offset := token_number a (i + length ys)\<rparr> # renumbered a i ys @
        renumbered a (Suc (i + length ys) + length xs) post)) ?c) ?m)"
    by (rule tc_switch_cache[OF manager_ok_set[OF assms(1) ok'(1)] _ cache_at_set[OF assms(4)] new _ refl refl])
      (use assms(2,7-9) in \<open>simp_all add: num\<close>)
  also have "renumbered a 0 (renumbered a 0 pre @ renumbered a (Suc (i + length ys)) xs @
      d\<lparr>t_offset := token_number a (i + length ys)\<rparr> # renumbered a i ys @
      renumbered a (Suc (i + length ys) + length xs) post) = script c"
    using s(3) unfolding assms(6) by (simp add: renumbered_append)
  finally have undo: "tc_switch (sint (token_number a i)) (sint (token_number a k)) (sint (token_number a (i + length ys))) ?m =
      Some (SUCCESS, m)"
    using len_new with_script_same[OF ok] set_cache_same[OF assms(4)] by simp
  have "tc_pos ?c = tc_pos c" by (simp add: with_script_def)
  with fwd undo ok'(2) show ?thesis by blast
qed

text \<open>A token of type \<^verbatim>\<open>STRING\<close>, and the token caches of a script with the given tokens.\<close>

definition word_token :: "string \<Rightarrow> tc_token" where
  "word_token s = \<lparr>token_type = STRING_TOKEN, t_val = IS_STRING s, t_offset = 0, t_cs_data = 0,
     t_lineno = 1\<rparr>"

definition script_cache :: "tc_token list \<Rightarrow> token_cache" where
  "script_cache ts = \<lparr>tokens = map Some (renumbered 0 0 ts) @ [None], tc_count = length ts, tc_pos = 0, tc_block = 1\<rparr>"

definition script_manager :: "tc_token list \<Rightarrow> token_cache_manager" where
  "script_manager ts = set_cache 0 (script_cache ts) tcm_init"

lemma script_script_cache [simp]: "script (script_cache ts) = renumbered 0 0 ts"
  by (simp add: script_def script_cache_def)

lemma script_manager_ok:
  "manager_ok (script_manager ts)" "cache_at 0 (script_manager ts) = Some (script_cache ts)" "initialized (script_manager ts) = 1"
proof -
  have off: "t_offset (renumbered a i ts ! k) = token_number a (i + k)" if "k < length ts" for a i k
    using that by (induction ts arbitrary: i k) (auto simp: nth_Cons split: nat.splits)
  have "cache_ok 0 (script_cache ts)" using off[of _ 0 0] by (simp add: cache_ok_def script_cache_def nth_append)
  from manager_ok_set[OF tcm_init_ok this] show "manager_ok (script_manager ts)" by (simp add: script_manager_def)
  show "cache_at 0 (script_manager ts) = Some (script_cache ts)" "initialized (script_manager ts) = 1"
    by (simp_all add: script_manager_def cache_at_def set_cache_def tcm_init_def TOKEN_CACHES_BLOCK_SIZE_def)
qed

lemma tc_switch_exact_witness:
  "\<exists>m' c'. tc_switch (sint (token_number 0 1)) (sint (token_number 0 3)) (sint (token_number 0 2))
       (script_manager (map word_token [''for'', ''cond'', '';'', ''step''])) = Some (SUCCESS, m') \<and>
     cache_at 0 m' = Some c' \<and> script c' = renumbered 0 0 (map word_token [''for'', ''step'', '';'', ''cond''])"
proof -
  let ?ts = "map word_token [''for'', ''cond'', '';'', ''step'']"
  let ?t = "\<lambda>i s. (word_token s)\<lparr>t_offset := token_number 0 i\<rparr>"
  note ok = script_manager_ok[of ?ts]
  have "script (script_cache ?ts) = [?t 0 ''for''] @ [?t 1 ''cond''] @ ?t 2 '';'' # [?t 3 ''step''] @ []"
    by (simp add: numeral_2_eq_2 numeral_3_eq_3)
  note sc = this
  have p: "(1::nat) = length [?t 0 ''for'']" "(2::nat) = 1 + length [?t 1 ''cond'']" "(3::nat) = 2 + length [?t 3 ''step'']"
    by simp_all
  have "0 < initialized (script_manager ?ts)" "(0::nat) < 2048" "cache_at (int 0) (script_manager ?ts) = Some (script_cache ?ts)"
    "tc_count (script_cache ?ts) \<le> 2 ^ 20" using ok(2,3) by (simp_all add: script_cache_def)
  from tc_switch_exact[OF ok(1) this sc p] obtain m' c' where
    m': "tc_switch (sint (token_number 0 1)) (sint (token_number 0 3)) (sint (token_number 0 2)) (script_manager ?ts) =
      Some (SUCCESS, m')" "m' = set_cache (int 0) c' (script_manager ?ts)"
    and c': "script c' = renumbered 0 0 ([?t 0 ''for''] @ [?t 3 ''step''] @ ?t 2 '';'' # [?t 1 ''cond''] @ [])" by blast
  have "cache_at 0 m' = Some c'" using m'(2) cache_at_set[of 0 "script_manager ?ts"] ok(2) by simp
  moreover have "script c' = renumbered 0 0 (map word_token [''for'', ''step'', '';'', ''cond''])"
    unfolding c' by simp
  ultimately show ?thesis using m'(1) by blast
qed

subsection \<open>Saving and loading\<close>

lemma string_bytes_exact:
  "(\<And>t. t \<in> set ts \<Longrightarrow> saves_string t \<Longrightarrow> \<exists>s. t_val t = IS_STRING s) \<Longrightarrow> \<exists>bs. string_bytes ts = Some bs"
proof (induction ts)
  case (Cons t ts)
  then obtain bs where "string_bytes ts = Some bs" by auto
  then show ?case using Cons.prems[of t] by auto
qed simp

lemma erased_type [simp]: "token_type (erased t) = token_type t" "loads_string (erased t) = loads_string t"
  by (auto simp: erased_def loads_string_def split: pval.splits)

lemma read_strings_exact:
  assumes "string_bytes ts = Some bs"
    and "\<And>t. t \<in> set ts \<Longrightarrow> loads_string t = saves_string t \<and> (saves_string t \<longleftrightarrow> (\<exists>s. t_val t = IS_STRING s))"
  shows "read_strings (map erased ts) (bs @ rest) = Some (Some ts)"
  using assms
proof (induction ts arbitrary: bs)
  case (Cons t ts)
  have l: "loads_string t = saves_string t" "saves_string t \<longleftrightarrow> (\<exists>s. t_val t = IS_STRING s)" using Cons.prems(2)[of t] by auto
  show ?case
  proof (cases "\<exists>s. t_val t = IS_STRING s")
    case True
    then obtain s where s: "t_val t = IS_STRING s" by blast
    then obtain r where r: "string_bytes ts = Some r" "bs = s @ r" using Cons.prems(1) l by (auto split: bind_splits)
    have "read_strings (map erased ts) (r @ rest) = Some (Some ts)" using Cons r by simp
    moreover have e: "erased t = t\<lparr>t_val := IS_STRING (replicate (length s) (CHR 0x00))\<rparr>" using s by (simp add: erased_def)
    moreover have "loads_string (erased t)" using l s by simp
    ultimately show ?thesis using l s r(2) by simp
  next
    case False
    then have e: "erased t = t" by (auto simp: erased_def split: pval.splits)
    have "read_strings (map erased ts) (bs @ rest) = Some (Some ts)" using Cons False l by (auto split: bind_splits)
    then show ?thesis using l False e by simp
  qed
qed simp

lemma tcm_save_script:
  assumes "manager_ok m" "initialized m = 1" "cache_at 0 m = Some c" "string_bytes (script c) = Some bs"
  shows "tcm_save m = Some (Some \<lparr>sv_magic = ''PHP3'', sv_max = length (tokens c), sv_count = tc_count c, sv_block = tc_block c, sv_tokens = map erased (script c),
    sv_strings = bs\<rparr>)"
proof -
  have ok: "cache_ok 0 c" using cache_ok_at[OF assms(1), of 0] assms(2,3) by simp
  from script_tokens(1,2)[OF ok] have "take (tc_count c) (tokens c) = map Some (script c)"
    by (metis append_eq_conv_conj length_map)
  moreover have "those (map Some ts) = Some ts" for ts :: "tc_token list" by (induction ts) auto
  ultimately show ?thesis using assms by (simp add: tcm_save_def)
qed

text \<open>C7: A script without unknown escape sequences is loaded as it was saved: \<^verbatim>\<open>tcm_load\<close> gives the same tokens, with their
  strings, in an array of the same size, at position 0. (Exactly the tokens of the types whose strings \<^verbatim>\<open>tcm_save\<close> writes have
  string values, as the scanner makes them.)\<close>
theorem script_saved_and_loaded:
  assumes "manager_ok m" "initialized m = 1" "cache_at 0 m = Some c"
    and "\<forall>t \<in> set (script c). saves_string t = (\<exists>s. t_val t = IS_STRING s) \<and> token_type t \<noteq> BAD_CHARACTER"
  shows "\<exists>f c'. tcm_save m = Some (Some f) \<and> tcm_load f m0 = Some (Some (set_cache 0 c' m0)) \<and>
    script c' = script c \<and> tc_pos c' = 0 \<and> length (tokens c') = length (tokens c) \<and> tc_block c' = tc_block c"
proof -
  have ok: "cache_ok 0 c" using cache_ok_at[OF assms(1), of 0] assms(2,3) by simp
  note s = script_tokens(2)[OF ok]
  obtain bs where bs: "string_bytes (script c) = Some bs" using string_bytes_exact[of "script c"] assms(4) by blast
  have "read_strings (map erased (script c)) (bs @ []) = Some (Some (script c))"
    using assms(4) by (intro read_strings_exact[OF bs]) (auto simp: loads_string_def saves_string_def)
  moreover have cnt: "tc_count c \<le> length (tokens c)" using ok by (simp add: cache_ok_def)
  let ?d = "\<lparr>tokens = map Some (script c) @ replicate (length (tokens c) - tc_count c) None, tc_count = tc_count c,
      tc_pos = 0, tc_block = tc_block c\<rparr>"
  have "script ?d = script c" using s by (simp add: script_def[of ?d])
  ultimately have "tcm_load \<lparr>sv_magic = ''PHP3'', sv_max = length (tokens c), sv_count = tc_count c, sv_block = tc_block c, sv_tokens = map erased (script c),
      sv_strings = bs\<rparr> m0 = Some (Some (set_cache 0 ?d m0))" using s cnt by (simp add: tcm_load_def)
  moreover have "length (tokens ?d) = length (tokens c)" "tc_pos ?d = 0" "tc_block ?d = tc_block c" using s cnt by simp_all
  ultimately show ?thesis
    using tcm_save_script[OF assms(1-3) bs] \<open>script ?d = _\<close> by blast
qed

lemma script_saved_and_loaded_witness:
  "\<exists>f c'. tcm_save (script_manager [word_token ''ab'', word_token ''c'']) = Some (Some f) \<and>
     tcm_load f tcm_init = Some (Some (set_cache 0 c' tcm_init)) \<and>
     script c' = renumbered 0 0 [word_token ''ab'', word_token ''c'']"
proof -
  note ok = script_manager_ok[of "[word_token ''ab'', word_token ''c'']"]
  have "\<forall>t \<in> set (script (script_cache [word_token ''ab'', word_token ''c''])).
      saves_string t = (\<exists>s. t_val t = IS_STRING s) \<and> token_type t \<noteq> BAD_CHARACTER"
    by (simp add: saves_string_def word_token_def)
  from script_saved_and_loaded[OF ok(1,3,2) this, of tcm_init] show ?thesis by auto
qed

text \<open>Tokens without a string.\<close>

lemma string_bytes_append:
  assumes "\<forall>t \<in> set pre. \<not> saves_string t"
  shows "string_bytes (pre @ ts) = string_bytes ts"
  using assms by (induction pre) auto

lemma read_strings_append:
  assumes "\<forall>t \<in> set pre. \<not> loads_string t"
  shows "read_strings (pre @ ts) bs = map_option (map_option ((@) pre)) (read_strings ts bs)"
  using assms
proof (induction pre)
  case (Cons t pre)
  then show ?case by (cases "read_strings ts bs") (auto simp: option.map_comp comp_def)
next
  case Nil
  have "(@) [] = (\<lambda>x. x :: tc_token list)" by auto
  then show ?case by (simp add: option.map_ident)
qed

text \<open>The strings of the tokens that follow an unknown escape sequence (a token \<^verbatim>\<open>BAD_CHARACTER\<close>) are loaded
  wrong: \<^verbatim>\<open>tcm_save\<close> writes the bytes \<open>b\<close> of the escape sequence and \<^verbatim>\<open>tcm_load\<close> does not read them, so the next string
  token gets the first bytes of \<open>b @ s\<close> for its own string \<open>s\<close>.\<close>
theorem bad_character_shifts_strings:
  assumes "manager_ok m" "initialized m = 1" "cache_at 0 m = Some c"
    and "script c = pre @ t # mid @ u # post" "\<forall>x \<in> set (pre @ mid @ post). \<not> saves_string x"
    and "token_type t = BAD_CHARACTER" "t_val t = IS_STRING b" "token_type u = STRING_TOKEN" "t_val u = IS_STRING s"
  shows "\<exists>f c' v. tcm_save m = Some (Some f) \<and> tcm_load f m0 = Some (Some (set_cache 0 c' m0)) \<and>
    length (script c') = length (script c) \<and> script c' ! (length pre + length mid + 1) = v \<and>
    t_val v = IS_STRING (take (length s) (b @ s))"
proof -
  have ok: "cache_ok 0 c" using cache_ok_at[OF assms(1), of 0] assms(2,3) by simp
  note sc = script_tokens(2)[OF ok]
  have ty: "saves_string t" "\<not> loads_string t" "saves_string u" "loads_string u"
    using assms(6,8) by (simp_all add: saves_string_def loads_string_def)
  have no: "\<forall>x \<in> set pre. \<not> saves_string x" "\<forall>x \<in> set mid. \<not> saves_string x" "\<forall>x \<in> set post. \<not> saves_string x"
    using assms(5) by auto
  have "string_bytes post = Some []" using string_bytes_append[OF no(3), of "[]"] by simp
  then have bs: "string_bytes (script c) = Some (b @ s)"
    using assms(7,9) ty no by (simp add: assms(4) string_bytes_append)
  have l: "\<forall>x \<in> set (map erased ys). \<not> loads_string x" if "\<forall>x \<in> set ys. \<not> saves_string x" for ys
    using that by (auto simp: saves_string_def loads_string_def)
  define v where "v = (erased u)\<lparr>t_val := IS_STRING (take (length s) (b @ s))\<rparr>"
  have "erased u = u\<lparr>t_val := IS_STRING (replicate (length s) (CHR 0x00))\<rparr>" using assms(9) by (simp add: erased_def)
  then have "read_strings (erased u # map erased post) (b @ s) = Some (Some (v # map erased post))"
    using ty(4) read_strings_append[OF l[OF no(3)], of "[]"] erased_type(2)[of u] by (simp add: v_def)
  then have "read_strings (map erased (script c)) (b @ s) =
      Some (Some (map erased pre @ erased t # map erased mid @ v # map erased post))"
    using ty(2) read_strings_append[OF l[OF no(1)]] read_strings_append[OF l[OF no(2)]] by (simp add: assms(4))
  moreover define ts where "ts = map erased pre @ erased t # map erased mid @ v # map erased post"
  ultimately have r: "read_strings (map erased (script c)) (b @ s) = Some (Some ts)" by simp
  let ?d = "\<lparr>tokens = map Some ts @ replicate (length (tokens c) - length ts) None, tc_count = length ts,
      tc_pos = 0, tc_block = tc_block c\<rparr>"
  have len: "length ts = length (script c)" by (simp add: ts_def assms(4))
  have "tc_count c \<le> length (tokens c)" using ok by (simp add: cache_ok_def)
  then have "tcm_load \<lparr>sv_magic = ''PHP3'', sv_max = length (tokens c), sv_count = tc_count c, sv_block = tc_block c, sv_tokens = map erased (script c), sv_strings = b @ s\<rparr> m0 =
      Some (Some (set_cache 0 ?d m0))" using r sc by (simp add: tcm_load_def)
  moreover have d: "script ?d = ts" by (simp add: script_def)
  moreover have "script ?d ! (length pre + length mid + 1) = v" unfolding d by (simp add: ts_def nth_append)
  moreover have "length (script ?d) = length (script c)" unfolding d by (rule len)
  moreover have "t_val v = IS_STRING (take (length s) (b @ s))" by (simp add: v_def)
  ultimately show ?thesis using tcm_save_script[OF assms(1-3) bs] by blast
qed

lemma bad_character_shifts_strings_witness:
  "\<exists>f c'. tcm_save (script_manager [(word_token ''?q'')\<lparr>token_type := BAD_CHARACTER\<rparr>, word_token ''name'']) = Some (Some f) \<and>
     tcm_load f tcm_init = Some (Some (set_cache 0 c' tcm_init)) \<and> t_val (script c' ! 1) = IS_STRING ''?qna''"
proof -
  let ?t = "(word_token ''?q'')\<lparr>token_type := BAD_CHARACTER\<rparr>" let ?u = "word_token ''name''"
  note ok = script_manager_ok[of "[?t, ?u]"]
  have "script (script_cache [?t, ?u]) = [] @ hd (renumbered 0 0 [?t]) # [] @ hd (renumbered 0 1 [?u]) # []" by simp
  from bad_character_shifts_strings[OF ok(1,3,2) this, of "''?q''" "''name''" tcm_init] show ?thesis
    by (auto simp: word_token_def)
qed

subsection \<open>Too many caches\<close>

text \<open>\<^verbatim>\<open>tcm_new\<close> allows 4096 caches but only the token numbers of the first 2048 work: the 2049th \<^verbatim>\<open>eval\<close> is accepted, its
  token numbers are negative because the cache number runs into the sign bit, and \<^verbatim>\<open>seek_token\<close> with such a number reads in front
  of the array of caches.\<close>
theorem token_numbers_overflow:
  assumes "manager_ok m" "initialized m = 2048" "0 < n"
  shows "\<exists>m'. tcm_new n m = (SUCCESS, m') \<and> tc_get_current_offset m' = Some (- 2147483648) \<and>
    seek_token (- 2147483648) m' = None"
proof -
  define m' where "m' = snd (tcm_new n m)"
  have new: "tcm_new n m = (SUCCESS, m')" "active m' = 2048" "initialized m' = 2049"
    using assms(2) by (simp_all add: tcm_new_def Let_def TC_BITS_def TOKEN_BITS_def m'_def)
  have "caches m' ! 2048 = Some (tc_init n)" "2048 < length (caches m')"
    using assms(1,2) by (auto simp: tcm_new_def Let_def TC_BITS_def TOKEN_BITS_def m'_def TOKEN_CACHES_BLOCK_SIZE_def
        manager_ok_def)
  then have "cache_at (int (active m')) m' = Some (tc_init n)" using new(2) by (simp add: cache_at_def)
  moreover have "uint (token_number 2048 0) = 2 ^ 31" using token_number_int[of 2048 0] by simp
  then have "sint (token_number 2048 0) = - 2147483648" by (simp add: sint_uint32)
  ultimately have "tc_get_current_offset m' = Some (- 2147483648)"
    using new(2) by (simp add: tc_get_current_offset_def tc_init_def)
  moreover have "seek_token (- 2147483648) m' = None"
    by (simp add: seek_token_def TC_OFFSET_def TOKEN_BITS_def cache_at_def Let_def)
  ultimately show ?thesis using new(1) by blast
qed

lemma token_numbers_overflow_witness:
  "\<exists>m m'. initialized m = 2048 \<and> tcm_new 32 m = (SUCCESS, m') \<and> seek_token (- 2147483648) m' = None"
proof -
  define m where "m = \<lparr>caches = replicate 2048 (Some (tc_init 32)), active = 0, initialized = 2048, last_token_type = - 1\<rparr>"
  have "manager_ok m" by (simp add: m_def manager_ok_def tc_init_ok)
  moreover have "initialized m = 2048" by (simp add: m_def)
  ultimately show ?thesis using token_numbers_overflow[of m 32] by (metis zero_less_numeral)
qed

end
