(* ===== verification/Alloc_Model.thy ===== *)
theory Alloc_Model
  imports Php_Prelude
begin

text \<open>
  The memory manager of \<^verbatim>\<open>alloc.c\<close> (built without \<^verbatim>\<open>DEBUG\<close> and \<^verbatim>\<open>MEMORY_LIMIT\<close>, the defaults). Every block
  that \<^verbatim>\<open>emalloc\<close> got from \<^verbatim>\<open>malloc\<close> is in one doubly linked list, so that what a script did not free is
  freed after the request. A small block that is freed goes to a cache for its size and stays in the
  list.

  \<^verbatim>\<open>malloc\<close> and \<^verbatim>\<open>realloc\<close> are the C library's: the operations get their answer as an argument, and one that
  the library cannot give (the address of a block in use) makes the operation \<open>None\<close>, as does a wild
  pointer. A pointer is the address of the block's header.
\<close>

record mem_header =
  mh_next :: "addr option"
  mh_last :: "addr option"
  mh_size :: ulong
  mh_bytes :: "char option list"

text \<open>
  \<open>cache ! n\<close> is \<^verbatim>\<open>cache[n][0 .. cache_count[n] - 1]\<close>, the newest entry first. \<open>mh_bytes\<close> is the memory behind the
  header, \<open>None\<close> where it is indeterminate.
\<close>

record memory_manager =
  blocks :: "addr \<Rightarrow> mem_header option"
  head :: "addr option"
  cache :: "addr list list"

text \<open>\<^verbatim>\<open>exit(1)\<close> ends the process.\<close>

datatype 'a outcome = Done 'a | Exited

definition MAX_CACHED_MEMORY :: nat where "MAX_CACHED_MEMORY = 64"
definition MAX_CACHED_ENTRIES :: nat where "MAX_CACHED_ENTRIES = 16"

definition start_memory_manager :: memory_manager where
  "start_memory_manager = \<lparr>blocks = Map.empty, head = None, cache = replicate MAX_CACHED_MEMORY []\<rparr>"

subsection \<open>The C library\<close>

definition upd_header :: "addr \<Rightarrow> (mem_header \<Rightarrow> mem_header) \<Rightarrow> memory_manager \<Rightarrow> memory_manager option" where
  "upd_header p f s = do {
     h \<leftarrow> blocks s p;
     Some (s\<lparr>blocks := (blocks s)(p \<mapsto> f h)\<rparr>)
   }"

definition malloc_block :: "addr \<Rightarrow> nat \<Rightarrow> memory_manager \<Rightarrow> memory_manager option" where
  "malloc_block p n s =
     (if blocks s p = None
      then Some (s\<lparr>blocks := (blocks s)(p \<mapsto> \<lparr>mh_next = None, mh_last = None, mh_size = 0, mh_bytes = replicate n None\<rparr>)\<rparr>)
      else None)"

definition resized :: "nat \<Rightarrow> char option list \<Rightarrow> char option list" where
  "resized n bs = take n bs @ replicate (n - length bs) None"

definition realloc_block :: "addr \<Rightarrow> addr \<Rightarrow> nat \<Rightarrow> memory_manager \<Rightarrow> memory_manager option" where
  "realloc_block p q n s = do {
     h \<leftarrow> blocks s p;
     if q = p \<or> blocks s q = None
     then Some (s\<lparr>blocks := (blocks s)(p := None, q \<mapsto> h\<lparr>mh_bytes := resized n (mh_bytes h)\<rparr>)\<rparr>)
     else None
   }"

definition free_block :: "addr \<Rightarrow> memory_manager \<Rightarrow> memory_manager option" where
  "free_block p s = (if blocks s p = None then None else Some (s\<lparr>blocks := (blocks s)(p := None)\<rparr>))"

subsection \<open>The list of blocks\<close>

definition remove_pointer_from_list :: "addr \<Rightarrow> memory_manager \<Rightarrow> memory_manager option" where
  "remove_pointer_from_list p s = do {
     h \<leftarrow> blocks s p;
     s1 \<leftarrow> (if head s = Some p then Some (s\<lparr>head := mh_next h\<rparr>)
            else do { l \<leftarrow> mh_last h; upd_header l (\<lambda>g. g\<lparr>mh_next := mh_next h\<rparr>) s });
     h1 \<leftarrow> blocks s1 p;
     (case mh_next h1 of
        None \<Rightarrow> Some s1
      | Some n \<Rightarrow> upd_header n (\<lambda>g. g\<lparr>mh_last := mh_last h1\<rparr>) s1)
   }"

definition add_to_list :: "addr \<Rightarrow> memory_manager \<Rightarrow> memory_manager option" where
  "add_to_list p s = do {
     s1 \<leftarrow> upd_header p (\<lambda>h. h\<lparr>mh_next := head s\<rparr>) s;
     s2 \<leftarrow> (case head s1 of None \<Rightarrow> Some s1 | Some a \<Rightarrow> upd_header a (\<lambda>h. h\<lparr>mh_last := Some p\<rparr>) s1);
     s3 \<leftarrow> upd_header p (\<lambda>h. h\<lparr>mh_last := None\<rparr>) s2;
     Some (s3\<lparr>head := Some p\<rparr>)
   }"

subsection \<open>Operations\<close>

definition emalloc :: "ulong \<Rightarrow> addr option \<Rightarrow> memory_manager \<Rightarrow> (addr \<times> memory_manager) outcome option" where
  "emalloc n answer s =
     (if unat n < MAX_CACHED_MEMORY \<and> cache s ! unat n \<noteq> []
      then Some (Done (hd (cache s ! unat n), s\<lparr>cache := (cache s)[unat n := tl (cache s ! unat n)]\<rparr>))
      else (case answer of
          None \<Rightarrow> Some Exited
        | Some p \<Rightarrow> do {
            s1 \<leftarrow> malloc_block p (unat n) s;
            s2 \<leftarrow> add_to_list p s1;
            s3 \<leftarrow> upd_header p (\<lambda>h. h\<lparr>mh_size := n\<rparr>) s2;
            Some (Done (p, s3))
          }))"

text \<open>\<^verbatim>\<open>p->size\<close> is an \<^verbatim>\<open>int\<close>: a negative one is an index in front of \<^verbatim>\<open>cache_count\<close>.\<close>

definition efree :: "addr \<Rightarrow> memory_manager \<Rightarrow> memory_manager option" where
  "efree p s = do {
     h \<leftarrow> blocks s p;
     let n = sint (mh_size h);
     if n < int MAX_CACHED_MEMORY then
       (if n < 0 then None
        else if length (cache s ! nat n) < MAX_CACHED_ENTRIES
        then Some (s\<lparr>cache := (cache s)[nat n := p # cache s ! nat n]\<rparr>)
        else do { s1 \<leftarrow> remove_pointer_from_list p s; free_block p s1 })
     else do { s1 \<leftarrow> remove_pointer_from_list p s; free_block p s1 }
   }"

definition memset_zero :: "addr \<Rightarrow> nat \<Rightarrow> memory_manager \<Rightarrow> memory_manager option" where
  "memset_zero p n s = do {
     h \<leftarrow> blocks s p;
     if n \<le> length (mh_bytes h)
     then upd_header p (\<lambda>h. h\<lparr>mh_bytes := replicate n (Some NUL) @ drop n (mh_bytes h)\<rparr>) s
     else None
   }"

text \<open>\<^verbatim>\<open>final_size\<close> is an \<^verbatim>\<open>int\<close>; it is converted back for \<^verbatim>\<open>emalloc\<close> and \<^verbatim>\<open>memset\<close>.\<close>

definition ecalloc :: "ulong \<Rightarrow> ulong \<Rightarrow> addr option \<Rightarrow> memory_manager \<Rightarrow> (addr \<times> memory_manager) outcome option" where
  "ecalloc nmemb n answer s = do {
     let final_size = n * nmemb;
     r \<leftarrow> emalloc final_size answer s;
     (case r of
        Exited \<Rightarrow> Some Exited
      | Done (p, s1) \<Rightarrow> do { s2 \<leftarrow> memset_zero p (unat final_size) s1; Some (Done (p, s2)) })
   }"

definition erealloc ::
    "addr option \<Rightarrow> ulong \<Rightarrow> addr option \<Rightarrow> memory_manager \<Rightarrow> (addr \<times> memory_manager) outcome option" where
  "erealloc ptr n answer s =
     (case ptr of
        None \<Rightarrow> emalloc n answer s
      | Some p \<Rightarrow> do {
          s1 \<leftarrow> remove_pointer_from_list p s;
          (case answer of
             None \<Rightarrow> Some Exited
           | Some q \<Rightarrow> do {
               s2 \<leftarrow> realloc_block p q (unat n) s1;
               s3 \<leftarrow> add_to_list q s2;
               s4 \<leftarrow> upd_header q (\<lambda>h. h\<lparr>mh_size := n\<rparr>) s3;
               Some (Done (q, s4))
             })
        })"

definition memcpy_to :: "addr \<Rightarrow> string \<Rightarrow> memory_manager \<Rightarrow> memory_manager option" where
  "memcpy_to p cs s = do {
     h \<leftarrow> blocks s p;
     if length cs \<le> length (mh_bytes h)
     then upd_header p (\<lambda>h. h\<lparr>mh_bytes := map Some cs @ drop (length cs) (mh_bytes h)\<rparr>) s
     else None
   }"

text \<open>The argument of \<open>estrdup\<close> is the string up to its NUL; that of \<open>estrndup\<close> the bytes that may be read.\<close>

definition estrdup :: "string \<Rightarrow> addr option \<Rightarrow> memory_manager \<Rightarrow> (addr \<times> memory_manager) outcome option" where
  "estrdup cs answer s = do {
     r \<leftarrow> emalloc (of_nat (length cs + 1)) answer s;
     (case r of
        Exited \<Rightarrow> Some Exited
      | Done (p, s1) \<Rightarrow> do { s2 \<leftarrow> memcpy_to p (cs @ [NUL]) s1; Some (Done (p, s2)) })
   }"

definition estrndup :: "string \<Rightarrow> nat \<Rightarrow> addr option \<Rightarrow> memory_manager \<Rightarrow> (addr \<times> memory_manager) outcome option" where
  "estrndup cs n answer s = do {
     r \<leftarrow> emalloc (of_nat n + 1) answer s;
     (case r of
        Exited \<Rightarrow> Some Exited
      | Done (p, s1) \<Rightarrow>
          if length cs < n then None
          else do { s2 \<leftarrow> memcpy_to p (take n cs @ [NUL]) s1; Some (Done (p, s2)) })
   }"

subsection \<open>The end of a request\<close>

fun free_cached :: "addr list \<Rightarrow> memory_manager \<Rightarrow> memory_manager option" where
  "free_cached [] s = Some s"
| "free_cached (p # ps) s = do {
     s1 \<leftarrow> remove_pointer_from_list p s;
     s2 \<leftarrow> free_block p s1;
     free_cached ps s2
   }"

partial_function (option) free_list :: "addr option \<Rightarrow> memory_manager \<Rightarrow> memory_manager option" where
  "free_list t s =
     (case t of
        None \<Rightarrow> Some s
      | Some a \<Rightarrow>
          (case blocks s a of
             None \<Rightarrow> None
           | Some h \<Rightarrow> (case free_block a s of None \<Rightarrow> None | Some s1 \<Rightarrow> free_list (mh_next h) s1)))"

text \<open>The caches are freed in the order of their sizes, the oldest entry of each first.\<close>

definition shutdown_memory_manager :: "memory_manager \<Rightarrow> memory_manager option" where
  "shutdown_memory_manager s = do {
     s1 \<leftarrow> free_cached (concat (map rev (cache s))) s;
     free_list (head s1) s1
   }"

end
