(* ===== verification/Alloc_Facts.thy ===== *)
theory Alloc_Facts
  imports Alloc_Model
begin

text \<open>The list of blocks and the invariant of the memory manager.\<close>

subsection \<open>Doubly linked segments\<close>

text \<open>\<open>seg m l p xs q\<close>: from \<open>p\<close> the blocks \<open>xs\<close> are linked in both directions, behind \<open>l\<close> and in front of \<open>q\<close>.\<close>

fun seg :: "(addr \<Rightarrow> mem_header option) \<Rightarrow> addr option \<Rightarrow> addr option \<Rightarrow> addr list \<Rightarrow> addr option \<Rightarrow> bool" where
  "seg m l p [] q \<longleftrightarrow> p = q"
| "seg m l p (a # xs) q \<longleftrightarrow> p = Some a \<and> (\<exists>h. m a = Some h \<and> mh_last h = l \<and> seg m (Some a) (mh_next h) xs q)"

definition last_of :: "addr option \<Rightarrow> addr list \<Rightarrow> addr option" where
  "last_of l xs = (if xs = [] then l else Some (List.last xs))"

lemma last_of_simps [simp]: "last_of l [] = l" "last_of l (a # xs) = last_of (Some a) xs"
  "last_of l (xs @ [a]) = Some a"
  by (simp_all add: last_of_def)

definition links :: "(addr \<Rightarrow> mem_header option) \<Rightarrow> addr \<Rightarrow> (addr option \<times> addr option) option" where
  "links m a = map_option (\<lambda>h. (mh_next h, mh_last h)) (m a)"

lemma seg_cong: "\<forall>a \<in> set xs. links m a = links m' a \<Longrightarrow> seg m l p xs q = seg m' l p xs q"
proof (induction xs arbitrary: l p)
  case (Cons a xs)
  then have IH: "seg m l p xs q = seg m' l p xs q" for l p by simp
  have "links m a = links m' a" using Cons.prems by simp
  then show ?case by (cases "m a"; cases "m' a") (auto simp: links_def IH)
qed simp

lemma seg_append: "seg m l p (xs @ ys) q \<longleftrightarrow> (\<exists>r. seg m l p xs r \<and> seg m (last_of l xs) r ys q)"
  by (induction xs arbitrary: l p) auto

lemma seg_other: "b \<notin> set xs \<Longrightarrow> seg (m(b := v)) l p xs q = seg m l p xs q"
  by (rule seg_cong) (simp add: links_def)

lemma seg_upd_next:
  assumes "seg m l p (xs @ [b]) q" "b \<notin> set xs" "m b = Some h"
  shows "seg (m(b \<mapsto> h\<lparr>mh_next := q'\<rparr>)) l p (xs @ [b]) q'"
  using assms by (auto simp: seg_append seg_other)

lemma seg_upd_last:
  assumes "seg m l (Some b) (b # xs) q" "b \<notin> set xs" "m b = Some h"
  shows "seg (m(b \<mapsto> h\<lparr>mh_last := l'\<rparr>)) l' (Some b) (b # xs) q"
  using assms by (auto simp: seg_other)

subsection \<open>Linking and unlinking\<close>

definition linked :: "memory_manager \<Rightarrow> addr list \<Rightarrow> bool" where
  "linked s xs \<longleftrightarrow> seg (blocks s) None (head s) xs None"

text \<open>What a block holds besides its links.\<close>

definition payload :: "memory_manager \<Rightarrow> addr \<Rightarrow> (ulong \<times> char option list) option" where
  "payload s a = map_option (\<lambda>h. (mh_size h, mh_bytes h)) (blocks s a)"

text \<open>\<open>s'\<close> differs from \<open>s\<close> in links only.\<close>

definition relinked :: "memory_manager \<Rightarrow> memory_manager \<Rightarrow> bool" where
  "relinked s s' \<longleftrightarrow> cache s' = cache s \<and> payload s' = payload s"

lemma relinked_refl [simp]: "relinked s s" by (simp add: relinked_def)

lemma relinked_trans [trans]: "relinked s t \<Longrightarrow> relinked t u \<Longrightarrow> relinked s u" by (simp add: relinked_def)

lemma relinked_blocks: "relinked s s' \<Longrightarrow> (blocks s' a = None) = (blocks s a = None)"
proof -
  assume "relinked s s'"
  then have "payload s' a = payload s a" by (simp add: relinked_def)
  then show ?thesis unfolding payload_def by (cases "blocks s a"; cases "blocks s' a") auto
qed

lemma upd_header_links:
  assumes "blocks s p = Some h" "\<And>g. mh_size (f g) = mh_size g \<and> mh_bytes (f g) = mh_bytes g"
  shows "\<exists>s'. upd_header p f s = Some s' \<and> relinked s s' \<and> head s' = head s \<and> blocks s' = (blocks s)(p \<mapsto> f h)"
  using assms by (auto simp: upd_header_def relinked_def payload_def fun_eq_iff)

lemma linked_split:
  assumes "linked s (ys @ p # zs)"
  obtains h where "blocks s p = Some h" "mh_last h = last_of None ys" "seg (blocks s) None (head s) ys (Some p)"
    "seg (blocks s) (Some p) (mh_next h) zs None"
  using assms by (auto simp: linked_def seg_append)

lemma remove_pointer_from_list_ok:
  assumes l: "linked s (ys @ p # zs)" and d: "distinct (ys @ p # zs)"
  shows "\<exists>s'. remove_pointer_from_list p s = Some s' \<and> linked s' (ys @ zs) \<and> relinked s s'"
proof -
  obtain h where h: "blocks s p = Some h" "mh_last h = last_of None ys" "seg (blocks s) None (head s) ys (Some p)"
    "seg (blocks s) (Some p) (mh_next h) zs None" using l by (rule linked_split)
  have "\<exists>s1. (if head s = Some p then Some (s\<lparr>head := mh_next h\<rparr>)
            else do { l \<leftarrow> mh_last h; upd_header l (\<lambda>g. g\<lparr>mh_next := mh_next h\<rparr>) s }) = Some s1 \<and> relinked s s1 \<and>
      seg (blocks s1) None (head s1) ys (mh_next h) \<and> blocks s1 p = Some h \<and> seg (blocks s1) (Some p) (mh_next h) zs None"
  proof (cases ys rule: rev_cases)
    case Nil
    then have "head s = Some p" using h(3) by simp
    then show ?thesis using h Nil by (auto simp: relinked_def payload_def fun_eq_iff)
  next
    case (snoc us b)
    have b: "b \<notin> set us" "b \<noteq> p" "b \<notin> set zs" using d snoc by auto
    have "p \<notin> set ys" using d by auto
    moreover have "head s \<noteq> None \<and> the (head s) \<in> set ys" using h(3) snoc by (cases us) auto
    ultimately have hd: "head s \<noteq> Some p" by auto
    obtain g where g: "blocks s b = Some g" using h(3) snoc by (auto simp: seg_append)
    have "seg ((blocks s)(b \<mapsto> g\<lparr>mh_next := mh_next h\<rparr>)) None (head s) (us @ [b]) (mh_next h)"
      using h(3) b(1) g unfolding snoc by (rule seg_upd_next)
    then show ?thesis
      using upd_header_links[OF g, of "\<lambda>g. g\<lparr>mh_next := mh_next h\<rparr>"] hd h b snoc
      by (auto simp: seg_other simp del: seg.simps)
  qed
  then obtain s1 where s1: "(if head s = Some p then Some (s\<lparr>head := mh_next h\<rparr>)
            else do { l \<leftarrow> mh_last h; upd_header l (\<lambda>g. g\<lparr>mh_next := mh_next h\<rparr>) s }) = Some s1" "relinked s s1"
    "seg (blocks s1) None (head s1) ys (mh_next h)" "blocks s1 p = Some h" "seg (blocks s1) (Some p) (mh_next h) zs None"
    by blast
  have "\<exists>s2. (case mh_next h of None \<Rightarrow> Some s1 | Some n \<Rightarrow> upd_header n (\<lambda>g. g\<lparr>mh_last := mh_last h\<rparr>) s1) = Some s2 \<and>
      relinked s1 s2 \<and> linked s2 (ys @ zs)"
  proof (cases zs)
    case Nil
    then show ?thesis using s1 by (auto simp: linked_def)
  next
    case (Cons n us)
    have n: "n \<notin> set us" "n \<notin> set ys" using d Cons by auto
    have nx: "mh_next h = Some n" using s1(5) Cons by simp
    obtain g where g: "blocks s1 n = Some g" using s1(5) Cons by auto
    have "seg ((blocks s1)(n \<mapsto> g\<lparr>mh_last := mh_last h\<rparr>)) (mh_last h) (Some n) (n # us) None"
      using s1(5) n(1) g unfolding Cons nx by (rule seg_upd_last)
    then show ?thesis
      using upd_header_links[OF g, of "\<lambda>g. g\<lparr>mh_last := mh_last h\<rparr>"] nx Cons s1(3) n(2) h(2)
      by (auto simp: linked_def seg_append seg_other simp del: seg.simps)
  qed
  then obtain s2 where "(case mh_next h of None \<Rightarrow> Some s1 | Some n \<Rightarrow> upd_header n (\<lambda>g. g\<lparr>mh_last := mh_last h\<rparr>) s1) = Some s2"
    "relinked s1 s2" "linked s2 (ys @ zs)" by blast
  moreover from this s1(2) have "relinked s s2" by (blast intro: relinked_trans)
  ultimately show ?thesis using h(1) s1(1,4) by (simp add: remove_pointer_from_list_def)
qed

lemma add_to_list_ok:
  assumes "linked s xs" "blocks s p \<noteq> None" "p \<notin> set xs" "distinct xs"
  shows "\<exists>s'. add_to_list p s = Some s' \<and> linked s' (p # xs) \<and> relinked s s'"
proof -
  obtain h where h: "blocks s p = Some h" using assms(2) by blast
  obtain s1 where s1: "upd_header p (\<lambda>h. h\<lparr>mh_next := head s\<rparr>) s = Some s1" "relinked s s1" "head s1 = head s"
    "blocks s1 = (blocks s)(p \<mapsto> h\<lparr>mh_next := head s\<rparr>)" using upd_header_links[OF h, of "\<lambda>h. h\<lparr>mh_next := head s\<rparr>"] by auto
  have "seg (blocks s1) None (head s) xs None" using assms(1,3) s1(4) by (simp add: linked_def seg_other)
  have "\<exists>s2. (case head s1 of None \<Rightarrow> Some s1 | Some a \<Rightarrow> upd_header a (\<lambda>h. h\<lparr>mh_last := Some p\<rparr>) s1) = Some s2 \<and>
      relinked s1 s2 \<and> blocks s2 p = Some (h\<lparr>mh_next := head s\<rparr>) \<and> seg (blocks s2) (Some p) (head s) xs None"
  proof (cases xs)
    case Nil
    then show ?thesis using assms(1) s1 by (auto simp: linked_def)
  next
    case (Cons a us)
    have a: "a \<notin> set us" "a \<noteq> p" "head s = Some a" using assms Cons by (auto simp: linked_def)
    obtain g where g: "blocks s1 a = Some g" using assms(1) Cons s1(4) a by (auto simp: linked_def)
    have "seg ((blocks s1)(a \<mapsto> g\<lparr>mh_last := Some p\<rparr>)) (Some p) (Some a) (a # us) None"
      using \<open>seg (blocks s1) None (head s) xs None\<close> a(1) g unfolding Cons a(3) by (rule seg_upd_last)
    then show ?thesis
      using upd_header_links[OF g, of "\<lambda>g. g\<lparr>mh_last := Some p\<rparr>"] a Cons s1(3,4)
      by (auto simp del: seg.simps)
  qed
  then obtain s2 where s2: "(case head s1 of None \<Rightarrow> Some s1 | Some a \<Rightarrow> upd_header a (\<lambda>h. h\<lparr>mh_last := Some p\<rparr>) s1) = Some s2"
    "relinked s1 s2" "blocks s2 p = Some (h\<lparr>mh_next := head s\<rparr>)" "seg (blocks s2) (Some p) (head s) xs None" by blast
  obtain s3 where s3: "upd_header p (\<lambda>h. h\<lparr>mh_last := None\<rparr>) s2 = Some s3" "relinked s2 s3"
    "blocks s3 = (blocks s2)(p \<mapsto> h\<lparr>mh_next := head s, mh_last := None\<rparr>)"
    using upd_header_links[OF s2(3), of "\<lambda>h. h\<lparr>mh_last := None\<rparr>"] by force
  have "add_to_list p s = Some (s3\<lparr>head := Some p\<rparr>)" using s1(1) s2(1) s3(1) by (simp add: add_to_list_def)
  moreover have "linked (s3\<lparr>head := Some p\<rparr>) (p # xs)" using s2(4) s3(3) assms(3) by (simp add: linked_def seg_other)
  moreover have "relinked s (s3\<lparr>head := Some p\<rparr>)" using s1(2) s2(2) s3(2)
    by (auto simp: relinked_def payload_def fun_eq_iff)
  ultimately show ?thesis by blast
qed

subsection \<open>The invariant\<close>

definition cached :: "memory_manager \<Rightarrow> addr set" where
  "cached s = (\<Union>ps \<in> set (cache s). set ps)"

text \<open>What the script has allocated: the blocks that are not in a cache.\<close>

definition live :: "memory_manager \<Rightarrow> addr \<Rightarrow> char option list option" where
  "live s a = (if a \<in> cached s then None else map_option snd (payload s a))"

definition caches_ok :: "memory_manager \<Rightarrow> bool" where
  "caches_ok s \<longleftrightarrow> length (cache s) = MAX_CACHED_MEMORY \<and>
     (\<forall>i < MAX_CACHED_MEMORY. distinct (cache s ! i) \<and> length (cache s ! i) \<le> MAX_CACHED_ENTRIES \<and>
        (\<forall>a \<in> set (cache s ! i). \<exists>bs. payload s a = Some (of_nat i, bs)))"

definition sizes_ok :: "memory_manager \<Rightarrow> bool" where
  "sizes_ok s \<longleftrightarrow> (\<forall>a n bs. payload s a = Some (n, bs) \<longrightarrow> length bs = unat n \<and> unat n < 2 ^ 31)"

definition mm_inv :: "memory_manager \<Rightarrow> bool" where
  "mm_inv s \<longleftrightarrow> caches_ok s \<and> sizes_ok s \<and> (\<exists>xs. linked s xs \<and> distinct xs \<and> dom (blocks s) = set xs)"

lemma relinked_inv:
  assumes "relinked s s'"
  shows "caches_ok s' = caches_ok s" "sizes_ok s' = sizes_ok s" "cached s' = cached s" "live s' = live s"
    "dom (blocks s') = dom (blocks s)"
  using assms
  by (auto simp: relinked_def caches_ok_def sizes_ok_def cached_def live_def fun_eq_iff)
    (metis relinked_blocks[OF assms] option.exhaust)+

lemma payload_none: "payload s a = None \<longleftrightarrow> blocks s a = None"
  by (simp add: payload_def)

lemma manager_start_ok: "mm_inv start_memory_manager" "live start_memory_manager = Map.empty"
  by (auto simp: mm_inv_def start_memory_manager_def caches_ok_def sizes_ok_def payload_def linked_def live_def
      fun_eq_iff intro!: exI[of _ "[]"])

text \<open>A cached block is in the cache of its size and nowhere else.\<close>

lemma cached_size:
  assumes "caches_ok s" "a \<in> cached s"
  obtains i bs where "i < MAX_CACHED_MEMORY" "a \<in> set (cache s ! i)" "payload s a = Some (of_nat i, bs)"
proof -
  have "\<exists>i < MAX_CACHED_MEMORY. a \<in> set (cache s ! i)"
    using assms unfolding cached_def caches_ok_def set_conv_nth[of "cache s"] by auto
  then show ?thesis using assms(1) that unfolding caches_ok_def by metis
qed

lemma cached_of_size:
  assumes "caches_ok s" "payload s a = Some (of_nat i, bs)" "i < MAX_CACHED_MEMORY"
  shows "a \<in> cached s \<longleftrightarrow> a \<in> set (cache s ! i)"
proof
  assume "a \<in> cached s"
  then obtain j cs where j: "j < MAX_CACHED_MEMORY" "a \<in> set (cache s ! j)" "payload s a = Some (of_nat j, cs)"
    by (rule cached_size[OF assms(1)])
  have "(of_nat i :: ulong) = of_nat j" using assms(2) j(3) by simp
  then have "unat (of_nat i :: ulong) = unat (of_nat j :: ulong)" by simp
  then have "i = j" using j(1) assms(3) by (simp add: MAX_CACHED_MEMORY_def unat_of_nat)
  then show "a \<in> set (cache s ! i)" using j(2) by simp
next
  assume "a \<in> set (cache s ! i)"
  then show "a \<in> cached s" using assms by (auto simp: cached_def caches_ok_def)
qed

lemma live_iff: "caches_ok s \<Longrightarrow> live s a \<noteq> None \<longleftrightarrow> a \<notin> cached s \<and> blocks s a \<noteq> None"
  by (auto simp: live_def payload_def)

subsection \<open>Operations\<close>

text \<open>A block leaves the list and the heap.\<close>

lemma drop_block:
  assumes "linked s xs" "distinct xs" "dom (blocks s) = set xs" "p \<in> set xs"
  shows "\<exists>s'. do { s1 \<leftarrow> remove_pointer_from_list p s; free_block p s1 } = Some s' \<and> linked s' (remove1 p xs) \<and>
    dom (blocks s') = set (remove1 p xs) \<and> payload s' = (payload s)(p := None) \<and> cache s' = cache s"
proof -
  obtain ys zs where xs: "xs = ys @ p # zs" using split_list[OF assms(4)] by blast
  have p: "p \<notin> set ys" "p \<notin> set zs" using assms(2) xs by auto
  obtain s1 where s1: "remove_pointer_from_list p s = Some s1" "linked s1 (ys @ zs)" "relinked s s1"
    using remove_pointer_from_list_ok[of s ys p zs] assms(1,2) xs by blast
  let ?s = "s1\<lparr>blocks := (blocks s1)(p := None)\<rparr>"
  have d: "dom (blocks s1) = set xs" using relinked_inv(5)[OF s1(3)] assms(3) by simp
  then have "blocks s1 p \<noteq> None" using assms(4) by auto
  then have "free_block p s1 = Some ?s" by (simp add: free_block_def)
  moreover have "linked ?s (ys @ zs)" using s1(2) p by (simp add: linked_def seg_other)
  moreover have "remove1 p xs = ys @ zs" using p by (simp add: xs remove1_append)
  moreover have "dom (blocks ?s) = set (ys @ zs)" using d p by (auto simp: xs)
  moreover have "payload ?s = (payload s)(p := None)" "cache ?s = cache s"
    using s1(3) by (auto simp: relinked_def payload_def fun_eq_iff)
  ultimately show ?thesis using s1(1) by simp
qed

lemma sizes_ok_drop: "sizes_ok s \<Longrightarrow> payload s' = (payload s)(p := None) \<Longrightarrow> sizes_ok s'"
  by (auto simp: sizes_ok_def)

lemma caches_ok_drop:
  "caches_ok s \<Longrightarrow> payload s' = (payload s)(p := None) \<Longrightarrow> cache s' = cache s \<Longrightarrow> p \<notin> cached s \<Longrightarrow> caches_ok s'"
  by (fastforce simp: caches_ok_def cached_def)

lemma live_drop:
  "payload s' = (payload s)(p := None) \<Longrightarrow> cache s' = cache s \<Longrightarrow> live s' = (live s)(p := None)"
  by (auto simp: live_def cached_def fun_eq_iff)

text \<open>A change of one cache.\<close>

lemma cached_iff: "caches_ok s \<Longrightarrow> a \<in> cached s \<longleftrightarrow> (\<exists>i < MAX_CACHED_MEMORY. a \<in> set (cache s ! i))"
  unfolding cached_def caches_ok_def set_conv_nth[of "cache s"] by auto

lemma cached_split:
  assumes "caches_ok s" "i < MAX_CACHED_MEMORY"
  shows "cached s = set (cache s ! i) \<union> (\<Union>j \<in> {j. j < MAX_CACHED_MEMORY \<and> j \<noteq> i}. set (cache s ! j))"
  using assms(2) by (force simp: cached_iff[OF assms(1)] set_eq_iff)

lemma pop_cache:
  assumes ok: "caches_ok s" and i: "i < MAX_CACHED_MEMORY" and c: "cache s ! i = p # ps"
  defines "s' \<equiv> s\<lparr>cache := (cache s)[i := ps]\<rparr>"
  shows "caches_ok s'" "cached s' = cached s - {p}"
proof -
  have len: "length (cache s) = MAX_CACHED_MEMORY" using ok by (simp add: caches_ok_def)
  have pay: "payload s' = payload s" by (simp add: s'_def payload_def fun_eq_iff)
  have ps: "distinct (p # ps)" "length ps \<le> MAX_CACHED_ENTRIES" "\<forall>a \<in> set (p # ps). \<exists>bs. payload s a = Some (of_nat i, bs)"
    using ok i c unfolding caches_ok_def by (metis, metis Suc_leD length_Cons, metis)
  have nth: "cache s' ! j = (if j = i then ps else cache s ! j)" for j using i len by (simp add: s'_def nth_list_update)
  have "distinct (cache s' ! j) \<and> length (cache s' ! j) \<le> MAX_CACHED_ENTRIES \<and>
      (\<forall>a \<in> set (cache s' ! j). \<exists>bs. payload s a = Some (of_nat j, bs))" if "j < MAX_CACHED_MEMORY" for j
    using ok that ps by (cases "j = i") (simp_all add: nth caches_ok_def)
  then show ok': "caches_ok s'" using len pay by (simp add: caches_ok_def s'_def)
  have "p \<notin> set (cache s ! j)" if "j < MAX_CACHED_MEMORY" "j \<noteq> i" for j
  proof
    assume "p \<in> set (cache s ! j)"
    then have "\<exists>bs. payload s p = Some (of_nat j, bs)" using ok that(1) by (simp add: caches_ok_def)
    moreover have "\<exists>bs. payload s p = Some (of_nat i, bs)" using ps(3) by simp
    ultimately have "(of_nat i :: ulong) = of_nat j" by auto
    then have "unat (of_nat i :: ulong) = unat (of_nat j :: ulong)" by simp
    then show False using that i by (simp add: MAX_CACHED_MEMORY_def unat_of_nat)
  qed
  then show "cached s' = cached s - {p}"
    unfolding cached_split[OF ok' i] cached_split[OF ok i] using ps(1) c by (auto simp: nth)
qed

lemma push_cache:
  assumes ok: "caches_ok s" and i: "i < MAX_CACHED_MEMORY" and p: "payload s p = Some (of_nat i, bs)" "p \<notin> cached s"
    and l: "length (cache s ! i) < MAX_CACHED_ENTRIES"
  defines "s' \<equiv> s\<lparr>cache := (cache s)[i := p # cache s ! i]\<rparr>"
  shows "caches_ok s'" "cached s' = insert p (cached s)"
proof -
  have len: "length (cache s) = MAX_CACHED_MEMORY" using ok by (simp add: caches_ok_def)
  have pay: "payload s' = payload s" by (simp add: s'_def payload_def fun_eq_iff)
  have np: "p \<notin> set (cache s ! i)" using p(2) i by (simp add: cached_iff[OF ok])
  have nth: "cache s' ! j = (if j = i then p # cache s ! i else cache s ! j)" for j using i len by (simp add: s'_def nth_list_update)
  have "distinct (cache s' ! j) \<and> length (cache s' ! j) \<le> MAX_CACHED_ENTRIES \<and>
      (\<forall>a \<in> set (cache s' ! j). \<exists>bs. payload s a = Some (of_nat j, bs))" if "j < MAX_CACHED_MEMORY" for j
    using ok that p(1) l np by (cases "j = i") (simp_all add: nth caches_ok_def)
  then show ok': "caches_ok s'" using len pay by (simp add: caches_ok_def s'_def)
  show "cached s' = insert p (cached s)"
    unfolding cached_split[OF ok' i] cached_split[OF ok i] by (auto simp: nth)
qed

lemma sint_of_small:
  assumes "unat (w :: ulong) < 2 ^ 31"
  shows "sint w = int (unat w)"
proof -
  have "int (unat w) < int (2 ^ 31)" using assms by (simp only: of_nat_less_iff)
  then have "uint w < 2 ^ 31" by simp
  moreover have "0 \<le> uint w" by simp
  moreover have "sint w = (uint w + 2 ^ 31) mod 2 ^ 32 - 2 ^ 31"
    by (simp add: sint_uint signed_take_bit_eq_take_bit_shift take_bit_eq_mod)
  ultimately show ?thesis by simp
qed

lemma efree_ok:
  assumes inv: "mm_inv s" and l: "live s p \<noteq> None"
  shows "\<exists>s'. efree p s = Some s' \<and> mm_inv s' \<and> live s' = (live s)(p := None)"
proof -
  obtain xs where xs: "linked s xs" "distinct xs" "dom (blocks s) = set xs" using inv by (auto simp: mm_inv_def)
  have ok: "caches_ok s" "sizes_ok s" using inv by (auto simp: mm_inv_def)
  obtain h where h: "blocks s p = Some h" "p \<notin> cached s" using l live_iff[OF ok(1)] by blast
  then have pay: "payload s p = Some (mh_size h, mh_bytes h)" by (simp add: payload_def)
  then have n: "unat (mh_size h) < 2 ^ 31" using ok(2) unfolding sizes_ok_def by blast
  then have sz: "sint (mh_size h) = int (unat (mh_size h))" by (simp add: sint_of_small)
  have "p \<in> set xs" using h xs(3) by auto
  from drop_block[OF xs this] obtain s1 where s1: "do { s1 \<leftarrow> remove_pointer_from_list p s; free_block p s1 } = Some s1"
    "linked s1 (remove1 p xs)" "dom (blocks s1) = set (remove1 p xs)" "payload s1 = (payload s)(p := None)" "cache s1 = cache s"
    by blast
  have drop: "mm_inv s1" "live s1 = (live s)(p := None)"
    unfolding mm_inv_def using s1(2-5) xs(2) ok h(2) sizes_ok_drop caches_ok_drop live_drop by (metis distinct_remove1)+
  let ?n = "unat (mh_size h)"
  have eq: "efree p s = (if ?n < MAX_CACHED_MEMORY \<and> length (cache s ! ?n) < MAX_CACHED_ENTRIES
      then Some (s\<lparr>cache := (cache s)[?n := p # cache s ! ?n]\<rparr>)
      else do { s1 \<leftarrow> remove_pointer_from_list p s; free_block p s1 })"
    using h(1) by (simp add: efree_def sz Let_def del: of_nat_unat)
  show ?thesis
  proof (cases "?n < MAX_CACHED_MEMORY \<and> length (cache s ! ?n) < MAX_CACHED_ENTRIES")
    case True
    let ?s = "s\<lparr>cache := (cache s)[?n := p # cache s ! ?n]\<rparr>"
    have p: "payload s p = Some (of_nat ?n, mh_bytes h)" using pay by simp
    note c = push_cache[OF ok(1) conjunct1[OF True] p h(2) conjunct2[OF True]]
    have "payload ?s = payload s" by (simp add: payload_def fun_eq_iff)
    then have "mm_inv ?s" "live ?s = (live s)(p := None)"
      using c ok(2) xs by (auto simp: mm_inv_def sizes_ok_def linked_def live_def fun_eq_iff)
    then show ?thesis unfolding eq using True by simp
  next
    case False
    then have "efree p s = Some s1" unfolding eq using s1(1) by (simp only: if_False)
    then show ?thesis using drop by blast
  qed
qed

end
