(* ===== verification/Alloc_Properties.thy ===== *)
theory Alloc_Properties
  imports Alloc_Facts
begin

text \<open>
  What the memory manager promises: every operation on a block in use is defined and touches no other block in use,
  and the end of a request frees every block exactly once.
\<close>

subsection \<open>Allocation\<close>

lemma add_block:
  assumes "linked s xs" "distinct xs" "p \<notin> set xs" "dom (blocks s) = insert p (set xs)" "payload s p = Some (m, bs)"
  shows "\<exists>s'. do { s2 \<leftarrow> add_to_list p s; s3 \<leftarrow> upd_header p (\<lambda>h. h\<lparr>mh_size := n\<rparr>) s2; Some (Done (p, s3)) } = Some (Done (p, s')) \<and>
    linked s' (p # xs) \<and> dom (blocks s') = set (p # xs) \<and> payload s' = (payload s)(p \<mapsto> (n, bs)) \<and> cache s' = cache s"
proof -
  have "blocks s p \<noteq> None" using assms(4) by auto
  from add_to_list_ok[OF assms(1) this assms(3,2)] obtain s2 where
    s2: "add_to_list p s = Some s2" "linked s2 (p # xs)" "relinked s s2" by blast
  obtain h where h: "blocks s2 p = Some h" using s2(2) by (auto simp: linked_def)
  have "payload s2 p = payload s p" using s2(3) by (simp add: relinked_def)
  then have hb: "mh_bytes h = bs" using assms(5) h by (auto simp: payload_def)
  let ?s = "s2\<lparr>blocks := (blocks s2)(p \<mapsto> h\<lparr>mh_size := n\<rparr>)\<rparr>"
  have "upd_header p (\<lambda>h. h\<lparr>mh_size := n\<rparr>) s2 = Some ?s" using h by (simp add: upd_header_def)
  moreover have "linked ?s (p # xs)"
    using s2(2) h seg_cong[of "p # xs" "blocks s2" "blocks ?s" None "head s2" None]
    by (simp add: linked_def links_def del: seg.simps)
  moreover have "dom (blocks ?s) = set (p # xs)" using relinked_inv(5)[OF s2(3)] assms(4) by auto
  moreover have "payload ?s = (payload s)(p \<mapsto> (n, bs))" "cache ?s = cache s"
    using s2(3) hb by (auto simp: relinked_def payload_def fun_eq_iff)
  ultimately show ?thesis using s2(1) by simp
qed

lemma inv_new_block:
  assumes ok: "caches_ok s" "sizes_ok s" and p: "p \<notin> cached s" and n: "unat n < 2 ^ 31" "length bs = unat n"
    and s': "linked s' xs" "distinct xs" "dom (blocks s') = set xs" "payload s' = (payload s)(p \<mapsto> (n, bs))" "cache s' = cache s"
  shows "mm_inv s'" "live s' = (live s)(p \<mapsto> bs)"
proof -
  have "caches_ok s'" using ok(1) p s'(4,5) by (fastforce simp: caches_ok_def cached_def)
  moreover have "sizes_ok s'" using ok(2) n s'(4) by (auto simp: sizes_ok_def)
  ultimately show "mm_inv s'" using s'(1-3) by (auto simp: mm_inv_def)
  have "cached s' = cached s" using s'(5) by (simp add: cached_def)
  then show "live s' = (live s)(p \<mapsto> bs)" using p s'(4) by (auto simp: live_def fun_eq_iff)
qed

lemma cached_blocks: "caches_ok s \<Longrightarrow> a \<in> cached s \<Longrightarrow> blocks s a \<noteq> None"
  using cached_size[of s a] payload_none by (metis option.distinct(1))

lemma emalloc_ok:
  assumes inv: "mm_inv s" and n: "unat n < 2 ^ 31" and answer: "\<And>p. answer = Some p \<Longrightarrow> blocks s p = None"
  shows "emalloc n answer s = Some Exited \<and> answer = None \<or>
    (\<exists>p s' bs. emalloc n answer s = Some (Done (p, s')) \<and> mm_inv s' \<and> live s p = None \<and> length bs = unat n \<and>
       live s' = (live s)(p \<mapsto> bs))"
proof -
  obtain xs where xs: "linked s xs" "distinct xs" "dom (blocks s) = set xs" using inv by (auto simp: mm_inv_def)
  have ok: "caches_ok s" "sizes_ok s" using inv by (auto simp: mm_inv_def)
  show ?thesis
  proof (cases "unat n < MAX_CACHED_MEMORY \<and> cache s ! unat n \<noteq> []")
    case True
    then obtain p ps where c: "cache s ! unat n = p # ps" by (cases "cache s ! unat n") auto
    let ?s = "s\<lparr>cache := (cache s)[unat n := ps]\<rparr>"
    note pop = pop_cache[OF ok(1) conjunct1[OF True] c]
    have pay: "payload ?s = payload s" by (simp add: payload_def fun_eq_iff)
    have "p \<in> cached s" using True c by (auto simp: cached_iff[OF ok(1)])
    moreover have "\<exists>bs. payload s p = Some (of_nat (unat n), bs)"
      using ok(1) conjunct1[OF True] c unfolding caches_ok_def by (metis list.set_intros(1))
    then obtain bs where bs: "payload s p = Some (n, bs)" by auto
    then have "length bs = unat n" using ok(2) unfolding sizes_ok_def by blast
    moreover have "mm_inv ?s" using pop(1) ok(2) xs pay by (auto simp: mm_inv_def sizes_ok_def linked_def)
    moreover have "live ?s = (live s)(p \<mapsto> bs)" using pop(2) bs pay by (auto simp: live_def fun_eq_iff)
    moreover have "live s p = None" using \<open>p \<in> cached s\<close> by (simp add: live_def)
    ultimately show ?thesis using True c by (auto simp: emalloc_def)
  next
    case False
    show ?thesis
    proof (cases answer)
      case None
      then show ?thesis using False by (auto simp: emalloc_def)
    next
      case (Some p)
      have p: "blocks s p = None" "p \<notin> set xs" using answer[OF Some] xs(3) by auto
      let ?h = "\<lparr>mh_next = None, mh_last = None, mh_size = 0, mh_bytes = replicate (unat n) None\<rparr>"
      let ?s = "s\<lparr>blocks := (blocks s)(p \<mapsto> ?h)\<rparr>"
      have m: "malloc_block p (unat n) s = Some ?s" using p(1) by (simp add: malloc_block_def)
      have pay: "payload ?s = (payload s)(p \<mapsto> (0, replicate (unat n) None))" by (simp add: payload_def fun_eq_iff)
      have "linked ?s xs" "dom (blocks ?s) = insert p (set xs)" using xs p(2) by (auto simp: linked_def seg_other)
      with add_block[of ?s xs p 0 "replicate (unat n) None" n] xs(2) p(2) pay obtain s' where
        s': "do { s2 \<leftarrow> add_to_list p ?s; s3 \<leftarrow> upd_header p (\<lambda>h. h\<lparr>mh_size := n\<rparr>) s2; Some (Done (p, s3)) } = Some (Done (p, s'))"
        "linked s' (p # xs)" "dom (blocks s') = set (p # xs)" "payload s' = (payload s)(p \<mapsto> (n, replicate (unat n) None))"
        "cache s' = cache s" by auto
      have "p \<notin> cached s" using p(1) cached_blocks[OF ok(1)] by blast
      from inv_new_block[OF ok this n _ s'(2) _ s'(3-5)] xs(2) p(2)
      have "mm_inv s'" "live s' = (live s)(p \<mapsto> replicate (unat n) None)" by auto
      moreover have "live s p = None" using p(1) by (simp add: live_def payload_def)
      moreover have "emalloc n answer s = Some (Done (p, s'))" 
        unfolding emalloc_def if_not_P[OF False] using Some m s'(1) by (simp del: fun_upd_apply)
      ultimately show ?thesis by (intro disjI2 exI[of _ p] exI[of _ s'] exI[of _ "replicate (unat n) None"]) simp
    qed
  qed
qed

lemma erealloc_ok:
  assumes inv: "mm_inv s" and n: "unat n < 2 ^ 31" and l: "live s p = Some bs"
    and answer: "\<And>q. answer = Some q \<Longrightarrow> q = p \<or> blocks s q = None"
  shows "(case answer of
      None \<Rightarrow> erealloc (Some p) n answer s = Some Exited
    | Some q \<Rightarrow> \<exists>s'. erealloc (Some p) n answer s = Some (Done (q, s')) \<and> mm_inv s' \<and>
        live s' = (live s)(p := None, q \<mapsto> resized (unat n) bs))"
proof -
  obtain xs where xs: "linked s xs" "distinct xs" "dom (blocks s) = set xs" using inv by (auto simp: mm_inv_def)
  have ok: "caches_ok s" "sizes_ok s" using inv by (auto simp: mm_inv_def)
  have p: "p \<notin> cached s" "payload s p \<noteq> None" "map_option snd (payload s p) = Some bs"
    using l by (auto simp: live_def split: if_splits)
  then have "p \<in> set xs" using xs(3) by (auto simp: payload_def)
  then obtain ys zs where yz: "xs = ys @ p # zs" using split_list by fast
  have d: "distinct (ys @ zs)" "p \<notin> set (ys @ zs)" using xs(2) yz by auto
  obtain s1 where s1: "remove_pointer_from_list p s = Some s1" "linked s1 (ys @ zs)" "relinked s s1"
    using remove_pointer_from_list_ok[of s ys p zs] xs(1,2) yz by blast
  show ?thesis
  proof (cases answer)
    case None
    then show ?thesis using s1(1) by (simp add: erealloc_def)
  next
    case (Some q)
    have dom1: "dom (blocks s1) = set xs" using relinked_inv(5)[OF s1(3)] xs(3) by simp
    have q: "q = p \<or> blocks s1 q = None" using answer[OF Some] relinked_blocks[OF s1(3), of q] by simp
    then have q': "q \<notin> set (ys @ zs)" using d(2) dom1 yz by auto
    obtain h where h: "blocks s1 p = Some h" using dom1 yz by auto
    have "payload s1 p = payload s p" using s1(3) by (simp add: relinked_def)
    then have hb: "mh_bytes h = bs" using p(3) h by (auto simp: payload_def)
    let ?bs = "resized (unat n) bs"
    let ?s = "s1\<lparr>blocks := (blocks s1)(p := None, q \<mapsto> h\<lparr>mh_bytes := ?bs\<rparr>)\<rparr>"
    have r: "realloc_block p q (unat n) s1 = Some ?s" using h q hb by (auto simp: realloc_block_def)
    have "linked ?s (ys @ zs)" using s1(2) d(2) q' by (simp add: linked_def seg_other)
    moreover have "dom (blocks ?s) = insert q (set (ys @ zs))" using dom1 yz d(2) by auto
    moreover have pay: "payload ?s = (payload s)(p := None, q \<mapsto> (mh_size h, ?bs))"
      using s1(3) by (auto simp: relinked_def payload_def fun_eq_iff)
    ultimately obtain s' where
      s': "do { s2 \<leftarrow> add_to_list q ?s; s3 \<leftarrow> upd_header q (\<lambda>h. h\<lparr>mh_size := n\<rparr>) s2; Some (Done (q, s3)) } = Some (Done (q, s'))"
      "linked s' (q # ys @ zs)" "dom (blocks s') = set (q # ys @ zs)" "payload s' = (payload s)(p := None, q \<mapsto> (n, ?bs))"
      "cache s' = cache s"
      using add_block[of ?s "ys @ zs" q "mh_size h" ?bs n] d(1) q' s1(3) by (auto simp: relinked_def)
    define t where "t = s\<lparr>blocks := (blocks s)(p := None)\<rparr>"
    have t: "payload t = (payload s)(p := None)" "cache t = cache s" by (auto simp: t_def payload_def fun_eq_iff)
    have ct: "cached t = cached s" using t(2) by (simp add: cached_def)
    have "q \<notin> cached s" using answer[OF Some] p(1) cached_blocks[OF ok(1)] by blast
    then have qt: "q \<notin> cached t" by (simp add: ct)
    have len: "length ?bs = unat n" by (simp add: resized_def)
    have dd: "distinct (q # ys @ zs)" using d(1) q' by simp
    have pt: "payload s' = (payload t)(q \<mapsto> (n, ?bs))" "cache s' = cache t" using s'(4,5) t by simp_all
    note new = inv_new_block[OF caches_ok_drop[OF ok(1) t p(1)] sizes_ok_drop[OF ok(2) t(1)] qt n len s'(2) dd s'(3) pt]
    have "live t = (live s)(p := None)" by (rule live_drop[OF t])
    then have "mm_inv s'" "live s' = (live s)(p := None, q \<mapsto> ?bs)" using new by simp_all
    moreover have "erealloc (Some p) n answer s = Some (Done (q, s'))"
      using Some s1(1) r s'(1) by (simp add: erealloc_def del: fun_upd_apply)
    ultimately show ?thesis using Some by simp
  qed
qed

text \<open>The bytes of a block in use.\<close>

lemma live_payload:
  assumes "sizes_ok s" "live s p = Some bs"
  obtains h where "blocks s p = Some h" "p \<notin> cached s" "mh_bytes h = bs" "length bs = unat (mh_size h)"
proof -
  obtain h where h: "blocks s p = Some h" "p \<notin> cached s" "mh_bytes h = bs"
    using assms(2) by (auto simp: live_def payload_def split: if_splits)
  then have "payload s p = Some (mh_size h, bs)" by (simp add: payload_def)
  then have "length bs = unat (mh_size h)" using assms(1) unfolding sizes_ok_def by blast
  then show ?thesis using h that by blast
qed

lemma write_bytes:
  assumes inv: "mm_inv s" and l: "live s p = Some bs" and f: "length (f bs) = length bs"
  shows "\<exists>s'. upd_header p (\<lambda>h. h\<lparr>mh_bytes := f (mh_bytes h)\<rparr>) s = Some s' \<and> mm_inv s' \<and> live s' = (live s)(p \<mapsto> f bs)"
proof -
  obtain xs where xs: "linked s xs" "distinct xs" "dom (blocks s) = set xs" using inv by (auto simp: mm_inv_def)
  have ok: "caches_ok s" "sizes_ok s" using inv by (auto simp: mm_inv_def)
  obtain h where h: "blocks s p = Some h" "p \<notin> cached s" "mh_bytes h = bs" "length bs = unat (mh_size h)"
    using live_payload[OF ok(2) l] by blast
  have pay: "payload s p = Some (mh_size h, bs)" using h by (simp add: payload_def)
  then have n: "unat (mh_size h) < 2 ^ 31" using ok(2) unfolding sizes_ok_def by blast
  let ?s = "s\<lparr>blocks := (blocks s)(p \<mapsto> h\<lparr>mh_bytes := f bs\<rparr>)\<rparr>"
  have "linked ?s xs"
    using xs(1) h seg_cong[of xs "blocks s" "blocks ?s" None "head s" None] by (simp add: linked_def links_def)
  moreover have "dom (blocks ?s) = set xs" using xs(3) h by auto
  moreover have "payload ?s = (payload s)(p \<mapsto> (mh_size h, f bs))" by (auto simp: payload_def fun_eq_iff)
  ultimately have "mm_inv ?s" "live ?s = (live s)(p \<mapsto> f bs)"
    using inv_new_block[OF ok h(2) n _ _ xs(2), of "f bs" ?s] f h(4) by simp_all
  then show ?thesis using h by (simp add: upd_header_def)
qed

lemma fill_new_block:
  assumes inv: "mm_inv s" and n: "unat n < 2 ^ 31" and answer: "\<And>p. answer = Some p \<Longrightarrow> blocks s p = None"
    and len: "length cs \<le> unat n"
  shows "emalloc n answer s = Some Exited \<and> answer = None \<or>
    (\<exists>p s1 s'. emalloc n answer s = Some (Done (p, s1)) \<and> live s p = None \<and>
       upd_header p (\<lambda>h. h\<lparr>mh_bytes := cs @ drop (length cs) (mh_bytes h)\<rparr>) s1 = Some s' \<and>
       (\<exists>h. blocks s1 p = Some h \<and> length (mh_bytes h) = unat n) \<and> mm_inv s' \<and>
       (\<exists>rest. live s' = (live s)(p \<mapsto> cs @ rest) \<and> length rest = unat n - length cs))"
proof (cases "emalloc n answer s = Some Exited \<and> answer = None")
  case False
  with emalloc_ok[OF inv n answer] obtain p s1 bs where e: "emalloc n answer s = Some (Done (p, s1))" "mm_inv s1"
    "live s p = None" "length bs = unat n" "live s1 = (live s)(p \<mapsto> bs)" by blast
  have "live s1 p = Some bs" using e(5) by simp
  from write_bytes[OF e(2) this, of "\<lambda>bs. cs @ drop (length cs) bs"] len e(4) obtain s' where
    s': "upd_header p (\<lambda>h. h\<lparr>mh_bytes := cs @ drop (length cs) (mh_bytes h)\<rparr>) s1 = Some s'" "mm_inv s'"
    "live s' = (live s1)(p \<mapsto> cs @ drop (length cs) bs)" by auto
  have "sizes_ok s1" using e(2) by (simp add: mm_inv_def)
  from live_payload[OF this \<open>live s1 p = Some bs\<close>] obtain h where h: "blocks s1 p = Some h" "mh_bytes h = bs" by metis
  have "live s' = (live s)(p \<mapsto> cs @ drop (length cs) bs)" using s'(3) e(5) by simp
  moreover have "length (drop (length cs) bs) = unat n - length cs" using e(4) by simp
  ultimately show ?thesis using e h s'(1,2) by blast
qed blast

subsection \<open>The end of a request\<close>

lemma free_cached_ok:
  assumes "linked s xs" "distinct xs" "dom (blocks s) = set xs" "distinct ps" "set ps \<subseteq> set xs"
  shows "\<exists>s' ys. free_cached ps s = Some s' \<and> linked s' ys \<and> distinct ys \<and> dom (blocks s') = set ys \<and>
    set ys = set xs - set ps"
  using assms
proof (induction ps arbitrary: s xs)
  case (Cons p ps)
  from drop_block[OF Cons.prems(1-3), of p] Cons.prems(5) obtain s2 where
    s2: "do { s1 \<leftarrow> remove_pointer_from_list p s; free_block p s1 } = Some s2" "linked s2 (remove1 p xs)"
    "dom (blocks s2) = set (remove1 p xs)" by auto
  have "free_cached (p # ps) s = free_cached ps s2" using s2(1) by (cases "remove_pointer_from_list p s") simp_all
  moreover have "set ps \<subseteq> set (remove1 p xs)" using Cons.prems(2,4,5) by auto
  from Cons.IH[OF s2(2) _ s2(3) _ this] Cons.prems(2,4) obtain s' ys where
    "free_cached ps s2 = Some s'" "linked s' ys" "distinct ys" "dom (blocks s') = set ys" "set ys = set (remove1 p xs) - set ps"
    by auto
  ultimately show ?case using Cons.prems(2) by (intro exI[of _ s'] exI[of _ ys]) auto
qed auto

lemma free_list_ok:
  "seg (blocks s) l p xs None \<Longrightarrow> distinct xs \<Longrightarrow>
     \<exists>s'. free_list p s = Some s' \<and> blocks s' = blocks s |` (- set xs)"
proof (induction xs arbitrary: l p s)
  case Nil
  then show ?case by (simp add: free_list.simps restrict_map_def)
next
  case (Cons a xs)
  then obtain h where h: "p = Some a" "blocks s a = Some h" "seg (blocks s) (Some a) (mh_next h) xs None" by auto
  let ?s = "s\<lparr>blocks := (blocks s)(a := None)\<rparr>"
  have "seg (blocks ?s) (Some a) (mh_next h) xs None" using h(3) Cons.prems(2) by (simp add: seg_other)
  from Cons.IH[OF this] Cons.prems(2) obtain s' where
    "free_list (mh_next h) ?s = Some s'" "blocks s' = blocks ?s |` (- set xs)" by (auto simp del: fun_upd_apply memory_manager.simps)
  moreover have "free_list p s = free_list (mh_next h) ?s" using h(1,2) by (subst free_list.simps) (simp add: free_block_def)
  moreover have "blocks ?s |` (- set xs) = blocks s |` (- set (a # xs))" by (auto simp: restrict_map_def fun_eq_iff)
  ultimately show ?case by simp
qed

lemma distinct_concat_disjoint:
  "(\<And>i. i < length c \<Longrightarrow> distinct (c ! i)) \<Longrightarrow>
   (\<And>i j. i < length c \<Longrightarrow> j < length c \<Longrightarrow> i \<noteq> j \<Longrightarrow> set (c ! i) \<inter> set (c ! j) = {}) \<Longrightarrow> distinct (concat c)"
proof (induction c)
  case (Cons x c)
  have "distinct (concat c)"
    using Cons.prems(1)[of "Suc _"] Cons.prems(2)[of "Suc _" "Suc _"] by (intro Cons.IH) auto
  moreover have "set x \<inter> set (c ! j) = {}" if "j < length c" for j using Cons.prems(2)[of 0 "Suc j"] that by auto
  then have "set x \<inter> set (concat c) = {}" by (auto simp: set_conv_nth[of c])
  ultimately show ?case using Cons.prems(1)[of 0] by auto
qed simp

lemma cached_order:
  assumes ok: "caches_ok s"
  shows "distinct (concat (map rev (cache s)))" "set (concat (map rev (cache s))) = cached s"
proof -
  have len: "length (cache s) = MAX_CACHED_MEMORY" using ok by (simp add: caches_ok_def)
  have "a \<notin> set (cache s ! j)" if "i < MAX_CACHED_MEMORY" "j < MAX_CACHED_MEMORY" "i \<noteq> j" "a \<in> set (cache s ! i)" for a i j
  proof
    assume "a \<in> set (cache s ! j)"
    then have "\<exists>bs. payload s a = Some (of_nat j, bs)" "\<exists>bs. payload s a = Some (of_nat i, bs)"
      using ok that unfolding caches_ok_def by blast+
    then have "(of_nat i :: ulong) = of_nat j" by auto
    then have "unat (of_nat i :: ulong) = unat (of_nat j :: ulong)" by simp
    then show False using that by (simp add: MAX_CACHED_MEMORY_def unat_of_nat)
  qed
  then show "distinct (concat (map rev (cache s)))"
    using ok by (intro distinct_concat_disjoint) (auto simp: len caches_ok_def)
  show "set (concat (map rev (cache s))) = cached s" by (simp add: cached_def)
qed

lemma shutdown_ok:
  assumes inv: "mm_inv s"
  shows "\<exists>s'. shutdown_memory_manager s = Some s' \<and> blocks s' = Map.empty"
proof -
  obtain xs where xs: "linked s xs" "distinct xs" "dom (blocks s) = set xs" using inv by (auto simp: mm_inv_def)
  have ok: "caches_ok s" using inv by (auto simp: mm_inv_def)
  have "set (concat (map rev (cache s))) \<subseteq> set xs"
    using cached_blocks[OF ok] xs(3) unfolding cached_order(2)[OF ok] by blast
  from free_cached_ok[OF xs cached_order(1)[OF ok] this] obtain s1 ys where
    s1: "free_cached (concat (map rev (cache s))) s = Some s1" "linked s1 ys" "distinct ys" "dom (blocks s1) = set ys" by blast
  from free_list_ok[OF s1(2)[unfolded linked_def] s1(3)] obtain s' where
    s': "free_list (head s1) s1 = Some s'" "blocks s' = blocks s1 |` (- set ys)" by blast
  have "blocks s' = Map.empty" using s'(2) s1(4) by (auto simp: restrict_map_def fun_eq_iff domIff)
  then show ?thesis using s1(1) s'(1) by (simp add: shutdown_memory_manager_def)
qed

subsection \<open>Properties\<close>

text \<open>An answer that \<^verbatim>\<open>malloc\<close> can give.\<close>

definition can_answer :: "addr option \<Rightarrow> memory_manager \<Rightarrow> bool" where
  "can_answer answer s \<longleftrightarrow> (\<forall>p. answer = Some p \<longrightarrow> blocks s p = None)"

text \<open>
  A request: the script allocates less than 2 GB at a time, and frees and resizes blocks that are in use.
\<close>

inductive mm_step :: "memory_manager \<Rightarrow> memory_manager \<Rightarrow> bool" where
  malloc: "unat n < 2 ^ 31 \<Longrightarrow> can_answer answer s \<Longrightarrow> emalloc n answer s = Some (Done (p, s')) \<Longrightarrow> mm_step s s'"
| calloc: "unat (n * k) < 2 ^ 31 \<Longrightarrow> can_answer answer s \<Longrightarrow> ecalloc k n answer s = Some (Done (p, s')) \<Longrightarrow> mm_step s s'"
| strndup: "k < 2 ^ 31 - 1 \<Longrightarrow> k \<le> length cs \<Longrightarrow> can_answer answer s \<Longrightarrow> estrndup cs k answer s = Some (Done (p, s')) \<Longrightarrow>
    mm_step s s'"
| realloc: "unat n < 2 ^ 31 \<Longrightarrow> live s p \<noteq> None \<Longrightarrow> answer = Some p \<or> can_answer answer s \<Longrightarrow>
    erealloc (Some p) n answer s = Some (Done (q, s')) \<Longrightarrow> mm_step s s'"
| free: "live s p \<noteq> None \<Longrightarrow> efree p s = Some s' \<Longrightarrow> mm_step s s'"

lemma ecalloc_inv:
  assumes inv: "mm_inv s" and n: "unat (n * k) < 2 ^ 31" and answer: "can_answer answer s"
  shows "ecalloc k n answer s = Some Exited \<and> answer = None \<or>
    (\<exists>p s'. ecalloc k n answer s = Some (Done (p, s')) \<and> mm_inv s' \<and> live s p = None \<and>
       live s' = (live s)(p \<mapsto> replicate (unat (n * k)) (Some NUL)))"
  using fill_new_block[OF inv n, of answer "replicate (unat (n * k)) (Some NUL)"] answer
  by (fastforce simp: ecalloc_def memset_zero_def can_answer_def)

lemma estrndup_inv:
  assumes inv: "mm_inv s" and n: "k < 2 ^ 31 - 1" "k \<le> length cs" and answer: "can_answer answer s"
  shows "estrndup cs k answer s = Some Exited \<and> answer = None \<or>
    (\<exists>p s'. estrndup cs k answer s = Some (Done (p, s')) \<and> mm_inv s' \<and> live s p = None \<and>
       live s' = (live s)(p \<mapsto> map Some (take k cs @ [NUL])))"
proof -
  have u: "unat (of_nat k + 1 :: ulong) = Suc k"
  proof -
    have "unat (of_nat (Suc k) :: ulong) = Suc k" using n(1) by (simp only: unat_of_nat) simp
    then show ?thesis by (simp add: add.commute)
  qed
  have "length (map Some (take k cs @ [NUL])) = Suc k" using n(2) by simp
  then show ?thesis
    using fill_new_block[OF inv, of "of_nat k + 1" answer "map Some (take k cs @ [NUL])"] answer n u
    by (fastforce simp: estrndup_def memcpy_to_def can_answer_def)
qed

lemma mm_step_inv: "mm_step s s' \<Longrightarrow> mm_inv s \<Longrightarrow> mm_inv s'"
proof (induction rule: mm_step.induct)
  case (malloc n answer s p s')
  then show ?case using emalloc_ok[of s n answer] by (auto simp: can_answer_def)
next
  case (calloc n k answer s p s')
  then show ?case using ecalloc_inv[of s n k answer] by auto
next
  case (strndup k cs answer s p s')
  then show ?case using estrndup_inv[of s k cs answer] by auto
next
  case (realloc n s p answer q s')
  then obtain bs where "live s p = Some bs" by blast
  then show ?case using erealloc_ok[of s n p bs answer] realloc by (auto simp: can_answer_def split: option.splits)
next
  case (free s p s')
  then show ?case using efree_ok[of s p] by auto
qed

lemma mm_reach_inv: "mm_step\<^sup>*\<^sup>* start_memory_manager s \<Longrightarrow> mm_inv s"
  by (induction rule: rtranclp_induct) (auto simp: manager_start_ok intro: mm_step_inv)

text \<open>C8: After any sequence of calls in which the script allocates less than 2 GB at a time, \<^verbatim>\<open>emalloc\<close> of less than 2 GB gives a block
  of the wanted size that was not in use (new or from the cache) or the process exits because \<^verbatim>\<open>malloc\<close> failed; \<^verbatim>\<open>erealloc\<close>, whether \<^verbatim>\<open>realloc\<close>
  moves the block or resizes it where it is, gives the block at the answered address with its bytes kept up to the smaller
  size, or the process exits; \<^verbatim>\<open>efree\<close> takes the block away; and none of them changes another block in use.\<close>
theorem blocks_exact:
  assumes "mm_step\<^sup>*\<^sup>* start_memory_manager s" "unat n < 2 ^ 31" "live s p = Some bs"
    and "can_answer answer s" "moved = Some p \<or> can_answer moved s"
  shows "(emalloc n answer s = Some Exited \<and> answer = None \<or>
      (\<exists>q s' cs. emalloc n answer s = Some (Done (q, s')) \<and> live s q = None \<and> length cs = unat n \<and> live s' = (live s)(q \<mapsto> cs))) \<and>
    (case moved of
        None \<Rightarrow> erealloc (Some p) n moved s = Some Exited
      | Some q \<Rightarrow> \<exists>s'. erealloc (Some p) n moved s = Some (Done (q, s')) \<and>
          live s' = (live s)(p := None, q \<mapsto> resized (unat n) bs)) \<and>
    (\<exists>s'. efree p s = Some s' \<and> live s' = (live s)(p := None))"
proof -
  have inv: "mm_inv s" using assms(1) by (rule mm_reach_inv)
  have "\<And>q. answer = Some q \<Longrightarrow> blocks s q = None" using assms(4) by (simp add: can_answer_def)
  then have "emalloc n answer s = Some Exited \<and> answer = None \<or>
      (\<exists>q s' cs. emalloc n answer s = Some (Done (q, s')) \<and> live s q = None \<and> length cs = unat n \<and> live s' = (live s)(q \<mapsto> cs))"
    using emalloc_ok[OF inv assms(2), of answer] by blast
  moreover have "\<And>q. moved = Some q \<Longrightarrow> q = p \<or> blocks s q = None" using assms(5) by (auto simp: can_answer_def)
  then have "case moved of
        None \<Rightarrow> erealloc (Some p) n moved s = Some Exited
      | Some q \<Rightarrow> \<exists>s'. erealloc (Some p) n moved s = Some (Done (q, s')) \<and>
          live s' = (live s)(p := None, q \<mapsto> resized (unat n) bs)"
    using erealloc_ok[OF inv assms(2,3), of moved] by (cases moved) auto
  moreover have "\<exists>s'. efree p s = Some s' \<and> live s' = (live s)(p := None)"
    using efree_ok[OF inv, of p] assms(3) by auto
  ultimately show ?thesis by blast
qed

text \<open>C9: At the end of a request \<^verbatim>\<open>shutdown_memory_manager\<close> frees every block, in use or in a cache, exactly once: it is
  defined (a second \<^verbatim>\<open>free\<close> of a block would not be) and no block is left, whatever calls the script has made with sizes
  below 2 GB.\<close>
theorem shutdown_frees_all:
  assumes "mm_step\<^sup>*\<^sup>* start_memory_manager s"
  shows "\<exists>s'. shutdown_memory_manager s = Some s' \<and> blocks s' = Map.empty"
  using mm_reach_inv[OF assms] by (rule shutdown_ok)

lemma ecalloc_emalloc:
  "ecalloc k n answer s = Some (Done (q, s')) \<Longrightarrow> \<exists>s1. emalloc (n * k) answer s = Some (Done (q, s1))"
  by (cases "emalloc (n * k) answer s") (auto simp: ecalloc_def split: outcome.splits bind_splits)

lemma estrndup_emalloc:
  "estrndup cs j answer s = Some (Done (q, s')) \<Longrightarrow> \<exists>s1. emalloc (of_nat j + 1) answer s = Some (Done (q, s1))"
  by (cases "emalloc (of_nat j + 1) answer s") (auto simp: estrndup_def split: outcome.splits bind_splits if_splits)

text \<open>\<^verbatim>\<open>ecalloc\<close> gives a block of zero bytes, but of the product of the two sizes modulo \<open>2 ^ 32\<close> only: a product that does
  not fit gives a block that is too small. \<^verbatim>\<open>estrndup\<close> gives the first bytes of the string and a NUL.\<close>
theorem filled_blocks:
  assumes "mm_step\<^sup>*\<^sup>* start_memory_manager s" "can_answer (Some p) s"
    and "m = (unat k * unat n) mod 2 ^ 32" "64 \<le> m" "m < 2 ^ 31" "63 \<le> j" "j < 2 ^ 31 - 1" "j \<le> length cs"
  shows "(\<exists>s'. ecalloc k n (Some p) s = Some (Done (p, s')) \<and> live s' = (live s)(p \<mapsto> replicate m (Some NUL))) \<and>
    (\<exists>s'. estrndup cs j (Some p) s = Some (Done (p, s')) \<and> live s' = (live s)(p \<mapsto> map Some (take j cs @ [NUL])))"
proof -
  have inv: "mm_inv s" using assms(1) by (rule mm_reach_inv)
  have m: "unat (n * k) = m" unfolding assms(3) by (simp add: unat_word_ariths mult.commute)
  have new: "q = p" if "emalloc w (Some p) s = Some (Done (q, s'))" "64 \<le> unat w" for w q s'
    using that by (auto simp: emalloc_def MAX_CACHED_MEMORY_def split: bind_splits)
  have "unat (of_nat (Suc j) :: ulong) = Suc j" using assms(7) by (simp only: unat_of_nat) simp
  then have j: "unat (of_nat j + 1 :: ulong) = Suc j" by (simp add: add.commute)
  have c: "q = p" if eq: "ecalloc k n (Some p) s = Some (Done (q, s'))" for q s'
  proof -
    obtain s1 where "emalloc (n * k) (Some p) s = Some (Done (q, s1))" using ecalloc_emalloc[OF eq] by blast
    then show ?thesis using new m assms(4) by blast
  qed
  have d: "q = p" if eq: "estrndup cs j (Some p) s = Some (Done (q, s'))" for q s'
  proof -
    obtain s1 where "emalloc (of_nat j + 1) (Some p) s = Some (Done (q, s1))" using estrndup_emalloc[OF eq] by blast
    moreover have "64 \<le> unat (of_nat j + 1 :: ulong)" using j assms(6) by simp
    ultimately show ?thesis by (rule new)
  qed
  show ?thesis
    using ecalloc_inv[OF inv, of n k "Some p"] estrndup_inv[OF inv assms(7,8,2)] assms(2,5) m c d by auto
qed

text \<open>A block of 2 GB or more can be allocated but not freed: \<^verbatim>\<open>size\<close> is an \<^verbatim>\<open>int\<close> in the header, so \<^verbatim>\<open>efree\<close> takes the block
  for a small one and looks in front of \<^verbatim>\<open>cache_count\<close>.\<close>
theorem huge_block_not_freed:
  assumes "mm_step\<^sup>*\<^sup>* start_memory_manager s" "can_answer (Some p) s" "2 ^ 31 \<le> unat n"
  shows "\<exists>s'. emalloc n (Some p) s = Some (Done (p, s')) \<and> efree p s' = None"
proof -
  obtain xs where xs: "linked s xs" "distinct xs" "dom (blocks s) = set xs" using mm_reach_inv[OF assms(1)] by (auto simp: mm_inv_def)
  have p: "blocks s p = None" "p \<notin> set xs" using assms(2) xs(3) by (auto simp: can_answer_def)
  let ?h = "\<lparr>mh_next = None, mh_last = None, mh_size = 0, mh_bytes = replicate (unat n) None\<rparr>"
  let ?s = "s\<lparr>blocks := (blocks s)(p \<mapsto> ?h)\<rparr>"
  have m: "malloc_block p (unat n) s = Some ?s" using p(1) by (simp add: malloc_block_def)
  have "payload ?s p = Some (0, replicate (unat n) None)" by (simp add: payload_def)
  moreover have "linked ?s xs" "dom (blocks ?s) = insert p (set xs)" using xs p(2) by (auto simp: linked_def seg_other)
  ultimately obtain s' where
    s': "do { s2 \<leftarrow> add_to_list p ?s; s3 \<leftarrow> upd_header p (\<lambda>h. h\<lparr>mh_size := n\<rparr>) s2; Some (Done (p, s3)) } = Some (Done (p, s'))"
    "payload s' = (payload ?s)(p \<mapsto> (n, replicate (unat n) None))"
    using add_block[of ?s xs p 0 "replicate (unat n) None" n] xs(2) p(2) by blast
  have e: "emalloc n (Some p) s = Some (Done (p, s'))"
    using assms(3) m s'(1) by (simp add: emalloc_def MAX_CACHED_MEMORY_def del: fun_upd_apply)
  have "payload s' p = Some (n, replicate (unat n) None)" using s'(2) by simp
  then obtain h where h: "blocks s' p = Some h" "mh_size h = n" by (auto simp: payload_def)
  have "int (2 ^ 31) \<le> int (unat n)" using assms(3) by (simp only: of_nat_le_iff)
  then have u: "2 ^ 31 \<le> uint n" "uint n < 2 ^ 32" using uint_lt2p[of n] by simp_all
  have "sint n = (uint n + 2 ^ 31) mod 2 ^ 32 - 2 ^ 31"
    by (simp add: sint_uint signed_take_bit_eq_take_bit_shift take_bit_eq_mod)
  also have "(uint n + 2 ^ 31) mod 2 ^ 32 = uint n + 2 ^ 31 - 2 ^ 32"
  proof -
    have "0 \<le> uint n + 2 ^ 31 - 2 ^ 32" "uint n + 2 ^ 31 - 2 ^ 32 < 2 ^ 32" using u by simp_all
    then show ?thesis by (metis minus_mod_self2 mod_pos_pos_trivial)
  qed
  finally have "sint n < 0" using u by simp
  then have "efree p s' = None" using h by (simp add: efree_def MAX_CACHED_MEMORY_def Let_def)
  then show ?thesis using e by blast
qed

subsection \<open>Witnesses\<close>

text \<open>The state after one allocation.\<close>

definition one_block :: memory_manager where
  "one_block = (case emalloc 100 (Some 1) start_memory_manager of Some (Done (p, s)) \<Rightarrow> s | _ \<Rightarrow> start_memory_manager)"

lemma one_block_reachable: "mm_step\<^sup>*\<^sup>* start_memory_manager one_block" "can_answer (Some 2) one_block"
  "\<exists>bs. live one_block 1 = Some bs \<and> length bs = 100"
proof -
  have a: "can_answer (Some 1) start_memory_manager" by (simp add: can_answer_def start_memory_manager_def)
  have n: "unat (100 :: ulong) < 2 ^ 31" "unat (100 :: ulong) = 100" by simp_all
  obtain s' where e: "emalloc 100 (Some 1) start_memory_manager = Some (Done (1, s'))" "2 \<notin> dom (blocks s')"
    by (simp add: emalloc_def MAX_CACHED_MEMORY_def start_memory_manager_def malloc_block_def add_to_list_def upd_header_def)
  then have o: "one_block = s'" by (simp add: one_block_def)
  have "mm_step start_memory_manager s'" by (rule mm_step.malloc[OF n(1) a e(1)])
  then show "mm_step\<^sup>*\<^sup>* start_memory_manager one_block" by (simp add: o)
  show "can_answer (Some 2) one_block" using e(2) by (auto simp: o can_answer_def)
  from emalloc_ok[OF manager_start_ok(1) n(1), of "Some 1"] e(1) n(2) a show "\<exists>bs. live one_block 1 = Some bs \<and> length bs = 100"
    by (auto simp: o can_answer_def)
qed

text \<open>A block of 100 bytes is freed, resized in place, and another one allocated.\<close>

lemma blocks_exact_witness:
  "\<exists>s' q t u bs cs. efree 1 one_block = Some s' \<and> live s' 1 = None \<and>
     emalloc 10 (Some 2) one_block = Some (Done (q, t)) \<and> length cs = 10 \<and> live t = (live one_block)(q \<mapsto> cs) \<and>
     erealloc (Some 1) 10 (Some 1) one_block = Some (Done (1, u)) \<and> live one_block 1 = Some bs \<and> live u 1 = Some (resized 10 bs)"
proof -
  obtain bs where bs: "live one_block 1 = Some bs" using one_block_reachable(3) by blast
  have n: "unat (10 :: ulong) < 2 ^ 31" by simp
  have "Some 1 = Some (1 :: addr) \<or> can_answer (Some 1) one_block" by simp
  from blocks_exact[OF one_block_reachable(1) n bs one_block_reachable(2) this] bs show ?thesis by auto
qed

lemma shutdown_frees_all_witness:
  "\<exists>s'. shutdown_memory_manager one_block = Some s' \<and> blocks s' = Map.empty"
  by (rule shutdown_frees_all[OF one_block_reachable(1)])

lemma filled_blocks_witness:
  "\<exists>s'. ecalloc 65536 65537 (Some 2) one_block = Some (Done (2, s')) \<and>
     live s' = (live one_block)(2 \<mapsto> replicate 65536 (Some NUL))"
  using filled_blocks[OF one_block_reachable(1,2), of 65536 65536 65537 63 "replicate 63 NUL"] by simp

lemma huge_block_not_freed_witness:
  "\<exists>s'. emalloc 2147483648 (Some 2) one_block = Some (Done (2, s')) \<and> efree 2 s' = None"
  using huge_block_not_freed[OF one_block_reachable(1,2), of 2147483648] by simp

end
