(* ===== verification/Php_Encodings.thy ===== *)
theory Php_Encodings
  imports Php_Operators
begin

unbundle bit_operations_syntax

text \<open>
  The encodings of \<^verbatim>\<open>functions/base64.c\<close>, \<^verbatim>\<open>functions/url.c\<close> and \<^verbatim>\<open>functions/quot_print.c\<close>. A buffer is the list of
  the bytes of an \<^verbatim>\<open>emalloc\<close>ed block, \<open>None\<close> where nothing was written; a write behind its end makes
  the computation \<open>None\<close>. A string argument is the list of its bytes, which may contain NUL; \<open>c_str\<close> cuts it where the C
  library would.
\<close>

type_synonym buffer = "char option list"

definition c_str :: "string \<Rightarrow> string" where
  "c_str s = takeWhile (\<lambda>c. c \<noteq> NUL) s"

definition put :: "nat \<Rightarrow> char \<Rightarrow> buffer \<Rightarrow> buffer option" where
  "put i c b = (if i < length b then Some (b[i := Some c]) else None)"

text \<open>\<^verbatim>\<open>b[i] |= v\<close>\<close>

definition put_or :: "nat \<Rightarrow> nat \<Rightarrow> buffer \<Rightarrow> buffer option" where
  "put_or i v b = (if i < length b then map_option (\<lambda>c. b[i := Some (chr (byte_of c OR v))]) (b ! i) else None)"

text \<open>The first \<open>n\<close> bytes of a buffer.\<close>

definition contents :: "nat \<Rightarrow> buffer \<Rightarrow> string option" where
  "contents n b = (if n \<le> length b then those (take n b) else None)"

text \<open>An \<^verbatim>\<open>int\<close> keeps the low 32 bits of a result, and so does a \<^verbatim>\<open>size_t\<close>, the size that \<^verbatim>\<open>emalloc\<close> gets.\<close>

definition cint :: "int \<Rightarrow> int" where
  "cint n = sint (word_of_int n :: ulong)"

definition size_t :: "int \<Rightarrow> nat" where
  "size_t n = nat (n mod 2 ^ 32)"

subsection \<open>Base64\<close>

definition base64_table :: string where
  "base64_table = ''ABCDEFGHIJKLMNOPQRSTUVWXYZabcdefghijklmnopqrstuvwxyz0123456789+/''"

definition base64_pad :: char where "base64_pad = CHR ''=''"

definition b64 :: "nat \<Rightarrow> char" where "b64 n = base64_table ! n"

text \<open>The bytes that the encoder writes before the NUL.\<close>

fun base64_groups :: "string \<Rightarrow> string" where
  "base64_groups (a # b # c # rest) =
     b64 (drop_bit 2 (byte_of a)) #
     b64 (push_bit 4 (byte_of a AND 0x03) + drop_bit 4 (byte_of b)) #
     b64 (push_bit 2 (byte_of b AND 0x0f) + drop_bit 6 (byte_of c)) #
     b64 (byte_of c AND 0x3f) # base64_groups rest"
| "base64_groups [a, b] =
     [b64 (drop_bit 2 (byte_of a)), b64 (push_bit 4 (byte_of a AND 0x03) + drop_bit 4 (byte_of b)),
      b64 (push_bit 2 (byte_of b AND 0x0f)), base64_pad]"
| "base64_groups [a] =
     [b64 (drop_bit 2 (byte_of a)), b64 (push_bit 4 (byte_of a AND 0x03)), base64_pad, base64_pad]"
| "base64_groups [] = []"

text \<open>
  The size of the block is computed in \<^verbatim>\<open>int\<close>s from the length and converted for \<^verbatim>\<open>emalloc\<close>; the index \<open>i\<close> of the bytes is an \<^verbatim>\<open>int\<close>
  too, so that the NUL is written in the block when the bytes are fewer than its size and \<open>2 ^ 31\<close>. Its last value is
  what \<^verbatim>\<open>*ret_length\<close> gets.
\<close>

definition base64_block :: "int \<Rightarrow> nat" where
  "base64_block len = size_t (c_div (cint ((len + 3 - c_mod len 3) * 4)) 3 + 1)"

definition base64_encode :: "string \<Rightarrow> string option" where
  "base64_encode s =
     (let r = base64_groups s
      in if length r < base64_block (int (length s)) \<and> length r < 2 ^ 31 then Some r else None)"

text \<open>\<^verbatim>\<open>strchr (base64_table, ch) - base64_table\<close> for a character that is not NUL.\<close>

definition table_index :: "char \<Rightarrow> nat option" where
  "table_index c = (if c \<in> set base64_table then Some (length (takeWhile (\<lambda>d. d \<noteq> c) base64_table)) else None)"

text \<open>
  The loop: the last character, \<open>i\<close>, \<open>j\<close> and the buffer when it ends; the inner \<open>None\<close> is the
  \<^verbatim>\<open>NULL\<close> that the function returns for a character outside of the table.
\<close>

fun base64_loop :: "string \<Rightarrow> nat \<Rightarrow> nat \<Rightarrow> buffer \<Rightarrow> (char \<times> nat \<times> nat \<times> buffer) option option" where
  "base64_loop [] i j r = Some (Some (NUL, i, j, r))"
| "base64_loop (c # cs) i j r =
     (if c = base64_pad then Some (Some (c, i, j, r))
      else (case table_index c of
          None \<Rightarrow> Some None
        | Some ch \<Rightarrow>
            (case i mod 4 of
               0 \<Rightarrow> do { r1 \<leftarrow> put j (chr (push_bit 2 ch)) r; base64_loop cs (i + 1) j r1 }
             | Suc 0 \<Rightarrow> do {
                 r1 \<leftarrow> put_or j (drop_bit 4 ch) r;
                 r2 \<leftarrow> put (j + 1) (chr (push_bit 4 (ch AND 0x0f))) r1;
                 base64_loop cs (i + 1) (j + 1) r2 }
             | Suc (Suc 0) \<Rightarrow> do {
                 r1 \<leftarrow> put_or j (drop_bit 2 ch) r;
                 r2 \<leftarrow> put (j + 1) (chr (push_bit 6 (ch AND 0x03))) r1;
                 base64_loop cs (i + 1) (j + 1) r2 }
             | _ \<Rightarrow> do { r1 \<leftarrow> put_or j ch r; base64_loop cs (i + 1) (j + 1) r1 })))"

definition base64_decode :: "string \<Rightarrow> string option option" where
  "base64_decode s = do {
     x \<leftarrow> base64_loop (c_str s) 0 0 (replicate (length s div 4 * 3 + 1) None);
     (case x of
        None \<Rightarrow> Some None
      | Some (ch, i, j, r) \<Rightarrow>
          if ch = base64_pad \<and> i mod 4 < 2 then Some None
          else do {
            (k, r1) \<leftarrow> (if ch = base64_pad
                        then (let k = (if i mod 4 = 2 then j + 1 else j) in do { r1 \<leftarrow> put k NUL r; Some (k + 1, r1) })
                        else Some (j, r));
            r2 \<leftarrow> put k NUL r1;
            t \<leftarrow> contents j r2;
            Some (Some t)
          })
   }"

definition php3_base64_encode :: "nat \<Rightarrow> pval \<Rightarrow> pval option" where
  "php3_base64_encode precision v = map_option IS_STRING (base64_encode (str (convert_to_string precision v)))"

definition php3_base64_decode :: "nat \<Rightarrow> pval \<Rightarrow> pval option" where
  "php3_base64_decode precision v = do {
     r \<leftarrow> base64_decode (str (convert_to_string precision v));
     Some (case r of Some t \<Rightarrow> IS_STRING t | None \<Rightarrow> var_reset)
   }"

subsection \<open>URLs\<close>

definition hexchars :: string where "hexchars = ''0123456789ABCDEF''"

definition is_xdigit :: "char \<Rightarrow> bool" where
  [c_library]: "is_xdigit c \<longleftrightarrow> is_digit c \<or> 65 \<le> byte_of c \<and> byte_of c \<le> 70 \<or> 97 \<le> byte_of c \<and> byte_of c \<le> 102"

definition hex_value :: "char \<Rightarrow> int" where
  "hex_value c0 =
     (let c = (if is_upper c0 then to_lower c0 else c0)
      in if 48 \<le> byte_of c \<and> byte_of c \<le> 57 then int (byte_of c) - 48 else int (byte_of c) - 97 + 10)"

definition php3_htoi :: "char \<Rightarrow> char \<Rightarrow> int" where
  "php3_htoi c d = hex_value c * 16 + hex_value d"

text \<open>The characters that both functions escape; the URL functions use unsigned bytes.\<close>

definition url_unsafe :: "char \<Rightarrow> bool" where
  "url_unsafe c = (let b = byte_of c in
     (b < 48 \<and> c \<noteq> CHR ''-'' \<and> c \<noteq> CHR ''.'') \<or> (b < 65 \<and> b > 57) \<or> (b > 90 \<and> b < 97 \<and> c \<noteq> CHR ''_'') \<or> b > 122)"

definition hex_escape :: "char \<Rightarrow> string" where
  "hex_escape c = [CHR ''%'', hexchars ! drop_bit 4 (byte_of c), hexchars ! (byte_of c AND 15)]"

fun urlencode_bytes :: "string \<Rightarrow> string" where
  "urlencode_bytes [] = []"
| "urlencode_bytes (c # cs) =
     (if c = CHR '' '' then [CHR ''+''] else if url_unsafe c then hex_escape c else [c]) @ urlencode_bytes cs"

fun rawurlencode_bytes :: "string \<Rightarrow> string" where
  "rawurlencode_bytes [] = []"
| "rawurlencode_bytes (c # cs) = (if url_unsafe c then hex_escape c else [c]) @ rawurlencode_bytes cs"

text \<open>The buffer of \<open>urlencode\<close> is as long as three times \<^verbatim>\<open>strlen (s)\<close> allows, that of \<open>rawurlencode\<close> three times the length.\<close>

definition urlencode :: "string \<Rightarrow> string option" where
  "urlencode s = (let r = urlencode_bytes s in if length r + 1 \<le> 3 * length (c_str s) + 1 then Some r else None)"

definition rawurlencode :: "string \<Rightarrow> string option" where
  "rawurlencode s = (let r = rawurlencode_bytes s in if length r + 1 \<le> 3 * length s + 1 then Some r else None)"

fun urldecode :: "string \<Rightarrow> string" where
  "urldecode [] = []"
| "urldecode (c # cs) =
     (if c = CHR ''+'' then CHR '' '' # urldecode cs
      else if c = CHR ''%'' then
        (case cs of
           d # e # r \<Rightarrow> if is_xdigit d \<and> is_xdigit e then chr (nat (php3_htoi d e mod 256)) # urldecode r
                        else c # urldecode cs
         | _ \<Rightarrow> c # urldecode cs)
      else c # urldecode cs)"

fun rawurldecode :: "string \<Rightarrow> string" where
  "rawurldecode [] = []"
| "rawurldecode (c # cs) =
     (if c = CHR ''%'' then
        (case cs of
           d # e # r \<Rightarrow> if is_xdigit d \<and> is_xdigit e then chr (nat (php3_htoi d e mod 256)) # rawurldecode r
                        else c # rawurldecode cs
         | _ \<Rightarrow> c # rawurldecode cs)
      else c # rawurldecode cs)"

text \<open>The functions of the language: an empty string gives false, the result is a C string for the encoders.\<close>

definition php3_urlencode :: "nat \<Rightarrow> pval \<Rightarrow> pval option" where
  "php3_urlencode precision v = (let s = str (convert_to_string precision v) in
     if s = [] then Some var_reset else map_option (\<lambda>r. IS_STRING (c_str r)) (urlencode s))"

definition php3_urldecode :: "nat \<Rightarrow> pval \<Rightarrow> pval" where
  "php3_urldecode precision v = (let s = str (convert_to_string precision v) in
     if s = [] then var_reset else IS_STRING (urldecode s))"

definition php3_rawurlencode :: "nat \<Rightarrow> pval \<Rightarrow> pval option" where
  "php3_rawurlencode precision v = (let s = str (convert_to_string precision v) in
     if s = [] then Some var_reset else map_option (\<lambda>r. IS_STRING (c_str r)) (rawurlencode s))"

definition php3_rawurldecode :: "nat \<Rightarrow> pval \<Rightarrow> pval" where
  "php3_rawurldecode precision v = (let s = str (convert_to_string precision v) in
     if s = [] then var_reset else IS_STRING (rawurldecode s))"

subsection \<open>Quoted-printable\<close>

definition hex2int :: "char \<Rightarrow> int" where
  "hex2int c = (if is_digit c then int (byte_of c) - 48
     else if 65 \<le> byte_of c \<and> byte_of c \<le> 70 then int (byte_of c) - 65 + 10 else - 1)"

definition qp_digit :: "char \<Rightarrow> bool" where
  "qp_digit c \<longleftrightarrow> is_digit c \<or> 65 \<le> byte_of c \<and> byte_of c \<le> 70"

fun quoted_printable_decode :: "string \<Rightarrow> string" where
  "quoted_printable_decode [] = []"
| "quoted_printable_decode (c # cs) =
     (case cs of
        d # e # r \<Rightarrow>
          if c = CHR ''='' \<and> qp_digit d \<and> qp_digit e
          then chr (nat ((hex2int d * 16 + hex2int e) mod 256)) # quoted_printable_decode r
          else if byte_of c = 13 then quoted_printable_decode cs else c # quoted_printable_decode cs
      | _ \<Rightarrow> if byte_of c = 13 then quoted_printable_decode cs else c # quoted_printable_decode cs)"

definition php3_quoted_printable_decode :: "nat \<Rightarrow> pval \<Rightarrow> pval" where
  "php3_quoted_printable_decode precision v =
     IS_STRING (quoted_printable_decode (c_str (str (convert_to_string precision v))))"

end
