(* ===== verification/Encoding_Properties.thy ===== *)
theory Encoding_Properties
  imports Php_Encodings
begin

unbundle bit_operations_syntax

text \<open>Round trips and buffer bounds of the encodings.\<close>

subsection \<open>Base64\<close>



text \<open>The sextets of three bytes.\<close>

lemma sextets:
  fixes a b c :: nat
  shows "drop_bit 2 a = a div 4" "push_bit 4 (a AND 0x03) = (a mod 4) * 16" "drop_bit 4 b = b div 16"
    "push_bit 2 (b AND 0x0f) = (b mod 16) * 4" "drop_bit 6 c = c div 64" "c AND 0x3f = c mod 64"
proof -
  have m: "x AND (2 ^ n - 1) = x mod 2 ^ n" for x n :: nat
    by (simp add: take_bit_eq_mod[symmetric] take_bit_eq_mask mask_eq_exp_minus_1)
  show "drop_bit 2 a = a div 4" "drop_bit 4 b = b div 16" "drop_bit 6 c = c div 64" by (simp_all add: drop_bit_eq_div)
  show "push_bit 4 (a AND 0x03) = (a mod 4) * 16" using m[of a 2] by (simp add: push_bit_eq_mult)
  show "push_bit 2 (b AND 0x0f) = (b mod 16) * 4" using m[of b 4] by (simp add: push_bit_eq_mult)
  show "c AND 0x3f = c mod 64" using m[of c 6] by simp
qed






lemma chr_parts:
  "chr (byte_of a div 4 * 4 + ((byte_of a mod 4) * 16 + y) div 16) = a" if "y < 16"
proof -
  have "((byte_of a mod 4) * 16 + y) div 16 = byte_of a mod 4" using that by simp
  then show ?thesis by simp
qed
















text \<open>The position in the buffer after \<open>i\<close> characters.\<close>

definition out_pos :: "nat \<Rightarrow> nat" where
  "out_pos i = 3 * (i div 4) + (if i mod 4 = 0 then 0 else i mod 4 - 1)"

lemma out_pos_Suc: "out_pos (Suc i) = (if i mod 4 = 0 then out_pos i else Suc (out_pos i))"
proof -
  obtain q k where i: "i = 4 * q + k" "k < 4" by (metis mod_less_divisor mult_div_mod_eq zero_less_numeral)
  have "k = 0 \<or> k = 1 \<or> k = 2 \<or> k = 3" using i(2) by auto
  then show ?thesis using i(1) by (auto simp: out_pos_def mod_Suc div_Suc)
qed

lemma mod_4: "i mod 4 = 0 \<or> i mod 4 = Suc 0 \<or> i mod 4 = Suc (Suc 0) \<or> i mod 4 = Suc (Suc (Suc 0))" for i :: nat
  by presburger

definition loop_inv :: "nat \<Rightarrow> nat \<Rightarrow> nat \<Rightarrow> buffer \<Rightarrow> bool" where
  "loop_inv m i j r \<longleftrightarrow> j = out_pos i \<and> length r = 3 * m + 1 \<and> (\<forall>k < j. r ! k \<noteq> None) \<and> (i mod 4 \<noteq> 0 \<longrightarrow> r ! j \<noteq> None)"

lemma out_pos_bound: "i < 4 * m \<Longrightarrow> out_pos i + (if i mod 4 = 1 \<or> i mod 4 = 2 then 1 else 0) < 3 * m"
proof -
  assume a: "i < 4 * m"
  obtain q k where i: "i = 4 * q + k" "k < 4" by (metis mod_less_divisor mult_div_mod_eq zero_less_numeral)
  then have "out_pos i = 3 * q + (k - 1)" "i mod 4 = k" by (simp_all add: out_pos_def)
  moreover have "q < m" using a i(1) by simp
  ultimately show ?thesis using i(2) by auto
qed

lemma those_defined: "(\<And>k. k < length xs \<Longrightarrow> xs ! k \<noteq> None) \<Longrightarrow> \<exists>t. those xs = Some t"
proof (induction xs)
  case (Cons x xs)
  have "\<exists>t. those xs = Some t" using Cons.prems[of "Suc _"] by (intro Cons.IH) auto
  then show ?case using Cons.prems[of 0] by auto
qed simp

lemma contents_put:
  assumes "j \<le> length r" "\<And>k. k < j \<Longrightarrow> r ! k \<noteq> None" "j \<le> k" "j \<le> l"
  shows "\<exists>t. contents j (r[k := c, l := d]) = Some t" "\<exists>t. contents j (r[l := d]) = Some t"
  using those_defined[of "take j (r[k := c, l := d])"] those_defined[of "take j (r[l := d])"] assms
  by (auto simp: contents_def)

lemma loop_safe:
  assumes "loop_inv m i j r" "i + length cs \<le> 4 * m"
  shows "base64_loop cs i j r = Some None \<or>
    (\<exists>ch i' j' r'. base64_loop cs i j r = Some (Some (ch, i', j', r')) \<and> loop_inv m i' j' r' \<and> i' \<le> 4 * m \<and>
       (ch = base64_pad \<longrightarrow> i' < 4 * m) \<and> (ch = base64_pad \<or> ch = NUL))"
  using assms
proof (induction cs arbitrary: i j r)
  case (Cons c cs)
  have j: "j = out_pos i" and len: "length r = 3 * m + 1" and w: "\<And>k. k < j \<Longrightarrow> r ! k \<noteq> None"
    and wj: "i mod 4 \<noteq> 0 \<Longrightarrow> r ! j \<noteq> None" using Cons.prems(1) by (auto simp: loop_inv_def)
  have i: "i < 4 * m" using Cons.prems(2) by simp
  note b = out_pos_bound[OF i]
  show ?case
  proof (cases "c = base64_pad \<or> table_index c = None")
    case True
    then show ?thesis using Cons.prems(1) i by auto
  next
    case False
    then obtain x where x: "c \<noteq> base64_pad" "table_index c = Some x" by auto
    have next_inv: "base64_loop cs (Suc i) (out_pos (Suc i)) r' = Some None \<or>
        (\<exists>ch i' j' s. base64_loop cs (Suc i) (out_pos (Suc i)) r' = Some (Some (ch, i', j', s)) \<and> loop_inv m i' j' s \<and> i' \<le> 4 * m \<and>
           (ch = base64_pad \<longrightarrow> i' < 4 * m) \<and> (ch = base64_pad \<or> ch = NUL))"
      if "length r' = length r" "\<And>k. k < out_pos (Suc i) \<Longrightarrow> r' ! k \<noteq> None" "Suc i mod 4 \<noteq> 0 \<Longrightarrow> r' ! out_pos (Suc i) \<noteq> None" for r'
      using Cons.IH[of "Suc i" "out_pos (Suc i)" r'] that len Cons.prems(2) by (simp add: loop_inv_def)
    consider (0) "i mod 4 = 0" | (1) "i mod 4 = Suc 0" | (2) "i mod 4 = Suc (Suc 0)" | (3) "i mod 4 = Suc (Suc (Suc 0))"
      using mod_4[of i] by (elim disjE) simp_all
    then show ?thesis
    proof cases
      case 0
      let ?r = "r[j := Some (chr (push_bit 2 x))]"
      have "base64_loop (c # cs) i j r = base64_loop cs (Suc i) (out_pos (Suc i)) ?r"
        using x 0 b len j by (simp add: put_def out_pos_Suc)
      moreover have "?r ! k \<noteq> None" if "k < out_pos (Suc i)" for k using that w[of k] j 0 by (simp add: out_pos_Suc nth_list_update)
      moreover have "?r ! out_pos (Suc i) \<noteq> None" using j 0 b len by (simp add: out_pos_Suc)
      ultimately show ?thesis using next_inv[of ?r] by simp
    next
      case 1
      obtain d where d: "r ! j = Some d" using wj 1 by auto
      let ?r = "r[j := Some (chr (byte_of d OR drop_bit 4 x)), Suc j := Some (chr (push_bit 4 (x AND 0x0f)))]"
      have "base64_loop (c # cs) i j r = base64_loop cs (Suc i) (out_pos (Suc i)) ?r"
        using x 1 b len j d by (simp add: put_def put_or_def out_pos_Suc)
      moreover have "?r ! k \<noteq> None" if "k < out_pos (Suc i)" for k
        using that w[of k] j 1 b len by (auto simp: out_pos_Suc nth_list_update)
      moreover have "?r ! out_pos (Suc i) \<noteq> None" using j 1 b len by (simp add: out_pos_Suc)
      ultimately show ?thesis using next_inv[of ?r] by simp
    next
      case 2
      obtain d where d: "r ! j = Some d" using wj 2 by auto
      let ?r = "r[j := Some (chr (byte_of d OR drop_bit 2 x)), Suc j := Some (chr (push_bit 6 (x AND 0x03)))]"
      have "base64_loop (c # cs) i j r = base64_loop cs (Suc i) (out_pos (Suc i)) ?r"
        using x 2 b len j d by (simp add: put_def put_or_def out_pos_Suc)
      moreover have "?r ! k \<noteq> None" if "k < out_pos (Suc i)" for k
        using that w[of k] j 2 b len by (auto simp: out_pos_Suc nth_list_update)
      moreover have "?r ! out_pos (Suc i) \<noteq> None" using j 2 b len by (simp add: out_pos_Suc)
      ultimately show ?thesis using next_inv[of ?r] by simp
    next
      case 3
      obtain d where d: "r ! j = Some d" using wj 3 by auto
      let ?r = "r[j := Some (chr (byte_of d OR x))]"
      have "base64_loop (c # cs) i j r = base64_loop cs (Suc i) (out_pos (Suc i)) ?r"
        using x 3 b len j d by (simp add: put_or_def out_pos_Suc)
      moreover have "?r ! k \<noteq> None" if "k < out_pos (Suc i)" for k
        using that w[of k] j 3 b len by (auto simp: out_pos_Suc nth_list_update)
      moreover have "Suc i mod 4 = 0" using 3 by (simp add: mod_Suc)
      ultimately show ?thesis using next_inv[of ?r] by simp
    qed
  qed
qed (simp add: base64_pad_def)

lemma loop_overflow:
  assumes "length r = 3 * m + 1" "i \<le> 4 * m + 1" "4 * m + 2 \<le> i + length cs" "set cs \<subseteq> set base64_table"
  shows "base64_loop cs i (out_pos i) r = None"
  using assms
proof (induction cs arbitrary: i r)
  case (Cons c cs)
  have pad: "base64_pad \<notin> set base64_table" by code_simp
  obtain x where x: "c \<noteq> base64_pad" "table_index c = Some x" using Cons.prems(4) pad by (auto simp: table_index_def)
  show ?case
  proof (cases "i = 4 * m + 1")
    case True
    then have "out_pos i = 3 * m" "i mod 4 = Suc 0" by (simp_all add: out_pos_def)
    then show ?thesis using x Cons.prems(1) by (auto simp: put_def put_or_def split: bind_splits)
  next
    case False
    then have "base64_loop cs (Suc i) (out_pos (Suc i)) r' = None" if "length r' = length r" for r'
      using Cons.IH[of r' "Suc i"] Cons.prems that by simp
    then show ?thesis using x mod_4[of i] by (auto simp: put_def put_or_def out_pos_Suc split: bind_splits if_splits)
  qed
qed simp

lemma decode_safe:
  assumes a: "length s mod 4 = 0"
  shows "base64_decode s \<noteq> None"
proof -
  define m where "m = length s div 4"
  have "length (c_str s) \<le> length s" by (simp add: c_str_def length_takeWhile_le)
  then have "0 + length (c_str s) \<le> 4 * m" using a m_def by presburger
  moreover have "loop_inv m 0 0 (replicate (m * 3 + 1) None)" by (simp add: loop_inv_def out_pos_def)
  ultimately have "base64_loop (c_str s) 0 0 (replicate (m * 3 + 1) None) = Some None \<or>
    (\<exists>ch i j r. base64_loop (c_str s) 0 0 (replicate (m * 3 + 1) None) = Some (Some (ch, i, j, r)) \<and> loop_inv m i j r \<and> i \<le> 4 * m \<and>
       (ch = base64_pad \<longrightarrow> i < 4 * m) \<and> (ch = base64_pad \<or> ch = NUL))" by (intro loop_safe)
  note safe = this
  show "base64_decode s \<noteq> None"
  proof (cases "base64_loop (c_str s) 0 0 (replicate (m * 3 + 1) None) = Some None")
    case False
    with safe obtain ch i j r where l: "base64_loop (c_str s) 0 0 (replicate (m * 3 + 1) None) = Some (Some (ch, i, j, r))"
      and inv: "loop_inv m i j r" and i: "i \<le> 4 * m" "ch = base64_pad \<longrightarrow> i < 4 * m" by blast
    have j: "j \<le> 3 * m" "length r = 3 * m + 1" "\<And>k. k < j \<Longrightarrow> r ! k \<noteq> None"
      using inv i(1) out_pos_bound[of i m] by (cases "i = 4 * m"; auto simp: loop_inv_def out_pos_def)+
    have d: "j \<le> length r" using j by simp
    have t: "\<exists>t. contents j (r[k := c, l := e]) = Some t" "\<exists>t. contents j (r[l := e]) = Some t" if "j \<le> k" "j \<le> l" for k l c e
      using contents_put[OF d j(3) that] by blast+
    have dec: "base64_decode s = (if ch = base64_pad \<and> i mod 4 < 2 then Some None
          else do {
            (k, r1) \<leftarrow> (if ch = base64_pad
                        then (let k = (if i mod 4 = 2 then j + 1 else j) in do { r1 \<leftarrow> put k NUL r; Some (k + 1, r1) })
                        else Some (j, r));
            r2 \<leftarrow> put k NUL r1;
            t \<leftarrow> contents j r2;
            Some (Some t)
          })" using l by (simp add: base64_decode_def m_def)
    show "base64_decode s \<noteq> None"
    proof (cases "ch = base64_pad")
      case True
      then have "j + (if i mod 4 = 1 \<or> i mod 4 = 2 then 1 else 0) < 3 * m" using i(2) out_pos_bound[of i m] inv by (simp add: loop_inv_def)
      then show ?thesis
        using True j(2) t(1)[of "j + 1" "j + 2" "Some NUL" "Some NUL"] t(1)[of j "j + 1" "Some NUL" "Some NUL"] unfolding dec
        by (cases "i mod 4 = 2") (auto simp: put_def Let_def)
    next
      case False
      then show ?thesis using j t(2)[of j j "Some NUL"] unfolding dec by (auto simp: put_def)
    qed
  qed (simp add: base64_decode_def m_def)
qed

text \<open>\<^verbatim>\<open>_php3_base64_decode\<close> allocates \<^verbatim>\<open>length / 4 * 3 + 1\<close> bytes: for a string whose length is a multiple of 4 it stays inside
  of them whatever the bytes are, but a string of characters of the alphabet with two or three characters after the last full
  group (an encoding without its padding) is decoded past the end of the buffer.\<close>
theorem base64_decode_bounds:
  "(length s mod 4 = 0 \<longrightarrow> base64_decode s \<noteq> None) \<and>
   (set s \<subseteq> set base64_table \<and> 2 \<le> length s mod 4 \<longrightarrow> base64_decode s = None)"
proof (intro conjI impI)
  assume "length s mod 4 = 0"
  then show "base64_decode s \<noteq> None" by (rule decode_safe)
next
  assume a: "set s \<subseteq> set base64_table \<and> 2 \<le> length s mod 4"
  have "NUL \<notin> set base64_table" by code_simp
  then have "c_str s = s" using a by (auto simp: c_str_def takeWhile_eq_all_conv)
  moreover have "base64_loop s 0 (out_pos 0) (replicate (length s div 4 * 3 + 1) None) = None"
  proof (rule loop_overflow[of _ "length s div 4"])
    have "length s = 4 * (length s div 4) + length s mod 4" by simp
    then show "4 * (length s div 4) + 2 \<le> 0 + length s" using a by linarith
  qed (use a in simp_all)
  ultimately show "base64_decode s = None" by (simp add: base64_decode_def out_pos_def)
qed

lemma base64_decode_bounds_witness:
  "base64_decode ''QUJD'' \<noteq> None \<and> base64_decode ''QUI'' = None"
proof -
  have "set ''QUI'' \<subseteq> set base64_table" by code_simp
  then show ?thesis using base64_decode_bounds[of "''QUJD''"] base64_decode_bounds[of "''QUI''"] by simp
qed

subsection \<open>URLs\<close>

text \<open>What the two decoders do with an escape sequence and with other characters.\<close>

lemma hex_digits:
  assumes "h < 16"
  shows "is_xdigit (hexchars ! h)" "hex_value (hexchars ! h) = int h" "\<not> url_unsafe (hexchars ! h)"
proof -
  have "list_all (\<lambda>h. is_xdigit (hexchars ! h) \<and> hex_value (hexchars ! h) = int h \<and> \<not> url_unsafe (hexchars ! h)) [0..<16]"
    by code_simp
  then show "is_xdigit (hexchars ! h)" "hex_value (hexchars ! h) = int h" "\<not> url_unsafe (hexchars ! h)"
    using assms by (simp_all add: list_all_iff)
qed

lemma hex_escape_digits: "hex_escape c = [CHR ''%'', hexchars ! (byte_of c div 16), hexchars ! (byte_of c mod 16)]"
  using sextets(3)[of "byte_of c"] take_bit_eq_mask[of 4 "byte_of c"]
  by (simp add: hex_escape_def take_bit_eq_mod mask_eq_exp_minus_1)

lemma nibbles: "byte_of c div 16 < 16" "byte_of c mod 16 < 16"
  using byte_of_less[of c] by (simp_all add: less_mult_imp_div_less)

lemma hex_escape_parts:
  obtains d e where "hex_escape c = [CHR ''%'', d, e]" "is_xdigit d" "is_xdigit e" "chr (nat (php3_htoi d e mod 256)) = c"
proof -
  have "php3_htoi (hexchars ! (byte_of c div 16)) (hexchars ! (byte_of c mod 16)) = int (byte_of c div 16 * 16 + byte_of c mod 16)"
    unfolding php3_htoi_def hex_digits(2)[OF nibbles(1)] hex_digits(2)[OF nibbles(2)] of_nat_add of_nat_mult by simp
  also have "byte_of c div 16 * 16 + byte_of c mod 16 = byte_of c" by (rule div_mult_mod_eq)
  finally have "nat (php3_htoi (hexchars ! (byte_of c div 16)) (hexchars ! (byte_of c mod 16)) mod 256) = byte_of c"
    using byte_of_less[of c] by simp
  then show ?thesis
    using that[OF hex_escape_digits hex_digits(1)[OF nibbles(1)] hex_digits(1)[OF nibbles(2)]] by simp
qed

lemma safe_not_special: "\<not> url_unsafe c \<Longrightarrow> c \<noteq> CHR ''%'' \<and> c \<noteq> CHR ''+''"
  by (auto simp: url_unsafe_def byte_of_def Let_def)

lemma urldecode_bytes: "urldecode (urlencode_bytes s @ t) = s @ urldecode t"
proof (induction s)
  case (Cons c s)
  obtain d e where "hex_escape c = [CHR ''%'', d, e]" "is_xdigit d" "is_xdigit e" "chr (nat (php3_htoi d e mod 256)) = c"
    by (rule hex_escape_parts)
  then show ?case using Cons safe_not_special[of c] by simp
qed simp

lemma rawurldecode_bytes: "rawurldecode (rawurlencode_bytes s @ t) = s @ rawurldecode t"
proof (induction s)
  case (Cons c s)
  obtain d e where "hex_escape c = [CHR ''%'', d, e]" "is_xdigit d" "is_xdigit e" "chr (nat (php3_htoi d e mod 256)) = c"
    by (rule hex_escape_parts)
  then show ?case using Cons safe_not_special[of c] by simp
qed simp

lemma urlencode_length: "length (urlencode_bytes s) \<le> 3 * length s" "length (rawurlencode_bytes s) \<le> 3 * length s"
  by (induction s) (auto simp: hex_escape_def)

lemma c_str_no_nul: "NUL \<notin> set s \<Longrightarrow> c_str s = s"
  by (auto simp: c_str_def takeWhile_eq_all_conv)

text \<open>The characters of an encoded string.\<close>

definition url_char :: "char \<Rightarrow> bool" where
  "url_char c \<longleftrightarrow> \<not> url_unsafe c \<or> c = CHR ''%'' \<or> c = CHR ''+''"

lemma hex_escape_chars: "\<forall>d \<in> set (hex_escape c). url_char d"
  using hex_digits(3)[OF nibbles(1)] hex_digits(3)[OF nibbles(2)] by (simp add: hex_escape_digits url_char_def)

lemma encoded_chars: "\<forall>c \<in> set (urlencode_bytes s). url_char c" "\<forall>c \<in> set (rawurlencode_bytes s). url_char c"
  by (induction s) (use hex_escape_chars in \<open>auto simp: url_char_def\<close>)

text \<open>\<^verbatim>\<open>urldecode\<close> undoes \<^verbatim>\<open>urlencode\<close> for every string without NUL bytes and \<^verbatim>\<open>rawurldecode\<close> undoes \<^verbatim>\<open>rawurlencode\<close> for every
  string; the encoders stay inside of their buffers and give only letters, digits, \<^verbatim>\<open>-\<close>, \<^verbatim>\<open>_\<close>, \<^verbatim>\<open>.\<close>, \<^verbatim>\<open>%\<close> and
  (\<^verbatim>\<open>urlencode\<close>) \<^verbatim>\<open>+\<close>.\<close>
theorem url_round_trip:
  "(NUL \<notin> set s \<longrightarrow> (\<exists>r. urlencode s = Some r \<and> urldecode r = s \<and> (\<forall>c \<in> set r. url_char c))) \<and>
   (\<exists>r. rawurlencode s = Some r \<and> rawurldecode r = s \<and> (\<forall>c \<in> set r. url_char c))"
  using urldecode_bytes[of s "[]"] rawurldecode_bytes[of s "[]"] urlencode_length[of s] encoded_chars[of s]
  by (simp add: urlencode_def rawurlencode_def c_str_no_nul Let_def)

lemma url_round_trip_witness:
  "\<exists>r. urlencode ''a b&c'' = Some r \<and> urldecode r = ''a b&c'' \<and> (\<forall>c \<in> set r. url_char c)"
  using url_round_trip[of "''a b&c''"] by simp

text \<open>\<^verbatim>\<open>urlencode\<close> takes the size of its buffer from \<^verbatim>\<open>strlen\<close> but encodes all bytes of the string: on a string that begins
  with a NUL byte it writes behind the buffer.\<close>
theorem urlencode_nul_overflow:
  "urlencode (NUL # s) = None \<and> php3_urlencode p (IS_STRING (NUL # s)) = None"
proof -
  have "url_unsafe NUL" by code_simp
  then have "urlencode (NUL # s) = None" by (simp add: urlencode_def c_str_def hex_escape_def)
  then show ?thesis by (simp add: php3_urlencode_def)
qed

end
