(* ===== verification/Php_Serialize.thy ===== *)
theory Php_Serialize
  imports Php_Keys Php_Encodings
begin

text \<open>
  \<^verbatim>\<open>serialize\<close>, \<^verbatim>\<open>unserialize\<close> and \<^verbatim>\<open>var_dump\<close> of \<^verbatim>\<open>functions/var.c\<close>. The pointer into the string that is read is the
  list of the bytes from it to the NUL behind the string; reading behind that NUL makes the
  computation \<open>None\<close>. The inner \<open>None\<close> is the result 0 of the reader. The table of an array that is read is given
  by the abstract array. Arrays that contain themselves and the undefined value of \<^verbatim>\<open>variables.c\<close> are not values of the model.
\<close>

text \<open>\<^verbatim>\<open>%g\<close>\<close>

definition format_g :: "double \<Rightarrow> string" where
  "format_g d = map to_lower (format_G 6 d)"

lemma ents_size [termination_simp]: "(k, v) \<in> set (ents a) \<Longrightarrow> size v < Suc (size_parray size a)"
proof (cases a)
  case (PArr es nf)
  assume "(k, v) \<in> set (ents a)"
  then have "(k, v) \<in> set es" by (simp add: PArr)
  then have "size_prod (\<lambda>_. 0) size (k, v) \<le> size_list (size_prod (\<lambda>_. 0) size) es"
    using size_list_estimation'[of "(k, v)" es "size_prod (\<lambda>_. 0) size (k, v)" "size_prod (\<lambda>_. 0) size"] by simp
  then show ?thesis by (simp add: PArr)
qed

subsection \<open>Writing\<close>

definition serialize_long :: "ulong \<Rightarrow> string" where
  "serialize_long n = ''i:'' @ dec_of_int (sint n) @ '';''"

definition serialize_string :: "string \<Rightarrow> string" where
  "serialize_string s = ''s:'' @ dec_of_int (int (length s)) @ '':'' @ [CHR 0x22] @ s @ [CHR 0x22] @ '';''"

text \<open>A string key is its bytes up to the first NUL.\<close>

fun serialize_key :: "hkey \<Rightarrow> string" where
  "serialize_key (IntKey h) = serialize_long h"
| "serialize_key (StrKey k) = serialize_string (c_str k)"

fun var_serialize :: "pval \<Rightarrow> string" where
  "var_serialize (IS_LONG n) = serialize_long n"
| "var_serialize (IS_DOUBLE d) = ''d:'' @ format_g d @ '';''"
| "var_serialize (IS_STRING s) = serialize_string s"
| "var_serialize (IS_ARRAY a) =
     ''a:'' @ dec_of_int (int (arr_size a)) @ '':{'' @ concat (map (\<lambda>(k, v). serialize_key k @ var_serialize v) (ents a)) @ ''}''"
| "var_serialize (IS_OBJECT a) =
     ''o:'' @ dec_of_int (int (arr_size a)) @ '':{'' @ concat (map (\<lambda>(k, v). serialize_key k @ var_serialize v) (ents a)) @ ''}''"
| "var_serialize _ = ''i:0;''"

subsection \<open>Reading\<close>

definition atol :: "string \<Rightarrow> int" where
  "atol p = fst (strtol 10 (c_str p))"

text \<open>\<^verbatim>\<open>while (**p && **p != c) (*p)++\<close>\<close>

definition skip_to :: "char \<Rightarrow> string \<Rightarrow> string" where
  "skip_to c p = dropWhile (\<lambda>d. d \<noteq> NUL \<and> d \<noteq> c) p"

text \<open>The part after the type of a number: its text and what follows its semicolon.\<close>

definition read_number :: "string \<Rightarrow> (string \<times> string) option option" where
  "read_number p =
     (case p of
        [] \<Rightarrow> None
      | d # q \<Rightarrow>
          if d \<noteq> CHR '':'' then Some None
          else (case skip_to (CHR '';'') p of
              [] \<Rightarrow> None
            | e # r \<Rightarrow> if e \<noteq> CHR '';'' then Some None else Some (Some (q, r))))"

text \<open>The bytes at the indices the reader looks at are inside when the length was checked before.\<close>

definition read_string :: "string \<Rightarrow> (string \<times> string) option option" where
  "read_string p =
     (case p of
        [] \<Rightarrow> None
      | d # q \<Rightarrow>
          if d \<noteq> CHR '':'' then Some None
          else (case skip_to (CHR '':'') q of
              [] \<Rightarrow> None
            | e # r \<Rightarrow>
                if e \<noteq> CHR '':'' then Some None
                else (let i = atol q in
                  if i < 0 \<or> 3 + i \<ge> int (length (e # r)) \<or> r ! 0 \<noteq> CHR 0x22 \<or> r ! (1 + nat i) \<noteq> CHR 0x22 \<or>
                     r ! (2 + nat i) \<noteq> CHR '';''
                  then Some None
                  else Some (Some (take (nat i) (drop 1 r), drop (3 + nat i) r)))))"

text \<open>The head of an array: the number of its elements and the first of them.\<close>

definition read_array_head :: "string \<Rightarrow> (int \<times> string) option option" where
  "read_array_head p =
     (let q = drop 2 p in
      if q = [] then None
      else (case skip_to (CHR '':'') q of
          [] \<Rightarrow> None
        | e # r \<Rightarrow>
            if e \<noteq> CHR '':'' then Some None
            else (case r of
                [] \<Rightarrow> None
              | b # s \<Rightarrow> if b \<noteq> CHR ''{'' then Some None else Some (Some (atol q, s)))))"

definition add_element :: "pval \<Rightarrow> pval \<Rightarrow> pval parray \<Rightarrow> pval parray" where
  "add_element key data a =
     (case key of
        IS_LONG n \<Rightarrow> arr_update a (IntKey n) data
      | IS_STRING s \<Rightarrow> if arr_find a (arr_key s) = None then arr_update a (arr_key s) data else a
      | _ \<Rightarrow> a)"

text \<open>
  The loop over the elements, given the function that reads a value; its first argument bounds
  the iterations.
\<close>

primrec unserialize_elements ::
    "nat \<Rightarrow> (string \<Rightarrow> (pval \<times> string) option option) \<Rightarrow> int \<Rightarrow> string \<Rightarrow> pval parray \<Rightarrow> (pval parray \<times> string) option option" where
  "unserialize_elements 0 read i p a = None"
| "unserialize_elements (Suc m) read i p a =
     (if p = [] then None
      else if hd p = NUL \<or> hd p = CHR ''}'' \<or> i \<le> 0 then Some (Some (a, p))
      else do {
        k \<leftarrow> read p;
        (case k of
           None \<Rightarrow> Some None
         | Some (key, r) \<Rightarrow> do {
             d \<leftarrow> read r;
             (case d of
                None \<Rightarrow> Some None
              | Some (data, t) \<Rightarrow> unserialize_elements m read (i - 1) t (add_element key data a))
           })
      })"

definition unserialize_array ::
    "nat \<Rightarrow> (string \<Rightarrow> (pval \<times> string) option option) \<Rightarrow> (pval parray \<Rightarrow> pval) \<Rightarrow> string \<Rightarrow> (pval \<times> string) option option" where
  "unserialize_array m read mk p = do {
     h \<leftarrow> read_array_head p;
     (case h of
        None \<Rightarrow> Some None
      | Some (i, r) \<Rightarrow> do {
          es \<leftarrow> unserialize_elements m read i r arr_empty;
          (case es of
             None \<Rightarrow> Some None
           | Some (a, r) \<Rightarrow>
               (if r = [] then None
                else if hd r = CHR ''}'' then Some (Some (mk a, tl r)) else Some None))
        })
   }"

text \<open>
  The value and the pointer behind it. The first argument bounds the depth of the calls; every
  iteration of the loop consumes bytes, so that the length bounds it.
\<close>

primrec var_unserialize :: "nat \<Rightarrow> string \<Rightarrow> (pval \<times> string) option option" where
  "var_unserialize 0 p = None"
| "var_unserialize (Suc n) p =
     (if p = [] then None
      else if hd p = CHR ''i''
      then map_option (map_option (\<lambda>(x, r). (IS_LONG (word_of_int (atol x)), r))) (read_number (tl p))
      else if hd p = CHR ''d''
      then map_option (map_option (\<lambda>(x, r). (IS_DOUBLE (fst (strtod (c_str x))), r))) (read_number (tl p))
      else if hd p = CHR ''s'' then map_option (map_option (\<lambda>(x, r). (IS_STRING x, r))) (read_string (tl p))
      else if hd p = CHR ''a'' then unserialize_array (length p) (var_unserialize n) IS_ARRAY p
      else if hd p = CHR ''o'' then unserialize_array (length p) (var_unserialize n) IS_OBJECT p
      else Some None)"

definition php3_serialize :: "pval \<Rightarrow> pval" where
  "php3_serialize v = IS_STRING (var_serialize v)"

definition php3_unserialize :: "pval \<Rightarrow> pval option" where
  "php3_unserialize v =
     (case v of
        IS_STRING s \<Rightarrow> do {
          r \<leftarrow> var_unserialize (length s + 1) (s @ [NUL]);
          Some (case r of None \<Rightarrow> var_reset | Some (x, p) \<Rightarrow> x)
        }
      | _ \<Rightarrow> Some var_reset)"

subsection \<open>\<^verbatim>\<open>var_dump\<close>\<close>

text \<open>The output; \<^verbatim>\<open>%*c\<close> without its first character indents by \<open>level - 1\<close>.\<close>

definition indent :: "nat \<Rightarrow> string" where
  "indent level = replicate (level - 1) (CHR '' '')"

definition newline :: string where "newline = [CHR 0x0A]"

definition dump_string :: "nat \<Rightarrow> string \<Rightarrow> string" where
  "dump_string level s =
     indent level @ ''string('' @ dec_of_int (int (length s)) @ '') '' @ [CHR 0x22] @ s @ [CHR 0x22] @ newline"

fun dump_key :: "nat \<Rightarrow> hkey \<Rightarrow> string" where
  "dump_key level (IntKey h) = indent level @ ''int('' @ dec_of_int (sint h) @ '')'' @ newline"
| "dump_key level (StrKey k) = dump_string level (c_str k)"

text \<open>A newline stands before every element but the first.\<close>

fun join_with :: "string \<Rightarrow> string list \<Rightarrow> string" where
  "join_with sep [] = []"
| "join_with sep [x] = x"
| "join_with sep (x # y # xs) = x @ sep @ join_with sep (y # xs)"

fun var_dump :: "nat \<Rightarrow> pval \<Rightarrow> string" where
  "var_dump level (IS_LONG n) = indent level @ ''int('' @ dec_of_int (sint n) @ '')'' @ newline"
| "var_dump level (IS_DOUBLE d) = indent level @ ''float('' @ format_g d @ '')'' @ newline"
| "var_dump level (IS_STRING s) = dump_string level s"
| "var_dump level (IS_ARRAY a) =
     indent level @ ''array('' @ dec_of_int (int (arr_size a)) @ '') {'' @ newline @
     join_with newline (map (\<lambda>(k, v). dump_key (level + 2) k @ var_dump (level + 2) v) (ents a)) @
     indent level @ ''}'' @ newline"
| "var_dump level (IS_OBJECT a) =
     indent level @ ''object('' @ dec_of_int (int (arr_size a)) @ '') {'' @ newline @
     join_with newline (map (\<lambda>(k, v). dump_key (level + 2) k @ var_dump (level + 2) v) (ents a)) @
     indent level @ ''}'' @ newline"
| "var_dump level _ = indent level @ ''i:0'' @ newline"

definition php3_var_dump :: "pval \<Rightarrow> string" where
  "php3_var_dump v = var_dump 1 v"

end
