(* ===== verification/Serialize_Properties.thy ===== *)
theory Serialize_Properties
  imports Php_Serialize
begin

text \<open>What \<^verbatim>\<open>unserialize\<close> makes of the output of \<^verbatim>\<open>serialize\<close>.\<close>

subsection \<open>Numbers in a text\<close>

lemma digits_no_special: "is_digit c \<Longrightarrow> c \<noteq> NUL \<and> c \<noteq> CHR '':'' \<and> c \<noteq> CHR '';'' \<and> c \<noteq> CHR ''-''"
  by (auto simp: is_digit_def byte_of_def)

lemma dec_of_int_chars:
  "\<forall>c \<in> set (dec_of_int n). c \<noteq> NUL \<and> c \<noteq> CHR '':'' \<and> c \<noteq> CHR '';''" "dec_of_int n \<noteq> []"
proof -
  have d: "c \<noteq> NUL \<and> c \<noteq> CHR '':'' \<and> c \<noteq> CHR '';''" if "0 \<le> k" "c \<in> set (dec_digits k)" for k c
    using dec_digits_value[OF that(1)] digits_no_special[of c] that(2) by blast
  show "\<forall>c \<in> set (dec_of_int n). c \<noteq> NUL \<and> c \<noteq> CHR '':'' \<and> c \<noteq> CHR '';''"
  proof
    fix c assume "c \<in> set (dec_of_int n)"
    then have "n < 0 \<and> c = CHR ''-'' \<or> n < 0 \<and> c \<in> set (dec_digits (- n)) \<or> 0 \<le> n \<and> c \<in> set (dec_digits n)"
      by (simp add: dec_of_int_def split: if_splits)
    then show "c \<noteq> NUL \<and> c \<noteq> CHR '':'' \<and> c \<noteq> CHR '';''"
    proof (elim disjE conjE)
      assume "n < 0" "c \<in> set (dec_digits (- n))"
      then show ?thesis using d[of "- n" c] by simp
    qed (use d[of n c] in simp_all)
  qed
  have "dec_digits k \<noteq> []" for k by (subst dec_digits.simps) simp
  then show "dec_of_int n \<noteq> []" by (simp add: dec_of_int_def)
qed

lemma scan_digits_stop:
  assumes "\<forall>c \<in> set ds. is_digit c" "digit_val e = None"
  shows "scan_digits 10 (ds @ e # r) acc n =
    (foldl (\<lambda>n c. n * 10 + (int (byte_of c) - 48)) acc ds, n + length ds)"
  using assms(1)
proof (induction ds arbitrary: acc n)
  case Nil
  then show ?case by (simp add: assms(2))
next
  case (Cons c ds)
  then have c: "is_digit c" "48 \<le> byte_of c" "byte_of c \<le> 57" by (auto simp: is_digit_def)
  then have "digit_val c = Some (byte_of c - 48)" "byte_of c - 48 < 10" by (simp_all add: digit_val_def)
  then show ?case using Cons c by simp
qed

lemma strtol_dec_digits:
  assumes "0 \<le> n" "digit_val e = None" "n \<le> LONG_MAX + (if neg then 1 else 0)"
  shows "fst (strtol 10 ((if neg then ''-'' else []) @ dec_digits n @ e # r)) = (if neg then - n else n)"
proof -
  have d: "dec_value (dec_digits n) = n" "\<forall>c \<in> set (dec_digits n). is_digit c" using dec_digits_value[OF assms(1)] by auto
  obtain c cs where ds: "dec_digits n = c # cs" by (cases "dec_digits n") (use dec_of_int_chars(2)[of n] assms(1) in \<open>auto simp: dec_of_int_def\<close>)
  have "is_digit c" using d(2) ds by simp
  then have c: "\<not> is_space c" "c \<noteq> CHR ''-''" "c \<noteq> CHR ''+''"
    by (auto simp: is_digit_def is_space_def byte_of_def)
  have m: "\<not> is_space (CHR ''-'')" by (simp add: is_space_def byte_of_def)
  have "scan_digits 10 (dec_digits n @ e # r) 0 0 = (n, length (dec_digits n))"
    using scan_digits_stop[OF d(2) assms(2), of r 0 0] d(1) by (simp add: dec_value_def)
  then show ?thesis using c m assms ds
    by (cases neg) (auto simp: strtol_def Let_def LONG_MAX_def LONG_MIN_def split: list.splits)
qed

lemma atol_dec:
  assumes "LONG_MIN \<le> n" "n \<le> LONG_MAX" "digit_val e = None" "e \<noteq> NUL"
  shows "atol (dec_of_int n @ e # r) = n"
proof -
  have "c_str (dec_of_int n @ e # r) = dec_of_int n @ e # c_str r"
    using dec_of_int_chars(1)[of n] assms(4) by (simp add: c_str_def takeWhile_append)
  moreover have "fst (strtol 10 (dec_of_int n @ e # c_str r)) = n"
    using strtol_dec_digits[of n e False "c_str r"] strtol_dec_digits[of "- n" e True "c_str r"] assms
    by (auto simp: dec_of_int_def LONG_MAX_def LONG_MIN_def)
  ultimately show ?thesis by (simp add: atol_def)
qed

lemma separators: "digit_val (CHR '';'') = None" "digit_val (CHR '':'') = None"
  by (simp_all add: digit_val_def is_digit_def is_lower_def is_upper_def byte_of_def)

lemma skip_to_found:
  "\<forall>d \<in> set xs. d \<noteq> NUL \<and> d \<noteq> c \<Longrightarrow> skip_to c (xs @ c # r) = c # r"
  unfolding skip_to_def by (simp add: dropWhile_append)

lemma read_number_text:
  assumes "\<forall>d \<in> set x. d \<noteq> NUL \<and> d \<noteq> CHR '';''"
  shows "read_number (CHR '':'' # x @ CHR '';'' # r) = Some (Some (x @ CHR '';'' # r, r))"
  using skip_to_found[of "CHR '':'' # x" "CHR '';''" r] assms by (simp add: read_number_def)

lemma sint_long_bounds: "LONG_MIN \<le> sint (n :: ulong)" "sint (n :: ulong) \<le> LONG_MAX"
  using sint_ge[of n] sint_lt[of n] by (simp_all add: LONG_MIN_def LONG_MAX_def)

lemma read_long:
  "p \<noteq> [] \<Longrightarrow> var_unserialize (Suc k) (serialize_long n @ p) = Some (Some (IS_LONG n, p))"
  using read_number_text[of "dec_of_int (sint n)" p] dec_of_int_chars(1)[of "sint n"]
    atol_dec[OF sint_long_bounds, of "CHR '';''" n p] separators
  by (simp add: serialize_long_def)

lemma read_string_text:
  assumes "length s < 2 ^ 31" "p \<noteq> []"
  shows "var_unserialize (Suc k) (serialize_string s @ p) = Some (Some (IS_STRING s, p))"
proof -
  let ?r = "CHR 0x22 # s @ CHR 0x22 # CHR '';'' # p"
  have "skip_to (CHR '':'') (dec_of_int (int (length s)) @ CHR '':'' # ?r) = CHR '':'' # ?r"
    by (rule skip_to_found) (use dec_of_int_chars(1) in auto)
  moreover have "int (length s) < int (2 ^ 31)" using assms(1) by (simp only: of_nat_less_iff)
  then have "int (length s) \<le> LONG_MAX" by (simp add: LONG_MAX_def)
  then have "atol (dec_of_int (int (length s)) @ CHR '':'' # ?r) = int (length s)"
    using atol_dec[of "int (length s)" "CHR '':''" ?r] separators by (simp add: LONG_MIN_def)
  moreover have "?r ! (1 + length s) = CHR 0x22" "?r ! (2 + length s) = CHR '';''" by (simp_all add: nth_append)
  moreover have "0 < length p" using assms(2) by simp
  moreover have "take (length s) (drop 1 ?r) = s" "drop (3 + length s) ?r = p" by (simp_all add: numeral_3_eq_3)
  ultimately have "read_string (CHR '':'' # dec_of_int (int (length s)) @ CHR '':'' # ?r) = Some (Some (s, p))"
    by (simp add: read_string_def Let_def)
  then show ?thesis by (simp add: serialize_string_def)
qed

lemma takeWhile_stop: "\<not> P e \<Longrightarrow> takeWhile P (g @ e # z) = takeWhile P g"
  by (induction g) auto

lemma drop_takeWhile: "drop (length (takeWhile P g)) (g @ y) = dropWhile P g @ y"
  by (induction g) auto

lemma scan_digits_any:
  "digit_val e = None \<Longrightarrow> scan_digits b (g @ e # z) a n = scan_digits b (g @ [e]) a n"
  by (induction g arbitrary: a n) (auto split: option.splits)

lemma strtod_stop:
  "fst (strtod (g @ CHR '';'' # z)) = fst (strtod (g @ '';''))"
proof -
  have e: "\<not> is_space (CHR '';'')" "\<not> is_digit (CHR '';'')" "CHR '';'' \<noteq> CHR ''.''"
    by (simp_all add: is_space_def is_digit_def byte_of_def)
  define g1 where "g1 = dropWhile is_space g"
  define sg where "sg = (case g1 of c # _ \<Rightarrow> c = CHR ''-'' \<or> c = CHR ''+'' | [] \<Rightarrow> False)"
  define neg where "neg = (case g1 of c # _ \<Rightarrow> c = CHR ''-'' | [] \<Rightarrow> False)"
  define g2 where "g2 = (if sg then drop 1 g1 else g1)"
  define ip where "ip = takeWhile is_digit g2"
  define g3 where "g3 = dropWhile is_digit g2"
  define dot where "dot = (case g3 of c # _ \<Rightarrow> c = CHR ''.'' | [] \<Rightarrow> False)"
  define fp where "fp = (if dot then takeWhile is_digit (drop 1 g3) else [])"
  define g4 where "g4 = (if dot then dropWhile is_digit (drop 1 g3) else g3)"
  have a: "drop (length (takeWhile is_space g)) (g @ CHR '';'' # z) = g1 @ CHR '';'' # z" for z
    by (simp only: drop_takeWhile g1_def)
  have b: "(case g1 @ CHR '';'' # z of c # _ \<Rightarrow> c = CHR ''-'' | [] \<Rightarrow> False) = neg"
    "(case g1 @ CHR '';'' # z of c # _ \<Rightarrow> c = CHR ''-'' \<or> c = CHR ''+'' | [] \<Rightarrow> False) = sg" for z
    by (cases g1; simp add: neg_def sg_def)+
  have c: "(if sg then drop 1 (g1 @ CHR '';'' # z) else g1 @ CHR '';'' # z) = g2 @ CHR '';'' # z" for z
    by (cases g1) (simp_all add: g2_def sg_def)
  have d: "takeWhile is_digit (g2 @ CHR '';'' # z) = ip" "drop (length ip) (g2 @ CHR '';'' # z) = g3 @ CHR '';'' # z" for z
    by (simp only: takeWhile_stop[of is_digit, OF e(2)] ip_def, simp only: ip_def g3_def drop_takeWhile)
  have f: "(case g3 @ CHR '';'' # z of c # _ \<Rightarrow> c = CHR ''.'' | [] \<Rightarrow> False) = dot" for z
    by (cases g3) (simp_all add: dot_def)
  have h: "(if dot then takeWhile is_digit (drop 1 (g3 @ CHR '';'' # z)) else []) = fp"
    "(if dot then drop (1 + length fp) (g3 @ CHR '';'' # z) else g3 @ CHR '';'' # z) = g4 @ CHR '';'' # z" for z
    using e by (cases g3; simp add: dot_def fp_def g4_def takeWhile_stop drop_takeWhile del: drop_append)+
  define ex where "ex = (\<lambda>s4. case s4 of
      c # r \<Rightarrow>
        if c = CHR ''e'' \<or> c = CHR ''E'' then
          (let eneg = (case r of d # _ \<Rightarrow> d = CHR ''-'' | [] \<Rightarrow> False);
               esg = (case r of d # _ \<Rightarrow> d = CHR ''-'' \<or> d = CHR ''+'' | [] \<Rightarrow> False);
               (v, n) = scan_digits 10 (if esg then drop 1 r else r) 0 0
           in if n = 0 then (0, 0) else (if eneg then - v else v, 1 + (if esg then 1 else 0) + n))
        else (0, 0)
    | [] \<Rightarrow> (0, 0))"
  have x: "ex (g4 @ CHR '';'' # z) = ex (g4 @ '';'')"
  proof (cases g4)
    case (Cons c r)
    have s: "scan_digits 10 (y @ CHR '';'' # z) 0 0 = scan_digits 10 (y @ '';'') 0 0" for y
      by (rule scan_digits_any[OF separators(1)])
    have s0: "scan_digits 10 (CHR '';'' # z) 0 0 = scan_digits 10 '';'' 0 0" using s[of "[]"] by simp
    have s1: "scan_digits 10 (h # y @ CHR '';'' # z) 0 0 = scan_digits 10 (h # y @ '';'') 0 0" for h y using s[of "h # y"] by simp
    show ?thesis unfolding Cons ex_def by (cases r) (simp_all add: s s0 s1 Let_def del: scan_digits.simps)
  qed (simp add: ex_def)
  have exs: "(case s4 of
      c # r \<Rightarrow>
        if c = CHR ''e'' \<or> c = CHR ''E'' then
          (case scan_digits 10 (if (case r of d # _ \<Rightarrow> d = CHR ''-'' \<or> d = CHR ''+'' | [] \<Rightarrow> False) then drop 1 r else r) 0 0 of
             (v, n) \<Rightarrow> if n = 0 then (0, 0)
               else (if (case r of d # _ \<Rightarrow> d = CHR ''-'' | [] \<Rightarrow> False) then - v else v,
                     1 + (if (case r of d # _ \<Rightarrow> d = CHR ''-'' \<or> d = CHR ''+'' | [] \<Rightarrow> False) then 1 else 0) + n))
        else (0, 0)
    | [] \<Rightarrow> (0, 0)) = ex s4" for s4 unfolding ex_def Let_def by (rule refl)
  have m: "fst (strtod (g @ CHR '';'' # z)) =
      (case ex (g4 @ CHR '';'' # z) of (x, _) \<Rightarrow>
        (case scale_dec (x - int (length fp)) (fst (scan_digits 10 (ip @ fp) 0 0)) 1 of (a, b) \<Rightarrow>
           if ip = [] \<and> fp = [] then dzero else mk_double neg a b))" for z
    unfolding strtod_def Let_def takeWhile_stop[of is_space, OF e(1)] a b c d f h exs
    by (cases "ex (g4 @ CHR '';'' # z)"; cases "ip = [] \<and> fp = []") (auto split: prod.split)
  show ?thesis unfolding m[of z] m[of "[]"] x by simp
qed

subsection \<open>Values that come back\<close>

text \<open>A key whose text determines it: its only NUL is the last byte.\<close>

fun key_ok :: "hkey \<Rightarrow> bool" where
  "key_ok (IntKey h) \<longleftrightarrow> True"
| "key_ok (StrKey k) \<longleftrightarrow> k \<noteq> [] \<and> List.last k = NUL \<and> NUL \<notin> set (butlast k) \<and> handle_numeric k = None \<and> length k \<le> 2 ^ 31"

text \<open>Integers, strings, doubles with at most six digits, and arrays and objects of these.\<close>

fun plain :: "pval \<Rightarrow> bool" where
  "plain (IS_LONG n) \<longleftrightarrow> True"
| "plain (IS_DOUBLE d) \<longleftrightarrow> fst (strtod (format_g d @ '';'')) = d \<and> (\<forall>c \<in> set (format_g d). c \<noteq> NUL \<and> c \<noteq> CHR '';'')"
| "plain (IS_STRING s) \<longleftrightarrow> length s < 2 ^ 31"
| "plain (IS_ARRAY a) \<longleftrightarrow> arr_inv a \<and> arr_size a < 2 ^ 31 \<and> (\<forall>(k, v) \<in> set (ents a). key_ok k \<and> plain v)"
| "plain (IS_OBJECT a) \<longleftrightarrow> arr_inv a \<and> arr_size a < 2 ^ 31 \<and> (\<forall>(k, v) \<in> set (ents a). key_ok k \<and> plain v)"
| "plain _ \<longleftrightarrow> False"

text \<open>The next free index of an array that is built from its entries.\<close>

definition next_after :: "(hkey \<times> 'a) list \<Rightarrow> ulong \<Rightarrow> ulong" where
  "next_after es n = foldl (\<lambda>n p. bump_next (fst p) n) n es"

text \<open>The same value, with the next free index of each array computed anew.\<close>

fun rebuilt :: "pval \<Rightarrow> pval" where
  "rebuilt (IS_ARRAY a) = IS_ARRAY (PArr (map (\<lambda>(k, v). (k, rebuilt v)) (ents a)) (next_after (ents a) 0))"
| "rebuilt (IS_OBJECT a) = IS_OBJECT (PArr (map (\<lambda>(k, v). (k, rebuilt v)) (ents a)) (next_after (ents a) 0))"
| "rebuilt v = v"

fun key_value :: "hkey \<Rightarrow> pval" where
  "key_value (IntKey h) = IS_LONG h"
| "key_value (StrKey k) = IS_STRING (c_str k)"

lemma key_text:
  assumes "key_ok (StrKey k)"
  shows "c_str k = butlast k" "arr_key (c_str k) = StrKey k"
proof -
  have k: "k = butlast k @ [NUL]" using assms by (metis append_butlast_last_id key_ok.simps(2))
  have "c_str (butlast k @ [NUL]) = butlast k"
    unfolding c_str_def using assms by (subst takeWhile_append2) auto
  then show c: "c_str k = butlast k" using k by simp
  show "arr_key (c_str k) = StrKey k" unfolding arr_key_def c k[symmetric] using assms by (simp add: norm_key_def)
qed

lemma read_key:
  assumes "key_ok k" "r \<noteq> []"
  shows "var_unserialize (Suc n) (serialize_key k @ r) = Some (Some (key_value k, r))"
proof (cases k)
  case (IntKey h)
  then show ?thesis using read_long[OF assms(2)] by simp
next
  case (StrKey s)
  have "length (c_str s) < 2 ^ 31" using assms(1) key_text(1)[of s] unfolding StrKey by (cases s) auto
  then show ?thesis using read_string_text[OF _ assms(2)] StrKey by simp
qed

lemma add_element_key:
  assumes "key_ok k" "k \<notin> fst ` set (ents a)"
  shows "add_element (key_value k) v a = PArr (ents a @ [(k, v)]) (bump_next k (next_free a))"
proof -
  have "add_element (key_value k) v a = arr_update a k v"
    using assms key_text(2) by (cases k) (simp_all add: add_element_def arr_find_def map_of_eq_None_iff)
  then show ?thesis using assms(2) by (simp add: arr_update_def alist_update_new)
qed

lemma serialize_key_start: "\<exists>c x. serialize_key k = c # x \<and> c \<noteq> NUL \<and> c \<noteq> CHR ''}''"
  by (cases k) (simp_all add: serialize_long_def serialize_string_def)

definition element_text :: "hkey \<times> pval \<Rightarrow> string" where
  "element_text e = (case e of (k, v) \<Rightarrow> serialize_key k @ var_serialize v)"

lemma read_elements:
  assumes "\<forall>(k, v) \<in> set es. key_ok k" "distinct (map fst es)" "fst ` set es \<inter> fst ` set (ents a) = {}" "length es < m"
    and "\<And>k v r. (k, v) \<in> set es \<Longrightarrow> r \<noteq> [] \<Longrightarrow> read (serialize_key k @ r) = Some (Some (key_value k, r)) \<and>
      read (var_serialize v @ r) = Some (Some (rebuilt v, r))"
  shows "unserialize_elements m read (int (length es)) (concat (map element_text es) @ CHR ''}'' # r) a =
    Some (Some (PArr (ents a @ map (\<lambda>(k, v). (k, rebuilt v)) es) (next_after es (next_free a)), CHR ''}'' # r))"
  using assms
proof (induction es arbitrary: m a)
  case Nil
  then obtain m' where "m = Suc m'" by (cases m) auto
  then show ?case by (simp add: next_after_def)
next
  case (Cons e es)
  obtain k v where e: "e = (k, v)" by (cases e)
  obtain m' where m: "m = Suc m'" "length es < m'" using Cons.prems(4) by (cases m) auto
  let ?rest = "concat (map element_text es) @ CHR ''}'' # r"
  obtain c x where cx: "serialize_key k = c # x" "c \<noteq> NUL" "c \<noteq> CHR ''}''" using serialize_key_start by blast
  let ?a = "add_element (key_value k) (rebuilt v) a"
  have a: "?a = PArr (ents a @ [(k, rebuilt v)]) (bump_next k (next_free a))"
    using Cons.prems(1,3) e by (intro add_element_key) auto
  have k: "read (serialize_key k @ var_serialize v @ ?rest) = Some (Some (key_value k, var_serialize v @ ?rest))"
    using Cons.prems(5)[of k v "var_serialize v @ ?rest"] e by simp
  have v: "read (var_serialize v @ ?rest) = Some (Some (rebuilt v, ?rest))"
    using Cons.prems(5)[of k v ?rest] e by simp
  have "unserialize_elements m' read (int (length es)) ?rest ?a =
      Some (Some (PArr (ents ?a @ map (\<lambda>(k, v). (k, rebuilt v)) es) (next_after es (next_free ?a)), CHR ''}'' # r))"
  proof (rule Cons.IH)
    show "fst ` set es \<inter> fst ` set (ents ?a) = {}" using Cons.prems(2,3) e a by auto
  qed (use Cons.prems m(2) in auto)
  then have "unserialize_elements m' read (int (length es)) ?rest ?a =
      Some (Some (PArr (ents a @ map (\<lambda>(k, v). (k, rebuilt v)) (e # es)) (next_after (e # es) (next_free a)), CHR ''}'' # r))"
    by (simp add: a e next_after_def)
  moreover have "concat (map element_text (e # es)) @ CHR ''}'' # r = c # x @ var_serialize v @ ?rest"
    by (simp add: e element_text_def cx(1))
  ultimately show ?case using cx k v by (simp add: m(1))
qed

lemma element_text_eq: "(\<lambda>(k, v). serialize_key k @ var_serialize v) = element_text"
  by (simp add: element_text_def fun_eq_iff)

lemma element_text_pos: "0 < length (element_text e)"
  using serialize_key_start[of "fst e"] by (auto simp: element_text_def split: prod.splits)

lemma concat_length: "length es \<le> length (concat (map element_text es))"
  by (induction es) (use element_text_pos in \<open>auto simp: Suc_le_eq add_strict_increasing\<close>)

lemma element_length:
  "(k, v) \<in> set es \<Longrightarrow> length (serialize_key k) + length (var_serialize v) \<le> length (concat (map element_text es))"
  by (induction es) (auto simp: element_text_def)

lemma read_array_text:
  assumes "t \<noteq> NUL" "arr_size a < 2 ^ 31" "arr_inv a" "\<forall>(k, v) \<in> set (ents a). key_ok k"
    and "p = t # CHR '':'' # dec_of_int (int (arr_size a)) @ CHR '':'' # CHR ''{'' # concat (map element_text (ents a)) @ CHR ''}'' # r"
    and "\<And>k v r. (k, v) \<in> set (ents a) \<Longrightarrow> r \<noteq> [] \<Longrightarrow> read (serialize_key k @ r) = Some (Some (key_value k, r)) \<and>
      read (var_serialize v @ r) = Some (Some (rebuilt v, r))"
  shows "unserialize_array (length p) read mk p =
    Some (Some (mk (PArr (map (\<lambda>(k, v). (k, rebuilt v)) (ents a)) (next_after (ents a) 0)), r))"
proof -
  let ?body = "concat (map element_text (ents a)) @ CHR ''}'' # r"
  let ?q = "dec_of_int (int (arr_size a)) @ CHR '':'' # CHR ''{'' # ?body"
  have "skip_to (CHR '':'') ?q = CHR '':'' # CHR ''{'' # ?body"
    by (rule skip_to_found) (use dec_of_int_chars(1) in auto)
  moreover have "int (arr_size a) < int (2 ^ 31)" using assms(2) by (simp only: of_nat_less_iff)
  then have "int (arr_size a) \<le> LONG_MAX" by (simp add: LONG_MAX_def)
  then have "atol ?q = int (arr_size a)"
    using atol_dec[of "int (arr_size a)" "CHR '':''" "CHR ''{'' # ?body"] separators by (simp add: LONG_MIN_def)
  ultimately have h: "read_array_head p = Some (Some (int (length (ents a)), ?body))"
    by (simp add: read_array_head_def Let_def assms(5) arr_size_def)
  have "length (ents a) < length p" using concat_length[of "ents a"] by (simp add: assms(5))
  then have "unserialize_elements (length p) read (int (length (ents a))) ?body arr_empty =
      Some (Some (PArr (map (\<lambda>(k, v). (k, rebuilt v)) (ents a)) (next_after (ents a) 0), CHR ''}'' # r))"
    using read_elements[of "ents a" arr_empty "length p" read r] assms(3,4,6) by (simp add: arr_empty_def arr_inv_def)
  then show ?thesis using h by (simp add: unserialize_array_def)
qed

definition array_text :: "char \<Rightarrow> pval parray \<Rightarrow> string" where
  "array_text t a = t # CHR '':'' # dec_of_int (int (arr_size a)) @ CHR '':'' # CHR ''{'' # concat (map element_text (ents a)) @ ''}''"

lemma read_array_written:
  assumes IH: "\<And>l v r n. (l, v) \<in> set (ents a) \<Longrightarrow> plain v \<Longrightarrow> r \<noteq> [] \<Longrightarrow> length (var_serialize v) \<le> n \<Longrightarrow>
      var_unserialize n (var_serialize v @ r) = Some (Some (rebuilt v, r))"
    and a: "t \<noteq> NUL" "arr_inv a" "arr_size a < 2 ^ 31" "\<forall>(k, v) \<in> set (ents a). key_ok k \<and> plain v"
    and k: "length (array_text t a) \<le> Suc k"
  shows "unserialize_array (length (array_text t a @ r)) (var_unserialize k) mk (array_text t a @ r) =
    Some (Some (mk (PArr (map (\<lambda>(k, v). (k, rebuilt v)) (ents a)) (next_after (ents a) 0)), r))"
proof (rule read_array_text[OF a(1,3,2)])
  have len: "length (serialize_key l) + length (var_serialize v) \<le> k" if "(l, v) \<in> set (ents a)" for l v
    using k element_length[OF that] by (simp add: array_text_def)
  show "var_unserialize k (serialize_key l @ r) = Some (Some (key_value l, r)) \<and>
      var_unserialize k (var_serialize v @ r) = Some (Some (rebuilt v, r))" if e: "(l, v) \<in> set (ents a)" "r \<noteq> []" for l v r
  proof
    have "0 < length (serialize_key l)" using serialize_key_start[of l] by auto
    then obtain j where "k = Suc j" using len[OF e(1)] by (cases k) auto
    moreover have "key_ok l" using a(4) e(1) by auto
    ultimately show "var_unserialize k (serialize_key l @ r) = Some (Some (key_value l, r))" using read_key[OF _ e(2)] by blast
    show "var_unserialize k (var_serialize v @ r) = Some (Some (rebuilt v, r))"
      using IH[OF e(1) _ e(2), of k] a(4) e(1) len[OF e(1)] by auto
  qed
qed (use a in \<open>auto simp: array_text_def\<close>)

lemma read_written:
  assumes "plain v" "r \<noteq> []" "length (var_serialize v) \<le> n"
  shows "var_unserialize n (var_serialize v @ r) = Some (Some (rebuilt v, r))"
  using assms
proof (induction v arbitrary: r n rule: var_serialize.induct)
  case (1 i)
  then obtain k where "n = Suc k" by (cases n) (auto simp: serialize_long_def)
  then show ?case using read_long[OF 1(2)] by simp
next
  case (2 d)
  then obtain k where n: "n = Suc k" by (cases n) auto
  have chars: "\<forall>c \<in> set (format_g d). c \<noteq> NUL \<and> c \<noteq> CHR '';''" and eq: "fst (strtod (format_g d @ '';'')) = d" using 2(1) by auto
  have "c_str (format_g d @ CHR '';'' # r) = format_g d @ CHR '';'' # c_str r"
    using chars by (simp add: c_str_def takeWhile_append)
  then have "fst (strtod (c_str (format_g d @ CHR '';'' # r))) = d" using strtod_stop[of "format_g d" "c_str r"] eq by simp
  moreover have "read_number (CHR '':'' # format_g d @ CHR '';'' # r) = Some (Some (format_g d @ CHR '';'' # r, r))"
    by (rule read_number_text[OF chars])
  ultimately show ?case by (simp add: n)
next
  case (3 s)
  then obtain k where "n = Suc k" by (cases n) (auto simp: serialize_string_def)
  then show ?case using read_string_text[OF _ 3(2)] 3(1) by simp
next
  case (4 a)
  have "\<And>l v r n. (l, v) \<in> set (ents a) \<Longrightarrow> plain v \<Longrightarrow> r \<noteq> [] \<Longrightarrow> length (var_serialize v) \<le> n \<Longrightarrow>
      var_unserialize n (var_serialize v @ r) = Some (Some (rebuilt v, r))" using 4(1) by blast
  then have "unserialize_array (length (array_text (CHR ''a'') a @ r)) (var_unserialize k) IS_ARRAY (array_text (CHR ''a'') a @ r) =
      Some (Some (IS_ARRAY (PArr (map (\<lambda>(k, v). (k, rebuilt v)) (ents a)) (next_after (ents a) 0)), r))" if "n = Suc k" for k
    by (rule read_array_written) (use 4(2,4) that in \<open>simp_all add: array_text_def element_text_eq\<close>)
  then show ?case using 4(4) by (cases n) (simp_all add: array_text_def element_text_eq)
next
  case (5 a)
  have "\<And>l v r n. (l, v) \<in> set (ents a) \<Longrightarrow> plain v \<Longrightarrow> r \<noteq> [] \<Longrightarrow> length (var_serialize v) \<le> n \<Longrightarrow>
      var_unserialize n (var_serialize v @ r) = Some (Some (rebuilt v, r))" using 5(1) by blast
  then have "unserialize_array (length (array_text (CHR ''o'') a @ r)) (var_unserialize k) IS_OBJECT (array_text (CHR ''o'') a @ r) =
      Some (Some (IS_OBJECT (PArr (map (\<lambda>(k, v). (k, rebuilt v)) (ents a)) (next_after (ents a) 0)), r))" if "n = Suc k" for k
    by (rule read_array_written) (use 5(2,4) that in \<open>simp_all add: array_text_def element_text_eq\<close>)
  then show ?case using 5(4) by (cases n) (simp_all add: array_text_def element_text_eq)
qed auto

text \<open>C30: \<^verbatim>\<open>unserialize\<close> gives back every value of integers, strings, doubles that six digits determine, and arrays and
  objects of these, nested to any depth and with their keys in order, that \<^verbatim>\<open>serialize\<close> has written; it reads nothing behind the
  text. Only the next free index of the arrays is computed anew. The keys are indices and strings that hold no NUL byte (and
  are no numbers, which an array stores as indices), and the lengths and the text are below \<open>2 ^ 31\<close>. A string key with a NUL byte is
  written like the key of the bytes before it, and so does not come back.\<close>
theorem serialize_round_trip:
  assumes "plain v" "length (var_serialize v) < 2 ^ 31"
  shows "php3_unserialize (php3_serialize v) = Some (rebuilt v) \<and>
    (NUL \<notin> set k \<longrightarrow> serialize_key (StrKey (k @ NUL # l)) = serialize_key (StrKey (k @ [NUL])))"
  using read_written[OF assms(1), of "[NUL]" "length (var_serialize v) + 1"]
  by (simp add: php3_unserialize_def php3_serialize_def c_str_def takeWhile_append)

text \<open>A list that holds another one, with a string key.\<close>

definition nested_value :: pval where
  "nested_value = IS_ARRAY (PArr [(IntKey 3, IS_STRING ''a;b''), (StrKey (''k'' @ [NUL]),
     IS_OBJECT (PArr [(IntKey 0, IS_LONG (- 7))] 1))] 9)"

lemma nested_value_plain: "plain nested_value"
  by (simp add: nested_value_def arr_inv_def arr_size_def handle_numeric_def is_digit_def byte_of_def)

lemma serialize_round_trip_witness:
  "php3_unserialize (php3_serialize nested_value) =
     Some (IS_ARRAY (PArr [(IntKey 3, IS_STRING ''a;b''), (StrKey (''k'' @ [NUL]),
       IS_OBJECT (PArr [(IntKey 0, IS_LONG (- 7))] 1))] 4)) \<and>
   serialize_key (StrKey (''k'' @ NUL # ''l'')) = serialize_key (StrKey (''k'' @ [NUL]))"
proof -
  have "rebuilt nested_value = IS_ARRAY (PArr [(IntKey 3, IS_STRING ''a;b''), (StrKey (''k'' @ [NUL]),
       IS_OBJECT (PArr [(IntKey 0, IS_LONG (- 7))] 1))] 4)" by code_simp
  moreover have "length (var_serialize nested_value) < 2 ^ 31"
  proof -
    have "length (var_serialize nested_value) < 200" by code_simp
    then show ?thesis by simp
  qed
  ultimately show ?thesis using serialize_round_trip[OF nested_value_plain, of "''k''" "''l''"] by simp
qed

end
