(* ===== verification/Unserialize_Bounds.thy ===== *)
theory Unserialize_Bounds
  imports Serialize_Properties "HOL-Library.Sublist"
begin

text \<open>
  \<^verbatim>\<open>unserialize\<close> on any text: every call leaves a proper rest of what it was given, so that the bound on the depth of
  the calls never shows; and when it reads behind the end of the text.
\<close>

text \<open>\<open>r\<close> is a proper rest of \<open>p\<close>.\<close>

definition behind :: "string \<Rightarrow> string \<Rightarrow> bool" where
  "behind r p \<longleftrightarrow> suffix r p \<and> length r < length p"

lemma behind_trans: "behind r q \<Longrightarrow> behind q p \<Longrightarrow> behind r p"
  unfolding behind_def by (meson less_trans suffix_order.trans)

lemma behind_Cons: "suffix r q \<Longrightarrow> behind r (c # q)"
  by (auto simp: behind_def suffix_ConsI le_imp_less_Suc suffix_length_le)

lemma behind_suffix: "behind r q \<Longrightarrow> suffix q p \<Longrightarrow> behind r p"
  unfolding behind_def by (meson le_trans less_le_trans suffix_length_le suffix_order.trans)

lemma skip_to_suffix: "suffix (skip_to c p) p"
  by (simp add: skip_to_def suffix_dropWhile)

lemma skip_to_behind: "skip_to c p = e # r \<Longrightarrow> behind r p"
  using behind_suffix[of r "e # r" p] behind_Cons[of r r e] skip_to_suffix[of c p] by simp

lemma read_number_behind: "read_number p = Some (Some (x, r)) \<Longrightarrow> behind r p"
  by (auto simp: read_number_def skip_to_behind split: list.splits if_splits)

lemma read_string_behind:
  assumes "read_string p = Some (Some (x, r))"
  shows "behind r p"
proof -
  obtain d q e s k where "p = d # q" "skip_to (CHR '':'') q = e # s" "r = drop (3 + k) s"
    using assms by (auto simp: read_string_def Let_def split: list.splits if_splits)
  then show ?thesis using skip_to_behind[of "CHR '':''" q e s] suffix_drop[of "3 + k" s]
    by (metis behind_Cons behind_def suffix_order.trans)
qed

lemma read_array_head_behind:
  assumes "read_array_head p = Some (Some (i, r))"
  shows "behind r p"
proof -
  obtain e b where "skip_to (CHR '':'') (drop 2 p) = e # b # r"
    using assms by (auto simp: read_array_head_def Let_def split: list.splits if_splits)
  then have "behind (b # r) (drop 2 p)" by (rule skip_to_behind)
  then show ?thesis using behind_suffix[OF _ suffix_drop] behind_trans[OF behind_Cons[of r r b]] by auto
qed

lemma unserialize_elements_behind:
  assumes "\<And>p v r. read p = Some (Some (v, r)) \<Longrightarrow> behind r p"
  shows "unserialize_elements m read i p a = Some (Some (b, r)) \<Longrightarrow> suffix r p"
proof (induction m arbitrary: i p a)
  case (Suc m)
  show ?case
  proof (cases "p = [] \<or> hd p = NUL \<or> hd p = CHR ''}'' \<or> i \<le> 0")
    case True
    then show ?thesis using Suc.prems by (auto split: if_splits)
  next
    case False
    then obtain k s d t where "read p = Some (Some (k, s))" "read s = Some (Some (d, t))"
      "unserialize_elements m read (i - 1) t (add_element k d a) = Some (Some (b, r))"
      using Suc.prems by (auto split: bind_splits option.splits)
    then show ?thesis using Suc.IH assms by (meson behind_def suffix_order.trans)
  qed
qed simp

lemma unserialize_array_behind:
  assumes "\<And>p v r. read p = Some (Some (v, r)) \<Longrightarrow> behind r p" "unserialize_array m read mk p = Some (Some (v, r))"
  shows "behind r p"
proof -
  obtain i s a t where h: "read_array_head p = Some (Some (i, s))" "unserialize_elements m read i s arr_empty = Some (Some (a, t))"
    "t \<noteq> []" "r = tl t"
    using assms(2) by (auto simp: unserialize_array_def split: bind_splits option.splits if_splits)
  have "suffix t s" by (rule unserialize_elements_behind[OF _ h(2)]) (rule assms(1))
  moreover have "behind s p" by (rule read_array_head_behind[OF h(1)])
  moreover have "suffix r t" using h(4) by (simp add: suffix_tl)
  ultimately show ?thesis by (meson behind_def le_less_trans suffix_length_le suffix_order.trans)
qed

lemma behind_tl: "behind r (tl p) \<Longrightarrow> behind r p"
  by (cases p) (auto simp: behind_def suffix_ConsI)

lemma var_unserialize_behind: "var_unserialize n p = Some (Some (v, r)) \<Longrightarrow> behind r p"
proof (induction n arbitrary: p v r)
  case (Suc n)
  show ?case using Suc.prems unserialize_array_behind[OF Suc.IH]
    by (auto simp: behind_tl read_number_behind read_string_behind split: if_splits)
qed simp

lemma unserialize_elements_cong:
  assumes "\<And>q. suffix q p \<Longrightarrow> read q = read' q" "\<And>q v r. read q = Some (Some (v, r)) \<Longrightarrow> behind r q" "length p < m" "length p < m'"
  shows "unserialize_elements m read i p a = unserialize_elements m' read' i p a"
  using assms(1,3,4)
proof (induction m arbitrary: m' i p a)
  case (Suc m)
  obtain k where m': "m' = Suc k" using Suc.prems(3) by (cases m') auto
  show ?case
  proof (cases "p = [] \<or> hd p = NUL \<or> hd p = CHR ''}'' \<or> i \<le> 0")
    case True
    then show ?thesis by (auto simp: m')
  next
    case False
    have p: "read p = read' p" using Suc.prems(1) by simp
    have r: "read s = read' s" if "read p = Some (Some (v, s))" for v s
      using assms(2)[OF that] Suc.prems(1) by (simp add: behind_def)
    have t: "unserialize_elements m read j t b = unserialize_elements k read' j t b"
      if "read p = Some (Some (v, s))" "read s = Some (Some (d, t))" for v s d t j b
    proof -
      have b: "behind t p" using assms(2) that behind_trans by blast
      show ?thesis
        by (rule Suc.IH) (use b Suc.prems m' in \<open>auto simp: behind_def intro: suffix_order.trans\<close>)
    qed
    show ?thesis
    proof (cases "read p")
      case (Some x)
      show ?thesis
      proof (cases x)
        case x: (Some y)
        obtain v s where y: "y = (v, s)" by (cases y)
        have e: "read p = Some (Some (v, s))" using Some x y by simp
        show ?thesis
        proof (cases "read s")
          case z: (Some z)
          have "read' p = Some (Some (v, s))" "read' s = Some z" using e p r[OF e] z by simp_all
          then show ?thesis using False e z t[OF e] by (cases z) (auto simp: m')
        next
          case None
          have "read' p = Some (Some (v, s))" "read' s = None" using e p r[OF e] None by simp_all
          then show ?thesis using False e None by (simp add: m')
        qed
      qed (use False Some p in \<open>auto simp: m'\<close>)
    qed (use False p in \<open>auto simp: m'\<close>)
  qed
qed simp

lemma depth_irrelevant:
  "length p \<le> n \<Longrightarrow> length p \<le> n' \<Longrightarrow> var_unserialize n p = var_unserialize n' p"
proof (induction n arbitrary: n' p)
  case 0
  then show ?case by (cases n') auto
next
  case (Suc n)
  show ?case
  proof (cases "p = []")
    case False
    then obtain k where n': "n' = Suc k" using Suc.prems(2) by (cases n') auto
    have "unserialize_array (length p) (var_unserialize n) mk p = unserialize_array (length p) (var_unserialize k) mk p" for mk
    proof (cases "read_array_head p")
      case (Some h)
      show ?thesis
      proof (cases h)
        case h: (Some y)
        obtain i s where y: "y = (i, s)" by (cases y)
        have b: "behind s p" using read_array_head_behind[of p i s] Some h y by simp
        have "unserialize_elements (length p) (var_unserialize n) i s arr_empty =
            unserialize_elements (length p) (var_unserialize k) i s arr_empty"
        proof (rule unserialize_elements_cong)
          fix q assume "suffix q s"
          then have "length q < length p" using b by (meson behind_def le_less_trans suffix_length_le)
          then show "var_unserialize n q = var_unserialize k q" using Suc.IH[of q k] Suc.prems n' by simp
        qed (use b var_unserialize_behind in \<open>auto simp: behind_def\<close>)
        then show ?thesis using Some h y by (simp add: unserialize_array_def)
      qed (simp add: Some unserialize_array_def)
    qed (simp add: unserialize_array_def)
    then show ?thesis by (simp add: n')
  qed (cases n'; simp)
qed

text \<open>A text with its NUL that does not end with an \<^verbatim>\<open>a\<close> or an \<^verbatim>\<open>o\<close>.\<close>

definition closed_text :: "string \<Rightarrow> bool" where
  "closed_text p \<longleftrightarrow> (\<exists>x. p = x @ [NUL] \<and> (x \<noteq> [] \<longrightarrow> List.last x \<noteq> CHR ''a'' \<and> List.last x \<noteq> CHR ''o''))"

lemma closed_text_suffix: "closed_text p \<Longrightarrow> suffix r p \<Longrightarrow> r \<noteq> [] \<Longrightarrow> closed_text r"
proof -
  assume p: "closed_text p" and r: "suffix r p" "r \<noteq> []"
  obtain x where x: "p = x @ [NUL]" "x \<noteq> [] \<longrightarrow> List.last x \<noteq> CHR ''a'' \<and> List.last x \<noteq> CHR ''o''"
    using p by (auto simp: closed_text_def)
  obtain u where "p = u @ r" using r(1) by (auto simp: suffix_def)
  then obtain y where "r = y @ [NUL]" "x = u @ y" using x(1) r(2) by (metis append_butlast_last_id append_assoc butlast_append butlast_snoc last_appendR last_snoc)
  then show "closed_text r" using x(2) by (auto simp: closed_text_def)
qed

lemma closed_text_NUL: "closed_text p \<Longrightarrow> NUL \<in> set p" "closed_text p \<Longrightarrow> p \<noteq> []"
  by (auto simp: closed_text_def)

lemma skip_to_defined: "NUL \<in> set p \<Longrightarrow> skip_to c p \<noteq> []"
  by (auto simp: skip_to_def dropWhile_eq_Nil_conv)

lemma closed_head: "closed_text (e # r) \<Longrightarrow> e \<noteq> NUL \<Longrightarrow> r \<noteq> [] \<and> closed_text r"
proof -
  assume c: "closed_text (e # r)" "e \<noteq> NUL"
  then have "r \<noteq> []" by (auto simp: closed_text_def Cons_eq_append_conv)
  then show ?thesis using closed_text_suffix[OF c(1)] by (simp add: suffix_ConsI)
qed

lemma read_number_defined:
  assumes "closed_text p"
  shows "\<exists>x. read_number p = Some x \<and> (\<forall>y r. x = Some (y, r) \<longrightarrow> closed_text r)"
proof -
  obtain d q where p: "p = d # q" using closed_text_NUL[OF assms] by (cases p) auto
  obtain e r where e: "skip_to (CHR '';'') p = e # r" using skip_to_defined[OF closed_text_NUL(1)[OF assms]] by (cases "skip_to (CHR '';'') p") auto
  have "closed_text (e # r)" using closed_text_suffix[OF assms] skip_to_suffix[of "CHR '';''" p] e by simp
  then have "e = CHR '';'' \<Longrightarrow> closed_text r" using closed_head[of e r] by simp
  then show ?thesis using p e by (auto simp: read_number_def)
qed

lemma read_string_defined:
  assumes "closed_text p"
  shows "\<exists>x. read_string p = Some x \<and> (\<forall>y r. x = Some (y, r) \<longrightarrow> closed_text r)"
proof -
  obtain d q where p: "p = d # q" using closed_text_NUL[OF assms] by (cases p) auto
  show ?thesis
  proof (cases "d = CHR '':''")
    case True
    then have q: "closed_text q" using closed_head[of d q] assms p by simp
    obtain e s where e: "skip_to (CHR '':'') q = e # s" using skip_to_defined[OF closed_text_NUL(1)[OF q]] by (cases "skip_to (CHR '':'') q") auto
    have c: "closed_text (e # s)" using closed_text_suffix[OF q] skip_to_suffix[of "CHR '':''" q] e by simp
    have "closed_text r" if r: "read_string p = Some (Some (y, r))" for y r
    proof -
      let ?i = "nat (atol q)"
      have i: "0 \<le> atol q" "3 + atol q < int (length (e # s))" "s ! (2 + ?i) = CHR '';''" "r = drop (3 + ?i) s"
        using r by (auto simp: read_string_def p True e Let_def split: if_splits)
      have "List.last (e # s) = NUL" using c unfolding closed_text_def by (metis last_snoc)
      have "r \<noteq> []"
      proof
        assume "r = []"
        then have l: "length s = 3 + ?i" using i(1,2,4) by auto
        then have "List.last (e # s) = s ! (2 + ?i)" by (subst last_conv_nth) (auto simp: nth_Cons')
        then show False using \<open>List.last (e # s) = NUL\<close> i(3) by simp
      qed
      moreover have "suffix r (e # s)" unfolding i(4) by (meson suffix_ConsI suffix_drop)
      ultimately show ?thesis by (intro closed_text_suffix[OF c])
    qed
    moreover have "\<exists>x. read_string p = Some x" by (auto simp: read_string_def p True e Let_def)
    ultimately show ?thesis by auto
  qed (simp add: read_string_def p)
qed

lemma read_array_head_defined:
  assumes "closed_text p" "hd p = CHR ''a'' \<or> hd p = CHR ''o''"
  shows "\<exists>x. read_array_head p = Some x \<and> (\<forall>i r. x = Some (i, r) \<longrightarrow> closed_text r)"
proof -
  obtain c q where p: "p = c # q" using closed_text_NUL[OF assms(1)] by (cases p) auto
  have c: "c = CHR ''a'' \<or> c = CHR ''o''" using assms(2) p by simp
  obtain d t where q: "q = d # t" using closed_head[of c q] assms(1) p c by (cases q) auto
  have "t \<noteq> []" using assms(1) c by (auto simp: p q closed_text_def Cons_eq_append_conv)
  then have t: "closed_text t" using closed_text_suffix[OF assms(1)] by (simp add: p q suffix_ConsI)
  obtain e s where e: "skip_to (CHR '':'') t = e # s" using skip_to_defined[OF closed_text_NUL(1)[OF t]] by (cases "skip_to (CHR '':'') t") auto
  have c: "closed_text (e # s)" using closed_text_suffix[OF t] skip_to_suffix[of "CHR '':''" t] e by simp
  show ?thesis
  proof (cases "e = CHR '':''")
    case True
    then have s: "s \<noteq> []" "closed_text s" using closed_head[OF c] by auto
    then obtain b r where "s = b # r" by (cases s) auto
    then show ?thesis using True e \<open>t \<noteq> []\<close> closed_head[of b r] s by (auto simp: read_array_head_def p q Let_def)
  qed (use e \<open>t \<noteq> []\<close> in \<open>simp add: read_array_head_def p q Let_def\<close>)
qed

lemma elements_defined:
  assumes "closed_text p" "length p < m"
    and "\<And>q. suffix q p \<Longrightarrow> closed_text q \<Longrightarrow> \<exists>x. read q = Some x \<and> (\<forall>v r. x = Some (v, r) \<longrightarrow> closed_text r \<and> behind r q)"
  shows "\<exists>x. unserialize_elements m read i p a = Some x \<and> (\<forall>b r. x = Some (b, r) \<longrightarrow> closed_text r)"
  using assms
proof (induction m arbitrary: i p a)
  case (Suc m)
  show ?case
  proof (cases "hd p = NUL \<or> hd p = CHR ''}'' \<or> i \<le> 0")
    case True
    then show ?thesis using Suc.prems(1) closed_text_NUL by auto
  next
    case False
    obtain x where x: "read p = Some x" "\<And>v r. x = Some (v, r) \<Longrightarrow> closed_text r \<and> behind r p" using Suc.prems(1) Suc.prems(3)[of p] by auto
    show ?thesis
    proof (cases x)
      case (Some y)
      obtain k s where y: "y = (k, s)" by (cases y)
      have s: "closed_text s" "behind s p" using x(2) Some y by auto
      obtain z where z: "read s = Some z" "\<And>v r. z = Some (v, r) \<Longrightarrow> closed_text r \<and> behind r s"
        using Suc.prems(3)[of s] s by (auto simp: behind_def)
      show ?thesis
      proof (cases z)
        case z': (Some w)
        obtain d t where w: "w = (d, t)" by (cases w)
        have t: "closed_text t" "behind t p" using z(2) z' w s(2) behind_trans by auto
        have "\<exists>x. unserialize_elements m read (i - 1) t (add_element k d a) = Some x \<and> (\<forall>b r. x = Some (b, r) \<longrightarrow> closed_text r)"
        proof (rule Suc.IH[OF t(1)])
          show "length t < m" using t(2) Suc.prems(2) by (simp add: behind_def)
          show "\<exists>x. read q = Some x \<and> (\<forall>v r. x = Some (v, r) \<longrightarrow> closed_text r \<and> behind r q)" if "suffix q t" "closed_text q" for q
            using Suc.prems(3)[OF suffix_order.trans[OF that(1)]] that(2) t(2) by (auto simp: behind_def)
        qed
        then show ?thesis using False x(1) Some y z z' w closed_text_NUL(2)[OF Suc.prems(1)] by simp
      qed (use False x(1) Some y z closed_text_NUL(2)[OF Suc.prems(1)] in simp)
    qed (use False x(1) closed_text_NUL(2)[OF Suc.prems(1)] in simp)
  qed
qed simp

lemma array_defined:
  assumes "closed_text p" "hd p = CHR ''a'' \<or> hd p = CHR ''o''"
    and read: "\<And>q. behind q p \<Longrightarrow> closed_text q \<Longrightarrow> \<exists>x. read q = Some x \<and> (\<forall>v r. x = Some (v, r) \<longrightarrow> closed_text r \<and> behind r q)"
  shows "\<exists>x. unserialize_array (length p) read mk p = Some x \<and> (\<forall>v r. x = Some (v, r) \<longrightarrow> closed_text r)"
proof -
  obtain h where h: "read_array_head p = Some h" "\<And>i r. h = Some (i, r) \<Longrightarrow> closed_text r"
    using read_array_head_defined[OF assms(1,2)] by blast
  show ?thesis
  proof (cases h)
    case (Some y)
    obtain i s where y: "y = (i, s)" by (cases y)
    have s: "closed_text s" "behind s p" using h Some y read_array_head_behind[of p i s] by auto
    have "\<exists>x. unserialize_elements (length p) read i s arr_empty = Some x \<and> (\<forall>b r. x = Some (b, r) \<longrightarrow> closed_text r)"
    proof (rule elements_defined[OF s(1)])
      show "length s < length p" using s(2) by (simp add: behind_def)
    next
      fix q assume q: "suffix q s" "closed_text q"
      then have "behind q p" using s(2) by (meson behind_def le_less_trans suffix_length_le suffix_order.trans)
      then show "\<exists>x. read q = Some x \<and> (\<forall>v r. x = Some (v, r) \<longrightarrow> closed_text r \<and> behind r q)" using read q(2) by blast
    qed
    then obtain x where x: "unserialize_elements (length p) read i s arr_empty = Some x" "\<And>b r. x = Some (b, r) \<Longrightarrow> closed_text r" by blast
    show ?thesis
    proof (cases x)
      case x': (Some w)
      obtain b r where w: "w = (b, r)" by (cases w)
      have r: "closed_text r" using x x' w by simp
      then obtain e t where et: "r = e # t" using closed_text_NUL(2) by (cases r) auto
      show ?thesis using h(1) Some y x(1) x' w et closed_head[of e t] r by (auto simp: unserialize_array_def)
    qed (use h(1) Some y x(1) in \<open>simp add: unserialize_array_def\<close>)
  qed (use h(1) in \<open>simp add: unserialize_array_def\<close>)
qed

lemma var_unserialize_defined:
  assumes "closed_text p" "length p \<le> n"
  shows "\<exists>x. var_unserialize n p = Some x \<and> (\<forall>v r. x = Some (v, r) \<longrightarrow> closed_text r \<and> behind r p)"
proof -
  have "\<exists>x. var_unserialize n p = Some x \<and> (\<forall>v r. x = Some (v, r) \<longrightarrow> closed_text r)"
    using assms
  proof (induction n arbitrary: p)
    case (Suc n)
    have ne: "p \<noteq> []" using closed_text_NUL(2)[OF Suc.prems(1)] .
    have IH: "\<exists>x. var_unserialize n q = Some x \<and> (\<forall>v r. x = Some (v, r) \<longrightarrow> closed_text r \<and> behind r q)"
      if "behind q p" "closed_text q" for q
      using Suc.IH[of q] Suc.prems(2) that var_unserialize_behind[of n q] by (fastforce simp: behind_def)
    have tl: "closed_text (tl p)" if "hd p \<noteq> NUL" using closed_head[of "hd p" "tl p"] Suc.prems(1) ne that by simp
    show ?case
      using ne read_number_defined[of "tl p"] read_string_defined[of "tl p"] tl array_defined[OF Suc.prems(1) _ IH]
      by (cases "hd p = NUL") (force split: if_splits)+
  qed (use closed_text_NUL in auto)
  then show ?thesis using var_unserialize_behind[of n p] by fastforce
qed

text \<open>C31: \<^verbatim>\<open>unserialize\<close> ends on every string after at most as many nested calls as it has bytes, and reads nothing behind the
  NUL of a string that does not end with \<^verbatim>\<open>a\<close> or \<^verbatim>\<open>o\<close>; but the strings \<^verbatim>\<open>a\<close> and \<^verbatim>\<open>o\<close> themselves make it read behind the end,
  since it skips the byte after the type of an array without looking at it.\<close>
theorem unserialize_bounds:
  "(length s < n \<longrightarrow> var_unserialize n (s @ [NUL]) = var_unserialize (length s + 1) (s @ [NUL])) \<and>
   (s \<noteq> [] \<and> List.last s \<in> {CHR ''a'', CHR ''o''} \<or> php3_unserialize (IS_STRING s) \<noteq> None) \<and>
   php3_unserialize (IS_STRING ''a'') = None \<and> php3_unserialize (IS_STRING ''o'') = None"
proof (intro conjI impI)
  assume "length s < n"
  then show "var_unserialize n (s @ [NUL]) = var_unserialize (length s + 1) (s @ [NUL])"
    by (intro depth_irrelevant) simp_all
next
  show "s \<noteq> [] \<and> List.last s \<in> {CHR ''a'', CHR ''o''} \<or> php3_unserialize (IS_STRING s) \<noteq> None"
  proof (cases "s \<noteq> [] \<and> List.last s \<in> {CHR ''a'', CHR ''o''}")
    case False
    then have "closed_text (s @ [NUL])" by (auto simp: closed_text_def)
    from var_unserialize_defined[OF this, of "length s + 1"] show ?thesis by (auto simp: php3_unserialize_def)
  qed simp
qed (simp_all add: php3_unserialize_def unserialize_array_def read_array_head_def)

lemma unserialize_bounds_witness:
  "var_unserialize 9 (''i:1;'' @ [NUL]) = var_unserialize (length ''i:1;'' + 1) (''i:1;'' @ [NUL]) \<and>
   php3_unserialize (IS_STRING ''i:1;'') \<noteq> None"
proof
  have short: "length ''i:1;'' < (9::nat)" by simp
  show "var_unserialize 9 (''i:1;'' @ [NUL]) = var_unserialize (length ''i:1;'' + 1) (''i:1;'' @ [NUL])"
    using unserialize_bounds[of "''i:1;''" 9] short by blast
  have "\<not> (''i:1;'' \<noteq> [] \<and> List.last ''i:1;'' \<in> {CHR ''a'', CHR ''o''})" by simp
  then show "php3_unserialize (IS_STRING ''i:1;'') \<noteq> None"
    using unserialize_bounds[of "''i:1;''" 9] by blast
qed

end
