(* ===== verification/Php_Strings.thy ===== *)
theory Php_Strings
  imports Php_Encodings "HOL-Library.Signed_Division"
begin

text \<open>
  The functions of \<^verbatim>\<open>functions/string.c\<close> on one string: trimming, case, searching, cutting, translating, escaping.
  A string value is its \<^verbatim>\<open>len\<close> bytes, stored with a NUL behind them; where the code calls the C library or looks for
  the NUL, it sees \<open>c_str\<close> of the bytes. A position outside of the \<^verbatim>\<open>len + 1\<close> bytes of the block makes the result
  \<open>None\<close>. The arguments of a function of the language are values; \<open>sval\<close> is \<^verbatim>\<open>convert_to_string\<close>.
  Functions whose result is built with \<^verbatim>\<open>RETVAL_STRING\<close> cut it at its first NUL.
\<close>

abbreviation sval :: "nat \<Rightarrow> pval \<Rightarrow> string" where
  "sval precision v \<equiv> str (convert_to_string precision v)"

text \<open>The bytes from position \<open>i\<close> on, up to the NUL; the block of \<open>s\<close> has \<open>length s + 1\<close> bytes.\<close>

definition c_from :: "string \<Rightarrow> nat \<Rightarrow> string option" where
  "c_from s i = (if i \<le> length s then Some (c_str (drop i s)) else None)"

subsection \<open>The C library\<close>

fun strstr :: "string \<Rightarrow> string \<Rightarrow> nat option" where
  "strstr [] n = (if n = [] then Some 0 else None)"
| "strstr (c # cs) n = (if take (length n) (c # cs) = n then Some 0 else map_option Suc (strstr cs n))"

text \<open>\<^verbatim>\<open>strchr\<close> and \<^verbatim>\<open>strrchr\<close> on the bytes before the NUL; they find the NUL too.\<close>

definition strchr :: "string \<Rightarrow> char \<Rightarrow> nat option" where
  "strchr s c = (if c = NUL then Some (length s)
     else if c \<in> set s then Some (length (takeWhile (\<lambda>d. d \<noteq> c) s)) else None)"

definition strrchr :: "string \<Rightarrow> char \<Rightarrow> nat option" where
  "strrchr s c = (if c = NUL then Some (length s)
     else if c \<in> set s then Some (length s - Suc (length (takeWhile (\<lambda>d. d \<noteq> c) (rev s)))) else None)"

subsection \<open>Hexadecimal, length and spans\<close>

definition hexconvtab :: string where "hexconvtab = ''0123456789abcdef''"

fun php_bin2hex :: "string \<Rightarrow> string" where
  "php_bin2hex [] = []"
| "php_bin2hex (c # cs) =
     hexconvtab ! drop_bit 4 (byte_of c) # hexconvtab ! (byte_of c AND 15) # php_bin2hex cs"

definition php3_bin2hex :: "nat \<Rightarrow> pval \<Rightarrow> pval" where
  "php3_bin2hex precision v = IS_STRING (php_bin2hex (sval precision v))"

definition php3_strlen :: "nat \<Rightarrow> pval \<Rightarrow> pval" where
  "php3_strlen precision v = long (int (length (sval precision v)))"

definition php3_strcmp :: "nat \<Rightarrow> pval \<Rightarrow> pval \<Rightarrow> pval" where
  "php3_strcmp precision v w = long (php3_binary_strcmp (sval precision v) (sval precision w))"

definition php3_strcasecmp :: "nat \<Rightarrow> pval \<Rightarrow> pval \<Rightarrow> pval" where
  "php3_strcasecmp precision v w = long (php3_binary_strcasecmp (sval precision v) (sval precision w))"

definition php3_strspn :: "nat \<Rightarrow> pval \<Rightarrow> pval \<Rightarrow> pval" where
  "php3_strspn precision v w =
     long (int (length (takeWhile (\<lambda>c. c \<in> set (c_str (sval precision w))) (c_str (sval precision v)))))"

definition php3_strcspn :: "nat \<Rightarrow> pval \<Rightarrow> pval \<Rightarrow> pval" where
  "php3_strcspn precision v w =
     long (int (length (takeWhile (\<lambda>c. c \<notin> set (c_str (sval precision w))) (c_str (sval precision v)))))"

subsection \<open>Trimming\<close>

definition trim_char :: "char \<Rightarrow> bool" where
  "trim_char c \<longleftrightarrow> c = CHR '' '' \<or> byte_of c = 10 \<or> byte_of c = 13 \<or> byte_of c = 9 \<or> byte_of c = 11"

text \<open>The loop from the end: \<open>n\<close> is \<^verbatim>\<open>i + 1\<close>.\<close>

fun chop_loop :: "string \<Rightarrow> nat \<Rightarrow> nat \<Rightarrow> nat" where
  "chop_loop c 0 len = len"
| "chop_loop c (Suc i) len = (if trim_char (c ! i) then chop_loop c i (len - 1) else len)"

fun leading_loop :: "string \<Rightarrow> nat \<Rightarrow> nat" where
  "leading_loop [] trimmed = trimmed"
| "leading_loop (c # cs) trimmed = (if trim_char c then leading_loop cs (trimmed + 1) else trimmed)"

definition php3_chop :: "nat \<Rightarrow> pval \<Rightarrow> pval" where
  "php3_chop precision v =
     (let c = sval precision v; n = length c in IS_STRING (take (chop_loop c n n) c))"

definition trim_string :: "string \<Rightarrow> string" where
  "trim_string s =
     (let trimmed = leading_loop s 0; n = length s - trimmed; c = drop trimmed s
      in take (chop_loop c n n) c)"

definition php3_trim :: "nat \<Rightarrow> pval \<Rightarrow> pval" where
  "php3_trim precision v = IS_STRING (trim_string (sval precision v))"

definition php3_ltrim :: "nat \<Rightarrow> pval \<Rightarrow> pval" where
  "php3_ltrim precision v = IS_STRING (trim_string (sval precision v))"

subsection \<open>Case\<close>

text \<open>In place up to the NUL; the result is the C string.\<close>

definition php3_strtoupper :: "nat \<Rightarrow> pval \<Rightarrow> pval" where
  "php3_strtoupper precision v = IS_STRING (map to_upper (c_str (sval precision v)))"

definition php3_strtolower :: "nat \<Rightarrow> pval \<Rightarrow> pval" where
  "php3_strtolower precision v = IS_STRING (map to_lower (c_str (sval precision v)))"

definition php3_ucfirst :: "nat \<Rightarrow> pval \<Rightarrow> pval" where
  "php3_ucfirst precision v =
     (case c_str (sval precision v) of [] \<Rightarrow> var_reset | c # cs \<Rightarrow> IS_STRING (to_upper c # cs))"

text \<open>The loop: \<^verbatim>\<open>strstr\<close> finds the next space from \<open>r\<close> on, the character behind it is where it goes on.\<close>

fun ucwords_loop :: "string \<Rightarrow> string" where
  "ucwords_loop [] = []"
| "ucwords_loop (c # cs) =
     (if c = CHR '' '' then (case cs of [] \<Rightarrow> [c] | d # ds \<Rightarrow> c # ucwords_loop (to_upper d # ds))
      else c # ucwords_loop cs)"

definition php3_ucwords :: "nat \<Rightarrow> pval \<Rightarrow> pval" where
  "php3_ucwords precision v =
     (case c_str (sval precision v) of [] \<Rightarrow> var_reset
      | c # cs \<Rightarrow> IS_STRING (ucwords_loop (to_upper c # cs)))"

subsection \<open>Paths\<close>

text \<open>The position of the last byte that is not a slash, from \<^verbatim>\<open>c\<close> downwards in the block; below its start is \<open>None\<close>.\<close>

fun strip_slashes_from :: "string \<Rightarrow> nat \<Rightarrow> nat option" where
  "strip_slashes_from r 0 = (if r ! 0 = CHR ''/'' then None else Some 0)"
| "strip_slashes_from r (Suc c) = (if r ! Suc c = CHR ''/'' then strip_slashes_from r c else Some (Suc c))"

text \<open>
  The copy \<^verbatim>\<open>ret\<close> of the C string, of length \<open>length (c_str s) + 1\<close>, from \<^verbatim>\<open>ret + len - 1\<close> on; the result is the
  copy cut behind the last byte that is not a slash.
\<close>

definition without_trailing_slashes :: "string \<Rightarrow> string option" where
  "without_trailing_slashes s =
     (let r = c_str s @ [NUL] in
      if s = [] \<or> length s > length r then None
      else (case strip_slashes_from r (length s - 1) of
          None \<Rightarrow> None
        | Some c \<Rightarrow> if c + 1 < length r then Some (c_str (r[c + 1 := NUL])) else None))"

definition php3_basename :: "nat \<Rightarrow> pval \<Rightarrow> pval option" where
  "php3_basename precision v = do {
     let s = sval precision v;
     ret \<leftarrow> without_trailing_slashes s;
     Some (IS_STRING (case strrchr ret (CHR ''/'') of Some c \<Rightarrow> drop (c + 1) ret | None \<Rightarrow> c_str s))
   }"

definition dirname :: "string \<Rightarrow> string option" where
  "dirname s = do {
     r \<leftarrow> without_trailing_slashes s;
     Some (case strrchr r (CHR ''/'') of Some c \<Rightarrow> take c r | None \<Rightarrow> r)
   }"

definition php3_dirname :: "nat \<Rightarrow> pval \<Rightarrow> pval option" where
  "php3_dirname precision v = map_option IS_STRING (dirname (sval precision v))"

subsection \<open>Searching\<close>

text \<open>The inner loop of \<^verbatim>\<open>php3i_stristr\<close>: whether it reaches the end of \<open>t\<close>.\<close>

fun istr_prefix :: "string \<Rightarrow> string \<Rightarrow> bool" where
  "istr_prefix _ [] = True"
| "istr_prefix [] (d # ds) = False"
| "istr_prefix (c # cs) (d # ds) = (to_lower c = to_lower d \<and> istr_prefix cs ds)"

fun php3i_stristr :: "string \<Rightarrow> string \<Rightarrow> nat option" where
  "php3i_stristr [] t = None"
| "php3i_stristr (c # cs) t = (if istr_prefix (c # cs) t then Some 0 else map_option Suc (php3i_stristr cs t))"

definition found_string :: "string \<Rightarrow> nat option \<Rightarrow> pval" where
  "found_string h r = (case r of Some i \<Rightarrow> IS_STRING (drop i h) | None \<Rightarrow> var_reset)"

definition php3_stristr :: "nat \<Rightarrow> pval \<Rightarrow> pval \<Rightarrow> pval" where
  "php3_stristr precision haystack needle =
     (let h = c_str (sval precision haystack); n = c_str (sval precision needle)
      in if n = [] then var_reset else found_string h (php3i_stristr h n))"

text \<open>A needle that is no string is converted to a \<^verbatim>\<open>long\<close> and its low byte is searched.\<close>

definition needle_char :: "pval \<Rightarrow> char option" where
  "needle_char v = do { w \<leftarrow> convert_to_long v; Some (chr (unat (lval w) mod 256)) }"

definition php3_strstr :: "nat \<Rightarrow> pval \<Rightarrow> pval \<Rightarrow> pval option" where
  "php3_strstr precision haystack needle =
     (let h = c_str (sval precision haystack) in
      case needle of
        IS_STRING n \<Rightarrow> Some (if c_str n = [] then var_reset else found_string h (strstr h (c_str n)))
      | _ \<Rightarrow> do { c \<leftarrow> needle_char needle; Some (found_string h (strchr h c)) })"

text \<open>\<open>offset\<close> is 0 when it is not given; a negative one points in front of the block.\<close>

definition strpos_at :: "nat \<Rightarrow> pval \<Rightarrow> pval \<Rightarrow> int \<Rightarrow> pval option" where
  "strpos_at precision haystack needle offset =
     (let h = sval precision haystack in
      if offset > int (length h) then Some var_reset
      else (case needle of
          IS_STRING n \<Rightarrow>
            if n = [] then Some var_reset
            else if offset < 0 then None
            else do {
              r \<leftarrow> c_from h (nat offset);
              Some (case strstr r (c_str n) of Some i \<Rightarrow> long (offset + int i) | None \<Rightarrow> var_reset)
            }
        | _ \<Rightarrow> do {
              c \<leftarrow> needle_char needle;
              if offset < 0 then None
              else do {
                r \<leftarrow> c_from h (nat offset);
                Some (case strchr r c of Some i \<Rightarrow> long (offset + int i) | None \<Rightarrow> var_reset)
              }
            }))"

definition php3_strpos :: "nat \<Rightarrow> pval \<Rightarrow> pval \<Rightarrow> pval option \<Rightarrow> pval option" where
  "php3_strpos precision haystack needle offset =
     (case offset of
        None \<Rightarrow> strpos_at precision haystack needle 0
      | Some v \<Rightarrow> do { w \<leftarrow> convert_to_long v; strpos_at precision haystack needle (sint (lval w)) })"

text \<open>The first character of a needle that is a string, its NUL when it is empty.\<close>

definition last_needle :: "pval \<Rightarrow> char option" where
  "last_needle needle = (case needle of IS_STRING n \<Rightarrow> Some (hd (n @ [NUL])) | _ \<Rightarrow> needle_char needle)"

definition php3_strrpos :: "nat \<Rightarrow> pval \<Rightarrow> pval \<Rightarrow> pval option" where
  "php3_strrpos precision haystack needle = do {
     let h = sval precision haystack;
     c \<leftarrow> last_needle needle;
     Some (case strrchr (c_str h) c of
         Some i \<Rightarrow> long (int (length h) - int (length (drop i (c_str h))))
       | None \<Rightarrow> var_reset)
   }"

definition php3_strrchr :: "nat \<Rightarrow> pval \<Rightarrow> pval \<Rightarrow> pval option" where
  "php3_strrchr precision haystack needle = do {
     let h = c_str (sval precision haystack);
     c \<leftarrow> last_needle needle;
     Some (found_string h (strrchr h c))
   }"

subsection \<open>Cutting\<close>

text \<open>
  The copying loop of \<^verbatim>\<open>_php3_chunk_split\<close> from \<open>p\<close> on; a negative size is a copy of more bytes than there are. The
  loop gives the bytes copied and the position where it ends.
\<close>

function chunk_loop :: "string \<Rightarrow> string \<Rightarrow> int \<Rightarrow> nat \<Rightarrow> (string \<times> nat) option" where
  "chunk_loop src ending chunklen p =
     (if int p < int (length src) - chunklen + 1 then
        (if chunklen \<le> 0 then None
         else do {
           (r, e) \<leftarrow> chunk_loop src ending chunklen (p + nat chunklen);
           Some (take (nat chunklen) (drop p src) @ ending @ r, e)
         })
      else Some ([], p))"
  by pat_completeness auto
termination
  by (relation "measure (\<lambda>(src, ending, chunklen, p). Suc (length src) - p)") auto

declare chunk_loop.simps [simp del]

text \<open>The size of the buffer and the copy into it, whose length the caller gets.\<close>

definition chunk_split :: "string \<Rightarrow> string \<Rightarrow> int \<Rightarrow> string option" where
  "chunk_split src ending chunklen = do {
     let chunks = int (length src) sdiv chunklen;
     let restlen = int (length src) - chunks * chunklen;
     (r, p) \<leftarrow> chunk_loop src ending chunklen 0;
     let t = r @ (if restlen \<noteq> 0 then take (nat restlen) (drop p src) @ ending else []);
     if int (length t) < int (length src) + (chunks + 1) * int (length ending) + 1 then Some t else None
   }"

definition php3_chunk_split :: "nat \<Rightarrow> pval \<Rightarrow> pval option \<Rightarrow> pval option \<Rightarrow> pval option" where
  "php3_chunk_split precision v p_chunklen p_ending = do {
     chunklen \<leftarrow> (case p_chunklen of None \<Rightarrow> Some 76 | Some w \<Rightarrow> map_option (\<lambda>n. sint (lval n)) (convert_to_long w));
     let ending = (case p_ending of None \<Rightarrow> [chr 13, chr 10] | Some w \<Rightarrow> sval precision w);
     if chunklen = 0 then Some var_reset
     else map_option IS_STRING (chunk_split (sval precision v) ending chunklen)
   }"

text \<open>\<^verbatim>\<open>substr\<close>: the sum of position and length is computed as an \<^verbatim>\<open>int\<close>, then \<open>l\<close> bytes are copied.\<close>

definition substr :: "string \<Rightarrow> int \<Rightarrow> int option \<Rightarrow> pval option" where
  "substr s from len =
     (let n = int (length s);
          f = (if from < 0 then max 0 (n + from) else from);
          l0 = (case len of None \<Rightarrow> n | Some l \<Rightarrow> l);
          l1 = (if l0 < 0 then max 0 (cint (n - f + l0)) else l0)
      in if f \<ge> n then Some var_reset
         else let l = (if cint (f + l1) > n then n - f else l1)
              in if f + l \<le> n + 1 then Some (IS_STRING (take (nat l) (drop (nat f) (s @ [NUL])))) else None)"

definition php3_substr :: "nat \<Rightarrow> pval \<Rightarrow> pval \<Rightarrow> pval option \<Rightarrow> pval option" where
  "php3_substr precision v from len = do {
     f \<leftarrow> convert_to_long from;
     l \<leftarrow> (case len of None \<Rightarrow> Some None | Some w \<Rightarrow> map_option (\<lambda>n. Some (sint (lval n))) (convert_to_long w));
     substr (sval precision v) (sint (lval f)) l
   }"

end
