(* ===== verification/Php_Text.thy ===== *)
theory Php_Text
  imports Php_Strings
begin

text \<open>
  The functions of \<^verbatim>\<open>functions/string.c\<close> that translate, escape, compare and replace text: \<^verbatim>\<open>quotemeta\<close>, \<^verbatim>\<open>strtr\<close>,
  \<^verbatim>\<open>strrev\<close>, \<^verbatim>\<open>similar_text\<close>, \<^verbatim>\<open>addslashes\<close> and \<^verbatim>\<open>stripslashes\<close>, \<^verbatim>\<open>str_replace\<close>, \<^verbatim>\<open>nl2br\<close> and \<^verbatim>\<open>strip_tags\<close>.
\<close>

subsection \<open>Characters\<close>

definition meta_chars :: string where "meta_chars = [CHR ''.'', CHR 0x5C, CHR ''+'', CHR ''*'', CHR ''?'', CHR ''['', CHR ''^'', CHR '']'', CHR ''$'', CHR ''('', CHR '')'']"

fun quotemeta :: "string \<Rightarrow> string" where
  "quotemeta [] = []"
| "quotemeta (c # cs) = (if c \<in> set meta_chars then [CHR 0x5C, c] else [c]) @ quotemeta cs"

definition php3_quotemeta :: "nat \<Rightarrow> pval \<Rightarrow> pval" where
  "php3_quotemeta precision v =
     (let old = c_str (sval precision v) in if old = [] then var_reset else IS_STRING (quotemeta old))"

definition php3_ord :: "nat \<Rightarrow> pval \<Rightarrow> pval" where
  "php3_ord precision v = long (int (byte_of (hd (sval precision v @ [NUL]))))"

definition php3_chr :: "pval \<Rightarrow> pval option" where
  "php3_chr v = do { w \<leftarrow> convert_to_long v; Some (IS_STRING [chr (unat (lval w) mod 256)]) }"

subsection \<open>\<^verbatim>\<open>strtr\<close> and \<^verbatim>\<open>strrev\<close>\<close>

text \<open>The table of 256 characters; a later pair overwrites an earlier one.\<close>

definition xlat_init :: string where "xlat_init = map chr [0..<256]"

fun xlat_fill :: "string \<Rightarrow> string \<Rightarrow> nat \<Rightarrow> string \<Rightarrow> string" where
  "xlat_fill (f # fs) (t # ts) (Suc n) xlat = xlat_fill fs ts n (xlat[byte_of f := t])"
| "xlat_fill _ _ _ xlat = xlat"

definition strtr :: "string \<Rightarrow> string \<Rightarrow> string \<Rightarrow> nat \<Rightarrow> string" where
  "strtr s from to trlen =
     (if trlen < 1 \<or> length s < 1 then s
      else (let xlat = xlat_fill from to trlen xlat_init in map (\<lambda>c. xlat ! byte_of c) s))"

definition php3_strtr :: "nat \<Rightarrow> pval \<Rightarrow> pval \<Rightarrow> pval \<Rightarrow> pval" where
  "php3_strtr precision v from to =
     (let f = sval precision from; t = sval precision to
      in IS_STRING (c_str (strtr (sval precision v) f t (min (length f) (length t)))))"

text \<open>The loop exchanges the ends; it runs while \<^verbatim>\<open>i < len - 1 - i\<close>.\<close>

function strrev_loop :: "nat \<Rightarrow> string \<Rightarrow> string" where
  "strrev_loop i s =
     (if 2 * i + 1 < length s
      then strrev_loop (i + 1) ((s[i := s ! (length s - 1 - i)])[length s - 1 - i := s ! i])
      else s)"
  by pat_completeness auto
termination
  by (relation "measure (\<lambda>(i, s). length s - 2 * i)") auto

declare strrev_loop.simps [simp del]

definition php3_strrev :: "nat \<Rightarrow> pval \<Rightarrow> pval" where
  "php3_strrev precision v = IS_STRING (strrev_loop 0 (sval precision v))"

subsection \<open>\<^verbatim>\<open>similar_text\<close>\<close>

text \<open>The innermost loop: how many bytes agree from \<open>p\<close> and \<open>q\<close> on.\<close>

fun match_len :: "string \<Rightarrow> string \<Rightarrow> nat" where
  "match_len (a # as) (b # bs) = (if a = b then Suc (match_len as bs) else 0)"
| "match_len _ _ = 0"

text \<open>The other two loops carry \<open>(max, pos1, pos2)\<close>; \<open>i\<close> and \<open>j\<close> are the offsets of \<open>p\<close> and \<open>q\<close>.\<close>

fun similar_inner :: "string \<Rightarrow> nat \<Rightarrow> string \<Rightarrow> nat \<Rightarrow> nat \<times> nat \<times> nat \<Rightarrow> nat \<times> nat \<times> nat" where
  "similar_inner p i [] j sofar = sofar"
| "similar_inner p i (b # q) j sofar =
     (let l = match_len p (b # q)
      in similar_inner p i q (j + 1) (if l > fst sofar then (l, i, j) else sofar))"

fun similar_outer :: "string \<Rightarrow> nat \<Rightarrow> string \<Rightarrow> nat \<times> nat \<times> nat \<Rightarrow> nat \<times> nat \<times> nat" where
  "similar_outer [] i txt2 sofar = sofar"
| "similar_outer (a # p) i txt2 sofar = similar_outer p (i + 1) txt2 (similar_inner (a # p) i txt2 0 sofar)"

text \<open>\<^verbatim>\<open>pos1\<close> and \<^verbatim>\<open>pos2\<close> have no value when there is no common byte; they are read only when \<^verbatim>\<open>max\<close> is not 0.\<close>

definition similar_str :: "string \<Rightarrow> string \<Rightarrow> nat \<times> nat \<times> nat" where
  "similar_str txt1 txt2 = similar_outer txt1 0 txt2 (0, 0, 0)"

text \<open>What the search has found is a common part.\<close>

definition common_part :: "string \<Rightarrow> string \<Rightarrow> nat \<times> nat \<times> nat \<Rightarrow> bool" where
  "common_part s t r = (case r of (l, i, j) \<Rightarrow>
     i + l \<le> length s \<and> j + l \<le> length t \<and> take l (drop i s) = take l (drop j t))"

lemma match_len_common:
  "match_len p q \<le> length p \<and> match_len p q \<le> length q \<and> take (match_len p q) p = take (match_len p q) q"
  by (induction p q rule: match_len.induct) auto

lemma similar_inner_common:
  "drop i s = p \<Longrightarrow> drop j t = q \<Longrightarrow> i \<le> length s \<Longrightarrow> j \<le> length t \<Longrightarrow> common_part s t sofar \<Longrightarrow>
   common_part s t (similar_inner p i q j sofar)"
proof (induction p i q j sofar rule: similar_inner.induct)
  case (2 p i b q j sofar)
  have q: "drop (Suc j) t = q" using "2.prems"(2) by (metis drop_Suc tl_drop list.sel(3))
  have j: "Suc j \<le> length t" using "2.prems"(2) by (metis drop_all leI list.distinct(1) not_less_eq_eq)
  have len: "length t - j = Suc (length q)" using "2.prems"(2) by (metis length_Cons length_drop)
  have "common_part s t (match_len p (b # q), i, j)"
    using match_len_common[of p "b # q"] "2.prems"(1-4) len
    by (auto simp: common_part_def)
  then show ?case using "2.IH"[of "match_len p (b # q)"] "2.prems" q j by (simp add: Let_def)
qed simp

lemma similar_outer_common:
  "drop i s = p \<Longrightarrow> i \<le> length s \<Longrightarrow> common_part s t sofar \<Longrightarrow> common_part s t (similar_outer p i t sofar)"
proof (induction p i t sofar rule: similar_outer.induct)
  case (2 a p i t sofar)
  have p: "drop (i + 1) s = p" using "2.prems"(1) by (metis Suc_eq_plus1 drop_Suc tl_drop list.sel(3))
  have i: "i + 1 \<le> length s" using "2.prems"(1) by (metis Suc_eq_plus1 drop_all leI list.distinct(1) not_less_eq_eq)
  show ?case
    unfolding similar_outer.simps
    by (rule "2.IH"[OF p i]) (rule similar_inner_common, use "2.prems" in auto)
qed simp

lemma similar_str_common: "common_part s t (similar_str s t)"
  unfolding similar_str_def by (rule similar_outer_common) (auto simp: common_part_def)

function similar_char :: "string \<Rightarrow> string \<Rightarrow> nat" where
  "similar_char txt1 txt2 =
     (case similar_str txt1 txt2 of (l, pos1, pos2) \<Rightarrow>
        if l = 0 then 0
        else l
          + (if pos1 \<noteq> 0 \<and> pos2 \<noteq> 0 then similar_char (take pos1 txt1) (take pos2 txt2) else 0)
          + (if pos1 + l < length txt1 \<and> pos2 + l < length txt2
             then similar_char (drop (pos1 + l) txt1) (drop (pos2 + l) txt2) else 0))"
  by pat_completeness auto
termination
proof (relation "measure (\<lambda>(s, t). length s + length t)", goal_cases)
  case (2 s t r l i j)
  then show ?case using similar_str_common[of s t] by (auto simp: common_part_def)
next
  case (3 s t r l i j)
  then show ?case using similar_str_common[of s t] by (auto simp: common_part_def)
qed simp

declare similar_char.simps [simp del]

text \<open>The result and the new value of the argument \<^verbatim>\<open>percent\<close>.\<close>

definition similar_text :: "string \<Rightarrow> string \<Rightarrow> pval \<times> double" where
  "similar_text s t =
     (if length s + length t = 0 then (IS_LONG 0, d_of_int 0)
      else (let sim = similar_char s t
            in (long (int sim), ddiv (dmul (d_of_int (int sim)) (d_of_int 200)) (d_of_int (int (length s + length t))))))"

definition php3_similar_text :: "nat \<Rightarrow> pval \<Rightarrow> pval \<Rightarrow> pval \<times> double" where
  "php3_similar_text precision v w = similar_text (sval precision v) (sval precision w)"

subsection \<open>Slashes\<close>

text \<open>The bytes that \<^verbatim>\<open>_php3_addslashes\<close> writes for one byte; \<open>sybase\<close> is \<^verbatim>\<open>php3_ini.magic_quotes_sybase\<close>.\<close>

definition addslashes_char :: "bool \<Rightarrow> char \<Rightarrow> string" where
  "addslashes_char sybase c =
     (if c = NUL then [CHR 0x5C, CHR ''0'']
      else if c = CHR 0x27 then (if sybase then [CHR 0x27, CHR 0x27] else [CHR 0x5C, c])
      else if c = CHR 0x22 \<or> c = CHR 0x5C then (if sybase then [c] else [CHR 0x5C, c])
      else [c])"

fun addslashes_bytes :: "bool \<Rightarrow> string \<Rightarrow> string" where
  "addslashes_bytes sybase [] = []"
| "addslashes_bytes sybase (c # cs) = addslashes_char sybase c @ addslashes_bytes sybase cs"

text \<open>
  The loop runs to \<open>length\<close> and from there to the next NUL; the buffer has twice the length, or twice \<^verbatim>\<open>strlen\<close> for
  length 0, and one byte.
\<close>

definition addslashes :: "bool \<Rightarrow> string \<Rightarrow> nat \<Rightarrow> string option" where
  "addslashes sybase s len =
     (let r = addslashes_bytes sybase (take len s @ c_str (drop len s))
      in if length r + 1 \<le> (if len \<noteq> 0 then len else length (c_str s)) * 2 + 1 then Some r else None)"

definition php3_addslashes :: "nat \<Rightarrow> bool \<Rightarrow> pval \<Rightarrow> pval option" where
  "php3_addslashes precision sybase v =
     (let s = sval precision v in map_option IS_STRING (addslashes sybase s (length s)))"

text \<open>In place: the bytes kept are in front of those still to be read. A slash at the end is dropped.\<close>

fun stripslashes_loop :: "char \<Rightarrow> string \<Rightarrow> string" where
  "stripslashes_loop esc [] = []"
| "stripslashes_loop esc (c # cs) =
     (if c = esc
      then (case cs of [] \<Rightarrow> [] | d # ds \<Rightarrow> (if d = CHR ''0'' then NUL else d) # stripslashes_loop esc ds)
      else c # stripslashes_loop esc cs)"

definition stripslashes :: "bool \<Rightarrow> string \<Rightarrow> string" where
  "stripslashes sybase s = stripslashes_loop (if sybase then CHR 0x27 else CHR 0x5C) s"

definition php3_stripslashes :: "nat \<Rightarrow> bool \<Rightarrow> pval \<Rightarrow> pval" where
  "php3_stripslashes precision sybase v = IS_STRING (stripslashes sybase (c_str (sval precision v)))"

subsection \<open>Replacing\<close>

text \<open>
  The two algorithms give the length of the new string, an \<^verbatim>\<open>int\<close>, and the bytes before the NUL that ends it; \<open>None\<close> when bytes or
  the NUL are written behind the block. A string of which the length is not the number of its bytes (it is
  negative from \<open>2 ^ 31\<close> bytes on) is no value.
\<close>

definition returned_string :: "int \<times> string \<Rightarrow> pval option" where
  "returned_string r = (if fst r = int (length (snd r)) then Some (IS_STRING (snd r)) else None)"

fun char_to_str_bytes :: "string \<Rightarrow> char \<Rightarrow> string \<Rightarrow> string" where
  "char_to_str_bytes [] from to = []"
| "char_to_str_bytes (c # cs) from to = (if c = from then to else [c]) @ char_to_str_bytes cs from to"

definition char_to_str :: "string \<Rightarrow> char \<Rightarrow> string \<Rightarrow> (int \<times> string) option" where
  "char_to_str s from to =
     (let char_count = length (filter (\<lambda>c. c = from) s) in
      if char_count = 0 then Some (int (length s), s)
      else (let len = cint (int (length s) + int char_count * (int (length to) - 1));
                r = char_to_str_bytes s from to
            in if length r < size_t (len + 1) then Some (len, r) else None))"

text \<open>The bytes of \<open>r\<close> are those from \<^verbatim>\<open>p\<close> to \<^verbatim>\<open>end\<close>; \<^verbatim>\<open>memchr\<close> looks at those where the needle fits.\<close>

definition memchr :: "string \<Rightarrow> char \<Rightarrow> nat option" where
  "memchr r c = (if c \<in> set r then Some (length (takeWhile (\<lambda>d. d \<noteq> c) r)) else None)"

lemma memchr_Cons [simp]: "memchr (x # xs) c = (if x = c then Some 0 else map_option Suc (memchr xs c))"
  by (auto simp: memchr_def)

lemma memchr_Nil [simp]: "memchr [] c = None"
  by (simp add: memchr_def)

lemma memchr_Some: "memchr r c = Some i \<Longrightarrow> i < length r \<and> r ! i = c \<and> (\<forall>j < i. r ! j \<noteq> c)"
proof (induction r arbitrary: i)
  case (Cons x r)
  then show ?case by (cases i) (fastforce split: if_splits simp: less_Suc_eq_0_disj)+
qed simp

lemma memchr_None: "memchr r c = None \<longleftrightarrow> c \<notin> set r"
  by (simp add: memchr_def)

function memnstr :: "string \<Rightarrow> string \<Rightarrow> nat option" where
  "memnstr r needle =
     (if length needle \<le> length r then
        (case memchr (take (length r - length needle + 1) r) (hd needle) of
           None \<Rightarrow> None
         | Some i \<Rightarrow> if take (length needle) (drop i r) = needle then Some i
                     else map_option (\<lambda>j. i + 1 + j) (memnstr (drop (i + 1) r) needle))
      else None)"
  by pat_completeness auto
termination
proof (relation "measure (\<lambda>(r, n). length r)", goal_cases)
  case (2 r n i)
  then show ?case using memchr_Some[of _ "hd n" i] by fastforce
qed simp

declare memnstr.simps [simp del]

text \<open>
  The loop: the bytes of the haystack from \<^verbatim>\<open>p\<close> on, those written before \<^verbatim>\<open>q\<close>, and the size of the block \<^verbatim>\<open>new\<close>, which
  grows with every occurrence to a size converted to \<^verbatim>\<open>size_t\<close>. \<^verbatim>\<open>p\<close> moves behind the needle, which is not empty.
\<close>

partial_function (option) str_to_str_loop :: "string \<Rightarrow> string \<Rightarrow> string \<Rightarrow> string \<Rightarrow> nat \<Rightarrow> string option" where
  "str_to_str_loop r needle to out cap =
     (case memnstr r needle of
        Some i \<Rightarrow>
          (let cap' = size_t (int (length out + i + length to + 1)); out' = out @ take i r @ to
           in if length out' \<le> cap'
              then str_to_str_loop (drop (i + length needle) r) needle to out' cap' else None)
      | None \<Rightarrow>
          (let cap' = (if r \<noteq> [] then size_t (int (length out + length r + 1)) else cap); out' = out @ r
           in if length out' < cap' then Some out' else None))"

definition str_to_str :: "string \<Rightarrow> string \<Rightarrow> string \<Rightarrow> (int \<times> string) option" where
  "str_to_str haystack needle to =
     map_option (\<lambda>r. (cint (int (length r)), r)) (str_to_str_loop haystack needle to [] (length haystack))"

definition str_replace :: "string \<Rightarrow> string \<Rightarrow> string \<Rightarrow> pval option" where
  "str_replace needle to haystack =
     (if haystack = [] then Some (IS_STRING [])
      else case needle of
        [] \<Rightarrow> Some var_reset
      | [c] \<Rightarrow> Option.bind (char_to_str haystack c to) returned_string
      | _ \<Rightarrow> Option.bind (str_to_str haystack needle to) returned_string)"

definition php3_str_replace :: "nat \<Rightarrow> pval \<Rightarrow> pval \<Rightarrow> pval \<Rightarrow> pval option" where
  "php3_str_replace precision needle to haystack =
     str_replace (sval precision needle) (sval precision to) (sval precision haystack)"

definition br_string :: string where "br_string = ''<br>'' @ [chr 10]"

definition php3_newline_to_br :: "nat \<Rightarrow> pval \<Rightarrow> pval option" where
  "php3_newline_to_br precision v = Option.bind (char_to_str (sval precision v) (chr 10) br_string) returned_string"

subsection \<open>\<^verbatim>\<open>strip_tags\<close>\<close>

text \<open>
  The state machine: \<open>prev\<close> is the byte at \<^verbatim>\<open>p - 1\<close>, none at the start of the buffer; \<open>state\<close> is 0 outside of tags, 1 in
  an HTML tag, 2 in a PHP tag; \<open>lc\<close> is the last significant character and \<open>br\<close> counts parentheses.
\<close>

fun strip_tags_loop :: "string \<Rightarrow> char option \<Rightarrow> nat \<Rightarrow> char \<Rightarrow> int \<Rightarrow> string option" where
  "strip_tags_loop [] prev state lc br = Some []"
| "strip_tags_loop (c # cs) prev state lc br =
     (let keep = (if state = 0 then [c] else []);
          go = (\<lambda>out state' lc' br'. map_option ((@) out) (strip_tags_loop cs (Some c) state' lc' br'))
      in if c = CHR ''<'' then (if state = 0 then go [] 1 (CHR ''<'') br else go [] state lc br)
         else if c = CHR ''('' then
           (if state = 2 \<and> lc \<noteq> CHR 0x22 then go [] state (CHR ''('') (br + 1) else go keep state lc br)
         else if c = CHR '')'' then
           (if state = 2 \<and> lc \<noteq> CHR 0x22 then go [] state (CHR '')'') (br - 1) else go keep state lc br)
         else if c = CHR ''>'' then
           (if state = 1 then go [] 0 (CHR ''>'') br
            else if state = 2 \<and> br = 0 \<and> lc \<noteq> CHR 0x22
              then (case prev of None \<Rightarrow> None
                    | Some d \<Rightarrow> if d = CHR ''?'' then go [] 0 lc br else go [] state lc br)
            else go [] state lc br)
         else if c = CHR 0x22 then
           (if state = 2 then
              (if lc = CHR 0x22 then go [] state NUL br
               else if lc \<noteq> CHR 0x5C then go [] state (CHR 0x22) br else go [] state lc br)
            else go keep state lc br)
         else if c = CHR ''?'' \<and> state = 1 then
           (case prev of None \<Rightarrow> None
            | Some d \<Rightarrow> if d = CHR ''<'' then go [] 2 lc 0 else go keep state lc br)
         else go keep state lc br)"

definition strip_tags :: "string \<Rightarrow> nat \<Rightarrow> string option" where
  "strip_tags s state = strip_tags_loop (c_str s) None state NUL 0"

definition php3_strip_tags :: "nat \<Rightarrow> pval \<Rightarrow> pval option" where
  "php3_strip_tags precision v = map_option IS_STRING (strip_tags (sval precision v) 0)"

end
