(* ===== verification/Php_Split.thy ===== *)
theory Php_Split
  imports Php_Text
begin

text \<open>
  \<^verbatim>\<open>explode\<close>, \<^verbatim>\<open>implode\<close> and \<^verbatim>\<open>strtok\<close> of \<^verbatim>\<open>functions/string.c\<close>. The positions of \<^verbatim>\<open>explode\<close> are offsets in its working copy,
  a block of \<open>length s + 1\<close> bytes in which it writes a NUL over the start of each delimiter; \<^verbatim>\<open>strtok\<close> keeps its copy and
  its position between calls. The values of an array are those that are set: an element that was \<^verbatim>\<open>unset\<close> has no value here.
\<close>

subsection \<open>\<^verbatim>\<open>explode\<close>\<close>

text \<open>\<^verbatim>\<open>strstr (p, n)\<close> at a position of a block, the position found; outside of the block it is undefined.\<close>

definition strstr_at :: "string \<Rightarrow> nat \<Rightarrow> string \<Rightarrow> nat option option" where
  "strstr_at w p n =
     (if p < length w then Some (map_option (\<lambda>i. p + i) (strstr (c_str (drop p w)) n)) else None)"

definition add_index_string :: "pval parray \<Rightarrow> nat \<Rightarrow> string \<Rightarrow> pval parray" where
  "add_index_string a i s = arr_update a (IntKey (of_nat i)) (IS_STRING (c_str s))"

text \<open>The loop with \<^verbatim>\<open>p1\<close> and \<^verbatim>\<open>p2\<close>; it gives \<^verbatim>\<open>p1\<close>, \<^verbatim>\<open>i\<close>, the block and the array at its end.\<close>

partial_function (option) explode_loop ::
  "string \<Rightarrow> string \<Rightarrow> nat \<Rightarrow> nat \<Rightarrow> nat \<Rightarrow> pval parray \<Rightarrow> (nat \<times> nat \<times> string \<times> pval parray) option" where
  "explode_loop delim w p1 p2 i a =
     (let w' = w[p2 := NUL];
          a' = add_index_string a i (drop p1 w');
          p1' = p2 + length delim
      in case strstr_at w' p1' (c_str delim) of
           None \<Rightarrow> None
         | Some None \<Rightarrow> Some (p1', i + 1, w', a')
         | Some (Some p2') \<Rightarrow> if p2' \<noteq> 0 then explode_loop delim w' p1' p2' (i + 1) a'
                             else Some (p1', i + 1, w', a'))"

definition explode :: "string \<Rightarrow> string \<Rightarrow> pval parray \<Rightarrow> pval parray option" where
  "explode delim s a = do {
     let w = s @ [NUL];
     p2 \<leftarrow> strstr_at w 0 (c_str delim);
     (p1, i, w', a') \<leftarrow> (case p2 of
         None \<Rightarrow> Some (0, 1, w, add_index_string a 0 w)
       | Some p2 \<Rightarrow> explode_loop delim w 0 p2 0 a);
     Some (if p1 \<noteq> 0 then add_index_string a' i (drop p1 w') else a')
   }"

definition php3_explode :: "nat \<Rightarrow> pval \<Rightarrow> pval \<Rightarrow> pval option" where
  "php3_explode precision delim v =
     (let d = sval precision delim in
      if c_str d = [] then Some var_reset
      else map_option IS_ARRAY (explode d (sval precision v) arr_empty))"

subsection \<open>\<^verbatim>\<open>implode\<close>\<close>

text \<open>\<^verbatim>\<open>strcat\<close> to a buffer: behind its first NUL, before which every byte must have been written.\<close>

definition buf_strlen :: "buffer \<Rightarrow> nat option" where
  "buf_strlen b = (let n = length (takeWhile (\<lambda>c. c \<noteq> None \<and> c \<noteq> Some NUL) b)
                   in if n < length b \<and> b ! n = Some NUL then Some n else None)"

fun put_list :: "nat \<Rightarrow> string \<Rightarrow> buffer \<Rightarrow> buffer option" where
  "put_list i [] b = Some b"
| "put_list i (c # cs) b = do { b' \<leftarrow> put i c b; put_list (i + 1) cs b' }"

definition strcat :: "buffer \<Rightarrow> string \<Rightarrow> buffer option" where
  "strcat b s = do { n \<leftarrow> buf_strlen b; put_list n (c_str s @ [NUL]) b }"

fun implode_len :: "string list \<Rightarrow> nat \<Rightarrow> nat \<Rightarrow> nat \<Rightarrow> nat \<times> nat" where
  "implode_len [] dlen len cnt = (len, cnt)"
| "implode_len (s # ss) dlen len cnt =
     implode_len ss dlen (len + length s + (if cnt > 0 then dlen else 0)) (cnt + 1)"

fun implode_copy :: "string list \<Rightarrow> string \<Rightarrow> int \<Rightarrow> buffer \<Rightarrow> buffer option" where
  "implode_copy [] delim cnt b = Some b"
| "implode_copy (s # ss) delim cnt b = do {
     b1 \<leftarrow> strcat b s;
     b2 \<leftarrow> (if cnt - 1 > 0 then strcat b1 delim else Some b1);
     implode_copy ss delim (cnt - 1) b2
   }"

text \<open>The string of \<^verbatim>\<open>len\<close> bytes; \<open>None\<close> also when some of them were never written.\<close>

definition implode :: "string \<Rightarrow> string list \<Rightarrow> string option" where
  "implode delim ss =
     (case implode_len ss (length delim) 0 0 of (len, cnt) \<Rightarrow> do {
        b0 \<leftarrow> put 0 NUL (replicate (len + 1) None);
        b1 \<leftarrow> put len NUL b0;
        b2 \<leftarrow> implode_copy ss delim (int cnt) b1;
        contents len b2
      })"

text \<open>The string and the array, whose elements are converted in place.\<close>

definition php3_implode :: "nat \<Rightarrow> pval \<Rightarrow> pval \<Rightarrow> (pval \<times> pval parray) option option" where
  "php3_implode precision arg1 arg2 =
     (let go = (\<lambda>d a. let a' = PArr (map (apsnd (convert_to_string precision)) (ents a)) (next_free a)
                      in map_option (\<lambda>r. Some (IS_STRING r, a')) (implode d (map (\<lambda>e. str (snd e)) (ents a'))))
      in case (arg1, arg2) of
           (IS_ARRAY a, IS_STRING d) \<Rightarrow> go d a
         | (_, IS_ARRAY a) \<Rightarrow> go (sval precision arg1) a
         | _ \<Rightarrow> Some None)"

subsection \<open>\<^verbatim>\<open>strtok\<close>\<close>

record strtok_state =
  strtok_string :: string
  strtok_pos1 :: "nat option"

text \<open>The loop over the delimiters: the first position at which one of them is.\<close>

fun first_token :: "string \<Rightarrow> string \<Rightarrow> nat option \<Rightarrow> nat option" where
  "first_token [] s first = first"
| "first_token (t # ts) s first =
     (let pos2 = strchr s t
      in first_token ts s
           (case first of
              None \<Rightarrow> pos2
            | Some f \<Rightarrow> (case pos2 of Some p \<Rightarrow> if p < f then pos2 else first | None \<Rightarrow> first)))"

definition strtok :: "strtok_state \<Rightarrow> string option \<Rightarrow> string \<Rightarrow> pval \<times> strtok_state" where
  "strtok st arg tok =
     (let st1 = (case arg of None \<Rightarrow> st | Some s \<Rightarrow> st\<lparr>strtok_string := s, strtok_pos1 := Some 0\<rparr>)
      in case strtok_pos1 st1 of
           None \<Rightarrow> (var_reset, st1)
         | Some pos1 \<Rightarrow>
             (let rest = c_str (drop pos1 (strtok_string st1)) in
              if rest = [] then (var_reset, st1)
              else (case first_token (c_str tok) rest None of
                  Some i \<Rightarrow> (IS_STRING (take i rest),
                            st1\<lparr>strtok_string := (strtok_string st1)[pos1 + i := NUL], strtok_pos1 := Some (pos1 + i + 1)\<rparr>)
                | None \<Rightarrow> (IS_STRING rest, st1\<lparr>strtok_pos1 := None\<rparr>))))"

definition php3_strtok :: "nat \<Rightarrow> strtok_state \<Rightarrow> pval option \<Rightarrow> pval \<Rightarrow> pval \<times> strtok_state" where
  "php3_strtok precision st v tok = strtok st (map_option (sval precision) v) (sval precision tok)"

end
