(* ===== verification/Split_Facts.thy ===== *)
theory Split_Facts
  imports Php_Split
begin

text \<open>
  What \<^verbatim>\<open>explode\<close> and \<^verbatim>\<open>implode\<close> do to strings without NUL, and \<^verbatim>\<open>strtok\<close> to any string: \<open>explode\<close> cuts at the occurrences of the delimiter
  from left to right (\<open>split_at\<close>), \<open>implode\<close> joins (\<open>join\<close>), and \<open>strtok\<close> gives the pieces between delimiters.
\<close>

subsection \<open>Searching\<close>

lemma c_str_id [simp]: "NUL \<notin> set s \<Longrightarrow> c_str s = s"
  by (auto simp: c_str_def takeWhile_eq_all_conv)

lemma c_str_append_NUL [simp]: "NUL \<notin> set s \<Longrightarrow> c_str (s @ NUL # t) = s"
  unfolding c_str_def by (subst takeWhile_append2) auto

lemma c_str_no_NUL [simp]: "NUL \<notin> set (c_str s)"
  by (metis (mono_tags, lifting) c_str_def set_takeWhileD)

lemma c_str_c_str [simp]: "c_str (c_str s) = c_str s"
  by simp

lemma strstr_Some:
  "strstr s n = Some i \<Longrightarrow> i + length n \<le> length s \<and> take (length n) (drop i s) = n \<and>
     (\<forall>j < i. take (length n) (drop j s) \<noteq> n)"
proof (induction s n arbitrary: i rule: strstr.induct)
  case (2 c cs n)
  show ?case
  proof (cases "take (length n) (c # cs) = n")
    case True
    then have "length n \<le> length (c # cs)" by (metis length_take min.cobounded1)
    then show ?thesis using True 2 by simp
  next
    case False
    then obtain k where k: "strstr cs n = Some k" "i = Suc k" using 2 by auto
    show ?thesis
    proof (intro conjI allI impI)
      fix j assume "j < i"
      then show "take (length n) (drop j (c # cs)) \<noteq> n" using "2.IH"[OF False k(1)] k(2) False by (cases j) auto
    qed (use "2.IH"[OF False k(1)] k(2) in auto)
  qed
qed (auto split: if_splits)

lemma strstr_None: "strstr s n = None \<longleftrightarrow> (\<forall>i \<le> length s. take (length n) (drop i s) \<noteq> n)"
proof (induction s n rule: strstr.induct)
  case (2 c cs n)
  show ?case
  proof (cases "take (length n) (c # cs) = n")
    case True
    then show ?thesis by (auto intro!: exI[of _ 0])
  next
    case False
    then have "strstr (c # cs) n = None \<longleftrightarrow> (\<forall>i \<le> length cs. take (length n) (drop i cs) \<noteq> n)" using 2 by simp
    also have "\<dots> \<longleftrightarrow> (\<forall>i \<le> length (c # cs). take (length n) (drop i (c # cs)) \<noteq> n)"
      using False by (auto simp: All_less_Suc2 le_Suc_eq less_Suc_eq_le[symmetric])
    finally show ?thesis .
  qed
qed auto

lemma strstr_front:
  assumes "d \<noteq> []" "hd d \<notin> set p"
  shows "strstr (p @ d @ r) d = Some (length p)"
  using assms
proof (induction p)
  case Nil
  then show ?case by (cases d) auto
next
  case (Cons c p)
  then have "take (length d) (c # p @ d @ r) \<noteq> d" by (cases d) auto
  then show ?case using Cons by simp
qed

lemma strstr_absent:
  assumes "d \<noteq> []" "hd d \<notin> set p"
  shows "strstr p d = None"
  using assms by (induction p) (auto simp: neq_Nil_conv)

subsection \<open>Splitting and joining\<close>

function split_at :: "string \<Rightarrow> string \<Rightarrow> string list" where
  "split_at d s =
     (if d = [] then [s]
      else case strstr s d of None \<Rightarrow> [s] | Some i \<Rightarrow> take i s # split_at d (drop (i + length d) s))"
  by pat_completeness auto
termination
proof (relation "measure (\<lambda>(d, s). length s)", goal_cases)
  case (2 d s i)
  then show ?case using strstr_Some[of s d i] by (cases d) auto
qed simp

declare split_at.simps [simp del]

fun join :: "string \<Rightarrow> string list \<Rightarrow> string" where
  "join d [] = []"
| "join d [s] = s"
| "join d (s # ss) = s @ d @ join d ss"

lemma split_at_not_Nil [simp]: "split_at d s \<noteq> []"
  by (subst split_at.simps) (auto split: option.splits)

lemma join_Cons: "ss \<noteq> [] \<Longrightarrow> join d (s # ss) = s @ d @ join d ss"
  by (cases ss) auto

lemma join_split_at: "join d (split_at d s) = s"
proof (induction d s rule: split_at.induct)
  case (1 d s)
  show ?case
  proof (cases "d = [] \<or> strstr s d = None")
    case True
    then show ?thesis by (subst split_at.simps) auto
  next
    case False
    then obtain i where i: "strstr s d = Some i" by auto
    have "s = take i s @ d @ drop (i + length d) s"
      using strstr_Some[OF i] by (metis append_take_drop_id drop_drop add.commute)
    then show ?thesis using False i 1 by (subst split_at.simps) (simp add: join_Cons)
  qed
qed

lemma split_at_join:
  assumes "d \<noteq> []" "ps \<noteq> []" "\<forall>p \<in> set ps. hd d \<notin> set p"
  shows "split_at d (join d ps) = ps"
  using assms(2,3)
proof (induction ps rule: list_nonempty_induct)
  case (single p)
  then show ?case using assms(1) strstr_absent[of d p] by (subst split_at.simps) simp
next
  case (cons p ps)
  then show ?case using assms(1) strstr_front[of d p "join d ps"] by (subst split_at.simps) (simp add: join_Cons)
qed

lemma set_split_at: "p \<in> set (split_at d s) \<Longrightarrow> set p \<subseteq> set s"
proof (induction d s rule: split_at.induct)
  case (1 d s)
  then show ?case
    by (subst (asm) (2) split_at.simps) (auto split: if_splits option.splits dest: in_set_takeD in_set_dropD)
qed

lemma length_split_at: "d \<noteq> [] \<Longrightarrow> length (split_at d s) \<le> length s + 1"
proof (induction d s rule: split_at.induct)
  case (1 d s)
  show ?case
  proof (cases "strstr s d")
    case None
    then show ?thesis by (subst split_at.simps) simp
  next
    case (Some i)
    then have "length (drop (i + length d) s) < length s" using strstr_Some[OF Some] 1(2) by (cases d) auto
    then show ?thesis using 1 Some by (subst split_at.simps) (fastforce)
  qed
qed

subsection \<open>\<^verbatim>\<open>explode\<close>\<close>

fun add_pieces :: "pval parray \<Rightarrow> nat \<Rightarrow> string list \<Rightarrow> pval parray" where
  "add_pieces a i [] = a"
| "add_pieces a i (p # ps) = add_pieces (add_index_string a i p) (i + 1) ps"

lemma add_pieces_append: "add_pieces a i (ps @ qs) = add_pieces (add_pieces a i ps) (i + length ps) qs"
  by (induction a i ps rule: add_pieces.induct) auto

lemma add_index_string_append:
  "NUL \<notin> set p \<Longrightarrow> add_index_string a i (p @ NUL # t) = add_index_string a i p"
  by (simp add: add_index_string_def)

lemma explode_loop_spec:
  assumes "d \<noteq> []" "NUL \<notin> set d" "NUL \<notin> set r"
    and "drop p1 w = r @ [NUL]" "strstr r d = Some k"
  shows "\<exists>p1' w'. explode_loop d w p1 (p1 + k) i a =
           Some (p1', i + length (split_at d r) - 1, w', add_pieces a i (butlast (split_at d r))) \<and>
         p1' \<noteq> 0 \<and> drop p1' w' = List.last (split_at d r) @ [NUL]"
  using assms(3-)
proof (induction r arbitrary: p1 w k i a rule: length_induct)
  case (1 r)
  note k = strstr_Some[OF 1(4)]
  have split: "split_at d r = take k r # split_at d (drop (k + length d) r)"
    using 1(4) assms(1) by (subst split_at.simps) simp
  define w' where "w' = w[p1 + k := NUL]"
  have len: "length w = p1 + length r + 1"
    using arg_cong[OF 1(3), of length] by simp
  have d1: "drop p1 w' = take k r @ NUL # drop (k + 1) (r @ [NUL])"
    unfolding w'_def using 1(3) k by (simp add: drop_update_swap upd_conv_take_nth_drop)
  have d2: "drop (p1 + k + length d) w' = drop (k + length d) r @ [NUL]"
  proof -
    have "drop (p1 + k + length d) w' = drop (p1 + k + length d) w"
      unfolding w'_def using assms(1) by (cases d) auto
    also have "\<dots> = drop (k + length d) (drop p1 w)" by (simp add: ac_simps)
    finally show ?thesis using 1(3) k by simp
  qed
  have no: "NUL \<notin> set (take k r)" "NUL \<notin> set (drop (k + length d) r)"
    using 1(2) by (auto dest: in_set_takeD in_set_dropD)
  have in_block: "p1 + k + length d < length w'" using len k by (simp add: w'_def)
  have find: "strstr_at w' (p1 + k + length d) (c_str d) =
      Some (map_option (\<lambda>j. p1 + k + length d + j) (strstr (drop (k + length d) r) d))"
    using in_block no(2) by (simp add: strstr_at_def d2 assms(2))
  have a': "add_index_string a i (drop p1 w') = add_index_string a i (take k r)"
    unfolding d1 by (rule add_index_string_append) (rule no)
  show ?case
  proof (cases "strstr (drop (k + length d) r) d")
    case None
    then have last: "split_at d (drop (k + length d) r) = [drop (k + length d) r]"
      using assms(1) by (subst split_at.simps) simp
    show ?thesis
      by (subst explode_loop.simps)
        (use None find a' assms(1) d2 in \<open>auto simp: w'_def[symmetric] split last Let_def\<close>)
  next
    case (Some j)
    have "length (drop (k + length d) r) < length r" using k assms(1) by (cases d) auto
    from 1(1)[rule_format, OF this no(2) d2 Some, of "i + 1" "add_index_string a i (take k r)"]
    obtain p1' w'' where IH: "explode_loop d w' (p1 + k + length d) (p1 + k + length d + j) (i + 1) (add_index_string a i (take k r)) =
        Some (p1', i + 1 + length (split_at d (drop (k + length d) r)) - 1, w'',
              add_pieces (add_index_string a i (take k r)) (i + 1) (butlast (split_at d (drop (k + length d) r))))"
        "p1' \<noteq> 0" "drop p1' w'' = List.last (split_at d (drop (k + length d) r)) @ [NUL]"
      by auto
    have "p1 + k + length d + j \<noteq> 0" using assms(1) by simp
    then show ?thesis
      by (subst explode_loop.simps) (use find a' Some IH in \<open>simp add: w'_def[symmetric] split Let_def\<close>)
  qed
qed

lemma explode_pieces:
  assumes "d \<noteq> []" "NUL \<notin> set d" "NUL \<notin> set s"
  shows "explode d s a = Some (add_pieces a 0 (split_at d s))"
proof (cases "strstr s d")
  case None
  then have "split_at d s = [s]" by (subst split_at.simps) simp
  then show ?thesis using None assms
    by (simp add: explode_def strstr_at_def add_index_string_append[of s _ _ "[]", simplified])
next
  case (Some k)
  from explode_loop_spec[OF assms(1-3) _ Some, of 0 "s @ [NUL]" 0 a] obtain p1' w' where
    *: "explode_loop d (s @ [NUL]) 0 k 0 a =
         Some (p1', length (split_at d s) - 1, w', add_pieces a 0 (butlast (split_at d s)))"
       "p1' \<noteq> 0" "drop p1' w' = List.last (split_at d s) @ [NUL]"
    by auto
  have "NUL \<notin> set (List.last (split_at d s))" using set_split_at[OF last_in_set[OF split_at_not_Nil]] assms(3) by blast
  then have "add_index_string b i (drop p1' w') = add_pieces b i [List.last (split_at d s)]" for b i
    using *(3) by (simp add: add_index_string_append)
  then have "explode d s a = Some (add_pieces (add_pieces a 0 (butlast (split_at d s))) (length (split_at d s) - 1) [List.last (split_at d s)])"
    using Some * assms by (simp add: explode_def strstr_at_def)
  also have "\<dots> = Some (add_pieces a 0 (butlast (split_at d s) @ [List.last (split_at d s)]))"
    by (simp only: add_pieces_append length_butlast add_0)
  finally show ?thesis by (simp del: append_butlast_last_id) (simp add: append_butlast_last_id)
qed

text \<open>The array of the pieces, as long as their numbers are 32 bit indices.\<close>

definition string_array :: "string list \<Rightarrow> (hkey \<times> pval) list" where
  "string_array ps = map (\<lambda>(i, p). (IntKey (of_nat i), IS_STRING p)) (enumerate 0 ps)"

lemma add_pieces_ents:
  assumes "i + length ps \<le> 2 ^ 32" "\<forall>p \<in> set ps. NUL \<notin> set p"
    and "\<forall>k \<in> fst ` set (ents a). \<exists>j < i. k = IntKey (of_nat j)"
  shows "ents (add_pieces a i ps) = ents a @ map (\<lambda>(j, p). (IntKey (of_nat j), IS_STRING p)) (enumerate i ps)"
  using assms
proof (induction a i ps rule: add_pieces.induct)
  case (2 a i p ps)
  have inj: "j < i \<Longrightarrow> (of_nat j :: ulong) \<noteq> of_nat i" for j
    using 2(2) by (auto dest!: arg_cong[where f = unat] simp: unat_of_nat take_bit_eq_mod)
  have "IntKey (of_nat i) \<notin> fst ` set (ents a)" using 2(4) inj by fastforce
  then have e: "ents (add_index_string a i p) = ents a @ [(IntKey (of_nat i), IS_STRING p)]"
    using 2(3) by (simp add: add_index_string_def arr_update_def alist_update_new)
  have "\<forall>k \<in> fst ` set (ents (add_index_string a i p)). \<exists>j < i + 1. k = IntKey (of_nat j)"
    unfolding e using 2(4) by (auto simp: less_Suc_eq)
  then show ?case using 2 by (simp add: e)
qed simp

subsection \<open>\<^verbatim>\<open>implode\<close>\<close>

text \<open>A buffer that holds the string \<open>t\<close> and its NUL, and \<open>u\<close> behind it.\<close>

definition holds :: "string \<Rightarrow> buffer \<Rightarrow> buffer \<Rightarrow> bool" where
  "holds t u b \<longleftrightarrow> NUL \<notin> set t \<and> b = map Some t @ Some NUL # u"

lemma buf_strlen_holds: "holds t u b \<Longrightarrow> buf_strlen b = Some (length t)"
proof -
  assume h: "holds t u b"
  then have "takeWhile (\<lambda>c. c \<noteq> None \<and> c \<noteq> Some NUL) b = map Some t"
    unfolding holds_def by clarify (subst takeWhile_append2, auto)
  then show ?thesis using h by (simp add: buf_strlen_def holds_def nth_append)
qed

lemma put_list_front:
  "length s \<le> length u \<Longrightarrow> put_list (length t) s (t @ u) = Some (t @ map Some s @ drop (length s) u)"
proof (induction s arbitrary: t u)
  case (Cons c s)
  then obtain v u' where u: "u = v # u'" by (cases u) auto
  show ?case
    using Cons.IH[of u' "t @ [Some c]"] Cons.prems
    by (simp add: u put_def list_update_append)
qed simp

lemma strcat_holds:
  assumes "holds t u b" "NUL \<notin> set s" "length s \<le> length u"
  shows "\<exists>b'. strcat b s = Some b' \<and> holds (t @ s) (drop (length s) u) b'"
proof -
  have "put_list (length t) (s @ [NUL]) b = Some (map Some t @ map Some (s @ [NUL]) @ drop (length (s @ [NUL])) (Some NUL # u))"
    using put_list_front[of "s @ [NUL]" "Some NUL # u" "map Some t"] assms by (simp add: holds_def)
  then show ?thesis using assms by (simp add: strcat_def buf_strlen_holds) (simp add: holds_def)
qed

lemma implode_len_join:
  "implode_len ss dlen len cnt =
     (len + length (concat ss) + dlen * (if cnt = 0 then length ss - 1 else length ss), cnt + length ss)"
  by (induction ss dlen len cnt rule: implode_len.induct) (auto simp: algebra_simps gr0_conv_Suc)

lemma length_join: "length (join d ss) = length (concat ss) + length d * (length ss - 1)"
  by (induction d ss rule: join.induct) auto

lemma implode_copy_join:
  assumes "\<forall>s \<in> set ss. NUL \<notin> set s" "length ss > 1 \<longrightarrow> NUL \<notin> set d"
    and "holds t u b" "length (join d ss) \<le> length u"
  shows "\<exists>b'. implode_copy ss d (int (length ss)) b = Some b' \<and> holds (t @ join d ss) (drop (length (join d ss)) u) b'"
  using assms
proof (induction d ss arbitrary: t u b rule: join.induct)
  case (2 d s)
  then show ?case using strcat_holds[of t u b s] by (auto simp del: drop_drop)
next
  case (3 d s s' ss)
  obtain b1 where b1: "strcat b s = Some b1" "holds (t @ s) (drop (length s) u) b1"
    using strcat_holds[of t u b s] 3 by auto
  have "NUL \<notin> set d" "length d \<le> length (drop (length s) u)" using "3.prems" by auto
  from strcat_holds[OF b1(2) this]
  obtain b2 where b2: "strcat b1 d = Some b2" "holds (t @ s @ d) (drop (length d + length s) u) b2" by auto
  obtain b' where "implode_copy (s' # ss) d (int (length (s' # ss))) b2 = Some b'"
      "holds ((t @ s @ d) @ join d (s' # ss)) (drop (length (join d (s' # ss))) (drop (length d + length s) u)) b'"
    using "3.IH"[OF _ _ b2(2)] 3 by force
  then show ?case using b1 b2 by (simp add: ac_simps)
qed auto

lemma those_map_Some [simp]: "those (map Some t) = Some t"
  by (induction t) auto

lemma contents_holds: "holds t u b \<Longrightarrow> contents (length t) b = Some t"
  by (simp add: holds_def contents_def)

lemma init_buffer:
  "\<exists>u. (put 0 NUL (replicate (n + 1) None) \<bind> put n NUL) = Some (Some NUL # u) \<and> length u = n"
proof (cases n)
  case 0
  then show ?thesis by (simp add: put_def)
next
  case (Suc m)
  have "put 0 NUL (replicate (n + 1) None) \<bind> put n NUL = Some (Some NUL # (replicate n None)[m := Some NUL])"
    unfolding Suc by (simp add: put_def del: replicate.simps) (simp add: Suc)
  then show ?thesis by simp
qed

lemma implode_join:
  assumes "\<forall>s \<in> set ss. NUL \<notin> set s" "length ss > 1 \<longrightarrow> NUL \<notin> set d"
  shows "implode d ss = Some (join d ss)"
proof -
  define n where "n = length (join d ss)"
  have len: "implode_len ss (length d) 0 0 = (n, length ss)" by (simp add: implode_len_join length_join n_def)
  obtain u where u: "put 0 NUL (replicate (n + 1) None) \<bind> put n NUL = Some (Some NUL # u)" "length u = n"
    using init_buffer by blast
  have "holds [] u (Some NUL # u)" by (simp add: holds_def)
  from implode_copy_join[OF assms this] u(2) obtain b' where
    b': "implode_copy ss d (int (length ss)) (Some NUL # u) = Some b'" "holds (join d ss) (drop n u) b'"
    unfolding n_def by auto
  have "contents n b' = Some (join d ss)" using contents_holds[OF b'(2)] by (simp add: n_def)
  then show ?thesis using u(1) b'(1) by (auto simp: implode_def len bind_eq_Some_conv)
qed

subsection \<open>\<^verbatim>\<open>strtok\<close>\<close>

definition first_of :: "char set \<Rightarrow> string \<Rightarrow> nat option" where
  "first_of X s = (if \<exists>c \<in> set s. c \<in> X then Some (length (takeWhile (\<lambda>c. c \<notin> X) s)) else None)"

lemma first_of_Cons [simp]: "first_of X (c # s) = (if c \<in> X then Some 0 else map_option Suc (first_of X s))"
  by (auto simp: first_of_def)

lemma first_of_Nil [simp]: "first_of X [] = None"
  by (simp add: first_of_def)

lemma first_of_empty [simp]: "first_of {} s = None"
  by (simp add: first_of_def)

lemma strchr_first_of: "t \<noteq> NUL \<Longrightarrow> strchr s t = first_of {t} s"
  by (auto simp: strchr_def first_of_def)

lemma first_of_insert:
  "first_of (insert t X) s =
     (case first_of X s of
        None \<Rightarrow> first_of {t} s
      | Some f \<Rightarrow> (case first_of {t} s of Some p \<Rightarrow> if p < f then Some p else Some f | None \<Rightarrow> Some f))"
  by (induction s) (auto split: option.splits)

lemma first_token_first_of:
  "NUL \<notin> set ts \<Longrightarrow> first_token ts s (first_of X s) = first_of (set ts \<union> X) s"
proof (induction ts arbitrary: X)
  case (Cons t ts)
  have "first_token (t # ts) s (first_of X s) = first_token ts s (first_of (insert t X) s)"
    unfolding first_token.simps Let_def first_of_insert[of t X s]
    using Cons.prems by (auto simp: strchr_first_of split: option.splits)
  then show ?case using Cons.IH[of "insert t X"] Cons.prems by simp
qed simp

text \<open>The pieces between the characters of \<open>t\<close>; there is none behind a delimiter at the end.\<close>

function tok_pieces :: "string \<Rightarrow> string \<Rightarrow> string list" where
  "tok_pieces t s =
     (if s = [] then []
      else case first_of (set t) s of None \<Rightarrow> [s] | Some i \<Rightarrow> take i s # tok_pieces t (drop (i + 1) s))"
  by pat_completeness auto
termination
  by (relation "measure (\<lambda>(t, s). length s)") auto

declare tok_pieces.simps [simp del]

text \<open>The results of \<open>n\<close> further calls with the delimiters only.\<close>

fun strtok_run :: "nat \<Rightarrow> strtok_state \<Rightarrow> string \<Rightarrow> pval list" where
  "strtok_run 0 st tok = []"
| "strtok_run (Suc n) st tok = (case strtok st None tok of (v, st') \<Rightarrow> v # strtok_run n st' tok)"

lemma first_of_bound: "first_of X s = Some i \<Longrightarrow> i < length s"
  by (induction s arbitrary: i) (auto split: if_splits)

lemma strtok_run_done: "strtok_pos1 st = None \<Longrightarrow> strtok_run n st tok = replicate n var_reset"
  by (induction n) (simp_all add: strtok_def)

lemma take_pad: "m \<le> n \<Longrightarrow> take m (x # replicate n x) = replicate m x"
  using take_replicate[of m "Suc n" x] by (simp add: min_def)

lemma c_str_drop: "c_str s = r \<Longrightarrow> i \<le> length r \<Longrightarrow> c_str (drop i s) = drop i r"
  by (induction s arbitrary: r i) (auto simp: c_str_def drop_Cons' split: if_splits)

lemma strtok_run_pieces:
  assumes "strtok_pos1 st = Some p" "c_str (drop p (strtok_string st)) = r"
  shows "strtok_run n st tok = take n (map IS_STRING (tok_pieces (c_str tok) r) @ replicate n var_reset)"
  using assms
proof (induction n arbitrary: st p r)
  case (Suc n)
  have ft: "first_token (c_str tok) r None = first_of (set (c_str tok)) r"
    using first_token_first_of[of "c_str tok" r "{}"] by simp
  show ?case
  proof (cases "r = []")
    case True
    then have "strtok st None tok = (var_reset, st)" using Suc.prems by (simp add: strtok_def)
    moreover have "tok_pieces (c_str tok) r = []" using True by (simp add: tok_pieces.simps)
    ultimately show ?thesis using Suc.IH[OF Suc.prems] by simp
  next
    case False
    show ?thesis
    proof (cases "first_of (set (c_str tok)) r")
      case None
      then have "tok_pieces (c_str tok) r = [r]" using False by (simp add: tok_pieces.simps)
      then show ?thesis using False None Suc.prems ft by (simp add: strtok_def strtok_run_done take_pad)
    next
      case (Some i)
      define st' where "st' = st\<lparr>strtok_string := (strtok_string st)[p + i := NUL], strtok_pos1 := Some (p + i + 1)\<rparr>"
      have "drop (p + i + 1) (strtok_string st') = drop (i + 1) (drop p (strtok_string st))"
        unfolding st'_def by (simp add: ac_simps)
      then have "c_str (drop (p + i + 1) (strtok_string st')) = drop (i + 1) r"
        using c_str_drop[OF Suc.prems(2), of "i + 1"] first_of_bound[OF Some] by simp
      then have IH: "strtok_run n st' tok =
          take n (map IS_STRING (tok_pieces (c_str tok) (drop (i + 1) r)) @ replicate n var_reset)"
        using Suc.IH[of st' "p + i + 1"] by (simp add: st'_def)
      have "strtok st None tok = (IS_STRING (take i r), st')"
        using Suc.prems False Some ft by (simp add: strtok_def st'_def)
      moreover have "tok_pieces (c_str tok) r = take i r # tok_pieces (c_str tok) (drop (i + 1) r)"
        using False Some by (subst tok_pieces.simps) simp
      ultimately show ?thesis using IH by (simp add: take_pad)
    qed
  qed
qed simp

lemma strtok_new: "strtok st (Some s) tok = strtok \<lparr>strtok_string = s, strtok_pos1 = Some 0\<rparr> None tok"
  by (cases st) (simp add: strtok_def)

lemma tok_pieces_clean: "p \<in> set (tok_pieces t s) \<Longrightarrow> set p \<inter> set t = {}"
proof (induction t s rule: tok_pieces.induct)
  case (1 t s)
  show ?case
  proof (cases "s = []")
    case True
    then show ?thesis using 1(2) by (simp add: tok_pieces.simps)
  next
    case False
    show ?thesis
    proof (cases "first_of (set t) s")
      case None
      then have "p = s" using 1(2) False by (subst (asm) tok_pieces.simps) simp
      then show ?thesis using None by (auto simp: first_of_def split: if_splits)
    next
      case (Some i)
      then have "i = length (takeWhile (\<lambda>c. c \<notin> set t) s)" by (auto simp: first_of_def split: if_splits)
      then have "take i s = takeWhile (\<lambda>c. c \<notin> set t) s" by (metis takeWhile_eq_take)
      then have "set (take i s) \<inter> set t = {}" by (auto dest: set_takeWhileD)
      moreover have "p = take i s \<or> p \<in> set (tok_pieces t (drop (i + 1) s))"
        using 1(2) False Some by (subst (asm) tok_pieces.simps) simp
      ultimately show ?thesis using 1(1)[OF False Some] by blast
    qed
  qed
qed

end
