(* ===== verification/Text_Facts.thy ===== *)
theory Text_Facts
  imports Split_Facts Php_Arith "HOL-Library.Sublist"
begin

text \<open>
  What the functions on one string compute: trimming as \<open>dropWhile\<close> at the ends, the escaping of quotes and its
  inverse, replacement against a reference from left to right, the parts of a string and the tags that are removed.
\<close>

subsection \<open>Trimming\<close>

lemma chop_loop_dropWhile:
  "n \<le> length c \<Longrightarrow> chop_loop c n n = length (dropWhile trim_char (rev (take n c)))"
  by (induction n) (auto simp: take_Suc_conv_app_nth)

lemma take_dropWhile_rev: "take (length (dropWhile P (rev c))) c = rev (dropWhile P (rev c))"
proof -
  have "rev (dropWhile P (rev c)) = rev (drop (length (takeWhile P (rev c))) (rev c))"
    by (simp add: dropWhile_eq_drop)
  also have "\<dots> = take (length c - length (takeWhile P (rev c))) c" by (simp add: rev_drop)
  also have "length c - length (takeWhile P (rev c)) = length (dropWhile P (rev c))"
    by (metis add_diff_cancel_left' length_append length_rev takeWhile_dropWhile_id)
  finally show ?thesis by simp
qed

lemma chop_exact: "take (chop_loop c (length c) (length c)) c = rev (dropWhile trim_char (rev c))"
  by (simp add: chop_loop_dropWhile take_dropWhile_rev)

lemma leading_loop_takeWhile: "leading_loop s n = n + length (takeWhile trim_char s)"
  by (induction s n rule: leading_loop.induct) auto

lemma trim_string_exact: "trim_string s = rev (dropWhile trim_char (rev (dropWhile trim_char s)))"
  using chop_exact[of "dropWhile trim_char s"]
  by (simp add: trim_string_def Let_def leading_loop_takeWhile dropWhile_eq_drop)

subsection \<open>Slashes\<close>

lemma length_addslashes: "length (addslashes_bytes sybase s) \<le> 2 * length s"
  by (induction s) (auto simp: addslashes_char_def)

lemma addslashes_defined: "addslashes sybase s (length s) = Some (addslashes_bytes sybase s)"
  using length_addslashes[of sybase s] by (cases s) (auto simp: addslashes_def c_str_def)

lemma addslashes_no_NUL: "NUL \<notin> set (addslashes_bytes sybase s)"
  by (induction s) (auto simp: addslashes_char_def)

lemma strip_add:
  "sybase \<longrightarrow> NUL \<notin> set s \<Longrightarrow> stripslashes sybase (addslashes_bytes sybase s) = s"
proof (induction s)
  case (Cons c s)
  then have IH: "stripslashes sybase (addslashes_bytes sybase s) = s" by simp
  show ?case
    using IH Cons.prems by (auto simp: stripslashes_def addslashes_char_def split: if_splits)
qed (simp add: stripslashes_def)

text \<open>A text read between quotes of the kind \<open>q\<close>: no NUL and no quote without a backslash before it.\<close>

fun quoted_ok :: "char \<Rightarrow> string \<Rightarrow> bool" where
  "quoted_ok q [] = True"
| "quoted_ok q (c # cs) =
     (c \<noteq> NUL \<and> c \<noteq> q \<and>
      (if c = CHR 0x5C then (case cs of [] \<Rightarrow> False | d # ds \<Rightarrow> d \<noteq> NUL \<and> quoted_ok q ds) else quoted_ok q cs))"

text \<open>Between single quotes of Sybase a quote stands for itself when there are two.\<close>

fun doubled_ok :: "char \<Rightarrow> string \<Rightarrow> bool" where
  "doubled_ok q [] = True"
| "doubled_ok q (c # cs) =
     (c \<noteq> NUL \<and> (if c = q then (case cs of [] \<Rightarrow> False | d # ds \<Rightarrow> d = q \<and> doubled_ok q ds) else doubled_ok q cs))"

lemma addslashes_doubled: "doubled_ok (CHR 0x27) (addslashes_bytes True s)"
  by (induction s) (auto simp: addslashes_char_def)

lemma addslashes_sybase:
  "NUL \<notin> set s \<Longrightarrow> addslashes_bytes True s = concat (map (\<lambda>c. if c = CHR 0x27 then [c, c] else [c]) s)"
  by (induction s) (auto simp: addslashes_char_def)

lemma addslashes_quoted: "q \<in> {CHR 0x27, CHR 0x22} \<Longrightarrow> quoted_ok q (addslashes_bytes False s)"
  by (induction s) (auto simp: addslashes_char_def)

subsection \<open>Replacing\<close>

lemma length_char_to_str:
  "int (length (char_to_str_bytes s c to)) =
     int (length s) + int (length (filter (\<lambda>d. d = c) s)) * (int (length to) - 1)"
  by (induction s c to rule: char_to_str_bytes.induct) (auto simp: algebra_simps)

lemma char_to_str_join: "char_to_str_bytes s c to = join to (split_at [c] s)"
proof (induction s)
  case (Cons d s)
  show ?case
  proof (cases "d = c")
    case True
    then have "split_at [c] (d # s) = [] # split_at [c] s" by (subst split_at.simps) simp
    then show ?thesis using True Cons by (simp add: join_Cons)
  next
    case False
    show ?thesis
    proof (cases "strstr s [c]")
      case None
      then have "split_at [c] (d # s) = [d # s]" "split_at [c] s = [s]"
        using False by (subst split_at.simps, simp)+
      then show ?thesis using False Cons by simp
    next
      case (Some i)
      then have "split_at [c] (d # s) = (d # take i s) # split_at [c] (drop (i + 1) s)"
          "split_at [c] s = take i s # split_at [c] (drop (i + 1) s)"
        using False by (subst split_at.simps, simp)+
      then show ?thesis using False Cons by (simp add: join_Cons)
    qed
  qed
qed (simp add: split_at.simps)

lemma strstr_short: "length s < length n \<Longrightarrow> strstr s n = None"
proof (induction s)
  case (Cons c s)
  have "length (take (length n) (c # s)) \<noteq> length n" using Cons.prems by simp
  then have "take (length n) (c # s) \<noteq> n" by (rule contrapos_nn) simp
  then show ?case using Cons by simp
qed auto

lemma strstr_skip:
  assumes "n \<noteq> []" "hd n \<notin> set a"
  shows "strstr (a @ b) n = map_option (\<lambda>i. length a + i) (strstr b n)"
  using assms(2)
proof (induction a)
  case (Cons c a)
  then have "take (length n) (c # a @ b) \<noteq> n" using assms(1) by (cases n) auto
  then show ?case using Cons by (simp add: option.map_comp comp_def)
qed (cases "strstr b n"; simp)

lemma memnstr_strstr: "n \<noteq> [] \<Longrightarrow> memnstr r n = strstr r n"
proof (induction r n rule: memnstr.induct)
  case (1 r n)
  show ?case
  proof (cases "length n \<le> length r")
    case False
    then show ?thesis by (simp add: memnstr.simps strstr_short)
  next
    case len: True
    define m where "m = length r - length n + 1"
    show ?thesis
    proof (cases "memchr (take m r) (hd n)")
      case None
      then have "strstr r n = map_option (\<lambda>i. length (take m r) + i) (strstr (drop m r) n)"
        using strstr_skip[OF 1(2), of "take m r" "drop m r"] by (simp add: memchr_None)
      moreover have "strstr (drop m r) n = None" using len 1(2) by (intro strstr_short) (cases n; simp add: m_def)
      ultimately show ?thesis using len None by (simp add: memnstr.simps m_def)
    next
      case (Some i)
      then have i: "i < length r" "\<forall>j < i. r ! j \<noteq> hd n" using memchr_Some[OF Some] by auto
      then have "hd n \<notin> set (take i r)" by (auto simp: in_set_conv_nth)
      from strstr_skip[OF 1(2) this, of "drop i r"] i(1)
      have skip: "strstr r n = map_option (\<lambda>k. i + k) (strstr (drop i r) n)" by simp
      have c: "drop i r = r ! i # drop (i + 1) r" using i(1) by (simp add: Cons_nth_drop_Suc)
      have IH: "take (length n) (drop i r) \<noteq> n \<Longrightarrow> memnstr (drop (i + 1) r) n = strstr (drop (i + 1) r) n"
        using 1(1)[OF len Some[unfolded m_def] _ 1(2)] by blast
      have "strstr (drop i r) n = (if take (length n) (drop i r) = n then Some 0
          else map_option Suc (strstr (drop (i + 1) r) n))"
        unfolding c by simp
      then show ?thesis
        using skip IH len Some[unfolded m_def]
        by (subst memnstr.simps) (cases "strstr (drop (i + 1) r) n"; simp)
    qed
  qed
qed

lemma size_t_small: "n < 2 ^ 32 \<Longrightarrow> size_t (int n) = n"
  by (simp add: size_t_def)

text \<open>A block for \<open>n\<close> bytes and a NUL has room for both exactly when their number is a size.\<close>

lemma size_t_fits: "n < size_t (int (n + 1)) \<longleftrightarrow> n + 1 < 2 ^ 32" "n \<le> size_t (int (n + 1)) \<longleftrightarrow> n + 1 < 2 ^ 32"
proof -
  have s: "size_t (int (n + 1)) < 4294967296"
    using pos_mod_bound [of "4294967296" "int (n + 1)"] by (simp add: size_t_def nat_less_iff)
  have z: "size_t (int (n + 1)) = 0" if "n + 1 = 4294967296"
    unfolding that by (simp add: size_t_def)
  have "n \<le> size_t (int (n + 1)) \<Longrightarrow> n + 1 < 4294967296"
    using s z by linarith
  moreover have "n + 1 < 4294967296 \<Longrightarrow> n < size_t (int (n + 1))"
    using size_t_small [of "n + 1"] by simp
  ultimately show "n < size_t (int (n + 1)) \<longleftrightarrow> n + 1 < 2 ^ 32" "n \<le> size_t (int (n + 1)) \<longleftrightarrow> n + 1 < 2 ^ 32"
    by auto
qed

lemma str_to_str_loop_join:
  assumes "n \<noteq> []" "r \<noteq> [] \<or> length out < cap \<and> length out + 1 < 2 ^ 32"
  shows "str_to_str_loop r n to out cap =
    (let t = out @ join to (split_at n r) in if length t + 1 < 2 ^ 32 then Some t else None)"
  using assms(2)
proof (induction r arbitrary: out cap rule: length_induct)
  case (1 r)
  show ?case
  proof (cases "strstr r n")
    case None
    then have s: "split_at n r = [r]" by (subst split_at.simps) simp
    have m: "memnstr r n = None" using None assms(1) by (simp add: memnstr_strstr)
    show ?thesis
    proof (cases "r = []")
      case True
      then show ?thesis using 1(2) s m by (subst str_to_str_loop.simps) simp
    next
      case False
      then show ?thesis
        using s m size_t_fits(1)[of "length (out @ r)"] by (subst str_to_str_loop.simps) (simp add: Let_def)
    qed
  next
    case (Some i)
    define r' where "r' = drop (i + length n) r"
    define out' where "out' = out @ take i r @ to"
    define cap' where "cap' = size_t (int (length out' + 1))"
    have i: "i \<le> length r" using strstr_Some[OF Some] by simp
    have len: "length out + i + length to = length (out @ take i r @ to)" using i by simp
    have s: "split_at n r = take i r # split_at n r'"
      using Some assms(1) by (subst split_at.simps) (simp add: r'_def)
    then have t: "out @ join to (split_at n r) = out' @ join to (split_at n r')"
      by (simp add: join_Cons out'_def)
    have step: "str_to_str_loop r n to out cap = (if length out' \<le> cap' then str_to_str_loop r' n to out' cap' else None)"
      by (subst str_to_str_loop.simps) (simp only: memnstr_strstr[OF assms(1)] Some option.case Let_def len cap'_def r'_def out'_def)
    have short: "length r' < length r" using strstr_Some[OF Some] assms(1) by (cases n) (auto simp: r'_def)
    show ?thesis
    proof (cases "length out' + 1 < 2 ^ 32")
      case True
      then have c: "length out' < cap'" using size_t_fits(1) by (simp add: cap'_def)
      then have "str_to_str_loop r' n to out' cap' =
          (let t = out' @ join to (split_at n r') in if length t + 1 < 2 ^ 32 then Some t else None)"
        using 1(1) short True by blast
      then show ?thesis using step c unfolding t by simp
    next
      case False
      then have "\<not> length out' \<le> cap'" using size_t_fits(2)[of "length out'"] by (simp add: cap'_def)
      moreover have "\<not> length (out' @ join to (split_at n r')) + 1 < 2 ^ 32" using False by simp
      ultimately show ?thesis unfolding step t Let_def by (simp only: if_False)
    qed
  qed
qed

text \<open>Both algorithms, with the size of the block and the length of the result.\<close>

lemma str_to_str_join:
  assumes "n \<noteq> []" "h \<noteq> []"
  shows "str_to_str h n to =
    (let r = join to (split_at n h) in if length r + 1 < 2 ^ 32 then Some (cint (int (length r)), r) else None)"
  using assms by (simp add: str_to_str_def str_to_str_loop_join Let_def)

lemma size_t_cint: "size_t (cint n + 1) = size_t (n + 1)"
proof -
  have "(word_of_int (cint n + 1) :: ulong) = word_of_int (n + 1)"
    by (simp add: cint_def)
  moreover have "size_t m = nat (uint (word_of_int m :: ulong))" for m
    by (simp add: size_t_def uint_word_of_int del: word_uint_eq_iff)
  ultimately show ?thesis by (simp only:)
qed

lemma char_to_str_exact:
  assumes "int (length h) \<le> LONG_MAX"
  shows "char_to_str h c to =
    (let r = join to (split_at [c] h) in if length r + 1 < 2 ^ 32 then Some (cint (int (length r)), r) else None)"
proof -
  define r where "r = char_to_str_bytes h c to"
  have r: "join to (split_at [c] h) = r" by (simp add: r_def char_to_str_join)
  have len: "int (length h) + int (length (filter (\<lambda>d. d = c) h)) * (int (length to) - 1) = int (length r)"
    by (simp add: r_def length_char_to_str)
  show ?thesis
  proof (cases "filter (\<lambda>d. d = c) h = []")
    case True
    then have "c \<notin> set h" by (auto simp: filter_empty_conv)
    then have "split_at [c] h = [h]" by (subst split_at.simps) (simp add: strstr_absent)
    then have h: "r = h" using r by simp
    have "length h + 1 < 2 ^ 32" using assms by (simp add: long_bounds)
    moreover have "cint (int (length h)) = int (length h)"
      unfolding cint_def using assms by (intro sint_of_int_range) (simp_all add: long_bounds)
    ultimately show ?thesis unfolding r using h True by (simp add: char_to_str_def)
  next
    case False
    have "length r < size_t (cint (int (length r)) + 1) \<longleftrightarrow> length r + 1 < 2 ^ 32"
      using size_t_fits(1)[of "length r"] by (simp only: size_t_cint of_nat_add of_nat_1)
    then show ?thesis using False unfolding r by (simp add: char_to_str_def Let_def len r_def [symmetric])
  qed
qed

lemma cint_length: "cint (int n) = int n \<longleftrightarrow> int n \<le> LONG_MAX"
  using sint_range(2)[of "word_of_int (int n)"] sint_of_int_range[of "int n"] by (auto simp: cint_def long_bounds)

subsection \<open>Tags\<close>

definition cleaned :: "string \<Rightarrow> string option \<Rightarrow> bool" where
  "cleaned s r \<longleftrightarrow> (\<exists>t. r = Some t \<and> CHR ''<'' \<notin> set t \<and> CHR ''>'' \<notin> set t \<and> subseq t s)"

lemma cleaned_step:
  assumes "cleaned cs r" "out = [] \<or> out = [c] \<and> c \<noteq> CHR ''<'' \<and> c \<noteq> CHR ''>''"
  shows "cleaned (c # cs) (map_option ((@) out) r)"
  using assms by (auto simp: cleaned_def)

lemma cleaned_if: "(b \<Longrightarrow> cleaned s x) \<Longrightarrow> (\<not> b \<Longrightarrow> cleaned s y) \<Longrightarrow> cleaned s (if b then x else y)"
  by simp

lemma cleaned_option:
  "(v = None \<Longrightarrow> cleaned s x) \<Longrightarrow> (\<And>d. v = Some d \<Longrightarrow> cleaned s (f d)) \<Longrightarrow>
   cleaned s (case v of None \<Rightarrow> x | Some d \<Rightarrow> f d)"
  by (cases v) auto

lemma strip_tags_loop_safe:
  "state = 0 \<or> prev \<noteq> None \<Longrightarrow> cleaned cs (strip_tags_loop cs prev state lc br)"
proof (induction cs arbitrary: prev state lc br)
  case Nil
  then show ?case by (simp add: cleaned_def)
next
  case (Cons c cs)
  have IH: "cleaned cs (strip_tags_loop cs (Some c) st l b)" for st l b using Cons.IH by blast
  have drop_step: "cleaned (c # cs) (map_option ((@) []) (strip_tags_loop cs (Some c) st l b))" for st l b
    by (rule cleaned_step) (use IH in auto)
  define keep where "keep = (if state = 0 then [c] else [])"
  have keep_step: "cleaned (c # cs) (map_option ((@) keep) (strip_tags_loop cs (Some c) st l b))"
    if "c \<noteq> CHR ''<''" "c \<noteq> CHR ''>''" for st l b
    by (rule cleaned_step) (use that IH in \<open>auto simp: keep_def\<close>)
  have prev: "state = 0 \<or> prev \<noteq> None" using Cons.prems .
  show ?case
    unfolding strip_tags_loop.simps Let_def keep_def[symmetric]
    by (intro cleaned_if cleaned_option drop_step keep_step; use prev in simp)
qed

lemma strip_tags_loop_plain:
  "CHR ''<'' \<notin> set cs \<Longrightarrow> CHR ''>'' \<notin> set cs \<Longrightarrow> strip_tags_loop cs prev 0 lc br = Some cs"
  by (induction cs arbitrary: prev lc br) (auto simp: Let_def)

lemma map_append_Nil [simp]: "map_option ((@) []) x = x"
  by (cases x) simp_all

text \<open>Outside of a tag the machine forgets what was before, and in an HTML tag it does not use the count of parentheses.\<close>

lemma strip_tags_loop_forget:
  "strip_tags_loop cs p 0 lc br = strip_tags_loop cs p' 0 lc' br' \<and>
   strip_tags_loop cs (Some d) 1 l br = strip_tags_loop cs (Some d) 1 l br'"
proof (induction cs arbitrary: p p' lc lc' br br' d l)
  case (Cons c cs)
  have out: "strip_tags_loop cs (Some e) 0 a b = strip_tags_loop cs (Some e) 0 a' b'" for e a b a' b'
    using Cons.IH by blast
  have html: "strip_tags_loop cs (Some e) 1 a b = strip_tags_loop cs (Some e) 1 a b'" for e a b b'
    using Cons.IH by blast
  have "strip_tags_loop (c # cs) p 0 lc br = strip_tags_loop (c # cs) p' 0 lc' br'"
    using out[of c lc br lc' br'] html[of c "CHR ''<''" br br'] by (auto simp: Let_def)
  moreover have "strip_tags_loop (c # cs) (Some d) 1 l br = strip_tags_loop (c # cs) (Some d) 1 l br'"
    using out[of c "CHR ''>''" br "CHR ''>''" br'] html[of c l br br'] by (auto simp: Let_def)
  ultimately show ?case by blast
qed simp

lemma strip_tags_loop_text:
  "CHR ''<'' \<notin> set a \<Longrightarrow> CHR ''>'' \<notin> set a \<Longrightarrow>
   strip_tags_loop (a @ cs) p 0 lc br = map_option ((@) a) (strip_tags_loop cs None 0 NUL 0)"
proof (induction a arbitrary: p lc br)
  case Nil
  show ?case using strip_tags_loop_forget[of cs p lc br None NUL 0] by (simp add: option.map_ident)
next
  case (Cons c a)
  then have "strip_tags_loop (a @ cs) (Some c) 0 l b = map_option ((@) a) (strip_tags_loop cs None 0 NUL 0)" for l b
    by simp
  then show ?case using Cons.prems by (auto simp: Let_def option.map_comp comp_def)
qed

lemma strip_tags_loop_tag:
  "CHR ''<'' \<notin> set t \<Longrightarrow> CHR ''>'' \<notin> set t \<Longrightarrow> d \<noteq> CHR ''<'' \<or> t = [] \<or> hd t \<noteq> CHR ''?'' \<Longrightarrow>
   strip_tags_loop (t @ CHR ''>'' # cs) (Some d) 1 lc br = strip_tags_loop cs None 0 NUL 0"
proof (induction t arbitrary: d)
  case Nil
  show ?case
    using strip_tags_loop_forget[of cs "Some (CHR ''>'')" "CHR ''>''" br None NUL 0] by (simp add: Let_def)
next
  case (Cons c t)
  from Cons.prems(1) have "c \<noteq> CHR ''<''" by auto
  with Cons have "strip_tags_loop (t @ CHR ''>'' # cs) (Some c) 1 lc br = strip_tags_loop cs None 0 NUL 0"
    by (metis list.set_intros(2))
  then show ?case using Cons.prems by (auto simp: Let_def)
qed

lemma strip_tags_tag:
  assumes "CHR ''<'' \<notin> set a" "CHR ''>'' \<notin> set a" "NUL \<notin> set a"
    and "CHR ''<'' \<notin> set t" "CHR ''>'' \<notin> set t" "NUL \<notin> set t" "t = [] \<or> hd t \<noteq> CHR ''?''"
  shows "strip_tags (a @ ''<'' @ t @ ''>'' @ b) 0 = map_option ((@) a) (strip_tags b 0)"
proof -
  have "c_str (a @ ''<'' @ t @ ''>'' @ b) = a @ CHR ''<'' # t @ CHR ''>'' # c_str b"
    using assms(3,6) by (simp add: c_str_def takeWhile_append)
  moreover have "strip_tags_loop (CHR ''<'' # t @ CHR ''>'' # c_str b) None 0 NUL 0 = strip_tags_loop (c_str b) None 0 NUL 0"
    using strip_tags_loop_tag[OF assms(4,5), of "CHR ''<''" "c_str b"] assms(7) by (simp add: Let_def)
  ultimately show ?thesis
    using strip_tags_loop_text[OF assms(1,2)] by (simp add: strip_tags_def)
qed

subsection \<open>Reversing\<close>

lemma strrev_loop_nth:
  "2 * i \<le> length s + 1 \<Longrightarrow> length (strrev_loop i s) = length s \<and>
     (\<forall>k < length s. strrev_loop i s ! k = (if i \<le> k \<and> k < length s - i then s ! (length s - 1 - k) else s ! k))"
proof (induction i s rule: strrev_loop.induct)
  case (1 i s)
  show ?case
  proof (cases "2 * i + 1 < length s")
    case True
    define n where "n = length s"
    define s' where "s' = (s[i := s ! (n - 1 - i)])[n - 1 - i := s ! i]"
    have i: "2 * i + 1 < n" using True by (simp add: n_def)
    have s': "length s' = n" "m < n \<Longrightarrow> s' ! m = (if m = n - 1 - i then s ! i else if m = i then s ! (n - 1 - i) else s ! m)"
      for m by (simp_all add: s'_def n_def nth_list_update)
    have IH: "length (strrev_loop (i + 1) s') = n" and
        nth: "k < n \<Longrightarrow> strrev_loop (i + 1) s' ! k =
          (if i + 1 \<le> k \<and> k < n - (i + 1) then s' ! (n - 1 - k) else s' ! k)" for k
      using 1(1)[OF True] i s'(1) unfolding s'_def n_def by auto
    have eq: "strrev_loop i s = strrev_loop (i + 1) s'" using True by (subst strrev_loop.simps) (simp add: s'_def n_def)
    have "strrev_loop i s ! k = (if i \<le> k \<and> k < n - i then s ! (n - 1 - k) else s ! k)" if k: "k < n" for k
    proof -
      consider "k = i" | "k = n - 1 - i" | "i + 1 \<le> k \<and> k < n - (i + 1)" | "k < i \<or> k \<ge> n - i" by linarith
      then show ?thesis
      proof cases
        case 1
        then have "\<not> (i + 1 \<le> k \<and> k < n - (i + 1))" "k \<noteq> n - 1 - i" "i \<le> k \<and> k < n - i" using i by linarith+
        then show ?thesis using nth[OF k] s'(2)[OF k] unfolding eq 1 by (simp only: if_True if_False simp_thms)
      next
        case 2
        then have "\<not> (i + 1 \<le> k \<and> k < n - (i + 1))" "i \<le> k \<and> k < n - i" "n - 1 - k = i" using i by linarith+
        then show ?thesis using nth[OF k] s'(2)[OF k] 2 unfolding eq by (simp only: if_True if_False simp_thms)
      next
        case 3
        then have "n - 1 - k \<noteq> n - 1 - i" "n - 1 - k \<noteq> i" "n - 1 - k < n" "i \<le> k \<and> k < n - i" by linarith+
        then show ?thesis using nth[OF k] s'(2)[of "n - 1 - k"] 3 unfolding eq by (simp only: if_True if_False simp_thms)
      next
        case 4
        then have "\<not> (i + 1 \<le> k \<and> k < n - (i + 1))" "k \<noteq> n - 1 - i" "k \<noteq> i" "\<not> (i \<le> k \<and> k < n - i)"
          using i k by linarith+
        then show ?thesis using nth[OF k] s'(2)[OF k] unfolding eq by (simp only: if_False)
      qed
    qed
    then show ?thesis using IH by (simp add: n_def eq)
  next
    case False
    then have "strrev_loop i s = s" by (subst strrev_loop.simps) simp
    moreover have "k = length s - 1 - k" if "i \<le> k" "k < length s - i" for k using that False 1(2) by linarith
    ultimately show ?thesis by auto
  qed
qed

lemma strrev_loop_rev: "strrev_loop 0 s = rev s"
  using strrev_loop_nth[of 0 s] by (auto intro!: nth_equalityI simp: rev_nth)

subsection \<open>Chunks\<close>

fun chunks :: "nat \<Rightarrow> string \<Rightarrow> string list" where
  "chunks n [] = []"
| "chunks n (c # cs) = take (Suc n) (c # cs) # chunks n (drop n cs)"

lemma chunk_loop_chunks:
  assumes "0 < k" "p \<le> length s"
  shows "\<exists>r e. chunk_loop s ending (int k) p = Some (r, e) \<and> e \<le> length s \<and> length s - e < k \<and>
           (length s - p) mod k = length s - e \<and>
           r @ (if e < length s then drop e s @ ending else []) = concat (map (\<lambda>c. c @ ending) (chunks (k - 1) (drop p s)))"
  using assms(2)
proof (induction "length s - p" arbitrary: p rule: less_induct)
  case less
  show ?case
  proof (cases "p + k \<le> length s")
    case True
    have "length s - (p + k) < length s - p" using True assms(1) by simp
    from less.hyps[OF this] True obtain r e where
      IH: "chunk_loop s ending (int k) (p + k) = Some (r, e)" "e \<le> length s" "length s - e < k"
        "(length s - (p + k)) mod k = length s - e"
        "r @ (if e < length s then drop e s @ ending else []) = concat (map (\<lambda>c. c @ ending) (chunks (k - 1) (drop (p + k) s)))"
      by auto
    obtain c cs where c: "drop p s = c # cs" using True assms(1) by (metis Cons_nth_drop_Suc add_lessD1 le_neq_implies_less less_add_same_cancel1)
    have "chunks (k - 1) (drop p s) = take k (drop p s) # chunks (k - 1) (drop (p + k) s)"
      unfolding c using assms(1) c by (cases k) (simp_all, metis add.commute drop_Suc_Cons drop_drop add_Suc_right)
    moreover have "(length s - p) mod k = length s - e"
      using IH(4) True assms(1) by (metis diff_diff_left le_add_diff_inverse2 mod_add_self2 Nat.le_diff_conv2 add_leD1 add.commute)
    ultimately show ?thesis
      using IH True assms(1) by (subst chunk_loop.simps) auto
  next
    case False
    then have loop: "chunk_loop s ending (int k) p = Some ([], p)" by (subst chunk_loop.simps) auto
    have "chunks (k - 1) (drop p s) = (if p < length s then [drop p s] else [])"
    proof (cases "drop p s")
      case Nil
      then show ?thesis by simp
    next
      case (Cons c cs)
      have "length (c # cs) < k" using False less.prems arg_cong[OF Cons, of length] by simp
      then have "take (Suc (k - 1)) (c # cs) = c # cs" "drop (k - 1) cs = []" using assms(1) by auto
      moreover have "p < length s" using Cons by (metis drop_all leI list.distinct(1))
      ultimately show ?thesis using Cons by (simp only: chunks.simps) simp
    qed
    then show ?thesis using loop False less.prems by auto
  qed
qed

lemma length_chunks: "0 < k \<Longrightarrow> length (chunks (k - 1) s) \<le> length s div k + 1"
proof (induction s rule: length_induct)
  case (1 s)
  show ?case
  proof (cases s)
    case (Cons c cs)
    then have "length (drop (k - 1) cs) < length s" by simp
    then have IH: "length (chunks (k - 1) (drop (k - 1) cs)) \<le> length (drop (k - 1) cs) div k + 1" using 1 by blast
    show ?thesis
    proof (cases "length s \<le> k")
      case True
      then have "drop (k - 1) cs = []" using Cons by simp
      then show ?thesis using Cons by simp
    next
      case False
      then have "length (drop (k - 1) cs) = length s - k" using Cons 1(2) by simp
      moreover have "length s div k = (length s - k) div k + 1" using False 1(2) by (simp add: le_div_geq)
      ultimately show ?thesis using IH Cons by simp
    qed
  qed simp
qed

subsection \<open>Similarity\<close>

lemma match_len_max: "take l p = take l q \<Longrightarrow> l \<le> length p \<Longrightarrow> l \<le> length q \<Longrightarrow> l \<le> match_len p q"
proof (induction p q arbitrary: l rule: match_len.induct)
  case (1 a as b bs)
  then show ?case by (cases l) auto
qed auto

lemma similar_inner_max:
  "fst sofar \<le> fst (similar_inner p i q j sofar) \<and>
   (\<forall>k < length q. match_len p (drop k q) \<le> fst (similar_inner p i q j sofar))"
proof (induction p i q j sofar rule: similar_inner.induct)
  case (2 p i b q j sofar)
  define l where "l = match_len p (b # q)"
  define nx where "nx = (if l > fst sofar then (l, i, j) else sofar)"
  have ge: "fst sofar \<le> fst nx" "l \<le> fst nx" by (auto simp: nx_def)
  have eq: "similar_inner p i (b # q) j sofar = similar_inner p i q (j + 1) nx" by (simp add: nx_def l_def Let_def)
  have IH: "fst nx \<le> fst (similar_inner p i q (j + 1) nx)"
      "\<forall>k < length q. match_len p (drop k q) \<le> fst (similar_inner p i q (j + 1) nx)"
    using "2.IH"[OF l_def] unfolding nx_def by auto
  show ?case
    unfolding eq using IH ge by (auto simp: less_Suc_eq_0_disj l_def)
qed simp

lemma similar_outer_max:
  "fst sofar \<le> fst (similar_outer p i t sofar) \<and>
   (\<forall>k < length p. \<forall>m < length t. match_len (drop k p) (drop m t) \<le> fst (similar_outer p i t sofar))"
proof (induction p i t sofar rule: similar_outer.induct)
  case (2 a p i t sofar)
  define nx where "nx = similar_inner (a # p) i t 0 sofar"
  have n: "fst sofar \<le> fst nx" "\<forall>m < length t. match_len (a # p) (drop m t) \<le> fst nx"
    using similar_inner_max[of sofar "a # p" i t 0] by (auto simp: nx_def)
  have IH: "fst nx \<le> fst (similar_outer p (i + 1) t nx)"
      "\<forall>k < length p. \<forall>m < length t. match_len (drop k p) (drop m t) \<le> fst (similar_outer p (i + 1) t nx)"
    using 2 by (auto simp: nx_def)
  have eq: "similar_outer (a # p) i t sofar = similar_outer p (i + 1) t nx" by (simp add: nx_def)
  show ?case
    unfolding eq
  proof (intro conjI allI impI)
    show "fst sofar \<le> fst (similar_outer p (i + 1) t nx)" using n(1) IH(1) by simp
    fix k m assume k: "k < length (a # p)" and m: "m < length t"
    show "match_len (drop k (a # p)) (drop m t) \<le> fst (similar_outer p (i + 1) t nx)"
    proof (cases k)
      case 0
      then show ?thesis using n(2) IH(1) m by (auto intro: order_trans)
    next
      case (Suc k')
      then show ?thesis using IH(2) k m by simp
    qed
  qed
qed simp

lemma similar_str_max:
  assumes "common_part s t (l, i, j)"
  shows "l \<le> fst (similar_str s t)"
proof (cases "l = 0")
  case False
  then have "i < length s" "j < length t" and c: "l \<le> length (drop i s)" "l \<le> length (drop j t)" "take l (drop i s) = take l (drop j t)"
    using assms by (auto simp: common_part_def)
  then have "match_len (drop i s) (drop j t) \<le> fst (similar_str s t)"
    using similar_outer_max[of "(0, 0, 0)" s 0 t] by (simp add: similar_str_def)
  then show ?thesis using match_len_max[OF c(3,1,2)] by simp
qed simp

text \<open>The result is the length of a common subsequence.\<close>

lemma similar_subseq: "\<exists>u. length u = similar_char s t \<and> subseq u s \<and> subseq u t"
proof (induction s t rule: similar_char.induct)
  case (1 s t)
  obtain l i j where r: "similar_str s t = (l, i, j)" by (metis prod_cases3)
  have c: "i + l \<le> length s" "j + l \<le> length t" "take l (drop i s) = take l (drop j t)"
    using similar_str_common[of s t] by (auto simp: r common_part_def)
  show ?case
  proof (cases "l = 0")
    case True
    then show ?thesis by (intro exI[of _ "[]"]) (simp add: similar_char.simps[of s t] r)
  next
    case False
    define sl where "sl = (if i \<noteq> 0 \<and> j \<noteq> 0 then similar_char (take i s) (take j t) else 0)"
    define sr where "sr = (if i + l < length s \<and> j + l < length t then similar_char (drop (i + l) s) (drop (j + l) t) else 0)"
    have eq: "similar_char s t = l + sl + sr"
      using False by (simp add: similar_char.simps[of s t] r sl_def sr_def)
    obtain u where u: "length u = sl" "subseq u (take i s)" "subseq u (take j t)"
    proof (cases "i \<noteq> 0 \<and> j \<noteq> 0")
      case True
      then show ?thesis using 1(1)[OF r[symmetric] refl False True] that by (auto simp: sl_def)
    next
      case False
      then show ?thesis using that[of "[]"] by (auto simp: sl_def)
    qed
    obtain v where v: "length v = sr" "subseq v (drop (i + l) s)" "subseq v (drop (j + l) t)"
    proof (cases "i + l < length s \<and> j + l < length t")
      case True
      then show ?thesis using 1(2)[OF r[symmetric] refl False True] that by (auto simp: sr_def)
    next
      case False
      then show ?thesis using that[of "[]"] by (auto simp: sr_def)
    qed
    define w where "w = u @ take l (drop i s) @ v"
    have "s = take i s @ take l (drop i s) @ drop (i + l) s"
      by (metis append_take_drop_id drop_drop add.commute)
    then have "subseq w s" unfolding w_def using u(2) v(2) by (metis list_emb_append_mono subseq_order.order_refl)
    moreover have "t = take j t @ take l (drop j t) @ drop (j + l) t"
      by (metis append_take_drop_id drop_drop add.commute)
    then have "subseq w t" unfolding w_def c(3) using u(3) v(3) by (metis list_emb_append_mono subseq_order.order_refl)
    moreover have "length w = similar_char s t" unfolding w_def eq using u(1) v(1) c(1) by simp
    ultimately show ?thesis by blast
  qed
qed

lemma similar_bound: "similar_char s t \<le> length s" "similar_char s t \<le> length t"
  using similar_subseq[of s t] by (auto dest: list_emb_length)

lemma similar_self: "similar_char s s = length s"
proof (cases "s = []")
  case False
  have "common_part s s (length s, 0, 0)" by (simp add: common_part_def)
  then have "length s \<le> fst (similar_str s s)" by (rule similar_str_max)
  moreover have "similar_char s s \<ge> fst (similar_str s s)" by (simp add: similar_char.simps[of s s] split: prod.split)
  ultimately show ?thesis using similar_bound(1)[of s s] by linarith
qed (simp add: similar_char.simps similar_str_def)

lemma similar_zero: "similar_char s t = 0 \<longleftrightarrow> set s \<inter> set t = {}"
proof
  assume z: "similar_char s t = 0"
  have "fst (similar_str s t) = 0" using z by (auto simp: similar_char.simps[of s t] split: prod.splits if_splits)
  show "set s \<inter> set t = {}"
  proof (rule ccontr)
    assume "set s \<inter> set t \<noteq> {}"
    then obtain i j where "i < length s" "j < length t" "s ! i = t ! j" by (metis disjoint_iff in_set_conv_nth)
    then have "common_part s t (1, i, j)" by (simp add: common_part_def take_Suc_conv_app_nth hd_drop_conv_nth take_Suc)
    then show False using similar_str_max[of s t 1 i j] \<open>fst (similar_str s t) = 0\<close> by simp
  qed
next
  assume d: "set s \<inter> set t = {}"
  obtain u where u: "length u = similar_char s t" "subseq u s" "subseq u t" using similar_subseq by blast
  then have "set u \<subseteq> set s" "set u \<subseteq> set t" by (auto elim: list_emb_set)
  then have "set u \<subseteq> set s \<inter> set t" by simp
  then have "set u = {}" using d by simp
  then show "similar_char s t = 0" using u(1) by simp
qed

subsection \<open>Paths\<close>

text \<open>The copy without the slashes at its end; it is undefined when the string has nothing else.\<close>

lemma strip_slashes_from_Some:
  assumes "k \<le> c" "r ! k \<noteq> CHR ''/''" "\<And>j. k < j \<Longrightarrow> j \<le> c \<Longrightarrow> r ! j = CHR ''/''"
  shows "strip_slashes_from r c = Some k"
  using assms
proof (induction c)
  case (Suc c)
  show ?case
  proof (cases "k = Suc c")
    case False
    then have "r ! Suc c = CHR ''/''" using Suc.prems by simp
    then show ?thesis using Suc False by simp
  qed (use Suc in simp)
qed simp

lemma strip_slashes_from_None:
  "(\<And>j. j \<le> c \<Longrightarrow> r ! j = CHR ''/'') \<Longrightarrow> strip_slashes_from r c = None"
  by (induction c) auto

lemma without_trailing_slashes_exact:
  assumes "NUL \<notin> set p" "p \<noteq> []" "last p \<noteq> CHR ''/''"
  shows "without_trailing_slashes (p @ replicate n (CHR ''/'')) = Some p"
proof -
  let ?s = "p @ replicate n (CHR ''/'')"
  let ?r = "?s @ [NUL]"
  let ?k = "length p - 1"
  have c: "c_str ?s = ?s" using assms(1) by simp
  have "strip_slashes_from ?r (length ?s - 1) = Some ?k"
    by (rule strip_slashes_from_Some) (use assms in \<open>auto simp: nth_append last_conv_nth\<close>)
  moreover have "c_str (?r[?k + 1 := NUL]) = p"
  proof -
    have "?r[length p := NUL] = p @ NUL # drop 1 (replicate n (CHR ''/'') @ [NUL])"
      by (cases n) (auto simp: list_update_append)
    then show ?thesis using assms by simp
  qed
  ultimately show ?thesis using assms by (simp add: without_trailing_slashes_def c Let_def)
qed

lemma without_trailing_slashes_bad:
  "without_trailing_slashes (replicate n (CHR ''/'')) = None"
proof (cases n)
  case (Suc m)
  have c: "c_str (replicate n (CHR ''/'')) = replicate n (CHR ''/'')" by simp
  have "strip_slashes_from (replicate n (CHR ''/'') @ [NUL]) (n - 1) = None"
    using Suc by (intro strip_slashes_from_None) (simp add: nth_append del: replicate.simps)
  then show ?thesis by (simp add: without_trailing_slashes_def c Let_def)
qed (simp add: without_trailing_slashes_def)

lemma strrchr_last: "c \<noteq> NUL \<Longrightarrow> c \<notin> set b \<Longrightarrow> strrchr (d @ c # b) c = Some (length d)"
proof -
  assume c: "c \<noteq> NUL" "c \<notin> set b"
  have "takeWhile (\<lambda>x. x \<noteq> c) (rev (d @ c # b)) = rev b" using c(2) by (auto simp: takeWhile_tail)
  then show ?thesis using c by (simp add: strrchr_def)
qed

lemma strrchr_absent: "c \<noteq> NUL \<Longrightarrow> c \<notin> set b \<Longrightarrow> strrchr b c = None"
  by (simp add: strrchr_def)

subsection \<open>Parts of a string\<close>

lemma cint_id: "LONG_MIN \<le> n \<Longrightarrow> n \<le> LONG_MAX \<Longrightarrow> cint n = n"
  by (simp add: cint_def sint_of_int_range)

lemma cint_above: "LONG_MAX < n \<Longrightarrow> n \<le> 2 * LONG_MAX + 1 \<Longrightarrow> cint n < 0"
  by (simp add: cint_def sint_of_int_high long_bounds)

text \<open>The start and the length that \<^verbatim>\<open>substr\<close> means, for a string of \<open>n\<close> bytes.\<close>

definition substr_start :: "int \<Rightarrow> int \<Rightarrow> int" where
  "substr_start n from = (if from < 0 then max 0 (n + from) else from)"

definition substr_len :: "int \<Rightarrow> int \<Rightarrow> int \<Rightarrow> int" where
  "substr_len n f l = (if l < 0 then max 0 (n - f + l) else min l (n - f))"

lemma substr_in_range:
  assumes "LONG_MIN \<le> from" "from \<le> LONG_MAX" "LONG_MIN \<le> l" "l \<le> LONG_MAX" "int (length s) < LONG_MAX"
    and "0 \<le> l \<longrightarrow> substr_start (int (length s)) from + l \<le> LONG_MAX"
  shows "substr s from (Some l) =
     (let n = int (length s); f = substr_start n from
      in if f \<ge> n then Some var_reset
         else Some (IS_STRING (take (nat (substr_len n f l)) (drop (nat f) s))))"
proof (cases "substr_start (int (length s)) from \<ge> int (length s)")
  case True
  then show ?thesis by (simp add: substr_def substr_start_def Let_def)
next
  case False
  define n f where "n = int (length s)" and "f = substr_start n from"
  have f: "0 \<le> f" "f < n" using False by (auto simp: f_def n_def substr_start_def)
  have f': "(if from < 0 then max 0 (n + from) else from) = f" by (simp add: f_def substr_start_def)
  define l1 where "l1 = (if l < 0 then max 0 (n - f + l) else l)"
  have l1: "(if l < 0 then max 0 (cint (n - f + l)) else l) = l1"
    using f assms by (auto simp: l1_def n_def cint_id long_bounds)
  have "0 \<le> l \<Longrightarrow> f + l \<le> LONG_MAX" "n < LONG_MAX" using assms(5,6) by (simp_all add: f_def n_def)
  then have "0 \<le> f + l1" "f + l1 \<le> LONG_MAX" using f by (auto simp: l1_def)
  then have sum: "cint (f + l1) = f + l1" by (intro cint_id) (simp_all add: long_bounds)
  have "(if f + l1 > n then n - f else l1) = substr_len n f l" using f by (auto simp: l1_def substr_len_def)
  moreover have "0 \<le> substr_len n f l" "f + substr_len n f l \<le> n" using f by (auto simp: substr_len_def)
  moreover have "take (nat m) (drop (nat f) (s @ [NUL])) = take (nat m) (drop (nat f) s)"
    if "0 \<le> m" "f + m \<le> n" for m
    using that f by (auto simp: n_def)
  ultimately show ?thesis
    using f unfolding substr_def Let_def option.case n_def[symmetric] f_def[symmetric] f' l1 sum by simp
qed

text \<open>When the sum is above \<^verbatim>\<open>LONG_MAX\<close> it wraps around and the length is not cut: the copy reads behind the string.\<close>

lemma substr_overflow:
  assumes "0 \<le> from" "from < int (length s)" "l \<le> LONG_MAX" "from + l > LONG_MAX" "int (length s) < LONG_MAX"
  shows "substr s from (Some l) = None"
proof -
  have "cint (from + l) < 0" using assms by (intro cint_above) (auto simp: long_bounds)
  then show ?thesis using assms by (simp add: substr_def Let_def)
qed

end
