(* ===== verification/String_Properties.thy ===== *)
theory String_Properties
  imports Text_Facts
begin

text \<open>The properties of the string functions, each with an instance.\<close>

lemma sval_string [simp]: "sval precision (IS_STRING s) = s"
  by simp

text \<open>\<^verbatim>\<open>chop\<close> removes the blanks at the end and \<^verbatim>\<open>trim\<close> those at both ends, no more; but \<^verbatim>\<open>ltrim\<close>, which should only
  remove those at the start, is \<^verbatim>\<open>trim\<close>, and so also removes those at the end.\<close>
theorem trim_exact:
  "php3_chop precision (IS_STRING s) = IS_STRING (rev (dropWhile trim_char (rev s))) \<and>
   php3_trim precision (IS_STRING s) = IS_STRING (rev (dropWhile trim_char (rev (dropWhile trim_char s)))) \<and>
   php3_ltrim precision (IS_STRING s) = php3_trim precision (IS_STRING s) \<and>
   php3_ltrim precision (IS_STRING '' a '') = IS_STRING ''a''"
proof -
  have "php3_ltrim precision (IS_STRING '' a '') = IS_STRING ''a''"
    by (simp add: php3_ltrim_def trim_string_exact trim_char_def byte_of_def)
  then show ?thesis
    by (simp add: php3_chop_def php3_trim_def php3_ltrim_def Let_def chop_exact trim_string_exact)
qed

subsection \<open>Splitting and joining\<close>

lemma ents_of_pieces:
  assumes "d \<noteq> []" "NUL \<notin> set s" "length s < 2 ^ 32 - 1"
  shows "ents (add_pieces arr_empty 0 (split_at d s)) = string_array (split_at d s)"
proof -
  have "length (split_at d s) \<le> 2 ^ 32" using length_split_at[OF assms(1), of s] assms(3) by simp
  moreover have "\<forall>p \<in> set (split_at d s). NUL \<notin> set p" using set_split_at assms(2) by blast
  ultimately show ?thesis
    using add_pieces_ents[of 0 "split_at d s" arr_empty] by (simp add: arr_empty_def string_array_def)
qed

lemma string_array_strings: "map (\<lambda>e. str (snd e)) (string_array ps) = ps"
  by (simp add: string_array_def comp_def case_prod_unfold)

lemma convert_string_array: "map (apsnd (convert_to_string precision)) (string_array ps) = string_array ps"
  by (auto simp: string_array_def)

text \<open>C23: \<^verbatim>\<open>explode\<close> gives the pieces between the occurrences of the delimiter, taken from left to right, under the keys 0,
  1, 2 and so on, and \<^verbatim>\<open>implode\<close> with the same delimiter gives back the string, for strings without NUL. The other way
  round, joined pieces are found again when the delimiter cannot begin inside of one.\<close>
theorem explode_implode:
  assumes "d \<noteq> []" "NUL \<notin> set d" "NUL \<notin> set s" "length s < 2 ^ 32 - 1"
  shows "\<exists>a. php3_explode precision (IS_STRING d) (IS_STRING s) = Some (IS_ARRAY a) \<and>
     ents a = string_array (split_at d s) \<and>
     php3_implode precision (IS_STRING d) (IS_ARRAY a) = Some (Some (IS_STRING s, a)) \<and>
     (\<forall>ps. ps \<noteq> [] \<and> (\<forall>p \<in> set ps. hd d \<notin> set p) \<and> s = join d ps \<longrightarrow> split_at d s = ps)"
proof -
  define a where "a = add_pieces arr_empty 0 (split_at d s)"
  have e: "ents a = string_array (split_at d s)" unfolding a_def by (rule ents_of_pieces[OF assms(1,3,4)])
  have "php3_explode precision (IS_STRING d) (IS_STRING s) = Some (IS_ARRAY a)"
    using explode_pieces[OF assms(1-3), of arr_empty] assms(1,2) by (simp add: php3_explode_def a_def)
  moreover have "\<forall>p \<in> set (split_at d s). NUL \<notin> set p" using set_split_at assms(3) by blast
  then have "implode d (split_at d s) = Some s" using implode_join assms(2) by (simp add: join_split_at)
  then have "php3_implode precision (IS_STRING d) (IS_ARRAY a) = Some (Some (IS_STRING s, a))"
    by (simp add: php3_implode_def Let_def e convert_string_array string_array_strings parray.expand del: map_map)
  moreover have "\<forall>ps. ps \<noteq> [] \<and> (\<forall>p \<in> set ps. hd d \<notin> set p) \<and> s = join d ps \<longrightarrow> split_at d s = ps"
    using split_at_join[OF assms(1)] by blast
  ultimately show ?thesis using e by blast
qed

lemma explode_implode_witness:
  "\<exists>a. php3_explode 14 (IS_STRING '', '') (IS_STRING ''a, b'') = Some (IS_ARRAY a) \<and>
     ents a = string_array (split_at '', '' ''a, b'') \<and>
     php3_implode 14 (IS_STRING '', '') (IS_ARRAY a) = Some (Some (IS_STRING ''a, b'', a)) \<and>
     split_at '', '' ''a, b'' = [''a'', ''b'']"
proof -
  have "[''a'', ''b''] \<noteq> [] \<and> (\<forall>p \<in> set [''a'', ''b'']. hd '', '' \<notin> set p) \<and> ''a, b'' = join '', '' [''a'', ''b'']"
    by simp
  moreover have "'', '' \<noteq> ''''" "NUL \<notin> set '', ''" "NUL \<notin> set ''a, b''" "length ''a, b'' < 2 ^ 32 - 1" by simp_all
  ultimately show ?thesis using explode_implode[of "'', ''" "''a, b''" 14] by blast
qed

text \<open>A delimiter with a NUL is searched up to the NUL, but \<^verbatim>\<open>explode\<close> goes on behind its whole length.\<close>

lemma explode_reads_outside:
  assumes "NUL \<notin> set s" "c_str d \<noteq> []" "strstr s (c_str d) = Some k" "length s < k + length d"
  shows "php3_explode precision (IS_STRING d) (IS_STRING s) = None"
proof -
  have "explode_loop d (s @ [NUL]) 0 k 0 arr_empty = None"
    using assms(4) by (subst explode_loop.simps) (simp add: Let_def strstr_at_def)
  then show ?thesis using assms by (simp add: php3_explode_def explode_def strstr_at_def)
qed

text \<open>C24: A call of \<^verbatim>\<open>strtok\<close> with a string and the calls with delimiters only that follow it give the pieces between
  delimiters of the string up to its first NUL, one after the other, empty ones included but none behind a delimiter at the end,
  then false. No piece has a delimiter in it. What is behind a NUL in the string or in the delimiters is not used.\<close>
theorem strtok_exact:
  "(case php3_strtok precision st (Some (IS_STRING s)) (IS_STRING tok) of (v, st') \<Rightarrow> v # strtok_run n st' tok) =
     take (n + 1) (map IS_STRING (tok_pieces (c_str tok) (c_str s)) @ replicate (n + 1) var_reset) \<and>
   (\<forall>p \<in> set (tok_pieces (c_str tok) (c_str s)). set p \<inter> set (c_str tok) = {})"
proof -
  let ?st = "\<lparr>strtok_string = s, strtok_pos1 = Some 0\<rparr>"
  have "(case php3_strtok precision st (Some (IS_STRING s)) (IS_STRING tok) of (v, st') \<Rightarrow> v # strtok_run n st' tok) =
      strtok_run (Suc n) ?st tok"
    by (simp add: php3_strtok_def strtok_new)
  then show ?thesis using strtok_run_pieces[of ?st 0 "c_str s" "Suc n" tok] tok_pieces_clean by (auto simp del: strtok_run.simps)
qed

lemma strtok_exact_witness:
  "(case php3_strtok 14 \<lparr>strtok_string = [], strtok_pos1 = None\<rparr> (Some (IS_STRING ''a b'')) (IS_STRING '' '') of (v, st') \<Rightarrow> v # strtok_run 2 st' '' '') =
     take 3 (map IS_STRING (tok_pieces '' '' ''a b'') @ replicate 3 var_reset) \<and> tok_pieces '' '' ''a b'' = [''a'', ''b'']"
  using strtok_exact[where s = "''a b''" and precision = 14 and st = "\<lparr>strtok_string = [], strtok_pos1 = None\<rparr>"
      and tok = "'' ''" and n = 2]
  by (simp add: tok_pieces.simps c_str_def)

subsection \<open>Escaping and replacing\<close>

text \<open>C25: \<^verbatim>\<open>addslashes\<close> stays inside of its buffer and \<^verbatim>\<open>stripslashes\<close> gives back the string, for strings of less than \<open>2 ^ 30\<close>
  bytes, so that the length of the result is an \<^verbatim>\<open>int\<close>. Without \<^verbatim>\<open>magic_quotes_sybase\<close> NUL bytes come back too, and the result can stand between single
  or double quotes: it has no NUL and no quote that is not behind a backslash. With it, for strings without NUL, exactly
  the single quotes are doubled: double quotes and backslashes stay, and no backslash is written.\<close>
theorem slashes_round_trip:
  assumes "sybase \<longrightarrow> NUL \<notin> set s" "length s < 2 ^ 30"
  shows "\<exists>r. php3_addslashes precision sybase (IS_STRING s) = Some (IS_STRING r) \<and>
     php3_stripslashes precision sybase (IS_STRING r) = IS_STRING s \<and>
     length r \<le> 2 * length s \<and>
     (if sybase then r = concat (map (\<lambda>c. if c = CHR 0x27 then [c, c] else [c]) s) \<and> doubled_ok (CHR 0x27) r
      else quoted_ok (CHR 0x27) r \<and> quoted_ok (CHR 0x22) r)"
proof (intro exI[of _ "addslashes_bytes sybase s"] conjI)
  show "php3_addslashes precision sybase (IS_STRING s) = Some (IS_STRING (addslashes_bytes sybase s))"
    by (simp add: php3_addslashes_def addslashes_defined)
  show "php3_stripslashes precision sybase (IS_STRING (addslashes_bytes sybase s)) = IS_STRING s"
    using strip_add[OF assms(1)] addslashes_no_NUL[of sybase s] by (simp add: php3_stripslashes_def)
  show "length (addslashes_bytes sybase s) \<le> 2 * length s" by (rule length_addslashes)
  show "if sybase then addslashes_bytes sybase s = concat (map (\<lambda>c. if c = CHR 0x27 then [c, c] else [c]) s) \<and>
      doubled_ok (CHR 0x27) (addslashes_bytes sybase s)
    else quoted_ok (CHR 0x27) (addslashes_bytes sybase s) \<and> quoted_ok (CHR 0x22) (addslashes_bytes sybase s)"
    using assms(1) addslashes_sybase[of s] addslashes_doubled[of s] addslashes_quoted[of _ s] by (cases sybase) simp_all
qed

lemma slashes_round_trip_witness:
  "(\<exists>r. php3_addslashes 14 False (IS_STRING [CHR 0x27, NUL, CHR 0x5C]) = Some (IS_STRING r) \<and>
     php3_stripslashes 14 False (IS_STRING r) = IS_STRING [CHR 0x27, NUL, CHR 0x5C] \<and>
     quoted_ok (CHR 0x27) r \<and> quoted_ok (CHR 0x22) r) \<and>
   php3_addslashes 14 True (IS_STRING [CHR 0x27, CHR 0x22, CHR 0x5C]) =
     Some (IS_STRING [CHR 0x27, CHR 0x27, CHR 0x22, CHR 0x5C])"
  using slashes_round_trip[of False "[CHR 0x27, NUL, CHR 0x5C]" 14] slashes_round_trip[of True "[CHR 0x27, CHR 0x22, CHR 0x5C]" 14]
  by auto



subsection \<open>Parts, tags, similarity\<close>

text \<open>C27: \<^verbatim>\<open>substr\<close> gives the bytes from the start (from the end when it is negative) and as many as the length says (up to that
  many before the end when it is negative), cut at the end. When a negative length leaves less than nothing the result is
  the empty string, and when the start is at the end or behind it the result is false, where the manual promises the single
  character at the start. When start and length add up to more than \<^verbatim>\<open>LONG_MAX\<close> the sum wraps around, nothing is cut,
  and it reads behind the string. (The string is shorter than \<^verbatim>\<open>LONG_MAX\<close>.)\<close>
theorem substr_exact:
  assumes "int (length s) < LONG_MAX"
  shows "php3_substr precision (IS_STRING s) (IS_LONG from) (Some (IS_LONG l)) =
     (let n = int (length s); f = substr_start n (sint from)
      in if f \<ge> n then Some var_reset
         else if sint l \<ge> 0 \<and> f + sint l > LONG_MAX then None
         else Some (IS_STRING (take (nat (substr_len n f (sint l))) (drop (nat f) s))))"
proof -
  let ?n = "int (length s)" and ?f = "substr_start (int (length s)) (sint from)"
  have eq: "php3_substr precision (IS_STRING s) (IS_LONG from) (Some (IS_LONG l)) = substr s (sint from) (Some (sint l))"
    by (simp add: php3_substr_def convert_to_long_def)
  show ?thesis
  proof (cases "sint l \<ge> 0 \<and> ?f + sint l > LONG_MAX")
    case False
    then show ?thesis
      unfolding eq using substr_in_range[OF sint_range[of "from"] sint_range[of l] assms] by (auto simp: Let_def)
  next
    case True
    have "substr s (sint from) (Some (sint l)) = None" if "?f < ?n"
    proof -
      have "0 \<le> ?f" by (simp add: substr_start_def)
      then have "substr s ?f (Some (sint l)) = None"
        using that True sint_range(2)[of l] assms by (intro substr_overflow) auto
      moreover have "substr s ?f (Some (sint l)) = substr s (sint from) (Some (sint l))"
      proof -
        have "(if ?f < 0 then max 0 (?n + ?f) else ?f) = ?f"
            "(if sint from < 0 then max 0 (?n + sint from) else sint from) = ?f"
          using \<open>0 \<le> ?f\<close> by (simp_all add: substr_start_def)
        then show ?thesis unfolding substr_def by simp
      qed
      ultimately show ?thesis by simp
    qed
    moreover have "substr s (sint from) (Some (sint l)) = Some var_reset" if "?f \<ge> ?n"
      using that by (simp add: substr_def substr_start_def Let_def)
    ultimately show ?thesis unfolding eq using True by (auto simp: Let_def)
  qed
qed

lemma substr_exact_witness:
  "php3_substr 14 (IS_STRING ''abcdef'') (IS_LONG (- 4)) (Some (IS_LONG 2)) = Some (IS_STRING ''cd'') \<and>
   php3_substr 14 (IS_STRING ''abc'') (IS_LONG 1) (Some (IS_LONG 0x7FFFFFFF)) = None"
  using substr_exact[of "''abcdef''" 14 "- 4" 2] substr_exact[of "''abc''" 14 1 "0x7FFFFFFF"]
  by (simp add: LONG_MAX_def substr_start_def substr_len_def)

text \<open>C28: \<^verbatim>\<open>strip_tags\<close> ends on every string, leaves no angle bracket and only bytes of the string in their order, and does nothing
  when it is used twice. A text without angle brackets and NUL is not changed, and of a text with an HTML tag (of any bytes
  but angle brackets and NUL that do not begin with a question mark) exactly the tag is taken away, and what is behind it is
  treated as if it stood alone. Its state is not kept between calls: a tag that
  goes over two lines, as \<^verbatim>\<open>fgetss\<close> reads them, is not removed.\<close>
theorem strip_tags_safe:
  "(\<exists>t. php3_strip_tags precision (IS_STRING s) = Some (IS_STRING t) \<and> CHR ''<'' \<notin> set t \<and> CHR ''>'' \<notin> set t \<and>
      subseq t (c_str s) \<and> php3_strip_tags precision (IS_STRING t) = Some (IS_STRING t)) \<and>
   (set s \<inter> {CHR ''<'', CHR ''>'', NUL} = {} \<longrightarrow> php3_strip_tags precision (IS_STRING s) = Some (IS_STRING s)) \<and>
   (set s \<inter> {CHR ''<'', CHR ''>'', NUL} = {} \<and> set tag \<inter> {CHR ''<'', CHR ''>'', NUL} = {} \<and> (tag = [] \<or> hd tag \<noteq> CHR ''?'') \<longrightarrow>
      strip_tags (s @ ''<'' @ tag @ ''>'' @ rest) 0 = map_option ((@) s) (strip_tags rest 0)) \<and>
   strip_tags ''<a b>c'' 0 = Some ''c'' \<and> strip_tags ''<a '' 0 = Some [] \<and> strip_tags ''b>c'' 0 = Some ''bc''"
proof -
  obtain t where t: "strip_tags s 0 = Some t" "CHR ''<'' \<notin> set t" "CHR ''>'' \<notin> set t" "subseq t (c_str s)"
    using strip_tags_loop_safe[of 0 None "c_str s" NUL 0] by (auto simp: cleaned_def strip_tags_def)
  have "NUL \<notin> set t" using t(4) c_str_no_NUL[of s] by (auto elim!: list_emb_set)
  then have again: "strip_tags t 0 = Some t" using strip_tags_loop_plain[OF t(2,3)] by (simp add: strip_tags_def)
  have plain: "set s \<inter> {CHR ''<'', CHR ''>'', NUL} = {} \<Longrightarrow> strip_tags s 0 = Some s"
    using strip_tags_loop_plain[of s None NUL 0] by (simp add: strip_tags_def)
  have examples: "strip_tags ''<a b>c'' 0 = Some ''c''" "strip_tags ''<a '' 0 = Some []" "strip_tags ''b>c'' 0 = Some ''bc''"
    by (simp_all add: strip_tags_def c_str_def Let_def)
  have tag: "set s \<inter> {CHR ''<'', CHR ''>'', NUL} = {} \<and> set tag \<inter> {CHR ''<'', CHR ''>'', NUL} = {} \<and> (tag = [] \<or> hd tag \<noteq> CHR ''?'') \<Longrightarrow>
      strip_tags (s @ ''<'' @ tag @ ''>'' @ rest) 0 = map_option ((@) s) (strip_tags rest 0)"
    by (rule strip_tags_tag) auto
  show ?thesis
    using t again plain tag examples by (simp only: php3_strip_tags_def sval_string option.map pval.inject simp_thms) blast
qed

lemma strip_tags_safe_witness:
  "php3_strip_tags 14 (IS_STRING ''f(x)'') = Some (IS_STRING ''f(x)'') \<and>
   strip_tags (''f(x)'' @ ''<'' @ ''br'' @ ''>'' @ ''y'') 0 = map_option ((@) ''f(x)'') (strip_tags ''y'' 0)"
  using strip_tags_safe[of 14 "''f(x)''" "''br''" "''y''"] by simp

text \<open>\<^verbatim>\<open>similar_text\<close> ends and counts a common subsequence of its strings, so never more than the shorter one has. Two equal
  strings count their length, and strings count nothing exactly when they have no byte in common. The first common part it
  takes is the longest there is.\<close>
theorem similar_text_common:
  "fst (php3_similar_text precision (IS_STRING s) (IS_STRING t)) = long (int (similar_char s t)) \<and>
   (\<exists>u. length u = similar_char s t \<and> subseq u s \<and> subseq u t) \<and>
   similar_char s s = length s \<and>
   (similar_char s t = 0 \<longleftrightarrow> set s \<inter> set t = {}) \<and>
   common_part s t (similar_str s t) \<and>
   (\<forall>l i j. common_part s t (l, i, j) \<longrightarrow> l \<le> fst (similar_str s t))"
proof -
  have "length s + length t = 0 \<Longrightarrow> similar_char s t = 0" using similar_bound(1)[of s t] by simp
  then have "fst (php3_similar_text precision (IS_STRING s) (IS_STRING t)) = long (int (similar_char s t))"
    by (auto simp: php3_similar_text_def similar_text_def Let_def)
  then show ?thesis
    using similar_subseq[of s t] similar_self[of s] similar_zero[of s t] similar_str_common[of s t] similar_str_max[of s t]
    by blast
qed

lemma similar_text_common_witness: "3 \<le> fst (similar_str ''World'' ''Word'')"
proof -
  have "common_part ''World'' ''Word'' (3, 0, 0)" by (simp add: common_part_def)
  then show ?thesis using similar_text_common[of 14 "''World''" "''Word''"] by blast
qed

subsection \<open>Chunks and paths\<close>

lemma chunk_split_chunks:
  assumes "0 < k"
  shows "chunk_split s ending (int k) = Some (concat (map (\<lambda>c. c @ ending) (chunks (k - 1) s)))"
proof -
  let ?t = "concat (map (\<lambda>c. c @ ending) (chunks (k - 1) s))"
  obtain r e where e: "chunk_loop s ending (int k) 0 = Some (r, e)" "e \<le> length s" "length s mod k = length s - e"
      "r @ (if e < length s then drop e s @ ending else []) = ?t"
    using chunk_loop_chunks[OF assms, of 0 s ending] by auto
  have sdiv: "int (length s) sdiv int k = int (length s div k)" by (simp add: signed_divide_int_def sgn_if zdiv_int)
  have rest: "int (length s) - int (length s div k) * int k = int (length s - e)"
    using e(3) by (metis minus_div_mult_eq_mod of_nat_diff of_nat_mult zmod_int minus_mult_div_eq_mod mult.commute of_nat_mod zdiv_int)
  have t: "r @ (if int (length s - e) \<noteq> 0 then take (nat (int (length s - e))) (drop e s) @ ending else []) = ?t"
    using e(2,4) by (auto split: if_splits)
  have conc: "length (concat (map (\<lambda>c. c @ ending) cs)) = length (concat cs) + length cs * length ending" for cs :: "string list"
    by (induction cs) auto
  have cat: "concat (chunks m u) = u" for m and u :: string
  proof (induction m u rule: chunks.induct)
    case (2 n c cs)
    then show ?case by (metis append_take_drop_id chunks.simps(2) concat.simps(2) drop_Suc_Cons)
  qed simp
  have "length ?t \<le> length s + (length s div k + 1) * length ending"
    using mult_le_mono1[OF length_chunks[OF assms, of s], of "length ending"] by (simp add: conc cat)
  then have "int (length ?t) < int (length s) + (int (length s div k) + 1) * int (length ending) + 1"
    by (metis (mono_tags) add.commute add_strict_increasing2 nat_int_comparison(3) of_nat_1 of_nat_Suc of_nat_add of_nat_mult zle_add1_eq_le Suc_eq_plus1)
  then show ?thesis
    unfolding chunk_split_def Let_def sdiv rest e(1) Option.bind.bind_lunit prod.case t by simp
qed

text \<open>\<^verbatim>\<open>chunk_split\<close> puts the ending behind every chunk of the length and behind the rest, and stays inside of its
  buffer; a length of 0 gives false, but a negative one makes it copy a negative number of bytes.\<close>
theorem chunk_split_exact:
  "php3_chunk_split precision (IS_STRING s) (Some (IS_LONG k)) (Some (IS_STRING ending)) =
     (if k = 0 then Some var_reset
      else if sint k < 0 then None
      else Some (IS_STRING (concat (map (\<lambda>c. c @ ending) (chunks (nat (sint k) - 1) s)))))"
proof -
  have "sint k < 0 \<Longrightarrow> chunk_split s ending (sint k) = None"
    by (simp add: chunk_split_def Let_def chunk_loop.simps)
  moreover have "sint k = 0 \<longleftrightarrow> k = 0" by (simp add: signed_eq_0_iff)
  moreover have "0 < sint k \<Longrightarrow> chunk_split s ending (sint k) = Some (concat (map (\<lambda>c. c @ ending) (chunks (nat (sint k) - 1) s)))"
    using chunk_split_chunks[of "nat (sint k)" s ending] by simp
  ultimately show ?thesis
    by (auto simp: php3_chunk_split_def convert_to_long_def)
qed

text \<open>For a path with a slash that does not only end with slashes, \<^verbatim>\<open>dirname\<close> is the part before the last name and
  \<^verbatim>\<open>basename\<close> the last name, without the slashes at the end. Without another slash \<^verbatim>\<open>basename\<close> keeps those at the end,
  and on an empty string or one of slashes only both read in front of the string.\<close>
theorem dirname_basename:
  assumes "NUL \<notin> set d" "NUL \<notin> set b" "b \<noteq> []" "CHR ''/'' \<notin> set b"
  shows "php3_dirname precision (IS_STRING (d @ ''/'' @ b @ replicate n (CHR ''/''))) = Some (IS_STRING d) \<and>
     php3_basename precision (IS_STRING (d @ ''/'' @ b @ replicate n (CHR ''/''))) = Some (IS_STRING b) \<and>
     php3_basename precision (IS_STRING (b @ replicate n (CHR ''/''))) = Some (IS_STRING (b @ replicate n (CHR ''/''))) \<and>
     php3_dirname precision (IS_STRING (replicate n (CHR ''/''))) = None \<and>
     php3_basename precision (IS_STRING (replicate n (CHR ''/''))) = None"
proof -
  have last: "last b \<noteq> CHR ''/''" using assms(3,4) by (metis last_in_set)
  have 1: "without_trailing_slashes (d @ ''/'' @ b @ replicate n (CHR ''/'')) = Some (d @ ''/'' @ b)"
    using without_trailing_slashes_exact[of "d @ ''/'' @ b" n] assms last by simp
  have 2: "without_trailing_slashes (b @ replicate n (CHR ''/'')) = Some b"
    using without_trailing_slashes_exact[of b n] assms last by simp
  have 3: "strrchr (d @ ''/'' @ b) (CHR ''/'') = Some (length d)" "strrchr b (CHR ''/'') = None"
    using strrchr_last[of "CHR ''/''" b d] strrchr_absent[of "CHR ''/''" b] assms(4) by simp_all
  show ?thesis
    using 1 2 3 without_trailing_slashes_bad[of n] assms(2)
    by (simp add: php3_dirname_def php3_basename_def dirname_def Let_def)
qed

lemma dirname_basename_witness:
  "php3_dirname 14 (IS_STRING (''/usr'' @ ''/'' @ ''lib'' @ replicate 1 (CHR ''/''))) = Some (IS_STRING ''/usr'') \<and>
   php3_basename 14 (IS_STRING (''/usr'' @ ''/'' @ ''lib'' @ replicate 1 (CHR ''/''))) = Some (IS_STRING ''lib'')"
  using dirname_basename[of "''/usr''" "''lib''" 14 1] by simp

subsection \<open>Reversal\<close>

lemma php3_strrev_rev: "php3_strrev precision (IS_STRING s) = IS_STRING (rev s)"
  by (simp add: php3_strrev_def strrev_loop_rev)

end
