(* ===== verification/Var_Store.thy ===== *)
theory Var_Store
  imports Php_Array Php_Values
begin

text \<open>
  The store of the variables: the \<^verbatim>\<open>pval\<close>s in the buckets of hash tables, with their addresses, and the operations
  that copy and free them (\<^verbatim>\<open>pval_copy_constructor\<close>, \<^verbatim>\<open>pval_destructor\<close> of \<^verbatim>\<open>variables.c\<close>). A cell is the
  data of a bucket, a table the \<^verbatim>\<open>HashTable\<close> that an array, an object, a class, the statics of a function or a scope
  has. A bucket holds its data or, with \<^verbatim>\<open>bIsPointer\<close>, the address of a cell that belongs to somebody else: this is how
  \<^verbatim>\<open>global\<close>, \<^verbatim>\<open>static\<close> and parameters by reference share a variable.

  Reading or freeing a cell or table that is free makes a computation \<open>None\<close>. Tables are lists of entries here, in the
  order of insertion; that the buckets of \<^verbatim>\<open>php3_hash.c\<close> are such a list is what the hash table theories prove. The
  blocks of strings are part of the values.
\<close>

type_synonym cell = nat
type_synonym tab = nat

text \<open>
  The pointer of a string: to one of the two constants that the code compares with, or to a block of its own, which
  may be empty too.
\<close>

datatype cstring = Undefined_variable_string | Empty_string | Block string

fun bytes_of :: "cstring \<Rightarrow> string" where
  "bytes_of Undefined_variable_string = []"
| "bytes_of Empty_string = []"
| "bytes_of (Block s) = s"

datatype vval =
    V_LONG ulong
  | V_DOUBLE double
  | V_STRING cstring
  | V_ARRAY tab
  | V_OBJECT tab
  | V_CLASS tab
  | V_USER_FUNCTION int "tab option" "nat list option"
  | V_INTERNAL_FUNCTION int "nat list option"
  | V_NULL

text \<open>An entry: key, cell and whether the bucket only points to the cell.\<close>

type_synonym ventry = "hkey \<times> cell \<times> bool"

record vtable =
  vt_entries :: "ventry list"
  vt_free :: ulong

datatype tracker = Track_index ulong tab | Track_name string tab

record vstate =
  cells :: "cell \<Rightarrow> vval option"
  tabs :: "tab \<Rightarrow> vtable option"
  next_cell :: cell
  next_tab :: tab
  symbol_table :: tab
  active :: "tab option"
  unassigned :: "tracker list"
  array_ptr :: "cell option"
  array_ptr_write :: bool

definition v_reset :: vval where "v_reset = V_STRING Empty_string"
definition var_uninit :: vval where "var_uninit = V_STRING Undefined_variable_string"

subsection \<open>Allocation\<close>

definition new_cell :: "vval \<Rightarrow> vstate \<Rightarrow> cell \<times> vstate" where
  "new_cell v s = (next_cell s, s\<lparr>cells := (cells s)(next_cell s := Some v), next_cell := next_cell s + 1\<rparr>)"

definition new_table :: "vstate \<Rightarrow> tab \<times> vstate" where
  "new_table s = (next_tab s,
     s\<lparr>tabs := (tabs s)(next_tab s := Some \<lparr>vt_entries = [], vt_free = 0\<rparr>), next_tab := next_tab s + 1\<rparr>)"

definition set_cell :: "cell \<Rightarrow> vval \<Rightarrow> vstate \<Rightarrow> vstate option" where
  "set_cell c v s = (if cells s c = None then None else Some (s\<lparr>cells := (cells s)(c := Some v)\<rparr>))"

definition free_cell :: "cell \<Rightarrow> vstate \<Rightarrow> vstate option" where
  "free_cell c s = (if cells s c = None then None else Some (s\<lparr>cells := (cells s)(c := None)\<rparr>))"

definition free_table :: "tab \<Rightarrow> vstate \<Rightarrow> vstate option" where
  "free_table t s = (if tabs s t = None then None else Some (s\<lparr>tabs := (tabs s)(t := None)\<rparr>))"

definition put_table :: "tab \<Rightarrow> vtable \<Rightarrow> vstate \<Rightarrow> vstate" where
  "put_table t b s = s\<lparr>tabs := (tabs s)(t := Some b)\<rparr>"

subsection \<open>\<^verbatim>\<open>pval_destructor\<close>\<close>

text \<open>
  The destructor and \<^verbatim>\<open>_php3_hash_destroy\<close> call each other; the calls that are left to do are a list of jobs. A bucket
  that is a pointer leaves its cell alone. The table of the global variables is never freed through a value.
\<close>

datatype job = J_value vval | J_entry cell | J_cell cell | J_table tab | J_drop tab

fun destructor_jobs :: "tab \<Rightarrow> vval \<Rightarrow> job list" where
  "destructor_jobs glob (V_ARRAY t) = (if t \<noteq> glob then [J_table t] else [])"
| "destructor_jobs glob (V_OBJECT t) = (if t \<noteq> glob then [J_table t] else [])"
| "destructor_jobs glob (V_CLASS t) = (if t \<noteq> glob then [J_table t] else [])"
| "destructor_jobs glob (V_USER_FUNCTION a (Some t) args) = [J_table t]"
| "destructor_jobs glob _ = []"

fun owned_cells :: "ventry list \<Rightarrow> cell list" where
  "owned_cells [] = []"
| "owned_cells ((k, c, ptr) # es) = (if ptr then owned_cells es else c # owned_cells es)"

partial_function (option) run_jobs :: "job list \<Rightarrow> vstate \<Rightarrow> vstate option" where
  "run_jobs js s =
     (case js of
        [] \<Rightarrow> Some s
      | J_value v # r \<Rightarrow> run_jobs (destructor_jobs (symbol_table s) v @ r) s
      | J_entry c # r \<Rightarrow>
          (case cells s c of None \<Rightarrow> None | Some v \<Rightarrow> run_jobs (J_value v # J_cell c # r) s)
      | J_cell c # r \<Rightarrow> Option.bind (free_cell c s) (run_jobs r)
      | J_table t # r \<Rightarrow>
          (case tabs s t of None \<Rightarrow> None | Some b \<Rightarrow> run_jobs (map J_entry (owned_cells (vt_entries b)) @ J_drop t # r) s)
      | J_drop t # r \<Rightarrow> Option.bind (free_table t s) (run_jobs r))"

definition pval_destructor :: "vval \<Rightarrow> vstate \<Rightarrow> vstate option" where
  "pval_destructor v s = run_jobs [J_value v] s"

definition table_destroy :: "tab \<Rightarrow> vstate \<Rightarrow> vstate option" where
  "table_destroy t s = run_jobs [J_table t] s"

subsection \<open>Tables\<close>

definition entry_of :: "vtable \<Rightarrow> hkey \<Rightarrow> (cell \<times> bool) option" where
  "entry_of b k = map_of (vt_entries b) k"

text \<open>\<^verbatim>\<open>_php3_hash_find\<close> and \<^verbatim>\<open>_php3_hash_index_find\<close>: the address of the data.\<close>

definition tab_find :: "tab \<Rightarrow> hkey \<Rightarrow> vstate \<Rightarrow> cell option option" where
  "tab_find t k s = map_option (\<lambda>b. map_option fst (entry_of b k)) (tabs s t)"

definition tab_is_pointer :: "tab \<Rightarrow> hkey \<Rightarrow> vstate \<Rightarrow> bool option" where
  "tab_is_pointer t k s = map_option (\<lambda>b. case entry_of b k of Some (c, ptr) \<Rightarrow> ptr | None \<Rightarrow> False) (tabs s t)"

text \<open>The next free index after a key was stored.\<close>

definition with_key :: "hkey \<Rightarrow> vtable \<Rightarrow> vtable" where
  "with_key k b = b\<lparr>vt_free := bump_next k (vt_free b)\<rparr>"

text \<open>
  \<^verbatim>\<open>_php3_hash_update\<close> and \<^verbatim>\<open>_php3_hash_index_update\<close>: an old value is destroyed and overwritten in its cell, also when the
  entry is a pointer; the result is the cell.
\<close>

definition tab_update :: "tab \<Rightarrow> hkey \<Rightarrow> vval \<Rightarrow> vstate \<Rightarrow> (cell \<times> vstate) option" where
  "tab_update t k v s = do {
     b \<leftarrow> tabs s t;
     (case entry_of b k of
        Some (c, ptr) \<Rightarrow> do {
          old \<leftarrow> cells s c;
          s1 \<leftarrow> pval_destructor old s;
          s2 \<leftarrow> set_cell c v s1;
          b2 \<leftarrow> tabs s2 t;
          Some (c, put_table t (with_key k b2) s2)
        }
      | None \<Rightarrow> (case new_cell v s of (c, s1) \<Rightarrow>
          Some (c, put_table t (with_key k (b\<lparr>vt_entries := vt_entries b @ [(k, c, False)]\<rparr>)) s1)))
   }"

text \<open>\<^verbatim>\<open>_php3_hash_pointer_update\<close>: an old value that is no pointer is destroyed and its cell freed.\<close>

fun set_pointer :: "hkey \<Rightarrow> cell \<Rightarrow> ventry list \<Rightarrow> ventry list" where
  "set_pointer k c [] = []"
| "set_pointer k c ((k', c', ptr) # es) = (if k' = k then (k', c, True) # es else (k', c', ptr) # set_pointer k c es)"

definition tab_pointer_update :: "tab \<Rightarrow> hkey \<Rightarrow> cell \<Rightarrow> vstate \<Rightarrow> vstate option" where
  "tab_pointer_update t k c s = do {
     b \<leftarrow> tabs s t;
     (case entry_of b k of
        Some (c', ptr) \<Rightarrow> do {
          s1 \<leftarrow> (if ptr then Some s else run_jobs [J_entry c'] s);
          b1 \<leftarrow> tabs s1 t;
          Some (put_table t (with_key k (b1\<lparr>vt_entries := set_pointer k c (vt_entries b1)\<rparr>)) s1)
        }
      | None \<Rightarrow> Some (put_table t (with_key k (b\<lparr>vt_entries := vt_entries b @ [(k, c, True)]\<rparr>)) s))
   }"

text \<open>\<^verbatim>\<open>_php3_hash_next_index_insert\<close> and its variant for pointers fail when the next index is in use.\<close>

definition tab_next_insert :: "tab \<Rightarrow> vval \<Rightarrow> vstate \<Rightarrow> (cell option \<times> vstate) option" where
  "tab_next_insert t v s = do {
     b \<leftarrow> tabs s t;
     (case entry_of b (IntKey (vt_free b)) of
        Some _ \<Rightarrow> Some (None, s)
      | None \<Rightarrow> map_option (apfst Some) (tab_update t (IntKey (vt_free b)) v s))
   }"

definition tab_next_pointer :: "tab \<Rightarrow> cell \<Rightarrow> vstate \<Rightarrow> (status \<times> vstate) option" where
  "tab_next_pointer t c s = do {
     b \<leftarrow> tabs s t;
     (case entry_of b (IntKey (vt_free b)) of
        Some _ \<Rightarrow> Some (FAILURE, s)
      | None \<Rightarrow> map_option (\<lambda>s'. (SUCCESS, s')) (tab_pointer_update t (IntKey (vt_free b)) c s))
   }"

text \<open>\<^verbatim>\<open>_php3_hash_del\<close> and \<^verbatim>\<open>_php3_hash_index_del\<close> of a key; the next free index stays.\<close>

fun remove_entry :: "hkey \<Rightarrow> ventry list \<Rightarrow> ventry list" where
  "remove_entry k [] = []"
| "remove_entry k ((k', c, ptr) # es) = (if k' = k then es else (k', c, ptr) # remove_entry k es)"

definition tab_delete :: "tab \<Rightarrow> hkey \<Rightarrow> vstate \<Rightarrow> vstate option" where
  "tab_delete t k s = do {
     b \<leftarrow> tabs s t;
     (case entry_of b k of
        None \<Rightarrow> Some s
      | Some (c, ptr) \<Rightarrow> do {
          let s1 = put_table t (b\<lparr>vt_entries := remove_entry k (vt_entries b)\<rparr>) s;
          if ptr then Some s1 else run_jobs [J_entry c] s1
        })
   }"

subsection \<open>\<^verbatim>\<open>pval_copy_constructor\<close>\<close>

text \<open>
  \<^verbatim>\<open>_php3_hash_copy\<close> with the copy constructor: every datum, behind a pointer too, is copied and stored under its key.
\<close>

fun copy_entries :: "(vval \<Rightarrow> vstate \<Rightarrow> (vval \<times> status \<times> vstate) option) \<Rightarrow> ventry list \<Rightarrow> tab \<Rightarrow> vstate \<Rightarrow> vstate option" where
  "copy_entries cp [] t s = Some s"
| "copy_entries cp ((k, c, ptr) # es) t s = do {
     v \<leftarrow> cells s c;
     (v', _, s1) \<leftarrow> cp v s;
     (_, s2) \<leftarrow> tab_update t k v' s1;
     copy_entries cp es t s2
   }"

definition hash_copy_table :: "(vval \<Rightarrow> vstate \<Rightarrow> (vval \<times> status \<times> vstate) option) \<Rightarrow> tab \<Rightarrow> vstate \<Rightarrow> (tab \<times> vstate) option" where
  "hash_copy_table cp t s = do {
     b \<leftarrow> tabs s t;
     (case new_table s of (t', s1) \<Rightarrow> do { s2 \<leftarrow> copy_entries cp (vt_entries b) t' s1; Some (t', s2) })
   }"

text \<open>The constructor with the depth of its recursion: the new value and its status. Too deep is undefined.\<close>

fun copy_value :: "nat \<Rightarrow> vval \<Rightarrow> vstate \<Rightarrow> (vval \<times> status \<times> vstate) option" where
  "copy_value n (V_STRING p) s =
     Some (V_STRING (if bytes_of p = [] then (if p = Undefined_variable_string then p else Empty_string) else p), SUCCESS, s)"
| "copy_value (Suc n) (V_ARRAY t) s =
     (if t = symbol_table s then Some (v_reset, FAILURE, s)
      else do { (t', s') \<leftarrow> hash_copy_table (copy_value n) t s; Some (V_ARRAY t', SUCCESS, s') })"
| "copy_value (Suc n) (V_OBJECT t) s =
     (if t = symbol_table s then Some (v_reset, FAILURE, s)
      else do { (t', s') \<leftarrow> hash_copy_table (copy_value n) t s; Some (V_OBJECT t', SUCCESS, s') })"
| "copy_value (Suc n) (V_CLASS t) s =
     (if t = symbol_table s then Some (v_reset, FAILURE, s)
      else do { (t', s') \<leftarrow> hash_copy_table (copy_value n) t s; Some (V_CLASS t', SUCCESS, s') })"
| "copy_value (Suc n) (V_USER_FUNCTION a (Some t) args) s =
     do { (t', s') \<leftarrow> hash_copy_table (copy_value n) t s; Some (V_USER_FUNCTION a (Some t') args, SUCCESS, s') }"
| "copy_value 0 (V_ARRAY t) s = None"
| "copy_value 0 (V_OBJECT t) s = None"
| "copy_value 0 (V_CLASS t) s = None"
| "copy_value 0 (V_USER_FUNCTION a (Some t) args) s = None"
| "copy_value n v s = Some (v, SUCCESS, s)"

text \<open>A value that does not contain itself is not deeper than there are tables.\<close>

definition pval_copy_constructor :: "vval \<Rightarrow> vstate \<Rightarrow> (vval \<times> status \<times> vstate) option" where
  "pval_copy_constructor v s = copy_value (next_tab s) v s"

end
