(* ===== verification/Var_Rep.thy ===== *)
theory Var_Rep
  imports Var_Store
begin

text \<open>
  What a value of the store stands for: a tree of keys and scalars (\<open>reads\<close>), which cells and tables belong to it and
  are freed with it (\<open>owns\<close>), and both at once for a value that shares nothing with others (\<open>holds\<close>). The theorems
  of the copy constructor and of the destructor are about these: a copy reads as the same tree and shares nothing; the
  destructor frees exactly what the value owns.
\<close>

subsection \<open>Trees\<close>

datatype shape = Array_shape | Object_shape | Class_shape | Function_shape int "nat list option"

fun with_table :: "shape \<Rightarrow> tab \<Rightarrow> vval" where
  "with_table Array_shape t = V_ARRAY t"
| "with_table Object_shape t = V_OBJECT t"
| "with_table Class_shape t = V_CLASS t"
| "with_table (Function_shape a args) t = V_USER_FUNCTION a (Some t) args"

text \<open>A node has its entries in order and the next free index.\<close>

datatype tree = Leaf vval | Node shape "(hkey \<times> tree) list" ulong

fun is_leaf :: "vval \<Rightarrow> bool" where
  "is_leaf (V_ARRAY t) = False"
| "is_leaf (V_OBJECT t) = False"
| "is_leaf (V_CLASS t) = False"
| "is_leaf (V_USER_FUNCTION a (Some t) args) = False"
| "is_leaf v = True"

text \<open>What a copy of a scalar is: an empty block becomes the empty string.\<close>

fun normal_leaf :: "vval \<Rightarrow> vval" where
  "normal_leaf (V_STRING p) =
     V_STRING (if bytes_of p = [] then (if p = Undefined_variable_string then p else Empty_string) else p)"
| "normal_leaf v = v"

fun height :: "tree \<Rightarrow> nat" and heights :: "(hkey \<times> tree) list \<Rightarrow> nat" where
  "height (Leaf v) = 0"
| "height (Node sh es n) = Suc (heights es)"
| "heights [] = 0"
| "heights ((k, x) # es) = max (height x) (heights es)"

text \<open>What a copy of a tree is: the next free index is computed anew from the keys that are in use.\<close>

fun copied :: "tree \<Rightarrow> tree" where
  "copied (Leaf v) = Leaf (normal_leaf v)"
| "copied (Node sh es n) = Node sh (map (\<lambda>(k, x). (k, copied x)) es) (fold bump_next (map fst es) 0)"

lemma with_table_not_leaf [simp]: "\<not> is_leaf (with_table sh t)"
  by (cases sh) auto

lemma with_table_inject [simp]: "with_table sh t = with_table sh' t' \<longleftrightarrow> sh = sh' \<and> t = t'"
  by (cases sh; cases sh') auto

lemma is_leaf_not_table: "is_leaf v \<Longrightarrow> v \<noteq> with_table sh t"
  by auto

lemma leaf_or_table:
  obtains "is_leaf v" | sh t where "v = with_table sh t"
proof (cases "is_leaf v")
  case False
  then have "\<exists>sh t. v = with_table sh t"
    by (cases v rule: is_leaf.cases) (metis is_leaf.simps with_table.simps)+
  with that show thesis
    by blast
qed (rule that(1))

subsection \<open>Relations\<close>

inductive reads :: "vstate \<Rightarrow> vval \<Rightarrow> tree \<Rightarrow> bool"
  and reads_entries :: "vstate \<Rightarrow> ventry list \<Rightarrow> (hkey \<times> tree) list \<Rightarrow> bool" for s where
  reads_leaf: "is_leaf v \<Longrightarrow> reads s v (Leaf v)"
| reads_node: "\<lbrakk> tabs s t = Some b; t \<noteq> symbol_table s; distinct (map fst (vt_entries b)); reads_entries s (vt_entries b) es \<rbrakk>
    \<Longrightarrow> reads s (with_table sh t) (Node sh es (vt_free b))"
| reads_nil: "reads_entries s [] []"
| reads_cons: "\<lbrakk> cells s c = Some v; reads s v x; reads_entries s l es \<rbrakk>
    \<Longrightarrow> reads_entries s ((k, c, ptr) # l) ((k, x) # es)"

inductive owns :: "vstate \<Rightarrow> vval \<Rightarrow> cell set \<Rightarrow> tab set \<Rightarrow> bool"
  and owns_cells :: "vstate \<Rightarrow> cell list \<Rightarrow> cell set \<Rightarrow> tab set \<Rightarrow> bool" for s where
  owns_leaf: "is_leaf v \<Longrightarrow> owns s v {} {}"
| owns_node: "\<lbrakk> tabs s t = Some b; t \<noteq> symbol_table s; owns_cells s (owned_cells (vt_entries b)) C T; t \<notin> T \<rbrakk>
    \<Longrightarrow> owns s (with_table sh t) C (insert t T)"
| owns_nil: "owns_cells s [] {} {}"
| owns_cons: "\<lbrakk> cells s c = Some v; owns s v C T; owns_cells s cs C' T'; c \<notin> C; insert c C \<inter> C' = {}; T \<inter> T' = {} \<rbrakk>
    \<Longrightarrow> owns_cells s (c # cs) (insert c (C \<union> C')) (T \<union> T')"

inductive holds :: "vstate \<Rightarrow> vval \<Rightarrow> tree \<Rightarrow> cell set \<Rightarrow> tab set \<Rightarrow> bool"
  and holds_entries :: "vstate \<Rightarrow> ventry list \<Rightarrow> (hkey \<times> tree) list \<Rightarrow> cell set \<Rightarrow> tab set \<Rightarrow> bool" for s where
  holds_leaf: "is_leaf v \<Longrightarrow> holds s v (Leaf v) {} {}"
| holds_node: "\<lbrakk> tabs s t = Some b; t \<noteq> symbol_table s; distinct (map fst (vt_entries b));
      holds_entries s (vt_entries b) es C T; t \<notin> T \<rbrakk>
    \<Longrightarrow> holds s (with_table sh t) (Node sh es (vt_free b)) C (insert t T)"
| holds_nil: "holds_entries s [] [] {} {}"
| holds_cons: "\<lbrakk> cells s c = Some v; holds s v x C T; holds_entries s l es C' T'; c \<notin> C; insert c C \<inter> C' = {}; T \<inter> T' = {} \<rbrakk>
    \<Longrightarrow> holds_entries s ((k, c, False) # l) ((k, x) # es) (insert c (C \<union> C')) (T \<union> T')"

inductive_cases reads_leafE: "reads s v (Leaf w)"
inductive_cases reads_nodeE: "reads s v (Node sh es n)"
inductive_cases reads_nilE: "reads_entries s [] es"
inductive_cases reads_consE: "reads_entries s ((k, c, ptr) # l) es"
inductive_cases holds_leafE: "holds s v (Leaf w) C T"
inductive_cases holds_nodeE: "holds s v (Node sh es n) C T"
inductive_cases holds_nilE: "holds_entries s [] es C T"
inductive_cases holds_consE: "holds_entries s (e # l) es C T"

lemma reads_tableE:
  assumes "reads s (with_table sh t) x"
  obtains b es where "x = Node sh es (vt_free b)" "tabs s t = Some b" "t \<noteq> symbol_table s" "distinct (map fst (vt_entries b))"
    "reads_entries s (vt_entries b) es"
  using assms by (cases rule: reads.cases) auto

lemma reads_scalar: "is_leaf v \<Longrightarrow> reads s v x \<longleftrightarrow> x = Leaf v"
  by (auto simp: reads_leaf elim: reads.cases)

lemma holds_scalar: "is_leaf v \<Longrightarrow> holds s v x D S \<longleftrightarrow> x = Leaf v \<and> D = {} \<and> S = {}"
  by (auto simp: holds_leaf elim: holds.cases)

lemma holds_reads:
  "holds s v x C T \<Longrightarrow> reads s v x"
  "holds_entries s l es C T \<Longrightarrow> reads_entries s l es"
  by (induction rule: holds_holds_entries.inducts) (auto intro: reads_reads_entries.intros)

lemma holds_entries_own:
  "holds_entries s l es C T \<Longrightarrow> owned_cells l = map (fst \<circ> snd) l"
  by (induction l arbitrary: es C T) (auto elim: holds_consE)

lemma holds_owns:
  "holds s v x C T \<Longrightarrow> owns s v C T"
  "holds_entries s l es C T \<Longrightarrow> owns_cells s (owned_cells l) C T"
  by (induction rule: holds_holds_entries.inducts) (auto intro: owns_owns_cells.intros)

subsection \<open>Frames\<close>

text \<open>The footprint is allocated, and only it matters.\<close>

lemma owns_allocated:
  "owns s v C T \<Longrightarrow> C \<subseteq> dom (cells s) \<and> T \<subseteq> dom (tabs s) \<and> symbol_table s \<notin> T"
  "owns_cells s cs C T \<Longrightarrow> C \<subseteq> dom (cells s) \<and> T \<subseteq> dom (tabs s) \<and> symbol_table s \<notin> T \<and> set cs \<subseteq> C"
  by (induction rule: owns_owns_cells.inducts) auto

definition same_on :: "cell set \<Rightarrow> tab set \<Rightarrow> vstate \<Rightarrow> vstate \<Rightarrow> bool" where
  "same_on C T s s' \<longleftrightarrow>
     (\<forall>c\<in>C. cells s' c = cells s c) \<and> (\<forall>t\<in>T. tabs s' t = tabs s t) \<and> symbol_table s' = symbol_table s"

lemma same_on_mono: "same_on C T s s' \<Longrightarrow> C' \<subseteq> C \<Longrightarrow> T' \<subseteq> T \<Longrightarrow> same_on C' T' s s'"
  by (auto simp: same_on_def)

lemma owns_frame:
  "owns s v C T \<Longrightarrow> same_on C T s s' \<Longrightarrow> owns s' v C T"
  "owns_cells s cs C T \<Longrightarrow> same_on C T s s' \<Longrightarrow> owns_cells s' cs C T"
proof (induction rule: owns_owns_cells.inducts)
  case (owns_node t b C T sh)
  then show ?case
    by (auto simp: same_on_def intro!: owns_owns_cells.owns_node)
next
  case (owns_cons c v C T cs C' T')
  then show ?case
    by (auto simp: same_on_def intro!: owns_owns_cells.owns_cons)
qed (auto intro: owns_owns_cells.intros)

lemma holds_frame:
  "holds s v x C T \<Longrightarrow> same_on C T s s' \<Longrightarrow> holds s' v x C T"
  "holds_entries s l es C T \<Longrightarrow> same_on C T s s' \<Longrightarrow> holds_entries s' l es C T"
proof (induction rule: holds_holds_entries.inducts)
  case (holds_node t b es C T sh)
  then show ?case
    by (auto simp: same_on_def intro!: holds_holds_entries.holds_node)
next
  case (holds_cons c v x C T l es C' T' k)
  then show ?case
    by (auto simp: same_on_def intro!: holds_holds_entries.holds_cons)
qed (auto intro: holds_holds_entries.intros)

lemma reads_extend:
  "reads s v x \<Longrightarrow> cells s \<subseteq>\<^sub>m cells s' \<Longrightarrow> tabs s \<subseteq>\<^sub>m tabs s' \<Longrightarrow> symbol_table s' = symbol_table s \<Longrightarrow> reads s' v x"
  "reads_entries s l es \<Longrightarrow> cells s \<subseteq>\<^sub>m cells s' \<Longrightarrow> tabs s \<subseteq>\<^sub>m tabs s' \<Longrightarrow> symbol_table s' = symbol_table s
    \<Longrightarrow> reads_entries s' l es"
  by (induction rule: reads_reads_entries.inducts)
    (auto simp: map_le_def dom_def intro!: reads_reads_entries.intros)

text \<open>A value reads as one tree.\<close>

lemma reads_functional:
  "reads s v x \<Longrightarrow> reads s v y \<Longrightarrow> x = y"
  "reads_entries s l es \<Longrightarrow> reads_entries s l fs \<Longrightarrow> es = fs"
proof (induction arbitrary: y and fs rule: reads_reads_entries.inducts)
  case (reads_node t b es sh)
  from reads_node.prems show ?case
    by (rule reads_tableE) (use reads_node in auto)
next
  case (reads_cons c v x l es k ptr)
  from reads_cons.prems show ?case
    by (rule reads_consE) (use reads_cons in auto)
qed (auto simp: reads_scalar elim: reads_nilE)

lemma reads_keys: "reads_entries s l es \<Longrightarrow> map fst es = map fst l"
  by (induction l arbitrary: es) (auto elim: reads_nilE elim!: reads_consE)

end
