(* ===== verification/Var_Facts.thy ===== *)
theory Var_Facts
  imports Var_Rep
begin

text \<open>
  The theorems of \<^verbatim>\<open>pval_destructor\<close> and \<^verbatim>\<open>pval_copy_constructor\<close>: what a value owns is freed and nothing else, and a copy
  is new, whole and equal.
\<close>

subsection \<open>The destructor\<close>

definition forget :: "cell set \<Rightarrow> tab set \<Rightarrow> vstate \<Rightarrow> vstate" where
  "forget C T s = s\<lparr>cells := cells s |` (- C), tabs := tabs s |` (- T)\<rparr>"

lemma forget_simps [simp]:
  "cells (forget C T s) c = (if c \<in> C then None else cells s c)"
  "tabs (forget C T s) t = (if t \<in> T then None else tabs s t)"
  "symbol_table (forget C T s) = symbol_table s"
  "active (forget C T s) = active s"
  "unassigned (forget C T s) = unassigned s"
  "next_cell (forget C T s) = next_cell s"
  "next_tab (forget C T s) = next_tab s"
  "array_ptr (forget C T s) = array_ptr s"
  "array_ptr_write (forget C T s) = array_ptr_write s"
  by (auto simp: forget_def restrict_map_def)

lemma forget_nothing [simp]: "forget {} {} s = s"
  by (simp add: forget_def restrict_map_def)

lemma forget_forget [simp]: "forget C T (forget C' T' s) = forget (C' \<union> C) (T' \<union> T) s"
  by (simp add: forget_def)

lemma free_cell_forget: "cells s c = Some v \<Longrightarrow> free_cell c s = Some (forget {c} {} s)"
  by (auto simp: free_cell_def forget_def restrict_map_def fun_eq_iff intro!: vstate.equality)

lemma free_table_forget: "tabs s t = Some b \<Longrightarrow> free_table t s = Some (forget {} {t} s)"
  by (auto simp: free_table_def forget_def restrict_map_def fun_eq_iff intro!: vstate.equality)

lemmas run_jobs_nil = run_jobs.simps [of "[]", simplified]
lemmas run_jobs_value = run_jobs.simps [of "J_value v # r" for v r, simplified]
lemmas run_jobs_entry = run_jobs.simps [of "J_entry c # r" for c r, simplified]
lemmas run_jobs_cell = run_jobs.simps [of "J_cell c # r" for c r, simplified]
lemmas run_jobs_table = run_jobs.simps [of "J_table t # r" for t r, simplified]
lemmas run_jobs_drop = run_jobs.simps [of "J_drop t # r" for t r, simplified]

lemma destructor_jobs_leaf: "is_leaf v \<Longrightarrow> destructor_jobs g v = []"
  by (cases v rule: is_leaf.cases) auto

lemma destructor_jobs_table: "t \<noteq> g \<Longrightarrow> destructor_jobs g (with_table sh t) = [J_table t]"
  by (cases sh) auto

lemma run_jobs_owned:
  "owns s v C T \<Longrightarrow> same_on C T s s' \<Longrightarrow> run_jobs (J_value v # r) s' = run_jobs r (forget C T s')"
  "owns_cells s cs C T \<Longrightarrow> same_on C T s s' \<Longrightarrow> run_jobs (map J_entry cs @ r) s' = run_jobs r (forget C T s')"
proof (induction arbitrary: s' r and s' r rule: owns_owns_cells.inducts)
  case (owns_leaf v)
  then show ?case
    by (simp add: run_jobs_value destructor_jobs_leaf)
next
  case (owns_node t b C T sh)
  from owns_node.prems have b: "tabs s' t = Some b" and t: "t \<noteq> symbol_table s'" and so: "same_on C T s s'"
    using owns_node(1,2) by (auto simp: same_on_def)
  have "run_jobs (J_value (with_table sh t) # r) s' = run_jobs (map J_entry (owned_cells (vt_entries b)) @ J_drop t # r) s'"
    using b t by (simp add: run_jobs_value destructor_jobs_table run_jobs_table)
  also have "\<dots> = run_jobs (J_drop t # r) (forget C T s')"
    using owns_node(4) so by simp
  also have "\<dots> = run_jobs r (forget C (insert t T) s')"
    using b \<open>t \<notin> T\<close> by (simp add: run_jobs_drop free_table_forget)
  finally show ?case .
next
  case (owns_cons c v C T cs C' T')
  have c: "cells s' c = Some v" and so: "same_on C T s s'" "same_on C' T' s (forget (insert c C) T s')"
    using owns_cons(1,4-) by (auto simp: same_on_def)
  have "run_jobs (map J_entry (c # cs) @ r) s' = run_jobs (J_value v # J_cell c # map J_entry cs @ r) s'"
    using c by (simp add: run_jobs_entry)
  also have "\<dots> = run_jobs (J_cell c # map J_entry cs @ r) (forget C T s')"
    using owns_cons(3) so(1) by simp
  also have "\<dots> = run_jobs (map J_entry cs @ r) (forget (insert c C) T s')"
    using c \<open>c \<notin> C\<close> by (simp add: run_jobs_cell free_cell_forget)
  also have "\<dots> = run_jobs r (forget C' T' (forget (insert c C) T s'))"
    using owns_cons(5) so(2) by simp
  finally show ?case
    by simp
qed simp

lemma destructor_owned: "owns s v C T \<Longrightarrow> pval_destructor v s = Some (forget C T s)"
  using run_jobs_owned(1) [of s v C T s "[]"] by (simp add: pval_destructor_def run_jobs_nil same_on_def)

lemma table_destroy_owned:
  assumes "tabs s t = Some b" "owns_cells s (owned_cells (vt_entries b)) C T" "t \<notin> T"
  shows "table_destroy t s = Some (forget C (insert t T) s)"
  using assms run_jobs_owned(2) [of s "owned_cells (vt_entries b)" C T s "[J_drop t]"]
  by (simp add: table_destroy_def run_jobs_nil run_jobs_table run_jobs_drop free_table_forget same_on_def)

lemma entry_destroy_owned:
  assumes "cells s c = Some v" "owns s v C T" "c \<notin> C"
  shows "run_jobs [J_entry c] s = Some (forget (insert c C) T s)"
  using assms run_jobs_owned(1) [of s v C T s "[J_cell c]"]
  by (simp add: run_jobs_nil run_jobs_entry run_jobs_cell free_cell_forget same_on_def)

lemma destructor_leaf [simp]: "is_leaf v \<Longrightarrow> pval_destructor v s = Some s"
  using destructor_owned [of s v "{}" "{}"] by (simp add: owns_leaf)

subsection \<open>Depth\<close>

definition store_ok :: "vstate \<Rightarrow> bool" where
  "store_ok s \<longleftrightarrow> (\<forall>c\<ge>next_cell s. cells s c = None) \<and> (\<forall>t\<ge>next_tab s. tabs s t = None) \<and> tabs s (symbol_table s) \<noteq> None"

lemma store_ok_tab: "store_ok s \<Longrightarrow> tabs s t = Some b \<Longrightarrow> t < next_tab s"
  by (metis linorder_not_less option.distinct(1) store_ok_def)

lemma store_ok_cell: "store_ok s \<Longrightarrow> cells s c = Some v \<Longrightarrow> c < next_cell s"
  by (metis linorder_not_less option.distinct(1) store_ok_def)

lemma store_ok_symbol_table: "store_ok s \<Longrightarrow> symbol_table s < next_tab s"
  by (metis linorder_not_less store_ok_def)

lemma store_ok_forget: "store_ok s \<Longrightarrow> symbol_table s \<notin> T \<Longrightarrow> store_ok (forget C T s)"
  by (auto simp: store_ok_def)

lemma heights_member: "i \<le> heights es \<Longrightarrow> i = 0 \<or> (\<exists>k x. (k, x) \<in> set es \<and> i \<le> height x)"
proof (induction es)
  case (Cons e es)
  then show ?case
    by (cases e) (auto simp: le_max_iff_disj)
qed simp

lemma reads_entries_member:
  "reads_entries s l es \<Longrightarrow> (k, x) \<in> set es \<Longrightarrow> \<exists>c ptr v. (k, c, ptr) \<in> set l \<and> cells s c = Some v \<and> reads s v x"
  by (induction l arbitrary: es) (auto elim: reads_nilE elim!: reads_consE; blast)+

text \<open>Below a tree of height \<open>n\<close> there is a table for every smaller height, so there are at least \<open>n\<close> tables.\<close>

lemma table_of_height:
  assumes "reads s v x" "0 < i" "i \<le> height x"
  shows "\<exists>t sh y. tabs s t \<noteq> None \<and> reads s (with_table sh t) y \<and> height y = i"
  using assms
proof (induction "height x" arbitrary: v x rule: less_induct)
  case less
  obtain sh es m where x: "x = Node sh es m"
    using less.prems by (cases x) auto
  obtain t b where v: "v = with_table sh t" "tabs s t = Some b" and es: "reads_entries s (vt_entries b) es"
    using less.prems(1) unfolding x by (auto elim: reads_nodeE)
  show ?case
  proof (cases "i = height x")
    case True
    then show ?thesis
      using less.prems(1) v by blast
  next
    case False
    then have "i \<le> heights es"
      using less.prems(3) x by simp
    then obtain k y where y: "(k, y) \<in> set es" "i \<le> height y"
      using heights_member less.prems(2) by blast
    have smaller: "(k', z) \<in> set fs \<Longrightarrow> height z \<le> heights fs" for k' z fs
      by (induction fs) auto
    obtain u where "reads s u y"
      using reads_entries_member [OF es y(1)] by blast
    with y show ?thesis
      using less.hyps [of y u] less.prems(2) smaller [OF y(1)] x by simp
  qed
qed

lemma reads_table_functional: "reads s (with_table sh t) y \<Longrightarrow> reads s (with_table sh' t) z \<Longrightarrow> height y = height z"
  by (erule reads_tableE, erule reads_tableE) (auto dest: reads_functional(2))

lemma height_bound:
  assumes ok: "store_ok s" and x: "reads s v x"
  shows "height x \<le> next_tab s"
proof -
  have "\<exists>t. tabs s t \<noteq> None \<and> (\<exists>sh y. reads s (with_table sh t) y \<and> height y = i)" if "i \<in> {0<..height x}" for i
    using table_of_height [OF x, of i] that by auto
  then obtain f where f: "\<And>i. i \<in> {0<..height x} \<Longrightarrow> tabs s (f i) \<noteq> None \<and> (\<exists>sh y. reads s (with_table sh (f i)) y \<and> height y = i)"
    by metis
  have "inj_on f {0<..height x}"
    using f by (intro inj_onI) (metis reads_table_functional)
  moreover have "f ` {0<..height x} \<subseteq> {..<next_tab s}"
    using f ok store_ok_tab by fastforce
  ultimately show ?thesis
    using card_inj_on_le [of f "{0<..height x}" "{..<next_tab s}"] by simp
qed

end
