(* ===== verification/Var_Copy.thy ===== *)
theory Var_Copy
  imports Var_Facts
begin

text \<open>The copy constructor: it ends for every value that reads as a tree, and its result is new, whole and equal.\<close>

definition extends :: "vstate \<Rightarrow> vstate \<Rightarrow> bool" where
  "extends s s' \<longleftrightarrow> (\<forall>c<next_cell s. cells s' c = cells s c) \<and> (\<forall>t<next_tab s. tabs s' t = tabs s t) \<and>
     next_cell s \<le> next_cell s' \<and> next_tab s \<le> next_tab s' \<and>
     symbol_table s' = symbol_table s \<and> active s' = active s \<and> unassigned s' = unassigned s \<and>
     array_ptr s' = array_ptr s \<and> array_ptr_write s' = array_ptr_write s"

lemma extends_refl [simp]: "extends s s"
  by (simp add: extends_def)

lemma extends_trans [trans]: "extends s s' \<Longrightarrow> extends s' s'' \<Longrightarrow> extends s s''"
  by (auto simp: extends_def)

lemma extends_fields:
  assumes "extends s s'"
  shows "symbol_table s' = symbol_table s" "active s' = active s" "unassigned s' = unassigned s"
    "array_ptr s' = array_ptr s" "array_ptr_write s' = array_ptr_write s"
  using assms by (auto simp: extends_def)

lemma extends_maps:
  assumes "store_ok s" "extends s s'"
  shows "cells s \<subseteq>\<^sub>m cells s'" "tabs s \<subseteq>\<^sub>m tabs s'"
  using assms by (auto simp: map_le_def extends_def dest: store_ok_cell store_ok_tab)

lemma extends_reads:
  assumes "store_ok s" "extends s s'"
  shows "reads s v x \<Longrightarrow> reads s' v x" "reads_entries s l es \<Longrightarrow> reads_entries s' l es"
  using extends_maps [OF assms] extends_fields(1) [OF assms(2)] by (auto intro: reads_extend)

lemma extends_cell: "store_ok s \<Longrightarrow> extends s s' \<Longrightarrow> cells s c = Some v \<Longrightarrow> cells s' c = Some v"
  by (auto simp: extends_def dest: store_ok_cell)

lemma extends_same_on: "extends s s' \<Longrightarrow> C \<subseteq> {..<next_cell s} \<Longrightarrow> T \<subseteq> {..<next_tab s} \<Longrightarrow> same_on C T s s'"
  by (auto simp: same_on_def extends_def)

definition fresh_copy :: "vstate \<Rightarrow> vval \<Rightarrow> tree \<Rightarrow> vstate \<Rightarrow> bool" where
  "fresh_copy s v x s' \<longleftrightarrow> extends s s' \<and> store_ok s' \<and>
     holds s' v x {next_cell s..<next_cell s'} {next_tab s..<next_tab s'}"

lemma holds_entries_snoc:
  assumes "holds_entries s l es C T" "cells s c = Some v" "holds s v x C' T'" "c \<notin> C'" "C \<inter> insert c C' = {}" "T \<inter> T' = {}"
  shows "holds_entries s (l @ [(k, c, False)]) (es @ [(k, x)]) (C \<union> insert c C') (T \<union> T')"
  using assms
proof (induction l arbitrary: es C T)
  case Nil
  then have "holds_entries s [(k, c, False)] [(k, x)] (insert c (C' \<union> {})) (T' \<union> {})"
    by (intro holds_cons holds_nil) auto
  with Nil show ?case
    by (auto elim: holds_nilE)
next
  case (Cons e l)
  obtain k' d u y D S es' C'' T'' where e: "e = (k', d, False)" "es = (k', y) # es'" "C = insert d (D \<union> C'')" "T = S \<union> T''"
      and h: "cells s d = Some u" "holds s u y D S" "holds_entries s l es' C'' T''" "d \<notin> D" "S \<inter> T'' = {}" "d \<notin> C''" "D \<inter> C'' = {}"
    using Cons.prems(1) by (blast elim: holds_consE)
    have "holds_entries s (l @ [(k, c, False)]) (es' @ [(k, x)]) (C'' \<union> insert c C') (T'' \<union> T')"
      using Cons.prems e h by (intro Cons.IH) auto
    then have "holds_entries s ((k', d, False) # l @ [(k, c, False)]) ((k', y) # es' @ [(k, x)])
        (insert d (D \<union> (C'' \<union> insert c C'))) (S \<union> (T'' \<union> T'))"
      using h Cons.prems e by (intro holds_cons) auto
    then show ?case
      using e by (simp add: Un_assoc insert_commute)
qed

lemma tab_update_new:
  assumes "tabs s t = Some b" "entry_of b k = None"
  shows "tab_update t k v s = Some (next_cell s,
     s\<lparr>cells := (cells s)(next_cell s := Some v), next_cell := next_cell s + 1,
       tabs := (tabs s)(t := Some (with_key k (b\<lparr>vt_entries := vt_entries b @ [(k, next_cell s, False)]\<rparr>)))\<rparr>)"
  using assms by (simp add: tab_update_def new_cell_def put_table_def)

lemma vt_entries_with_key [simp]: "vt_entries (with_key k b) = vt_entries b"
  by (simp add: with_key_def)

text \<open>One entry: the copy of the datum and its bucket.\<close>

lemma copied_entry:
  assumes t: "t < next_tab s" "tabs s t = Some b" "entry_of b k = None" "t = next_tab s0"
    and hes: "holds_entries s (vt_entries b) es {next_cell s0..<next_cell s} ({next_tab s0..<next_tab s} - {t})"
    and le: "next_cell s0 \<le> next_cell s"
    and fc: "fresh_copy s v x s1"
    and upd: "tab_update t k v s1 = Some (c, s2)"
  shows "\<exists>b2. tabs s2 t = Some b2 \<and> map fst (vt_entries b2) = map fst (vt_entries b) @ [k] \<and> vt_free b2 = bump_next k (vt_free b)
      \<and> holds_entries s2 (vt_entries b2) (es @ [(k, x)]) {next_cell s0..<next_cell s2} ({next_tab s0..<next_tab s2} - {t})
      \<and> store_ok s2 \<and> t < next_tab s2 \<and> next_cell s0 \<le> next_cell s2"
proof -
  have ext: "extends s s1" and ok1: "store_ok s1"
    and hv: "holds s1 v x {next_cell s..<next_cell s1} {next_tab s..<next_tab s1}"
    using fc by (auto simp: fresh_copy_def)
  have b1: "tabs s1 t = Some b" and mono: "next_cell s \<le> next_cell s1" "next_tab s \<le> next_tab s1"
    using ext t by (auto simp: extends_def)
  let ?b2 = "with_key k (b\<lparr>vt_entries := vt_entries b @ [(k, next_cell s1, False)]\<rparr>)"
  have s2: "s2 = s1\<lparr>cells := (cells s1)(next_cell s1 := Some v), next_cell := next_cell s1 + 1,
      tabs := (tabs s1)(t := Some ?b2)\<rparr>"
    using upd unfolding tab_update_new [OF b1 t(3)] option.inject prod.inject by (rule conjE) (rule sym)
  have so: "same_on ({next_cell s0..<next_cell s} \<union> {next_cell s..<next_cell s1})
      (({next_tab s0..<next_tab s} - {t}) \<union> {next_tab s..<next_tab s1}) s1 s2"
    using t mono by (auto simp: same_on_def s2)
  have "holds_entries s1 (vt_entries b) es {next_cell s0..<next_cell s} ({next_tab s0..<next_tab s} - {t})"
    using hes by (rule holds_frame) (auto intro!: extends_same_on [OF ext])
  then have old: "holds_entries s2 (vt_entries b) es {next_cell s0..<next_cell s} ({next_tab s0..<next_tab s} - {t})"
    by (rule holds_frame) (rule same_on_mono [OF so], auto)
  have new: "holds s2 v x {next_cell s..<next_cell s1} {next_tab s..<next_tab s1}"
    using hv by (rule holds_frame) (rule same_on_mono [OF so], auto)
  have "holds_entries s2 (vt_entries b @ [(k, next_cell s1, False)]) (es @ [(k, x)])
      ({next_cell s0..<next_cell s} \<union> insert (next_cell s1) {next_cell s..<next_cell s1})
      (({next_tab s0..<next_tab s} - {t}) \<union> {next_tab s..<next_tab s1})"
    by (rule holds_entries_snoc [OF old _ new]) (use mono in \<open>auto simp: s2\<close>)
  moreover have "{next_cell s0..<next_cell s} \<union> insert (next_cell s1) {next_cell s..<next_cell s1} = {next_cell s0..<next_cell s2}"
    using mono le by (auto simp: s2)
  moreover have "({next_tab s0..<next_tab s} - {t}) \<union> {next_tab s..<next_tab s1} = {next_tab s0..<next_tab s2} - {t}"
    using mono t by (auto simp: s2)
  moreover have "store_ok s2"
    using ok1 t(1) mono by (auto simp: store_ok_def s2)
  ultimately show ?thesis
    using t mono le by (auto simp: s2 with_key_def)
qed

text \<open>The state while a table is copied: the new table holds what was copied so far.\<close>

definition copying :: "vstate \<Rightarrow> vstate \<Rightarrow> tab \<Rightarrow> vtable \<Rightarrow> (hkey \<times> tree) list \<Rightarrow> bool" where
  "copying s0 s t b es \<longleftrightarrow> t = next_tab s0 \<and> extends s0 s \<and> store_ok s \<and> t < next_tab s \<and> tabs s t = Some b \<and>
     vt_free b = fold bump_next (map fst es) 0 \<and>
     holds_entries s (vt_entries b) es {next_cell s0..<next_cell s} ({next_tab s0..<next_tab s} - {t})"

lemma copying_step:
  assumes "copying s0 s t b es" "entry_of b k = None" "fresh_copy s v x s1"
  shows "\<exists>c s2 b2. tab_update t k v s1 = Some (c, s2) \<and> copying s0 s2 t b2 (es @ [(k, x)])
    \<and> map fst (vt_entries b2) = map fst (vt_entries b) @ [k]"
proof -
  have b1: "tabs s1 t = Some b" and ext: "extends s0 s1"
    using assms extends_trans [of s0 s s1] by (auto simp: copying_def fresh_copy_def extends_def)
  obtain c s2 where u: "tab_update t k v s1 = Some (c, s2)"
    using tab_update_new [OF b1 assms(2)] by blast
  have le: "next_cell s0 \<le> next_cell s"
    using assms(1) by (simp add: copying_def extends_def)
  obtain b2 where "tabs s2 t = Some b2" "map fst (vt_entries b2) = map fst (vt_entries b) @ [k]" "vt_free b2 = bump_next k (vt_free b)" "store_ok s2" "t < next_tab s2"
      "holds_entries s2 (vt_entries b2) (es @ [(k, x)]) {next_cell s0..<next_cell s2} ({next_tab s0..<next_tab s2} - {t})"
    using copied_entry [of t s b k s0 es v x s1 c s2] assms u le by (auto simp: copying_def)
  moreover have "extends s0 s2"
    using u ext assms(1) unfolding tab_update_new [OF b1 assms(2)] by (auto simp: extends_def copying_def)
  ultimately show ?thesis
    using u assms(1) by (auto simp: copying_def)
qed

abbreviation copied_entries :: "(hkey \<times> tree) list \<Rightarrow> (hkey \<times> tree) list" where
  "copied_entries es \<equiv> map (\<lambda>(k, x). (k, copied x)) es"

lemma copy_entries_fresh:
  assumes cp: "\<And>v x s. reads s v x \<Longrightarrow> store_ok s \<Longrightarrow> height x \<le> n \<Longrightarrow>
      \<exists>v' s'. cp v s = Some (v', SUCCESS, s') \<and> fresh_copy s v' (copied x) s'"
    and ok: "store_ok s0"
  shows "reads_entries s0 l fs \<Longrightarrow> heights fs \<le> n \<Longrightarrow> distinct (map fst (vt_entries b) @ map fst l) \<Longrightarrow> copying s0 s t b es
    \<Longrightarrow> \<exists>s' b'. copy_entries cp l t s = Some s' \<and> copying s0 s' t b' (es @ copied_entries fs)
        \<and> map fst (vt_entries b') = map fst (vt_entries b) @ map fst l"
proof (induction l arbitrary: fs b s es)
  case Nil
  from Nil.prems(1) have "fs = []"
    by (rule reads_nilE)
  with Nil.prems(4) show ?case
    by auto
next
  case (Cons e l)
  obtain k c ptr where e: "e = (k, c, ptr)"
    by (cases e) auto
  obtain v x fs' where f: "fs = (k, x) # fs'" "cells s0 c = Some v" "reads s0 v x" "reads_entries s0 l fs'"
    using Cons.prems(1) unfolding e by (blast elim: reads_consE)
  have ext: "extends s0 s" and ok': "store_ok s"
    using Cons.prems(4) by (auto simp: copying_def)
  have c: "cells s c = Some v" and v: "reads s v x"
    using f ext ok by (auto intro: extends_cell extends_reads)
  obtain v' s1 where cpv: "cp v s = Some (v', SUCCESS, s1)" and fc: "fresh_copy s v' (copied x) s1"
    using cp [OF v ok'] Cons.prems(2) f(1) by auto
  have "entry_of b k = None"
    using Cons.prems(3) e by (auto simp: entry_of_def map_of_eq_None_iff)
  then obtain d s2 b2 where u: "tab_update t k v' s1 = Some (d, s2)" and c2: "copying s0 s2 t b2 (es @ [(k, copied x)])"
      and b2: "map fst (vt_entries b2) = map fst (vt_entries b) @ [k]"
    using copying_step [OF Cons.prems(4) _ fc] by blast
  have "\<exists>s' b'. copy_entries cp l t s2 = Some s' \<and> copying s0 s' t b' ((es @ [(k, copied x)]) @ copied_entries fs')
      \<and> map fst (vt_entries b') = map fst (vt_entries b2) @ map fst l"
    by (rule Cons.IH [OF f(4) _ _ c2]) (use Cons.prems f e b2 in auto)
  then show ?case
    using e c cpv u f b2 by auto
qed

lemma hash_copy_table_fresh:
  assumes cp: "\<And>v x s. reads s v x \<Longrightarrow> store_ok s \<Longrightarrow> height x \<le> n \<Longrightarrow>
      \<exists>v' s'. cp v s = Some (v', SUCCESS, s') \<and> fresh_copy s v' (copied x) s'"
    and ok: "store_ok s" and r: "reads s (with_table sh t) (Node sh es m)" and n: "heights es \<le> n"
  shows "\<exists>t' s'. hash_copy_table cp t s = Some (t', s') \<and> fresh_copy s (with_table sh' t') (copied (Node sh' es m)) s'"
proof -
  obtain b where b: "tabs s t = Some b" "t \<noteq> symbol_table s" "distinct (map fst (vt_entries b))" "reads_entries s (vt_entries b) es"
    using reads_tableE [OF r] by auto
  let ?s1 = "snd (new_table s)" and ?b0 = "\<lparr>vt_entries = [], vt_free = 0\<rparr> :: vtable"
  have "copying s ?s1 (next_tab s) ?b0 []"
    using ok by (auto simp: copying_def new_table_def extends_def store_ok_def lessThan_Suc intro!: holds_nil)
  then have "\<exists>s' b'. copy_entries cp (vt_entries b) (next_tab s) ?s1 = Some s' \<and> copying s s' (next_tab s) b' ([] @ copied_entries es)
      \<and> map fst (vt_entries b') = map fst (vt_entries ?b0) @ map fst (vt_entries b)"
    by (intro copy_entries_fresh [OF _ ok b(4) n]) (rule cp, assumption+, use b(3) in simp, assumption)
  then obtain s' b' where s': "copy_entries cp (vt_entries b) (next_tab s) ?s1 = Some s'"
      and cs: "copying s s' (next_tab s) b' (copied_entries es)" and keys: "map fst (vt_entries b') = map fst (vt_entries b)"
    by auto
  have sym: "next_tab s \<noteq> symbol_table s'"
    using store_ok_symbol_table [OF ok] cs by (simp add: copying_def extends_def)
  have tb: "tabs s' (next_tab s) = Some b'" and vf: "vt_free b' = fold bump_next (map fst es) 0"
    and he: "holds_entries s' (vt_entries b') (copied_entries es) {next_cell s..<next_cell s'} ({next_tab s..<next_tab s'} - {next_tab s})"
    using cs by (auto simp: copying_def comp_def case_prod_unfold)
  have h: "holds s' (with_table sh' (next_tab s)) (copied (Node sh' es m)) {next_cell s..<next_cell s'}
      (insert (next_tab s) ({next_tab s..<next_tab s'} - {next_tab s}))"
    using holds_node [OF tb sym _ he] keys b(3) vf by simp
  have "insert (next_tab s) ({next_tab s..<next_tab s'} - {next_tab s}) = {next_tab s..<next_tab s'}"
    using cs by (auto simp: copying_def)
  moreover have hc: "hash_copy_table cp t s = Some (next_tab s, s')"
    using b(1) s' by (simp add: hash_copy_table_def new_table_def)
  ultimately show ?thesis
    using h cs hc by (auto simp: copying_def fresh_copy_def)
qed

lemma hash_copy_table_value:
  assumes cp: "\<And>v x s. reads s v x \<Longrightarrow> store_ok s \<Longrightarrow> height x \<le> n \<Longrightarrow>
      \<exists>v' s'. copy_value n v s = Some (v', SUCCESS, s') \<and> fresh_copy s v' (copied x) s'"
    and ok: "store_ok s" and r: "reads s (with_table sh t) (Node sh es m)" and n: "heights es \<le> n"
  shows "\<exists>v' s'. copy_value (Suc n) (with_table sh t) s = Some (v', SUCCESS, s') \<and> fresh_copy s v' (copied (Node sh es m)) s'"
proof -
  obtain t' s' where c: "hash_copy_table (copy_value n) t s = Some (t', s')"
      and f: "fresh_copy s (with_table sh t') (copied (Node sh es m)) s'"
    using hash_copy_table_fresh [where cp = "copy_value n" and n = n, OF _ ok r n] cp by blast
  moreover have "t \<noteq> symbol_table s"
    using reads_tableE [OF r] by blast
  ultimately have "copy_value (Suc n) (with_table sh t) s = Some (with_table sh t', SUCCESS, s')"
    by (cases sh) auto
  with f show ?thesis
    by blast
qed

lemma copy_leaf: "is_leaf v \<Longrightarrow> copy_value n v s = Some (normal_leaf v, SUCCESS, s)"
  by (cases v rule: is_leaf.cases; cases n) auto

lemma is_leaf_normal [simp]: "is_leaf (normal_leaf v) = is_leaf v" "normal_leaf (normal_leaf v) = normal_leaf v"
  by (cases v rule: is_leaf.cases; auto)+

lemma holds_normal: "is_leaf v \<Longrightarrow> holds s (normal_leaf v) (Leaf (normal_leaf v)) {} {}"
  by (simp add: holds_leaf)

lemma copy_value_fresh:
  "reads s v x \<Longrightarrow> store_ok s \<Longrightarrow> height x \<le> n
    \<Longrightarrow> \<exists>v' s'. copy_value n v s = Some (v', SUCCESS, s') \<and> fresh_copy s v' (copied x) s'"
proof (induction n arbitrary: v x s)
  case 0
  then show ?case
    by (cases x) (auto elim!: reads_leafE simp: copy_leaf fresh_copy_def holds_normal)
next
  case (Suc n)
  show ?case
  proof (cases x)
    case (Leaf w)
    then show ?thesis
      using Suc.prems by (auto elim!: reads_leafE simp: copy_leaf fresh_copy_def holds_normal)
  next
    case (Node sh es m)
    then obtain t where v: "v = with_table sh t"
      using Suc.prems(1) by (auto elim: reads_nodeE)
    have n: "heights es \<le> n"
      using Suc.prems(3) Node by simp
    show ?thesis
      unfolding v Node by (rule hash_copy_table_value [OF Suc.IH Suc.prems(2) Suc.prems(1) [unfolded v Node] n])
  qed
qed

lemma copy_fresh:
  "reads s v x \<Longrightarrow> store_ok s \<Longrightarrow> \<exists>v' s'. pval_copy_constructor v s = Some (v', SUCCESS, s') \<and> fresh_copy s v' (copied x) s'"
  unfolding pval_copy_constructor_def by (intro copy_value_fresh height_bound)

end
