(* ===== verification/Var_Ops.thy ===== *)
theory Var_Ops
  imports Var_Store
begin

text \<open>
  The actions of the parser on variables (\<^verbatim>\<open>variables.c\<close> and the variable part of \<^verbatim>\<open>control_structures_inline.h\<close>), in code
  that is executed. A variable on the left of an assignment is a \<open>varptr\<close>: the cell, whether it was made just now for
  writing (\<^verbatim>\<open>cs_data.array_write\<close>) and the offset of a character in a string, or -1. A cell made for writing is noted on the
  stack \<open>unassigned\<close>; a read takes it away again. Expressions are values that belong to the parser's stack.

  The flag \<^verbatim>\<open>array_write\<close> of the variable whose dimensions are being parsed is \<open>array_ptr_write\<close>. The notices and
  warnings are not modelled.
\<close>

record varptr =
  vp_cell :: "cell option"
  vp_write :: bool
  vp_offset :: int

subsection \<open>Values and their conversions\<close>

fun table_of :: "vval \<Rightarrow> tab option" where
  "table_of (V_ARRAY t) = Some t"
| "table_of (V_OBJECT t) = Some t"
| "table_of (V_CLASS t) = Some t"
| "table_of _ = None"

text \<open>A value without tables, as the operators see it.\<close>

fun scalar :: "vval \<Rightarrow> pval option" where
  "scalar (V_LONG n) = Some (IS_LONG n)"
| "scalar (V_DOUBLE d) = Some (IS_DOUBLE d)"
| "scalar (V_STRING p) = Some (IS_STRING (bytes_of p))"
| "scalar V_NULL = Some IS_NULL"
| "scalar _ = None"

fun of_scalar :: "pval \<Rightarrow> vval option" where
  "of_scalar (IS_LONG n) = Some (V_LONG n)"
| "of_scalar (IS_DOUBLE d) = Some (V_DOUBLE d)"
| "of_scalar (IS_STRING s) = Some (V_STRING (if s = [] then Empty_string else Block s))"
| "of_scalar _ = None"

text \<open>\<^verbatim>\<open>convert_to_long\<close> and \<^verbatim>\<open>pval_is_true\<close>: an array counts as whether it has elements and is destroyed.\<close>

definition v_is_filled :: "tab \<Rightarrow> vstate \<Rightarrow> bool option" where
  "v_is_filled t s = map_option (\<lambda>b. vt_entries b \<noteq> []) (tabs s t)"

definition v_to_long :: "vval \<Rightarrow> vstate \<Rightarrow> (ulong \<times> vstate) option" where
  "v_to_long v s =
     (case scalar v of
        Some p \<Rightarrow> do { w \<leftarrow> convert_to_long p; Some (lval w, s) }
      | None \<Rightarrow> do {
          n \<leftarrow> (case v of
                 V_ARRAY t \<Rightarrow> map_option (\<lambda>b. if b then 1 else 0) (v_is_filled t s)
               | V_OBJECT t \<Rightarrow> map_option (\<lambda>b. if b then 1 else 0) (v_is_filled t s)
               | _ \<Rightarrow> Some 0);
          s1 \<leftarrow> pval_destructor v s;
          Some (n, s1)
        })"

definition v_is_true :: "vval \<Rightarrow> vstate \<Rightarrow> (bool \<times> vstate) option" where
  "v_is_true v s =
     (case scalar v of
        Some p \<Rightarrow> Some (pval_is_true p, s)
      | None \<Rightarrow> do {
          b \<leftarrow> (case v of V_ARRAY t \<Rightarrow> v_is_filled t s | V_OBJECT t \<Rightarrow> v_is_filled t s | _ \<Rightarrow> Some False);
          s1 \<leftarrow> pval_destructor v s;
          Some (b, s1)
        })"

definition v_to_string :: "nat \<Rightarrow> vval \<Rightarrow> vstate \<Rightarrow> (cstring \<times> vstate) option" where
  "v_to_string precision v s =
     (case v of
        V_STRING p \<Rightarrow> Some (p, s)
      | V_LONG n \<Rightarrow> Some (Block (str (convert_to_string precision (IS_LONG n))), s)
      | V_DOUBLE d \<Rightarrow> Some (Block (str (convert_to_string precision (IS_DOUBLE d))), s)
      | V_ARRAY t \<Rightarrow> map_option (Pair (Block ''Array'')) (pval_destructor v s)
      | V_OBJECT t \<Rightarrow> map_option (Pair (Block ''Object'')) (pval_destructor v s)
      | _ \<Rightarrow> map_option (Pair Empty_string) (pval_destructor v s))"

definition array_init :: "vstate \<Rightarrow> vval \<times> vstate" where
  "array_init s = (case new_table s of (t, s1) \<Rightarrow> (V_ARRAY t, s1))"

subsection \<open>Unassigned variables\<close>

definition clean_unassigned_variable_top :: "bool \<Rightarrow> vstate \<Rightarrow> vstate option" where
  "clean_unassigned_variable_top delete_var s =
     (case unassigned s of
        [] \<Rightarrow> Some s
      | vt # rest \<Rightarrow> do {
          s1 \<leftarrow> (if delete_var
                 then (case vt of Track_index h t \<Rightarrow> tab_delete t (IntKey h) s
                       | Track_name n t \<Rightarrow> tab_delete t (arr_key n) s)
                 else Some s);
          Some (s1\<lparr>unassigned := rest\<rparr>)
        })"

definition track :: "tracker \<Rightarrow> vstate \<Rightarrow> vstate" where
  "track vt s = s\<lparr>unassigned := vt # unassigned s\<rparr>"

definition clean_if :: "bool \<Rightarrow> bool \<Rightarrow> vstate \<Rightarrow> vstate option" where
  "clean_if write delete_var s = (if write then clean_unassigned_variable_top delete_var s else Some s)"

subsection \<open>Pointers to variables\<close>

definition get_regular_variable_pointer :: "vval \<Rightarrow> varptr \<Rightarrow> vstate \<Rightarrow> (varptr \<times> vstate) option" where
  "get_regular_variable_pointer varname r s =
     (case varname of
        V_STRING p \<Rightarrow> do {
          t \<leftarrow> active s;
          c \<leftarrow> tab_find t (arr_key (bytes_of p)) s;
          (case c of
             Some c \<Rightarrow> Some (\<lparr>vp_cell = Some c, vp_write = False, vp_offset = -1\<rparr>, s)
           | None \<Rightarrow> do {
               (c, s1) \<leftarrow> tab_update t (arr_key (bytes_of p)) var_uninit s;
               Some (\<lparr>vp_cell = Some c, vp_write = True, vp_offset = -1\<rparr>, track (Track_name (bytes_of p) t) s1)
             })
        }
      | _ \<Rightarrow> Some (r\<lparr>vp_cell := None\<rparr>, s))"

text \<open>The table behind the cell of an object.\<close>

definition object_table :: "cell \<Rightarrow> vstate \<Rightarrow> tab option" where
  "object_table c s = Option.bind (cells s c) table_of"

definition get_class_variable_pointer :: "varptr \<Rightarrow> vval \<Rightarrow> varptr \<Rightarrow> vstate \<Rightarrow> (varptr \<times> vstate) option" where
  "get_class_variable_pointer class_ptr varname r s =
     (case vp_cell class_ptr of
        None \<Rightarrow> do { s1 \<leftarrow> pval_destructor varname s; Some (r\<lparr>vp_cell := None\<rparr>, s1) }
      | Some ob \<Rightarrow>
          (case varname of
             V_STRING p \<Rightarrow> do {
               t \<leftarrow> object_table ob s;
               c \<leftarrow> tab_find t (arr_key (bytes_of p)) s;
               (case c of
                  Some c \<Rightarrow> Some (\<lparr>vp_cell = Some c, vp_write = False, vp_offset = -1\<rparr>, s)
                | None \<Rightarrow> do {
                    (c, s1) \<leftarrow> tab_update t (arr_key (bytes_of p)) v_reset s;
                    Some (\<lparr>vp_cell = Some c, vp_write = True, vp_offset = -1\<rparr>, track (Track_name (bytes_of p) t) s1)
                  })
             }
           | _ \<Rightarrow> do { s1 \<leftarrow> pval_destructor varname s; Some (r\<lparr>vp_cell := None\<rparr>, s1) }))"

definition is_array_or_string :: "vval \<Rightarrow> bool" where
  "is_array_or_string v = (case v of V_ARRAY _ \<Rightarrow> True | V_STRING _ \<Rightarrow> True | _ \<Rightarrow> False)"

definition start_array_parsing :: "vval \<Rightarrow> varptr option \<Rightarrow> vstate \<Rightarrow> vstate option" where
  "start_array_parsing array_name class_ptr s =
     (case array_name of
        V_STRING p \<Rightarrow>
          if class_ptr \<noteq> None \<and> vp_cell (the class_ptr) = None then Some (s\<lparr>array_ptr := None\<rparr>)
          else do {
            t \<leftarrow> (case class_ptr of None \<Rightarrow> active s | Some cp \<Rightarrow> Option.bind (vp_cell cp) (\<lambda>ob. object_table ob s));
            c \<leftarrow> tab_find t (arr_key (bytes_of p)) s;
            (c, s1) \<leftarrow> (case c of
                Some c \<Rightarrow> Some (c, s\<lparr>array_ptr_write := False\<rparr>)
              | None \<Rightarrow> (case array_init s of (v, s1) \<Rightarrow> do {
                  (c, s2) \<leftarrow> tab_update t (arr_key (bytes_of p)) v s1;
                  Some (c, track (Track_name (bytes_of p) t) (s2\<lparr>array_ptr_write := True\<rparr>))
                }));
            v \<leftarrow> cells s1 c;
            Some (s1\<lparr>array_ptr := (if is_array_or_string v then Some c else None)\<rparr>)
          }
      | _ \<Rightarrow> do { s1 \<leftarrow> pval_destructor array_name s; Some (s1\<lparr>array_ptr := None\<rparr>) })"

definition start_dimensions_parsing :: "varptr \<Rightarrow> vstate \<Rightarrow> varptr" where
  "start_dimensions_parsing r s =
     \<lparr>vp_cell = array_ptr s, vp_write = (if array_ptr s \<noteq> None then array_ptr_write s else vp_write r), vp_offset = -1\<rparr>"

subsection \<open>Indices\<close>

text \<open>The element of a table under a key, made with \<^verbatim>\<open>IS_NULL\<close> if there is none or the table is new.\<close>

definition fetch_element :: "varptr \<Rightarrow> bool \<Rightarrow> tab \<Rightarrow> hkey \<Rightarrow> tracker \<Rightarrow> vstate \<Rightarrow> (varptr \<times> vstate) option" where
  "fetch_element dim new_array t k vt s = do {
     c \<leftarrow> (if new_array then Some None else tab_find t k s);
     (case c of
        Some c \<Rightarrow> Some (dim\<lparr>vp_cell := Some c\<rparr>, s)
      | None \<Rightarrow> do {
          (c, s1) \<leftarrow> tab_update t k V_NULL s;
          Some (dim\<lparr>vp_cell := Some c, vp_write := True\<rparr>, if vp_write dim then s1 else track vt s1)
        })
   }"

definition fetch_index :: "varptr \<Rightarrow> bool \<Rightarrow> tab \<Rightarrow> vval option \<Rightarrow> vstate \<Rightarrow> (varptr \<times> vstate) option" where
  "fetch_index dim new_array t expr s =
     (case expr of
        Some (V_LONG n) \<Rightarrow> fetch_element dim new_array t (IntKey n) (Track_index n t) s
      | Some (V_DOUBLE d) \<Rightarrow> do { n \<leftarrow> d_to_long d; fetch_element dim new_array t (IntKey n) (Track_index n t) s }
      | Some (V_STRING p) \<Rightarrow> fetch_element dim new_array t (arr_key (bytes_of p)) (Track_name (bytes_of p) t) s
      | Some e \<Rightarrow> do { s1 \<leftarrow> pval_destructor e s; Some (dim\<lparr>vp_cell := None\<rparr>, s1) }
      | None \<Rightarrow> do {
          b \<leftarrow> tabs s t;
          (c, s1) \<leftarrow> tab_next_insert t V_NULL s;
          c \<leftarrow> c;
          Some (dim\<lparr>vp_cell := Some c, vp_write := True\<rparr>,
                if vp_write dim then s1 else track (Track_index (vt_free b) t) s1)
        })"

definition destroy_expr :: "vval option \<Rightarrow> vstate \<Rightarrow> vstate option" where
  "destroy_expr expr s = (case expr of None \<Rightarrow> Some s | Some e \<Rightarrow> pval_destructor e s)"

text \<open>The result starts as the dimension (the parser's default action).\<close>

definition fetch_array_index :: "vval option \<Rightarrow> varptr \<Rightarrow> vstate \<Rightarrow> (varptr \<times> vstate) option" where
  "fetch_array_index expr dim s =
     (case vp_cell dim of
        None \<Rightarrow> do { s1 \<leftarrow> destroy_expr expr s; Some (dim, s1) }
      | Some a \<Rightarrow> do {
          arr \<leftarrow> cells s a;
          (case arr of
             V_STRING (Block b) \<Rightarrow>
               if vp_offset dim \<noteq> -1 then Some (dim\<lparr>vp_cell := None\<rparr>, s)
               else (case expr of
                   None \<Rightarrow> Some (dim\<lparr>vp_cell := None\<rparr>, s)
                 | Some e \<Rightarrow> do {
                     (n, s1) \<leftarrow> v_to_long e s;
                     if sint n < 0 \<or> sint n \<ge> int (length b) then Some (dim\<lparr>vp_cell := None\<rparr>, s1)
                     else Some (dim\<lparr>vp_offset := sint n\<rparr>, s1)
                   })
           | V_ARRAY t \<Rightarrow> fetch_index dim False t expr s
           | _ \<Rightarrow>
               if arr = V_NULL \<or> arr = V_STRING Empty_string \<or> arr = V_STRING Undefined_variable_string
               then (case new_table s of (t, s1) \<Rightarrow> do {
                       s2 \<leftarrow> set_cell a (V_ARRAY t) s1;
                       fetch_index dim True t expr s2
                     })
               else do { s1 \<leftarrow> destroy_expr expr s; Some (dim\<lparr>vp_cell := None\<rparr>, s1) })
        })"

definition end_array_parsing :: "varptr \<Rightarrow> vstate \<Rightarrow> (varptr \<times> vstate) option" where
  "end_array_parsing dim s =
     (case vp_cell dim of
        None \<Rightarrow> Some (dim, s)
      | Some c \<Rightarrow> do {
          v \<leftarrow> cells s c;
          s1 \<leftarrow> (if v = V_NULL then set_cell c v_reset s else Some s);
          Some (dim, s1)
        })"

text \<open>The variable \<^verbatim>\<open>$name[e1][e2]...\<close> that the grammar makes of these; \<open>None\<close> among the indices is \<^verbatim>\<open>[]\<close>.\<close>

fun fetch_dimensions :: "vval option list \<Rightarrow> varptr \<Rightarrow> vstate \<Rightarrow> (varptr \<times> vstate) option" where
  "fetch_dimensions [] dim s = Some (dim, s)"
| "fetch_dimensions (e # es) dim s = do { (dim', s') \<leftarrow> fetch_array_index e dim s; fetch_dimensions es dim' s' }"

definition multi_dimensional_array :: "vval \<Rightarrow> varptr option \<Rightarrow> vval option list \<Rightarrow> varptr \<Rightarrow> vstate \<Rightarrow> (varptr \<times> vstate) option" where
  "multi_dimensional_array name class_ptr exprs r s = do {
     s1 \<leftarrow> start_array_parsing name class_ptr s;
     (dim, s2) \<leftarrow> fetch_dimensions exprs (start_dimensions_parsing r s1) s1;
     end_array_parsing dim s2
   }"

subsection \<open>Reading and writing\<close>

definition read_pointer_value :: "varptr \<Rightarrow> vstate \<Rightarrow> (vval \<times> vstate) option" where
  "read_pointer_value var_ptr s =
     (case vp_cell var_ptr of
        None \<Rightarrow> Some (var_uninit, s)
      | Some c \<Rightarrow> do {
          v \<leftarrow> cells s c;
          if vp_write var_ptr \<or> v = var_uninit
          then do { s1 \<leftarrow> clean_if (vp_write var_ptr) True s; Some (var_uninit, s1) }
          else if vp_offset var_ptr = -1
          then do { (r, _, s1) \<leftarrow> pval_copy_constructor v s; Some (r, s1) }
          else (case v of
              V_STRING (Block b) \<Rightarrow>
                if 0 \<le> vp_offset var_ptr \<and> vp_offset var_ptr \<le> int (length b)
                then Some (V_STRING (Block [(b @ [NUL]) ! nat (vp_offset var_ptr)]), s) else None
            | _ \<Rightarrow> None)
        })"

text \<open>
  An assignment; \<open>oper\<close> is the function of \<^verbatim>\<open>+=\<close> and the like, which gives the result of the value and the expression.
\<close>

type_synonym operator = "vval \<Rightarrow> vval \<Rightarrow> vstate \<Rightarrow> (vval \<times> vstate) option"

definition assign_to_variable :: "nat \<Rightarrow> varptr \<Rightarrow> vval \<Rightarrow> operator option \<Rightarrow> vstate \<Rightarrow> (vval \<times> status \<times> vstate) option" where
  "assign_to_variable precision var_ptr expr oper s =
     (case vp_cell var_ptr of
        None \<Rightarrow> do {
          s1 \<leftarrow> pval_destructor expr s;
          s2 \<leftarrow> clean_if (vp_write var_ptr) True s1;
          Some (var_uninit, FAILURE, s2)
        }
      | Some c \<Rightarrow> do {
          s1 \<leftarrow> clean_if (vp_write var_ptr) False s;
          if vp_offset var_ptr = -1 then do {
            old \<leftarrow> cells s1 c;
            (result, s3) \<leftarrow> (case oper of
                Some f \<Rightarrow> do { (r, s2) \<leftarrow> f old expr s1; s3 \<leftarrow> set_cell c r s2; Some (r, s3) }
              | None \<Rightarrow> do { s2 \<leftarrow> pval_destructor old s1; s3 \<leftarrow> set_cell c expr s2; Some (expr, s3) });
            pval_copy_constructor result s3
          }
          else (case oper of
              Some f \<Rightarrow> Some (v_reset, SUCCESS, s1)
            | None \<Rightarrow> do {
                (p, s2) \<leftarrow> v_to_string precision expr s1;
                if bytes_of p = [] then Some (v_reset, SUCCESS, s2)
                else do {
                  v \<leftarrow> cells s2 c;
                  (case v of
                     V_STRING (Block b) \<Rightarrow>
                       if 0 \<le> vp_offset var_ptr \<and> vp_offset var_ptr < int (length b) then do {
                         s3 \<leftarrow> set_cell c (V_STRING (Block (b[nat (vp_offset var_ptr) := hd (bytes_of p)]))) s2;
                         Some (V_STRING p, SUCCESS, s3)
                       } else None
                   | _ \<Rightarrow> None)
                }
              })
        })"

definition incdec_variable :: "varptr \<Rightarrow> (vval \<Rightarrow> vstate \<Rightarrow> (vval \<times> vstate) option) \<Rightarrow> bool \<Rightarrow> vstate \<Rightarrow>
    (vval \<times> status \<times> vstate) option" where
  "incdec_variable var_ptr oper post s =
     (case vp_cell var_ptr of
        None \<Rightarrow> do { s1 \<leftarrow> clean_if (vp_write var_ptr) True s; Some (v_reset, FAILURE, s1) }
      | Some c \<Rightarrow> do {
          s1 \<leftarrow> clean_if (vp_write var_ptr) False s;
          v \<leftarrow> cells s1 c;
          if post then do {
            (result, st, s2) \<leftarrow> pval_copy_constructor v s1;
            v2 \<leftarrow> cells s2 c;
            (v', s3) \<leftarrow> oper v2 s2;
            s4 \<leftarrow> set_cell c v' s3;
            Some (result, st, s4)
          } else do {
            (v', s2) \<leftarrow> oper v s1;
            s3 \<leftarrow> set_cell c v' s2;
            pval_copy_constructor v' s3
          }
        })"

end
