(* ===== verification/Var_Memory.thy ===== *)
theory Var_Memory
  imports Var_Copy Var_Ops
begin

text \<open>
  The abstract memory: a tree for every variable. \<open>mem s X C T\<close> says that the cells of \<open>dom X\<close> hold the trees \<open>X\<close>, that
  no two of them share a cell or table, and that they occupy \<open>C\<close> and \<open>T\<close>. The operations on variables are operations
  on \<open>X\<close>: this is the value semantics of the language.
\<close>

definition placed :: "vstate \<Rightarrow> (cell \<rightharpoonup> tree) \<Rightarrow> (cell \<Rightarrow> cell set) \<Rightarrow> (cell \<Rightarrow> tab set) \<Rightarrow> bool" where
  "placed s X FC FT \<longleftrightarrow>
     (\<forall>c x. X c = Some x \<longrightarrow> (\<exists>v. cells s c = Some v \<and> holds s v x (FC c) (FT c) \<and> c \<notin> FC c)) \<and>
     (\<forall>c\<in>dom X. \<forall>d\<in>dom X. c \<noteq> d \<longrightarrow> insert c (FC c) \<inter> insert d (FC d) = {} \<and> FT c \<inter> FT d = {})"

definition mem :: "vstate \<Rightarrow> (cell \<rightharpoonup> tree) \<Rightarrow> cell set \<Rightarrow> tab set \<Rightarrow> bool" where
  "mem s X C T \<longleftrightarrow>
     (\<exists>FC FT. placed s X FC FT \<and> C = (\<Union>c\<in>dom X. insert c (FC c)) \<and> T = (\<Union>c\<in>dom X. FT c))"

lemma placed_at: "placed s X FC FT \<Longrightarrow> X c = Some x \<Longrightarrow> \<exists>v. cells s c = Some v \<and> holds s v x (FC c) (FT c) \<and> c \<notin> FC c"
  unfolding placed_def by blast

lemma placed_apart:
  "placed s X FC FT \<Longrightarrow> c \<in> dom X \<Longrightarrow> d \<in> dom X \<Longrightarrow> c \<noteq> d \<Longrightarrow> insert c (FC c) \<inter> insert d (FC d) = {} \<and> FT c \<inter> FT d = {}"
  unfolding placed_def by blast

lemma placed_remove: "placed s X FC FT \<Longrightarrow> placed s (X(c := None)) FC FT"
  unfolding placed_def by (simp split: if_splits)

lemma mem_empty [simp]: "mem s Map.empty {} {}"
  by (simp add: mem_def placed_def)

lemma mem_dom: "mem s X C T \<Longrightarrow> X c = Some x \<Longrightarrow> c \<in> C"
  unfolding mem_def by blast

lemma mem_split:
  assumes "mem s X C T" "X c = Some x"
  obtains v D S C' T' where "cells s c = Some v" "holds s v x D S" "c \<notin> D" "mem s (X(c := None)) C' T'"
    "insert c D \<inter> C' = {}" "S \<inter> T' = {}" "C = insert c D \<union> C'" "T = S \<union> T'"
proof -
  obtain FC FT where p: "placed s X FC FT" and C: "C = (\<Union>c\<in>dom X. insert c (FC c))" and T: "T = (\<Union>c\<in>dom X. FT c)"
    using assms(1) unfolding mem_def by blast
  let ?C = "\<Union>d\<in>dom (X(c := None)). insert d (FC d)" and ?T = "\<Union>d\<in>dom (X(c := None)). FT d"
  have m: "mem s (X(c := None)) ?C ?T"
    using placed_remove [OF p] unfolding mem_def by blast
  have d: "dom X = insert c (dom (X(c := None)))"
    using assms(2) by auto
  have un: "C = insert c (FC c) \<union> ?C" "T = FT c \<union> ?T"
    unfolding C T by (subst d, blast)+
  have "insert c (FC c) \<inter> insert d (FC d) = {} \<and> FT c \<inter> FT d = {}" if "d \<in> dom (X(c := None))" for d
    using that assms(2) by (intro placed_apart [OF p]) auto
  then have sep: "insert c (FC c) \<inter> ?C = {}" "FT c \<inter> ?T = {}"
    by blast+
  obtain v where v: "cells s c = Some v" "holds s v x (FC c) (FT c)" "c \<notin> FC c"
    using placed_at [OF p assms(2)] by blast
  show thesis
    by (rule that [OF v m sep un])
qed

lemma mem_join:
  assumes "mem s (X(c := None)) C' T'" "cells s c = Some v" "holds s v x D S" "c \<notin> D" "insert c D \<inter> C' = {}" "S \<inter> T' = {}"
  shows "mem s (X(c \<mapsto> x)) (insert c D \<union> C') (S \<union> T')"
proof -
  let ?X = "X(c := None)"
  obtain FC FT where p: "placed s ?X FC FT" and C: "C' = (\<Union>c\<in>dom ?X. insert c (FC c))" and T: "T' = (\<Union>c\<in>dom ?X. FT c)"
    using assms(1) unfolding mem_def by blast
  have d: "dom (X(c \<mapsto> x)) = insert c (dom ?X)" "c \<notin> dom ?X"
    by auto
  have sep: "insert c D \<inter> insert d (FC d) = {} \<and> S \<inter> FT d = {}" if "d \<in> dom ?X" for d
    using assms(5,6) that unfolding C T by blast
  have "placed s (X(c \<mapsto> x)) (FC(c := D)) (FT(c := S))"
    unfolding placed_def
  proof (intro conjI allI impI ballI)
    fix d y assume "(X(c \<mapsto> x)) d = Some y"
    then show "\<exists>v. cells s d = Some v \<and> holds s v y ((FC(c := D)) d) ((FT(c := S)) d) \<and> d \<notin> (FC(c := D)) d"
      using placed_at [OF p, of d y] assms(2-4) by (cases "d = c") auto
  next
    fix d e assume de: "d \<in> dom (X(c \<mapsto> x))" "e \<in> dom (X(c \<mapsto> x))" "d \<noteq> e"
    show "insert d ((FC(c := D)) d) \<inter> insert e ((FC(c := D)) e) = {}" "(FT(c := S)) d \<inter> (FT(c := S)) e = {}"
      using de sep [of d] sep [of e] placed_apart [OF p, of d e] unfolding d(1)
      by (cases "d = c"; cases "e = c"; simp; blast)+
  qed
  moreover have "insert c D \<union> C' = (\<Union>d\<in>dom (X(c \<mapsto> x)). insert d ((FC(c := D)) d))"
    "S \<union> T' = (\<Union>d\<in>dom (X(c \<mapsto> x)). (FT(c := S)) d)"
    unfolding d(1) C T using d(2) by (auto split: if_split_asm)
  ultimately show ?thesis
    unfolding mem_def by blast
qed

lemma mem_frame:
  assumes "mem s X C T" "same_on C T s s'"
  shows "mem s' X C T"
proof -
  obtain FC FT where p: "placed s X FC FT" and C: "C = (\<Union>c\<in>dom X. insert c (FC c))" and T: "T = (\<Union>c\<in>dom X. FT c)"
    using assms(1) unfolding mem_def by blast
  have "\<exists>v. cells s' c = Some v \<and> holds s' v x (FC c) (FT c) \<and> c \<notin> FC c" if "X c = Some x" for c x
  proof -
    have "insert c (FC c) \<subseteq> C" "FT c \<subseteq> T"
      unfolding C T using that by blast+
    then show ?thesis
      using placed_at [OF p that] assms(2) holds_frame(1) [OF _ same_on_mono [OF assms(2)]]
      by (auto simp: same_on_def)
  qed
  then have "placed s' X FC FT"
    using p unfolding placed_def by simp
  with C T show ?thesis
    unfolding mem_def by blast
qed

end
