(* ===== verification/Var_Focus.thy ===== *)
theory Var_Focus
  imports Var_Memory
begin

text \<open>
  Elements of arrays: a path of keys leads from a cell to the cell of an element, the tree of the element can be taken
  out of the tree of the variable, and whatever the element becomes is put back at the same place.
\<close>

definition hcell :: "vstate \<Rightarrow> cell \<Rightarrow> tree \<Rightarrow> cell set \<Rightarrow> tab set \<Rightarrow> bool" where
  "hcell s c x D S \<longleftrightarrow> (\<exists>v F. cells s c = Some v \<and> holds s v x F S \<and> c \<notin> F \<and> D = insert c F)"

fun cell_at :: "vstate \<Rightarrow> cell \<Rightarrow> hkey list \<Rightarrow> cell option" where
  "cell_at s c [] = Some c"
| "cell_at s c (k # ks) = do {
     v \<leftarrow> cells s c;
     t \<leftarrow> table_of v;
     b \<leftarrow> tabs s t;
     e \<leftarrow> entry_of b k;
     cell_at s (fst e) ks
   }"

fun tree_at :: "hkey list \<Rightarrow> tree \<Rightarrow> tree option" where
  "tree_at [] x = Some x"
| "tree_at (k # ks) (Node sh es n) = Option.bind (map_of es k) (tree_at ks)"
| "tree_at (k # ks) (Leaf v) = None"

fun tree_put :: "hkey list \<Rightarrow> tree \<Rightarrow> tree \<Rightarrow> tree" where
  "tree_put [] y x = y"
| "tree_put (k # ks) y (Node sh es n) =
     Node sh (case map_of es k of Some x \<Rightarrow> AList.update k (tree_put ks y x) es | None \<Rightarrow> es) n"
| "tree_put (k # ks) y (Leaf v) = Leaf v"

subsection \<open>States that change inside of a footprint\<close>

text \<open>
  \<open>D\<close> and \<open>S\<close> are all the cells and tables that may change, \<open>D'\<close> and \<open>S'\<close> what has come of them: whatever is allocated in the
  end is in these or was there before and is untouched, so nothing is lost.
\<close>

definition nothing_lost :: "vstate \<Rightarrow> cell set \<Rightarrow> tab set \<Rightarrow> vstate \<Rightarrow> cell set \<Rightarrow> tab set \<Rightarrow> bool" where
  "nothing_lost s D S s' D' S' \<longleftrightarrow> dom (cells s') \<subseteq> dom (cells s) - D \<union> D' \<and> dom (tabs s') \<subseteq> dom (tabs s) - S \<union> S'"

lemma nothing_lost_refl [simp]: "nothing_lost s D S s D S"
  by (auto simp: nothing_lost_def)

lemma nothing_lost_trans: "nothing_lost s D S s1 D1 S1 \<Longrightarrow> nothing_lost s1 D1 S1 s2 D2 S2 \<Longrightarrow> nothing_lost s D S s2 D2 S2"
  unfolding nothing_lost_def by blast

lemma nothing_lost_widen: "nothing_lost s D S s' D' S' \<Longrightarrow> nothing_lost s (D \<union> C) (S \<union> T) s' (D' \<union> C) (S' \<union> T)"
  unfolding nothing_lost_def by blast

lemma nothing_lost_fields [simp]:
  "nothing_lost s D S (s'\<lparr>unassigned := u\<rparr>) D' S' = nothing_lost s D S s' D' S'"
  "nothing_lost s D S (s'\<lparr>active := a\<rparr>) D' S' = nothing_lost s D S s' D' S'"
  "nothing_lost (s\<lparr>unassigned := u\<rparr>) D S s' D' S' = nothing_lost s D S s' D' S'"
  "nothing_lost (s\<lparr>active := a\<rparr>) D S s' D' S' = nothing_lost s D S s' D' S'"
  "nothing_lost (s\<lparr>array_ptr := p\<rparr>) D S s' D' S' = nothing_lost s D S s' D' S'"
  "nothing_lost (s\<lparr>array_ptr_write := w\<rparr>) D S s' D' S' = nothing_lost s D S s' D' S'"
  by (simp_all add: nothing_lost_def)

definition evolves :: "vstate \<Rightarrow> cell set \<Rightarrow> tab set \<Rightarrow> vstate \<Rightarrow> cell set \<Rightarrow> tab set \<Rightarrow> bool" where
  "evolves s D S s' D' S' \<longleftrightarrow>
     (\<forall>c<next_cell s. c \<notin> D \<longrightarrow> cells s' c = cells s c) \<and> (\<forall>t<next_tab s. t \<notin> S \<longrightarrow> tabs s' t = tabs s t) \<and>
     next_cell s \<le> next_cell s' \<and> next_tab s \<le> next_tab s' \<and>
     D' \<subseteq> D \<union> {next_cell s..<next_cell s'} \<and> S' \<subseteq> S \<union> {next_tab s..<next_tab s'} \<and>
     symbol_table s' = symbol_table s \<and> active s' = active s \<and> store_ok s' \<and> nothing_lost s D S s' D' S'"

lemma evolves_refl: "store_ok s \<Longrightarrow> evolves s D S s D S"
  by (simp add: evolves_def)

lemma evolves_trans:
  assumes "evolves s D S s1 D1 S1" "evolves s1 D1 S1 s2 D2 S2"
  shows "evolves s D S s2 D2 S2"
proof -
  have "cells s2 c = cells s c" if "c < next_cell s" "c \<notin> D" for c
  proof -
    have "c < next_cell s1" "c \<notin> D1" "cells s1 c = cells s c"
      using assms(1) that unfolding evolves_def by auto
    then show ?thesis
      using assms(2) unfolding evolves_def by simp
  qed
  moreover have "tabs s2 t = tabs s t" if "t < next_tab s" "t \<notin> S" for t
  proof -
    have "t < next_tab s1" "t \<notin> S1" "tabs s1 t = tabs s t"
      using assms(1) that unfolding evolves_def by auto
    then show ?thesis
      using assms(2) unfolding evolves_def by simp
  qed
  moreover have "{next_cell s..<next_cell s1} \<union> {next_cell s1..<next_cell s2} = {next_cell s..<next_cell s2}"
      "{next_tab s..<next_tab s1} \<union> {next_tab s1..<next_tab s2} = {next_tab s..<next_tab s2}"
    using assms unfolding evolves_def by (simp_all add: ivl_disj_un)
  then have "D2 \<subseteq> D \<union> {next_cell s..<next_cell s2}" "S2 \<subseteq> S \<union> {next_tab s..<next_tab s2}"
    using assms unfolding evolves_def by blast+
  moreover have "nothing_lost s D S s2 D2 S2"
    using assms nothing_lost_trans unfolding evolves_def by blast
  ultimately show ?thesis
    using assms unfolding evolves_def by simp
qed

lemma evolves_frame:
  "evolves s D S s' D' S' \<Longrightarrow> C \<subseteq> {..<next_cell s} \<Longrightarrow> T \<subseteq> {..<next_tab s} \<Longrightarrow> C \<inter> D = {} \<Longrightarrow> T \<inter> S = {} \<Longrightarrow> same_on C T s s'"
  by (auto simp: evolves_def same_on_def)

lemma evolves_apart:
  assumes "evolves s D S s' D' S'" "C \<subseteq> {..<next_cell s}" "T \<subseteq> {..<next_tab s}" "C \<inter> D = {}" "T \<inter> S = {}"
  shows "C \<inter> D' = {}" "T \<inter> S' = {}"
  using assms unfolding evolves_def by fastforce+

lemma evolves_widen:
  assumes "evolves s D S s' D' S'"
  shows "evolves s (D \<union> C) (S \<union> T) s' (D' \<union> C) (S' \<union> T)"
  using assms nothing_lost_widen [of s D S s' D' S' C T] unfolding evolves_def by auto

lemma evolves_fresh:
  assumes "fresh_copy s v x s'"
  shows "evolves s {} {} s' {next_cell s..<next_cell s'} {next_tab s..<next_tab s'}"
proof -
  have ext: "extends s s'" and ok: "store_ok s'"
    using assms by (auto simp: fresh_copy_def)
  have "nothing_lost s {} {} s' {next_cell s..<next_cell s'} {next_tab s..<next_tab s'}"
    unfolding nothing_lost_def
  proof (intro conjI subsetI)
    fix c assume c: "c \<in> dom (cells s')"
    then have "c < next_cell s'"
      using store_ok_cell [OF ok] by auto
    with c ext show "c \<in> dom (cells s) - {} \<union> {next_cell s..<next_cell s'}"
      by (cases "c < next_cell s") (auto simp: extends_def)
  next
    fix t assume t: "t \<in> dom (tabs s')"
    then have "t < next_tab s'"
      using store_ok_tab [OF ok] by auto
    with t ext show "t \<in> dom (tabs s) - {} \<union> {next_tab s..<next_tab s'}"
      by (cases "t < next_tab s") (auto simp: extends_def)
  qed
  with assms show ?thesis
    by (auto simp: fresh_copy_def extends_def evolves_def)
qed

lemma hcell_footprint:
  assumes "hcell s c x D S" "store_ok s"
  shows "D \<subseteq> {..<next_cell s}" "S \<subseteq> {..<next_tab s}" "symbol_table s \<notin> S" "c \<in> D"
proof -
  obtain v F where v: "cells s c = Some v" "holds s v x F S" "D = insert c F"
    using assms(1) unfolding hcell_def by blast
  have "F \<subseteq> dom (cells s)" "S \<subseteq> dom (tabs s)" "symbol_table s \<notin> S"
    using owns_allocated(1) [OF holds_owns(1) [OF v(2)]] by auto
  then show "D \<subseteq> {..<next_cell s}" "S \<subseteq> {..<next_tab s}" "symbol_table s \<notin> S" "c \<in> D"
    using v assms(2) by (auto dest: store_ok_cell store_ok_tab)
qed

lemma hcell_frame: "hcell s c x D S \<Longrightarrow> same_on D S s s' \<Longrightarrow> hcell s' c x D S"
  unfolding hcell_def
  by (elim exE conjE, intro exI conjI) (auto intro: holds_frame(1) simp: same_on_def)

subsection \<open>Elements\<close>

definition refits :: "vstate \<Rightarrow> cell set \<Rightarrow> tab set \<Rightarrow> vstate \<Rightarrow> cell \<Rightarrow> tree \<Rightarrow> cell set \<Rightarrow> tab set \<Rightarrow> bool" where
  "refits s C T s' c x D S \<longleftrightarrow> same_on C T s s' \<and> hcell s' c x D S \<and> D \<inter> C = {} \<and> S \<inter> T = {}"

lemma holds_entries_focus:
  assumes "holds_entries s l es C T" "map_of l k = Some (c, ptr)"
  shows "\<exists>x D S C' T'. \<not> ptr \<and> map_of es k = Some x \<and> hcell s c x D S \<and> C = D \<union> C' \<and> T = S \<union> T' \<and> D \<inter> C' = {} \<and> S \<inter> T' = {}
    \<and> (\<forall>s' x' D' S'. refits s C' T' s' c x' D' S' \<longrightarrow> holds_entries s' l (AList.update k x' es) (D' \<union> C') (S' \<union> T'))"
  using assms
proof (induction l arbitrary: es C T)
  case (Cons e l)
  obtain k' d v y D S es' C1 T1 where e: "e = (k', d, False)" "es = (k', y) # es'" "C = insert d (D \<union> C1)" "T = S \<union> T1"
      and h: "cells s d = Some v" "holds s v y D S" "holds_entries s l es' C1 T1" "d \<notin> D" "S \<inter> T1 = {}" "d \<notin> C1" "D \<inter> C1 = {}"
    using Cons.prems(1) by (blast elim: holds_consE)
  show ?case
  proof (cases "k' = k")
    case True
    have "holds_entries s' (e # l) (AList.update k x' es) (D' \<union> C1) (S' \<union> T1)" if "refits s C1 T1 s' c x' D' S'" for s' x' D' S'
    proof -
      from that obtain u F where u: "cells s' c = Some u" "holds s' u x' F S'" "c \<notin> F" "D' = insert c F" "same_on C1 T1 s s'"
          "D' \<inter> C1 = {}" "S' \<inter> T1 = {}"
        unfolding refits_def hcell_def by blast
      have "holds_entries s' l es' C1 T1"
        using h(3) u(5) by (rule holds_frame(2))
      then have "holds_entries s' ((k, c, False) # l) ((k, x') # es') (insert c (F \<union> C1)) (S' \<union> T1)"
        using u by (intro holds_cons) auto
      then show ?thesis
        using e True u(4) Cons.prems(2) by simp
    qed
    moreover have "hcell s c y (insert d D) S" "\<not> ptr"
      using h e True Cons.prems(2) by (auto simp: hcell_def)
    ultimately show ?thesis
      using e h True by (intro exI [of _ y] exI [of _ "insert d D"] exI [of _ S] exI [of _ C1] exI [of _ T1]) auto
  next
    case False
    then obtain x D2 S2 C2 T2 where i: "\<not> ptr" "map_of es' k = Some x" "hcell s c x D2 S2" "C1 = D2 \<union> C2" "T1 = S2 \<union> T2"
        "D2 \<inter> C2 = {}" "S2 \<inter> T2 = {}"
        "\<And>s' x' D' S'. refits s C2 T2 s' c x' D' S' \<Longrightarrow> holds_entries s' l (AList.update k x' es') (D' \<union> C2) (S' \<union> T2)"
      using Cons.IH [OF h(3)] Cons.prems(2) e(1) by auto
    let ?C = "insert d (D \<union> C2)" and ?T = "S \<union> T2"
    have "holds_entries s' (e # l) (AList.update k x' es) (D' \<union> ?C) (S' \<union> ?T)"
      if r: "refits s ?C ?T s' c x' D' S'" for s' x' D' S'
    proof -
      have so: "same_on ?C ?T s s'" and dj: "D' \<inter> ?C = {}" "S' \<inter> ?T = {}"
        using r by (auto simp: refits_def)
      have "refits s C2 T2 s' c x' D' S'"
        using r by (auto simp: refits_def same_on_def)
      moreover have "holds s' v y D S" "cells s' d = Some v"
        using so h by (auto intro: holds_frame(1) simp: same_on_def)
      ultimately have "holds_entries s' ((k', d, False) # l) ((k', y) # AList.update k x' es') (insert d (D \<union> (D' \<union> C2))) (S \<union> (S' \<union> T2))"
        using i(4,5,8) h dj by (intro holds_cons) auto
      then show ?thesis
        using e False by (simp add: Un_left_commute insert_commute)
    qed
    then have wand: "\<forall>s' x' D' S'. refits s ?C ?T s' c x' D' S' \<longrightarrow>
        holds_entries s' (e # l) (AList.update k x' es) (D' \<union> ?C) (S' \<union> ?T)"
      by blast
    have "D2 \<inter> ?C = {}" "S2 \<inter> ?T = {}" "C = D2 \<union> ?C" "T = S2 \<union> ?T"
      using e i(4-7) h(4-) by auto
    moreover have "map_of es k = Some x"
      using e(2) i(2) False by simp
    ultimately show ?thesis
      using i(1,3) wand by (intro exI [of _ x] exI [of _ D2] exI [of _ S2] exI [of _ ?C] exI [of _ ?T] conjI) assumption+
  qed
qed simp

lemma refits_mono: "refits s C T s' c x D S \<Longrightarrow> C' \<subseteq> C \<Longrightarrow> T' \<subseteq> T \<Longrightarrow> refits s C' T' s' c x D S"
  by (auto simp: refits_def same_on_def)

lemma table_of_with_table: "table_of v = Some t \<Longrightarrow> \<exists>sh. v = with_table sh t"
  by (cases v) (metis table_of.simps option.distinct(1) option.inject with_table.simps)+

lemma hcell_node:
  assumes "hcell s c x D S" "cells s c = Some v" "table_of v = Some t" "tabs s t = Some b"
  obtains sh es F T where "v = with_table sh t" "x = Node sh es (vt_free b)" "t \<noteq> symbol_table s"
    "distinct (map fst (vt_entries b))" "holds_entries s (vt_entries b) es F T" "t \<notin> T" "D = insert c F" "c \<notin> F" "S = insert t T"
proof -
  obtain F where h: "holds s v x F S" "c \<notin> F" "D = insert c F"
    using assms(1,2) by (auto simp: hcell_def)
  obtain sh where v: "v = with_table sh t"
    using assms(3) table_of_with_table by blast
  from h(1) show thesis
    by (cases rule: holds.cases) (use v h assms(4) in \<open>auto intro: that\<close>)
qed

lemma hcell_nodeI:
  assumes "cells s c = Some (with_table sh t)" "tabs s t = Some b" "t \<noteq> symbol_table s" "distinct (map fst (vt_entries b))"
    "holds_entries s (vt_entries b) es F T" "t \<notin> T" "c \<notin> F"
  shows "hcell s c (Node sh es (vt_free b)) (insert c F) (insert t T)"
  unfolding hcell_def using assms holds_node [OF assms(2-6), of sh] by blast

lemma same_on_cell: "same_on C T s s' \<Longrightarrow> c \<in> C \<Longrightarrow> cells s' c = cells s c"
  by (simp add: same_on_def)

lemma same_on_tab: "same_on C T s s' \<Longrightarrow> t \<in> T \<Longrightarrow> tabs s' t = tabs s t"
  by (simp add: same_on_def)

lemma focus:
  assumes "hcell s c x D S" "cell_at s c ks = Some d"
  shows "\<exists>y D1 S1. tree_at ks x = Some y \<and> hcell s d y D1 S1 \<and> D1 \<subseteq> D \<and> S1 \<subseteq> S \<and> (ks \<noteq> [] \<longrightarrow> c \<notin> D1) \<and>
    (\<forall>s' y' D2 S2. refits s (D - D1) (S - S1) s' d y' D2 S2 \<longrightarrow>
       hcell s' c (tree_put ks y' x) ((D - D1) \<union> D2) ((S - S1) \<union> S2) \<and> cell_at s' c ks = Some d)"
  using assms
proof (induction ks arbitrary: c x D S)
  case Nil
  then show ?case
    by (intro exI [of _ x] exI [of _ D] exI [of _ S]) (auto simp: refits_def)
next
  case (Cons k ks)
  obtain v t b c1 ptr where v: "cells s c = Some v" "table_of v = Some t" "tabs s t = Some b" "entry_of b k = Some (c1, ptr)"
      and c1: "cell_at s c1 ks = Some d"
    using Cons.prems(2) by (auto split: bind_splits)
  obtain sh es F T where n: "v = with_table sh t" "x = Node sh es (vt_free b)" "t \<noteq> symbol_table s"
      "distinct (map fst (vt_entries b))" "holds_entries s (vt_entries b) es F T" "t \<notin> T" "D = insert c F" "c \<notin> F" "S = insert t T"
    by (rule hcell_node [OF Cons.prems(1) v(1-3)])
  obtain x1 Da Sa C' T' where e: "map_of es k = Some x1" "hcell s c1 x1 Da Sa" "F = Da \<union> C'" "T = Sa \<union> T'" "Da \<inter> C' = {}" "Sa \<inter> T' = {}"
      and we: "\<And>s' x' D' S'. refits s C' T' s' c1 x' D' S' \<Longrightarrow>
        holds_entries s' (vt_entries b) (AList.update k x' es) (D' \<union> C') (S' \<union> T')"
    using holds_entries_focus [OF n(5) v(4) [unfolded entry_of_def]] by blast
  obtain y D1 S1 where i: "tree_at ks x1 = Some y" "hcell s d y D1 S1" "D1 \<subseteq> Da" "S1 \<subseteq> Sa"
      and wi: "\<And>s' y' D2 S2. refits s (Da - D1) (Sa - S1) s' d y' D2 S2 \<Longrightarrow>
        hcell s' c1 (tree_put ks y' x1) ((Da - D1) \<union> D2) ((Sa - S1) \<union> S2) \<and> cell_at s' c1 ks = Some d"
    using Cons.IH [OF e(2) c1] by blast
  have "hcell s' c (tree_put (k # ks) y' x) ((D - D1) \<union> D2) ((S - S1) \<union> S2) \<and> cell_at s' c (k # ks) = Some d"
    if r: "refits s (D - D1) (S - S1) s' d y' D2 S2" for s' y' D2 S2
  proof -
    have dj: "same_on (D - D1) (S - S1) s s'" "D2 \<inter> (D - D1) = {}" "S2 \<inter> (S - S1) = {}"
      using r by (auto simp: refits_def)
    have "refits s (Da - D1) (Sa - S1) s' d y' D2 S2"
      using r by (rule refits_mono) (use n(7,9) e(3,4) in auto)
    note w = wi [OF this]
    have "same_on C' T' s s'"
      using dj(1) by (rule same_on_mono) (use n(7,9) e(3-6) i(3,4) in auto)
    then have "refits s C' T' s' c1 (tree_put ks y' x1) ((Da - D1) \<union> D2) ((Sa - S1) \<union> S2)"
      using w dj n(7,9) e(3-6) i(3,4) by (auto simp: refits_def)
    note es = we [OF this]
    have in_rest: "c \<in> D - D1" "t \<in> S - S1"
      using n(6-9) e(3,4) i(3,4) by auto
    have sc: "cells s' c = Some (with_table sh t)" "tabs s' t = Some b" "t \<noteq> symbol_table s'"
      using same_on_cell [OF dj(1) in_rest(1)] same_on_tab [OF dj(1) in_rest(2)] v(1,3) n(1,3) dj(1)
      by (simp_all add: same_on_def)
    have "hcell s' c (Node sh (AList.update k (tree_put ks y' x1) es) (vt_free b))
        (insert c ((Da - D1) \<union> D2 \<union> C')) (insert t ((Sa - S1) \<union> S2 \<union> T'))"
      by (rule hcell_nodeI [OF sc n(4) es]) (use dj n e(3,4) i(3,4) in auto)
    moreover have "insert c ((Da - D1) \<union> D2 \<union> C') = (D - D1) \<union> D2"
      using n(7,8) e(3,5) i(3) by auto
    moreover have "insert t ((Sa - S1) \<union> S2 \<union> T') = (S - S1) \<union> S2"
      using n(6,9) e(4,6) i(4) by auto
    ultimately show ?thesis
      using w sc v n(1,2) e(1) by simp
  qed
  moreover have "tree_at (k # ks) x = Some y" "D1 \<subseteq> D" "S1 \<subseteq> S" "c \<notin> D1"
    using n(2,7-9) e(1,3,4) i(1,3,4) by auto
  ultimately show ?case
    using i(2) by (intro exI [of _ y] exI [of _ D1] exI [of _ S1] conjI allI impI) auto
qed

end
