(* ===== verification/Var_Path.thy ===== *)
theory Var_Path
  imports Var_Focus
begin

text \<open>
  The path \<^verbatim>\<open>[k1][k2]...\<close> of an array element: what \<^verbatim>\<open>fetch_array_index\<close> makes of the tree of the variable, one index and
  all of them.
\<close>

lemma focus_evolves:
  assumes h: "hcell s c x D S" and p: "cell_at s c ks = Some d" and ok: "store_ok s"
  obtains y D1 S1 where "tree_at ks x = Some y" "hcell s d y D1 S1" "D1 \<subseteq> D" "S1 \<subseteq> S" "ks \<noteq> [] \<longrightarrow> c \<notin> D1"
    "\<And>s' y' D2 S2. evolves s D1 S1 s' D2 S2 \<Longrightarrow> hcell s' d y' D2 S2 \<Longrightarrow>
       \<exists>D' S'. hcell s' c (tree_put ks y' x) D' S' \<and> evolves s D S s' D' S' \<and> cell_at s' c ks = Some d"
proof -
  obtain y D1 S1 where f: "tree_at ks x = Some y" "hcell s d y D1 S1" "D1 \<subseteq> D" "S1 \<subseteq> S" "ks \<noteq> [] \<longrightarrow> c \<notin> D1"
      and w: "\<And>s' y' D2 S2. refits s (D - D1) (S - S1) s' d y' D2 S2 \<Longrightarrow>
       hcell s' c (tree_put ks y' x) ((D - D1) \<union> D2) ((S - S1) \<union> S2) \<and> cell_at s' c ks = Some d"
    using focus [OF h p] by blast
  have "\<exists>D' S'. hcell s' c (tree_put ks y' x) D' S' \<and> evolves s D S s' D' S' \<and> cell_at s' c ks = Some d"
    if e: "evolves s D1 S1 s' D2 S2" and h': "hcell s' d y' D2 S2" for s' y' D2 S2
  proof -
    have b: "D - D1 \<subseteq> {..<next_cell s}" "S - S1 \<subseteq> {..<next_tab s}" "(D - D1) \<inter> D1 = {}" "(S - S1) \<inter> S1 = {}"
      using hcell_footprint [OF h ok] by auto
    have "refits s (D - D1) (S - S1) s' d y' D2 S2"
      using evolves_frame [OF e b] evolves_apart [OF e b] h' by (auto simp: refits_def)
    note r = w [OF this]
    have "evolves s (D1 \<union> (D - D1)) (S1 \<union> (S - S1)) s' (D2 \<union> (D - D1)) (S2 \<union> (S - S1))"
      using e by (rule evolves_widen)
    moreover have "D1 \<union> (D - D1) = D" "S1 \<union> (S - S1) = S"
      using f(3,4) by auto
    ultimately show ?thesis
      using r by (metis Un_commute)
  qed
  with f show thesis
    by (rule that)
qed

subsection \<open>Opening an index\<close>

definition blank :: "vval \<Rightarrow> bool" where
  "blank v \<longleftrightarrow> v \<in> {V_NULL, V_STRING Empty_string, V_STRING Undefined_variable_string}"

text \<open>The key that an index stands for; an array or object is no index.\<close>

fun index_key :: "vval \<Rightarrow> hkey option" where
  "index_key (V_LONG n) = Some (IntKey n)"
| "index_key (V_DOUBLE d) = map_option IntKey (d_to_long d)"
| "index_key (V_STRING p) = Some (arr_key (bytes_of p))"
| "index_key _ = None"

fun tree_open :: "hkey \<Rightarrow> tree \<Rightarrow> tree option" where
  "tree_open k (Node Array_shape es n) =
     Some (if map_of es k = None then Node Array_shape (es @ [(k, Leaf V_NULL)]) (bump_next k n) else Node Array_shape es n)"
| "tree_open k (Leaf v) = (if blank v then Some (Node Array_shape [(k, Leaf V_NULL)] (bump_next k 0)) else None)"
| "tree_open k x = None"

fun tree_fetch :: "hkey list \<Rightarrow> tree \<Rightarrow> tree option" where
  "tree_fetch [] x = Some x"
| "tree_fetch (k # ks) x = do {
     x1 \<leftarrow> tree_open k x;
     y \<leftarrow> tree_at [k] x1;
     y' \<leftarrow> tree_fetch ks y;
     Some (tree_put [k] y' x1)
   }"

text \<open>The first key of the path that is missing, with the path to it.\<close>

fun tree_missing :: "hkey list \<Rightarrow> tree \<Rightarrow> (hkey list \<times> hkey) option" where
  "tree_missing [] x = None"
| "tree_missing (k # ks) (Node sh es n) =
     (case map_of es k of None \<Rightarrow> Some ([], k) | Some y \<Rightarrow> map_option (apfst (Cons k)) (tree_missing ks y))"
| "tree_missing (k # ks) (Leaf v) = Some ([], k)"

text \<open>The flag for writing and the list of the variables made for writing: the missing key when the flag is raised.\<close>

fun tracked_tab :: "tracker \<Rightarrow> tab" where
  "tracked_tab (Track_index h t) = t"
| "tracked_tab (Track_name n t) = t"

fun tracked_key :: "tracker \<Rightarrow> hkey" where
  "tracked_key (Track_index h t) = IntKey h"
| "tracked_key (Track_name n t) = arr_key n"

definition tracked :: "vstate \<Rightarrow> cell \<Rightarrow> hkey list \<times> hkey \<Rightarrow> tracker \<Rightarrow> bool" where
  "tracked s c m vt \<longleftrightarrow> tracked_key vt = snd m \<and>
     Option.bind (cell_at s c (fst m)) (\<lambda>d. Option.bind (cells s d) table_of) = Some (tracked_tab vt)"

definition noted :: "bool \<Rightarrow> vstate \<Rightarrow> cell \<Rightarrow> (hkey list \<times> hkey) option \<Rightarrow> bool \<Rightarrow> vstate \<Rightarrow> bool" where
  "noted w s c m w' s' \<longleftrightarrow>
     (if w \<or> m = None then w' = w \<and> unassigned s' = unassigned s
      else w' \<and> (\<exists>vt. unassigned s' = vt # unassigned s \<and> tracked s' c (the m) vt))"

lemma fetch_element_old:
  "tab_find t k s = Some (Some d) \<Longrightarrow> fetch_element dim False t k vt s = Some (dim\<lparr>vp_cell := Some d\<rparr>, s)"
  by (simp add: fetch_element_def)

lemma holds_null: "holds s V_NULL (Leaf V_NULL) {} {}"
  by (simp add: holds_leaf)

text \<open>A new element in a table that has no such key.\<close>

lemma added_element:
  assumes h: "holds_entries s (vt_entries b) es F T" and b: "tabs s t = Some b" "entry_of b k = None" and ok: "store_ok s"
    and t: "t \<notin> T" "t \<noteq> symbol_table s" "distinct (map fst (vt_entries b))"
    and c: "cells s c = Some (with_table sh t)" "c \<notin> F"
    and u: "tab_update t k V_NULL s = Some (d, s')"
  shows "hcell s' c (Node sh (es @ [(k, Leaf V_NULL)]) (bump_next k (vt_free b))) (insert c (F \<union> {d})) (insert t T)"
    "evolves s (insert c F) (insert t T) s' (insert c (F \<union> {d})) (insert t T)"
    "unassigned s' = unassigned s" "tab_find t k s' = Some (Some d)" "cells s' c = Some (with_table sh t)"
proof -
  let ?b = "with_key k (b\<lparr>vt_entries := vt_entries b @ [(k, next_cell s, False)]\<rparr>)"
  have d: "d = next_cell s" and s': "s' = s\<lparr>cells := (cells s)(next_cell s := Some V_NULL), next_cell := next_cell s + 1,
       tabs := (tabs s)(t := Some ?b)\<rparr>"
    using u unfolding tab_update_new [OF b] by blast+
  have "F \<subseteq> dom (cells s)"
    using owns_allocated(2) [OF holds_owns(2) [OF h]] by blast
  then have new: "next_cell s \<notin> F" "c \<noteq> next_cell s" "d \<notin> F"
    using ok c(1) d store_ok_cell by fastforce+
  have "holds_entries s' (vt_entries b) es F T"
    using h by (rule holds_frame(2)) (use new t in \<open>auto simp: s' same_on_def\<close>)
  then have "holds_entries s' (vt_entries b @ [(k, d, False)]) (es @ [(k, Leaf V_NULL)]) (F \<union> insert d {}) (T \<union> {})"
    by (rule holds_entries_snoc [OF _ _ holds_null]) (use new d in \<open>auto simp: s'\<close>)
  then have e: "holds_entries s' (vt_entries ?b) (es @ [(k, Leaf V_NULL)]) (F \<union> {d}) T"
    using d by simp
  show cs: "cells s' c = Some (with_table sh t)"
    using c new by (simp add: s')
  have tb: "tabs s' t = Some ?b" "t \<noteq> symbol_table s'" "distinct (map fst (vt_entries ?b))"
    using t b(2) by (auto simp: s' entry_of_def map_of_eq_None_iff)
  show "hcell s' c (Node sh (es @ [(k, Leaf V_NULL)]) (bump_next k (vt_free b))) (insert c (F \<union> {d})) (insert t T)"
    using hcell_nodeI [OF cs tb e t(1)] c(2) new d by (simp add: with_key_def)
  have "t < next_tab s"
    using ok b(1) by (rule store_ok_tab)
  then show "evolves s (insert c F) (insert t T) s' (insert c (F \<union> {d})) (insert t T)"
    using ok b(1) by (auto simp: evolves_def nothing_lost_def s' d store_ok_def)
  show "unassigned s' = unassigned s"
    by (simp add: s')
  show "tab_find t k s' = Some (Some d)"
    using b(2) tb(1) d by (simp add: tab_find_def entry_of_def map_add_def)
qed

lemma fetch_index_key: "index_key e = Some k \<Longrightarrow>
    \<exists>vt. tracked_tab vt = t \<and> tracked_key vt = k \<and> fetch_index dim nw t (Some e) s = fetch_element dim nw t k vt s"
  by (cases e; fastforce simp: fetch_index_def intro: exI [of _ "Track_index h t" for h] exI [of _ "Track_name n t" for n])

lemma with_array [simp]: "with_table sh t = V_ARRAY u \<longleftrightarrow> sh = Array_shape \<and> t = u"
  by (cases sh) auto

text \<open>The element of a table, old or new.\<close>

lemma fetch_element_step:
  assumes h: "holds_entries s (vt_entries b) es F T" and b: "tabs s t = Some b" and ok: "store_ok s"
    and t: "t \<notin> T" "t \<noteq> symbol_table s" "distinct (map fst (vt_entries b))"
    and c: "cells s c = Some (with_table sh t)" "c \<notin> F" and tof: "table_of (with_table sh t) = Some t"
    and nw: "nw \<Longrightarrow> vt_entries b = []"
  shows "\<exists>dim' s' d F'. fetch_element dim nw t k vt s = Some (dim', s') \<and> vp_cell dim' = Some d \<and> vp_offset dim' = vp_offset dim \<and>
    hcell s' c (if map_of es k = None then Node sh (es @ [(k, Leaf V_NULL)]) (bump_next k (vt_free b)) else Node sh es (vt_free b))
      (insert c F') (insert t T) \<and>
    evolves s (insert c F) (insert t T) s' (insert c F') (insert t T) \<and> cell_at s' c [k] = Some d \<and>
    cells s' c = Some (with_table sh t) \<and>
    (if vp_write dim \<or> map_of es k \<noteq> None then vp_write dim' = vp_write dim \<and> unassigned s' = unassigned s
     else vp_write dim' \<and> unassigned s' = vt # unassigned s)"
proof -
  have keys: "map_of es k = None \<longleftrightarrow> entry_of b k = None"
    using reads_keys [OF holds_reads(2) [OF h]] unfolding entry_of_def by (metis map_of_eq_None_iff set_map)
  show ?thesis
  proof (cases "entry_of b k")
    case None
    obtain d s1 where u: "tab_update t k V_NULL s = Some (d, s1)"
      using tab_update_new [OF b None] by blast
    note a = added_element [OF h b None ok t c u]
    have un: "tab_find t k s = Some None"
      using b None by (simp add: tab_find_def)
    let ?s = "if vp_write dim then s1 else track vt s1"
    have tr: "cells ?s = cells s1" "tabs ?s = tabs s1" "next_cell ?s = next_cell s1" "next_tab ?s = next_tab s1"
        "symbol_table ?s = symbol_table s1" "active ?s = active s1"
      by (simp_all add: track_def)
    have so: "same_on UNIV UNIV s1 ?s"
      by (simp add: same_on_def tr)
    have "fetch_element dim nw t k vt s = Some (dim\<lparr>vp_cell := Some d, vp_write := True\<rparr>, ?s)"
      using un u by (auto simp: fetch_element_def)
    moreover have "hcell ?s c (Node sh (es @ [(k, Leaf V_NULL)]) (bump_next k (vt_free b))) (insert c (F \<union> {d})) (insert t T)"
      using a(1) by (rule hcell_frame) (rule same_on_mono [OF so], simp_all)
    moreover have "evolves s (insert c F) (insert t T) ?s (insert c (F \<union> {d})) (insert t T)"
      using a(2) unfolding evolves_def store_ok_def nothing_lost_def tr .
    moreover have "cell_at ?s c [k] = Some d"
      using a(4,5) tof by (auto simp: tr tab_find_def split: option.splits)
    moreover have "unassigned ?s = (if vp_write dim then unassigned s else vt # unassigned s)" "cells ?s c = Some (with_table sh t)"
      using a(3,5) by (simp_all add: track_def)
    ultimately show ?thesis
      using None keys a(3) by (intro exI [of _ "dim\<lparr>vp_cell := Some d, vp_write := True\<rparr>"] exI [of _ ?s] exI [of _ d] exI [of _ "F \<union> {d}"])
        (simp add: track_def)
  next
    case (Some e)
    then have "\<not> nw"
      using nw by (auto simp: entry_of_def)
    with Some b have "fetch_element dim nw t k vt s = Some (dim\<lparr>vp_cell := Some (fst e)\<rparr>, s)"
      by (simp add: fetch_element_def tab_find_def)
    moreover have "cell_at s c [k] = Some (fst e)"
      using c(1) b Some tof by simp
    moreover have "hcell s c (Node sh es (vt_free b)) (insert c F) (insert t T)"
      by (rule hcell_nodeI [OF c(1) b t(2,3) h t(1) c(2)])
    moreover obtain x where "map_of es k = Some x"
      using Some keys by (cases "map_of es k") auto
    ultimately show ?thesis
      using evolves_refl [OF ok] c(1)
      by (intro exI [of _ "dim\<lparr>vp_cell := Some (fst e)\<rparr>"] exI [of _ s] exI [of _ "fst e"] exI [of _ F]) simp
  qed
qed

text \<open>A blank variable becomes an empty array.\<close>

lemma blank_to_array:
  assumes h: "hcell s c (Leaf v) D S" and ok: "store_ok s"
  obtains s1 s2 where "new_table s = (next_tab s, s1)" "set_cell c (V_ARRAY (next_tab s)) s1 = Some s2" "store_ok s2"
    "cells s2 c = Some (V_ARRAY (next_tab s))" "tabs s2 (next_tab s) = Some \<lparr>vt_entries = [], vt_free = 0\<rparr>"
    "next_tab s \<noteq> symbol_table s2" "evolves s D S s2 {c} {next_tab s}" "unassigned s2 = unassigned s"
proof -
  let ?s1 = "s\<lparr>tabs := (tabs s)(next_tab s := Some \<lparr>vt_entries = [], vt_free = 0\<rparr>), next_tab := next_tab s + 1\<rparr>"
  let ?s2 = "?s1\<lparr>cells := (cells s)(c := Some (V_ARRAY (next_tab s)))\<rparr>"
  obtain u where c: "cells s c = Some u" "D = {c}" "S = {}"
    using h by (auto simp: hcell_def elim!: holds_leafE)
  have st: "new_table s = (next_tab s, ?s1)" "set_cell c (V_ARRAY (next_tab s)) ?s1 = Some ?s2"
    using c by (simp_all add: new_table_def set_cell_def)
  have ok2: "store_ok ?s2"
    using ok c store_ok_cell [OF ok c(1)] by (auto simp: store_ok_def)
  moreover have "evolves s D S ?s2 {c} {next_tab s}"
    using c ok2 by (auto simp: evolves_def nothing_lost_def)
  ultimately show thesis
    using that [OF st] store_ok_symbol_table [OF ok] by auto
qed

lemma index_key_leaf: "index_key e = Some k \<Longrightarrow> is_leaf e"
  by (cases e) auto

lemma fetch_array_index_array:
  "vp_cell dim = Some c \<Longrightarrow> cells s c = Some (V_ARRAY t) \<Longrightarrow> fetch_array_index (Some e) dim s = fetch_index dim False t (Some e) s"
  by (simp add: fetch_array_index_def)

lemma fetch_array_index_blank:
  assumes "vp_cell dim = Some c" "cells s c = Some v" "blank v" "new_table s = (t, s1)" "set_cell c (V_ARRAY t) s1 = Some s2"
  shows "fetch_array_index (Some e) dim s = fetch_index dim True t (Some e) s2"
  using assms by (auto simp: fetch_array_index_def blank_def)

text \<open>The part of a state after one or more indices.\<close>

definition fetched :: "varptr \<Rightarrow> vstate \<Rightarrow> cell \<Rightarrow> cell set \<Rightarrow> tab set \<Rightarrow> tree \<Rightarrow> hkey list \<Rightarrow>
    (hkey list \<times> hkey) option \<Rightarrow> varptr \<Rightarrow> vstate \<Rightarrow> cell set \<Rightarrow> tab set \<Rightarrow> bool" where
  "fetched dim s c D S x ks m dim' s' D' S' \<longleftrightarrow> vp_offset dim' = vp_offset dim \<and> hcell s' c x D' S' \<and> evolves s D S s' D' S' \<and>
     vp_cell dim' = cell_at s' c ks \<and> vp_cell dim' \<noteq> None \<and> noted (vp_write dim) s c m (vp_write dim') s'"

lemma fetch_step:
  assumes h: "hcell s c x D S" and ok: "store_ok s" and e: "index_key e = Some k" and dim: "vp_cell dim = Some c"
    and x1: "tree_open k x = Some x1"
  shows "\<exists>dim' s' D' S'. fetch_array_index (Some e) dim s = Some (dim', s') \<and> fetched dim s c D S x1 [k] (tree_missing [k] x) dim' s' D' S'"
proof (cases x)
  case (Leaf v)
  then have v: "blank v" "x1 = Node Array_shape [(k, Leaf V_NULL)] (bump_next k 0)"
    using x1 by (auto split: if_splits)
  obtain u where u: "cells s c = Some u" "u = v"
    using h Leaf by (auto simp: hcell_def elim: holds_leafE)
  obtain s1 s2 where st: "new_table s = (next_tab s, s1)" "set_cell c (V_ARRAY (next_tab s)) s1 = Some s2" "store_ok s2"
    "cells s2 c = Some (V_ARRAY (next_tab s))" "tabs s2 (next_tab s) = Some \<lparr>vt_entries = [], vt_free = 0\<rparr>"
    "next_tab s \<noteq> symbol_table s2" "evolves s D S s2 {c} {next_tab s}" "unassigned s2 = unassigned s"
    by (rule blank_to_array [OF h [unfolded Leaf] ok])
  obtain vt where vt: "tracked_tab vt = next_tab s" "tracked_key vt = k"
      and fe: "fetch_array_index (Some e) dim s = fetch_element dim True (next_tab s) k vt s2"
    using fetch_array_index_blank [OF dim u(1) _ st(1,2)] fetch_index_key [OF e] u(2) v(1) by metis
  obtain dim' s' d F' where f: "fetch_element dim True (next_tab s) k vt s2 = Some (dim', s')" "vp_cell dim' = Some d"
      "vp_offset dim' = vp_offset dim" "hcell s' c x1 (insert c F') {next_tab s}"
      "evolves s2 {c} {next_tab s} s' (insert c F') {next_tab s}" "cell_at s' c [k] = Some d"
      "cells s' c = Some (V_ARRAY (next_tab s))"
      "if vp_write dim then vp_write dim' = vp_write dim \<and> unassigned s' = unassigned s2 else vp_write dim' \<and> unassigned s' = vt # unassigned s2"
    using fetch_element_step [of s2 "\<lparr>vt_entries = [], vt_free = 0\<rparr>" "[]" "{}" "{}" "next_tab s" c Array_shape True dim k vt]
      st v(2) by (auto simp: holds_nil)
  have "fetched dim s c D S x1 [k] (tree_missing [k] x) dim' s' (insert c F') {next_tab s}"
    unfolding fetched_def using f evolves_trans [OF st(7) f(5)] st(8) Leaf vt
    by (auto simp: noted_def tracked_def split: if_splits)
  with fe f(1) show ?thesis
    by auto
next
  case (Node sh es n)
  then have sh: "sh = Array_shape"
    using x1 by (cases sh) auto
  obtain t b F T where t: "cells s c = Some (V_ARRAY t)" "tabs s t = Some b" "t \<noteq> symbol_table s" "distinct (map fst (vt_entries b))"
      "holds_entries s (vt_entries b) es F T" "t \<notin> T" "D = insert c F" "c \<notin> F" "S = insert t T" "n = vt_free b"
    using h unfolding hcell_def Node sh by (auto elim!: holds_nodeE)
  obtain vt where vt: "tracked_tab vt = t" "tracked_key vt = k"
      and fe: "fetch_array_index (Some e) dim s = fetch_element dim False t k vt s"
    using fetch_array_index_array [OF dim t(1)] fetch_index_key [OF e] by metis
  have x1': "x1 = (if map_of es k = None then Node Array_shape (es @ [(k, Leaf V_NULL)]) (bump_next k (vt_free b)) else Node Array_shape es (vt_free b))"
    using x1 Node sh t(10) by auto
  have "\<exists>dim' s' d F'. fetch_element dim False t k vt s = Some (dim', s') \<and> vp_cell dim' = Some d \<and> vp_offset dim' = vp_offset dim \<and>
    hcell s' c x1 (insert c F') (insert t T) \<and> evolves s (insert c F) (insert t T) s' (insert c F') (insert t T) \<and>
    cell_at s' c [k] = Some d \<and> cells s' c = Some (with_table Array_shape t) \<and>
    (if vp_write dim \<or> map_of es k \<noteq> None then vp_write dim' = vp_write dim \<and> unassigned s' = unassigned s
     else vp_write dim' \<and> unassigned s' = vt # unassigned s)"
    unfolding x1' by (rule fetch_element_step [OF t(5,2) ok t(6,3,4)]) (use t(1,8) in simp_all)
  then obtain dim' s' d F' where f: "fetch_element dim False t k vt s = Some (dim', s')" "vp_cell dim' = Some d"
      "vp_offset dim' = vp_offset dim" "hcell s' c x1 (insert c F') (insert t T)"
      "evolves s (insert c F) (insert t T) s' (insert c F') (insert t T)" "cell_at s' c [k] = Some d"
      "cells s' c = Some (with_table Array_shape t)"
      "if vp_write dim \<or> map_of es k \<noteq> None then vp_write dim' = vp_write dim \<and> unassigned s' = unassigned s
       else vp_write dim' \<and> unassigned s' = vt # unassigned s"
    by blast
  have "noted (vp_write dim) s c (tree_missing [k] x) (vp_write dim') s'"
    using f(7,8) vt Node by (cases "map_of es k") (auto simp: noted_def tracked_def split: if_splits)
  with f have "fetched dim s c D S x1 [k] (tree_missing [k] x) dim' s' (insert c F') (insert t T)"
    unfolding fetched_def t(7,9) by simp
  with fe f(1) show ?thesis
    by auto
qed

lemma cell_at_append: "cell_at s c (ks @ ls) = Option.bind (cell_at s c ks) (\<lambda>d. cell_at s d ls)"
  by (induction ks arbitrary: c) (auto split: bind_splits)

lemma noted_step:
  assumes 1: "noted w s c (tree_missing [k] x) w1 s1" and 2: "noted w1 s1 d (tree_missing ks y) w2 s2"
    and x1: "tree_open k x = Some x1" "tree_at [k] x1 = Some y" and c: "cells s2 c = cells s1 c" and d: "cell_at s2 c [k] = Some d"
  shows "noted w s c (tree_missing (k # ks) x) w2 s2"
proof (cases "tree_missing [k] x")
  case None
  then obtain sh es n where n: "x = Node sh es n" "map_of es k = Some y"
    using x1 by (cases x; cases "case x of Node sh es n \<Rightarrow> sh | _ \<Rightarrow> Array_shape") (auto split: option.splits bind_splits)
  have up: "tracked s2 d m vt \<Longrightarrow> tracked s2 c (k # fst m, snd m) vt" for m vt
    unfolding tracked_def using cell_at_append [of s2 c "[k]" "fst m"] d
    by (metis append_Cons append_Nil bind.bind_lunit fst_conv snd_conv)
  show ?thesis
    using 1 2 None n up unfolding noted_def by (auto simp: apfst_def map_prod_def split: if_splits prod.splits)
next
  case (Some m)
  then have m: "m = ([], k)" "tree_missing (k # ks) x = Some ([], k)"
    by (cases x; auto split: option.splits)+
  show ?thesis
    using 1 2 Some m c unfolding noted_def tracked_def by (auto split: if_splits)
qed

lemma fetch_path:
  "hcell s c x D S \<Longrightarrow> store_ok s \<Longrightarrow> list_all2 (\<lambda>e k. index_key e = Some k) es ks \<Longrightarrow> vp_cell dim = Some c \<Longrightarrow>
    tree_fetch ks x = Some x' \<Longrightarrow>
    \<exists>dim' s' D' S'. fetch_dimensions (map Some es) dim s = Some (dim', s') \<and> fetched dim s c D S x' ks (tree_missing ks x) dim' s' D' S'"
proof (induction ks arbitrary: es s c x D S dim x')
  case Nil
  then have "fetched dim s c D S x' [] (tree_missing [] x) dim s D S"
    by (simp add: fetched_def evolves_refl noted_def)
  with Nil show ?case
    by auto
next
  case (Cons k ks)
  obtain e es' where es: "es = e # es'" "index_key e = Some k" "list_all2 (\<lambda>e k. index_key e = Some k) es' ks"
    using Cons.prems(3) by (auto simp: list_all2_Cons2)
  obtain x1 y y' where x1: "tree_open k x = Some x1" and y: "tree_at [k] x1 = Some y" and y': "tree_fetch ks y = Some y'"
      and x': "x' = tree_put [k] y' x1"
    using Cons.prems(5) by (auto split: bind_splits)
  obtain dim1 s1 D1 S1 where f1: "fetch_array_index (Some e) dim s = Some (dim1, s1)" and i1: "fetched dim s c D S x1 [k] (tree_missing [k] x) dim1 s1 D1 S1"
    using fetch_step [OF Cons.prems(1,2) es(2) Cons.prems(4) x1] by blast
  have h1: "hcell s1 c x1 D1 S1" and e1: "evolves s D S s1 D1 S1"
    using i1 by (auto simp: fetched_def)
  obtain d where d: "vp_cell dim1 = Some d" "cell_at s1 c [k] = Some d"
    using i1 unfolding fetched_def by (metis not_None_eq)
  have ok1: "store_ok s1"
    using e1 by (simp add: evolves_def)
  obtain z D2 S2 where z: "tree_at [k] x1 = Some z" "hcell s1 d z D2 S2" "c \<notin> D2"
      and w: "\<And>s' y' D3 S3. evolves s1 D2 S2 s' D3 S3 \<Longrightarrow> hcell s' d y' D3 S3 \<Longrightarrow>
         \<exists>D' S'. hcell s' c (tree_put [k] y' x1) D' S' \<and> evolves s1 D1 S1 s' D' S' \<and> cell_at s' c [k] = Some d"
    by (rule focus_evolves [OF h1 d(2) ok1]) blast
  have "z = y"
    using z(1) y by simp
  then obtain dim2 s2 D3 S3 where f2: "fetch_dimensions (map Some es') dim1 s1 = Some (dim2, s2)"
      and i2: "fetched dim1 s1 d D2 S2 y' ks (tree_missing ks y) dim2 s2 D3 S3"
    using Cons.IH [OF z(2) ok1 es(3) d(1)] y' by blast
  obtain D' S' where "hcell s2 c x' D' S'" "evolves s1 D1 S1 s2 D' S'" "cell_at s2 c [k] = Some d"
    using w [of s2 D3 S3 y'] i2 x' unfolding fetched_def by blast
  moreover have "cell_at s2 c (k # ks) = cell_at s2 d ks" if "cell_at s2 c [k] = Some d"
    using cell_at_append [of s2 c "[k]" ks] unfolding that append.simps bind.bind_lunit by simp
  moreover have "noted (vp_write dim) s c (tree_missing (k # ks) x) (vp_write dim2) s2" if dk: "cell_at s2 c [k] = Some d"
  proof (rule noted_step)
    show "noted (vp_write dim) s c (tree_missing [k] x) (vp_write dim1) s1"
      "noted (vp_write dim1) s1 d (tree_missing ks y) (vp_write dim2) s2"
      using i1 i2 by (auto simp: fetched_def)
    have "c < next_cell s1"
      using hcell_footprint(1,4) [OF h1 ok1] by auto
    then show "cells s2 c = cells s1 c"
      using i2 z(3) by (auto simp: fetched_def evolves_def)
  qed (use x1 y dk in simp_all)
  ultimately have "fetched dim s c D S x' (k # ks) (tree_missing (k # ks) x) dim2 s2 D' S'"
    using i1 i2 evolves_trans [OF e1] unfolding fetched_def by metis
  with f1 f2 es(1) show ?case
    by auto
qed

end
