(* ===== verification/Var_Assign.thy ===== *)
theory Var_Assign
  imports Var_Path
begin

text \<open>Assignments to variables and to elements of arrays at any depth, on the trees of the variables.\<close>

subsection \<open>The value that is assigned\<close>

definition reserved :: "vstate \<Rightarrow> vval \<Rightarrow> tree \<Rightarrow> cell set \<Rightarrow> tab set \<Rightarrow> cell set \<Rightarrow> tab set \<Rightarrow> bool" where
  "reserved s e z De Se D S \<longleftrightarrow> holds s e z De Se \<and> De \<inter> D = {} \<and> Se \<inter> S = {}"

lemma holds_footprint:
  assumes "holds s v x D S" "store_ok s"
  shows "D \<subseteq> {..<next_cell s}" "S \<subseteq> {..<next_tab s}" "symbol_table s \<notin> S"
  using owns_allocated(1) [OF holds_owns(1) [OF assms(1)]] assms(2) by (auto dest: store_ok_cell store_ok_tab)

lemma reserved_evolves:
  assumes "reserved s e z De Se D S" "evolves s D S s' D' S'" "store_ok s"
  shows "reserved s' e z De Se D' S'"
proof -
  have h: "holds s e z De Se" and dj: "De \<inter> D = {}" "Se \<inter> S = {}"
    using assms(1) by (simp_all add: reserved_def)
  note b = holds_footprint(1,2) [OF h assms(3)] dj
  show ?thesis
    using holds_frame(1) [OF h evolves_frame [OF assms(2) b]] evolves_apart [OF assms(2) b] by (simp add: reserved_def)
qed

lemma cell_at_frame:
  assumes "hcell s c x D S" "cell_at s c ks = Some d" "same_on D S s s'"
  shows "cell_at s' c ks = Some d"
proof -
  obtain y D1 S1 where f: "hcell s d y D1 S1" "D1 \<subseteq> D" "S1 \<subseteq> S"
      and w: "\<And>s' y' D2 S2. refits s (D - D1) (S - S1) s' d y' D2 S2 \<Longrightarrow> cell_at s' c ks = Some d"
    using focus [OF assms(1,2)] by blast
  have "refits s (D - D1) (S - S1) s' d y D1 S1"
    using hcell_frame [OF f(1) same_on_mono [OF assms(3) f(2,3)]] same_on_mono [OF assms(3)] by (auto simp: refits_def)
  then show ?thesis
    by (rule w)
qed

lemma evolves_unassigned [simp]:
  "evolves s D S (s'\<lparr>unassigned := u\<rparr>) D' S' = evolves s D S s' D' S'"
  "evolves (s\<lparr>unassigned := u\<rparr>) D S s' D' S' = evolves s D S s' D' S'"
  by (simp_all add: evolves_def store_ok_def)

lemma hcell_unassigned: "hcell s c x D S \<Longrightarrow> hcell (s\<lparr>unassigned := u\<rparr>) c x D S"
  by (erule hcell_frame) (simp add: same_on_def)

lemma cell_at_unassigned: "cell_at (s\<lparr>unassigned := u\<rparr>) c ks = cell_at s c ks"
  by (induction ks arbitrary: c) (simp_all cong: Option.bind_cong)

lemma reserved_unassigned: "reserved s e z De Se D S \<Longrightarrow> reserved (s\<lparr>unassigned := u\<rparr>) e z De Se D S"
  unfolding reserved_def by (auto intro: holds_frame(1) simp: same_on_def)

lemma clean_if_keep: "clean_if w False s = Some (s\<lparr>unassigned := (if w then tl (unassigned s) else unassigned s)\<rparr>)"
  by (auto simp: clean_if_def clean_unassigned_variable_top_def split: list.splits)

subsection \<open>Replacing a value\<close>

text \<open>The old value of a cell is destroyed and the new one put in.\<close>

lemma replace_at:
  assumes h: "hcell s c x D S" and p: "cell_at s c ks = Some d" and ok: "store_ok s" and e: "reserved s e z De Se D S"
  shows "\<exists>old s1 s2 D' S'. cells s d = Some old \<and> pval_destructor old s = Some s1 \<and> set_cell d e s1 = Some s2 \<and>
    hcell s2 c (tree_put ks z x) D' S' \<and> cell_at s2 c ks = Some d \<and> De \<subseteq> D' \<and> Se \<subseteq> S' \<and> holds s2 e z De Se \<and>
    evolves s (D \<union> De) (S \<union> Se) s2 D' S' \<and> unassigned s2 = unassigned s"
proof -
  obtain y D1 S1 where f: "hcell s d y D1 S1" "D1 \<subseteq> D" "S1 \<subseteq> S"
      and w: "\<And>s' y' D2 S2. refits s (D - D1) (S - S1) s' d y' D2 S2 \<Longrightarrow>
        hcell s' c (tree_put ks y' x) ((D - D1) \<union> D2) ((S - S1) \<union> S2) \<and> cell_at s' c ks = Some d"
    using focus [OF h p] by blast
  obtain old F where o: "cells s d = Some old" "holds s old y F S1" "d \<notin> F" "D1 = insert d F"
    using f(1) unfolding hcell_def by blast
  let ?s1 = "forget F S1 s"
  let ?s2 = "?s1\<lparr>cells := (cells ?s1)(d := Some e)\<rparr>"
  have s1: "pval_destructor old s = Some ?s1"
    by (rule destructor_owned [OF holds_owns(1) [OF o(2)]])
  have s2: "set_cell d e ?s1 = Some ?s2"
    using o by (simp add: set_cell_def)
  have he: "holds s e z De Se" and dj: "De \<inter> D = {}" "Se \<inter> S = {}"
    using e by (auto simp: reserved_def)
  have he2: "holds ?s2 e z De Se"
    using he by (rule holds_frame(1)) (use dj f o in \<open>auto simp: same_on_def\<close>)
  have d: "d \<in> D"
    using f(2) o(4) by auto
  have "refits s (D - D1) (S - S1) ?s2 d z (insert d De) Se"
    unfolding refits_def hcell_def using he2 dj d o by (auto simp: same_on_def)
  note r = w [OF this]
  have ok2: "store_ok ?s2"
    using ok store_ok_cell [OF ok o(1)] hcell_footprint(3) [OF f(1) ok] by (auto simp: store_ok_def)
  have "evolves s (D \<union> De) (S \<union> Se) ?s2 ((D - D1) \<union> insert d De) ((S - S1) \<union> Se)"
  proof -
    have "nothing_lost s (D \<union> De) (S \<union> Se) ?s2 ((D - D1) \<union> insert d De) ((S - S1) \<union> Se)"
      using f(2,3) o(4) unfolding nothing_lost_def by (auto split: if_splits)
    with ok2 d f o show ?thesis
      unfolding evolves_def by (auto simp: subset_iff)
  qed
  with r s1 s2 o(1) he2 show ?thesis
    by (intro exI conjI) (assumption | simp | blast)+
qed

lemma assign_at:
  assumes h: "hcell s c x D S" and p: "cell_at s c ks = Some d" and ok: "store_ok s" and e: "reserved s e z De Se D S"
    and vp: "vp_cell vp = Some d" "vp_offset vp = -1"
  shows "\<exists>r s' D' S' Dr Sr. assign_to_variable prec vp e None s = Some (r, SUCCESS, s') \<and>
    hcell s' c (tree_put ks z x) D' S' \<and> cell_at s' c ks = Some d \<and> reserved s' r (copied z) Dr Sr D' S' \<and>
    evolves s (D \<union> De) (S \<union> Se) s' (D' \<union> Dr) (S' \<union> Sr) \<and>
    unassigned s' = (if vp_write vp then tl (unassigned s) else unassigned s)"
proof -
  let ?u = "if vp_write vp then tl (unassigned s) else unassigned s"
  let ?s0 = "s\<lparr>unassigned := ?u\<rparr>"
  obtain old s1 s2 D' S' where a: "cells ?s0 d = Some old" "pval_destructor old ?s0 = Some s1" "set_cell d e s1 = Some s2"
      "hcell s2 c (tree_put ks z x) D' S'" "cell_at s2 c ks = Some d" "De \<subseteq> D'" "Se \<subseteq> S'" "holds s2 e z De Se"
      "evolves ?s0 (D \<union> De) (S \<union> Se) s2 D' S'" "unassigned s2 = ?u"
    using replace_at [OF hcell_unassigned [OF h] _ _ reserved_unassigned [OF e], of ?u ks d] p ok
    by (auto simp: cell_at_unassigned store_ok_def)
  have ok2: "store_ok s2"
    using a(9) by (simp add: evolves_def)
  obtain r s3 where r: "pval_copy_constructor e s2 = Some (r, SUCCESS, s3)" and fc: "fresh_copy s2 r (copied z) s3"
    using copy_fresh [OF holds_reads(1) [OF a(8)] ok2] by blast
  have ext: "extends s2 s3" and hr: "holds s3 r (copied z) {next_cell s2..<next_cell s3} {next_tab s2..<next_tab s3}"
    using fc by (auto simp: fresh_copy_def)
  note fp = hcell_footprint(1,2) [OF a(4) ok2]
  have "hcell s3 c (tree_put ks z x) D' S'"
    by (rule hcell_frame [OF a(4) extends_same_on [OF ext fp]])
  moreover have "cell_at s3 c ks = Some d"
    by (rule cell_at_frame [OF a(4,5) extends_same_on [OF ext fp]])
  moreover have "reserved s3 r (copied z) {next_cell s2..<next_cell s3} {next_tab s2..<next_tab s3} D' S'"
    using hr fp by (auto simp: reserved_def)
  moreover have "evolves s2 D' S' s3 (D' \<union> {next_cell s2..<next_cell s3}) (S' \<union> {next_tab s2..<next_tab s3})"
    using evolves_widen [OF evolves_fresh [OF fc], of D' S'] by (simp add: Un_commute)
  then have "evolves s (D \<union> De) (S \<union> Se) s3 (D' \<union> {next_cell s2..<next_cell s3}) (S' \<union> {next_tab s2..<next_tab s3})"
    using a(9) by (auto intro: evolves_trans)
  moreover have "assign_to_variable prec vp e None s = Some (r, SUCCESS, s3)"
    using vp a(1-3) r by (simp add: assign_to_variable_def clean_if_keep)
  moreover have "unassigned s3 = ?u"
    using ext a(10) by (simp add: extends_def)
  ultimately show ?thesis
    by blast
qed

subsection \<open>The abstract assignment\<close>

text \<open>The element under a path becomes \<open>z\<close>; arrays are made where the path is missing or blank.\<close>

fun tree_assign :: "hkey list \<Rightarrow> tree \<Rightarrow> tree \<Rightarrow> tree option" where
  "tree_assign [] z x = Some z"
| "tree_assign (k # ks) z (Node Array_shape es n) =
     map_option (\<lambda>y. Node Array_shape (AList.update k y es) (if map_of es k = None then bump_next k n else n))
       (tree_assign ks z (case map_of es k of Some y \<Rightarrow> y | None \<Rightarrow> Leaf V_NULL))"
| "tree_assign (k # ks) z (Leaf v) =
     (if blank v then map_option (\<lambda>y. Node Array_shape [(k, y)] (bump_next k 0)) (tree_assign ks z (Leaf V_NULL)) else None)"
| "tree_assign (k # ks) z x = None"

lemma AList_update_new: "map_of es k = None \<Longrightarrow> AList.update k y es = es @ [(k, y)]"
  by (induction es) (auto split: if_splits)

lemma AList_update_snoc: "map_of es k = None \<Longrightarrow> AList.update k y (es @ [(k, z)]) = es @ [(k, y)]"
  by (induction es) (auto split: if_splits)

lemma AList_update_twice: "AList.update k y (AList.update k z es) = AList.update k y es"
  by (induction es) auto

lemma map_of_snoc_new: "map_of es k = None \<Longrightarrow> map_of (es @ [(k, y)]) k = Some y"
  by (simp add: map_add_def)

lemma tree_assign_fetch: "tree_assign ks z x = map_option (tree_put ks z) (tree_fetch ks x)"
proof (induction ks arbitrary: x)
  case (Cons k ks)
  show ?case
  proof (cases x)
    case (Leaf v)
    then show ?thesis
      using Cons by (auto split: bind_splits)
  next
    case (Node sh es n)
    show ?thesis
    proof (cases "sh = Array_shape")
      case True
      then show ?thesis
        using Cons Node
        by (cases "map_of es k")
          (auto simp: map_add_def AList_update_snoc AList_update_new AList_update_twice update_conv' split: bind_splits)
    next
      case False
      then show ?thesis
        using Node by (cases sh) auto
    qed
  qed
qed simp

lemma tree_fetch_at: "tree_fetch ks x = Some x' \<Longrightarrow> \<exists>y. tree_at ks x' = Some y"
proof (induction ks arbitrary: x x')
  case (Cons k ks)
  obtain x1 y y' where x1: "tree_open k x = Some x1" "tree_at [k] x1 = Some y" "tree_fetch ks y = Some y'" "x' = tree_put [k] y' x1"
    using Cons.prems by (auto split: bind_splits)
  then show ?case
    using Cons.IH [of y y'] by (cases x1) (auto simp: update_conv' split: bind_splits)
qed simp

lemma tree_put_twice: "tree_at ks x = Some y \<Longrightarrow> tree_put ks z (tree_put ks y' x) = tree_put ks z x"
proof (induction ks arbitrary: x)
  case (Cons k ks)
  then show ?case
    by (cases x) (auto simp: AList_update_twice update_conv' split: bind_splits)
qed simp

lemma AList_update_same: "map_of es k = Some y \<Longrightarrow> AList.update k y es = es"
  by (induction es) (auto split: if_splits)

lemma tree_put_same: "tree_at ks x = Some y \<Longrightarrow> tree_put ks y x = x"
proof (induction ks arbitrary: x)
  case (Cons k ks)
  then show ?case
    by (cases x) (auto simp: AList_update_same split: bind_splits)
qed simp

subsection \<open>The assignment to an element\<close>

lemma focus_tree: "hcell s c x D S \<Longrightarrow> cell_at s c ks = Some d \<Longrightarrow> \<exists>y F T. tree_at ks x = Some y \<and> hcell s d y F T"
  using focus by blast

text \<open>\<^verbatim>\<open>end_array_parsing\<close> gives a new element the empty string.\<close>

definition un_null :: "tree \<Rightarrow> tree" where
  "un_null x = (if x = Leaf V_NULL then Leaf v_reset else x)"

text \<open>A cell without a table is on no path that goes on, so the table behind a path stays when such a cell is set.\<close>

lemma path_table_set:
  assumes "Option.bind (cells s d) table_of = None" "table_of v = None"
  shows "Option.bind (cell_at (s\<lparr>cells := (cells s)(d := Some v)\<rparr>) c pre) (\<lambda>e. Option.bind (((cells s)(d := Some v)) e) table_of) =
    Option.bind (cell_at s c pre) (\<lambda>e. Option.bind (cells s e) table_of)"
proof (induction pre arbitrary: c)
  case Nil
  then show ?case
    using assms by simp
next
  case (Cons k pre)
  show ?case
  proof (cases "c = d")
    case True
    then show ?thesis
      using assms by (cases "cells s d") auto
  next
    case False
    then show ?thesis
      using Cons by (auto split: bind_splits simp: Option.bind_assoc cong: Option.bind_cong)
  qed
qed

lemma end_array_parsing_at:
  assumes h: "hcell s c x D S" and p: "cell_at s c ks = Some d" and ok: "store_ok s" and dim: "vp_cell dim = Some d"
    and y: "tree_at ks x = Some y"
  shows "\<exists>s' D' S'. end_array_parsing dim s = Some (dim, s') \<and> hcell s' c (tree_put ks (un_null y) x) D' S' \<and>
    cell_at s' c ks = Some d \<and> evolves s D S s' D' S' \<and> unassigned s' = unassigned s \<and>
    (\<forall>m vt. tracked s c m vt \<longrightarrow> tracked s' c m vt)"
proof -
  obtain F T where hy: "hcell s d y F T"
    using focus_tree [OF h p] y by auto
  then obtain v F' where v: "cells s d = Some v" "holds s v y F' T"
    by (auto simp: hcell_def)
  have vy: "v = V_NULL \<longleftrightarrow> y = Leaf V_NULL"
    using v(2) by (auto simp: holds_scalar elim: holds_leafE)
  show ?thesis
  proof (cases "v = V_NULL")
    case True
    have "reserved s v_reset (Leaf v_reset) {} {} D S"
      by (simp add: reserved_def holds_leaf v_reset_def)
    then obtain s2 D' S' where s2: "set_cell d v_reset s = Some s2" "hcell s2 c (tree_put ks (Leaf v_reset) x) D' S'"
        "cell_at s2 c ks = Some d" "evolves s D S s2 D' S'" "unassigned s2 = unassigned s"
      using replace_at [OF h p ok] v True by fastforce
    have "s2 = s\<lparr>cells := (cells s)(d := Some v_reset)\<rparr>"
      using s2(1) v by (simp add: set_cell_def)
    then have "\<forall>m vt. tracked s c m vt \<longrightarrow> tracked s2 c m vt"
      using path_table_set [of s d v_reset c] v True by (simp add: tracked_def v_reset_def)
    then show ?thesis
      using dim v True vy s2 by (auto simp: end_array_parsing_def un_null_def)
  next
    case False
    have "tree_put ks y x = x"
      by (rule tree_put_same [OF y])
    then have "hcell s c (tree_put ks (un_null y) x) D S"
      using h vy False by (simp add: un_null_def)
    then show ?thesis
      using dim v False p evolves_refl [OF ok, of D S] by (auto simp: end_array_parsing_def)
  qed
qed

lemma start_array_parsing_found:
  assumes "active s = Some t" "tab_find t (arr_key (bytes_of p)) s = Some (Some c)" "cells s c = Some v" "is_array_or_string v"
  shows "start_array_parsing (V_STRING p) None s = Some (s\<lparr>array_ptr_write := False, array_ptr := Some c\<rparr>)"
  using assms by (simp add: start_array_parsing_def)

text \<open>The variables that can be indexed: arrays and blank strings.\<close>

fun indexable :: "tree \<Rightarrow> bool" where
  "indexable (Node sh es n) = (sh = Array_shape)"
| "indexable (Leaf v) = (blank v \<and> v \<noteq> V_NULL)"

lemma indexable_value: "hcell s c x D S \<Longrightarrow> indexable x \<Longrightarrow> \<exists>v. cells s c = Some v \<and> is_array_or_string v"
  by (cases x) (auto simp: hcell_def is_array_or_string_def blank_def elim!: holds_nodeE holds_leafE)

text \<open>The indices one after the other, and the end of the parsing.\<close>

lemma dimensions_pointer:
  assumes h: "hcell s c x D S" and ok: "store_ok s" and dim: "vp_cell dim = Some c"
    and es: "list_all2 (\<lambda>e k. index_key e = Some k) es ks" and x': "tree_fetch ks x = Some x'" "tree_at ks x' = Some y"
  shows "\<exists>dim' s1 s' D' S'. fetch_dimensions (map Some es) dim s = Some (dim', s1) \<and> end_array_parsing dim' s1 = Some (dim', s') \<and>
    fetched dim s c D S (tree_put ks (un_null y) x') ks (tree_missing ks x) dim' s' D' S'"
proof -
  obtain dim' s1 D1 S1 where f: "fetch_dimensions (map Some es) dim s = Some (dim', s1)"
      and i: "fetched dim s c D S x' ks (tree_missing ks x) dim' s1 D1 S1"
    using fetch_path [OF h ok es dim x'(1)] by blast
  obtain d where d: "vp_cell dim' = Some d" "cell_at s1 c ks = Some d"
    using i unfolding fetched_def by (metis not_None_eq)
  have "store_ok s1" "hcell s1 c x' D1 S1" "evolves s D S s1 D1 S1"
    using i by (auto simp: fetched_def evolves_def)
  then obtain s2 D2 S2 where e: "end_array_parsing dim' s1 = Some (dim', s2)" "hcell s2 c (tree_put ks (un_null y) x') D2 S2"
      "cell_at s2 c ks = Some d" "evolves s1 D1 S1 s2 D2 S2" "unassigned s2 = unassigned s1"
      "\<And>m vt. tracked s1 c m vt \<Longrightarrow> tracked s2 c m vt"
    using end_array_parsing_at [OF _ d(2) _ d(1) x'(2)] by blast
  have "evolves s D S s2 D2 S2"
    using i e(4) by (auto simp: fetched_def intro: evolves_trans)
  then have "fetched dim s c D S (tree_put ks (un_null y) x') ks (tree_missing ks x) dim' s2 D2 S2"
    using i e d unfolding fetched_def noted_def by (auto split: if_splits)
  with f e(1) show ?thesis
    by blast
qed

lemma array_pointer:
  assumes h: "hcell s c x D S" and ok: "store_ok s" and x: "indexable x"
    and nm: "active s = Some t" "tab_find t (arr_key (bytes_of p)) s = Some (Some c)"
    and es: "list_all2 (\<lambda>e k. index_key e = Some k) es ks" and x': "tree_fetch ks x = Some x'" "tree_at ks x' = Some y"
  shows "\<exists>vp s' D' S'. multi_dimensional_array (V_STRING p) None (map Some es) r s = Some (vp, s') \<and>
    fetched \<lparr>vp_cell = Some c, vp_write = False, vp_offset = -1\<rparr> s c D S (tree_put ks (un_null y) x') ks (tree_missing ks x) vp s' D' S'"
proof -
  obtain v where v: "cells s c = Some v" "is_array_or_string v"
    using indexable_value [OF h x] by blast
  let ?s = "s\<lparr>array_ptr_write := False, array_ptr := Some c\<rparr>"
  let ?dim = "\<lparr>vp_cell = Some c, vp_write = False, vp_offset = -1\<rparr>"
  note sp = start_array_parsing_found [OF nm v]
  have h1: "hcell ?s c x D S"
    using h by (rule hcell_frame) (simp add: same_on_def)
  have ok1: "store_ok ?s"
    using ok by (simp add: store_ok_def)
  have dim: "start_dimensions_parsing r ?s = ?dim"
    by (simp add: start_dimensions_parsing_def)
  obtain dim' s1 s2 D2 S2 where f: "fetch_dimensions (map Some es) ?dim ?s = Some (dim', s1)" "end_array_parsing dim' s1 = Some (dim', s2)"
      and i: "fetched ?dim ?s c D S (tree_put ks (un_null y) x') ks (tree_missing ks x) dim' s2 D2 S2"
    using dimensions_pointer [OF h1 ok1 _ es x', of ?dim] by auto
  have "fetched ?dim s c D S (tree_put ks (un_null y) x') ks (tree_missing ks x) dim' s2 D2 S2"
  proof -
    have "evolves ?s D S s2 D2 S2 = evolves s D S s2 D2 S2" "noted w ?s c m w' s2 = noted w s c m w' s2" for w m w'
      by (simp_all add: evolves_def noted_def)
    with i show ?thesis
      unfolding fetched_def by blast
  qed
  moreover have "multi_dimensional_array (V_STRING p) None (map Some es) r s = Some (dim', s2)"
    using sp dim f by (simp add: multi_dimensional_array_def)
  ultimately show ?thesis
    by blast
qed

end
