(* ===== verification/Var_State.thy ===== *)
theory Var_State
  imports Var_Assign
begin

text \<open>
  The operations on variables as operations on the abstract memory: an assignment changes the tree of one cell, whatever
  the name that leads to it, and a name that is not in use gets a new cell.
\<close>

subsection \<open>One variable of the memory\<close>

lemma mem_focus:
  assumes "mem s X C T" "X c = Some x"
  obtains D S C1 T1 where "hcell s c x D S" "mem s (X(c := None)) C1 T1" "C = D \<union> C1" "T = S \<union> T1" "D \<inter> C1 = {}" "S \<inter> T1 = {}"
  using mem_split [OF assms] unfolding hcell_def by (metis (no_types, opaque_lifting))

lemma mem_put:
  assumes "mem s (X(c := None)) C1 T1" "same_on C1 T1 s s'" "hcell s' c x D S" "D \<inter> C1 = {}" "S \<inter> T1 = {}"
  shows "mem s' (X(c \<mapsto> x)) (D \<union> C1) (S \<union> T1)"
  using mem_join [OF mem_frame [OF assms(1,2)]] assms(3-) unfolding hcell_def by metis

lemma mem_footprint: "mem s X C T \<Longrightarrow> store_ok s \<Longrightarrow> C \<subseteq> {..<next_cell s} \<and> T \<subseteq> {..<next_tab s} \<and> symbol_table s \<notin> T"
  unfolding mem_def
proof (elim exE conjE)
  fix FC FT
  assume p: "placed s X FC FT" and C: "C = (\<Union>c\<in>dom X. insert c (FC c))" and T: "T = (\<Union>c\<in>dom X. FT c)" and ok: "store_ok s"
  have "insert c (FC c) \<subseteq> {..<next_cell s} \<and> FT c \<subseteq> {..<next_tab s} \<and> symbol_table s \<notin> FT c" if "c \<in> dom X" for c
  proof -
    from that obtain x where "X c = Some x"
      by auto
    from placed_at [OF p this] have h: "hcell s c x (insert c (FC c)) (FT c)"
      unfolding hcell_def by blast
    show ?thesis
      using hcell_footprint(1-3) [OF h ok] by simp
  qed
  then show ?thesis
    unfolding C T by blast
qed

text \<open>
  The frame rule of the memory: what an operation does to one variable, and to a value that shares nothing with it, it
  does to the memory. \<open>P\<close> is whatever else is known of its result.
\<close>

lemma focus_step:
  assumes m: "mem s X C T" "X c = Some x" and ok: "store_ok s" and e: "reserved s e z De Se C T"
    and f: "\<And>D S. hcell s c x D S \<Longrightarrow> reserved s e z De Se D S \<Longrightarrow> \<exists>r' s' D' S' Dr Sr. P r' s' \<and>
        hcell s' c x' D' S' \<and> reserved s' r' y Dr Sr D' S' \<and> evolves s (D \<union> De) (S \<union> Se) s' (D' \<union> Dr) (S' \<union> Sr)"
  shows "\<exists>r' s' C' T' Dr Sr. P r' s' \<and> mem s' (X(c \<mapsto> x')) C' T' \<and> reserved s' r' y Dr Sr C' T' \<and>
    evolves s (C \<union> De) (T \<union> Se) s' (C' \<union> Dr) (T' \<union> Sr)"
proof -
  obtain D S C1 T1 where d: "hcell s c x D S" and m1: "mem s (X(c := None)) C1 T1"
      and un: "C = D \<union> C1" "T = S \<union> T1" and dj: "D \<inter> C1 = {}" "S \<inter> T1 = {}"
    by (rule mem_focus [OF m])
  have "reserved s e z De Se D S" and eb: "De \<inter> C1 = {}" "Se \<inter> T1 = {}"
    using e un by (auto simp: reserved_def)
  then obtain r' s' D' S' Dr Sr where r: "P r' s'" "hcell s' c x' D' S'" "reserved s' r' y Dr Sr D' S'"
      and ev: "evolves s (D \<union> De) (S \<union> Se) s' (D' \<union> Dr) (S' \<union> Sr)"
    using f [OF d] by blast
  have b: "C1 \<subseteq> {..<next_cell s}" "T1 \<subseteq> {..<next_tab s}" "C1 \<inter> (D \<union> De) = {}" "T1 \<inter> (S \<union> Se) = {}"
    using mem_footprint [OF m1 ok] dj eb by auto
  note ap = evolves_apart [OF ev b]
  have "mem s' (X(c \<mapsto> x')) (D' \<union> C1) (S' \<union> T1)"
    by (rule mem_put [OF m1 evolves_frame [OF ev b] r(2)]) (use ap in auto)
  moreover have "reserved s' r' y Dr Sr (D' \<union> C1) (S' \<union> T1)"
    using r(3) ap by (auto simp: reserved_def)
  moreover have "evolves s (C \<union> De) (T \<union> Se) s' (D' \<union> C1 \<union> Dr) (S' \<union> T1 \<union> Sr)"
    using evolves_widen [OF ev, of C1 T1] un by (simp add: Un_ac)
  ultimately show ?thesis
    using r(1) by blast
qed

subsection \<open>Scopes\<close>

definition names :: "vstate \<Rightarrow> tab \<Rightarrow> hkey \<Rightarrow> cell option" where
  "names s t k = Option.bind (tabs s t) (\<lambda>b. map_option fst (entry_of b k))"

lemma tab_find_names: "tabs s t = Some b \<Longrightarrow> tab_find t k s = Some (names s t k)"
  by (simp add: tab_find_def names_def)

lemma names_frame: "tabs s' t = tabs s t \<Longrightarrow> names s' t = names s t"
  by (simp add: names_def fun_eq_iff)

text \<open>A new name: its cell is new, the other names stay.\<close>

definition with_new_entry :: "tab \<Rightarrow> vtable \<Rightarrow> hkey \<Rightarrow> vval \<Rightarrow> vstate \<Rightarrow> vstate" where
  "with_new_entry t b k v s = s\<lparr>cells := (cells s)(next_cell s := Some v), next_cell := next_cell s + 1,
     tabs := (tabs s)(t := Some (with_key k (b\<lparr>vt_entries := vt_entries b @ [(k, next_cell s, False)]\<rparr>)))\<rparr>"

lemma new_value_entry:
  assumes b: "tabs s t = Some b" "entry_of b k = None" and m: "mem s X C T" and ok: "store_ok s"
    and v: "reserved s v y D S C T" and t: "t \<notin> T \<union> S"
  defines "s' \<equiv> with_new_entry t b k v s"
  shows "tab_update t k v s = Some (next_cell s, s')"
    "mem s' (X(next_cell s \<mapsto> y)) (insert (next_cell s) (D \<union> C)) (S \<union> T)"
    "evolves s (D \<union> C) (insert t (S \<union> T)) s' (insert (next_cell s) (D \<union> C)) (insert t (S \<union> T))" "unassigned s' = unassigned s"
    "names s' t = (names s t)(k \<mapsto> next_cell s)" "X (next_cell s) = None"
proof -
  have hv: "holds s v y D S" and dj: "D \<inter> C = {}" "S \<inter> T = {}"
    using v by (auto simp: reserved_def)
  have fp: "C \<subseteq> {..<next_cell s}" "T \<subseteq> {..<next_tab s}" "D \<subseteq> {..<next_cell s}"
    using mem_footprint [OF m ok] holds_footprint [OF hv ok] by auto
  show "tab_update t k v s = Some (next_cell s, s')"
    unfolding s'_def with_new_entry_def by (rule tab_update_new [OF b])
  show new: "X (next_cell s) = None"
    using mem_dom [OF m] fp(1) by (cases "X (next_cell s)") auto
  then have X: "X(next_cell s := None) = X"
    by auto
  have "holds s' v y D S"
    using hv by (rule holds_frame(1)) (use fp(3) t in \<open>auto simp: same_on_def s'_def with_new_entry_def\<close>)
  then have "hcell s' (next_cell s) y (insert (next_cell s) D) S"
    unfolding hcell_def using fp(3) by (intro exI [of _ v] exI [of _ D]) (auto simp: s'_def with_new_entry_def)
  then have "mem s' (X(next_cell s \<mapsto> y)) (insert (next_cell s) D \<union> C) (S \<union> T)"
    using m t fp dj by (intro mem_put [of s]) (auto simp: X same_on_def s'_def with_new_entry_def)
  then show "mem s' (X(next_cell s \<mapsto> y)) (insert (next_cell s) (D \<union> C)) (S \<union> T)"
    by simp
  have "store_ok s'"
    using ok store_ok_tab [OF ok b(1)] by (auto simp: store_ok_def s'_def with_new_entry_def)
  then show "evolves s (D \<union> C) (insert t (S \<union> T)) s' (insert (next_cell s) (D \<union> C)) (insert t (S \<union> T))"
    using b(1) by (auto simp: evolves_def nothing_lost_def s'_def with_new_entry_def)
  show "unassigned s' = unassigned s"
    by (simp add: s'_def with_new_entry_def)
  show "names s' t = (names s t)(k \<mapsto> next_cell s)"
    using b by (auto simp: names_def s'_def with_new_entry_def entry_of_def fun_eq_iff map_add_def split: option.splits)
qed

lemma reserved_leaf: "is_leaf v \<Longrightarrow> reserved s v (Leaf v) {} {} C T"
  by (simp add: reserved_def holds_leaf)

end
