(* ===== verification/Var_Access.thy ===== *)
theory Var_Access
  imports Var_Ops
begin

text \<open>
  The rest of \<^verbatim>\<open>variables.c\<close>: the contents of variables and array elements inside of strings, \<^verbatim>\<open>isset\<close>, \<^verbatim>\<open>unset\<close> and
  \<^verbatim>\<open>empty\<close>, \<^verbatim>\<open>list()\<close>, array literals, the properties of objects and \<^verbatim>\<open>new\<close>.
\<close>

subsection \<open>Contents\<close>

definition get_regular_variable_contents :: "vval \<Rightarrow> vstate \<Rightarrow> (vval \<times> status \<times> vstate) option" where
  "get_regular_variable_contents varname s =
     (case varname of
        V_STRING p \<Rightarrow> do {
          t \<leftarrow> active s;
          c \<leftarrow> tab_find t (arr_key (bytes_of p)) s;
          (case c of
             None \<Rightarrow> Some (v_reset, FAILURE, s)
           | Some c \<Rightarrow> do { v \<leftarrow> cells s c; pval_copy_constructor v s })
        }
      | _ \<Rightarrow> Some (v_reset, FAILURE, s))"

text \<open>The copy of an element, reset when it cannot be copied.\<close>

definition copy_element :: "tab \<Rightarrow> hkey \<Rightarrow> vstate \<Rightarrow> (vval \<times> vstate) option" where
  "copy_element t k s = do {
     c \<leftarrow> tab_find t k s;
     (case c of
        None \<Rightarrow> Some (v_reset, s)
      | Some c \<Rightarrow> do {
          v \<leftarrow> cells s c;
          (r, st, s1) \<leftarrow> pval_copy_constructor v s;
          Some (if st = FAILURE then v_reset else r, s1)
        })
   }"

text \<open>
  \<open>None\<close> also where the code leaves the result without a value, for an index that is no number and no string. A negative
  index of a string is not tested: it reads in front of the string.
\<close>

definition get_array_variable :: "vval \<Rightarrow> vval \<Rightarrow> vstate \<Rightarrow> (vval \<times> vstate) option" where
  "get_array_variable varname index0 s =
     (case varname of
        V_STRING p \<Rightarrow> do {
          index \<leftarrow> (case index0 of V_DOUBLE d \<Rightarrow> map_option V_LONG (d_to_long d) | _ \<Rightarrow> Some index0);
          t \<leftarrow> active s;
          c \<leftarrow> tab_find t (arr_key (bytes_of p)) s;
          (case c of
             None \<Rightarrow> Some (v_reset, s)
           | Some c \<Rightarrow> do {
               arr \<leftarrow> cells s c;
               (case (arr, index) of
                  (V_STRING q, V_LONG n) \<Rightarrow>
                    if sint n \<ge> int (length (bytes_of q)) then Some (v_reset, s)
                    else if sint n < 0 then None
                    else Some (V_STRING (Block [bytes_of q ! nat (sint n)]), s)
                | (V_ARRAY u, V_LONG n) \<Rightarrow> copy_element u (IntKey n) s
                | (V_OBJECT u, V_LONG n) \<Rightarrow> copy_element u (IntKey n) s
                | (V_ARRAY u, V_STRING q) \<Rightarrow> copy_element u (arr_key (bytes_of q)) s
                | (V_OBJECT u, V_STRING q) \<Rightarrow> copy_element u (arr_key (bytes_of q)) s
                | (V_ARRAY u, _) \<Rightarrow> None
                | (V_OBJECT u, _) \<Rightarrow> None
                | (_, V_LONG n) \<Rightarrow>
                    if n = 0 then map_option (\<lambda>(r, st, s1). (r, s1)) (get_regular_variable_contents varname s)
                    else Some (v_reset, s)
                | _ \<Rightarrow> Some (v_reset, s))
             })
        }
      | _ \<Rightarrow> None)"

subsection \<open>Variables inside of strings\<close>

definition v_concat :: "nat \<Rightarrow> vval \<Rightarrow> vval \<Rightarrow> vstate \<Rightarrow> (vval \<times> vstate) option" where
  "v_concat precision v w s = do {
     (p, s1) \<leftarrow> v_to_string precision v s;
     (q, s2) \<leftarrow> v_to_string precision w s1;
     Some (V_STRING (Block (bytes_of p @ bytes_of q)), s2)
   }"

definition add_regular_encapsed_variable :: "nat \<Rightarrow> vval \<Rightarrow> vval \<Rightarrow> vstate \<Rightarrow> (vval \<times> vstate) option" where
  "add_regular_encapsed_variable precision encaps varname s = do {
     (tmp, _, s1) \<leftarrow> get_regular_variable_contents varname s;
     v_concat precision encaps tmp s1
   }"

definition add_assoc_array_encapsed_variable :: "nat \<Rightarrow> vval \<Rightarrow> vval \<Rightarrow> vval \<Rightarrow> vstate \<Rightarrow> (vval \<times> vstate) option" where
  "add_assoc_array_encapsed_variable precision encaps varname index s = do {
     (tmp, s1) \<leftarrow> get_array_variable varname index s;
     v_concat precision encaps tmp s1
   }"

definition add_encapsed_object_property :: "nat \<Rightarrow> vval \<Rightarrow> vval \<Rightarrow> vval \<Rightarrow> vstate \<Rightarrow> (vval \<times> vstate) option" where
  "add_encapsed_object_property precision encaps object property s = do {
     (tmp, s1) \<leftarrow> get_array_variable object property s;
     v_concat precision encaps tmp s1
   }"

definition add_regular_array_encapsed_variable :: "nat \<Rightarrow> vval \<Rightarrow> vval \<Rightarrow> vval \<Rightarrow> vstate \<Rightarrow> (vval \<times> vstate) option" where
  "add_regular_array_encapsed_variable precision encaps varname index s = do {
     (n, s1) \<leftarrow> v_to_long index s;
     (tmp, s2) \<leftarrow> get_array_variable varname (V_LONG n) s1;
     v_concat precision encaps tmp s2
   }"

definition add_variable_array_encapsed_variable :: "nat \<Rightarrow> vval \<Rightarrow> vval \<Rightarrow> vval \<Rightarrow> vstate \<Rightarrow> (vval \<times> vstate) option" where
  "add_variable_array_encapsed_variable precision encaps varname var_index s = do {
     (index, _, s1) \<leftarrow> get_regular_variable_contents var_index s;
     (tmp, s2) \<leftarrow> get_array_variable varname index s1;
     (r, s3) \<leftarrow> v_concat precision encaps tmp s2;
     s4 \<leftarrow> pval_destructor index s3;
     Some (r, s4)
   }"

definition add_indirect_encapsed_variable :: "nat \<Rightarrow> vval \<Rightarrow> vval \<Rightarrow> vstate \<Rightarrow> (vval \<times> vstate) option" where
  "add_indirect_encapsed_variable precision encaps varname s = do {
     (tmp, _, s1) \<leftarrow> get_regular_variable_contents varname s;
     (p, s2) \<leftarrow> v_to_string precision tmp s1;
     (tmp2, _, s3) \<leftarrow> get_regular_variable_contents (V_STRING p) s2;
     v_concat precision encaps tmp2 s3
   }"

text \<open>What \<^verbatim>\<open>echo\<close> writes; \<open>header\<close> is the answer of \<^verbatim>\<open>php3_header\<close>. The value is left as the string.\<close>

definition php3i_print_variable :: "nat \<Rightarrow> bool \<Rightarrow> vval \<Rightarrow> vstate \<Rightarrow> (string \<times> vval \<times> vstate) option" where
  "php3i_print_variable precision header v s = do {
     (p, s1) \<leftarrow> v_to_string precision v s;
     Some (if bytes_of p = [] \<or> \<not> header then [] else bytes_of p, V_STRING p, s1)
   }"

fun is_not_internal_function :: "vval \<Rightarrow> bool" where
  "is_not_internal_function (V_INTERNAL_FUNCTION n args) = False"
| "is_not_internal_function v = True"

subsection \<open>\<^verbatim>\<open>isset\<close>, \<^verbatim>\<open>unset\<close> and \<^verbatim>\<open>empty\<close>\<close>

definition php3_unset :: "varptr \<Rightarrow> vstate \<Rightarrow> (vval \<times> vstate) option" where
  "php3_unset var_ptr s =
     (if vp_write var_ptr then map_option (Pair (V_LONG 1)) (clean_unassigned_variable_top True s)
      else (case vp_cell var_ptr of
          None \<Rightarrow> Some (V_LONG 1, s)
        | Some c \<Rightarrow> do {
            v \<leftarrow> cells s c;
            s1 \<leftarrow> pval_destructor v s;
            s2 \<leftarrow> set_cell c var_uninit s1;
            Some (V_LONG 1, s2)
          }))"

definition php3_isset :: "varptr \<Rightarrow> vstate \<Rightarrow> (bool \<times> vstate) option" where
  "php3_isset var_ptr s =
     (if vp_write var_ptr then map_option (Pair False) (clean_unassigned_variable_top True s)
      else (case vp_cell var_ptr of
          None \<Rightarrow> Some (False, s)
        | Some c \<Rightarrow> do { v \<leftarrow> cells s c; Some (v \<noteq> var_uninit, s) }))"

definition php3_empty :: "varptr \<Rightarrow> vstate \<Rightarrow> (bool \<times> vstate) option" where
  "php3_empty var_ptr s = do {
     (set, s1) \<leftarrow> php3_isset var_ptr s;
     if \<not> set then Some (True, s1)
     else do {
       c \<leftarrow> vp_cell var_ptr;
       v \<leftarrow> cells s1 c;
       if v = V_STRING (Block ''0'') then Some (False, s1)
       else do {
         (v', _, s2) \<leftarrow> pval_copy_constructor v s1;
         (b, s3) \<leftarrow> v_is_true v' s2;
         Some (\<not> b, s3)
       }
     }
   }"

subsection \<open>\<^verbatim>\<open>list()\<close> and array literals\<close>

text \<open>The variables of the list from the last to the first; each gets a copy of the element of its index.\<close>

fun assign_elements :: "varptr list \<Rightarrow> vval \<Rightarrow> vstate \<Rightarrow> vstate option" where
  "assign_elements [] expr s = Some s"
| "assign_elements (vp # vps) expr s =
     (let i = length vps in
      case vp_cell vp of
        None \<Rightarrow> assign_elements vps expr s
      | Some c \<Rightarrow> do {
          s1 \<leftarrow> clean_if (vp_write vp) False s;
          old \<leftarrow> cells s1 c;
          s2 \<leftarrow> pval_destructor old s1;
          s3 \<leftarrow> (case expr of
              V_ARRAY t \<Rightarrow> do {
                e \<leftarrow> tab_find t (IntKey (of_nat i)) s2;
                (case e of
                   None \<Rightarrow> set_cell c var_uninit s2
                 | Some d \<Rightarrow> do {
                     v \<leftarrow> cells s2 d;
                     (v', _, s3) \<leftarrow> pval_copy_constructor v s2;
                     set_cell c v' s3
                   })
              }
            | _ \<Rightarrow> if i \<noteq> 0 then set_cell c var_uninit s2
                  else do { (v', _, s3) \<leftarrow> pval_copy_constructor expr s2; set_cell c v' s3 });
          assign_elements vps expr s3
        })"

definition assign_to_list :: "varptr list \<Rightarrow> vval \<Rightarrow> vstate \<Rightarrow> (vval \<times> vstate) option" where
  "assign_to_list vars expr s = map_option (Pair expr) (assign_elements (rev vars) expr s)"

text \<open>\<open>result\<close> is the array so far; an index of another type destroys index and value, and resets the result.\<close>

definition add_array_pair_list :: "vval \<Rightarrow> vval option \<Rightarrow> vval \<Rightarrow> bool \<Rightarrow> vstate \<Rightarrow> (vval \<times> vstate) option" where
  "add_array_pair_list result index v initialize s =
     (case (if initialize then array_init s else (result, s)) of (r, s0) \<Rightarrow> do {
        t \<leftarrow> table_of r;
        (case index of
           None \<Rightarrow> do { (_, s1) \<leftarrow> tab_next_insert t v s0; Some (r, s1) }
         | Some (V_STRING p) \<Rightarrow> do { (_, s1) \<leftarrow> tab_update t (arr_key (bytes_of p)) v s0; Some (r, s1) }
         | Some (V_LONG n) \<Rightarrow> do { (_, s1) \<leftarrow> tab_update t (IntKey n) v s0; Some (r, s1) }
         | Some (V_DOUBLE d) \<Rightarrow> do { n \<leftarrow> d_to_long d; (_, s1) \<leftarrow> tab_update t (IntKey n) v s0; Some (r, s1) }
         | Some e \<Rightarrow> do { s1 \<leftarrow> pval_destructor e s0; s2 \<leftarrow> pval_destructor v s1; Some (v_reset, s2) })
      })"

subsection \<open>Objects\<close>

definition get_object_property :: "varptr \<Rightarrow> vval \<Rightarrow> vstate \<Rightarrow> (vval \<times> vstate) option" where
  "get_object_property class_ptr varname s =
     (case vp_cell class_ptr of
        None \<Rightarrow> map_option (Pair v_reset) (pval_destructor varname s)
      | Some ob \<Rightarrow>
          (case varname of
             V_STRING p \<Rightarrow> do {
               t \<leftarrow> object_table ob s;
               c \<leftarrow> tab_find t (arr_key (bytes_of p)) s;
               (case c of
                  None \<Rightarrow> Some (v_reset, s)
                | Some c \<Rightarrow> do { v \<leftarrow> cells s c; (r, _, s1) \<leftarrow> pval_copy_constructor v s; Some (r, s1) })
             }
           | _ \<Rightarrow> map_option (Pair v_reset) (pval_destructor varname s)))"

definition get_object_symtable :: "varptr \<Rightarrow> varptr option \<Rightarrow> vval \<Rightarrow> vstate \<Rightarrow> varptr option" where
  "get_object_symtable r parent child s =
     (if parent \<noteq> None \<and> vp_cell (the parent) = None then Some (r\<lparr>vp_cell := None\<rparr>)
      else do {
        t \<leftarrow> (case parent of None \<Rightarrow> active s | Some p \<Rightarrow> Option.bind (vp_cell p) (\<lambda>ob. object_table ob s));
        (case child of
           V_STRING p \<Rightarrow> do {
             c \<leftarrow> tab_find t (arr_key (bytes_of p)) s;
             (case c of
                None \<Rightarrow> Some (r\<lparr>vp_cell := None\<rparr>)
              | Some c \<Rightarrow> do {
                  v \<leftarrow> cells s c;
                  Some (case v of V_OBJECT _ \<Rightarrow> r\<lparr>vp_cell := Some c\<rparr> | _ \<Rightarrow> r\<lparr>vp_cell := None\<rparr>)
                })
           }
         | _ \<Rightarrow> None)
      })"

definition declare_class_variable :: "vval \<Rightarrow> vval option \<Rightarrow> tab \<Rightarrow> vstate \<Rightarrow> vstate option" where
  "declare_class_variable varname expr class_symbol_table s =
     (case varname of
        V_STRING p \<Rightarrow> map_option snd
          (tab_update class_symbol_table (arr_key (bytes_of p)) (case expr of Some v \<Rightarrow> v | None \<Rightarrow> v_reset) s)
      | _ \<Rightarrow> None)"

text \<open>
  \<^verbatim>\<open>new\<close>: a copy of the class as an object. \<open>ctor\<close> is the call of the constructor for the implicit form, the function
  named like the class if there is one; the explicit form calls it like any method.
\<close>

definition assign_new_object :: "nat \<Rightarrow> tab \<Rightarrow> vval \<Rightarrow> (vval \<Rightarrow> cstring \<Rightarrow> vstate \<Rightarrow> vstate option) option \<Rightarrow> vstate \<Rightarrow>
    (vval option \<times> vstate) option" where
  "assign_new_object precision function_table classname ctor s = do {
     (p, s1) \<leftarrow> v_to_string precision classname s;
     c \<leftarrow> tab_find function_table (arr_key (bytes_of p)) s1;
     (case c of
        None \<Rightarrow> Some (None, s1)
      | Some c \<Rightarrow> do {
          v \<leftarrow> cells s1 c;
          (case v of
             V_CLASS t \<Rightarrow> do {
               (r, _, s2) \<leftarrow> pval_copy_constructor (V_OBJECT t) s1;
               s3 \<leftarrow> (case ctor of None \<Rightarrow> Some s2 | Some f \<Rightarrow> f r p s2);
               Some (Some r, s3)
             }
           | _ \<Rightarrow> Some (None, s1))
        })
   }"

end
