(* ===== verification/Var_Calls.thy ===== *)
theory Var_Calls
  imports Var_Access
begin

text \<open>
  Scopes, functions and classes (\<^verbatim>\<open>control_structures_inline.h\<close>): the symbol table of a call, its parameters by value and
  by reference, \<^verbatim>\<open>global\<close> and \<^verbatim>\<open>static\<close> variables, the declaration of functions and classes. The flow of control of a
  call (tokens, flags) belongs to the control structures. A fatal error ends the script; the result is then \<open>None\<close> inside
  of the defined result.
\<close>

datatype fun_kind = No_function | User_function | Internal_function int

record fun_state =
  fs_symbol_table :: "tab option"
  fs_function_symbol_table :: "tab option"
  fs_hosting :: "tab option"
  fs_name :: "string option"
  fs_kind :: fun_kind
  fs_arg_types :: "nat list option"
  fs_object :: "cell option"
  fs_returned :: bool

record call_state =
  store :: vstate
  function_table :: tab
  globals :: cell
  fstate :: fun_state
  fstack :: "fun_state list"
  param_index :: nat
  return_value :: vval
  class_table :: "tab option"

text \<open>An operation on the store.\<close>

definition with_store :: "(vstate \<Rightarrow> vstate option) \<Rightarrow> call_state \<Rightarrow> call_state option" where
  "with_store f cs = map_option (\<lambda>s. cs\<lparr>store := s\<rparr>) (f (store cs))"

definition BYREF_NONE :: nat where "BYREF_NONE = 0"
definition BYREF_FORCE :: nat where "BYREF_FORCE = 1"
definition BYREF_ALLOW :: nat where "BYREF_ALLOW = 2"

subsection \<open>\<^verbatim>\<open>global\<close> and \<^verbatim>\<open>static\<close>\<close>

definition cs_global_variable :: "vval \<Rightarrow> call_state \<Rightarrow> (status \<times> call_state) option" where
  "cs_global_variable varname cs =
     (if fs_name (fstate cs) = None then Some (FAILURE, cs)
      else (case varname of
          V_STRING p \<Rightarrow> do {
            let k = arr_key (bytes_of p);
            t \<leftarrow> active (store cs);
            l \<leftarrow> tab_find t k (store cs);
            if l \<noteq> None then Some (FAILURE, cs)
            else do {
              g \<leftarrow> tab_find (symbol_table (store cs)) k (store cs);
              (c, s1) \<leftarrow> (case g of
                  Some c \<Rightarrow> Some (c, store cs)
                | None \<Rightarrow> tab_update (symbol_table (store cs)) k var_uninit (store cs));
              s2 \<leftarrow> tab_pointer_update t k c s1;
              Some (SUCCESS, cs\<lparr>store := s2\<rparr>)
            }
          }
        | _ \<Rightarrow> do { cs1 \<leftarrow> with_store (pval_destructor varname) cs; Some (FAILURE, cs1) }))"

definition cs_static_variable :: "vval \<Rightarrow> vval option \<Rightarrow> call_state \<Rightarrow> (status \<times> call_state) option" where
  "cs_static_variable varname v cs =
     (case (fs_name (fstate cs), varname, fs_hosting (fstate cs)) of
        (None, _, _) \<Rightarrow> do { cs1 \<leftarrow> with_store (destroy_expr v) cs; Some (FAILURE, cs1) }
      | (Some f, V_STRING p, Some host) \<Rightarrow> do {
          let k = arr_key (bytes_of p);
          fc \<leftarrow> tab_find host (arr_key f) (store cs);
          (case fc of
             None \<Rightarrow> do { cs1 \<leftarrow> with_store (destroy_expr v) cs; Some (FAILURE, cs1) }
           | Some fc \<Rightarrow> do {
               func \<leftarrow> cells (store cs) fc;
               (statics, s1) \<leftarrow> (case func of
                   V_USER_FUNCTION a (Some st) args \<Rightarrow> Some (st, store cs)
                 | V_USER_FUNCTION a None args \<Rightarrow>
                     (case new_table (store cs) of (st, s1) \<Rightarrow>
                        map_option (Pair st) (set_cell fc (V_USER_FUNCTION a (Some st) args) s1))
                 | _ \<Rightarrow> None);
               e \<leftarrow> tab_find statics k s1;
               (c, s2) \<leftarrow> (case e of
                   Some c \<Rightarrow> Some (c, s1)
                 | None \<Rightarrow> tab_update statics k (case v of Some w \<Rightarrow> w | None \<Rightarrow> var_uninit) s1);
               t \<leftarrow> active s2;
               s3 \<leftarrow> tab_pointer_update t k c s2;
               Some (SUCCESS, cs\<lparr>store := s3\<rparr>)
             })
        }
      | (Some f, _, _) \<Rightarrow> do { cs1 \<leftarrow> with_store (pval_destructor varname) cs; cs2 \<leftarrow> with_store (destroy_expr v) cs1; Some (FAILURE, cs2) })"

subsection \<open>Calls\<close>

text \<open>The table that a function is looked up in: the functions, or the class of an object.\<close>

definition call_table :: "varptr option \<Rightarrow> call_state \<Rightarrow> (tab \<times> cell option) option" where
  "call_table class_ptr cs =
     (case class_ptr of
        None \<Rightarrow> Some (function_table cs, None)
      | Some vp \<Rightarrow> do { ob \<leftarrow> vp_cell vp; t \<leftarrow> object_table ob (store cs); Some (t, Some ob) })"

fun function_kind :: "vval \<Rightarrow> (fun_kind \<times> nat list option) option" where
  "function_kind (V_USER_FUNCTION a st args) = Some (User_function, args)"
| "function_kind (V_INTERNAL_FUNCTION n args) = Some (Internal_function n, args)"
| "function_kind _ = None"

text \<open>The new scope: \<^verbatim>\<open>GLOBALS\<close> for a user function, and \<^verbatim>\<open>this\<close>, a copy of the object's \<^verbatim>\<open>pval\<close> with the same table.\<close>

definition new_scope :: "fun_kind \<Rightarrow> cell option \<Rightarrow> cell \<Rightarrow> vstate \<Rightarrow> (tab \<times> cell option \<times> vstate) option" where
  "new_scope kind ob globs s =
     (case new_table s of (ft, s1) \<Rightarrow> do {
        s2 \<leftarrow> (if kind = User_function then tab_pointer_update ft (arr_key ''GLOBALS'') globs s1 else Some s1);
        (case ob of
           None \<Rightarrow> Some (ft, None, s2)
         | Some ob \<Rightarrow> do {
             v \<leftarrow> cells s2 ob;
             (case new_cell v s2 of (this, s3) \<Rightarrow> do {
                s4 \<leftarrow> tab_pointer_update ft (arr_key ''this'') this s3;
                Some (ft, Some this, s4)
              })
           })
      })"

text \<open>The result is the called function, or none after a fatal error.\<close>

definition cs_functioncall_pre_variable_passing ::
  "vval \<Rightarrow> varptr option \<Rightarrow> call_state \<Rightarrow> (vval option \<times> call_state) option" where
  "cs_functioncall_pre_variable_passing function_name class_ptr cs =
     (case function_name of
        V_STRING p \<Rightarrow>
          if class_ptr \<noteq> None \<and> vp_cell (the class_ptr) = None then Some (None, cs)
          else do {
            let f = php3_str_tolower (bytes_of p);
            (t, ob) \<leftarrow> call_table class_ptr cs;
            c \<leftarrow> tab_find t (arr_key f) (store cs);
            (case c of
               None \<Rightarrow> Some (None, cs\<lparr>fstate := (fstate cs)\<lparr>fs_symbol_table := None\<rparr>\<rparr>)
             | Some c \<Rightarrow> do {
                 func \<leftarrow> cells (store cs) c;
                 (case function_kind func of
                    None \<Rightarrow> Some (None, cs\<lparr>fstate := (fstate cs)\<lparr>fs_symbol_table := None\<rparr>\<rparr>)
                  | Some (kind, args) \<Rightarrow> do {
                      (ft, this, s1) \<leftarrow> new_scope kind ob (globals cs) (store cs);
                      Some (Some func, cs\<lparr>store := s1, fstack := fstate cs # fstack cs,
                        fstate := (fstate cs)\<lparr>fs_function_symbol_table := Some ft, fs_name := Some f, fs_kind := kind,
                          fs_arg_types := args, fs_hosting := Some t, fs_object := this\<rparr>\<rparr>)
                    })
               })
          }
      | _ \<Rightarrow> Some (None, cs))"

text \<open>The byte of the argument types for the next argument; its offset is an \<^verbatim>\<open>unsigned char\<close>.\<close>

definition argument_type :: "call_state \<Rightarrow> tab \<Rightarrow> nat option" where
  "argument_type cs ft = do {
     b \<leftarrow> tabs (store cs) ft;
     (case fs_arg_types (fstate cs) of
        None \<Rightarrow> Some BYREF_NONE
      | Some ts \<Rightarrow> (let off = (unat (vt_free b) mod 256 + 1) mod 256
                    in if off \<le> hd ts then (if off < length ts then Some (ts ! off) else None) else Some BYREF_NONE))
   }"

text \<open>A failure makes the call not happen: \<^verbatim>\<open>function_type\<close> becomes 0.\<close>

definition no_call :: "call_state \<Rightarrow> call_state" where
  "no_call cs = cs\<lparr>fstate := (fstate cs)\<lparr>fs_kind := No_function\<rparr>\<rparr>"

definition pass_parameter_by_value :: "vval \<Rightarrow> call_state \<Rightarrow> call_state option" where
  "pass_parameter_by_value expr cs = do {
     ft \<leftarrow> fs_function_symbol_table (fstate cs);
     ty \<leftarrow> argument_type cs ft;
     let cs0 = (if ty = BYREF_FORCE then no_call cs else cs);
     (c, s1) \<leftarrow> tab_next_insert ft expr (store cs0);
     (case c of
        Some _ \<Rightarrow> Some (cs0\<lparr>store := s1\<rparr>)
      | None \<Rightarrow> do { s2 \<leftarrow> pval_destructor expr s1; Some (no_call (cs0\<lparr>store := s2\<rparr>)) })
   }"

definition pass_parameter :: "varptr \<Rightarrow> bool \<Rightarrow> call_state \<Rightarrow> call_state option" where
  "pass_parameter var by_reference cs = do {
     ft \<leftarrow> fs_function_symbol_table (fstate cs);
     ty \<leftarrow> argument_type cs ft;
     if \<not> (by_reference \<or> ty \<noteq> BYREF_NONE) then do {
       (tmp, s1) \<leftarrow> read_pointer_value var (store cs);
       (c, s2) \<leftarrow> tab_next_insert ft tmp s1;
       (case c of
          Some _ \<Rightarrow> Some (cs\<lparr>store := s2\<rparr>)
        | None \<Rightarrow> do { s3 \<leftarrow> pval_destructor tmp s2; Some (no_call (cs\<lparr>store := s3\<rparr>)) })
     }
     else do {
       s1 \<leftarrow> clean_if (vp_write var) False (store cs);
       (case vp_cell var of
          None \<Rightarrow> Some (no_call (cs\<lparr>store := s1\<rparr>))
        | Some c \<Rightarrow> do {
            (st, s2) \<leftarrow> tab_next_pointer ft c s1;
            Some (if st = FAILURE then no_call (cs\<lparr>store := s2\<rparr>) else cs\<lparr>store := s2\<rparr>)
          })
     }
   }"

text \<open>\<open>internal\<close> is the C function behind an internal function: its result for its table of arguments.\<close>

definition cs_functioncall_post_variable_passing ::
  "(int \<Rightarrow> tab \<Rightarrow> vstate \<Rightarrow> (vval \<times> vstate) option) \<Rightarrow> call_state \<Rightarrow> call_state option" where
  "cs_functioncall_post_variable_passing internal cs =
     (let fs = (fstate cs)\<lparr>fs_symbol_table := fs_function_symbol_table (fstate cs), fs_function_symbol_table := None\<rparr>;
          cs1 = cs\<lparr>fstate := fs, return_value := v_reset\<rparr>
      in case fs_kind fs of
           User_function \<Rightarrow> Some (cs1\<lparr>store := (store cs1)\<lparr>active := fs_symbol_table fs\<rparr>\<rparr>)
         | Internal_function n \<Rightarrow> do {
             t \<leftarrow> fs_symbol_table fs;
             (v, s) \<leftarrow> internal n t (store cs1);
             Some (cs1\<lparr>store := s, return_value := v\<rparr>)
           }
         | No_function \<Rightarrow> Some cs1)"

definition cs_functioncall_end :: "call_state \<Rightarrow> (vval \<times> call_state) option" where
  "cs_functioncall_end cs =
     (let fs = fstate cs;
          result = (if fs_kind fs = User_function \<and> \<not> fs_returned fs then v_reset else return_value cs)
      in do {
        s1 \<leftarrow> (case fs_symbol_table fs of None \<Rightarrow> Some (store cs) | Some t \<Rightarrow> table_destroy t (store cs));
        s2 \<leftarrow> (case fs_object fs of None \<Rightarrow> Some s1 | Some c \<Rightarrow> free_cell c s1);
        (case fstack cs of
           [] \<Rightarrow> None
         | fs' # rest \<Rightarrow> Some (result, cs\<lparr>store := s2\<lparr>active := fs_symbol_table fs'\<rparr>, fstate := fs', fstack := rest\<rparr>))
      })"

text \<open>\<^verbatim>\<open>return\<close> inside of a function.\<close>

definition return_from_function :: "vval option \<Rightarrow> call_state \<Rightarrow> call_state" where
  "return_from_function expr cs =
     cs\<lparr>return_value := (case expr of Some v \<Rightarrow> v | None \<Rightarrow> v_reset), fstate := (fstate cs)\<lparr>fs_returned := True\<rparr>\<rparr>"

text \<open>The next parameter of the function, in code that is executed: missing, by value or by reference.\<close>

definition get_function_parameter :: "vval \<Rightarrow> vval option \<Rightarrow> call_state \<Rightarrow> call_state option" where
  "get_function_parameter varname default_value cs =
     (case varname of
        V_STRING p \<Rightarrow> do {
          let i = IntKey (of_nat (param_index cs));
          let k = arr_key (bytes_of p);
          t \<leftarrow> active (store cs);
          c \<leftarrow> tab_find t i (store cs);
          s1 \<leftarrow> (case c of
              None \<Rightarrow> map_option snd (tab_update t k (case default_value of Some v \<Rightarrow> v | None \<Rightarrow> var_uninit) (store cs))
            | Some c \<Rightarrow> do {
                ptr \<leftarrow> tab_is_pointer t i (store cs);
                if \<not> ptr then do {
                  v \<leftarrow> cells (store cs) c;
                  (tmp, _, s1) \<leftarrow> pval_copy_constructor v (store cs);
                  (_, s2) \<leftarrow> tab_update t k tmp s1;
                  destroy_expr default_value s2
                }
                else do {
                  s1 \<leftarrow> tab_pointer_update t k c (store cs);
                  s2 \<leftarrow> tab_delete t i s1;
                  destroy_expr default_value s2
                }
              });
          Some (cs\<lparr>store := s1, param_index := param_index cs + 1\<rparr>)
        }
      | _ \<Rightarrow> None)"

text \<open>
  The parameter of a declaration, in code that is not executed: the types so far, \<^verbatim>\<open>func_arg_types\<close>, whose first byte counts
  them. Parameters by value between two by reference get the type 0.
\<close>

definition declare_parameter :: "nat \<Rightarrow> nat list option \<Rightarrow> nat \<Rightarrow> nat list option" where
  "declare_parameter ty types i =
     (if ty = BYREF_NONE then types
      else (let old = (case types of
                None \<Rightarrow> replicate (i + 2) 0
              | Some ts \<Rightarrow> take (hd ts + 1) ts @ replicate (i + 2 - (hd ts + 1)) 0)
            in Some ((old[0 := i + 1])[i + 1 := ty])))"

text \<open>
  A user function called by the interpreter itself, with the cells of its arguments. \<open>parse\<close> is the parser on the body of the
  function; its second result says that the script ended there. The name is looked up in the given table or in the object,
  but the call looks it up again, in the function table when there is no object.
\<close>

fun pass_pointers :: "tab \<Rightarrow> cell list \<Rightarrow> vstate \<Rightarrow> vstate option" where
  "pass_pointers ft [] s = Some s"
| "pass_pointers ft (c # cs) s = do { (_, s1) \<leftarrow> tab_next_pointer ft c s; pass_pointers ft cs s1 }"

definition call_user_function ::
  "(call_state \<Rightarrow> (call_state \<times> bool) option) \<Rightarrow> tab \<Rightarrow> cell option \<Rightarrow> cstring \<Rightarrow> cell list \<Rightarrow> call_state \<Rightarrow>
    (vval option \<times> call_state) option" where
  "call_user_function parse t0 object function_name params cs = do {
     t \<leftarrow> (case object of None \<Rightarrow> Some t0 | Some ob \<Rightarrow> object_table ob (store cs));
     c \<leftarrow> tab_find t (arr_key (php3_str_tolower (bytes_of function_name))) (store cs);
     (case c of
        None \<Rightarrow> Some (None, cs)
      | Some c \<Rightarrow> do {
          func \<leftarrow> cells (store cs) c;
          (case func of
             V_USER_FUNCTION a st args \<Rightarrow> do {
               let class_ptr = map_option (\<lambda>ob. \<lparr>vp_cell = Some ob, vp_write = False, vp_offset = 0\<rparr>) object;
               (_, cs1) \<leftarrow> cs_functioncall_pre_variable_passing (V_STRING function_name) class_ptr
                 (cs\<lparr>fstate := (fstate cs)\<lparr>fs_returned := False\<rparr>\<rparr>);
               ft \<leftarrow> fs_function_symbol_table (fstate cs1);
               s \<leftarrow> pass_pointers ft params (store cs1);
               cs2 \<leftarrow> cs_functioncall_post_variable_passing (\<lambda>_ _ _. None) (cs1\<lparr>store := s\<rparr>);
               (cs3, died) \<leftarrow> parse cs2;
               if died then Some (None, cs3)
               else do {
                 (r, cs4) \<leftarrow> cs_functioncall_end cs3;
                 Some (Some r, cs4\<lparr>fstate := fstate cs\<rparr>)
               }
             }
           | _ \<Rightarrow> Some (None, cs))
        })
   }"

subsection \<open>Declarations\<close>

text \<open>The end of a function declaration; \<open>args\<close> are the argument types, \<open>offset\<close> the function's token.\<close>

definition end_function_decleration :: "int \<Rightarrow> vval \<Rightarrow> nat list option \<Rightarrow> call_state \<Rightarrow> (unit option \<times> call_state) option" where
  "end_function_decleration offset function_name args cs =
     (case function_name of
        V_STRING p \<Rightarrow> do {
          let k = arr_key (php3_str_tolower (bytes_of p));
          (t, s1) \<leftarrow> (case class_table cs of
              Some ct \<Rightarrow> map_option (Pair ct) (tab_delete ct k (store cs))
            | None \<Rightarrow> Some (function_table cs, store cs));
          c \<leftarrow> tab_find t k s1;
          (case c of
             Some _ \<Rightarrow> Some (None, cs\<lparr>store := s1\<rparr>)
           | None \<Rightarrow> do {
               (_, s2) \<leftarrow> tab_update t k (V_USER_FUNCTION offset None args) s1;
               Some (Some (), cs\<lparr>store := s2\<rparr>)
             })
        }
      | _ \<Rightarrow> None)"

text \<open>
  The start of a class: empty, or a copy of its parent, whose constructor becomes a function of the new name too. A class
  whose name is in use is reported and replaces the old entry.
\<close>

definition cs_start_class_decleration :: "string \<Rightarrow> string option \<Rightarrow> call_state \<Rightarrow> (unit option \<times> call_state) option" where
  "cs_start_class_decleration classname parent cs = do {
     r \<leftarrow> (case parent of
         None \<Rightarrow> (case new_table (store cs) of (t, s1) \<Rightarrow> Some (Some (V_CLASS t, t, s1)))
       | Some q \<Rightarrow> do {
           pc \<leftarrow> tab_find (function_table cs) (arr_key q) (store cs);
           (case pc of
              None \<Rightarrow> Some None
            | Some pc \<Rightarrow> do {
                v \<leftarrow> cells (store cs) pc;
                (v', _, s1) \<leftarrow> pval_copy_constructor v (store cs);
                t \<leftarrow> table_of v';
                ctor \<leftarrow> tab_find t (arr_key q) s1;
                s2 \<leftarrow> (case ctor of
                    None \<Rightarrow> Some s1
                  | Some cc \<Rightarrow> do {
                      w \<leftarrow> cells s1 cc;
                      (w', _, s2) \<leftarrow> pval_copy_constructor w s1;
                      map_option snd (tab_update t (arr_key classname) w' s2)
                    });
                Some (Some (v', t, s2))
              })
         });
     (case r of
        None \<Rightarrow> Some (None, cs)
      | Some (v, t, s1) \<Rightarrow> do {
          (_, s2) \<leftarrow> tab_update (function_table cs) (arr_key classname) v s1;
          Some (Some (), cs\<lparr>store := s2, class_table := Some t\<rparr>)
        })
   }"

definition cs_end_class_decleration :: "call_state \<Rightarrow> call_state" where
  "cs_end_class_decleration cs = cs\<lparr>class_table := None\<rparr>"

end
