(* ===== verification/Var_Scope.thy ===== *)
theory Var_Scope
  imports Var_State Var_Calls
begin

text \<open>
  Scopes: what entering a function with a parameter by value or by reference and leaving it do to the memory and the
  names.
\<close>

subsection \<open>Leaving\<close>

lemma mem_owns:
  "mem s X C T \<Longrightarrow> distinct cs \<Longrightarrow> set cs \<subseteq> dom X \<Longrightarrow>
    \<exists>Co To C1 T1. owns_cells s cs Co To \<and> mem s (X |` (- set cs)) C1 T1 \<and> C = Co \<union> C1 \<and> T = To \<union> T1 \<and> Co \<inter> C1 = {} \<and> To \<inter> T1 = {}"
proof (induction cs arbitrary: X C T)
  case Nil
  then show ?case
    by (intro exI [of _ "{}"] exI [of _ C] exI [of _ T]) (simp add: owns_nil)
next
  case (Cons c cs)
  obtain x where x: "X c = Some x"
    using Cons.prems(3) by auto
  obtain v D S C' T' where v: "cells s c = Some v" "holds s v x D S" "c \<notin> D" "mem s (X(c := None)) C' T'"
    "insert c D \<inter> C' = {}" "S \<inter> T' = {}" "C = insert c D \<union> C'" "T = S \<union> T'"
    by (rule mem_split [OF Cons.prems(1) x])
  have sub: "set cs \<subseteq> dom (X(c := None))" "distinct cs"
    using Cons.prems(2,3) by auto
  obtain Co To C1 T1 where i: "owns_cells s cs Co To" "mem s ((X(c := None)) |` (- set cs)) C1 T1"
      "C' = Co \<union> C1" "T' = To \<union> T1" "Co \<inter> C1 = {}" "To \<inter> T1 = {}"
    using Cons.IH [OF v(4) sub(2,1)] by blast
  have "owns_cells s (c # cs) (insert c (D \<union> Co)) (S \<union> To)"
    by (rule owns_cons [OF v(1) holds_owns(1) [OF v(2)] i(1) v(3)]) (use v i in auto)
  moreover have "(X(c := None)) |` (- set cs) = X |` (- set (c # cs))"
    by (auto simp: restrict_map_def fun_eq_iff)
  then have "mem s (X |` (- set (c # cs))) C1 T1"
    using i(2) by simp
  moreover have "C = insert c (D \<union> Co) \<union> C1" "T = (S \<union> To) \<union> T1" "insert c (D \<union> Co) \<inter> C1 = {}" "(S \<union> To) \<inter> T1 = {}"
    using v i by auto
  ultimately show ?case
    by blast
qed

lemma scope_destroy:
  assumes m: "mem s X C T" and b: "tabs s t = Some b" "t \<notin> T" and ok: "store_ok s" "t \<noteq> symbol_table s"
    and own: "distinct (owned_cells (vt_entries b))" "set (owned_cells (vt_entries b)) \<subseteq> dom X"
  shows "\<exists>s' C' T'. table_destroy t s = Some s' \<and> mem s' (X |` (- set (owned_cells (vt_entries b)))) C' T' \<and>
    evolves s C (insert t T) s' C' T' \<and> tabs s' t = None \<and> (\<forall>c\<in>C - C'. cells s' c = None) \<and> C' \<subseteq> C \<and> unassigned s' = unassigned s"
proof -
  let ?cs = "owned_cells (vt_entries b)"
  obtain Co To C1 T1 where i: "owns_cells s ?cs Co To" "mem s (X |` (- set ?cs)) C1 T1"
      "C = Co \<union> C1" "T = To \<union> T1" "Co \<inter> C1 = {}" "To \<inter> T1 = {}"
    using mem_owns [OF m own] by blast
  let ?s = "forget Co (insert t To) s"
  have d: "table_destroy t s = Some ?s"
    by (rule table_destroy_owned [OF b(1) i(1)]) (use b i in auto)
  have "mem ?s (X |` (- set ?cs)) C1 T1"
    using i(2) by (rule mem_frame) (use b i in \<open>auto simp: same_on_def\<close>)
  moreover have "evolves s C (insert t T) ?s C1 T1"
  proof -
    have "store_ok ?s"
      using ok owns_allocated(2) [OF i(1)] by (intro store_ok_forget) auto
    moreover have "nothing_lost s C (insert t T) ?s C1 T1"
      using i unfolding nothing_lost_def by (auto split: if_splits)
    ultimately show ?thesis
      using i by (auto simp: evolves_def)
  qed
  ultimately show ?thesis
    using d i by (intro exI [of _ ?s] exI [of _ C1] exI [of _ T1]) auto
qed

subsection \<open>Entries that point\<close>

lemma pointer_entry_new:
  assumes "tabs s t = Some b" "entry_of b k = None"
  shows "tab_pointer_update t k c s = Some (put_table t (with_key k (b\<lparr>vt_entries := vt_entries b @ [(k, c, True)]\<rparr>)) s)"
  using assms by (simp add: tab_pointer_update_def)

lemma put_table_simps [simp]:
  "cells (put_table t b s) = cells s" "tabs (put_table t b s) = (tabs s)(t := Some b)" "next_cell (put_table t b s) = next_cell s"
  "next_tab (put_table t b s) = next_tab s" "symbol_table (put_table t b s) = symbol_table s" "active (put_table t b s) = active s"
  "unassigned (put_table t b s) = unassigned s"
  by (simp_all add: put_table_def)

lemma put_table_twice [simp]: "put_table t b (put_table t b' s) = put_table t b s"
  by (simp add: put_table_def)

lemma mem_put_table: "mem s X C T \<Longrightarrow> t \<notin> T \<Longrightarrow> mem (put_table t b s) X C T"
  by (erule mem_frame) (auto simp: same_on_def)

lemma store_ok_put_table: "store_ok s \<Longrightarrow> t < next_tab s \<Longrightarrow> store_ok (put_table t b s)"
  by (auto simp: store_ok_def)

subsection \<open>Entering\<close>

text \<open>
  A call \<^verbatim>\<open>f($v)\<close> or \<^verbatim>\<open>f(&$v)\<close> of a user function with one parameter \<^verbatim>\<open>$q\<close>, up to the first statement of its body: the
  actions of the parser in their order.
\<close>

definition enter_call :: "cstring \<Rightarrow> varptr \<Rightarrow> bool \<Rightarrow> cstring \<Rightarrow> call_state \<Rightarrow> call_state option" where
  "enter_call p vp by_reference q cs = do {
     (_, cs1) \<leftarrow> cs_functioncall_pre_variable_passing (V_STRING p) None cs;
     cs2 \<leftarrow> pass_parameter vp by_reference cs1;
     cs3 \<leftarrow> cs_functioncall_post_variable_passing (\<lambda>_ _ _. None) cs2;
     get_function_parameter (V_STRING q) None (cs3\<lparr>param_index := 0\<rparr>)
   }"

abbreviation globals_key :: hkey where "globals_key \<equiv> arr_key ''GLOBALS''"

definition scope_state :: "vstate \<Rightarrow> ventry list \<Rightarrow> ulong \<Rightarrow> vstate" where
  "scope_state s es n = s\<lparr>tabs := (tabs s)(next_tab s := Some \<lparr>vt_entries = es, vt_free = n\<rparr>), next_tab := next_tab s + 1\<rparr>"

definition called_state :: "cstring \<Rightarrow> call_state \<Rightarrow> fun_state" where
  "called_state p cs = (fstate cs)\<lparr>fs_function_symbol_table := None, fs_symbol_table := Some (next_tab (store cs)),
     fs_name := Some (php3_str_tolower (bytes_of p)), fs_kind := User_function, fs_arg_types := None,
     fs_hosting := Some (function_table cs), fs_object := None\<rparr>"

lemma globals_key: "globals_key = StrKey (''GLOBALS'' @ [NUL])"
  by code_simp

text \<open>The call before its parameters.\<close>

lemma pre_call:
  assumes "tab_find (function_table cs) (arr_key (php3_str_tolower (bytes_of p))) (store cs) = Some (Some fc)"
    "cells (store cs) fc = Some (V_USER_FUNCTION a st None)"
  shows "cs_functioncall_pre_variable_passing (V_STRING p) None cs = Some (Some (V_USER_FUNCTION a st None),
    cs\<lparr>store := scope_state (store cs) [(globals_key, globals cs, True)] 0, fstack := fstate cs # fstack cs,
       fstate := (called_state p cs)\<lparr>fs_function_symbol_table := Some (next_tab (store cs)), fs_symbol_table := fs_symbol_table (fstate cs)\<rparr>\<rparr>)"
  using assms
  by (simp add: cs_functioncall_pre_variable_passing_def call_table_def new_scope_def new_table_def tab_pointer_update_def
      entry_of_def put_table_def with_key_def globals_key scope_state_def called_state_def)

definition entered :: "cstring \<Rightarrow> call_state \<Rightarrow> vstate \<Rightarrow> call_state" where
  "entered p cs s = cs\<lparr>store := s\<lparr>active := Some (next_tab (store cs))\<rparr>, fstack := fstate cs # fstack cs,
     fstate := called_state p cs, return_value := v_reset, param_index := 1\<rparr>"

lemma next_free_zero: "next_free_after 0 0 = 1"
  by code_simp

text \<open>By reference: the name of the parameter leads to the cell of the argument.\<close>

lemma enter_by_reference:
  assumes f: "tab_find (function_table cs) (arr_key (php3_str_tolower (bytes_of p))) (store cs) = Some (Some fc)"
    "cells (store cs) fc = Some (V_USER_FUNCTION a st None)"
    and vp: "vp_cell vp = Some c" "\<not> vp_write vp" and q: "arr_key (bytes_of q) = StrKey k" "StrKey k \<noteq> globals_key"
  shows "enter_call p vp True q cs =
    Some (entered p cs (scope_state (store cs) [(globals_key, globals cs, True), (StrKey k, c, True)] 1))"
  using vp q
  by (simp add: enter_call_def pre_call [OF f] pass_parameter_def argument_type_def scope_state_def called_state_def clean_if_def
      tab_next_pointer_def entry_of_def globals_key tab_pointer_update_def put_table_def with_key_def next_free_zero
      cs_functioncall_post_variable_passing_def get_function_parameter_def tab_find_def tab_is_pointer_def tab_delete_def
      destroy_expr_def entered_def)

subsection \<open>Reading\<close>

lemma copied_copied [simp]: "copied (copied x) = copied x"
proof (induction x rule: copied.induct)
  case (2 sh es n)
  then have "map (\<lambda>(k, x). (k, copied (copied x))) es = map (\<lambda>(k, x). (k, copied x)) es"
    by auto
  then show ?case
    by (simp add: comp_def case_prod_unfold)
qed simp

lemma mem_value: "mem s X C T \<Longrightarrow> X c = Some x \<Longrightarrow> \<exists>v. cells s c = Some v \<and> reads s v x"
  using mem_split [of s X C T c x] holds_reads(1) by metis

lemma copy_reserved:
  assumes m: "mem s X C T" "X c = Some x" and v: "cells s c = Some v" and ok: "store_ok s"
  shows "\<exists>r s' D S. pval_copy_constructor v s = Some (r, SUCCESS, s') \<and> mem s' X C T \<and> reserved s' r (copied x) D S C T \<and>
    extends s s' \<and> store_ok s' \<and> evolves s {} {} s' D S"
proof -
  have "reads s v x"
    using mem_value [OF m] v by auto
  then obtain r s' where r: "pval_copy_constructor v s = Some (r, SUCCESS, s')" and fc: "fresh_copy s r (copied x) s'"
    using copy_fresh [OF _ ok] by blast
  have ext: "extends s s'" and h: "holds s' r (copied x) {next_cell s..<next_cell s'} {next_tab s..<next_tab s'}"
    using fc by (auto simp: fresh_copy_def)
  have fp: "C \<subseteq> {..<next_cell s}" "T \<subseteq> {..<next_tab s}"
    using mem_footprint [OF m(1) ok] by auto
  have "reserved s' r (copied x) {next_cell s..<next_cell s'} {next_tab s..<next_tab s'} C T"
    using h fp by (auto simp: reserved_def)
  with r show ?thesis
    using mem_frame [OF m(1) extends_same_on [OF ext fp]] ext fc evolves_fresh [OF fc] by (auto simp: fresh_copy_def)
qed

lemma read_plain:
  assumes m: "mem s X C T" "X c = Some x" and ok: "store_ok s" and vp: "vp_cell vp = Some c" "\<not> vp_write vp" "vp_offset vp = -1"
  shows "\<exists>r s' D S. read_pointer_value vp s = Some (r, s') \<and> mem s' X C T \<and> reserved s' r (copied x) D S C T \<and>
    extends s s' \<and> store_ok s' \<and> evolves s {} {} s' D S"
proof -
  obtain v where v: "cells s c = Some v" "reads s v x"
    using mem_value [OF m] by blast
  show ?thesis
  proof (cases "v = var_uninit")
    case True
    then have "x = Leaf var_uninit"
      using v(2) by (simp add: reads_scalar var_uninit_def)
    then have "reserved s var_uninit (copied x) {} {} C T"
      by (simp add: reserved_leaf var_uninit_def)
    moreover have "read_pointer_value vp s = Some (var_uninit, s)"
      using vp v(1) True by (simp add: read_pointer_value_def clean_if_def)
    ultimately show ?thesis
      using m(1) ok evolves_refl [OF ok] extends_refl by blast
  next
    case False
    obtain r s' D S where c: "pval_copy_constructor v s = Some (r, SUCCESS, s')" "mem s' X C T"
        "reserved s' r (copied x) D S C T" "extends s s'" "store_ok s'" "evolves s {} {} s' D S"
      using copy_reserved [OF m v(1) ok] by blast
    have "read_pointer_value vp s = Some (r, s')"
      using vp v(1) False c(1) by (simp add: read_pointer_value_def)
    with c show ?thesis
      by blast
  qed
qed

text \<open>The new scope beside the memory.\<close>

lemma scope_state_beside:
  assumes m: "mem s X C T" and ok: "store_ok s"
  shows "mem (scope_state s es n) X C T" "store_ok (scope_state s es n)" "next_tab s \<notin> T"
    "evolves s C T (scope_state s es n) C (insert (next_tab s) T)" "next_tab s \<noteq> symbol_table s"
proof -
  have fp: "T \<subseteq> {..<next_tab s}"
    using mem_footprint [OF m ok] by auto
  then show "next_tab s \<notin> T"
    by auto
  with m show "mem (scope_state s es n) X C T"
    by (elim mem_frame) (auto simp: same_on_def scope_state_def)
  show "store_ok (scope_state s es n)"
    using ok by (auto simp: store_ok_def scope_state_def)
  then show "evolves s C T (scope_state s es n) C (insert (next_tab s) T)"
    by (auto simp: evolves_def nothing_lost_def scope_state_def)
  show "next_tab s \<noteq> symbol_table s"
    using store_ok_symbol_table [OF ok] by simp
qed

lemma tabs_extends: "extends s s' \<Longrightarrow> store_ok s \<Longrightarrow> tabs s t = Some b \<Longrightarrow> tabs s' t = Some b"
  by (auto simp: extends_def dest: store_ok_tab)

text \<open>A copied value becomes an entry of the scope.\<close>

lemma copied_into_scope:
  assumes m: "mem s X C T" and ok: "store_ok s" and b: "tabs s t = Some b" "entry_of b k = None" "t \<notin> T"
    and c: "extends s s1" "store_ok s1" "mem s1 X C T" "reserved s1 r y D S C T" "evolves s {} {} s1 D S"
  shows "\<exists>C' T' b'. tab_update t k r s1 = Some (next_cell s1, with_new_entry t b k r s1) \<and>
      mem (with_new_entry t b k r s1) (X(next_cell s1 \<mapsto> y)) C' T' \<and> X (next_cell s1) = None \<and>
      tabs (with_new_entry t b k r s1) t = Some b' \<and> vt_entries b' = vt_entries b @ [(k, next_cell s1, False)] \<and>
      vt_free b' = bump_next k (vt_free b) \<and> t \<notin> T' \<and> next_tab (with_new_entry t b k r s1) = next_tab s1 \<and>
      evolves s C (insert t T) (with_new_entry t b k r s1) C' (insert t T') \<and>
      cells (with_new_entry t b k r s1) (next_cell s1) = Some r \<and>
      unassigned (with_new_entry t b k r s1) = unassigned s1 \<and> active (with_new_entry t b k r s1) = active s1"
proof -
  have b1: "tabs s1 t = Some b"
    using tabs_extends [OF c(1) ok b(1)] .
  have "S \<subseteq> {next_tab s..<next_tab s1}"
    using c(5) by (auto simp: evolves_def)
  then have t: "t \<notin> T \<union> S"
    using b(3) store_ok_tab [OF ok b(1)] by auto
  note n = new_value_entry [OF b1 b(2) c(3,2,4) t]
  have "evolves s C (insert t T) s1 (D \<union> C) (insert t (S \<union> T))"
    using evolves_widen [OF c(5), of C "insert t T"] by simp
  then have "evolves s C (insert t T) (with_new_entry t b k r s1) (insert (next_cell s1) (D \<union> C)) (insert t (S \<union> T))"
    using n(3) by (rule evolves_trans)
  then show ?thesis
    using n t
    by (intro exI [of _ "insert (next_cell s1) (D \<union> C)"] exI [of _ "S \<union> T"]
        exI [of _ "with_key k (b\<lparr>vt_entries := vt_entries b @ [(k, next_cell s1, False)]\<rparr>)"])
      (simp add: with_new_entry_def with_key_def)
qed

text \<open>By value: the parameter is a new variable with a copy of the argument.\<close>

definition entered_copy :: "vstate \<Rightarrow> (cell \<rightharpoonup> tree) \<Rightarrow> cell set \<Rightarrow> tab set \<Rightarrow> tab \<Rightarrow> ventry list \<Rightarrow> vstate \<Rightarrow> bool" where
  "entered_copy s X C T t es s' \<longleftrightarrow> (\<exists>C' T' b. mem s' X C' T' \<and> tabs s' t = Some b \<and> vt_entries b = es \<and> t \<notin> T' \<and>
     evolves s C T (s'\<lparr>active := active s\<rparr>) C' (insert t T') \<and> unassigned s' = unassigned s)"

lemma evolves_active: "evolves s D S s' D' S' \<Longrightarrow> evolves (s\<lparr>active := a\<rparr>) D S (s'\<lparr>active := a\<rparr>) D' S'"
  unfolding evolves_def store_ok_def by (auto simp del: not_None_eq)

lemma with_active_simps [simp]:
  "mem (s\<lparr>active := a\<rparr>) X C T = mem s X C T" "store_ok (s\<lparr>active := a\<rparr>) = store_ok s"
  "holds (s\<lparr>active := a\<rparr>) v x D S = holds s v x D S"
proof -
  have so: "same_on D S s (s\<lparr>active := a\<rparr>)" "same_on D S (s\<lparr>active := a\<rparr>) s" for D S
    by (simp_all add: same_on_def)
  show "mem (s\<lparr>active := a\<rparr>) X C T = mem s X C T"
    using mem_frame so by blast
  show "holds (s\<lparr>active := a\<rparr>) v x D S = holds s v x D S"
    using holds_frame(1) so by blast
qed (simp add: store_ok_def)

lemma enter_by_value:
  assumes f: "tab_find (function_table cs) (arr_key (php3_str_tolower (bytes_of p))) (store cs) = Some (Some fc)"
    "cells (store cs) fc = Some (V_USER_FUNCTION a st None)"
    and vp: "vp_cell vp = Some c" "\<not> vp_write vp" "vp_offset vp = -1"
    and q: "arr_key (bytes_of q) = StrKey k" "StrKey k \<noteq> globals_key"
    and m: "mem (store cs) X C T" "X c = Some x" and ok: "store_ok (store cs)"
  shows "\<exists>s' d0 d1. enter_call p vp False q cs = Some (entered p cs s') \<and> X d0 = None \<and> X d1 = None \<and> d0 \<noteq> d1 \<and>
    entered_copy (store cs) (X(d0 \<mapsto> copied x, d1 \<mapsto> copied x)) C T (next_tab (store cs))
      [(globals_key, globals cs, True), (IntKey 0, d0, False), (StrKey k, d1, False)] s'"
proof -
  let ?s = "store cs" and ?t = "next_tab (store cs)"
  let ?es = "[(globals_key, globals cs, True)]"
  let ?s1 = "scope_state ?s ?es 0"
  let ?b1 = "\<lparr>vt_entries = ?es, vt_free = 0\<rparr> :: vtable"
  note s1 = scope_state_beside(1,2) [OF m(1) ok, of ?es 0] scope_state_beside(3) [OF m(1) ok]
    scope_state_beside(4) [OF m(1) ok, of ?es 0]
  have b1: "tabs ?s1 ?t = Some ?b1" "entry_of ?b1 (IntKey 0) = None"
    by (simp_all add: scope_state_def entry_of_def globals_key)
  obtain r s2 D S where rd: "read_pointer_value vp ?s1 = Some (r, s2)" "mem s2 X C T" "reserved s2 r (copied x) D S C T"
      "extends ?s1 s2" "store_ok s2" "evolves ?s1 {} {} s2 D S"
    using read_plain [OF s1(1) m(2) s1(2) vp] by blast
  let ?d0 = "next_cell s2" and ?s3 = "with_new_entry ?t ?b1 (IntKey 0) r s2"
  let ?s3' = "?s3\<lparr>active := Some ?t\<rparr>"
  obtain C3 T3 b3 where e3: "tab_update ?t (IntKey 0) r s2 = Some (?d0, ?s3)" "mem ?s3 (X(?d0 \<mapsto> copied x)) C3 T3"
      "X ?d0 = None" "tabs ?s3 ?t = Some b3" "vt_entries b3 = ?es @ [(IntKey 0, ?d0, False)]" "?t \<notin> T3"
      "evolves ?s1 C (insert ?t T) ?s3 C3 (insert ?t T3)" "cells ?s3 ?d0 = Some r" "unassigned ?s3 = unassigned s2" "active ?s3 = active s2"
    using copied_into_scope [OF s1(1,2) b1 s1(3) rd(4,5,2,3,6)] by auto
  have ok3: "store_ok ?s3"
    using e3(7) by (simp add: evolves_def)
  have s3': "mem ?s3' (X(?d0 \<mapsto> copied x)) C3 T3" "store_ok ?s3'" "cells ?s3' ?d0 = Some r" "tabs ?s3' ?t = Some b3"
    using e3 ok3 by simp_all
  obtain r2 s4 D4 S4 where cp: "pval_copy_constructor r ?s3' = Some (r2, SUCCESS, s4)" "mem s4 (X(?d0 \<mapsto> copied x)) C3 T3"
      "reserved s4 r2 (copied (copied x)) D4 S4 C3 T3" "extends ?s3' s4" "store_ok s4" "evolves ?s3' {} {} s4 D4 S4"
    using copy_reserved [OF s3'(1) _ s3'(3,2), of "copied x"] by auto
  let ?d1 = "next_cell s4" and ?s5 = "with_new_entry ?t b3 (StrKey k) r2 s4"
  have n3: "entry_of b3 (StrKey k) = None"
    using e3(5) q(2) by (simp add: entry_of_def)
  obtain C5 T5 b5 where e5: "tab_update ?t (StrKey k) r2 s4 = Some (?d1, ?s5)" "mem ?s5 (X(?d0 \<mapsto> copied x, ?d1 \<mapsto> copied x)) C5 T5"
      "(X(?d0 \<mapsto> copied x)) ?d1 = None" "tabs ?s5 ?t = Some b5" "vt_entries b5 = vt_entries b3 @ [(StrKey k, ?d1, False)]"
      "?t \<notin> T5" "evolves ?s3' C3 (insert ?t T3) ?s5 C5 (insert ?t T5)" "unassigned ?s5 = unassigned s4" "active ?s5 = active s4"
    using copied_into_scope [OF s3'(1,2,4) n3 e3(6) cp(4,5,2,3,6)] by auto
  have "?s3\<lparr>active := active ?s\<rparr> = ?s3"
    using e3(10) rd(4) by (intro vstate.equality) (simp_all add: extends_def scope_state_def)
  then have "evolves ?s C T (?s5\<lparr>active := active ?s\<rparr>) C5 (insert ?t T5)"
    using evolves_trans [OF evolves_trans [OF s1(4) e3(7)]] evolves_active [OF e5(7), of "active ?s"] by simp
  moreover have "unassigned ?s5 = unassigned ?s"
    using e5(8) e3(9) rd(4) cp(4) by (simp add: extends_def scope_state_def)
  ultimately have "entered_copy ?s (X(?d0 \<mapsto> copied x, ?d1 \<mapsto> copied x)) C T ?t
      [(globals_key, globals cs, True), (IntKey 0, ?d0, False), (StrKey k, ?d1, False)] ?s5"
    unfolding entered_copy_def using e5 e3(5) by auto
  moreover have "enter_call p vp False q cs = Some (entered p cs ?s5)"
  proof -
    have b2: "tabs s2 ?t = Some ?b1"
      using tabs_extends [OF rd(4) s1(2) b1(1)] .
    have act: "?s5\<lparr>active := Some ?t\<rparr> = ?s5"
      using e5(9) cp(4) by (intro vstate.equality) (simp_all add: extends_def)
    have k0: "map_of (vt_entries b3) (IntKey 0) = Some (?d0, False)"
      using e3(5) by (simp add: globals_key)
    have g: "globals_key \<noteq> IntKey 0"
      by (simp add: globals_key)
    show ?thesis
      using rd(1) b1 b2 e3(1,4,8) cp(1) e5(1) q(1) k0 g act
      by (simp add: enter_call_def pre_call [OF f] pass_parameter_def argument_type_def called_state_def tab_next_insert_def
          cs_functioncall_post_variable_passing_def get_function_parameter_def tab_find_def tab_is_pointer_def entry_of_def
          destroy_expr_def entered_def BYREF_NONE_def)
  qed
  moreover have "X ?d1 = None" "?d0 \<noteq> ?d1"
    using e5(3) by (auto split: if_splits)
  ultimately show ?thesis
    using e3(3) by blast
qed

text \<open>The value of an expression is given up.\<close>

lemma drop_reserved:
  assumes "reserved s r y D S C T" "mem s X C T" "store_ok s" "evolves s0 C0 T0 s (C \<union> D) (T \<union> S)"
  shows "\<exists>s'. pval_destructor r s = Some s' \<and> mem s' X C T \<and> store_ok s' \<and> evolves s0 C0 T0 s' C T \<and>
    unassigned s' = unassigned s \<and> (\<forall>t b. tabs s t = Some b \<longrightarrow> t \<notin> S \<longrightarrow> tabs s' t = Some b) \<and> symbol_table s' = symbol_table s"
proof -
  have h: "holds s r y D S" and dj: "D \<inter> C = {}" "S \<inter> T = {}"
    using assms(1) by (auto simp: reserved_def)
  have ok: "store_ok (forget D S s)"
    using assms(3) holds_footprint(3) [OF h assms(3)] by (rule store_ok_forget)
  have "evolves s (C \<union> D) (T \<union> S) (forget D S s) C T"
    using ok by (auto simp: evolves_def nothing_lost_def split: if_splits)
  with assms(4) have "evolves s0 C0 T0 (forget D S s) C T"
    by (rule evolves_trans)
  moreover have "mem (forget D S s) X C T"
    using assms(2) by (rule mem_frame) (use dj in \<open>auto simp: same_on_def\<close>)
  ultimately show ?thesis
    using destructor_owned [OF holds_owns(1) [OF h]] ok by auto
qed

end
