(* ===== verification/Var_Probe.thy ===== *)
theory Var_Probe
  imports Var_Scope
begin

text \<open>
  Elements that are read, or tested with \<^verbatim>\<open>isset\<close>: the code first makes the missing ones and takes them away again, which
  leaves traces in the array.
\<close>

subsection \<open>Deleting an element\<close>

lemma delete_absent: "k \<notin> set (map fst es) \<Longrightarrow> AList.delete k es = es"
  by (induction es) auto

lemma remove_entry_keys: "set (map fst (remove_entry k l)) \<subseteq> set (map fst l)"
proof (induction l)
  case (Cons e l)
  then show ?case
    by (cases e) (auto simp del: set_map split: if_splits)
qed simp

lemma remove_entry_distinct: "distinct (map fst l) \<Longrightarrow> distinct (map fst (remove_entry k l))"
proof (induction l)
  case (Cons e l)
  then show ?case
    using remove_entry_keys [of k l] by (cases e) auto
qed simp

lemma holds_entries_remove:
  "holds_entries s l es C T \<Longrightarrow> map_of l k = Some (c, ptr) \<Longrightarrow> distinct (map fst l) \<Longrightarrow>
    \<exists>x D S C' T'. \<not> ptr \<and> hcell s c x D S \<and> holds_entries s (remove_entry k l) (AList.delete k es) C' T' \<and>
      C = D \<union> C' \<and> T = S \<union> T' \<and> D \<inter> C' = {} \<and> S \<inter> T' = {}"
proof (induction l arbitrary: es C T)
  case (Cons e l)
  obtain k' d v y D S es' C1 T1 where e: "e = (k', d, False)" "es = (k', y) # es'" "C = insert d (D \<union> C1)" "T = S \<union> T1"
      and h: "cells s d = Some v" "holds s v y D S" "holds_entries s l es' C1 T1" "d \<notin> D" "S \<inter> T1 = {}" "d \<notin> C1" "D \<inter> C1 = {}"
    using Cons.prems(1) by (blast elim: holds_consE)
  show ?case
  proof (cases "k' = k")
    case True
    have "k \<notin> set (map fst es')"
      using reads_keys [OF holds_reads(2) [OF h(3)]] Cons.prems(3) e(1) True by auto
    then have "AList.delete k es = es'"
      using e(2) True by (simp add: delete_absent)
    moreover have "hcell s c y (insert d D) S" "\<not> ptr"
      using h e True Cons.prems(2) by (auto simp: hcell_def)
    ultimately show ?thesis
      using e h True by (intro exI [of _ y] exI [of _ "insert d D"] exI [of _ S] exI [of _ C1] exI [of _ T1]) auto
  next
    case False
    then obtain x D2 S2 C2 T2 where i: "\<not> ptr" "hcell s c x D2 S2" "holds_entries s (remove_entry k l) (AList.delete k es') C2 T2"
        "C1 = D2 \<union> C2" "T1 = S2 \<union> T2" "D2 \<inter> C2 = {}" "S2 \<inter> T2 = {}"
      using Cons.IH [OF h(3)] Cons.prems(2,3) e(1) by auto
    have "holds_entries s ((k', d, False) # remove_entry k l) ((k', y) # AList.delete k es') (insert d (D \<union> C2)) (S \<union> T2)"
      by (rule holds_cons [OF h(1,2) i(3) h(4)]) (use h i in auto)
    then have "holds_entries s (remove_entry k (e # l)) (AList.delete k es) (insert d (D \<union> C2)) (S \<union> T2)"
      using e False by simp
    moreover have "C = D2 \<union> insert d (D \<union> C2)" "T = S2 \<union> (S \<union> T2)" "D2 \<inter> insert d (D \<union> C2) = {}" "S2 \<inter> (S \<union> T2) = {}"
      using e h i by auto
    ultimately show ?thesis
      using i(1,2) by blast
  qed
qed simp

lemma delete_at:
  assumes h: "hcell s c x D S" and ok: "store_ok s" and p: "cell_at s c pre = Some d" and t: "Option.bind (cells s d) table_of = Some t"
    and n: "tree_at pre x = Some (Node sh es n)" "map_of es k \<noteq> None"
  shows "\<exists>s' D' S'. tab_delete t k s = Some s' \<and> hcell s' c (tree_put pre (Node sh (AList.delete k es) n) x) D' S' \<and>
    evolves s D S s' D' S' \<and> unassigned s' = unassigned s"
proof -
  obtain y D1 S1 where y: "tree_at pre x = Some y" "hcell s d y D1 S1"
      and w: "\<And>s' y' D2 S2. evolves s D1 S1 s' D2 S2 \<Longrightarrow> hcell s' d y' D2 S2 \<Longrightarrow>
        \<exists>D' S'. hcell s' c (tree_put pre y' x) D' S' \<and> evolves s D S s' D' S' \<and> cell_at s' c pre = Some d"
    by (rule focus_evolves [OF h p ok]) blast
  have y': "hcell s d (Node sh es n) D1 S1"
    using y n(1) by simp
  obtain v where v: "cells s d = Some v" "table_of v = Some t"
    using t by (auto split: bind_splits)
  then obtain sh' where vt: "v = with_table sh' t"
    using table_of_with_table by blast
  obtain b where b: "tabs s t = Some b"
    using y' v(1) vt by (auto simp: hcell_def elim: reads_tableE dest: holds_reads(1))
  obtain F T where f: "v = with_table sh t" "n = vt_free b" "t \<noteq> symbol_table s" "distinct (map fst (vt_entries b))"
      "holds_entries s (vt_entries b) es F T" "t \<notin> T" "D1 = insert d F" "d \<notin> F" "S1 = insert t T"
    by (rule hcell_node [OF y' v b]) blast
  have "k \<in> fst ` set (vt_entries b)"
    using reads_keys [OF holds_reads(2) [OF f(5)]] n(2) by (metis map_of_eq_None_iff set_map)
  then obtain c1 ptr where e: "map_of (vt_entries b) k = Some (c1, ptr)"
    by (metis map_of_eq_None_iff not_None_eq prod.exhaust)
  obtain x1 Da Sa C' T' where r: "\<not> ptr" "hcell s c1 x1 Da Sa" "holds_entries s (remove_entry k (vt_entries b)) (AList.delete k es) C' T'"
      "F = Da \<union> C'" "T = Sa \<union> T'" "Da \<inter> C' = {}" "Sa \<inter> T' = {}"
    using holds_entries_remove [OF f(5) e f(4)] by blast
  let ?b = "b\<lparr>vt_entries := remove_entry k (vt_entries b)\<rparr>"
  let ?s1 = "put_table t ?b s"
  obtain v1 Fa where c1: "cells s c1 = Some v1" "holds s v1 x1 Fa Sa" "c1 \<notin> Fa" "Da = insert c1 Fa"
    using r(2) unfolding hcell_def by blast
  have "holds ?s1 v1 x1 Fa Sa"
    using c1(2) by (rule holds_frame(1)) (use f(6) r(5) in \<open>auto simp: same_on_def\<close>)
  then have "run_jobs [J_entry c1] ?s1 = Some (forget (insert c1 Fa) Sa ?s1)"
    using entry_destroy_owned [of ?s1 c1 v1 Fa Sa] c1 holds_owns(1) by simp
  then have del: "tab_delete t k s = Some (forget Da Sa ?s1)"
    using b e r(1) c1(4) by (simp add: tab_delete_def entry_of_def Let_def)
  let ?s = "forget Da Sa ?s1"
  have es: "holds_entries ?s (vt_entries ?b) (AList.delete k es) C' T'"
    using r(3) by (simp, elim holds_frame(2)) (use f(6) r in \<open>auto simp: same_on_def\<close>)
  have st: "cells ?s d = Some (with_table sh t)" "tabs ?s t = Some ?b" "t \<noteq> symbol_table ?s"
    using v(1) f r(4,5) by auto
  have "hcell ?s d (Node sh (AList.delete k es) (vt_free ?b)) (insert d C') (insert t T')"
    by (rule hcell_nodeI [OF st _ es]) (use f r remove_entry_distinct in auto)
  then have hd: "hcell ?s d (Node sh (AList.delete k es) n) (insert d C') (insert t T')"
    using f(2) by simp
  have "store_ok ?s"
    using ok store_ok_tab [OF ok b] hcell_footprint(3) [OF r(2) ok]
    by (intro store_ok_forget store_ok_put_table) auto
  then have ev: "evolves s D1 S1 ?s (insert d C') (insert t T')"
  proof -
    have "nothing_lost s D1 S1 ?s (insert d C') (insert t T')"
      using f(7,9) r(4,5) b unfolding nothing_lost_def by (auto split: if_splits)
    with \<open>store_ok ?s\<close> f r show ?thesis
      by (auto simp: evolves_def)
  qed
  show ?thesis
    using w [OF ev hd] del by auto
qed

subsection \<open>The trace of a test\<close>

text \<open>
  What stays in a variable after an element was read or tested: a missing key raises the next free index of its array, a
  blank value on the path becomes an empty array.
\<close>

fun tree_probe :: "hkey list \<Rightarrow> tree \<Rightarrow> tree" where
  "tree_probe [] x = un_null x"
| "tree_probe (k # ks) (Node sh es n) =
     (case map_of es k of Some y \<Rightarrow> Node sh (AList.update k (tree_probe ks y) es) n | None \<Rightarrow> Node sh es (bump_next k n))"
| "tree_probe (k # ks) (Leaf v) = Node Array_shape [] (bump_next k 0)"

lemma tree_open_cases:
  assumes "tree_open k x = Some x1"
  obtains v where "x = Leaf v" "blank v" "x1 = Node Array_shape [(k, Leaf V_NULL)] (bump_next k 0)"
    | es n where "x = Node Array_shape es n" "map_of es k = None" "x1 = Node Array_shape (es @ [(k, Leaf V_NULL)]) (bump_next k n)"
    | es n y where "x = Node Array_shape es n" "map_of es k = Some y" "x1 = x"
proof (cases x)
  case (Leaf v)
  then show thesis
    using assms that(1) by (auto split: if_splits)
next
  case (Node sh es n)
  then have "sh = Array_shape"
    using assms by (cases sh) auto
  show thesis
  proof (cases "map_of es k")
    case None
    then show thesis
      using assms Node \<open>sh = Array_shape\<close> by (intro that(2)) auto
  next
    case (Some y)
    then show thesis
      using assms Node \<open>sh = Array_shape\<close> by (intro that(3)) auto
  qed
qed

lemma delete_snoc: "map_of es k = None \<Longrightarrow> AList.delete k (es @ [(k, y)]) = es"
  by (induction es) (auto split: if_splits)

text \<open>Deleting the first missing key again leaves the trace.\<close>

lemma probe_missing:
  "tree_missing ks x = Some (pre, k) \<Longrightarrow> tree_fetch ks x = Some x' \<Longrightarrow>
    \<exists>es n. tree_at pre (tree_put ks z x') = Some (Node Array_shape es n) \<and> map_of es k \<noteq> None \<and>
      tree_put pre (Node Array_shape (AList.delete k es) n) (tree_put ks z x') = tree_probe ks x"
proof (induction ks arbitrary: x x' pre)
  case (Cons k0 ks)
  obtain x1 y y' where f: "tree_open k0 x = Some x1" "tree_at [k0] x1 = Some y" "tree_fetch ks y = Some y'" "x' = tree_put [k0] y' x1"
    using Cons.prems(2) by (auto split: bind_splits)
  from f(1) show ?case
  proof (cases rule: tree_open_cases)
    case (1 v)
    then show ?thesis
      using Cons.prems f by auto
  next
    case (2 es n)
    then show ?thesis
      using Cons.prems f by (auto simp: map_add_def AList_update_snoc delete_snoc)
  next
    case (3 es n y0)
    then have y0: "y0 = y"
      using f(2) by simp
    obtain pre' where pre: "pre = k0 # pre'" "tree_missing ks y = Some (pre', k)"
      using Cons.prems(1) 3 y0 by auto
    obtain es' n' where i: "tree_at pre' (tree_put ks z y') = Some (Node Array_shape es' n')" "map_of es' k \<noteq> None"
        "tree_put pre' (Node Array_shape (AList.delete k es') n') (tree_put ks z y') = tree_probe ks y"
      using Cons.IH [OF pre(2) f(3)] by blast
    then show ?thesis
      using 3 y0 f(4) pre(1) by (auto simp: update_conv' AList_update_twice)
  qed
qed simp

lemma probe_found:
  "tree_missing ks x = None \<Longrightarrow> tree_fetch ks x = Some x' \<Longrightarrow>
    \<exists>y. x' = x \<and> tree_at ks x = Some y \<and> tree_put ks (un_null y) x = tree_probe ks x"
proof (induction ks arbitrary: x x')
  case (Cons k0 ks)
  obtain x1 y y' where f: "tree_open k0 x = Some x1" "tree_at [k0] x1 = Some y" "tree_fetch ks y = Some y'" "x' = tree_put [k0] y' x1"
    using Cons.prems(2) by (auto split: bind_splits)
  from f(1) show ?case
  proof (cases rule: tree_open_cases)
    case (3 es n y0)
    then have y0: "y0 = y" "tree_missing ks y = None"
      using f(2) Cons.prems(1) by auto
    obtain w where "y' = y" "tree_at ks y = Some w" "tree_put ks (un_null w) y = tree_probe ks y"
      using Cons.IH [OF y0(2) f(3)] by blast
    then show ?thesis
      using 3 y0 f(4) by (auto simp: AList_update_same)
  qed (use Cons.prems(1) in auto)
qed simp

lemma missing_at: "tree_fetch ks x \<noteq> None \<Longrightarrow> tree_missing ks x \<noteq> None \<Longrightarrow> tree_at ks x = None"
proof (induction ks arbitrary: x)
  case (Cons k0 ks)
  obtain x1 y where f: "tree_open k0 x = Some x1" "tree_at [k0] x1 = Some y" "tree_fetch ks y \<noteq> None"
    using Cons.prems(1) by (auto split: bind_splits)
  from f(1) show ?case
  proof (cases rule: tree_open_cases)
    case (3 es n y0)
    then show ?thesis
      using f(2,3) Cons by (auto simp del: not_None_eq)
  qed auto
qed simp

subsection \<open>The element that is pointed to\<close>

lemma tracked_delete:
  assumes "unassigned s = vt # rest"
  shows "clean_unassigned_variable_top True s = map_option (\<lambda>s1. s1\<lparr>unassigned := rest\<rparr>) (tab_delete (tracked_tab vt) (tracked_key vt) s)"
  using assms by (cases vt) (simp_all add: clean_unassigned_variable_top_def map_option_case split: option.splits bind_splits)

lemma tree_at_put: "tree_at ks x = Some y \<Longrightarrow> tree_at ks (tree_put ks z x) = Some z"
proof (induction ks arbitrary: x)
  case (Cons k ks)
  then show ?case
    by (cases x) (auto simp: update_conv' split: bind_splits)
qed simp

definition probed :: "vstate \<Rightarrow> cell \<Rightarrow> cell set \<Rightarrow> tab set \<Rightarrow> tree \<Rightarrow> vstate \<Rightarrow> bool" where
  "probed s c D S x' s' \<longleftrightarrow> (\<exists>D' S'. hcell s' c x' D' S' \<and> evolves s D S s' D' S')"

text \<open>The variable made last is taken away again.\<close>

lemma undo_missing:
  assumes h: "hcell s1 c (tree_put ks (un_null y) x') D1 S1" and ok: "store_ok s1" and f: "tree_fetch ks x = Some x'"
    and vt: "tree_missing ks x = Some m" "unassigned s1 = vt # rest" "tracked s1 c m vt"
  shows "\<exists>s2. clean_unassigned_variable_top True s1 = Some s2 \<and> probed s1 c D1 S1 (tree_probe ks x) s2 \<and> unassigned s2 = rest"
proof -
  obtain pre k where m: "m = (pre, k)"
    by fastforce
  obtain d0 where d0: "cell_at s1 c pre = Some d0" "Option.bind (cells s1 d0) table_of = Some (tracked_tab vt)" "tracked_key vt = k"
    using vt(3) m by (auto simp: tracked_def split: bind_splits)
  obtain es' n where n: "tree_at pre (tree_put ks (un_null y) x') = Some (Node Array_shape es' n)" "map_of es' k \<noteq> None"
      "tree_put pre (Node Array_shape (AList.delete k es') n) (tree_put ks (un_null y) x') = tree_probe ks x"
    using probe_missing [OF _ f] vt(1) m by blast
  obtain s2 D2 S2 where s2: "tab_delete (tracked_tab vt) k s1 = Some s2" "hcell s2 c (tree_probe ks x) D2 S2"
      "evolves s1 D1 S1 s2 D2 S2" "unassigned s2 = unassigned s1"
    using delete_at [OF h ok d0(1,2) n(1,2)] n(3) by auto
  let ?s2 = "s2\<lparr>unassigned := rest\<rparr>"
  have "probed s1 c D1 S1 (tree_probe ks x) ?s2"
    using hcell_unassigned [OF s2(2)] s2(3) by (auto simp: probed_def)
  moreover have "clean_unassigned_variable_top True s1 = Some ?s2"
    using tracked_delete [OF vt(2)] d0(3) s2(1) by simp
  ultimately show ?thesis
    by auto
qed

end
