(* ===== verification/Var_View.thy ===== *)
theory Var_View
  imports Var_Probe
begin

text \<open>
  A scope and the memory behind its names: what an operation on one variable, a new name and a deleted name do to both.
\<close>

text \<open>
  What is around the variables of a scope: names that are not used, like \<^verbatim>\<open>GLOBALS\<close>, names that are pointers to variables of
  another scope (reference parameters and global variables), and all other cells and tables.
\<close>

record surroundings =
  hidden :: "hkey set"
  linked :: "hkey \<rightharpoonup> cell"
  rest_cells :: "cell \<rightharpoonup> vval"
  rest_tabs :: "tab \<rightharpoonup> vtable"
  global_table :: tab

definition scope_table :: "surroundings \<Rightarrow> vtable \<Rightarrow> bool" where
  "scope_table fr b \<longleftrightarrow> distinct (map fst (vt_entries b)) \<and>
     (\<forall>k c ptr. entry_of b k = Some (c, ptr) \<longrightarrow> ptr = (k \<in> hidden fr \<union> dom (linked fr)))"

definition scoped :: "surroundings \<Rightarrow> vstate \<Rightarrow> tab \<Rightarrow> (hkey \<rightharpoonup> cell) \<Rightarrow> (cell \<rightharpoonup> tree) \<Rightarrow> cell set \<Rightarrow> tab set \<Rightarrow> bool" where
  "scoped fr s t N X C T \<longleftrightarrow> mem s X C T \<and> store_ok s \<and> active s = Some t \<and> symbol_table s = global_table fr \<and> t \<notin> T \<and>
     (\<exists>b. tabs s t = Some b \<and> scope_table fr b) \<and> names s t |` (- hidden fr) = N \<and> inj_on N (dom N) \<and> ran N \<subseteq> dom X \<and>
     linked fr \<subseteq>\<^sub>m N"

text \<open>The store is \<open>C\<close> and \<open>T\<close> and the rest, \<open>R\<close> and \<open>Q\<close>.\<close>

definition rest_kept :: "(cell \<rightharpoonup> vval) \<Rightarrow> (tab \<rightharpoonup> vtable) \<Rightarrow> vstate \<Rightarrow> cell set \<Rightarrow> tab set \<Rightarrow> bool" where
  "rest_kept R Q s C T \<longleftrightarrow> (\<forall>c. c \<notin> C \<longrightarrow> cells s c = R c) \<and> (\<forall>u. u \<notin> T \<longrightarrow> tabs s u = Q u) \<and>
     dom R \<inter> C = {} \<and> dom Q \<inter> T = {} \<and> C \<subseteq> {..<next_cell s} \<and> T \<subseteq> {..<next_tab s}"

lemma rest_kept_step:
  assumes u: "rest_kept R Q s C T" and ok: "store_ok s" and e: "evolves s C T s' C' T'"
  shows "rest_kept R Q s' C' T'"
proof -
  have u': "c \<notin> C \<Longrightarrow> cells s c = R c" "v \<notin> T \<Longrightarrow> tabs s v = Q v"
      "dom R \<inter> C = {}" "dom Q \<inter> T = {}" "C \<subseteq> {..<next_cell s}" "T \<subseteq> {..<next_tab s}" for c v
    using u unfolding rest_kept_def by auto
  have e': "c < next_cell s \<Longrightarrow> c \<notin> C \<Longrightarrow> cells s' c = cells s c" "v < next_tab s \<Longrightarrow> v \<notin> T \<Longrightarrow> tabs s' v = tabs s v"
      "next_cell s \<le> next_cell s'" "next_tab s \<le> next_tab s'" "C' \<subseteq> C \<union> {next_cell s..<next_cell s'}"
      "T' \<subseteq> T \<union> {next_tab s..<next_tab s'}" "dom (cells s') \<subseteq> dom (cells s) - C \<union> C'" "dom (tabs s') \<subseteq> dom (tabs s) - T \<union> T'" for c v
    using e unfolding evolves_def nothing_lost_def by simp_all
  have new: "c \<ge> next_cell s \<Longrightarrow> R c = None" "v \<ge> next_tab s \<Longrightarrow> Q v = None" for c v
  proof -
    assume "c \<ge> next_cell s"
    moreover from this have "c \<notin> C"
      using u'(5) by auto
    ultimately show "R c = None"
      using u'(1) [of c] ok by (simp add: store_ok_def)
  next
    assume "v \<ge> next_tab s"
    moreover from this have "v \<notin> T"
      using u'(6) by auto
    ultimately show "Q v = None"
      using u'(2) [of v] ok by (simp add: store_ok_def)
  qed
  have "cells s' c = R c" if c: "c \<notin> C'" for c
  proof (cases "c < next_cell s \<and> c \<notin> C")
    case False
    then have "R c = None" "c \<notin> dom (cells s) - C"
      using new(1) [of c] u'(3) ok by (auto simp: store_ok_def)
    then show ?thesis
      using e'(7) c by auto
  qed (simp add: e'(1) u'(1))
  moreover have "tabs s' v = Q v" if v: "v \<notin> T'" for v
  proof (cases "v < next_tab s \<and> v \<notin> T")
    case False
    then have "Q v = None" "v \<notin> dom (tabs s) - T"
      using new(2) [of v] u'(4) ok by (auto simp: store_ok_def)
    then show ?thesis
      using e'(8) v by auto
  qed (simp add: e'(2) u'(2))
  moreover have "R c = None" if "c \<in> C'" for c
    using that e'(5) u'(3) new(1) [of c] by (cases "c \<in> C") auto
  then have "dom R \<inter> C' = {}"
    by (metis disjoint_iff domIff)
  moreover have "Q v = None" if "v \<in> T'" for v
    using that e'(6) u'(4) new(2) [of v] by (cases "v \<in> T") auto
  then have "dom Q \<inter> T' = {}"
    by (metis disjoint_iff domIff)
  moreover have "C' \<subseteq> {..<next_cell s'}"
    by (rule subset_trans [OF e'(5)]) (use u'(5) e'(3) in auto)
  moreover have "T' \<subseteq> {..<next_tab s'}"
    by (rule subset_trans [OF e'(6)]) (use u'(6) e'(4) in auto)
  ultimately show ?thesis
    unfolding rest_kept_def by blast
qed

definition all_used :: "surroundings \<Rightarrow> vstate \<Rightarrow> tab \<Rightarrow> cell set \<Rightarrow> tab set \<Rightarrow> bool" where
  "all_used fr s t C T \<longleftrightarrow> rest_kept (rest_cells fr) (rest_tabs fr) s C (insert t T)"

lemma all_used_step:
  "all_used fr s t C T \<Longrightarrow> store_ok s \<Longrightarrow> evolves s C (insert t T) s' C' (insert t T') \<Longrightarrow> all_used fr s' t C' T'"
  unfolding all_used_def by (rule rest_kept_step)

definition view :: "surroundings \<Rightarrow> vstate \<Rightarrow> tab \<Rightarrow> (hkey \<rightharpoonup> cell) \<Rightarrow> (cell \<rightharpoonup> tree) \<Rightarrow> cell set \<Rightarrow> tab set \<Rightarrow> bool" where
  "view fr s t N X C T \<longleftrightarrow> scoped fr s t N X C T \<and> all_used fr s t C T"

lemma view_scoped: "view fr s t N X C T \<Longrightarrow> scoped fr s t N X C T"
  by (simp add: view_def)

lemma all_used_evolves:
  assumes "all_used fr s t C T" "store_ok s" "evolves s C T s' C' T'"
  shows "all_used fr s' t C' T'"
  using all_used_step [OF assms(1,2)] evolves_widen [OF assms(3), of "{}" "{t}"] by simp

text \<open>The environment of the scope, and the memory that it does not reach.\<close>

definition values_of :: "(hkey \<rightharpoonup> cell) \<Rightarrow> (cell \<rightharpoonup> tree) \<Rightarrow> hkey \<rightharpoonup> tree" where
  "values_of N X k = Option.bind (N k) X"

definition beyond :: "(hkey \<rightharpoonup> cell) \<Rightarrow> (cell \<rightharpoonup> tree) \<Rightarrow> cell \<rightharpoonup> tree" where
  "beyond N X = X |` (- ran N)"

lemma scoped_value: "scoped fr s t N X C T \<Longrightarrow> N k = Some c \<Longrightarrow> \<exists>x. X c = Some x"
  unfolding scoped_def by (auto simp: ran_def)

lemma scoped_found:
  assumes "scoped fr s t N X C T" "N k = c" "k \<notin> hidden fr"
  shows "tab_find t k s = Some c"
proof -
  have "names s t k = c"
    using assms by (auto simp: scoped_def restrict_map_def)
  then show ?thesis
    using assms(1) tab_find_names unfolding scoped_def by blast
qed

lemma values_of_update:
  assumes "inj_on N (dom N)" "N k = Some c"
  shows "values_of N (X(c \<mapsto> x)) = (values_of N X)(k \<mapsto> x)" "beyond N (X(c \<mapsto> x)) = beyond N X"
proof -
  have "N k' \<noteq> Some c" if "k' \<noteq> k" for k'
    using inj_onD [OF assms(1), of k' k] that assms(2) by auto
  then have "values_of N (X(c \<mapsto> x)) k' = ((values_of N X)(k \<mapsto> x)) k'" for k'
    using assms(2) by (cases "k' = k"; cases "N k'") (auto simp: values_of_def)
  then show "values_of N (X(c \<mapsto> x)) = (values_of N X)(k \<mapsto> x)"
    by (rule ext)
  have "c \<in> ran N"
    using assms(2) by (auto simp: ran_def)
  then show "beyond N (X(c \<mapsto> x)) = beyond N X"
    by (auto simp: beyond_def restrict_map_def fun_eq_iff)
qed

lemma values_of_new:
  assumes "N k = None" "X c = None" "ran N \<subseteq> dom X"
  shows "values_of (N(k \<mapsto> c)) (X(c \<mapsto> x)) = (values_of N X)(k \<mapsto> x)" "beyond (N(k \<mapsto> c)) (X(c \<mapsto> x)) = beyond N X"
    "N k' \<noteq> Some c"
proof -
  show c: "N k' \<noteq> Some c" for k'
    using assms(2,3) by (auto simp: ran_def)
  have "values_of (N(k \<mapsto> c)) (X(c \<mapsto> x)) k' = ((values_of N X)(k \<mapsto> x)) k'" for k'
    using c [of k'] by (cases "k' = k"; cases "N k'") (auto simp: values_of_def)
  then show "values_of (N(k \<mapsto> c)) (X(c \<mapsto> x)) = (values_of N X)(k \<mapsto> x)"
    by (rule ext)
  have "ran (N(k \<mapsto> c)) = insert c (ran N)"
    using assms(1) by (rule ran_map_upd)
  then show "beyond (N(k \<mapsto> c)) (X(c \<mapsto> x)) = beyond N X"
    using assms(2) by (auto simp: beyond_def restrict_map_def fun_eq_iff)
qed

subsection \<open>One variable\<close>

text \<open>A value beside the memory, in no cell or table of it.\<close>

definition carries :: "surroundings \<Rightarrow> vstate \<Rightarrow> tab \<Rightarrow> vval \<Rightarrow> tree \<Rightarrow> cell set \<Rightarrow> tab set \<Rightarrow> bool" where
  "carries fr s t r y C T \<longleftrightarrow> (\<exists>D S. reserved s r y D S C T \<and> t \<notin> S \<and> all_used fr s t (C \<union> D) (T \<union> S))"

lemma carries_leaf: "is_leaf v \<Longrightarrow> carries fr s t v (Leaf v) C T \<longleftrightarrow> all_used fr s t C T"
  unfolding carries_def reserved_def
  by (auto elim!: holds_leafE intro!: exI [of _ "{}"] intro: holds_leaf)

lemma view_carries: "view fr s t N X C T \<Longrightarrow> is_leaf v \<Longrightarrow> carries fr s t v (Leaf v) C T"
  by (simp add: view_def carries_leaf)

lemma view_step:
  assumes v: "scoped fr s t N X C T" "X c = Some x" and e: "carries fr s t e z C T"
    and f: "\<And>D S De Se. hcell s c x D S \<Longrightarrow> reserved s e z De Se D S \<Longrightarrow> \<exists>r' s' D' S' Dr Sr. P r' s' \<and>
        hcell s' c x' D' S' \<and> reserved s' r' y Dr Sr D' S' \<and> evolves s (D \<union> De) (S \<union> Se) s' (D' \<union> Dr) (S' \<union> Sr)"
  shows "\<exists>r' s' C' T'. P r' s' \<and> scoped fr s' t N (X(c \<mapsto> x')) C' T' \<and> carries fr s' t r' y C' T' \<and> tabs s' t = tabs s t"
proof -
  obtain De Se where r: "reserved s e z De Se C T" "t \<notin> Se" "all_used fr s t (C \<union> De) (T \<union> Se)"
    using e unfolding carries_def by blast
  have vw: "mem s X C T" "store_ok s" "active s = Some t" "t \<notin> T" "tabs s t \<noteq> None" "ran N \<subseteq> dom X"
      "symbol_table s = global_table fr"
    using v(1) by (auto simp: scoped_def)
  obtain r' s' C' T' Dr Sr where s': "P r' s'" "mem s' (X(c \<mapsto> x')) C' T'" "reserved s' r' y Dr Sr C' T'"
      and ev: "evolves s (C \<union> De) (T \<union> Se) s' (C' \<union> Dr) (T' \<union> Sr)"
    using focus_step [OF vw(1) v(2) vw(2) r(1) f] by blast
  have t: "t < next_tab s" "t \<notin> T \<union> Se"
    using vw(2,4,5) r(2) store_ok_tab by blast+
  then have tb: "tabs s' t = tabs s t" "t \<notin> T' \<union> Sr"
    using ev unfolding evolves_def by auto
  moreover have "active s' = Some t" "store_ok s'" "symbol_table s' = global_table fr" "ran N \<subseteq> dom (X(c \<mapsto> x'))"
    using ev vw(3,6,7) by (auto simp: evolves_def)
  moreover have "all_used fr s' t (C' \<union> Dr) (T' \<union> Sr)"
    by (rule all_used_evolves [OF r(3) vw(2) ev])
  ultimately have "scoped fr s' t N (X(c \<mapsto> x')) C' T'" "carries fr s' t r' y C' T'"
    using s' v(1) names_frame [OF tb(1)] unfolding scoped_def carries_def by auto
  with s'(1) tb(1) show ?thesis
    by blast
qed

text \<open>An operation without a value.\<close>

lemma view_change:
  assumes v: "view fr s t N X C T" "X c = Some x"
    and f: "\<And>D S. hcell s c x D S \<Longrightarrow> \<exists>s' D' S'. P s' \<and> hcell s' c x' D' S' \<and> evolves s D S s' D' S'"
  shows "\<exists>s' C' T'. P s' \<and> view fr s' t N (X(c \<mapsto> x')) C' T' \<and> tabs s' t = tabs s t"
proof -
  have w: "scoped fr s t N X C T" "carries fr s t V_NULL (Leaf V_NULL) C T"
    using v(1) by (simp_all add: view_def carries_leaf)
  have "\<exists>r' s' C' T'. (r' = V_NULL \<and> P s') \<and> scoped fr s' t N (X(c \<mapsto> x')) C' T' \<and> carries fr s' t r' (Leaf V_NULL) C' T' \<and> tabs s' t = tabs s t"
  proof (rule view_step [OF w(1) v(2) w(2)])
    fix D S De Se
    assume h: "hcell s c x D S" and "reserved s V_NULL (Leaf V_NULL) De Se D S"
    then have "De = {}" "Se = {}"
      by (auto simp: reserved_def elim: holds_leafE)
    moreover obtain s' D' S' where "P s'" "hcell s' c x' D' S'" "evolves s D S s' D' S'"
      using f [OF h] by blast
    moreover have "reserved s' V_NULL (Leaf V_NULL) {} {} D' S'"
      by (rule reserved_leaf) simp
    ultimately show "\<exists>r' s' D' S' Dr Sr. (r' = V_NULL \<and> P s') \<and> hcell s' c x' D' S' \<and>
        reserved s' r' (Leaf V_NULL) Dr Sr D' S' \<and> evolves s (D \<union> De) (S \<union> Se) s' (D' \<union> Dr) (S' \<union> Sr)"
      by (intro exI [of _ V_NULL] exI [of _ s'] exI [of _ D'] exI [of _ S'] exI [of _ "{}"]) simp
  qed
  then show ?thesis
    by (auto simp: view_def carries_leaf)
qed

text \<open>The value of an expression is given up.\<close>

lemma view_drop:
  assumes v: "scoped fr s t N X C T" and r: "carries fr s t r y C T"
  shows "\<exists>s'. pval_destructor r s = Some s' \<and> view fr s' t N X C T \<and> unassigned s' = unassigned s"
proof -
  obtain D S where d: "reserved s r y D S C T" "t \<notin> S" "all_used fr s t (C \<union> D) (T \<union> S)"
    using r unfolding carries_def by blast
  have "mem s X C T" "store_ok s"
    using v by (auto simp: scoped_def)
  then obtain s' where s': "pval_destructor r s = Some s'" "mem s' X C T" "store_ok s'" "evolves s (C \<union> D) (T \<union> S) s' C T"
      "unassigned s' = unassigned s" "\<And>t b. tabs s t = Some b \<Longrightarrow> t \<notin> S \<Longrightarrow> tabs s' t = Some b"
    using drop_reserved [OF d(1) _ _ evolves_refl] by blast
  have "all_used fr s' t C T"
    using all_used_evolves [OF d(3) _ s'(4)] v by (simp add: scoped_def)
  moreover have "scoped fr s' t N X C T"
    using s' v d(2) names_frame [of s' t s] by (auto simp: scoped_def evolves_def)
  ultimately show ?thesis
    using s'(1,5) by (auto simp: view_def)
qed

subsection \<open>Names\<close>

lemma view_new:
  assumes v: "scoped fr s t N X C T" "N k = None" "k \<notin> hidden fr" and r: "carries fr s t v y C T"
  shows "\<exists>c s' C' T'. tab_update t k v s = Some (c, s') \<and> view fr s' t (N(k \<mapsto> c)) (X(c \<mapsto> y)) C' T' \<and> X c = None \<and>
    linked fr k = None \<and> unassigned s' = unassigned s"
proof -
  obtain D S where d: "reserved s v y D S C T" "t \<notin> S" "all_used fr s t (C \<union> D) (T \<union> S)"
    using r unfolding carries_def by blast
  have vw: "mem s X C T" "store_ok s" "active s = Some t" "t \<notin> T" "names s t |` (- hidden fr) = N" "inj_on N (dom N)" "ran N \<subseteq> dom X"
      "linked fr \<subseteq>\<^sub>m N" "symbol_table s = global_table fr"
    using v(1) by (auto simp: scoped_def)
  obtain b where b: "tabs s t = Some b" "scope_table fr b"
    using v(1) unfolding scoped_def by blast
  have "names s t k = None"
    using v(2,3) vw(5) by (auto simp: restrict_map_def fun_eq_iff split: if_splits)
  then have en: "entry_of b k = None"
    using b(1) by (simp add: names_def)
  have "t \<notin> T \<union> S"
    using vw(4) d(2) by simp
  note n = new_value_entry [OF b(1) en vw(1,2) d(1) this]
  define c s' where c: "c = next_cell s" "s' = with_new_entry t b k v s"
  let ?b = "with_key k (b\<lparr>vt_entries := vt_entries b @ [(k, c, False)]\<rparr>)"
  have b': "tabs s' t = Some ?b" "active s' = active s" "symbol_table s' = symbol_table s"
    by (simp_all add: c with_new_entry_def)
  have "k \<notin> set (map fst (vt_entries b))"
    using en unfolding entry_of_def map_of_eq_None_iff by simp
  moreover have lk: "linked fr k = None"
    using v(2) vw(8) by (auto simp: map_le_def dom_def)
  ultimately have "scope_table fr ?b"
    using b(2) v(3) by (auto simp: scope_table_def with_key_def entry_of_def map_add_def split: option.splits)
  moreover have "store_ok s'"
    using n(3) by (simp add: evolves_def c)
  moreover have "inj_on (N(k \<mapsto> c)) (dom (N(k \<mapsto> c)))"
    using vw(6) values_of_new(3) [of N k X c] v(2) n(6) vw(7) c(1) by (auto simp: inj_on_def split: if_splits)
  moreover have "ran (N(k \<mapsto> c)) \<subseteq> dom (X(c \<mapsto> y))" "linked fr \<subseteq>\<^sub>m N(k \<mapsto> c)"
    using vw(7,8) v(2) lk by (auto simp: ran_map_upd map_le_def)
  moreover have "names s' t |` (- hidden fr) = N(k \<mapsto> c)"
    unfolding vw(5) [symmetric] c n(5) using v(3) by (auto simp: restrict_map_def)
  ultimately have "scoped fr s' t (N(k \<mapsto> c)) (X(c \<mapsto> y)) (insert c (D \<union> C)) (S \<union> T)"
    using n(2) b' vw(3,4,9) d(2) unfolding scoped_def c by auto
  moreover have "all_used fr s' t (insert c (D \<union> C)) (S \<union> T)"
    using all_used_step [OF _ vw(2) n(3)] d(3) by (simp add: c Un_commute)
  ultimately show ?thesis
    using n(1,4,6) lk c by (intro exI [of _ c] exI [of _ s']) (auto simp: view_def)
qed

lemma remove_entry_names: "distinct (map fst l) \<Longrightarrow> map_of (remove_entry k l) = (map_of l)(k := None)"
proof (induction l)
  case (Cons e l)
  obtain k' c ptr where e: "e = (k', c, ptr)"
    by (cases e)
  have "k' \<notin> fst ` set l"
    using Cons.prems e by simp
  then have "map_of l k' = None"
    unfolding map_of_eq_None_iff .
  with Cons e show ?case
    by (auto simp: fun_eq_iff)
qed (simp add: fun_eq_iff)

lemma scoped_entry:
  assumes "scoped fr s t N X C T" "N k = Some c"
  shows "\<exists>b. tabs s t = Some b \<and> scope_table fr b \<and> k \<notin> hidden fr \<and> entry_of b k = Some (c, k \<in> dom (linked fr))"
proof -
  obtain b where b: "tabs s t = Some b" "scope_table fr b"
    using assms(1) unfolding scoped_def by blast
  have "names s t k = Some c" "k \<notin> hidden fr"
    using assms by (auto simp: scoped_def restrict_map_def split: if_splits)
  then obtain ptr where "entry_of b k = Some (c, ptr)"
    using b(1) by (auto simp: names_def)
  with b \<open>k \<notin> hidden fr\<close> show ?thesis
    by (auto simp: scope_table_def)
qed

lemma view_delete:
  assumes v: "view fr s t N X C T" and k: "N k = Some c" "linked fr k = None"
  shows "\<exists>s' C' T'. tab_delete t k s = Some s' \<and> view fr s' t (N(k := None)) (X(c := None)) C' T' \<and> unassigned s' = unassigned s"
proof -
  have sc: "scoped fr s t N X C T"
    using v by (simp add: view_def)
  obtain b where b: "tabs s t = Some b" "entry_of b k = Some (c, False)" "scope_table fr b" "k \<notin> hidden fr"
    using scoped_entry [OF sc k(1)] k(2) by (auto simp: domIff)
  have vw: "mem s X C T" "store_ok s" "active s = Some t" "t \<notin> T" "names s t |` (- hidden fr) = N" "inj_on N (dom N)" "ran N \<subseteq> dom X"
      "linked fr \<subseteq>\<^sub>m N" "symbol_table s = global_table fr"
    using sc by (auto simp: scoped_def)
  have dt: "distinct (map fst (vt_entries b))"
    using b(3) by (simp add: scope_table_def)
  obtain x where x: "X c = Some x"
    using scoped_value [OF sc k(1)] by blast
  obtain w D S C' T' where d: "cells s c = Some w" "holds s w x D S" "c \<notin> D" "mem s (X(c := None)) C' T'" "insert c D \<inter> C' = {}"
      "S \<inter> T' = {}" "C = insert c D \<union> C'" "T = S \<union> T'"
    by (rule mem_split [OF vw(1) x])
  let ?b = "b\<lparr>vt_entries := remove_entry k (vt_entries b)\<rparr>"
  let ?s1 = "put_table t ?b s"
  have tS: "t \<notin> S" "t \<notin> T'"
    using vw(4) d(8) by auto
  have "holds ?s1 w x D S"
    using d(2) by (rule holds_frame(1)) (use tS in \<open>auto simp: same_on_def\<close>)
  then have "run_jobs [J_entry c] ?s1 = Some (forget (insert c D) S ?s1)"
    using entry_destroy_owned [of ?s1 c w D S] d(1,3) holds_owns(1) by simp
  then have del: "tab_delete t k s = Some (forget (insert c D) S ?s1)"
    using b by (simp add: tab_delete_def entry_of_def Let_def)
  let ?s = "forget (insert c D) S ?s1"
  have "mem ?s (X(c := None)) C' T'"
    using d(4) by (rule mem_frame) (use d tS in \<open>auto simp: same_on_def\<close>)
  moreover have "symbol_table s \<notin> S"
    using holds_footprint(3) [OF d(2) vw(2)] .
  then have "store_ok ?s"
    using vw(2) store_ok_tab [OF vw(2) b(1)] by (intro store_ok_forget store_ok_put_table) simp_all
  moreover have "names ?s t = (names s t)(k := None)"
    using tS dt b(1) by (auto simp: names_def entry_of_def remove_entry_names fun_eq_iff)
  then have "names ?s t |` (- hidden fr) = N(k := None)"
    unfolding vw(5) [symmetric] by (auto simp: restrict_map_def)
  moreover have "scope_table fr ?b"
    using b(3) remove_entry_distinct [OF dt] by (auto simp: scope_table_def entry_of_def remove_entry_names [OF dt] split: if_splits)
  moreover have "inj_on (N(k := None)) (dom (N(k := None)))"
    using vw(6) by (auto simp: inj_on_def)
  moreover have "ran (N(k := None)) \<subseteq> dom (X(c := None))"
  proof
    fix d assume "d \<in> ran (N(k := None))"
    then obtain k' where k': "N k' = Some d" "k' \<noteq> k"
      by (auto simp: ran_def split: if_splits)
    then have "d \<noteq> c"
      using inj_onD [OF vw(6), of k' k] k by auto
    with k' vw(7) show "d \<in> dom (X(c := None))"
      by (auto simp: ran_def)
  qed
  moreover have "linked fr \<subseteq>\<^sub>m N(k := None)"
    using vw(8) k(2) by (auto simp: map_le_def)
  ultimately have "scoped fr ?s t (N(k := None)) (X(c := None)) C' T'"
    using tS vw(3,9) unfolding scoped_def by auto
  moreover have "all_used fr ?s t C' T'"
  proof (rule all_used_step [OF _ vw(2)])
    show "all_used fr s t C T"
      using v by (simp add: view_def)
    have "nothing_lost s C (insert t T) ?s C' (insert t T')"
      using d(7,8) unfolding nothing_lost_def by (auto split: if_splits)
    with \<open>scoped fr ?s t (N(k := None)) (X(c := None)) C' T'\<close> show "evolves s C (insert t T) ?s C' (insert t T')"
      using d(7,8) unfolding evolves_def scoped_def by auto
  qed
  ultimately show ?thesis
    using del by (auto simp: view_def)
qed

end
