(* ===== verification/Var_Program.thy ===== *)
theory Var_Program
  imports Var_Probe
begin

text \<open>
  Straight-line programs: assignments, \<^verbatim>\<open>isset\<close> and \<^verbatim>\<open>unset\<close> on variables and array elements, in the order in which the
  grammar of \<^verbatim>\<open>language-parser.y\<close> runs its actions, and what they do to an environment of trees.
\<close>

subsection \<open>The statements\<close>

text \<open>\<^verbatim>\<open>assignment_variable_pointer\<close>: a name, or a name with indices.\<close>

datatype lvalue = Lvalue cstring "vval list"

datatype rvalue = R_value vval | R_read lvalue | R_isset lvalue

datatype statement = S_assign lvalue rvalue | S_unset lvalue

fun variable_pointer :: "lvalue \<Rightarrow> vstate \<Rightarrow> (varptr \<times> vstate) option" where
  "variable_pointer (Lvalue p es) s =
     (if es = [] then get_regular_variable_pointer (V_STRING p) \<lparr>vp_cell = None, vp_write = False, vp_offset = 0\<rparr> s
      else multi_dimensional_array (V_STRING p) None (map Some es) \<lparr>vp_cell = None, vp_write = False, vp_offset = 0\<rparr> s)"

fun run_rvalue :: "rvalue \<Rightarrow> vstate \<Rightarrow> (vval \<times> vstate) option" where
  "run_rvalue (R_value v) s = Some (v, s)"
| "run_rvalue (R_read l) s = do { (vp, s1) \<leftarrow> variable_pointer l s; read_pointer_value vp s1 }"
| "run_rvalue (R_isset l) s = do {
     (vp, s1) \<leftarrow> variable_pointer l s;
     (b, s2) \<leftarrow> php3_isset vp s1;
     Some (V_LONG (if b then 1 else 0), s2)
   }"

fun run_statement :: "nat \<Rightarrow> statement \<Rightarrow> vstate \<Rightarrow> vstate option" where
  "run_statement prec (S_assign l e) s = do {
     (vp, s1) \<leftarrow> variable_pointer l s;
     (v, s2) \<leftarrow> run_rvalue e s1;
     (r, _, s3) \<leftarrow> assign_to_variable prec vp v None s2;
     pval_destructor r s3
   }"
| "run_statement prec (S_unset l) s = do {
     (vp, s1) \<leftarrow> variable_pointer l s;
     (r, s2) \<leftarrow> php3_unset vp s1;
     pval_destructor r s2
   }"

fun run_program :: "nat \<Rightarrow> statement list \<Rightarrow> vstate \<Rightarrow> vstate option" where
  "run_program prec [] s = Some s"
| "run_program prec (st # sts) s = Option.bind (run_statement prec st s) (run_program prec sts)"

subsection \<open>The environment\<close>

type_synonym env = "hkey \<rightharpoonup> tree"

fun name_key :: "lvalue \<Rightarrow> hkey" where
  "name_key (Lvalue p es) = arr_key (bytes_of p)"

fun index_keys :: "vval list \<Rightarrow> hkey list option" where
  "index_keys [] = Some []"
| "index_keys (e # es) = do { k \<leftarrow> index_key e; ks \<leftarrow> index_keys es; Some (k # ks) }"

fun path_of :: "lvalue \<Rightarrow> hkey list option" where
  "path_of (Lvalue p es) = index_keys es"

text \<open>The names that a program uses.\<close>

fun rvalue_names :: "rvalue \<Rightarrow> hkey set" where
  "rvalue_names (R_value v) = {}"
| "rvalue_names (R_read l) = {name_key l}"
| "rvalue_names (R_isset l) = {name_key l}"

fun statement_names :: "statement \<Rightarrow> hkey set" where
  "statement_names (S_assign l e) = insert (name_key l) (rvalue_names e)"
| "statement_names (S_unset l) = {name_key l}"

fun program_names :: "statement list \<Rightarrow> hkey set" where
  "program_names [] = {}"
| "program_names (st # sts) = statement_names st \<union> program_names sts"

text \<open>The tree of a variable after a pointer to the path was made: missing elements are there, the last one is blank.\<close>

definition tree_reach :: "hkey list \<Rightarrow> tree \<Rightarrow> tree option" where
  "tree_reach ks x = do { x' \<leftarrow> tree_fetch ks x; y \<leftarrow> tree_at ks x'; Some (tree_put ks (un_null y) x') }"

definition reach :: "hkey \<Rightarrow> hkey list \<Rightarrow> env \<Rightarrow> tree option" where
  "reach k ks E =
     (case E k of
        None \<Rightarrow> if ks = [] then Some (Leaf var_uninit) else tree_reach ks (Node Array_shape [] 0)
      | Some x \<Rightarrow> if ks = [] then Some x else if indexable x then tree_reach ks x else None)"

text \<open>What is under the path, and what the environment is after that was looked up only.\<close>

definition lookup :: "hkey \<Rightarrow> hkey list \<Rightarrow> env \<Rightarrow> tree option" where
  "lookup k ks E = (case E k of None \<Rightarrow> None | Some x \<Rightarrow> if ks = [] then Some x else map_option un_null (tree_at ks x))"

definition probe :: "hkey \<Rightarrow> hkey list \<Rightarrow> env \<Rightarrow> env" where
  "probe k ks E = (case E k of None \<Rightarrow> E | Some x \<Rightarrow> if ks = [] then E else E(k \<mapsto> tree_probe ks x))"

fun eval_rvalue :: "rvalue \<Rightarrow> env \<Rightarrow> (tree \<times> env) option" where
  "eval_rvalue (R_value v) E = (if is_leaf v then Some (Leaf v, E) else None)"
| "eval_rvalue (R_read l) E = do {
     ks \<leftarrow> path_of l;
     x \<leftarrow> reach (name_key l) ks E;
     Some (case lookup (name_key l) ks E of Some y \<Rightarrow> copied y | None \<Rightarrow> Leaf var_uninit, probe (name_key l) ks E)
   }"
| "eval_rvalue (R_isset l) E = do {
     ks \<leftarrow> path_of l;
     x \<leftarrow> reach (name_key l) ks E;
     Some (Leaf (V_LONG (case lookup (name_key l) ks E of Some y \<Rightarrow> if y = Leaf var_uninit then 0 else 1 | None \<Rightarrow> 0)),
       probe (name_key l) ks E)
   }"

text \<open>
  The right-hand sides that are covered for an assignment to an element: a value or a variable that is set. A lookup with
  indices could change the array that the pointer leads into.
\<close>

fun simple :: "rvalue \<Rightarrow> env \<Rightarrow> bool" where
  "simple (R_value v) E = True"
| "simple (R_read (Lvalue p es)) E = (es = [] \<and> E (arr_key (bytes_of p)) \<noteq> None)"
| "simple (R_isset l) E = False"

text \<open>\<open>None\<close> for the statements that are not covered.\<close>

fun exec_statement :: "statement \<Rightarrow> env \<Rightarrow> env option" where
  "exec_statement (S_assign l e) E = do {
     ks \<leftarrow> path_of l;
     x \<leftarrow> reach (name_key l) ks E;
     let E1 = E(name_key l \<mapsto> x);
     (z, E2) \<leftarrow> eval_rvalue e E1;
     if ks = [] then Some (E2(name_key l \<mapsto> z))
     else if simple e E1 then Some (E2(name_key l \<mapsto> tree_put ks z x)) else None
   }"
| "exec_statement (S_unset l) E = do {
     ks \<leftarrow> path_of l;
     x \<leftarrow> reach (name_key l) ks E;
     Some (if lookup (name_key l) ks E = None then probe (name_key l) ks E
       else E(name_key l \<mapsto> tree_put ks (Leaf var_uninit) x))
   }"

fun exec_program :: "statement list \<Rightarrow> env \<Rightarrow> env option" where
  "exec_program [] E = Some E"
| "exec_program (st # sts) E = Option.bind (exec_statement st E) (exec_program sts)"

end
