(* ===== verification/Var_Run.thy ===== *)
theory Var_Run
  imports Var_View Var_Program
begin

text \<open>
  The statements on the store do what the statements on the environment say: the simulation, one pointer, one right-hand
  side and one statement at a time.
\<close>

subsection \<open>Pointers\<close>

lemma index_keys_all: "index_keys es = Some ks \<Longrightarrow> list_all2 (\<lambda>e k. index_key e = Some k) es ks"
  by (induction es arbitrary: ks) (auto split: bind_splits)

lemma scoped_fields:
  assumes "cells s' = cells s" "tabs s' = tabs s" "symbol_table s' = symbol_table s" "active s' = active s"
    "next_cell s' = next_cell s" "next_tab s' = next_tab s"
  shows "scoped fr s' t N X C T = scoped fr s t N X C T" "all_used fr s' t C T = all_used fr s t C T"
proof -
  have "same_on C T s s'" "same_on C T s' s"
    using assms by (simp_all add: same_on_def)
  then have "mem s' X C T = mem s X C T"
    using mem_frame by blast
  moreover have "names s' t = names s t"
    using assms(2) by (simp add: names_def fun_eq_iff)
  ultimately show "scoped fr s' t N X C T = scoped fr s t N X C T" "all_used fr s' t C T = all_used fr s t C T"
    by (simp_all add: scoped_def all_used_def rest_kept_def store_ok_def assms)
qed

lemma view_fields [simp]:
  "view fr (s\<lparr>unassigned := u\<rparr>) t N X C T = view fr s t N X C T"
  "view fr (s\<lparr>array_ptr := a\<rparr>) t N X C T = view fr s t N X C T"
  "view fr (s\<lparr>array_ptr_write := w\<rparr>) t N X C T = view fr s t N X C T"
  unfolding view_def
  using scoped_fields [of "s\<lparr>unassigned := u\<rparr>" s] scoped_fields [of "s\<lparr>array_ptr := a\<rparr>" s]
    scoped_fields [of "s\<lparr>array_ptr_write := w\<rparr>" s] by simp_all

lemma view_new_table:
  assumes "view fr s t N X C T" "new_table s = (u, s')"
  shows "scoped fr s' t N X C T" "carries fr s' t (V_ARRAY u) (Node Array_shape [] 0) C T" "unassigned s' = unassigned s"
proof -
  have vw: "mem s X C T" "store_ok s" "active s = Some t" "t \<notin> T" "names s t |` (- hidden fr) = N" "inj_on N (dom N)" "ran N \<subseteq> dom X"
      "linked fr \<subseteq>\<^sub>m N" "symbol_table s = global_table fr" "all_used fr s t C T"
    using assms(1) by (auto simp: view_def scoped_def)
  obtain b where b: "tabs s t = Some b" "scope_table fr b"
    using assms(1) unfolding view_def scoped_def by blast
  have u: "u = next_tab s" "s' = s\<lparr>tabs := (tabs s)(u := Some \<lparr>vt_entries = [], vt_free = 0\<rparr>), next_tab := next_tab s + 1\<rparr>"
    using assms(2) by (auto simp: new_table_def)
  have T: "u \<notin> T" "t \<noteq> u"
    using mem_footprint [OF vw(1,2)] store_ok_tab [OF vw(2) b(1)] u(1) by auto
  have "mem s' X C T"
    using vw(1) by (rule mem_frame) (use T u(2) in \<open>auto simp: same_on_def\<close>)
  moreover have "store_ok s'"
    using vw(2) by (auto simp: u store_ok_def)
  moreover have "names s' t = names s t" "tabs s' t = Some b" "active s' = Some t" "symbol_table s' = symbol_table s"
    using T(2) vw(3) b(1) by (auto simp: u names_def [abs_def])
  ultimately show "scoped fr s' t N X C T"
    unfolding scoped_def using vw b(2) by auto
  have "holds s' (with_table Array_shape u) (Node Array_shape [] (vt_free \<lparr>vt_entries = [], vt_free = 0\<rparr>)) {} (insert u {})"
    by (rule holds_node) (use store_ok_symbol_table [OF vw(2)] u holds_nil in auto)
  moreover have "all_used fr s' t (C \<union> {}) (T \<union> {u})"
    using vw(10) store_ok_tab [OF vw(2) b(1)] vw(2) by (auto simp: all_used_def rest_kept_def u store_ok_def)
  ultimately show "carries fr s' t (V_ARRAY u) (Node Array_shape [] 0) C T"
    unfolding carries_def reserved_def using T by (intro exI [of _ "{}"] exI [of _ "{u}"]) simp
  show "unassigned s' = unassigned s"
    by (simp add: u)
qed

text \<open>A name made for writing is taken away again.\<close>

lemma undo_new:
  assumes v: "view fr s t (N(k \<mapsto> c)) (X(c \<mapsto> x)) C T" and new: "N k = None" "X c = None" "linked fr k = None"
    and u: "unassigned s = Track_name n t # rest" "arr_key n = k"
  shows "\<exists>s' C' T'. clean_unassigned_variable_top True s = Some s' \<and> view fr s' t N X C' T' \<and> unassigned s' = rest"
proof -
  obtain s' C' T' where s': "tab_delete t k s = Some s'" "view fr s' t ((N(k \<mapsto> c))(k := None)) ((X(c \<mapsto> x))(c := None)) C' T'"
    using view_delete [OF v _ new(3)] by auto
  moreover have "(N(k \<mapsto> c))(k := None) = N" "(X(c \<mapsto> x))(c := None) = X"
    using new by auto
  ultimately have "view fr (s'\<lparr>unassigned := rest\<rparr>) t N X C' T'"
    by simp
  moreover have "clean_unassigned_variable_top True s = Some (s'\<lparr>unassigned := rest\<rparr>)"
    using tracked_delete [OF u(1)] u(2) s'(1) by simp
  moreover have "unassigned (s'\<lparr>unassigned := rest\<rparr>) = rest"
    by simp
  ultimately show ?thesis
    by blast
qed

text \<open>
  A pointer to the path: the tree of the variable is \<open>x\<close> now. The flag for writing says that there was nothing under the
  path; then the top of the list of unassigned variables takes what was made away again.
\<close>

definition pointed :: "surroundings \<Rightarrow> vstate \<Rightarrow> tab \<Rightarrow> (hkey \<rightharpoonup> cell) \<Rightarrow> (cell \<rightharpoonup> tree) \<Rightarrow> hkey \<Rightarrow> hkey list \<Rightarrow> tree \<Rightarrow>
    varptr \<Rightarrow> vstate \<Rightarrow> cell \<Rightarrow> cell \<Rightarrow> bool" where
  "pointed fr s t N X k ks x vp s1 c d \<longleftrightarrow>
     (\<exists>C1 T1. view fr s1 t (N(k \<mapsto> c)) (X(c \<mapsto> x)) C1 T1) \<and> (N k = Some c \<or> N k = None \<and> X c = None) \<and>
     vp_cell vp = Some d \<and> cell_at s1 c ks = Some d \<and> vp_offset vp = -1 \<and>
     unassigned s = (if vp_write vp then tl (unassigned s1) else unassigned s1) \<and>
     (if lookup k ks (values_of N X) = None
      then vp_write vp \<and> (\<exists>s2 X2 C2 T2. clean_unassigned_variable_top True s1 = Some s2 \<and> view fr s2 t N X2 C2 T2 \<and>
             values_of N X2 = probe k ks (values_of N X) \<and> beyond N X2 = beyond N X \<and> unassigned s2 = unassigned s)
      else \<not> vp_write vp \<and> N k = Some c \<and> lookup k ks (values_of N X) = tree_at ks x \<and>
           probe k ks (values_of N X) = (values_of N X)(k \<mapsto> x))"

lemma point_name:
  assumes v: "view fr s t N X C T" and h: "arr_key (bytes_of p) \<notin> hidden fr"
    and x: "reach (arr_key (bytes_of p)) [] (values_of N X) = Some x"
  shows "\<exists>vp s1 c d. variable_pointer (Lvalue p []) s = Some (vp, s1) \<and> pointed fr s t N X (arr_key (bytes_of p)) [] x vp s1 c d"
proof (cases "N (arr_key (bytes_of p))")
  case (Some c)
  let ?k = "arr_key (bytes_of p)"
  obtain y where "X c = Some y"
    using scoped_value [OF view_scoped [OF v] Some] by blast
  then have y: "X c = Some x" "values_of N X ?k = Some x"
    using x Some by (simp_all add: reach_def values_of_def)
  moreover have "X(c \<mapsto> x) = X" "N(?k \<mapsto> c) = N" "(values_of N X)(?k \<mapsto> x) = values_of N X"
    using y Some by auto
  ultimately have "pointed fr s t N X ?k [] x \<lparr>vp_cell = Some c, vp_write = False, vp_offset = -1\<rparr> s c c"
    using v Some unfolding pointed_def by (auto simp: lookup_def probe_def)
  moreover have "variable_pointer (Lvalue p []) s = Some (\<lparr>vp_cell = Some c, vp_write = False, vp_offset = -1\<rparr>, s)"
    using scoped_found [OF view_scoped [OF v] Some h] v by (simp add: get_regular_variable_pointer_def view_def scoped_def)
  ultimately show ?thesis
    by blast
next
  case None
  let ?k = "arr_key (bytes_of p)"
  have E: "values_of N X ?k = None" "x = Leaf var_uninit"
    using x None by (auto simp: reach_def values_of_def)
  have "carries fr s t var_uninit (Leaf var_uninit) C T"
    using v by (simp add: view_def carries_leaf var_uninit_def)
  then obtain c s1 C1 T1 where n: "tab_update t ?k var_uninit s = Some (c, s1)" "view fr s1 t (N(?k \<mapsto> c)) (X(c \<mapsto> Leaf var_uninit)) C1 T1"
      "X c = None" "linked fr ?k = None" "unassigned s1 = unassigned s"
    using view_new [OF view_scoped [OF v] None h] by blast
  let ?s1 = "track (Track_name (bytes_of p) t) s1" and ?vp = "\<lparr>vp_cell = Some c, vp_write = True, vp_offset = -1\<rparr>"
  have v1: "view fr ?s1 t (N(?k \<mapsto> c)) (X(c \<mapsto> Leaf var_uninit)) C1 T1" "unassigned ?s1 = Track_name (bytes_of p) t # unassigned s"
    using n(2,5) by (simp_all add: track_def)
  obtain s2 C2 T2 where "clean_unassigned_variable_top True ?s1 = Some s2" "view fr s2 t N X C2 T2" "unassigned s2 = unassigned s"
    using undo_new [OF v1(1) None n(3,4) v1(2)] by blast
  then have "pointed fr s t N X ?k [] x ?vp ?s1 c c"
    using v1 n(3) None E unfolding pointed_def by (auto simp: lookup_def probe_def)
  moreover have "active s = Some t"
    using v by (simp add: view_def scoped_def)
  then have "variable_pointer (Lvalue p []) s = Some (?vp, ?s1)"
    using scoped_found [OF view_scoped [OF v] None h] n(1) by (simp add: get_regular_variable_pointer_def)
  ultimately show ?thesis
    by blast
qed

text \<open>The array of a name that is in use.\<close>

lemma point_old_array:
  assumes v: "view fr s t N X C T" and k: "N (arr_key (bytes_of p)) = Some c" "X c = Some x0" and hd: "arr_key (bytes_of p) \<notin> hidden fr"
    and x0: "indexable x0"
    and ks: "index_keys es = Some ks" "ks \<noteq> []" and x: "tree_reach ks x0 = Some x"
  shows "\<exists>vp s1 d. multi_dimensional_array (V_STRING p) None (map Some es) r s = Some (vp, s1) \<and>
    pointed fr s t N X (arr_key (bytes_of p)) ks x vp s1 c d"
proof -
  let ?k = "arr_key (bytes_of p)"
  obtain x' y where f: "tree_fetch ks x0 = Some x'" "tree_at ks x' = Some y" "x = tree_put ks (un_null y) x'"
    using x by (auto simp: tree_reach_def split: bind_splits)
  have ok: "store_ok s" "active s = Some t" and fd: "tab_find t ?k s = Some (Some c)"
    using v scoped_found [OF view_scoped [OF v] k(1) hd] by (simp_all add: view_def scoped_def)
  have "\<exists>s1 C1 T1. (\<exists>vp. multi_dimensional_array (V_STRING p) None (map Some es) r s = Some (vp, s1) \<and> vp_offset vp = -1 \<and>
      vp_cell vp = cell_at s1 c ks \<and> vp_cell vp \<noteq> None \<and> noted False s c (tree_missing ks x0) (vp_write vp) s1) \<and>
      view fr s1 t N (X(c \<mapsto> x)) C1 T1 \<and> tabs s1 t = tabs s t"
  proof (rule view_change [OF v k(2)])
    fix D S assume h: "hcell s c x0 D S"
    obtain vp s1 D1 S1 where "multi_dimensional_array (V_STRING p) None (map Some es) r s = Some (vp, s1)"
        "fetched \<lparr>vp_cell = Some c, vp_write = False, vp_offset = -1\<rparr> s c D S x ks (tree_missing ks x0) vp s1 D1 S1"
      using array_pointer [OF h ok(1) x0 ok(2) fd index_keys_all [OF ks(1)] f(1,2)] f(3) by blast
    then show "\<exists>s1 D1 S1. (\<exists>vp. multi_dimensional_array (V_STRING p) None (map Some es) r s = Some (vp, s1) \<and> vp_offset vp = -1 \<and>
        vp_cell vp = cell_at s1 c ks \<and> vp_cell vp \<noteq> None \<and> noted False s c (tree_missing ks x0) (vp_write vp) s1) \<and>
        hcell s1 c x D1 S1 \<and> evolves s D S s1 D1 S1"
      unfolding fetched_def varptr.simps by blast
  qed
  then obtain vp s1 C1 T1 d where vp: "multi_dimensional_array (V_STRING p) None (map Some es) r s = Some (vp, s1)" "vp_offset vp = -1"
      "vp_cell vp = Some d" "cell_at s1 c ks = Some d" "noted False s c (tree_missing ks x0) (vp_write vp) s1"
      "view fr s1 t N (X(c \<mapsto> x)) C1 T1"
    by (metis not_None_eq)
  have E: "values_of N X ?k = Some x0"
    using k by (simp add: values_of_def)
  have inj: "inj_on N (dom N)" and N: "N(?k \<mapsto> c) = N"
    using v k(1) by (auto simp: view_def scoped_def)
  have "pointed fr s t N X ?k ks x vp s1 c d"
  proof (cases "tree_missing ks x0")
    case None
    then obtain w where w: "x' = x0" "tree_at ks x0 = Some w" "tree_put ks (un_null w) x0 = tree_probe ks x0"
      using probe_found [OF _ f(1)] by blast
    then have "w = y"
      using f(2) by simp
    with w f(3) have "x = tree_probe ks x0" "tree_at ks x = Some (un_null w)"
      using tree_at_put [OF w(2), of "un_null w"] by simp_all
    moreover have "\<not> vp_write vp" "unassigned s1 = unassigned s"
      using vp(5) None by (simp_all add: noted_def)
    ultimately show ?thesis
      unfolding pointed_def using vp(2-4,6) k(1) E N w(2) ks(2) by (auto simp: lookup_def probe_def)
  next
    case (Some m)
    then obtain vt where vt: "vp_write vp" "unassigned s1 = vt # unassigned s" "tracked s1 c m vt"
      using vp(5) by (auto simp: noted_def)
    have "\<exists>s2 C2 T2. (clean_unassigned_variable_top True s1 = Some s2 \<and> unassigned s2 = unassigned s) \<and>
        view fr s2 t N (X(c \<mapsto> x, c \<mapsto> tree_probe ks x0)) C2 T2 \<and> tabs s2 t = tabs s1 t"
    proof (rule view_change [OF vp(6)])
      fix D S assume h: "hcell s1 c x D S"
      have "store_ok s1"
        using vp(6) by (simp add: view_def scoped_def)
      with undo_missing [OF _ _ f(1) Some vt(2,3)] h f(3)
      show "\<exists>s2 D2 S2. (clean_unassigned_variable_top True s1 = Some s2 \<and> unassigned s2 = unassigned s) \<and>
          hcell s2 c (tree_probe ks x0) D2 S2 \<and> evolves s1 D S s2 D2 S2"
        unfolding probed_def by blast
    qed simp
    then obtain s2 C2 T2 where s2: "clean_unassigned_variable_top True s1 = Some s2" "unassigned s2 = unassigned s"
        "view fr s2 t N (X(c \<mapsto> tree_probe ks x0)) C2 T2"
      by auto
    have "tree_at ks x0 = None"
      by (rule missing_at) (use f(1) Some in simp_all)
    then have "lookup ?k ks (values_of N X) = None" "probe ?k ks (values_of N X) = values_of N (X(c \<mapsto> tree_probe ks x0))"
        "beyond N (X(c \<mapsto> tree_probe ks x0)) = beyond N X"
      using E ks(2) values_of_update [OF inj k(1)] by (simp_all add: lookup_def probe_def)
    then show ?thesis
      unfolding pointed_def using vp(2-4,6) k(1) N vt(1,2) s2 by auto
  qed
  with vp(1) show ?thesis
    by blast
qed

text \<open>A name that is not in use gets an empty array; the flag for writing is raised from the start.\<close>

lemma point_new_array:
  assumes v: "view fr s t N X C T" and k: "N (arr_key (bytes_of p)) = None" and hd: "arr_key (bytes_of p) \<notin> hidden fr"
    and ks: "index_keys es = Some ks" and x: "tree_reach ks (Node Array_shape [] 0) = Some x"
  shows "\<exists>vp s1 c d. multi_dimensional_array (V_STRING p) None (map Some es) r s = Some (vp, s1) \<and>
    pointed fr s t N X (arr_key (bytes_of p)) ks x vp s1 c d"
proof -
  let ?k = "arr_key (bytes_of p)" and ?x0 = "Node Array_shape [] 0"
  obtain x' y where f: "tree_fetch ks ?x0 = Some x'" "tree_at ks x' = Some y" "x = tree_put ks (un_null y) x'"
    using x by (auto simp: tree_reach_def split: bind_splits)
  obtain u sa where sa: "new_table s = (u, sa)"
    by fastforce
  note va = view_new_table [OF v sa]
  obtain c sb C2 T2 where n: "tab_update t ?k (V_ARRAY u) sa = Some (c, sb)" "view fr sb t (N(?k \<mapsto> c)) (X(c \<mapsto> ?x0)) C2 T2" "X c = None"
      "linked fr ?k = None" "unassigned sb = unassigned sa"
    using view_new [OF va(1) k hd va(2)] by blast
  let ?n = "Track_name (bytes_of p) t"
  let ?sc = "(track ?n (sb\<lparr>array_ptr_write := True\<rparr>))\<lparr>array_ptr := Some c\<rparr>" and ?dim = "\<lparr>vp_cell = Some c, vp_write = True, vp_offset = -1\<rparr>"
  have vc: "view fr ?sc t (N(?k \<mapsto> c)) (X(c \<mapsto> ?x0)) C2 T2" "unassigned ?sc = ?n # unassigned s"
    using n(2,5) va(3) by (simp_all add: track_def)
  have "mem sb (X(c \<mapsto> ?x0)) C2 T2"
    using n(2) by (simp add: view_def scoped_def)
  then obtain w where "cells sb c = Some w" "reads sb w ?x0"
    using mem_value [of sb "X(c \<mapsto> ?x0)" C2 T2 c ?x0] by auto
  then have "\<exists>w. cells sb c = Some w \<and> is_array_or_string w"
    by (auto simp: is_array_or_string_def elim!: reads_nodeE)
  then have st: "start_array_parsing (V_STRING p) None s = Some ?sc"
    using v scoped_found [OF view_scoped [OF v] k hd] sa n(1) by (auto simp: start_array_parsing_def view_def scoped_def array_init_def track_def)
  have "\<exists>s1 C1 T1. (\<exists>vp s0. fetch_dimensions (map Some es) ?dim ?sc = Some (vp, s0) \<and> end_array_parsing vp s0 = Some (vp, s1) \<and>
      vp_offset vp = -1 \<and> vp_cell vp = cell_at s1 c ks \<and> vp_cell vp \<noteq> None \<and> vp_write vp \<and> unassigned s1 = unassigned ?sc) \<and>
      view fr s1 t (N(?k \<mapsto> c)) (X(c \<mapsto> ?x0, c \<mapsto> x)) C1 T1 \<and> tabs s1 t = tabs ?sc t"
  proof (rule view_change [OF vc(1)])
    fix D S assume h: "hcell ?sc c ?x0 D S"
    have "store_ok ?sc" "vp_cell ?dim = Some c"
      using vc(1) unfolding view_def scoped_def by simp_all
    then obtain vp s0 s1 D1 S1 where "fetch_dimensions (map Some es) ?dim ?sc = Some (vp, s0)" "end_array_parsing vp s0 = Some (vp, s1)"
        "fetched ?dim ?sc c D S x ks (tree_missing ks ?x0) vp s1 D1 S1"
      using dimensions_pointer [OF h _ _ index_keys_all [OF ks] f(1,2), of ?dim] f(3) by blast
    then show "\<exists>s1 D1 S1. (\<exists>vp s0. fetch_dimensions (map Some es) ?dim ?sc = Some (vp, s0) \<and> end_array_parsing vp s0 = Some (vp, s1) \<and>
        vp_offset vp = -1 \<and> vp_cell vp = cell_at s1 c ks \<and> vp_cell vp \<noteq> None \<and> vp_write vp \<and> unassigned s1 = unassigned ?sc) \<and>
        hcell s1 c x D1 S1 \<and> evolves ?sc D S s1 D1 S1"
      unfolding fetched_def noted_def varptr.simps if_True simp_thms by blast
  qed simp
  then obtain s1 C1 T1 vp s0 d where vp: "fetch_dimensions (map Some es) ?dim ?sc = Some (vp, s0)" "end_array_parsing vp s0 = Some (vp, s1)"
      "vp_offset vp = -1" "vp_cell vp = Some d" "cell_at s1 c ks = Some d" "vp_write vp" "unassigned s1 = ?n # unassigned s"
      "view fr s1 t (N(?k \<mapsto> c)) (X(c \<mapsto> x)) C1 T1"
    using vc(2) by (metis (no_types, lifting) fun_upd_upd not_None_eq)
  obtain s2 C3 T3 where "clean_unassigned_variable_top True s1 = Some s2" "view fr s2 t N X C3 T3" "unassigned s2 = unassigned s"
    using undo_new [OF vp(8) k n(3,4) vp(7)] by blast
  moreover have "values_of N X ?k = None"
    using k by (simp add: values_of_def)
  ultimately have "pointed fr s t N X ?k ks x vp s1 c d"
    unfolding pointed_def using vp(3-8) k n(3) by (auto simp: lookup_def probe_def)
  moreover have "multi_dimensional_array (V_STRING p) None (map Some es) r s = Some (vp, s1)"
    using st vp(1,2) by (simp add: multi_dimensional_array_def start_dimensions_parsing_def track_def)
  ultimately show ?thesis
    by blast
qed

lemma point:
  assumes v: "view fr s t N X C T" and h: "name_key l \<notin> hidden fr" and ks: "path_of l = Some ks"
    and x: "reach (name_key l) ks (values_of N X) = Some x"
  shows "\<exists>vp s1 c d. variable_pointer l s = Some (vp, s1) \<and> pointed fr s t N X (name_key l) ks x vp s1 c d"
proof (cases l)
  case (Lvalue p es)
  then have es: "index_keys es = Some ks" "name_key l = arr_key (bytes_of p)"
    using ks by simp_all
  show ?thesis
  proof (cases "es = []")
    case True
    then show ?thesis
      using point_name [OF v] x es Lvalue h by simp
  next
    case False
    then have ne: "ks \<noteq> []"
      using es(1) by (cases es) (auto split: bind_splits)
    show ?thesis
    proof (cases "N (name_key l)")
      case None
      then have "tree_reach ks (Node Array_shape [] 0) = Some x"
        using x ne by (simp add: reach_def values_of_def)
      from point_new_array [OF v _ _ es(1) this] show ?thesis
        using None False Lvalue es(2) h by simp
    next
      case (Some c)
      obtain x0 where x0: "X c = Some x0"
        using scoped_value [OF view_scoped [OF v] Some] by blast
      then have "indexable x0" "tree_reach ks x0 = Some x"
        using x ne Some by (auto simp: reach_def values_of_def split: if_splits)
      then obtain vp s1 d where "variable_pointer l s = Some (vp, s1)" "pointed fr s t N X (name_key l) ks x vp s1 c d"
        using point_old_array [where p = p and x = x and r = "\<lparr>vp_cell = None, vp_write = False, vp_offset = 0\<rparr>", OF v _ x0 _ _ es(1) ne] Some False Lvalue es(2) h
        by auto
      then show ?thesis
        by blast
    qed
  qed
qed

subsection \<open>Right-hand sides\<close>

text \<open>What is known after a lookup.\<close>

definition looked_up :: "surroundings \<Rightarrow> vstate \<Rightarrow> tab \<Rightarrow> (hkey \<rightharpoonup> cell) \<Rightarrow> (cell \<rightharpoonup> tree) \<Rightarrow> env \<Rightarrow> tree \<Rightarrow> vval \<Rightarrow> vstate \<Rightarrow> bool" where
  "looked_up fr s t N X E' z r s' \<longleftrightarrow> (\<exists>X' C' T'. scoped fr s' t N X' C' T' \<and> carries fr s' t r z C' T' \<and> values_of N X' = E' \<and>
     beyond N X' = beyond N X) \<and> unassigned s' = unassigned s"

lemma looked_upI:
  "scoped fr s' t N X' C' T' \<Longrightarrow> carries fr s' t r z C' T' \<Longrightarrow> values_of N X' = E' \<Longrightarrow> beyond N X' = beyond N X \<Longrightarrow>
    unassigned s' = unassigned s \<Longrightarrow> looked_up fr s t N X E' z r s'"
  unfolding looked_up_def by blast

lemma hcell_mem:
  assumes "hcell s c x D S"
  shows "mem s [c \<mapsto> x] D S"
proof -
  obtain v F where "cells s c = Some v" "holds s v x F S" "c \<notin> F" "D = insert c F"
    using assms unfolding hcell_def by blast
  then show ?thesis
    using mem_join [of s Map.empty c "{}" "{}" v x F S] by simp
qed

text \<open>A pointer to something that is there leads to a cell of its own tree.\<close>

lemma pointed_cell:
  assumes "pointed fr s t N X k ks x vp s1 c d"
  shows "\<exists>v D S y. cells s1 d = Some v \<and> holds s1 v y D S \<and> d \<notin> D \<and> tree_at ks x = Some y"
proof -
  obtain C1 T1 where m: "mem s1 (X(c \<mapsto> x)) C1 T1" and d: "cell_at s1 c ks = Some d"
    using assms unfolding pointed_def view_def scoped_def by blast
  have "(X(c \<mapsto> x)) c = Some x"
    by simp
  then obtain D S C2 T2 where "hcell s1 c x D S"
    by (rule mem_focus [OF m])
  then obtain y D1 S1 where "tree_at ks x = Some y" "hcell s1 d y D1 S1"
    using focus_tree [OF _ d] by blast
  then show ?thesis
    unfolding hcell_def by blast
qed

lemma read_view:
  assumes v: "view fr s t N X C T" and p: "pointed fr s t N X k ks x vp s1 c d"
  shows "\<exists>r s2. read_pointer_value vp s1 = Some (r, s2) \<and>
    looked_up fr s t N X (probe k ks (values_of N X)) (case lookup k ks (values_of N X) of Some y \<Rightarrow> copied y | None \<Rightarrow> Leaf var_uninit) r s2"
proof -
  obtain w D S y where w: "cells s1 d = Some w" "holds s1 w y D S" "d \<notin> D" "tree_at ks x = Some y"
    using pointed_cell [OF p] by blast
  have inj: "inj_on N (dom N)"
    using v by (simp add: view_def scoped_def)
  show ?thesis
  proof (cases "lookup k ks (values_of N X)")
    case None
    then obtain s2 X2 C2 T2 where "vp_write vp" "vp_cell vp = Some d" "clean_unassigned_variable_top True s1 = Some s2" "view fr s2 t N X2 C2 T2"
        "values_of N X2 = probe k ks (values_of N X)" "beyond N X2 = beyond N X" "unassigned s2 = unassigned s"
      using p by (auto simp: pointed_def)
    moreover from this have "carries fr s2 t var_uninit (Leaf var_uninit) C2 T2" "scoped fr s2 t N X2 C2 T2"
      by (auto simp: var_uninit_def view_scoped intro: view_carries)
    ultimately have "looked_up fr s t N X (probe k ks (values_of N X)) (Leaf var_uninit) var_uninit s2"
        "read_pointer_value vp s1 = Some (var_uninit, s2)"
      using w(1) by (auto simp: read_pointer_value_def clean_if_def intro: looked_upI)
    then show ?thesis
      using None by auto
  next
    case (Some z)
    then obtain C1 T1 where p': "\<not> vp_write vp" "vp_cell vp = Some d" "vp_offset vp = -1" "N k = Some c" "z = y"
        "view fr s1 t N (X(c \<mapsto> x)) C1 T1" "probe k ks (values_of N X) = (values_of N X)(k \<mapsto> x)" "unassigned s1 = unassigned s"
        "cell_at s1 c ks = Some d"
      using p w(4) by (auto simp: pointed_def map_upd_triv)
    have "\<exists>r' s' C' T'. (read_pointer_value vp s1 = Some (r', s') \<and> unassigned s' = unassigned s1) \<and>
        scoped fr s' t N (X(c \<mapsto> x, c \<mapsto> x)) C' T' \<and> carries fr s' t r' (copied y) C' T' \<and> tabs s' t = tabs s1 t"
    proof (rule view_step [OF view_scoped [OF p'(6)] _ view_carries [OF p'(6), of V_NULL]])
      fix F R De Se
      assume h: "hcell s1 c x F R" and e: "reserved s1 V_NULL (Leaf V_NULL) De Se F R"
      have De: "De = {}" "Se = {}"
        using e by (auto simp: reserved_def elim: holds_leafE)
      have ok: "store_ok s1"
        using p'(6) by (simp add: view_def scoped_def)
      have "hcell s1 d y (insert d D) S"
        using w unfolding hcell_def by blast
      then have "mem s1 [d \<mapsto> y] (insert d D) S"
        by (rule hcell_mem)
      then obtain r s2 Dr Sr where rd: "read_pointer_value vp s1 = Some (r, s2)" "reserved s2 r (copied y) Dr Sr (insert d D) S"
          "extends s1 s2" "evolves s1 {} {} s2 Dr Sr"
        using read_plain [of s1 "[d \<mapsto> y]" "insert d D" S d y vp] ok p'(1-3) by auto
      note fp = hcell_footprint(1,2) [OF h ok]
      have "hcell s2 c x F R"
        by (rule hcell_frame [OF h extends_same_on [OF rd(3) fp]])
      moreover have "F \<inter> Dr = {}" "R \<inter> Sr = {}"
        by (rule evolves_apart [OF rd(4) fp]; simp)+
      then have "reserved s2 r (copied y) Dr Sr F R"
        using rd(2) by (auto simp: reserved_def)
      moreover have "evolves s1 (F \<union> De) (R \<union> Se) s2 (F \<union> Dr) (R \<union> Sr)"
        using evolves_widen [OF rd(4), of F R] De by (simp add: Un_commute)
      moreover have "unassigned s2 = unassigned s1"
        using rd(3) by (simp add: extends_def)
      ultimately show "\<exists>r' s' D' S' Dr Sr. (read_pointer_value vp s1 = Some (r', s') \<and> unassigned s' = unassigned s1) \<and> hcell s' c x D' S' \<and>
          reserved s' r' (copied y) Dr Sr D' S' \<and> evolves s1 (F \<union> De) (R \<union> Se) s' (D' \<union> Dr) (S' \<union> Sr)"
        using rd(1) by blast
    qed simp_all
    then obtain r s' C' T' where "read_pointer_value vp s1 = Some (r, s')" "unassigned s' = unassigned s1"
        "scoped fr s' t N (X(c \<mapsto> x)) C' T'" "carries fr s' t r (copied y) C' T'"
      by auto
    moreover from this have "looked_up fr s t N X (probe k ks (values_of N X)) (copied y) r s'"
      by (intro looked_upI [of fr s' t N "X(c \<mapsto> x)" C' T']) (simp_all add: p'(7,8) values_of_update [OF inj p'(4)])
    ultimately show ?thesis
      using Some p'(5) by auto
  qed
qed

lemma isset_view:
  assumes v: "view fr s t N X C T" and p: "pointed fr s t N X k ks x vp s1 c d"
  shows "\<exists>b s2. php3_isset vp s1 = Some (b, s2) \<and> b = (case lookup k ks (values_of N X) of Some y \<Rightarrow> y \<noteq> Leaf var_uninit | None \<Rightarrow> False) \<and>
    (is_leaf r \<longrightarrow> looked_up fr s t N X (probe k ks (values_of N X)) (Leaf r) r s2)"
proof -
  obtain w D S y where w: "cells s1 d = Some w" "holds s1 w y D S" "d \<notin> D" "tree_at ks x = Some y"
    using pointed_cell [OF p] by blast
  have inj: "inj_on N (dom N)"
    using v by (simp add: view_def scoped_def)
  show ?thesis
  proof (cases "lookup k ks (values_of N X)")
    case None
    then obtain s2 X2 C2 T2 where "vp_write vp" "vp_cell vp = Some d" "clean_unassigned_variable_top True s1 = Some s2" "view fr s2 t N X2 C2 T2"
        "values_of N X2 = probe k ks (values_of N X)" "beyond N X2 = beyond N X" "unassigned s2 = unassigned s"
      using p by (auto simp: pointed_def)
    moreover from this have "looked_up fr s t N X (probe k ks (values_of N X)) (Leaf r) r s2" if "is_leaf r"
      using view_carries [OF _ that] view_scoped by (intro looked_upI)
    ultimately show ?thesis
      using None by (auto simp: php3_isset_def)
  next
    case (Some z)
    then obtain C1 T1 where p': "\<not> vp_write vp" "vp_cell vp = Some d" "N k = Some c" "z = y"
        "view fr s1 t N (X(c \<mapsto> x)) C1 T1" "probe k ks (values_of N X) = (values_of N X)(k \<mapsto> x)" "unassigned s1 = unassigned s"
      using p w(4) by (auto simp: pointed_def map_upd_triv)
    have "w = var_uninit \<longleftrightarrow> y = Leaf var_uninit"
      using w(2) by (auto simp: holds_scalar var_uninit_def elim: holds_leafE)
    then have "php3_isset vp s1 = Some (y \<noteq> Leaf var_uninit, s1)"
      using p'(1,2) w(1) by (simp add: php3_isset_def)
    moreover have "looked_up fr s t N X (probe k ks (values_of N X)) (Leaf r) r s1" if "is_leaf r"
      by (rule looked_upI [OF view_scoped [OF p'(5)] view_carries [OF p'(5) that]]) (simp_all add: p' values_of_update [OF inj p'(3)])
    ultimately show ?thesis
      using Some p'(4) by auto
  qed
qed

lemma rvalue_view:
  assumes v: "view fr s t N X C T" and h: "rvalue_names e \<inter> hidden fr = {}" and e: "eval_rvalue e (values_of N X) = Some (z, E')"
  shows "\<exists>r s'. run_rvalue e s = Some (r, s') \<and> looked_up fr s t N X E' z r s'"
proof (cases e)
  case (R_value w)
  then have "z = Leaf w" "E' = values_of N X" "is_leaf w"
    using e by (auto split: if_splits)
  then show ?thesis
    using R_value looked_upI [OF view_scoped [OF v] view_carries [OF v]] by auto
next
  case (R_read l)
  then obtain ks x where l: "path_of l = Some ks" "reach (name_key l) ks (values_of N X) = Some x"
      "E' = probe (name_key l) ks (values_of N X)"
      "z = (case lookup (name_key l) ks (values_of N X) of Some y \<Rightarrow> copied y | None \<Rightarrow> Leaf var_uninit)"
    using e by (auto split: bind_splits)
  obtain vp s1 c d where "variable_pointer l s = Some (vp, s1)" "pointed fr s t N X (name_key l) ks x vp s1 c d"
    using point [OF v _ l(1,2)] h R_read by auto
  then show ?thesis
    using read_view [OF v] R_read l(3,4) by auto
next
  case (R_isset l)
  then obtain ks x where l: "path_of l = Some ks" "reach (name_key l) ks (values_of N X) = Some x"
      "E' = probe (name_key l) ks (values_of N X)"
      "z = Leaf (V_LONG (case lookup (name_key l) ks (values_of N X) of Some y \<Rightarrow> if y = Leaf var_uninit then 0 else 1 | None \<Rightarrow> 0))"
    using e by (auto split: bind_splits)
  obtain vp s1 c d where p: "variable_pointer l s = Some (vp, s1)" "pointed fr s t N X (name_key l) ks x vp s1 c d"
    using point [OF v _ l(1,2)] h R_isset by auto
  obtain b s2 where "php3_isset vp s1 = Some (b, s2)"
      "b = (case lookup (name_key l) ks (values_of N X) of Some y \<Rightarrow> y \<noteq> Leaf var_uninit | None \<Rightarrow> False)"
      "looked_up fr s t N X E' (Leaf (V_LONG (if b then 1 else 0))) (V_LONG (if b then 1 else 0)) s2"
    using isset_view [OF v p(2)] l(3) by (metis is_leaf.simps)
  moreover have "z = Leaf (V_LONG (if b then 1 else 0))"
    using calculation(2) l(4) by (auto split: option.splits)
  ultimately show ?thesis
    using R_isset p(1) by auto
qed

text \<open>The simple right-hand sides leave the memory, and where the pointer leads, alone.\<close>

lemma simple_view:
  assumes v: "view fr s t N X C T" and h: "rvalue_names e \<inter> hidden fr = {}" and e: "simple e (values_of N X)" "eval_rvalue e (values_of N X) = Some (z, E')"
  shows "\<exists>r s'. run_rvalue e s = Some (r, s') \<and> scoped fr s' t N X C T \<and> carries fr s' t r z C T \<and> same_on C T s s' \<and>
    E' = values_of N X \<and> unassigned s' = unassigned s"
proof (cases e)
  case (R_value w)
  then have "z = Leaf w" "E' = values_of N X" "is_leaf w"
    using e(2) by (auto split: if_splits)
  then show ?thesis
    using R_value view_scoped [OF v] view_carries [OF v] by (auto simp: same_on_def)
next
  case (R_read l)
  obtain p where l: "l = Lvalue p []"
    using e(1) R_read by (cases l) auto
  let ?k = "arr_key (bytes_of p)"
  obtain x where x: "values_of N X ?k = Some x"
    using e(1) R_read l by auto
  then obtain c where c: "N ?k = Some c" "X c = Some x"
    by (auto simp: values_of_def split: bind_splits)
  have vw: "mem s X C T" "store_ok s" "active s = Some t" "t \<notin> T" "all_used fr s t C T"
    using v by (auto simp: view_def scoped_def)
  obtain b where b: "tabs s t = Some b" "scope_table fr b"
    using v unfolding view_def scoped_def by blast
  let ?vp = "\<lparr>vp_cell = Some c, vp_write = False, vp_offset = -1\<rparr>"
  obtain r s' D S where rd: "read_pointer_value ?vp s = Some (r, s')" "mem s' X C T" "reserved s' r (copied x) D S C T"
      "extends s s'" "store_ok s'" "evolves s {} {} s' D S"
    using read_plain [OF vw(1) c(2) vw(2), of ?vp] by auto
  have tb: "tabs s' t = Some b" "t \<notin> S"
    using tabs_extends [OF rd(4) vw(2) b(1)] rd(6) store_ok_tab [OF vw(2) b(1)] by (auto simp: evolves_def)
  moreover have "active s' = Some t" "unassigned s' = unassigned s" "symbol_table s' = symbol_table s"
    using rd(4) vw(3) by (simp_all add: extends_def)
  ultimately have "scoped fr s' t N X C T" "unassigned s' = unassigned s"
    using v rd(2,5) b names_frame [of s' t s] unfolding view_def scoped_def by auto
  moreover have "all_used fr s' t (C \<union> D) (T \<union> S)"
    using all_used_evolves [OF vw(5,2)] evolves_widen [OF rd(6), of C T] by (simp add: Un_commute)
  then have "carries fr s' t r (copied x) C T"
    using rd(3) tb(2) unfolding carries_def by blast
  moreover have "same_on C T s s'"
    using extends_same_on [OF rd(4)] mem_footprint [OF vw(1,2)] by blast
  moreover have "run_rvalue e s = Some (r, s')"
    using R_read l scoped_found [OF view_scoped [OF v] c(1)] h vw(3) rd(1) by (simp add: get_regular_variable_pointer_def)
  moreover have "z = copied x" "E' = values_of N X"
    using e(2) R_read l x by (auto simp: lookup_def probe_def split: bind_splits)
  ultimately show ?thesis
    by blast
next
  case (R_isset l)
  then show ?thesis
    using e(1) by simp
qed

subsection \<open>Statements\<close>

lemma assign_view:
  assumes v: "scoped fr s t N X C T" "X c = Some x" and e: "carries fr s t e z C T" and d: "cell_at s c ks = Some d"
    and vp: "vp_cell vp = Some d" "vp_offset vp = -1"
  shows "\<exists>r s' C' T'. assign_to_variable prec vp e None s = Some (r, SUCCESS, s') \<and> scoped fr s' t N (X(c \<mapsto> tree_put ks z x)) C' T' \<and>
    carries fr s' t r (copied z) C' T' \<and> unassigned s' = (if vp_write vp then tl (unassigned s) else unassigned s)"
proof -
  have "\<exists>r s' C' T'. (assign_to_variable prec vp e None s = Some (r, SUCCESS, s') \<and>
      unassigned s' = (if vp_write vp then tl (unassigned s) else unassigned s)) \<and>
      scoped fr s' t N (X(c \<mapsto> tree_put ks z x)) C' T' \<and> carries fr s' t r (copied z) C' T' \<and> tabs s' t = tabs s t"
  proof (rule view_step [OF v e])
    fix D S De Se
    assume "hcell s c x D S" "reserved s e z De Se D S"
    moreover have "store_ok s"
      using v(1) by (simp add: scoped_def)
    ultimately show "\<exists>r s' D' S' Dr Sr. (assign_to_variable prec vp e None s = Some (r, SUCCESS, s') \<and>
        unassigned s' = (if vp_write vp then tl (unassigned s) else unassigned s)) \<and> hcell s' c (tree_put ks z x) D' S' \<and>
        reserved s' r (copied z) Dr Sr D' S' \<and> evolves s (D \<union> De) (S \<union> Se) s' (D' \<union> Dr) (S' \<union> Sr)"
      using assign_at [OF _ d _ _ vp] by blast
  qed
  then show ?thesis
    by blast
qed

lemma pointed_values:
  assumes v: "view fr s t N X C T" and p: "pointed fr s t N X k ks x vp s1 c d"
  shows "values_of (N(k \<mapsto> c)) (X(c \<mapsto> x)) = (values_of N X)(k \<mapsto> x)" "beyond (N(k \<mapsto> c)) (X(c \<mapsto> x)) = beyond N X"
proof -
  have inj: "inj_on N (dom N)" and rn: "ran N \<subseteq> dom X" and c: "N k = Some c \<or> N k = None \<and> X c = None"
    using v p by (auto simp: view_def scoped_def pointed_def)
  from c show "values_of (N(k \<mapsto> c)) (X(c \<mapsto> x)) = (values_of N X)(k \<mapsto> x)" "beyond (N(k \<mapsto> c)) (X(c \<mapsto> x)) = beyond N X"
    using values_of_update [OF inj, where k = k and c = c] values_of_new [OF _ _ rn, where k = k and c = c] by (auto simp: map_upd_triv)
qed

definition env_of :: "surroundings \<Rightarrow> vstate \<Rightarrow> tab \<Rightarrow> env \<Rightarrow> (cell \<rightharpoonup> tree) \<Rightarrow> bool" where
  "env_of fr s t E Z \<longleftrightarrow> (\<exists>N X C T. view fr s t N X C T \<and> values_of N X = E \<and> beyond N X = Z)"

lemma env_ofI: "view fr s t N X C T \<Longrightarrow> values_of N X = E \<Longrightarrow> beyond N X = Z \<Longrightarrow> env_of fr s t E Z"
  unfolding env_of_def by blast

lemma run_assign:
  assumes en: "env_of fr s t E Z" and h: "statement_names (S_assign l e) \<inter> hidden fr = {}" and ex: "exec_statement (S_assign l e) E = Some E'"
  shows "\<exists>s'. run_statement prec (S_assign l e) s = Some s' \<and> env_of fr s' t E' Z \<and> unassigned s' = unassigned s"
proof -
  obtain N X C T where v: "view fr s t N X C T" and E: "values_of N X = E" "beyond N X = Z"
    using en unfolding env_of_def by blast
  let ?k = "name_key l"
  obtain ks x z E2 where l: "path_of l = Some ks" "reach ?k ks E = Some x" "eval_rvalue e (E(?k \<mapsto> x)) = Some (z, E2)"
      and E': "E' = E2(?k \<mapsto> if ks = [] then z else tree_put ks z x)" and sm: "ks = [] \<or> simple e (E(?k \<mapsto> x))"
    using ex by (auto simp: Let_def split: bind_splits if_splits)
  obtain vp s1 c d where vp: "variable_pointer l s = Some (vp, s1)" and p: "pointed fr s t N X ?k ks x vp s1 c d"
    using point [OF v _ l(1)] l(2) E(1) h by auto
  let ?N = "N(?k \<mapsto> c)" and ?X = "X(c \<mapsto> x)"
  have cd: "vp_cell vp = Some d" "cell_at s1 c ks = Some d" "vp_offset vp = -1"
      "unassigned s = (if vp_write vp then tl (unassigned s1) else unassigned s1)"
    using p unfolding pointed_def by blast+
  obtain C1 T1 where v1: "view fr s1 t ?N ?X C1 T1"
    using p unfolding pointed_def by blast
  note E1 = pointed_values [OF v p, unfolded E]
  have "\<exists>r s2 X2 C2 T2 x2. run_rvalue e s1 = Some (r, s2) \<and> scoped fr s2 t ?N X2 C2 T2 \<and> carries fr s2 t r z C2 T2 \<and> values_of ?N X2 = E2 \<and>
      beyond ?N X2 = Z \<and> X2 c = Some x2 \<and> cell_at s2 c ks = Some d \<and> tree_put ks z x2 = (if ks = [] then z else tree_put ks z x) \<and>
      unassigned s2 = unassigned s1"
  proof (cases "ks = []")
    case True
    obtain r s2 where r: "run_rvalue e s1 = Some (r, s2)" "looked_up fr s1 t ?N ?X E2 z r s2"
      using rvalue_view [OF v1, unfolded E1(1), OF _ l(3)] h by auto
    then obtain X2 C2 T2 where v2: "scoped fr s2 t ?N X2 C2 T2" "carries fr s2 t r z C2 T2" "values_of ?N X2 = E2" "beyond ?N X2 = Z"
        "unassigned s2 = unassigned s1"
      unfolding looked_up_def E1(2) by blast
    moreover obtain x2 where "X2 c = Some x2"
      using scoped_value [OF v2(1), of ?k c] by auto
    ultimately show ?thesis
      using r(1) True cd(2) by auto
  next
    case False
    then have "simple e (values_of ?N ?X)"
      using sm E1(1) by simp
    then obtain r s2 where r: "run_rvalue e s1 = Some (r, s2)" "scoped fr s2 t ?N ?X C1 T1" "carries fr s2 t r z C1 T1" "same_on C1 T1 s1 s2"
        "E2 = values_of ?N ?X" "unassigned s2 = unassigned s1"
      using simple_view [OF v1, of e z E2] h l(3) E1(1) by auto
    have "mem s1 ?X C1 T1" "?X c = Some x"
      using v1 by (simp_all add: view_def scoped_def)
    then obtain D S C2 T2 where "hcell s1 c x D S" "C1 = D \<union> C2" "T1 = S \<union> T2"
      by (rule mem_focus)
    moreover from this have "same_on D S s1 s2"
      using r(4) by (auto simp: same_on_def)
    ultimately have "cell_at s2 c ks = Some d"
      using cell_at_frame cd(2) by blast
    then show ?thesis
      using r E1(2) False by (intro exI [of _ r] exI [of _ s2] exI [of _ ?X] exI [of _ C1] exI [of _ T1] exI [of _ x]) simp
  qed
  then obtain r s2 X2 C2 T2 x2 where r: "run_rvalue e s1 = Some (r, s2)" and v2: "scoped fr s2 t ?N X2 C2 T2" and ca: "carries fr s2 t r z C2 T2"
      and E2: "values_of ?N X2 = E2" "beyond ?N X2 = Z" and x2: "X2 c = Some x2" and d2: "cell_at s2 c ks = Some d"
      and tp: "tree_put ks z x2 = (if ks = [] then z else tree_put ks z x)" and u2: "unassigned s2 = unassigned s1"
    by blast
  obtain r' s3 C3 T3 where a: "assign_to_variable prec vp r None s2 = Some (r', SUCCESS, s3)" "scoped fr s3 t ?N (X2(c \<mapsto> tree_put ks z x2)) C3 T3"
      "carries fr s3 t r' (copied z) C3 T3" "unassigned s3 = (if vp_write vp then tl (unassigned s2) else unassigned s2)"
    using assign_view [OF v2 x2 ca d2 cd(1,3)] by blast
  obtain s4 where s4: "pval_destructor r' s3 = Some s4" "view fr s4 t ?N (X2(c \<mapsto> tree_put ks z x2)) C3 T3" "unassigned s4 = unassigned s3"
    using view_drop [OF a(2,3)] by blast
  have inj: "inj_on ?N (dom ?N)"
    using v2 by (simp add: scoped_def)
  have "?N ?k = Some c"
    by simp
  note up = values_of_update [OF inj this, of X2 "tree_put ks z x2"]
  have "env_of fr s4 t E' Z"
    by (rule env_ofI [OF s4(2)]) (unfold up E2 E', simp_all add: tp)
  moreover have "run_statement prec (S_assign l e) s = Some s4" "unassigned s4 = unassigned s"
    using vp r a(1,4) s4(1,3) u2 cd(4) by simp_all
  ultimately show ?thesis
    by blast
qed

lemma run_unset:
  assumes en: "env_of fr s t E Z" and h: "name_key l \<notin> hidden fr" and ex: "exec_statement (S_unset l) E = Some E'"
  shows "\<exists>s'. run_statement prec (S_unset l) s = Some s' \<and> env_of fr s' t E' Z \<and> unassigned s' = unassigned s"
proof -
  obtain N X C T where v: "view fr s t N X C T" and E: "values_of N X = E" "beyond N X = Z"
    using en unfolding env_of_def by blast
  let ?k = "name_key l"
  obtain ks x where l: "path_of l = Some ks" "reach ?k ks E = Some x"
      and E': "E' = (if lookup ?k ks E = None then probe ?k ks E else E(?k \<mapsto> tree_put ks (Leaf var_uninit) x))"
    using ex by (auto split: bind_splits)
  obtain vp s1 c d where vp: "variable_pointer l s = Some (vp, s1)" and p: "pointed fr s t N X ?k ks x vp s1 c d"
    using point [OF v h l(1)] l(2) E(1) by blast
  show ?thesis
  proof (cases "lookup ?k ks E")
    case None
    then obtain s2 X2 C2 T2 where "vp_write vp" "clean_unassigned_variable_top True s1 = Some s2" "view fr s2 t N X2 C2 T2"
        "values_of N X2 = probe ?k ks E" "beyond N X2 = beyond N X" "unassigned s2 = unassigned s"
      using p E(1) unfolding pointed_def by auto
    then show ?thesis
      using None E' E(2) vp env_ofI by (auto simp: php3_unset_def)
  next
    case (Some y)
    then obtain C1 T1 where q: "\<not> vp_write vp" "vp_cell vp = Some d" "cell_at s1 c ks = Some d" "N ?k = Some c"
        "view fr s1 t N (X(c \<mapsto> x)) C1 T1" "unassigned s1 = unassigned s"
      using p E(1) by (auto simp: pointed_def map_upd_triv)
    have ok: "store_ok s1" and inj: "inj_on N (dom N)"
      using q(5) by (simp_all add: view_def scoped_def)
    let ?u = "\<lambda>s'. \<exists>old s2. cells s1 d = Some old \<and> pval_destructor old s1 = Some s2 \<and> set_cell d var_uninit s2 = Some s' \<and>
        unassigned s' = unassigned s"
    have "\<exists>s' C' T'. ?u s' \<and> view fr s' t N (X(c \<mapsto> x, c \<mapsto> tree_put ks (Leaf var_uninit) x)) C' T' \<and> tabs s' t = tabs s1 t"
    proof (rule view_change [OF q(5)])
      fix D S assume h: "hcell s1 c x D S"
      have "reserved s1 var_uninit (Leaf var_uninit) {} {} D S"
        by (rule reserved_leaf) (simp add: var_uninit_def)
      from replace_at [OF h q(3) ok this] show "\<exists>s' D' S'. ?u s' \<and> hcell s' c (tree_put ks (Leaf var_uninit) x) D' S' \<and> evolves s1 D S s' D' S'"
        using q(6) by (metis Un_empty_right)
    qed simp
    then obtain old s2 s' C' T' where u: "cells s1 d = Some old" "pval_destructor old s1 = Some s2" "set_cell d var_uninit s2 = Some s'"
        "unassigned s' = unassigned s" "view fr s' t N (X(c \<mapsto> tree_put ks (Leaf var_uninit) x)) C' T'"
      by auto
    have "env_of fr s' t E' Z"
      by (rule env_ofI [OF u(5)]) (simp_all add: values_of_update [OF inj q(4)] E E' Some)
    moreover have "run_statement prec (S_unset l) s = Some s'"
      using vp q(1,2) u(1-3) by (simp add: php3_unset_def)
    ultimately show ?thesis
      using u(4) by blast
  qed
qed

lemma run_program_env:
  "env_of fr s t E Z \<Longrightarrow> program_names prog \<inter> hidden fr = {} \<Longrightarrow> exec_program prog E = Some E' \<Longrightarrow>
    \<exists>s'. run_program prec prog s = Some s' \<and> env_of fr s' t E' Z \<and> unassigned s' = unassigned s"
proof (induction prog arbitrary: s E)
  case (Cons st prog)
  obtain E1 where E1: "exec_statement st E = Some E1" "exec_program prog E1 = Some E'"
    using Cons.prems(3) by (auto split: bind_splits)
  have h: "statement_names st \<inter> hidden fr = {}" "program_names prog \<inter> hidden fr = {}"
    using Cons.prems(2) by auto
  have "\<exists>s1. run_statement prec st s = Some s1 \<and> env_of fr s1 t E1 Z \<and> unassigned s1 = unassigned s"
  proof (cases st)
    case (S_assign l e)
    then show ?thesis
      using run_assign [OF Cons.prems(1)] h(1) E1(1) by blast
  next
    case (S_unset l)
    then show ?thesis
      using run_unset [OF Cons.prems(1)] h(1) E1(1) by auto
  qed
  then obtain s1 where s1: "run_statement prec st s = Some s1" "env_of fr s1 t E1 Z" "unassigned s1 = unassigned s"
    by blast
  then show ?case
    using Cons.IH [OF s1(2) h(2) E1(2)] by auto
qed simp

end
