(* ===== verification/Var_Function.thy ===== *)
theory Var_Function
  imports Var_Run Var_Calls
begin

text \<open>
  Calls of user functions with one parameter whose body is a straight-line program that may end in \<^verbatim>\<open>return\<close>: the
  function works on an environment of its own, and at its end everything of it is gone.
\<close>

definition function_result :: "rvalue option \<Rightarrow> call_state \<Rightarrow> call_state option" where
  "function_result ret cs =
     (case ret of
        None \<Rightarrow> Some cs
      | Some e \<Rightarrow> do { (v, s) \<leftarrow> run_rvalue e (store cs); Some (return_from_function (Some v) (cs\<lparr>store := s\<rparr>)) })"

text \<open>\<^verbatim>\<open>p(vp)\<close>, or with \<^verbatim>\<open>&\<close>, for \<^verbatim>\<open>function p($q) { body; return ret; }\<close>.\<close>

definition call_function :: "nat \<Rightarrow> cstring \<Rightarrow> varptr \<Rightarrow> bool \<Rightarrow> cstring \<Rightarrow> statement list \<Rightarrow> rvalue option \<Rightarrow> call_state \<Rightarrow>
    (vval \<times> call_state) option" where
  "call_function prec p vp by_reference q body ret cs = do {
     cs1 \<leftarrow> enter_call p vp by_reference q cs;
     s \<leftarrow> run_program prec body (store cs1);
     cs2 \<leftarrow> function_result ret (cs1\<lparr>store := s\<rparr>);
     cs_functioncall_end cs2
   }"

text \<open>What the body makes of the environment, and the result.\<close>

definition eval_result :: "rvalue option \<Rightarrow> env \<Rightarrow> (tree \<times> env) option" where
  "eval_result ret E = (case ret of None \<Rightarrow> Some (Leaf v_reset, E) | Some e \<Rightarrow> eval_rvalue e E)"

definition eval_function :: "statement list \<Rightarrow> rvalue option \<Rightarrow> env \<Rightarrow> (tree \<times> env) option" where
  "eval_function body ret E = Option.bind (exec_program body E) (eval_result ret)"

definition function_names :: "statement list \<Rightarrow> rvalue option \<Rightarrow> hkey set" where
  "function_names body ret = program_names body \<union> (case ret of None \<Rightarrow> {} | Some e \<Rightarrow> rvalue_names e)"

subsection \<open>Leaving a scope\<close>

lemma owned_cells_set: "set (owned_cells l) = {c. \<exists>k. (k, c, False) \<in> set l}"
  by (induction l rule: owned_cells.induct) auto

lemma owned_cells_distinct:
  "distinct (map fst l) \<Longrightarrow> inj_on f {k. \<exists>c. (k, c, False) \<in> set l} \<Longrightarrow> (\<And>k c. (k, c, False) \<in> set l \<Longrightarrow> f k = Some c) \<Longrightarrow>
    distinct (owned_cells l)"
proof (induction l rule: owned_cells.induct)
  case (2 k c ptr es)
  have i: "distinct (owned_cells es)"
    using 2 by (cases ptr) (auto intro: inj_on_subset)
  show ?case
  proof (cases ptr)
    case False
    have "c \<notin> set (owned_cells es)"
    proof
      assume "c \<in> set (owned_cells es)"
      then obtain k' where k': "(k', c, False) \<in> set es"
        by (auto simp: owned_cells_set)
      then have "f k' = Some c" "f k = Some c"
        using "2.prems"(3) False by auto
      then have "k' = k"
        using inj_onD [OF "2.prems"(2), of k' k] k' False by auto
      with k' "2.prems"(1) show False
        by force
    qed
    with i False show ?thesis
      by simp
  qed (simp add: i)
qed simp

text \<open>The owned cells of a scope are those of the names that are not linked.\<close>

lemma scoped_owned:
  assumes sc: "scoped fr s t N X C T" and b: "tabs s t = Some b"
  shows "set (owned_cells (vt_entries b)) = ran (N |` (- dom (linked fr)))" "distinct (owned_cells (vt_entries b))"
proof -
  have st: "scope_table fr b" and N: "names s t |` (- hidden fr) = N" and inj: "inj_on N (dom N)"
    using sc b by (auto simp: scoped_def)
  have dt: "distinct (map fst (vt_entries b))"
    using st by (simp add: scope_table_def)
  have e: "(k, c, False) \<in> set (vt_entries b) \<longleftrightarrow> N k = Some c \<and> k \<notin> dom (linked fr)" for k c
  proof
    assume "(k, c, False) \<in> set (vt_entries b)"
    then have "entry_of b k = Some (c, False)"
      unfolding entry_of_def using dt by simp
    then show "N k = Some c \<and> k \<notin> dom (linked fr)"
      using st b unfolding scope_table_def N [symmetric] by (auto simp: names_def restrict_map_def)
  next
    assume k: "N k = Some c \<and> k \<notin> dom (linked fr)"
    then have "entry_of b k = Some (c, False)"
      using scoped_entry [OF sc, of k c] b by auto
    then show "(k, c, False) \<in> set (vt_entries b)"
      unfolding entry_of_def by (rule map_of_SomeD)
  qed
  show "set (owned_cells (vt_entries b)) = ran (N |` (- dom (linked fr)))"
    unfolding owned_cells_set e by (auto simp: ran_def restrict_map_def)
  show "distinct (owned_cells (vt_entries b))"
    by (rule owned_cells_distinct [OF dt, of N]) (auto simp: e intro!: inj_on_subset [OF inj])
qed

text \<open>The memory of a scope without its own variables.\<close>

definition outer :: "surroundings \<Rightarrow> (hkey \<rightharpoonup> cell) \<Rightarrow> (cell \<rightharpoonup> tree) \<Rightarrow> cell \<rightharpoonup> tree" where
  "outer fr N X = X |` (- ran (N |` (- dom (linked fr))))"

lemma leave_scope:
  assumes sc: "scoped fr s t N X C T" and r: "carries fr s t r z C T" and t: "t \<noteq> symbol_table s"
  shows "\<exists>s' C' T' D S. table_destroy t s = Some s' \<and> mem s' (outer fr N X) C' T' \<and> store_ok s' \<and> reserved s' r z D S C' T' \<and>
    rest_kept (rest_cells fr) (rest_tabs fr) s' (C' \<union> D) (T' \<union> S) \<and> unassigned s' = unassigned s \<and>
    symbol_table s' = symbol_table s"
proof -
  have vw: "mem s X C T" "store_ok s" "t \<notin> T" "ran N \<subseteq> dom X" "linked fr \<subseteq>\<^sub>m N"
    using sc by (auto simp: scoped_def)
  obtain b where b: "tabs s t = Some b"
    using sc unfolding scoped_def by blast
  obtain D S where d: "reserved s r z D S C T" "t \<notin> S" "all_used fr s t (C \<union> D) (T \<union> S)"
    using r unfolding carries_def by blast
  note own = scoped_owned [OF sc b]
  have "set (owned_cells (vt_entries b)) \<subseteq> dom X"
    using own(1) vw(4) by (auto simp: ran_def restrict_map_def split: if_splits)
  then obtain s' C' T' where s': "table_destroy t s = Some s'" "mem s' (outer fr N X) C' T'" "evolves s C (insert t T) s' C' T'"
      "tabs s' t = None" "unassigned s' = unassigned s"
    using scope_destroy [OF vw(1) b vw(3,2) t own(2)] own(1) unfolding outer_def by auto
  have ok': "store_ok s'" "symbol_table s' = symbol_table s"
    using s'(3) by (simp_all add: evolves_def)
  have "reserved s r z D S C (insert t T)"
    using d(1,2) by (auto simp: reserved_def)
  then have r': "reserved s' r z D S C' T'"
    by (rule reserved_evolves [OF _ s'(3) vw(2)])
  have "rest_kept (rest_cells fr) (rest_tabs fr) s (C \<union> D) (insert t T \<union> S)"
    using d(3) by (simp add: all_used_def)
  then have "rest_kept (rest_cells fr) (rest_tabs fr) s' (C' \<union> D) (T' \<union> S)"
    using rest_kept_step [OF _ vw(2) evolves_widen [OF s'(3)]] by blast
  with s' ok' r' show ?thesis
    by blast
qed

subsection \<open>The body and the end\<close>

text \<open>What is left of a call: the memory \<open>X\<close>, a result that reads as \<open>z\<close>, and nothing else that was not there before.\<close>

definition returned :: "(vval \<times> call_state) option \<Rightarrow> call_state \<Rightarrow> cell set \<Rightarrow> tab set \<Rightarrow> (cell \<rightharpoonup> tree) \<Rightarrow> tree \<Rightarrow> bool" where
  "returned res cs C T X z \<longleftrightarrow> (\<exists>r cs' C' T' D S. res = Some (r, cs') \<and> fstate cs' = fstate cs \<and> fstack cs' = fstack cs \<and>
     active (store cs') = fs_symbol_table (fstate cs) \<and> unassigned (store cs') = unassigned (store cs) \<and> store_ok (store cs') \<and>
     symbol_table (store cs') = symbol_table (store cs) \<and> function_table cs' = function_table cs \<and> mem (store cs') X C' T' \<and> reserved (store cs') r z D S C' T' \<and>
     rest_kept (cells (store cs) |` (- C)) (tabs (store cs) |` (- T)) (store cs') (C' \<union> D) (T' \<union> S))"

lemma rest_kept_start: "store_ok s \<Longrightarrow> mem s X C T \<Longrightarrow> rest_kept (cells s |` (- C)) (tabs s |` (- T)) s C T"
  using mem_footprint [of s X C T] by (auto simp: rest_kept_def)

lemma rest_kept_active [simp]: "rest_kept R Q (s\<lparr>active := a\<rparr>) C T = rest_kept R Q s C T"
  by (simp add: rest_kept_def)

lemma names_active [simp]: "names (s\<lparr>active := a\<rparr>) t = names s t"
  by (simp add: names_def fun_eq_iff)

lemma reserved_active [simp]: "reserved (s\<lparr>active := a\<rparr>) r z D S C T = reserved s r z D S C T"
  by (simp add: reserved_def)

lemma function_result_end:
  assumes v: "view fr (store cs) t N X C T" and h: "(case ret of None \<Rightarrow> {} | Some e \<Rightarrow> rvalue_names e) \<inter> hidden fr = {}"
    and e: "eval_result ret (values_of N X) = Some (z, E')"
    and t: "t \<noteq> symbol_table (store cs)" "fs_symbol_table (fstate cs) = Some t" "fs_object (fstate cs) = None" "fstack cs = f # rest"
      "fs_kind (fstate cs) = User_function" "return_value cs = v_reset"
  shows "\<exists>r s' cs' X' C' T' D S. Option.bind (function_result ret cs) cs_functioncall_end = Some (r, cs') \<and> fstate cs' = f \<and> fstack cs' = rest \<and>
    store cs' = s'\<lparr>active := fs_symbol_table f\<rparr> \<and> unassigned s' = unassigned (store cs) \<and> store_ok s' \<and>
    symbol_table s' = symbol_table (store cs) \<and> function_table cs' = function_table cs \<and> values_of N X' = E' \<and>
    beyond N X' = beyond N X \<and> ran N \<subseteq> dom X' \<and> mem s' (outer fr N X') C' T' \<and> reserved s' r z D S C' T' \<and>
    rest_kept (rest_cells fr) (rest_tabs fr) s' (C' \<union> D) (T' \<union> S)"
proof -
  have "\<exists>r s1 cs1 X1 C1 T1. function_result ret cs = Some cs1 \<and> store cs1 = s1 \<and> scoped fr s1 t N X1 C1 T1 \<and> carries fr s1 t r z C1 T1 \<and>
      values_of N X1 = E' \<and> beyond N X1 = beyond N X \<and> unassigned s1 = unassigned (store cs) \<and>
      function_table cs1 = function_table cs \<and> fs_symbol_table (fstate cs1) = Some t \<and> fs_object (fstate cs1) = None \<and> fstack cs1 = f # rest \<and>
      (if fs_kind (fstate cs1) = User_function \<and> \<not> fs_returned (fstate cs1) then v_reset else return_value cs1) = r"
  proof (cases ret)
    case None
    then have z: "z = Leaf v_reset" "E' = values_of N X"
      using e by (simp_all add: eval_result_def)
    have "is_leaf v_reset"
      by (simp add: v_reset_def)
    then show ?thesis
      using None z view_scoped [OF v] view_carries [OF v] t by (auto simp: function_result_def)
  next
    case (Some a)
    then have "eval_rvalue a (values_of N X) = Some (z, E')" "rvalue_names a \<inter> hidden fr = {}"
      using e h by (simp_all add: eval_result_def)
    then obtain r s1 where r: "run_rvalue a (store cs) = Some (r, s1)" "looked_up fr (store cs) t N X E' z r s1"
      using rvalue_view [OF v] by blast
    then show ?thesis
      using Some t by (auto simp: function_result_def looked_up_def return_from_function_def)
  qed
  then obtain r s1 cs1 X1 C1 T1 where f: "function_result ret cs = Some cs1" "store cs1 = s1" "scoped fr s1 t N X1 C1 T1"
      "carries fr s1 t r z C1 T1" "values_of N X1 = E'" "beyond N X1 = beyond N X" "unassigned s1 = unassigned (store cs)"
      "function_table cs1 = function_table cs" "fs_symbol_table (fstate cs1) = Some t" "fs_object (fstate cs1) = None"
      "fstack cs1 = f # rest" "(if fs_kind (fstate cs1) = User_function \<and> \<not> fs_returned (fstate cs1) then v_reset else return_value cs1) = r"
    by blast
  obtain s' C' T' D S where s': "table_destroy t s1 = Some s'" "mem s' (outer fr N X1) C' T'" "store_ok s'" "reserved s' r z D S C' T'"
      "rest_kept (rest_cells fr) (rest_tabs fr) s' (C' \<union> D) (T' \<union> S)" "unassigned s' = unassigned s1"
      "symbol_table s' = symbol_table (store cs)"
    using leave_scope [OF f(3,4)] t(1) f(3) v by (auto simp: view_def scoped_def)
  have "cs_functioncall_end cs1 = Some (r, cs1\<lparr>store := s'\<lparr>active := fs_symbol_table f\<rparr>, fstate := f, fstack := rest\<rparr>)"
    using f(2,9-12) s'(1) by (simp add: cs_functioncall_end_def Let_def)
  moreover have "ran N \<subseteq> dom X1"
    using f(3) by (simp add: scoped_def)
  ultimately show ?thesis
    using f(1,5-8) s'(2-7)
    by (intro exI [of _ r] exI [of _ s'] exI [of _ "cs1\<lparr>store := s'\<lparr>active := fs_symbol_table f\<rparr>, fstate := f, fstack := rest\<rparr>"]
        exI [of _ X1] exI [of _ C'] exI [of _ T'] exI [of _ D] exI [of _ S]) simp
qed

subsection \<open>Whole calls\<close>

text \<open>
  From the scope with its parameter to the caller: the memory of the caller is what the names of the function do not own,
  with the trees of its linked names.
\<close>

lemma call_scope:
  assumes en: "enter_call p vp by_reference q cs = Some (entered p cs s1)"
    and v: "view fr (s1\<lparr>active := Some (next_tab (store cs))\<rparr>) (next_tab (store cs)) N X C T" 
    and un: "unassigned s1 = unassigned (store cs)" "symbol_table s1 = symbol_table (store cs)"
    and t: "next_tab (store cs) \<noteq> symbol_table s1" and h: "function_names body ret \<inter> hidden fr = {}"
    and e: "eval_function body ret (values_of N X) = Some (z, E')"
    and fr: "rest_cells fr = cells (store cs) |` (- C0)" "rest_tabs fr = tabs (store cs) |` (- T0)"
    and Y: "\<And>N' X'. values_of N' X' = E' \<Longrightarrow> beyond N' X' = beyond N X \<Longrightarrow> linked fr \<subseteq>\<^sub>m N' \<Longrightarrow> inj_on N' (dom N') \<Longrightarrow>
      ran N' \<subseteq> dom X' \<Longrightarrow> outer fr N' X' = Y"
  shows "returned (call_function prec p vp by_reference q body ret cs) cs C0 T0 Y z"
proof -
  let ?t = "next_tab (store cs)" and ?cs = "entered p cs s1"
  obtain E1 where E1: "exec_program body (values_of N X) = Some E1" "eval_result ret E1 = Some (z, E')"
    using e by (auto simp: eval_function_def split: bind_splits)
  have "env_of fr (store ?cs) ?t (values_of N X) (beyond N X)"
    using v by (intro env_ofI) (simp_all add: entered_def)
  then obtain s2 where s2: "run_program prec body (store ?cs) = Some s2" "env_of fr s2 ?t E1 (beyond N X)" "unassigned s2 = unassigned s1"
    using run_program_env [OF _ _ E1(1)] h by (fastforce simp: function_names_def entered_def)
  obtain N2 X2 C2 T2 where v2: "view fr s2 ?t N2 X2 C2 T2" "values_of N2 X2 = E1" "beyond N2 X2 = beyond N X"
    using s2(2) unfolding env_of_def by blast
  let ?cs2 = "?cs\<lparr>store := s2\<rparr>"
  have sc: "symbol_table s2 = symbol_table s1" "linked fr \<subseteq>\<^sub>m N2" "inj_on N2 (dom N2)"
    using v v2(1) by (auto simp: view_def scoped_def)
  have "\<exists>r s' cs' X' C' T' D S. Option.bind (function_result ret ?cs2) cs_functioncall_end = Some (r, cs') \<and> fstate cs' = fstate cs \<and>
    fstack cs' = fstack cs \<and> store cs' = s'\<lparr>active := fs_symbol_table (fstate cs)\<rparr> \<and> unassigned s' = unassigned (store ?cs2) \<and> store_ok s' \<and>
    symbol_table s' = symbol_table (store ?cs2) \<and> function_table cs' = function_table ?cs2 \<and> values_of N2 X' = E' \<and> beyond N2 X' = beyond N2 X2 \<and> ran N2 \<subseteq> dom X' \<and> mem s' (outer fr N2 X') C' T' \<and> reserved s' r z D S C' T' \<and>
    rest_kept (rest_cells fr) (rest_tabs fr) s' (C' \<union> D) (T' \<union> S)"
    by (rule function_result_end [of fr ?cs2 ?t])
      (use v2(1) h E1(2) v2(2) t sc(1) in \<open>auto simp: function_names_def entered_def called_state_def\<close>)
  then obtain r s' cs' X' C' T' D S where r: "Option.bind (function_result ret ?cs2) cs_functioncall_end = Some (r, cs')" "fstate cs' = fstate cs"
      "fstack cs' = fstack cs" "store cs' = s'\<lparr>active := fs_symbol_table (fstate cs)\<rparr>" "unassigned s' = unassigned s2" "store_ok s'"
      "symbol_table s' = symbol_table s2" "function_table cs' = function_table cs" "values_of N2 X' = E'" "beyond N2 X' = beyond N X" "ran N2 \<subseteq> dom X'" "mem s' (outer fr N2 X') C' T'" "reserved s' r z D S C' T'"
      "rest_kept (cells (store cs) |` (- C0)) (tabs (store cs) |` (- T0)) s' (C' \<union> D) (T' \<union> S)"
    unfolding fr v2(3) by (auto simp: entered_def)
  have "outer fr N2 X' = Y"
    by (rule Y [OF r(9,10) sc(2,3) r(11)])
  moreover have "call_function prec p vp by_reference q body ret cs = Some (r, cs')"
    using en s2(1) r(1) by (simp add: call_function_def)
  ultimately show ?thesis
    unfolding returned_def using r un s2(3) sc(1)
    by (intro exI [of _ r] exI [of _ cs'] exI [of _ C'] exI [of _ T'] exI [of _ D] exI [of _ S]) simp
qed

lemma ran_except: "N k \<noteq> Some d \<Longrightarrow> d \<in> ran (N |` (- {k})) \<longleftrightarrow> d \<in> ran N"
  unfolding ran_def restrict_map_def by auto

lemma scope_table_by_value:
  "vt_entries b = [(globals_key, g, True), (IntKey 0, d0, False), (StrKey k, d1, False)] \<Longrightarrow> StrKey k \<noteq> globals_key \<Longrightarrow>
    linked fr = Map.empty \<Longrightarrow> hidden fr = {globals_key} \<Longrightarrow> scope_table fr b"
  by (auto simp: scope_table_def entry_of_def globals_key)

lemma call_by_value:
  assumes f: "tab_find (function_table cs) (arr_key (php3_str_tolower (bytes_of p))) (store cs) = Some (Some fc)"
    "cells (store cs) fc = Some (V_USER_FUNCTION a st None)"
    and vp: "vp_cell vp = Some c" "\<not> vp_write vp" "vp_offset vp = -1"
    and q: "arr_key (bytes_of q) = StrKey k" "StrKey k \<noteq> globals_key"
    and m: "mem (store cs) X C T" "X c = Some x" and ok: "store_ok (store cs)"
    and h: "globals_key \<notin> function_names body ret"
    and e: "eval_function body ret [IntKey 0 \<mapsto> copied x, StrKey k \<mapsto> copied x] = Some (z, E')"
  shows "returned (call_function prec p vp False q body ret cs) cs C T X z"
proof -
  let ?s = "store cs" and ?t = "next_tab (store cs)"
  obtain s' d0 d1 where en: "enter_call p vp False q cs = Some (entered p cs s')" and new: "X d0 = None" "X d1 = None" "d0 \<noteq> d1"
      and ec: "entered_copy ?s (X(d0 \<mapsto> copied x, d1 \<mapsto> copied x)) C T ?t
      [(globals_key, globals cs, True), (IntKey 0, d0, False), (StrKey k, d1, False)] s'"
    using enter_by_value [OF f vp q m ok] by blast
  let ?Y = "X(d0 \<mapsto> copied x, d1 \<mapsto> copied x)" and ?N = "[IntKey 0 \<mapsto> d0, StrKey k \<mapsto> d1]"
  obtain C1 T1 b where b: "mem s' ?Y C1 T1" "tabs s' ?t = Some b"
      "vt_entries b = [(globals_key, globals cs, True), (IntKey 0, d0, False), (StrKey k, d1, False)]"
      "?t \<notin> T1" "evolves ?s C T (s'\<lparr>active := active ?s\<rparr>) C1 (insert ?t T1)" "unassigned s' = unassigned ?s"
    using ec unfolding entered_copy_def by blast
  define fr where fr: "fr = \<lparr>hidden = {globals_key}, linked = Map.empty, rest_cells = cells ?s |` (- C), rest_tabs = tabs ?s |` (- T),
    global_table = symbol_table ?s\<rparr>"
  have st: "store_ok s'" "symbol_table s' = symbol_table ?s"
    using b(5) by (auto simp: evolves_def)
  have "scope_table fr b"
    by (rule scope_table_by_value [OF b(3) q(2)]) (simp_all add: fr)
  moreover have "names s' ?t |` (- hidden fr) = ?N"
    using b(2,3) q(2) by (auto simp: names_def entry_of_def fr restrict_map_def globals_key fun_eq_iff)
  moreover have "all_used fr s' ?t C1 T1"
    using rest_kept_step [OF rest_kept_start [OF ok m(1)] ok b(5)] by (simp add: all_used_def fr)
  ultimately have "view fr (s'\<lparr>active := Some ?t\<rparr>) ?t ?N ?Y C1 T1"
    using b(1,2,4) st new(3) unfolding view_def scoped_def all_used_def by (auto simp: fr inj_on_def)
  moreover have E: "values_of ?N ?Y = [IntKey 0 \<mapsto> copied x, StrKey k \<mapsto> copied x]" "beyond ?N ?Y = X"
    using new by (auto simp: values_of_def beyond_def restrict_map_def fun_eq_iff ran_def)
  moreover have "?t \<noteq> symbol_table s'"
    using scope_state_beside(5) [OF m(1) ok] st(2) by simp
  moreover have "N' |` UNIV = N'" for N' :: "hkey \<rightharpoonup> cell"
    by (simp add: restrict_map_def)
  ultimately show ?thesis
    using en b(6) st(2) h e
    by (intro call_scope [where fr = fr and N = ?N and X = ?Y and ?s1.0 = s']) (simp_all add: fr outer_def beyond_def)
qed

lemma call_by_reference:
  assumes f: "tab_find (function_table cs) (arr_key (php3_str_tolower (bytes_of p))) (store cs) = Some (Some fc)"
    "cells (store cs) fc = Some (V_USER_FUNCTION a st None)"
    and vp: "vp_cell vp = Some c" "\<not> vp_write vp"
    and q: "arr_key (bytes_of q) = StrKey k" "StrKey k \<noteq> globals_key"
    and m: "mem (store cs) X C T" "X c = Some x" and ok: "store_ok (store cs)"
    and h: "globals_key \<notin> function_names body ret"
    and e: "eval_function body ret [StrKey k \<mapsto> x] = Some (z, E')"
  shows "returned (call_function prec p vp True q body ret cs) cs C T (X(c \<mapsto> the (E' (StrKey k)))) z"
proof -
  let ?s = "store cs" and ?t = "next_tab (store cs)"
  let ?es = "[(globals_key, globals cs, True), (StrKey k, c, True)]"
  let ?s1 = "scope_state ?s ?es 1" and ?N = "[StrKey k \<mapsto> c]"
  note be = scope_state_beside(1,2,4) [OF m(1) ok, of ?es 1] scope_state_beside(3,5) [OF m(1) ok]
  define fr where fr: "fr = \<lparr>hidden = {globals_key}, linked = ?N, rest_cells = cells ?s |` (- C), rest_tabs = tabs ?s |` (- T),
    global_table = symbol_table ?s\<rparr>"
  have s1: "tabs ?s1 ?t = Some \<lparr>vt_entries = ?es, vt_free = 1\<rparr>" "symbol_table ?s1 = symbol_table ?s" "unassigned ?s1 = unassigned ?s"
    by (simp_all add: scope_state_def)
  have "scope_table fr \<lparr>vt_entries = ?es, vt_free = 1\<rparr>"
    using q(2) by (auto simp: scope_table_def entry_of_def fr globals_key)
  moreover have "names ?s1 ?t |` (- hidden fr) = ?N"
    using s1(1) q(2) by (auto simp: names_def entry_of_def fr restrict_map_def globals_key fun_eq_iff)
  moreover have "all_used fr ?s1 ?t C T"
    using rest_kept_step [OF rest_kept_start [OF ok m(1)] ok be(3)] by (simp add: all_used_def fr)
  ultimately have v: "view fr (?s1\<lparr>active := Some ?t\<rparr>) ?t ?N X C T"
    using be(1,2,4) s1(1,2) m(2) unfolding view_def scoped_def all_used_def by (auto simp: fr)
  have E: "values_of ?N X = [StrKey k \<mapsto> x]" "beyond ?N X = X |` (- {c})"
    using m(2) by (auto simp: values_of_def beyond_def fun_eq_iff)
  show ?thesis
  proof (rule call_scope [OF enter_by_reference [OF f vp q] v s1(3,2)])
    show "?t \<noteq> symbol_table ?s1"
      using be(5) s1(2) by simp
    show "function_names body ret \<inter> hidden fr = {}"
      using h by (simp add: fr)
    show "eval_function body ret (values_of ?N X) = Some (z, E')"
      using e E(1) by simp
    fix N' X' assume N': "values_of N' X' = E'" "beyond N' X' = beyond ?N X" "linked fr \<subseteq>\<^sub>m N'" "inj_on N' (dom N')" "ran N' \<subseteq> dom X'"
    have k: "N' (StrKey k) = Some c"
      using N'(3) by (simp add: fr map_le_def)
    then obtain y where y: "X' c = Some y"
      using N'(5) by (auto simp: ran_def)
    then have Ek: "E' (StrKey k) = Some y"
      using N'(1) k by (auto simp: values_of_def)
    have "N' k' \<noteq> Some c" if "k' \<noteq> StrKey k" for k'
      using inj_onD [OF N'(4), of k' "StrKey k"] k that by auto
    then have c: "c \<notin> ran (N' |` (- {StrKey k}))"
      by (auto simp: ran_def restrict_map_def split: if_splits)
    have lk: "- dom (linked fr) = - {StrKey k}"
      by (simp add: fr)
    have "outer fr N' X' d = (X(c \<mapsto> y)) d" for d
    proof (cases "d = c")
      case True
      then show ?thesis
        using c y unfolding outer_def lk by simp
    next
      case False
      then have "d \<in> ran (N' |` (- {StrKey k})) \<longleftrightarrow> d \<in> ran N'"
        using ran_except [of N' "StrKey k" d] k by simp
      then have "outer fr N' X' d = beyond N' X' d"
        unfolding outer_def beyond_def lk by (simp add: restrict_map_def)
      then show ?thesis
        using N'(2) E(2) False by simp
    qed
    then show "outer fr N' X' = X(c \<mapsto> the (E' (StrKey k)))"
      using Ek by auto
  qed (simp_all add: fr)
qed

end
