(* ===== verification/Var_Script.thy ===== *)
theory Var_Script
  imports Var_Function
begin

text \<open>
  Scripts: statements and calls of user functions in the order in which they run. The store follows the environment of
  trees through all of them, and everything that is not a variable of the scope stays as it is.
\<close>

datatype action = A_statement statement | A_call cstring cstring bool cstring "statement list" "rvalue option"

text \<open>\<open>A_call p v by_reference q body ret\<close>: the call of \<open>p\<close> with the variable \<open>v\<close>, whose result is not used.\<close>

fun run_action :: "nat \<Rightarrow> action \<Rightarrow> call_state \<Rightarrow> call_state option" where
  "run_action prec (A_statement st) cs = map_option (\<lambda>s. cs\<lparr>store := s\<rparr>) (run_statement prec st (store cs))"
| "run_action prec (A_call p v by_reference q body ret) cs = do {
     (vp, s1) \<leftarrow> variable_pointer (Lvalue v []) (store cs);
     (r, cs1) \<leftarrow> call_function prec p vp by_reference q body ret (cs\<lparr>store := s1\<rparr>);
     s2 \<leftarrow> pval_destructor r (store cs1);
     Some (cs1\<lparr>store := s2\<rparr>)
   }"

fun run_script :: "nat \<Rightarrow> action list \<Rightarrow> call_state \<Rightarrow> call_state option" where
  "run_script prec [] cs = Some cs"
| "run_script prec (a # as) cs = Option.bind (run_action prec a cs) (run_script prec as)"

fun exec_action :: "action \<Rightarrow> env \<Rightarrow> env option" where
  "exec_action (A_statement st) E = exec_statement st E"
| "exec_action (A_call p v by_reference q body ret) E = do {
     x \<leftarrow> E (arr_key (bytes_of v));
     (z, E') \<leftarrow> eval_function body ret
       (if by_reference then [arr_key (bytes_of q) \<mapsto> x] else [IntKey 0 \<mapsto> copied x, arr_key (bytes_of q) \<mapsto> copied x]);
     Some (if by_reference then E(arr_key (bytes_of v) \<mapsto> the (E' (arr_key (bytes_of q)))) else E)
   }"

fun exec_script :: "action list \<Rightarrow> env \<Rightarrow> env option" where
  "exec_script [] E = Some E"
| "exec_script (a # as) E = Option.bind (exec_action a E) (exec_script as)"

text \<open>
  The functions that are called are in the function table, which is no part of the variables; no name is hidden, and the
  parameter has a name that is no number and not \<^verbatim>\<open>GLOBALS\<close>.
\<close>

definition has_function :: "surroundings \<Rightarrow> tab \<Rightarrow> cstring \<Rightarrow> bool" where
  "has_function fr ft p \<longleftrightarrow> (\<exists>b fc ptr a st. rest_tabs fr ft = Some b \<and>
     entry_of b (arr_key (php3_str_tolower (bytes_of p))) = Some (fc, ptr) \<and> rest_cells fr fc = Some (V_USER_FUNCTION a st None))"

fun action_fits :: "surroundings \<Rightarrow> tab \<Rightarrow> action \<Rightarrow> bool" where
  "action_fits fr ft (A_statement st) = (statement_names st \<inter> hidden fr = {})"
| "action_fits fr ft (A_call p v by_reference q body ret) =
     (arr_key (bytes_of v) \<notin> hidden fr \<and> has_function fr ft p \<and> globals_key \<notin> function_names body ret \<and>
      (\<exists>k. arr_key (bytes_of q) = StrKey k) \<and> arr_key (bytes_of q) \<noteq> globals_key)"

definition script_state :: "surroundings \<Rightarrow> call_state \<Rightarrow> tab \<Rightarrow> env \<Rightarrow> (cell \<rightharpoonup> tree) \<Rightarrow> bool" where
  "script_state fr cs t E Z \<longleftrightarrow> env_of fr (store cs) t E Z \<and> fs_symbol_table (fstate cs) = Some t"

text \<open>What stays the same from one action to the next.\<close>

definition same_frame :: "call_state \<Rightarrow> call_state \<Rightarrow> bool" where
  "same_frame cs cs' \<longleftrightarrow> fstate cs' = fstate cs \<and> fstack cs' = fstack cs \<and> function_table cs' = function_table cs \<and>
     unassigned (store cs') = unassigned (store cs)"

text \<open>After a call the scope of the caller is as before, with the memory that the call left.\<close>

lemma scoped_after:
  assumes v: "view fr s t N X C T" and m: "mem s' Y C' T'" "dom Y = dom X" and r: "reserved s' r z D S C' T'"
    and k: "rest_kept (cells s |` (- C)) (tabs s |` (- T)) s' (C' \<union> D) (T' \<union> S)"
    and s': "store_ok s'" "active s' = Some t" "symbol_table s' = symbol_table s"
  shows "scoped fr s' t N Y C' T'" "carries fr s' t r z C' T'"
proof -
  have sc: "scoped fr s t N X C T" and au: "all_used fr s t C T"
    using v by (simp_all add: view_def)
  obtain b where b: "tabs s t = Some b" "t \<notin> T"
    using sc unfolding scoped_def by blast
  have k': "c \<notin> C' \<union> D \<Longrightarrow> cells s' c = (cells s |` (- C)) c" "u \<notin> T' \<union> S \<Longrightarrow> tabs s' u = (tabs s |` (- T)) u"
      "dom (cells s |` (- C)) \<inter> (C' \<union> D) = {}" "dom (tabs s |` (- T)) \<inter> (T' \<union> S) = {}"
      "C' \<union> D \<subseteq> {..<next_cell s'}" "T' \<union> S \<subseteq> {..<next_tab s'}" for c u
    using k unfolding rest_kept_def by auto
  have "t \<in> dom (tabs s |` (- T))"
    using b by (simp add: domIff)
  then have t: "t \<notin> T' \<union> S" "tabs s' t = tabs s t"
    using k'(4) k'(2) [of t] b(2) by auto
  show "scoped fr s' t N Y C' T'"
    using sc m s' t names_frame [OF t(2)] unfolding scoped_def by auto
  have R: "rest_cells fr c = (cells s |` (- C)) c" "u \<noteq> t \<Longrightarrow> rest_tabs fr u = (tabs s |` (- T)) u" "rest_tabs fr t = None" for c u
    using au unfolding all_used_def rest_kept_def by (cases "c \<in> C"; cases "u \<in> T"; force simp: restrict_map_def)+
  have "t < next_tab s'"
    using store_ok_tab [OF s'(1)] t(2) b(1) by simp
  have Rc: "rest_cells fr = cells s |` (- C)"
    using R(1) by (rule ext)
  have "u \<noteq> t \<and> u \<notin> T' \<union> S" if "u \<in> dom (rest_tabs fr)" for u
  proof -
    have "u \<noteq> t"
      using that R(3) by auto
    moreover from this have "u \<in> dom (tabs s |` (- T))"
      using that R(2) [of u] by (metis domIff)
    ultimately show ?thesis
      using k'(4) by blast
  qed
  then have "dom (rest_tabs fr) \<inter> insert t (T' \<union> S) = {}"
    by blast
  moreover have "tabs s' u = rest_tabs fr u" if "u \<notin> insert t (T' \<union> S)" for u
    using that k'(2) [of u] R(2) [of u] by simp
  moreover have "insert t (T' \<union> S) \<subseteq> {..<next_tab s'}"
    using k'(6) \<open>t < next_tab s'\<close> by simp
  ultimately have "all_used fr s' t (C' \<union> D) (T' \<union> S)"
    unfolding all_used_def rest_kept_def Rc using k'(1,3,5) by blast
  then show "carries fr s' t r z C' T'"
    unfolding carries_def using r t(1) by blast
qed

lemma rest_function:
  assumes "all_used fr s t C T" "has_function fr ft p"
  shows "\<exists>fc a st. tab_find ft (arr_key (php3_str_tolower (bytes_of p))) s = Some (Some fc) \<and> cells s fc = Some (V_USER_FUNCTION a st None)"
proof -
  obtain b fc ptr a st where f: "rest_tabs fr ft = Some b" "entry_of b (arr_key (php3_str_tolower (bytes_of p))) = Some (fc, ptr)"
      "rest_cells fr fc = Some (V_USER_FUNCTION a st None)"
    using assms(2) unfolding has_function_def by blast
  have "ft \<notin> insert t T" "fc \<notin> C"
    using assms(1) f(1,3) unfolding all_used_def rest_kept_def by blast+
  then have "tabs s ft = Some b" "cells s fc = Some (V_USER_FUNCTION a st None)"
    using assms(1) f(1,3) unfolding all_used_def rest_kept_def by auto
  with f(2) show ?thesis
    by (simp add: tab_find_def)
qed

lemma run_call:
  assumes ss: "script_state fr cs t E Z" and ft: "action_fits fr (function_table cs) (A_call p v by_reference q body ret)"
    and ex: "exec_action (A_call p v by_reference q body ret) E = Some E'"
  shows "\<exists>cs'. run_action prec (A_call p v by_reference q body ret) cs = Some cs' \<and> script_state fr cs' t E' Z \<and> same_frame cs cs'"
proof -
  let ?s = "store cs" and ?k = "arr_key (bytes_of v)"
  obtain N X C T where vw: "view fr ?s t N X C T" and E: "values_of N X = E" "beyond N X = Z"
    using ss unfolding script_state_def env_of_def by blast
  have sc: "mem ?s X C T" "store_ok ?s" "active ?s = Some t" "inj_on N (dom N)" "all_used fr ?s t C T"
    using vw by (auto simp: view_def scoped_def)
  obtain k where q: "arr_key (bytes_of q) = StrKey k" "StrKey k \<noteq> globals_key" and hv: "?k \<notin> hidden fr"
      and hf: "has_function fr (function_table cs) p" and hb: "globals_key \<notin> function_names body ret"
    using ft by auto
  obtain x z Ef where x: "E ?k = Some x" and ev: "eval_function body ret
      (if by_reference then [StrKey k \<mapsto> x] else [IntKey 0 \<mapsto> copied x, StrKey k \<mapsto> copied x]) = Some (z, Ef)"
      and E': "E' = (if by_reference then E(?k \<mapsto> the (Ef (StrKey k))) else E)"
    using ex q(1) by (auto split: bind_splits if_splits)
  obtain c where c: "N ?k = Some c" "X c = Some x"
    using x E(1) by (auto simp: values_of_def split: bind_splits)
  let ?vp = "\<lparr>vp_cell = Some c, vp_write = False, vp_offset = -1\<rparr>"
  have vp: "variable_pointer (Lvalue v []) ?s = Some (?vp, ?s)"
    using scoped_found [OF view_scoped [OF vw] c(1) hv] sc(3) by (simp add: get_regular_variable_pointer_def)
  obtain fc a st where f: "tab_find (function_table cs) (arr_key (php3_str_tolower (bytes_of p))) ?s = Some (Some fc)"
      "cells ?s fc = Some (V_USER_FUNCTION a st None)"
    using rest_function [OF sc(5) hf] by blast
  let ?Y = "if by_reference then X(c \<mapsto> the (Ef (StrKey k))) else X"
  have "returned (call_function prec p ?vp by_reference q body ret cs) cs C T ?Y z"
    using call_by_reference [OF f _ _ q sc(1) c(2) sc(2) hb] call_by_value [OF f _ _ _ q sc(1) c(2) sc(2) hb] ev
    by (cases by_reference) simp_all
  then obtain r cs1 C1 T1 D S where r: "call_function prec p ?vp by_reference q body ret cs = Some (r, cs1)" "fstate cs1 = fstate cs"
      "fstack cs1 = fstack cs" "active (store cs1) = fs_symbol_table (fstate cs)" "unassigned (store cs1) = unassigned ?s"
      "store_ok (store cs1)" "symbol_table (store cs1) = symbol_table ?s" "function_table cs1 = function_table cs"
      "mem (store cs1) ?Y C1 T1" "reserved (store cs1) r z D S C1 T1"
      "rest_kept (cells ?s |` (- C)) (tabs ?s |` (- T)) (store cs1) (C1 \<union> D) (T1 \<union> S)"
    unfolding returned_def by blast
  have dY: "dom ?Y = dom X"
    using c(2) by auto
  have "active (store cs1) = Some t"
    using r(4) ss by (simp add: script_state_def)
  note af = scoped_after [OF vw r(9) dY r(10,11,6) this r(7)]
  obtain s2 where s2: "pval_destructor r (store cs1) = Some s2" "view fr s2 t N ?Y C1 T1" "unassigned s2 = unassigned (store cs1)"
    using view_drop [OF af] by blast
  have "values_of N ?Y = E'" "beyond N ?Y = Z"
    using E E' values_of_update [OF sc(4) c(1)] by simp_all
  then have "env_of fr s2 t E' Z"
    by (rule env_ofI [OF s2(2)])
  moreover have "run_action prec (A_call p v by_reference q body ret) cs = Some (cs1\<lparr>store := s2\<rparr>)"
    using vp r(1) s2(1) by simp
  ultimately show ?thesis
    using r(2,3,5,8) s2(3) ss by (intro exI [of _ "cs1\<lparr>store := s2\<rparr>"]) (simp add: script_state_def same_frame_def)
qed

lemma run_action_env:
  assumes "script_state fr cs t E Z" "action_fits fr (function_table cs) a" "exec_action a E = Some E'"
  shows "\<exists>cs'. run_action prec a cs = Some cs' \<and> script_state fr cs' t E' Z \<and> same_frame cs cs'"
proof (cases a)
  case (A_statement st)
  have "env_of fr (store cs) t E Z" "program_names [st] \<inter> hidden fr = {}" "exec_program [st] E = Some E'"
    using assms A_statement by (simp_all add: script_state_def)
  then obtain s' where "run_program prec [st] (store cs) = Some s'" "env_of fr s' t E' Z" "unassigned s' = unassigned (store cs)"
    using run_program_env by blast
  then show ?thesis
    using assms(1) A_statement by (auto simp: script_state_def same_frame_def split: bind_splits)
next
  case (A_call p v by_reference q body ret)
  then show ?thesis
    using run_call assms by blast
qed

lemma run_script_env:
  "script_state fr cs t E Z \<Longrightarrow> list_all (action_fits fr (function_table cs)) as \<Longrightarrow> exec_script as E = Some E' \<Longrightarrow>
    \<exists>cs'. run_script prec as cs = Some cs' \<and> script_state fr cs' t E' Z \<and> same_frame cs cs'"
proof (induction as arbitrary: cs E)
  case (Cons a as)
  obtain E1 where E1: "exec_action a E = Some E1" "exec_script as E1 = Some E'"
    using Cons.prems(3) by (auto split: bind_splits)
  obtain cs1 where cs1: "run_action prec a cs = Some cs1" "script_state fr cs1 t E1 Z" "same_frame cs cs1"
    using run_action_env [OF Cons.prems(1) _ E1(1)] Cons.prems(2) by auto
  moreover have "function_table cs1 = function_table cs"
    using cs1(3) by (simp add: same_frame_def)
  ultimately obtain cs' where "run_script prec as cs1 = Some cs'" "script_state fr cs' t E' Z" "same_frame cs1 cs'"
    using Cons.IH [OF cs1(2) _ E1(2)] Cons.prems(2) by auto
  with cs1 show ?case
    by (auto simp: same_frame_def)
qed (simp add: same_frame_def)

end
