(* ===== verification/Var_Properties.thy ===== *)
theory Var_Properties
  imports Var_Script
begin

text \<open>
  The properties of variables: what a program, a call and a whole script do to the environment, the copy of a value and
  its end, and the behaviour of the two lookups that surprise.
\<close>

text \<open>
  The examples start with the scope of the global variables, which is empty but for \<^verbatim>\<open>GLOBALS\<close>, and a function \<^verbatim>\<open>f\<close>.
\<close>

definition start_store :: vstate where
  "start_store = \<lparr>cells = [0 \<mapsto> V_USER_FUNCTION 0 None None, 1 \<mapsto> V_ARRAY 0],
     tabs = [0 \<mapsto> \<lparr>vt_entries = [(globals_key, 1, True)], vt_free = 0\<rparr>, 1 \<mapsto> \<lparr>vt_entries = [(arr_key ''f'', 0, False)], vt_free = 0\<rparr>],
     next_cell = 2, next_tab = 2, symbol_table = 0, active = Some 0, unassigned = [], array_ptr = None, array_ptr_write = False\<rparr>"

definition start_frame :: surroundings where
  "start_frame = \<lparr>hidden = {globals_key}, linked = Map.empty, rest_cells = cells start_store,
     rest_tabs = (tabs start_store)(0 := None), global_table = 0\<rparr>"

definition start_state :: call_state where
  "start_state = \<lparr>store = start_store, function_table = 1, globals = 1,
     fstate = \<lparr>fs_symbol_table = Some 0, fs_function_symbol_table = None, fs_hosting = None, fs_name = None, fs_kind = No_function,
       fs_arg_types = None, fs_object = None, fs_returned = False\<rparr>,
     fstack = [], param_index = 0, return_value = v_reset, class_table = None\<rparr>"

lemma name_keys [simp]:
  "arr_key ''f'' = StrKey [CHR ''f'', NUL]" "arr_key ''a'' = StrKey [CHR ''a'', NUL]" "arr_key ''b'' = StrKey [CHR ''b'', NUL]"
  "arr_key ''q'' = StrKey [CHR ''q'', NUL]" "arr_key ''GLOBALS'' = StrKey (''GLOBALS'' @ [NUL])"
  by (code_simp, simp?)+

lemma start_view: "view start_frame start_store 0 Map.empty Map.empty {} {}"
proof -
  have "names start_store 0 |` (- {globals_key}) = Map.empty"
    by (auto simp: names_def start_store_def entry_of_def restrict_map_def fun_eq_iff)
  moreover have "scope_table start_frame \<lparr>vt_entries = [(globals_key, 1, True)], vt_free = 0\<rparr>"
    by (simp add: scope_table_def start_frame_def entry_of_def)
  moreover have "store_ok start_store"
    by (simp add: store_ok_def start_store_def)
  ultimately have "scoped start_frame start_store 0 Map.empty Map.empty {} {}"
    unfolding scoped_def by (simp add: start_frame_def) (simp add: start_store_def)
  moreover have "all_used start_frame start_store 0 {} {}"
    by (auto simp: all_used_def rest_kept_def start_frame_def start_store_def)
  ultimately show ?thesis
    by (simp add: view_def)
qed

lemma start_env: "env_of start_frame start_store 0 Map.empty Map.empty"
  by (rule env_ofI [OF start_view]) (auto simp: values_of_def beyond_def)

lemma start_script: "script_state start_frame start_state 0 Map.empty Map.empty"
  using start_env by (simp add: script_state_def start_state_def)

lemma start_hidden [simp]: "hidden start_frame = {globals_key}"
  by (simp add: start_frame_def)

lemma start_has_f [simp]: "has_function start_frame (function_table start_state) (Block ''f'')"
proof -
  have "arr_key (php3_str_tolower ''f'') = arr_key ''f''"
    by code_simp
  then show ?thesis
    by (simp add: has_function_def start_frame_def start_state_def start_store_def entry_of_def ex_bool_eq)
qed

text \<open>The value of an expression is free of the variables.\<close>

lemma run_rvalue_env:
  assumes "env_of fr s t E Z" "rvalue_names e \<inter> hidden fr = {}" "eval_rvalue e E = Some (z, E')"
  shows "\<exists>v s1 s2. run_rvalue e s = Some (v, s1) \<and> reads s1 v z \<and> pval_destructor v s1 = Some s2 \<and> env_of fr s2 t E' Z"
proof -
  obtain N X C T where vw: "view fr s t N X C T" and E: "values_of N X = E" "beyond N X = Z"
    using assms(1) unfolding env_of_def by blast
  obtain v s1 where v: "run_rvalue e s = Some (v, s1)" "looked_up fr s t N X E' z v s1"
    using rvalue_view [OF vw assms(2)] assms(3) E(1) by blast
  then obtain X' C' T' where l: "scoped fr s1 t N X' C' T'" "carries fr s1 t v z C' T'" "values_of N X' = E'" "beyond N X' = Z"
    using E(2) unfolding looked_up_def by blast
  have "reads s1 v z"
    using l(2) holds_reads(1) unfolding carries_def reserved_def by blast
  moreover obtain s2 where "pval_destructor v s1 = Some s2" "view fr s2 t N X' C' T'"
    using view_drop [OF l(1,2)] by blast
  ultimately show ?thesis
    using v(1) env_ofI l(3,4) by blast
qed

subsection \<open>Programs and scripts\<close>

text \<open>C1: A script of assignments, \<^verbatim>\<open>unset\<close> and calls of user functions never stops in the middle or touches a value that
  was freed: when the environment semantics gives it a meaning, the parser's actions run it to its end, keep the store in
  a state that represents the environment the semantics names, leak no cell and no table, and return to the function
  that they started in.\<close>
theorem script_invariant:
  assumes "script_state fr cs t E Z" "list_all (action_fits fr (function_table cs)) as" "exec_script as E = Some E'"
  shows "\<exists>cs'. run_script prec as cs = Some cs' \<and> script_state fr cs' t E' Z \<and> same_frame cs cs'"
  by (rule run_script_env [OF assms])

text \<open>\<^verbatim>\<open>$a[1] = 5; f($a); f(&$a); $b = $a[1];\<close> with \<^verbatim>\<open>function f($q) { $q[1] = 7; return $q; }\<close>\<close>

definition example_script :: "action list" where
  "example_script =
    [A_statement (S_assign (Lvalue (Block ''a'') [V_LONG 1]) (R_value (V_LONG 5))),
     A_call (Block ''f'') (Block ''a'') False (Block ''q'') [S_assign (Lvalue (Block ''q'') [V_LONG 1]) (R_value (V_LONG 7))]
       (Some (R_read (Lvalue (Block ''q'') []))),
     A_statement (S_assign (Lvalue (Block ''b'') []) (R_read (Lvalue (Block ''a'') [V_LONG 1]))),
     A_call (Block ''f'') (Block ''a'') True (Block ''q'') [S_assign (Lvalue (Block ''q'') [V_LONG 1]) (R_value (V_LONG 7))] None]"

lemma example_exec:
  "exec_script example_script Map.empty =
     Some [StrKey [CHR ''a'', NUL] \<mapsto> Node Array_shape [(IntKey 1, Leaf (V_LONG 7))] 2, StrKey [CHR ''b'', NUL] \<mapsto> Leaf (V_LONG 5)]"
  by (simp add: example_script_def reach_def lookup_def probe_def tree_reach_def eval_function_def eval_result_def un_null_def next_free_after_def fun_eq_iff)

theorem script_invariant_witness:
  "\<exists>cs'. run_script 14 example_script start_state = Some cs' \<and>
     script_state start_frame cs' 0 
       [StrKey [CHR ''a'', NUL] \<mapsto> Node Array_shape [(IntKey 1, Leaf (V_LONG 7))] 2, StrKey [CHR ''b'', NUL] \<mapsto> Leaf (V_LONG 5)] Map.empty \<and>
     same_frame start_state cs'"
  by (rule script_invariant [OF start_script _ example_exec])
    (simp add: example_script_def function_names_def)

text \<open>C12: Reading a variable or an element, and \<^verbatim>\<open>isset\<close>, give a value that reads as the tree the environment semantics
  names, in a store that represents the environment it names; the value shares nothing with the variables, so that
  freeing it leaves them all.\<close>
theorem read_refines:
  assumes "env_of fr s t E Z" "rvalue_names e \<inter> hidden fr = {}" "eval_rvalue e E = Some (z, E')"
  shows "\<exists>v s1 s2. run_rvalue e s = Some (v, s1) \<and> reads s1 v z \<and> pval_destructor v s1 = Some s2 \<and> env_of fr s2 t E' Z"
  by (rule run_rvalue_env [OF assms])

text \<open>The example for lookups: \<^verbatim>\<open>$a\<close> is an array with one element, \<open>5\<close>, at the index 0.\<close>

definition array_store :: vstate where
  "array_store = \<lparr>cells = [0 \<mapsto> V_USER_FUNCTION 0 None None, 1 \<mapsto> V_ARRAY 0, 2 \<mapsto> V_ARRAY 2, 3 \<mapsto> V_LONG 5],
     tabs = [0 \<mapsto> \<lparr>vt_entries = [(globals_key, 1, True), (arr_key ''a'', 2, False)], vt_free = 0\<rparr>,
       1 \<mapsto> \<lparr>vt_entries = [(arr_key ''f'', 0, False)], vt_free = 0\<rparr>, 2 \<mapsto> \<lparr>vt_entries = [(IntKey 0, 3, False)], vt_free = 1\<rparr>],
     next_cell = 4, next_tab = 3, symbol_table = 0, active = Some 0, unassigned = [], array_ptr = None, array_ptr_write = False\<rparr>"

abbreviation array_tree :: tree where
  "array_tree \<equiv> Node Array_shape [(IntKey 0, Leaf (V_LONG 5))] 1"

lemma array_holds: "holds array_store (V_ARRAY 2) array_tree {3} {2}"
  and array_ok: "store_ok array_store"
proof -
  have e: "holds_entries array_store [(IntKey 0, 3, False)] [(IntKey 0, Leaf (V_LONG 5))] (insert 3 ({} \<union> {})) ({} \<union> {})"
    by (rule holds_cons [of _ _ "V_LONG 5"]) (simp_all add: holds_leaf holds_nil, simp add: array_store_def)
  have t: "tabs array_store 2 = Some \<lparr>vt_entries = [(IntKey 0, 3, False)], vt_free = 1\<rparr>" "symbol_table array_store = 0"
    by (simp_all add: array_store_def)
  show "holds array_store (V_ARRAY 2) array_tree {3} {2}"
    using holds_node [OF t(1), of "[(IntKey 0, Leaf (V_LONG 5))]" "{3}" "{}" Array_shape] e t(2) by simp
  show "store_ok array_store"
    by (simp add: store_ok_def array_store_def)
qed

lemma array_mem: "mem array_store [2 \<mapsto> array_tree] {2, 3} {2}"
  using mem_join [of array_store Map.empty 2 "{}" "{}" "V_ARRAY 2" array_tree "{3}" "{2}"] array_holds
  by (simp add: array_store_def)

lemma array_env: "env_of start_frame array_store 0 [StrKey [CHR ''a'', NUL] \<mapsto> array_tree] Map.empty"
proof -
  let ?N = "[StrKey [CHR ''a'', NUL] \<mapsto> (2::cell)]"
  have "names array_store 0 |` (- {globals_key}) = ?N"
    by (auto simp: names_def array_store_def entry_of_def restrict_map_def fun_eq_iff)
  moreover have "scope_table start_frame \<lparr>vt_entries = [(globals_key, 1, True), (arr_key ''a'', 2, False)], vt_free = 0\<rparr>"
    by (simp add: scope_table_def start_frame_def entry_of_def)
  ultimately have "scoped start_frame array_store 0 ?N [2 \<mapsto> array_tree] {2, 3} {2}"
    using array_mem array_ok unfolding scoped_def by (simp add: start_frame_def) (simp add: array_store_def)
  moreover have "all_used start_frame array_store 0 {2, 3} {2}"
    by (auto simp: all_used_def rest_kept_def start_frame_def start_store_def array_store_def)
  ultimately have "view start_frame array_store 0 ?N [2 \<mapsto> array_tree] {2, 3} {2}"
    by (simp add: view_def)
  then show ?thesis
    by (rule env_ofI) (auto simp: values_of_def beyond_def restrict_map_def fun_eq_iff)
qed

theorem read_refines_witness:
  "\<exists>v s1 s2. run_rvalue (R_read (Lvalue (Block ''a'') [V_LONG 0])) array_store = Some (v, s1) \<and> reads s1 v (Leaf (V_LONG 5)) \<and>
     pval_destructor v s1 = Some s2 \<and> env_of start_frame s2 0 [StrKey [CHR ''a'', NUL] \<mapsto> array_tree] Map.empty"
  by (rule read_refines [OF array_env]) (simp_all add: reach_def lookup_def probe_def tree_reach_def un_null_def fun_eq_iff)

text \<open>C13: \<^verbatim>\<open>isset\<close> of an element that is missing answers 0 and takes the element away again that the lookup made, but it
  leaves a trace: the next free index of the array is past the index that was asked for.\<close>
theorem isset_trace:
  assumes en: "env_of fr s t E Z" and nh: "name_key l \<notin> hidden fr" and x: "E (name_key l) = Some (Node Array_shape es n)"
    and k: "path_of l = Some [k]" "map_of es k = None"
  shows "\<exists>s'. run_rvalue (R_isset l) s = Some (V_LONG 0, s') \<and>
    env_of fr s' t (E(name_key l \<mapsto> Node Array_shape es (bump_next k n))) Z"
proof -
  let ?x = "Node Array_shape (es @ [(k, Leaf V_NULL)]) (bump_next k n)"
  have at: "tree_open k (Node Array_shape es n) = Some ?x" "tree_at [k] ?x = Some (Leaf V_NULL)"
    using k(2) by (simp_all add: map_add_def)
  obtain y where "tree_reach [k] (Node Array_shape es n) = Some y"
    unfolding tree_reach_def using at(1,2) tree_at_put [OF at(2)] by (simp del: tree_open.simps tree_at.simps tree_put.simps)
  then have y: "reach (name_key l) [k] E = Some y"
    using x by (simp add: reach_def)
  have "lookup (name_key l) [k] E = None" "probe (name_key l) [k] E = E(name_key l \<mapsto> Node Array_shape es (bump_next k n))"
    unfolding lookup_def probe_def x using k(2) by simp_all
  then have ev: "eval_rvalue (R_isset l) E = Some (Leaf (V_LONG 0), E(name_key l \<mapsto> Node Array_shape es (bump_next k n)))"
    using y k(1) by simp
  have "rvalue_names (R_isset l) \<inter> hidden fr = {}"
    using nh by simp
  then obtain v s1 s2 where v: "run_rvalue (R_isset l) s = Some (v, s1)" "reads s1 v (Leaf (V_LONG 0))" "pval_destructor v s1 = Some s2"
      "env_of fr s2 t (E(name_key l \<mapsto> Node Array_shape es (bump_next k n))) Z"
    using run_rvalue_env [OF en _ ev] by blast
  then have "v = V_LONG 0"
    by (auto elim: reads_leafE)
  then show ?thesis
    using v by simp
qed

theorem isset_trace_witness:
  "\<exists>s'. run_rvalue (R_isset (Lvalue (Block ''a'') [V_LONG 9])) array_store = Some (V_LONG 0, s') \<and>
     env_of start_frame s' 0 ([StrKey [CHR ''a'', NUL] \<mapsto> array_tree](StrKey [CHR ''a'', NUL] \<mapsto>
       Node Array_shape [(IntKey 0, Leaf (V_LONG 5))] (bump_next (IntKey 9) 1))) Map.empty"
  using isset_trace [OF array_env, of "Lvalue (Block ''a'') [V_LONG 9]" "[(IntKey 0, Leaf (V_LONG 5))]" 1 "IntKey 9"]
  by (simp del: run_rvalue.simps bump_next.simps)

subsection \<open>Calls\<close>

text \<open>C10: Parameters: by value the function works on copies of the argument and the variables of the caller stay as they
  are; by reference it works on the variable, which then has the value that the function gave the parameter. In both
  cases the result reads as what \<^verbatim>\<open>return\<close> evaluated to, the caller's scope is active again, and no cell or table of
  the call is left.\<close>
theorem parameter_passing:
  assumes "tab_find (function_table cs) (arr_key (php3_str_tolower (bytes_of p))) (store cs) = Some (Some fc)"
    "cells (store cs) fc = Some (V_USER_FUNCTION a st None)"
    and "vp_cell vp = Some c" "\<not> vp_write vp" "vp_offset vp = -1"
    and "arr_key (bytes_of q) = StrKey k" "StrKey k \<noteq> globals_key"
    and "mem (store cs) X C T" "X c = Some x" and "store_ok (store cs)"
    and "globals_key \<notin> function_names body ret"
    and "eval_function body ret (if by_reference then [StrKey k \<mapsto> x] else [IntKey 0 \<mapsto> copied x, StrKey k \<mapsto> copied x]) = Some (z, E')"
  shows "returned (call_function prec p vp by_reference q body ret cs) cs C T
    (if by_reference then X(c \<mapsto> the (E' (StrKey k))) else X) z"
  using call_by_value [OF assms(1-11)] call_by_reference [OF assms(1-4,6-11)] assms(12) by (cases by_reference) simp_all

definition array_state :: call_state where
  "array_state = start_state\<lparr>store := array_store\<rparr>"

theorem parameter_passing_witness:
  "returned (call_function 14 (Block ''f'') \<lparr>vp_cell = Some 2, vp_write = False, vp_offset = -1\<rparr> True (Block ''q'')
      [S_assign (Lvalue (Block ''q'') [V_LONG 0]) (R_value (V_LONG 7))] None array_state) array_state {2, 3} {2}
    [2 \<mapsto> Node Array_shape [(IntKey 0, Leaf (V_LONG 7))] 1] (Leaf v_reset)"
proof -
  have f: "arr_key (php3_str_tolower ''f'') = StrKey [CHR ''f'', NUL]"
    by code_simp
  have t: "tab_find (function_table array_state) (arr_key (php3_str_tolower (bytes_of (Block ''f'')))) (store array_state) = Some (Some 0)"
    "cells (store array_state) 0 = Some (V_USER_FUNCTION 0 None None)"
    by (simp_all add: f array_state_def start_state_def tab_find_def entry_of_def) (simp_all add: array_store_def ex_bool_eq)
  have e: "eval_function [S_assign (Lvalue (Block ''q'') [V_LONG 0]) (R_value (V_LONG 7))] None
      (if True then [StrKey [CHR ''q'', NUL] \<mapsto> array_tree] else [IntKey 0 \<mapsto> copied array_tree, StrKey [CHR ''q'', NUL] \<mapsto> copied array_tree]) =
    Some (Leaf v_reset, [StrKey [CHR ''q'', NUL] \<mapsto> Node Array_shape [(IntKey 0, Leaf (V_LONG 7))] 1])"
    by (simp add: eval_function_def eval_result_def reach_def tree_reach_def fun_eq_iff)
  have m: "mem (store array_state) [2 \<mapsto> array_tree] {2, 3} {2}" "store_ok (store array_state)"
    using array_mem array_ok by (simp_all add: array_state_def)
  show ?thesis
    using parameter_passing [OF t _ _ _ _ _ m(1) _ m(2) _ e, of "\<lparr>vp_cell = Some 2, vp_write = False, vp_offset = -1\<rparr>" 2 "Block ''q''"]
    by (simp add: function_names_def)
qed

subsection \<open>Copies and what is freed too early\<close>

text \<open>C11: The copy constructor always succeeds on a value of finite depth. The copy reads as the same tree (with empty strings
  made equal and the next free indices those of the keys), the value and every other datum stay, and destroying
  the copy frees all that was allocated for it: the memory is as before.\<close>
theorem copy_then_destroy:
  assumes r: "reads s v x" and ok: "store_ok s"
  shows "\<exists>v' s1 s2. pval_copy_constructor v s = Some (v', SUCCESS, s1) \<and> extends s s1 \<and> reads s1 v x \<and> reads s1 v' (copied x) \<and>
    pval_destructor v' s1 = Some s2 \<and> cells s2 = cells s \<and> tabs s2 = tabs s"
proof -
  obtain v' s1 where c: "pval_copy_constructor v s = Some (v', SUCCESS, s1)" "fresh_copy s v' (copied x) s1"
    using copy_fresh [OF r ok] by blast
  let ?C = "{next_cell s..<next_cell s1}" and ?T = "{next_tab s..<next_tab s1}"
  have f: "extends s s1" "store_ok s1" "holds s1 v' (copied x) ?C ?T"
    using c(2) by (simp_all add: fresh_copy_def)
  have "cells (forget ?C ?T s1) d = cells s d" "tabs (forget ?C ?T s1) u = tabs s u" for d u
    using f(1,2) ok unfolding extends_def store_ok_def by (auto simp: not_less)
  then show ?thesis
    using c(1) f extends_reads(1) [OF ok f(1) r] holds_reads(1) [OF f(3)] destructor_owned [OF holds_owns(1) [OF f(3)]]
    by (auto simp: fun_eq_iff)
qed

theorem copy_then_destroy_witness:
  "\<exists>v' s1 s2. pval_copy_constructor (V_ARRAY 2) array_store = Some (v', SUCCESS, s1) \<and> extends array_store s1 \<and>
    reads s1 (V_ARRAY 2) array_tree \<and> reads s1 v' (copied array_tree) \<and>
    pval_destructor v' s1 = Some s2 \<and> cells s2 = cells array_store \<and> tabs s2 = tabs array_store"
  by (rule copy_then_destroy [OF holds_reads(1) [OF array_holds] array_ok])

text \<open>C14: The pointer to the left side of an assignment is made before the right side is evaluated, and nothing keeps what it
  points to: when the right side assigns a scalar to the variable whose element is assigned, as in
  \<^verbatim>\<open>$a[0] = ($a = 5)\<close>, that assignment succeeds and frees the array, and the outer one writes into a freed
  bucket.\<close>
theorem use_after_free:
  assumes c: "cells s c = Some v" "holds s v x D S" "c \<notin> D" and d: "d \<in> D" and w: "is_leaf w"
  shows "\<exists>s1. assign_to_variable prec \<lparr>vp_cell = Some c, vp_write = False, vp_offset = -1\<rparr> w None s = Some (normal_leaf w, SUCCESS, s1) \<and>
    assign_to_variable prec \<lparr>vp_cell = Some d, vp_write = False, vp_offset = -1\<rparr> (normal_leaf w) None s1 = None"
proof -
  let ?s1 = "(forget D S s)\<lparr>cells := (cells (forget D S s))(c := Some w)\<rparr>"
  have "assign_to_variable prec \<lparr>vp_cell = Some c, vp_write = False, vp_offset = -1\<rparr> w None s = Some (normal_leaf w, SUCCESS, ?s1)"
    using c destructor_owned [OF holds_owns(1) [OF c(2)]] w
    by (simp add: assign_to_variable_def clean_if_def set_cell_def pval_copy_constructor_def copy_leaf)
  moreover have "cells ?s1 d = None"
    using d c(3) by auto
  ultimately show ?thesis
    by (auto simp: assign_to_variable_def clean_if_def)
qed

theorem use_after_free_witness:
  "\<exists>s1. assign_to_variable 14 \<lparr>vp_cell = Some 2, vp_write = False, vp_offset = -1\<rparr> (V_LONG 5) None array_store =
      Some (normal_leaf (V_LONG 5), SUCCESS, s1) \<and>
    assign_to_variable 14 \<lparr>vp_cell = Some 3, vp_write = False, vp_offset = -1\<rparr> (normal_leaf (V_LONG 5)) None s1 = None"
  by (rule use_after_free [OF _ array_holds]) (simp_all add: array_store_def)

end
