(* ===== verification/Cal_Model.thy ===== *)
theory Cal_Model
  imports Php_Arith
begin

text \<open>
  The calendar extension, \<^verbatim>\<open>dl/calendar\<close>: serial day numbers and the Gregorian, Julian, French republican and Jewish
  calendars. An \<^verbatim>\<open>int\<close> and a \<^verbatim>\<open>long\<close> are integers in the range of 32 bits; \<open>i32\<close> wraps the result of an operation that
  could leave it. A date is \<open>(year, month, day)\<close>, and \<open>(0, 0, 0)\<close> for a number without one. The arguments of the
  functions of the language are those after \<^verbatim>\<open>convert_to_long\<close>.
\<close>

definition i32 :: "int \<Rightarrow> int" where
  "i32 n = sint (word_of_int n :: ulong)"

lemma i32_id: "- (2 ^ 31) \<le> n \<Longrightarrow> n < 2 ^ 31 \<Longrightarrow> i32 n = n"
  unfolding i32_def by (rule sint_of_int_range) (simp_all add: long_bounds)

type_synonym date = "int \<times> int \<times> int"

subsection \<open>\<^verbatim>\<open>gregor.c\<close>\<close>

abbreviation DAYS_PER_5_MONTHS :: int where "DAYS_PER_5_MONTHS \<equiv> 153"
abbreviation DAYS_PER_4_YEARS :: int where "DAYS_PER_4_YEARS \<equiv> 1461"
abbreviation DAYS_PER_400_YEARS :: int where "DAYS_PER_400_YEARS \<equiv> 146097"
abbreviation GREGOR_SDN_OFFSET :: int where "GREGOR_SDN_OFFSET \<equiv> 32045"
abbreviation JULIAN_SDN_OFFSET :: int where "JULIAN_SDN_OFFSET \<equiv> 32083"

text \<open>The end of both conversions: from the day of the year that starts with March to month and day.\<close>

definition month_and_day :: "int \<Rightarrow> int \<Rightarrow> date" where
  "month_and_day year dayOfYear =
     (let temp = dayOfYear * 5 - 3;
          month = c_div temp DAYS_PER_5_MONTHS;
          day = c_div (c_mod temp DAYS_PER_5_MONTHS) 5 + 1;
          (year, month) = (if month < 10 then (year, month + 3) else (year + 1, month - 9));
          year = year - 4800;
          year = (if year \<le> 0 then year - 1 else year)
      in (year, month, day))"

definition SdnToGregorian :: "int \<Rightarrow> date" where
  "SdnToGregorian sdn =
     (if sdn \<le> 0 then (0, 0, 0)
      else
        let temp = i32 ((sdn + GREGOR_SDN_OFFSET) * 4 - 1);
            century = c_div temp DAYS_PER_400_YEARS;
            temp = c_div (c_mod temp DAYS_PER_400_YEARS) 4 * 4 + 3;
            year = century * 100 + c_div temp DAYS_PER_4_YEARS;
            dayOfYear = c_div (c_mod temp DAYS_PER_4_YEARS) 4 + 1
        in month_and_day year dayOfYear)"

text \<open>The year and month counted from March, 4801 before Christ.\<close>

definition march_year :: "int \<Rightarrow> int \<Rightarrow> int \<times> int" where
  "march_year inputYear inputMonth =
     (let year = (if inputYear < 0 then inputYear + 4801 else i32 (inputYear + 4800))
      in if inputMonth > 2 then (year, inputMonth - 3) else (i32 (year - 1), inputMonth + 9))"

definition GregorianToSdn :: "int \<Rightarrow> int \<Rightarrow> int \<Rightarrow> int" where
  "GregorianToSdn inputYear inputMonth inputDay =
     (if inputYear = 0 \<or> inputYear < - 4714 \<or> inputMonth \<le> 0 \<or> inputMonth > 12 \<or> inputDay \<le> 0 \<or> inputDay > 31 then 0
      else if inputYear = - 4714 \<and> (inputMonth < 11 \<or> inputMonth = 11 \<and> inputDay < 25) then 0
      else
        let (year, month) = march_year inputYear inputMonth
        in i32 (c_div (i32 (c_div year 100 * DAYS_PER_400_YEARS)) 4 + c_div (c_mod year 100 * DAYS_PER_4_YEARS) 4
             + c_div (month * DAYS_PER_5_MONTHS + 2) 5 + inputDay - GREGOR_SDN_OFFSET))"

definition MonthNameShort :: "string list" where
  "MonthNameShort = ['''', ''Jan'', ''Feb'', ''Mar'', ''Apr'', ''May'', ''Jun'', ''Jul'', ''Aug'', ''Sep'', ''Oct'', ''Nov'', ''Dec'']"

definition MonthNameLong :: "string list" where
  "MonthNameLong = ['''', ''January'', ''February'', ''March'', ''April'', ''May'', ''June'', ''July'', ''August'', ''September'',
     ''October'', ''November'', ''December'']"

subsection \<open>\<^verbatim>\<open>julian.c\<close>\<close>

definition SdnToJulian :: "int \<Rightarrow> date" where
  "SdnToJulian sdn =
     (if sdn \<le> 0 then (0, 0, 0)
      else
        let temp = i32 ((sdn + JULIAN_SDN_OFFSET) * 4 - 1);
            year = c_div temp DAYS_PER_4_YEARS;
            dayOfYear = c_div (c_mod temp DAYS_PER_4_YEARS) 4 + 1
        in month_and_day year dayOfYear)"

definition JulianToSdn :: "int \<Rightarrow> int \<Rightarrow> int \<Rightarrow> int" where
  "JulianToSdn inputYear inputMonth inputDay =
     (if inputYear = 0 \<or> inputYear < - 4713 \<or> inputMonth \<le> 0 \<or> inputMonth > 12 \<or> inputDay \<le> 0 \<or> inputDay > 31 then 0
      else if inputYear = - 4713 \<and> inputMonth = 1 \<and> inputDay = 1 then 0
      else
        let (year, month) = march_year inputYear inputMonth
        in i32 (c_div (i32 (year * DAYS_PER_4_YEARS)) 4 + c_div (month * DAYS_PER_5_MONTHS + 2) 5 + inputDay - JULIAN_SDN_OFFSET))"

subsection \<open>\<^verbatim>\<open>french.c\<close> and \<^verbatim>\<open>dow.c\<close>\<close>

abbreviation FRENCH_SDN_OFFSET :: int where "FRENCH_SDN_OFFSET \<equiv> 2375474"
abbreviation DAYS_PER_MONTH :: int where "DAYS_PER_MONTH \<equiv> 30"
abbreviation FIRST_VALID :: int where "FIRST_VALID \<equiv> 2375840"
abbreviation LAST_VALID :: int where "LAST_VALID \<equiv> 2380952"

definition SdnToFrench :: "int \<Rightarrow> date" where
  "SdnToFrench sdn =
     (if sdn < FIRST_VALID \<or> sdn > LAST_VALID then (0, 0, 0)
      else
        let temp = (sdn - FRENCH_SDN_OFFSET) * 4 - 1;
            dayOfYear = c_div (c_mod temp DAYS_PER_4_YEARS) 4
        in (c_div temp DAYS_PER_4_YEARS, c_div dayOfYear DAYS_PER_MONTH + 1, c_mod dayOfYear DAYS_PER_MONTH + 1))"

definition FrenchToSdn :: "int \<Rightarrow> int \<Rightarrow> int \<Rightarrow> int" where
  "FrenchToSdn year month day =
     (if year < 1 \<or> year > 14 \<or> month < 1 \<or> month > 13 \<or> day < 1 \<or> day > 30 then 0
      else c_div (year * DAYS_PER_4_YEARS) 4 + (month - 1) * DAYS_PER_MONTH + day + FRENCH_SDN_OFFSET)"

definition FrenchMonthName :: "string list" where
  "FrenchMonthName = ['''', ''Vendemiaire'', ''Brumaire'', ''Frimaire'', ''Nivose'', ''Pluviose'', ''Ventose'', ''Germinal'', ''Floreal'',
     ''Prairial'', ''Messidor'', ''Thermidor'', ''Fructidor'', ''Extra'']"

definition DayOfWeek :: "int \<Rightarrow> int" where
  "DayOfWeek sdn = (let dow = c_mod (i32 (sdn + 1)) 7 in if dow \<ge> 0 then dow else dow + 7)"

definition DayNameShort :: "string list" where
  "DayNameShort = [''Sun'', ''Mon'', ''Tue'', ''Wed'', ''Thu'', ''Fri'', ''Sat'']"

definition DayNameLong :: "string list" where
  "DayNameLong = [''Sunday'', ''Monday'', ''Tuesday'', ''Wednesday'', ''Thursday'', ''Friday'', ''Saturday'']"

subsection \<open>\<^verbatim>\<open>jewish.c\<close>\<close>

abbreviation HALAKIM_PER_HOUR :: int where "HALAKIM_PER_HOUR \<equiv> 1080"
abbreviation HALAKIM_PER_DAY :: int where "HALAKIM_PER_DAY \<equiv> 25920"
abbreviation HALAKIM_PER_LUNAR_CYCLE :: int where "HALAKIM_PER_LUNAR_CYCLE \<equiv> 29 * HALAKIM_PER_DAY + 13753"
abbreviation HALAKIM_PER_METONIC_CYCLE :: int where "HALAKIM_PER_METONIC_CYCLE \<equiv> HALAKIM_PER_LUNAR_CYCLE * (12 * 19 + 7)"
abbreviation JEWISH_SDN_OFFSET :: int where "JEWISH_SDN_OFFSET \<equiv> 347997"
abbreviation NEW_MOON_OF_CREATION :: int where "NEW_MOON_OF_CREATION \<equiv> 31524"
abbreviation NOON :: int where "NOON \<equiv> 18 * HALAKIM_PER_HOUR"
abbreviation AM3_11_20 :: int where "AM3_11_20 \<equiv> 9 * HALAKIM_PER_HOUR + 204"
abbreviation AM9_32_43 :: int where "AM9_32_43 \<equiv> 15 * HALAKIM_PER_HOUR + 589"

text \<open>The tables; \<open>None\<close> outside of them.\<close>

definition at :: "'a list \<Rightarrow> int \<Rightarrow> 'a option" where
  "at l i = (if 0 \<le> i \<and> nat i < length l then Some (l ! nat i) else None)"

definition monthsPerYear :: "int list" where
  "monthsPerYear = [12, 12, 13, 12, 12, 13, 12, 13, 12, 12, 13, 12, 12, 13, 12, 12, 13, 12, 13]"

definition yearOffset :: "int list" where
  "yearOffset = [0, 12, 24, 37, 49, 61, 74, 86, 99, 111, 123, 136, 148, 160, 173, 185, 197, 210, 222]"

definition JewishMonthName :: "string list" where
  "JewishMonthName = ['''', ''Tishri'', ''Heshvan'', ''Kislev'', ''Tevet'', ''Shevat'', ''AdarI'', ''AdarII'', ''Nisan'', ''Iyyar'', ''Sivan'',
     ''Tammuz'', ''Av'', ''Elul'']"

definition Tishri1 :: "int \<Rightarrow> int \<Rightarrow> int \<Rightarrow> int" where
  "Tishri1 metonicYear moladDay moladHalakim =
     (let tishri1 = moladDay;
          dow = c_mod tishri1 7;
          leapYear = (metonicYear = 2 \<or> metonicYear = 5 \<or> metonicYear = 7 \<or> metonicYear = 10 \<or> metonicYear = 13 \<or>
            metonicYear = 16 \<or> metonicYear = 18);
          lastWasLeapYear = (metonicYear = 3 \<or> metonicYear = 6 \<or> metonicYear = 8 \<or> metonicYear = 11 \<or> metonicYear = 14 \<or>
            metonicYear = 17 \<or> metonicYear = 0);
          (tishri1, dow) =
            (if moladHalakim \<ge> NOON \<or> \<not> leapYear \<and> dow = 2 \<and> moladHalakim \<ge> AM3_11_20 \<or>
                lastWasLeapYear \<and> dow = 1 \<and> moladHalakim \<ge> AM9_32_43
             then (i32 (tishri1 + 1), if dow + 1 = 7 then 0 else dow + 1) else (tishri1, dow))
      in if dow = 3 \<or> dow = 5 \<or> dow = 0 then i32 (tishri1 + 1) else tishri1)"

text \<open>The product of the cycle's number and its length needs more than 32 bits; it is computed in two parts.\<close>

definition MoladOfMetonicCycle :: "int \<Rightarrow> int \<times> int" where
  "MoladOfMetonicCycle metonicCycle =
     (let c = word_of_int metonicCycle :: ulong; p = word_of_int HALAKIM_PER_METONIC_CYCLE; day = word_of_int HALAKIM_PER_DAY;
          r1 = word_of_int NEW_MOON_OF_CREATION + c * (p AND 0xFFFF);
          r2 = drop_bit 16 r1 + c * (drop_bit 16 p AND 0xFFFF);
          d2 = r2 div day;
          r2 = r2 - d2 * day;
          r1 = push_bit 16 r2 OR (r1 AND 0xFFFF);
          d1 = r1 div day;
          r1 = r1 - d1 * day
      in (sint (push_bit 16 d2 OR d1), sint r1))"

text \<open>The molad after a number of \<open>halakim\<close>.\<close>

definition next_molad :: "int \<Rightarrow> int \<times> int \<Rightarrow> int \<times> int" where
  "next_molad duration m =
     (case m of (moladDay, moladHalakim) \<Rightarrow>
        let h = i32 (moladHalakim + i32 duration)
        in (i32 (moladDay + c_div h HALAKIM_PER_DAY), c_mod h HALAKIM_PER_DAY))"

partial_function (option) later_cycle :: "int \<Rightarrow> int \<Rightarrow> int \<times> int \<Rightarrow> (int \<times> int \<times> int) option" where
  "later_cycle inputDay metonicCycle m =
     (if fst m < i32 (i32 (inputDay - 6940) + 310)
      then later_cycle inputDay (metonicCycle + 1) (next_molad HALAKIM_PER_METONIC_CYCLE m)
      else Some (metonicCycle, m))"

declare later_cycle.simps [code]

function closest_year :: "int \<Rightarrow> int \<Rightarrow> int \<times> int \<Rightarrow> (int \<times> int \<times> int) option" where
  "closest_year inputDay metonicYear m =
     (if metonicYear < 18 then
        (if fst m > i32 (inputDay - 74) then Some (metonicYear, m)
         else do {
           n \<leftarrow> at monthsPerYear metonicYear;
           closest_year inputDay (metonicYear + 1) (next_molad (HALAKIM_PER_LUNAR_CYCLE * n) m)
         })
      else Some (metonicYear, m))"
  by pat_completeness auto
termination
  by (relation "measure (\<lambda>(i, y, m). nat (18 - y))") auto

definition FindTishriMolad :: "int \<Rightarrow> (int \<times> int \<times> int \<times> int) option" where
  "FindTishriMolad inputDay = do {
     let c = c_div (i32 (inputDay + 310)) 6940;
     (metonicCycle, m) \<leftarrow> later_cycle inputDay c (MoladOfMetonicCycle c);
     (metonicYear, m') \<leftarrow> closest_year inputDay 0 m;
     Some (metonicCycle, metonicYear, m')
   }"

definition FindStartOfYear :: "int \<Rightarrow> (int \<times> (int \<times> int) \<times> int) option" where
  "FindStartOfYear year = do {
     let metonicCycle = c_div (i32 (year - 1)) 19;
     let metonicYear = c_mod (i32 (year - 1)) 19;
     n \<leftarrow> at yearOffset metonicYear;
     let (moladDay, moladHalakim) = next_molad (HALAKIM_PER_LUNAR_CYCLE * n) (MoladOfMetonicCycle metonicCycle);
     Some (metonicYear, (moladDay, moladHalakim), Tishri1 metonicYear moladDay moladHalakim)
   }"

text \<open>Heshvan or Kislev, which depends on the length of the year.\<close>

definition heshvan_or_kislev :: "int \<Rightarrow> int \<Rightarrow> int \<Rightarrow> int \<Rightarrow> date" where
  "heshvan_or_kislev year inputDay tishri1 tishri1After =
     (let yearLength = tishri1After - tishri1;
          day = inputDay - tishri1 - 29;
          heshvan = (if yearLength = 355 \<or> yearLength = 385 then 30 else 29)
      in if day \<le> heshvan then (year, 2, day) else (year, 3, day - heshvan))"

text \<open>The months before the end of the year whose first day is \<open>tishri1\<close>; none when it is an early month.\<close>

definition month_before :: "int \<Rightarrow> int \<Rightarrow> int \<Rightarrow> date option option" where
  "month_before year inputDay tishri1 =
     (if inputDay \<ge> tishri1 - 177 then
        Some (Some
          (if inputDay > tishri1 - 30 then (year, 13, inputDay - tishri1 + 30)
           else if inputDay > tishri1 - 60 then (year, 12, inputDay - tishri1 + 60)
           else if inputDay > tishri1 - 89 then (year, 11, inputDay - tishri1 + 89)
           else if inputDay > tishri1 - 119 then (year, 10, inputDay - tishri1 + 119)
           else if inputDay > tishri1 - 148 then (year, 9, inputDay - tishri1 + 148)
           else (year, 8, inputDay - tishri1 + 178)))
      else do {
        n \<leftarrow> at monthsPerYear (c_mod (year - 1) 19);
        let day = inputDay - tishri1 + 207;
        let (month, day) =
          (if n = 13 then (if day > 0 then (7, day) else if day + 30 > 0 then (6, day + 30) else (5, day + 30 + 30))
           else (if day > 0 then (6, day) else (5, day + 30)));
        Some
          (if day > 0 then Some (year, month, day)
           else if day + 29 > 0 then Some (year, month - 1, day + 29)
           else None)
      })"

definition SdnToJewish :: "int \<Rightarrow> date option" where
  "SdnToJewish sdn =
     (if sdn \<le> JEWISH_SDN_OFFSET then Some (0, 0, 0)
      else do {
        let inputDay = sdn - JEWISH_SDN_OFFSET;
        (metonicCycle, metonicYear, day, halakim) \<leftarrow> FindTishriMolad inputDay;
        let tishri1 = Tishri1 metonicYear day halakim;
        if inputDay \<ge> tishri1 then do {
          let year = i32 (metonicCycle * 19 + metonicYear + 1);
          if inputDay < tishri1 + 59 then
            Some (if inputDay < tishri1 + 30 then (year, 1, inputDay - tishri1 + 1) else (year, 2, inputDay - tishri1 - 29))
          else do {
            n \<leftarrow> at monthsPerYear metonicYear;
            let (day, halakim) = next_molad (HALAKIM_PER_LUNAR_CYCLE * n) (day, halakim);
            Some (heshvan_or_kislev year inputDay tishri1 (Tishri1 (c_mod (metonicYear + 1) 19) day halakim))
          }
        }
        else do {
          let year = i32 (metonicCycle * 19 + metonicYear);
          r \<leftarrow> month_before year inputDay tishri1;
          (case r of
             Some d \<Rightarrow> Some d
           | None \<Rightarrow> do {
               (metonicCycle', metonicYear', day', halakim') \<leftarrow> FindTishriMolad (i32 (day - 365));
               Some (heshvan_or_kislev year inputDay (Tishri1 metonicYear' day' halakim') tishri1)
             })
        }
      })"

text \<open>The first day of a month from the day of \<open>Tishri 1\<close> after it, without the days of \<^verbatim>\<open>AdarI\<close> and \<^verbatim>\<open>AdarII\<close> for the first three.\<close>

fun month_offset :: "int \<Rightarrow> int option" where
  "month_offset month =
     (if month = 4 then Some 237 else if month = 5 then Some 208 else if month = 6 then Some 178
      else if month = 7 then Some 207 else if month = 8 then Some 178 else if month = 9 then Some 148
      else if month = 10 then Some 119 else if month = 11 then Some 89 else if month = 12 then Some 60
      else if month = 13 then Some 30 else None)"

definition JewishToSdn :: "int \<Rightarrow> int \<Rightarrow> int \<Rightarrow> int option" where
  "JewishToSdn year month day =
     (if year \<le> 0 \<or> day \<le> 0 \<or> day > 30 then Some 0
      else if month = 1 \<or> month = 2 then do {
        (_, _, tishri1) \<leftarrow> FindStartOfYear year;
        Some (i32 ((if month = 1 then tishri1 + day - 1 else tishri1 + day + 29) + JEWISH_SDN_OFFSET))
      }
      else if month = 3 then do {
        (metonicYear, m, tishri1) \<leftarrow> FindStartOfYear year;
        n \<leftarrow> at monthsPerYear metonicYear;
        let (moladDay, moladHalakim) = next_molad (HALAKIM_PER_LUNAR_CYCLE * n) m;
        let yearLength = i32 (Tishri1 (c_mod (metonicYear + 1) 19) moladDay moladHalakim - tishri1);
        Some (i32 ((if yearLength = 355 \<or> yearLength = 385 then tishri1 + day + 59 else tishri1 + day + 58) + JEWISH_SDN_OFFSET))
      }
      else do {
        (_, _, tishri1After) \<leftarrow> FindStartOfYear (i32 (year + 1));
        if month = 4 \<or> month = 5 \<or> month = 6 then do {
          n \<leftarrow> at monthsPerYear (c_mod (year - 1) 19);
          offset \<leftarrow> month_offset month;
          Some (i32 (tishri1After + day - (if n = 12 then 29 else 59) - offset + JEWISH_SDN_OFFSET))
        }
        else Some (case month_offset month of
            None \<Rightarrow> 0
          | Some offset \<Rightarrow> i32 (tishri1After + day - offset + JEWISH_SDN_OFFSET))
      })"

subsection \<open>\<^verbatim>\<open>calendar.c\<close>\<close>

text \<open>\<^verbatim>\<open>sprintf (date, "%i/%i/%i", month, day, year)\<close> into ten bytes; \<open>None\<close> when the text and its NUL do not fit.\<close>

definition date_string :: "date \<Rightarrow> string option" where
  "date_string d =
     (case d of (year, month, day) \<Rightarrow>
        let s = dec_of_int month @ ''/'' @ dec_of_int day @ ''/'' @ dec_of_int year
        in if length s + 1 \<le> 10 then Some s else None)"

definition cal_jdtogreg :: "int \<Rightarrow> pval option" where
  "cal_jdtogreg julday = map_option IS_STRING (date_string (SdnToGregorian julday))"

definition cal_gregtojd :: "int \<Rightarrow> int \<Rightarrow> int \<Rightarrow> pval" where
  "cal_gregtojd month day year = long (GregorianToSdn year month day)"

definition cal_jdtojul :: "int \<Rightarrow> pval option" where
  "cal_jdtojul julday = map_option IS_STRING (date_string (SdnToJulian julday))"

definition cal_jultojd :: "int \<Rightarrow> int \<Rightarrow> int \<Rightarrow> pval" where
  "cal_jultojd month day year = long (JulianToSdn year month day)"

definition cal_jdtojewish :: "int \<Rightarrow> pval option" where
  "cal_jdtojewish julday = do { d \<leftarrow> SdnToJewish julday; map_option IS_STRING (date_string d) }"

definition cal_jewishtojd :: "int \<Rightarrow> int \<Rightarrow> int \<Rightarrow> pval option" where
  "cal_jewishtojd month day year = map_option long (JewishToSdn year month day)"

definition cal_jdtofrench :: "int \<Rightarrow> pval option" where
  "cal_jdtofrench julday = map_option IS_STRING (date_string (SdnToFrench julday))"

definition cal_frenchtojd :: "int \<Rightarrow> int \<Rightarrow> int \<Rightarrow> pval" where
  "cal_frenchtojd month day year = long (FrenchToSdn year month day)"

definition cal_jddayofweek :: "int \<Rightarrow> int \<Rightarrow> pval option" where
  "cal_jddayofweek julday mode = do {
     let day = DayOfWeek julday;
     daynamel \<leftarrow> at DayNameLong day;
     daynames \<leftarrow> at DayNameShort day;
     Some (if mode = 1 then IS_STRING daynamel else if mode = 2 then IS_STRING daynames else long day)
   }"

definition cal_monthname :: "int \<Rightarrow> int \<Rightarrow> pval option" where
  "cal_monthname julday mode = do {
     (names, d) \<leftarrow>
       (if mode = 1 then Some (MonthNameLong, SdnToGregorian julday)
        else if mode = 2 then Some (MonthNameShort, SdnToJulian julday)
        else if mode = 3 then Some (MonthNameLong, SdnToJulian julday)
        else if mode = 4 then map_option (Pair JewishMonthName) (SdnToJewish julday)
        else if mode = 5 then Some (FrenchMonthName, SdnToFrench julday)
        else Some (MonthNameShort, SdnToGregorian julday));
     map_option IS_STRING (at names (fst (snd d)))
   }"

end
