(* ===== verification/Cal_Facts.thy ===== *)
theory Cal_Facts
  imports Cal_Model
begin

text \<open>
  The calendars are right: the conversions are inverse to each other on the days and dates of the calendar, and the next
  date has the next number.
\<close>

subsection \<open>Division into cycles\<close>

lemma c_div_pos: "0 \<le> a \<Longrightarrow> 0 < b \<Longrightarrow> c_div a b = a div b"
  by (cases "a = 0") (simp_all add: c_div_def)

lemma c_mod_pos: "0 \<le> a \<Longrightarrow> 0 < b \<Longrightarrow> c_mod a b = a mod b"
  by (cases "a = 0") (simp_all add: c_mod_def)

text \<open>Cycles of \<open>K / k\<close> days: the day in the cycle and the cycle give the day back.\<close>

lemma div_complement:
  fixes a b k n :: int
  assumes "0 < k" "a + b = k * n + (k - 1)"
  shows "a div k + b div k = n"
proof -
  have r: "0 \<le> a mod k" "a mod k < k" "0 \<le> b mod k" "b mod k < k"
    using assms(1) by simp_all
  have e: "k * (a div k + b div k - n) = (k - 1) - (a mod k + b mod k)"
    using assms(2) by (simp add: algebra_simps flip: minus_div_mult_eq_mod)
  have "a div k + b div k - n < 1"
  proof (rule ccontr)
    assume "\<not> ?thesis"
    then have "k * 1 \<le> k * (a div k + b div k - n)"
      using assms(1) by (intro mult_left_mono) auto
    with e r show False
      by linarith
  qed
  moreover have "- 1 < a div k + b div k - n"
  proof (rule ccontr)
    assume "\<not> ?thesis"
    then have "k * (a div k + b div k - n) \<le> k * (- 1)"
      using assms(1) by (intro mult_left_mono) auto
    with e r show False
      by linarith
  qed
  ultimately show ?thesis
    by linarith
qed

subsection \<open>Calendars\<close>

text \<open>The year that astronomers count, with a year 0 before the year 1.\<close>

definition astronomical :: "int \<Rightarrow> int" where
  "astronomical y = (if y < 0 then y + 1 else y)"

definition greg_leap :: "int \<Rightarrow> bool" where
  "greg_leap a \<longleftrightarrow> 4 dvd a \<and> (\<not> 100 dvd a \<or> 400 dvd a)"

definition julian_leap :: "int \<Rightarrow> bool" where
  "julian_leap a \<longleftrightarrow> 4 dvd a"

definition month_length :: "bool \<Rightarrow> int \<Rightarrow> int" where
  "month_length leap m = (if m = 2 then (if leap then 29 else 28) else if m = 4 \<or> m = 6 \<or> m = 9 \<or> m = 11 then 30 else 31)"

fun valid_date :: "(int \<Rightarrow> bool) \<Rightarrow> date \<Rightarrow> bool" where
  "valid_date leap (y, m, d) = (y \<noteq> 0 \<and> 1 \<le> m \<and> m \<le> 12 \<and> 1 \<le> d \<and> d \<le> month_length (leap (astronomical y)) m)"

fun next_date :: "(int \<Rightarrow> bool) \<Rightarrow> date \<Rightarrow> date" where
  "next_date leap (y, m, d) =
     (if d < month_length (leap (astronomical y)) m then (y, m, d + 1)
      else if m < 12 then (y, m + 1, 1)
      else (if y = - 1 then 1 else y + 1, 1, 1))"

text \<open>Years and months from March of the year 4800 before the year 0; \<open>day_of_year\<close> counts from 1.\<close>

definition march :: "int \<Rightarrow> int \<Rightarrow> int \<times> int" where
  "march y m = (if m > 2 then (astronomical y + 4800, m - 3) else (astronomical y + 4799, m + 9))"

definition day_of_year :: "int \<Rightarrow> int \<Rightarrow> int" where
  "day_of_year M d = (153 * M + 2) div 5 + d"

definition year_length :: "(int \<Rightarrow> bool) \<Rightarrow> int \<Rightarrow> int" where
  "year_length leap Y = (if leap (Y + 1 - 4800) then 366 else 365)"

lemma months: "1 \<le> m \<Longrightarrow> m \<le> 12 \<Longrightarrow> m = 1 \<or> m = 2 \<or> m = 3 \<or> m = 4 \<or> m = 5 \<or> m = 6 \<or> m = 7 \<or> m = 8 \<or> m = 9 \<or> m = 10 \<or> m = 11 \<or> m = (12 :: int)"
  by arith

text \<open>The month and day of a day of the year.\<close>

lemma month_of_day:
  fixes M d :: int
  assumes "0 \<le> M" "M \<le> 11" "1 \<le> d" "d \<le> (if M = 1 \<or> M = 3 \<or> M = 6 \<or> M = 8 then 30 else if M = 11 then 29 else 31)"
  shows "(5 * day_of_year M d - 3) div 153 = M" "((5 * day_of_year M d - 3) mod 153) div 5 + 1 = d"
proof -
  let ?r = "(153 * M + 2) mod 5"
  have r: "0 \<le> ?r" "?r \<le> 4"
    using pos_mod_bound [of 5 "153 * M + 2"] by simp_all
  have n: "5 * day_of_year M d - 3 = (5 * d - 1 - ?r) + M * 153"
    unfolding day_of_year_def by (simp add: algebra_simps flip: minus_mod_eq_mult_div)
  have "M = 0 \<or> M = 1 \<or> M = 2 \<or> M = 3 \<or> M = 4 \<or> M = 5 \<or> M = 6 \<or> M = 7 \<or> M = 8 \<or> M = 9 \<or> M = 10 \<or> M = 11"
    using assms(1,2) by arith
  then have b: "5 * d - 1 - ?r < 153" "0 \<le> 5 * d - 1 - ?r"
    using assms(3,4) r by (elim disjE; simp)+
  show "(5 * day_of_year M d - 3) div 153 = M"
    unfolding n using b by (simp add: div_pos_pos_trivial)
  have "(5 * day_of_year M d - 3) mod 153 = (4 - ?r) + (d - 1) * 5"
    unfolding n using b by (simp add: mod_pos_pos_trivial)
  also have "\<dots> div 5 = d - 1"
    using r by (simp add: div_pos_pos_trivial)
  finally show "((5 * day_of_year M d - 3) mod 153) div 5 + 1 = d"
    by simp
qed

lemma month_and_day_of:
  assumes v: "valid_date leap (y, m, d)" and YM: "march y m = (Y, M)" 
  shows "month_and_day Y (day_of_year M d) = (y, m, d)" "1 \<le> day_of_year M d" "day_of_year M d \<le> year_length leap Y" 
proof -
  have m: "1 \<le> m" "m \<le> 12" "1 \<le> d" "y \<noteq> 0" "d \<le> month_length (leap (astronomical y)) m"
    using v by simp_all
  note mc = months [OF m(1,2)]
  have M: "0 \<le> M" "M \<le> 11" "d \<le> (if M = 1 \<or> M = 3 \<or> M = 6 \<or> M = 8 then 30 else if M = 11 then 29 else 31)"
    using YM mc m(5) by (elim disjE; simp add: march_def month_length_def split: if_splits)+
  note md = month_of_day [OF M(1,2) m(3) M(3)]
  have pos: "1 \<le> day_of_year M d"
    using M(1) m(3) pos_imp_zdiv_nonneg_iff [of 5 "153 * M + 2"] by (simp add: day_of_year_def)
  show "1 \<le> day_of_year M d"
    by (rule pos)
  have "month_and_day Y (day_of_year M d) =
      (let (year, month) = (if M < 10 then (Y, M + 3) else (Y + 1, M - 9)); year = year - 4800 in (if year \<le> 0 then year - 1 else year, month, d))"
    unfolding month_and_day_def using md pos by (simp add: c_div_pos c_mod_pos mult.commute Let_def)
  also have "\<dots> = (y, m, d)"
    using YM mc m(4) by (elim disjE; auto simp: march_def astronomical_def)
  finally show "month_and_day Y (day_of_year M d) = (y, m, d)" .
  show "day_of_year M d \<le> year_length leap Y"
    using YM mc m(5) by (elim disjE; auto simp: march_def month_length_def day_of_year_def year_length_def split: if_splits)
qed

lemma month_and_day_exists:
  assumes D: "1 \<le> D" "D \<le> year_length leap Y"
  shows "\<exists>y m d M. month_and_day Y D = (y, m, d) \<and> valid_date leap (y, m, d) \<and> march y m = (Y, M) \<and> day_of_year M d = D"
proof -
  define M where "M = (5 * D - 3) div 153"
  define r where "r = (5 * D - 3) mod 153"
  have D': "D \<le> 366"
    using D(2) by (simp add: year_length_def split: if_splits)
  have e: "5 * D - 3 = 153 * M + r" "0 \<le> r" "r < 153"
    by (simp_all add: M_def r_def)
  have M: "0 \<le> M" "M \<le> 11"
    using e D(1) D' by linarith+
  have d: "day_of_year M (r div 5 + 1) = D"
    using div_complement [of 5 "153 * M + 2" r "D - 1"] e(1) by (simp add: day_of_year_def)
  have Mc: "M = 0 \<or> M = 1 \<or> M = 2 \<or> M = 3 \<or> M = 4 \<or> M = 5 \<or> M = 6 \<or> M = 7 \<or> M = 8 \<or> M = 9 \<or> M = 10 \<or> M = 11"
    using M by arith
  define a where "a = (if M < 10 then Y else Y + 1) - 4800"
  define y where "y = (if a \<le> 0 then a - 1 else a)"
  define m where "m = (if M < 10 then M + 3 else M - 9)"
  have ay: "astronomical y = a" "y \<noteq> 0"
    by (auto simp: astronomical_def y_def)
  have "M = 1 \<or> M = 3 \<or> M = 6 \<or> M = 8 \<Longrightarrow> r < 150"
    using e by (elim disjE; simp; presburger)
  then have dl: "r div 5 + 1 \<le> 31" "M = 1 \<or> M = 3 \<or> M = 6 \<or> M = 8 \<Longrightarrow> r div 5 + 1 \<le> 30"
    using e(3) by auto
  have "r div 5 + 1 \<le> month_length (leap a) m"
    using Mc dl d D(2) by (elim disjE; auto simp: m_def a_def month_length_def day_of_year_def year_length_def add.commute split: if_splits)
  then have v: "valid_date leap (y, m, r div 5 + 1)"
    using ay M e(2) by (auto simp: m_def pos_imp_zdiv_nonneg_iff)
  have mm: "march y m = (Y, M)"
    using ay(1) M by (auto simp: march_def m_def a_def)
  show ?thesis
    using month_and_day_of(1) [OF v mm] d v mm by metis
qed

text \<open>The next date is the next day.\<close>

lemma next_date_march:
  assumes v: "valid_date leap (y, m, d)" and YM: "march y m = (Y, M)" and n: "next_date leap (y, m, d) = (y', m', d')"
    and YM': "march y' m' = (Y', M')"
  shows "valid_date leap (y', m', d')"
    "Y' = Y \<and> day_of_year M' d' = day_of_year M d + 1 \<or>
     Y' = Y + 1 \<and> day_of_year M d = year_length leap Y \<and> day_of_year M' d' = 1"
proof -
  have m: "1 \<le> m" "m \<le> 12" "1 \<le> d" "y \<noteq> 0" "d \<le> month_length (leap (astronomical y)) m"
    using v by simp_all
  note mc = months [OF m(1,2)]
  show "valid_date leap (y', m', d')"
    using n m mc by (auto simp: month_length_def split: if_splits)
  show "Y' = Y \<and> day_of_year M' d' = day_of_year M d + 1 \<or>
     Y' = Y + 1 \<and> day_of_year M d = year_length leap Y \<and> day_of_year M' d' = 1"
  proof (cases "d < month_length (leap (astronomical y)) m")
    case True
    then show ?thesis
      using n YM YM' by (auto simp: day_of_year_def)
  next
    case False
    then have d: "d = month_length (leap (astronomical y)) m"
      using m(5) by simp
    have "astronomical (if y = - 1 then 1 else y + 1) = astronomical y + 1"
      using m(4) by (auto simp: astronomical_def)
    then show ?thesis
      using mc n YM YM' unfolding d
      by (elim disjE; auto simp: month_length_def march_def day_of_year_def year_length_def split: if_splits)
  qed
qed

subsection \<open>Serial day numbers\<close>

definition date_of_day :: "(int \<Rightarrow> int \<times> int) \<Rightarrow> int \<Rightarrow> date" where
  "date_of_day sp N = (case sp N of (Y, D) \<Rightarrow> month_and_day Y D)"

fun number_of :: "(int \<Rightarrow> int) \<Rightarrow> date \<Rightarrow> int" where
  "number_of st (y, m, d) = (case march y m of (Y, M) \<Rightarrow> st Y + day_of_year M d)"

text \<open>
  A calendar counts its days from March 1 of a year: \<open>start\<close> is the number of the first day of a year, and \<open>split\<close> finds the
  year of a number and the day in the year.
\<close>

locale day_count =
  fixes leap :: "int \<Rightarrow> bool" and start :: "int \<Rightarrow> int" and split_days :: "int \<Rightarrow> int \<times> int"
  assumes start_Suc: "0 \<le> Y \<Longrightarrow> start (Y + 1) = start Y + year_length leap Y"
    and split_start: "0 \<le> N \<Longrightarrow> split_days N = (Y, D) \<Longrightarrow> 0 \<le> Y \<and> start Y + D = N + 1 \<and> 1 \<le> D \<and> D \<le> year_length leap Y"
begin

lemma start_mono: "0 \<le> Y \<Longrightarrow> Y < Y' \<Longrightarrow> start Y + year_length leap Y \<le> start Y'"
proof (induction "nat (Y' - Y - 1)" arbitrary: Y')
  case 0
  then have "Y' = Y + 1"
    by simp
  then show ?case
    using start_Suc 0 by simp
next
  case (Suc n)
  have "start Y + year_length leap Y \<le> start (Y' - 1)"
    using Suc by (intro Suc.hyps(1)) auto
  moreover have "start Y' = start (Y' - 1) + year_length leap (Y' - 1)"
    using start_Suc [of "Y' - 1"] Suc.prems Suc.hyps(2) by simp
  moreover have "0 \<le> year_length leap (Y' - 1)"
    by (simp add: year_length_def)
  ultimately show ?case
    by linarith
qed

lemma split_unique:
  assumes "0 \<le> Y" "1 \<le> D" "D \<le> year_length leap Y" "0 \<le> start Y + D - 1"
  shows "split_days (start Y + D - 1) = (Y, D)"
proof -
  obtain Y' D' where s: "split_days (start Y + D - 1) = (Y', D')"
    by (cases "split_days (start Y + D - 1)")
  then have s': "0 \<le> Y'" "start Y' + D' = start Y + D" "1 \<le> D'" "D' \<le> year_length leap Y'"
    using split_start [OF assms(4) s] by simp_all
  have "\<not> Y' < Y" "\<not> Y < Y'"
    using start_mono [of Y' Y] start_mono [of Y Y'] s' assms(1-3) by linarith+
  then have "Y' = Y"
    by linarith
  with s s'(2) show ?thesis
    by simp
qed

lemma day_date:
  assumes "0 \<le> N"
  shows "\<exists>y m d Y M. date_of_day split_days N = (y, m, d) \<and> valid_date leap (y, m, d) \<and> march y m = (Y, M) \<and> 0 \<le> Y \<and>
    start Y + day_of_year M d = N + 1"
proof -
  obtain Y D where s: "split_days N = (Y, D)"
    by (cases "split_days N")
  then have Y: "0 \<le> Y" "start Y + D = N + 1" "1 \<le> D" "D \<le> year_length leap Y"
    using split_start [OF assms] by simp_all
  then show ?thesis
    using month_and_day_exists [of D leap Y] s by (auto simp: date_of_day_def)
qed

lemma date_day:
  assumes v: "valid_date leap (y, m, d)" and YM: "march y m = (Y, M)" "0 \<le> Y" and n: "0 \<le> start Y + day_of_year M d - 1"
  shows "date_of_day split_days (start Y + day_of_year M d - 1) = (y, m, d)"
  using month_and_day_of [OF v YM(1)] split_unique [OF YM(2) _ _ n] by (simp add: date_of_day_def)

lemma day_number: "0 \<le> N \<Longrightarrow> valid_date leap (date_of_day split_days N) \<and> number_of start (date_of_day split_days N) = N + 1"
  using day_date [of N] by auto

lemma next_day:
  assumes "0 \<le> N"
  shows "date_of_day split_days (N + 1) = next_date leap (date_of_day split_days N)"
proof -
  obtain y m d Y M where e: "date_of_day split_days N = (y, m, d)" "valid_date leap (y, m, d)" "march y m = (Y, M)" "0 \<le> Y"
      "start Y + day_of_year M d = N + 1"
    using day_date [OF assms] by blast
  obtain y' m' d' where n: "next_date leap (y, m, d) = (y', m', d')"
    by (cases "next_date leap (y, m, d)")
  obtain Y' M' where YM': "march y' m' = (Y', M')"
    by (cases "march y' m'")
  note nd = next_date_march [OF e(2,3) n YM']
  have "0 \<le> Y'" "start Y' + day_of_year M' d' - 1 = N + 1"
    using nd(2) e(4,5) start_Suc [OF e(4)] by auto
  then show ?thesis
    using date_day [OF nd(1) YM'] assms e(1) n by (simp add: add.commute del: next_date.simps)
qed

lemma days_counted:
  assumes "0 \<le> N"
  shows "date_of_day split_days (N + int k) = (next_date leap ^^ k) (date_of_day split_days N)"
proof (induction k)
  case (Suc k)
  have "date_of_day split_days (N + int (Suc k)) = next_date leap (date_of_day split_days (N + int k))"
    using next_day [of "N + int k"] assms by (simp add: algebra_simps)
  with Suc show ?case
    by simp
qed simp

end

subsection \<open>The Gregorian and the Julian calendar\<close>

definition greg_start :: "int \<Rightarrow> int" where
  "greg_start Y = (146097 * (Y div 100)) div 4 + (1461 * (Y mod 100)) div 4"

definition greg_split :: "int \<Rightarrow> int \<times> int" where
  "greg_split N =
     (let r = ((4 * N + 3) mod 146097) div 4
      in (100 * ((4 * N + 3) div 146097) + (4 * r + 3) div 1461, ((4 * r + 3) mod 1461) div 4 + 1))"

definition julian_start :: "int \<Rightarrow> int" where
  "julian_start Y = (1461 * Y) div 4"

definition julian_split :: "int \<Rightarrow> int \<times> int" where
  "julian_split N = ((4 * N + 3) div 1461, ((4 * N + 3) mod 1461) div 4 + 1)"

lemma mod_four_three: "x = 4 * z + 3 \<Longrightarrow> x mod 4 = (3 :: int)"
  by simp

lemma quarters: "(1461 * Y) div 4 = 365 * Y + Y div (4 :: int)" "(146097 * Y) div 4 = 36524 * Y + Y div (4 :: int)"
proof -
  have "1461 * Y = Y + (365 * Y) * 4" "146097 * Y = Y + (36524 * Y) * 4"
    by simp_all
  then show "(1461 * Y) div 4 = 365 * Y + Y div (4 :: int)" "(146097 * Y) div 4 = 36524 * Y + Y div (4 :: int)"
    by (metis div_mult_self1 add.commute zero_neq_numeral)+
qed

lemma next_quarter: "(Y + 1) div 4 = Y div 4 + (if Y mod 4 = 3 then 1 else 0 :: int)"
  by presburger

lemma leap_quarter: "4 dvd (Y + 1 - 4800) \<longleftrightarrow> Y mod 4 = (3 :: int)"
  by presburger

lemma day_in_year:
  assumes "(d :: int) = 365 \<Longrightarrow> leap (Y + 1 - 4800)" "st Y + d = N" "0 \<le> d" "d \<le> 365" "0 \<le> Y"
  shows "0 \<le> Y \<and> st Y + (d + 1) = N + 1 \<and> 1 \<le> d + 1 \<and> d + 1 \<le> year_length leap Y"
  using assms by (cases "d = 365") (simp_all add: year_length_def)

interpretation julian: day_count julian_leap julian_start julian_split
proof
  fix Y :: int
  show "julian_start (Y + 1) = julian_start Y + year_length julian_leap Y"
    unfolding julian_start_def year_length_def julian_leap_def quarters leap_quarter next_quarter by simp
next
  fix N Y D :: int
  assume N: "0 \<le> N" and s: "julian_split N = (Y, D)"
  define m where "m = (4 * N + 3) mod 1461"
  have Y: "Y = (4 * N + 3) div 1461" "D = m div 4 + 1"
    using s by (auto simp: julian_split_def m_def)
  have e: "4 * N + 3 = 1461 * Y + m" "0 \<le> m" "m < 1461"
    unfolding Y m_def by (simp_all only: mult_div_mod_eq pos_mod_sign pos_mod_bound zero_less_numeral)
  have n: "julian_start Y + m div 4 = N"
    unfolding julian_start_def by (rule div_complement) (use e(1) in simp_all)
  have l: "julian_leap (Y + 1 - 4800)" if "m div 4 = 365"
  proof -
    have "m = 1460"
      using that e(2,3) by linarith
    then have "Y mod 4 = 3"
      using e(1) by (intro mod_four_three [of _ "N - 365 * Y - 365"]) simp
    then show ?thesis
      unfolding julian_leap_def leap_quarter .
  qed
  have "0 \<le> m div 4" "m div 4 \<le> 365"
    using e(2,3) by simp_all
  moreover have "0 \<le> Y"
    using N unfolding Y(1) by (simp add: pos_imp_zdiv_nonneg_iff)
  ultimately show "0 \<le> Y \<and> julian_start Y + D = N + 1 \<and> 1 \<le> D \<and> D \<le> year_length julian_leap Y"
    unfolding Y(2) by (intro day_in_year l n)
qed

lemma greg_leap_century: "greg_leap (100 * C + 99 + 1 - 4800) \<longleftrightarrow> C mod 4 = 3"
proof -
  have e: "100 * C + 99 + 1 - 4800 = 100 * (C - 47)"
    by simp
  have "400 dvd 100 * (C - 47) \<longleftrightarrow> 4 dvd C - 47"
    using dvd_mult_cancel_left [of 100 4 "C - 47"] by simp
  moreover have "4 dvd 100 * (C - 47)" "100 dvd 100 * (C - 47)"
    by (simp_all add: dvd_mult2)
  moreover have "4 dvd C - 47 \<longleftrightarrow> C mod 4 = 3"
    by presburger
  ultimately show ?thesis
    unfolding greg_leap_def e by simp
qed

lemma greg_leap_year:
  assumes "0 \<le> y" "y < 99"
  shows "greg_leap (100 * C + y + 1 - 4800) \<longleftrightarrow> y mod 4 = 3"
proof -
  have e: "100 * C + y + 1 - 4800 = (y + 1) + 100 * (C - 48)"
    by simp
  have "\<not> 100 dvd y + 1"
    using assms zdvd_not_zless [of "y + 1" 100] by simp
  moreover have "100 dvd (y + 1) + 100 * (C - 48) \<longleftrightarrow> 100 dvd y + 1"
    by (rule dvd_add_left_iff) simp
  moreover have "4 dvd (y + 1) + 100 * (C - 48) \<longleftrightarrow> 4 dvd y + 1"
    by (rule dvd_add_left_iff) (simp add: dvd_mult2)
  moreover have "4 dvd y + 1 \<longleftrightarrow> y mod 4 = 3"
    by presburger
  ultimately show ?thesis
    unfolding greg_leap_def e by simp
qed

interpretation gregorian: day_count greg_leap greg_start greg_split
proof
  fix Y :: int
  define C y where "C = Y div 100" and "y = Y mod 100"
  have Y: "Y = 100 * C + y" "0 \<le> y" "y < 100"
    by (simp_all add: C_def y_def)
  have s: "greg_start Y = 36524 * C + C div 4 + 365 * y + y div 4"
    by (simp add: greg_start_def quarters C_def y_def)
  show "greg_start (Y + 1) = greg_start Y + year_length greg_leap Y"
  proof (cases "y = 99")
    case True
    then have d: "(Y + 1) div 100 = C + 1" "(Y + 1) mod 100 = 0" "y div 4 = 24"
      using Y(1) by simp_all
    define q q' where "q = C div 4" and "q' = (C + 1) div 4"
    have "q' = q + (if greg_leap (Y + 1 - 4800) then 1 else 0)"
      unfolding q_def q'_def using next_quarter [of C] greg_leap_century [of C] True Y(1) by (simp only: True)
    moreover have "greg_start (Y + 1) = 36524 * (C + 1) + q'" "greg_start Y = 36524 * C + q + 365 * 99 + 24"
      unfolding s unfolding greg_start_def quarters d q_def q'_def True by simp_all
    ultimately show ?thesis
      by (simp add: year_length_def)
  next
    case False
    then have y: "y < 99"
      using Y(3) by simp
    then have d: "(Y + 1) div 100 = C" "(Y + 1) mod 100 = y + 1"
      using Y(1,2) by (simp_all add: div_pos_pos_trivial mod_pos_pos_trivial add.assoc)
    define q q' where "q = y div 4" and "q' = (y + 1) div 4"
    have "q' = q + (if greg_leap (Y + 1 - 4800) then 1 else 0)"
      unfolding q_def q'_def Y(1) using next_quarter [of y] greg_leap_year [OF Y(2) y, of C] by (simp only:)
    moreover have "greg_start (Y + 1) = 36524 * C + C div 4 + 365 * (y + 1) + q'"
      unfolding greg_start_def quarters d q'_def by simp
    ultimately show ?thesis
      unfolding s q_def [symmetric] by (simp add: year_length_def)
  qed
next
  fix N Y D :: int
  assume N: "0 \<le> N" and s: "greg_split N = (Y, D)"
  define C m where "C = (4 * N + 3) div 146097" and "m = (4 * N + 3) mod 146097"
  define r where "r = m div 4"
  define y k where "y = (4 * r + 3) div 1461" and "k = (4 * r + 3) mod 1461"
  have Y: "Y = 100 * C + y" "D = k div 4 + 1"
    using s by (auto simp: greg_split_def Let_def C_def m_def r_def y_def k_def)
  have e: "4 * N + 3 = 146097 * C + m" "0 \<le> m" "m < 146097" "4 * r + 3 = 1461 * y + k" "0 \<le> k" "k < 1461"
    unfolding C_def m_def y_def k_def by (simp_all only: mult_div_mod_eq pos_mod_sign pos_mod_bound zero_less_numeral)
  have r: "0 \<le> r" "r \<le> 36524"
    using e(2,3) by (simp_all add: r_def)
  have b: "0 \<le> y" "y \<le> 99" "0 \<le> C"
    using e N r by linarith+
  have "(146097 * C) div 4 + m div 4 = N" "(1461 * y) div 4 + k div 4 = r"
    by (rule div_complement; use e(1,4) in simp)+
  then have n: "36524 * C + C div 4 + 365 * y + y div 4 + k div 4 = N"
    unfolding quarters r_def by simp
  have k: "0 \<le> k div 4" "k div 4 \<le> 365"
    using e(5,6) by simp_all
  have "greg_leap (Y + 1 - 4800)" if "k div 4 = 365"
  proof -
    have "k = 1460"
      using that e(5,6) by linarith
    then have y4: "y mod 4 = 3"
      using e(4) by (intro mod_four_three [of _ "r - 365 * y - 365"]) simp
    show ?thesis
    proof (cases "y = 99")
      case True
      then have "r = 36524"
        using e(4) \<open>k = 1460\<close> by simp
      then have "m = 146096"
        using e(2,3) unfolding r_def by linarith
      then have "C mod 4 = 3"
        using e(1) by (intro mod_four_three [of _ "N - 36524 * C - 36524"]) simp
      then show ?thesis
        using greg_leap_century [of C] True Y(1) by simp
    next
      case False
      then show ?thesis
        using greg_leap_year [of y C] b y4 Y(1) by simp
    qed
  qed
  moreover have "greg_start Y = 36524 * C + C div 4 + 365 * y + y div 4"
    unfolding greg_start_def quarters Y(1) using b by (simp add: div_pos_pos_trivial mod_pos_pos_trivial)
  ultimately show "0 \<le> Y \<and> greg_start Y + D = N + 1 \<and> 1 \<le> D \<and> D \<le> year_length greg_leap Y"
    unfolding Y(2) by (intro day_in_year k) (use b Y(1) n in simp_all)
qed

subsection \<open>The code's conversions\<close>

text \<open>Day 1 is day 32045 after March 1, 4801 before Christ, in the Gregorian calendar and 32083 in the Julian one. The
  bound is where \<open>(sdn + offset) * 4 - 1\<close> leaves 31 bits.\<close>

lemma SdnToGregorian_day: "1 \<le> n \<Longrightarrow> n \<le> 536838867 \<Longrightarrow> SdnToGregorian n = date_of_day greg_split (n + 32044)"
proof -
  assume n: "1 \<le> n" "n \<le> 536838867"
  have t: "i32 ((n + 32045) * 4 - 1) = 4 * (n + 32044) + 3"
    using n by (subst i32_id) simp_all
  have p: "0 \<le> 4 * (n + 32044) + 3"
    using n(1) by simp
  show ?thesis
    using n(1) unfolding SdnToGregorian_def t
    by (simp add: c_div_pos [OF p] c_mod_pos [OF p] c_div_pos c_mod_pos date_of_day_def greg_split_def Let_def mult.commute)
qed

lemma SdnToJulian_day: "1 \<le> n \<Longrightarrow> n \<le> 536838829 \<Longrightarrow> SdnToJulian n = date_of_day julian_split (n + 32082)"
proof -
  assume n: "1 \<le> n" "n \<le> 536838829"
  have t: "i32 ((n + 32083) * 4 - 1) = 4 * (n + 32082) + 3"
    using n by (subst i32_id) simp_all
  have p: "0 \<le> 4 * (n + 32082) + 3"
    using n(1) by simp
  show ?thesis
    using n(1) unfolding SdnToJulian_def t
    by (simp add: c_div_pos [OF p] c_mod_pos [OF p] c_div_pos c_mod_pos date_of_day_def julian_split_def Let_def)
qed

lemma march_year_march:
  "y \<noteq> 0 \<Longrightarrow> - 4714 \<le> y \<Longrightarrow> y \<le> 1465102 \<Longrightarrow> march_year y m = march y m"
  by (auto simp: march_year_def march_def astronomical_def Let_def i32_id)

lemma march_bounds:
  "march y m = (Y, M) \<Longrightarrow> y \<noteq> 0 \<Longrightarrow> - 4714 \<le> y \<Longrightarrow> 1 \<le> m \<Longrightarrow> m \<le> 12 \<Longrightarrow> 0 \<le> Y \<and> Y \<le> astronomical y + 4800 \<and> 0 \<le> M \<and> M \<le> 11"
  by (auto simp: march_def astronomical_def split: if_splits)

text \<open>The first dates: November 25, 4714, and January 2, 4713, before Christ.\<close>

definition from_first :: "date \<Rightarrow> date \<Rightarrow> bool" where
  "from_first d0 d \<longleftrightarrow> (case (d0, d) of ((y0, m0, d0), (y, m, d)) \<Rightarrow> y0 < y \<or> y0 = y \<and> (m0 < m \<or> m0 = m \<and> d0 \<le> d))"

lemma i32_day_sum:
  "0 \<le> a \<Longrightarrow> a \<le> 536871000 \<Longrightarrow> 0 \<le> b \<Longrightarrow> b \<le> 40000 \<Longrightarrow> 0 \<le> p \<Longrightarrow> p \<le> 340 \<Longrightarrow> 1 \<le> d \<Longrightarrow> d \<le> 31 \<Longrightarrow> 0 \<le> k \<Longrightarrow> k \<le> 40000 \<Longrightarrow>
    i32 (a + b + p + d - k) = a + b + p + d - k"
  by (rule i32_id) simp_all

lemma GregorianToSdn_number:
  assumes v: "valid_date greg_leap (y, m, d)" and f: "from_first (- 4714, 11, 25) (y, m, d)" and y: "y \<le> 1465102"
  shows "GregorianToSdn y m d = number_of greg_start (y, m, d) - 32045"
proof -
  have b: "1 \<le> m" "m \<le> 12" "1 \<le> d" "d \<le> 31" "y \<noteq> 0" "- 4714 \<le> y"
    using v f by (auto simp: month_length_def from_first_def split: if_splits)
  obtain Y M where YM: "march y m = (Y, M)"
    by (cases "march y m")
  have Y: "0 \<le> Y" "Y \<le> 1469902" "0 \<le> M" "M \<le> 11"
    using march_bounds [OF YM b(5,6,1,2)] y by (auto simp: astronomical_def split: if_splits)
  have C: "0 \<le> Y div 100" "Y div 100 \<le> 14699" "0 \<le> Y mod 100" "Y mod 100 \<le> 99"
    using Y(1,2) by simp_all
  have i1: "i32 (Y div 100 * 146097) = 146097 * (Y div 100)"
    using C by (subst i32_id) simp_all
  have o: "0 \<le> (153 * M + 2) div 5" "(153 * M + 2) div 5 \<le> 340"
    using Y(3,4) by simp_all
  have s: "0 \<le> (146097 * (Y div 100)) div 4" "(146097 * (Y div 100)) div 4 \<le> 536871000"
    "0 \<le> (1461 * (Y mod 100)) div 4" "(1461 * (Y mod 100)) div 4 \<le> 40000"
    using C by simp_all
  have "i32 ((146097 * (Y div 100)) div 4 + (1461 * (Y mod 100)) div 4 + (153 * M + 2) div 5 + d - 32045) =
      (146097 * (Y div 100)) div 4 + (1461 * (Y mod 100)) div 4 + (153 * M + 2) div 5 + d - 32045"
    by (rule i32_day_sum [OF s o b(3,4)]) simp_all
  moreover have "c_div Y 100 = Y div 100" "c_mod Y 100 = Y mod 100" "c_div (146097 * (Y div 100)) 4 = (146097 * (Y div 100)) div 4"
    "c_div (Y mod 100 * 1461) 4 = (1461 * (Y mod 100)) div 4" "c_div (M * 153 + 2) 5 = (153 * M + 2) div 5"
    using Y(1,3) C by (simp_all add: c_div_pos c_mod_pos mult.commute)
  moreover have "\<not> (y = 0 \<or> y < - 4714 \<or> m \<le> 0 \<or> m > 12 \<or> d \<le> 0 \<or> d > 31)" "\<not> (y = - 4714 \<and> (m < 11 \<or> m = 11 \<and> d < 25))"
    using b f by (auto simp: from_first_def)
  ultimately show ?thesis
    unfolding GregorianToSdn_def march_year_march [OF b(5,6) y] number_of.simps YM
    by (simp only: if_False Let_def prod.case i1 greg_start_def day_of_year_def)
qed

lemma JulianToSdn_number:
  assumes v: "valid_date julian_leap (y, m, d)" and f: "from_first (- 4713, 1, 2) (y, m, d)" and y: "y \<le> 1465072"
  shows "JulianToSdn y m d = number_of julian_start (y, m, d) - 32083"
proof -
  have b: "1 \<le> m" "m \<le> 12" "1 \<le> d" "d \<le> 31" "y \<noteq> 0" "- 4713 \<le> y"
    using v f by (auto simp: month_length_def from_first_def split: if_splits)
  have y': "- 4714 \<le> y" "y \<le> 1465102"
    using b(6) y by simp_all
  obtain Y M where YM: "march y m = (Y, M)"
    by (cases "march y m")
  have Y: "0 \<le> Y" "Y \<le> 1469872" "0 \<le> M" "M \<le> 11"
    using march_bounds [OF YM b(5) y'(1) b(1,2)] y by (auto simp: astronomical_def split: if_splits)
  have i1: "i32 (Y * 1461) = 1461 * Y"
    using Y(1,2) by (subst i32_id) simp_all
  have s: "0 \<le> (1461 * Y) div 4" "(1461 * Y) div 4 \<le> 536871000" "0 \<le> (153 * M + 2) div 5" "(153 * M + 2) div 5 \<le> 340"
    using Y by simp_all
  have "i32 ((1461 * Y) div 4 + (153 * M + 2) div 5 + d - 32083) = (1461 * Y) div 4 + (153 * M + 2) div 5 + d - 32083"
    using i32_day_sum [of "(1461 * Y) div 4" 0 "(153 * M + 2) div 5" d 32083] s b(3,4) by (simp only: add_0_right)
  moreover have "c_div (1461 * Y) 4 = (1461 * Y) div 4" "c_div (M * 153 + 2) 5 = (153 * M + 2) div 5"
    using Y(1,3) by (simp_all add: c_div_pos mult.commute)
  moreover have "\<not> (y = 0 \<or> y < - 4713 \<or> m \<le> 0 \<or> m > 12 \<or> d \<le> 0 \<or> d > 31)" "\<not> (y = - 4713 \<and> m = 1 \<and> d = 1)"
    using b f by (auto simp: from_first_def)
  ultimately show ?thesis
    unfolding JulianToSdn_def march_year_march [OF b(5) y'] number_of.simps YM
    by (simp only: if_False Let_def prod.case i1 julian_start_def day_of_year_def)
qed

text \<open>All days from the first one on.\<close>

lemma next_date_from: "from_first d0 d \<Longrightarrow> from_first d0 (next_date leap d)"
  by (cases d0; cases d) (auto simp: from_first_def split: if_splits)

lemma next_dates_from: "from_first d0 d0 \<Longrightarrow> from_first d0 ((next_date leap ^^ k) d0)"
  by (induction k) (auto intro: next_date_from)

text \<open>The last year whose days have a number.\<close>

context day_count
begin

lemma late_year:
  assumes YM: "march y m = (Y, M)" and m: "1 \<le> m" "m \<le> 12" "1 \<le> d" and y: "Y0 < astronomical y + 4800" and Y0: "0 \<le> Y0"
  shows "start Y0 + 307 \<le> start Y + day_of_year M d"
proof -
  have l: "365 \<le> year_length leap Y0"
    by (simp add: year_length_def)
  have M: "0 \<le> M" "m \<le> 2 \<Longrightarrow> 10 \<le> M"
    using YM m by (auto simp: march_def split: if_splits)
  then have "1 \<le> day_of_year M d" "m \<le> 2 \<Longrightarrow> 307 \<le> day_of_year M d"
    using m(3) unfolding day_of_year_def by (auto simp: pos_imp_zdiv_nonneg_iff add_increasing)
  moreover have "Y0 \<le> Y" "2 < m \<Longrightarrow> Y0 < Y"
    using YM y by (auto simp: march_def split: if_splits)
  moreover have "Y0 < Y \<Longrightarrow> start Y0 + 365 \<le> start Y"
    using start_mono [OF Y0, of Y] l by linarith
  ultimately show ?thesis
    by (cases "m \<le> 2"; cases "Y0 < Y") auto
qed

end

lemma gregorian_day:
  assumes n: "1 \<le> n" "n \<le> 536838829"
  shows "SdnToGregorian n = (next_date greg_leap ^^ nat (n - 1)) (- 4714, 11, 25)"
    "\<exists>y m d. SdnToGregorian n = (y, m, d) \<and> valid_date greg_leap (y, m, d) \<and> GregorianToSdn y m d = n"
proof -
  have "date_of_day greg_split (32045 + int (nat (n - 1))) = (next_date greg_leap ^^ nat (n - 1)) (date_of_day greg_split 32045)"
    by (rule gregorian.days_counted) simp
  moreover have "date_of_day greg_split 32045 = (- 4714, 11, 25)"
    by code_simp
  moreover have "32045 + int (nat (n - 1)) = n + 32044"
    using n(1) by simp
  ultimately show it: "SdnToGregorian n = (next_date greg_leap ^^ nat (n - 1)) (- 4714, 11, 25)"
    using SdnToGregorian_day n by (simp add: add.commute)
  obtain y m d Y M where e: "SdnToGregorian n = (y, m, d)" "valid_date greg_leap (y, m, d)" "march y m = (Y, M)"
      "greg_start Y + day_of_year M d = n + 32045"
    using gregorian.day_date [of "n + 32044"] SdnToGregorian_day n by auto
  have f: "from_first (- 4714, 11, 25) (y, m, d)"
    using next_dates_from [of "(- 4714, 11, 25)" "nat (n - 1)" greg_leap] it e(1) by (simp add: from_first_def)
  have "greg_start 1469902 = 536870680"
    by (simp add: greg_start_def)
  then have "\<not> 1469902 < astronomical y + 4800"
    using gregorian.late_year [OF e(3), of d 1469902] e(2,4) n(2) by auto
  then have "y \<le> 1465102"
    by (auto simp: astronomical_def split: if_splits)
  then have "GregorianToSdn y m d = n"
    using GregorianToSdn_number [OF e(2) f] e(3,4) by simp
  with e(1,2) show "\<exists>y m d. SdnToGregorian n = (y, m, d) \<and> valid_date greg_leap (y, m, d) \<and> GregorianToSdn y m d = n"
    by blast
qed

lemma julian_day:
  assumes n: "1 \<le> n" "n \<le> 536838829"
  shows "SdnToJulian n = (next_date julian_leap ^^ nat (n - 1)) (- 4713, 1, 2)"
    "\<exists>y m d. SdnToJulian n = (y, m, d) \<and> valid_date julian_leap (y, m, d) \<and> JulianToSdn y m d = n"
proof -
  have "date_of_day julian_split (32083 + int (nat (n - 1))) = (next_date julian_leap ^^ nat (n - 1)) (date_of_day julian_split 32083)"
    by (rule julian.days_counted) simp
  moreover have "date_of_day julian_split 32083 = (- 4713, 1, 2)"
    by code_simp
  moreover have "32083 + int (nat (n - 1)) = n + 32082"
    using n(1) by simp
  ultimately show it: "SdnToJulian n = (next_date julian_leap ^^ nat (n - 1)) (- 4713, 1, 2)"
    using SdnToJulian_day n by (simp add: add.commute)
  obtain y m d Y M where e: "SdnToJulian n = (y, m, d)" "valid_date julian_leap (y, m, d)" "march y m = (Y, M)"
      "julian_start Y + day_of_year M d = n + 32083"
    using julian.day_date [of "n + 32082"] SdnToJulian_day n by auto
  have f: "from_first (- 4713, 1, 2) (y, m, d)"
    using next_dates_from [of "(- 4713, 1, 2)" "nat (n - 1)" julian_leap] it e(1) by (simp add: from_first_def)
  have "julian_start 1469872 = 536870748"
    by (simp add: julian_start_def)
  then have "\<not> 1469872 < astronomical y + 4800"
    using julian.late_year [OF e(3), of d 1469872] e(2,4) n(2) by auto
  then have "y \<le> 1465072"
    by (auto simp: astronomical_def split: if_splits)
  then have "JulianToSdn y m d = n"
    using JulianToSdn_number [OF e(2) f] e(3,4) by simp
  with e(1,2) show "\<exists>y m d. SdnToJulian n = (y, m, d) \<and> valid_date julian_leap (y, m, d) \<and> JulianToSdn y m d = n"
    by blast
qed

context day_count
begin

lemma early_year:
  assumes YM: "march y m = (Y, M)" and v: "valid_date leap (y, m, d)" and Y: "0 \<le> Y" and y: "astronomical y + 4800 \<le> Y1"
  shows "start Y + day_of_year M d \<le> start (Y1 + 1)"
proof -
  have "day_of_year M d \<le> year_length leap Y"
    by (rule month_and_day_of(3) [OF v YM])
  moreover have "Y < Y1 + 1"
    using YM y by (auto simp: march_def split: if_splits)
  ultimately show ?thesis
    using start_mono [OF Y, of "Y1 + 1"] by linarith
qed

end

lemma gregorian_date:
  assumes v: "valid_date greg_leap (y, m, d)" and f: "from_first (- 4714, 11, 25) (y, m, d)" and y: "y \<le> 1465000"
  shows "1 \<le> GregorianToSdn y m d \<and> SdnToGregorian (GregorianToSdn y m d) = (y, m, d)"
proof -
  have b: "1 \<le> m" "m \<le> 12" "1 \<le> d" "y \<noteq> 0" "- 4714 \<le> y"
    using v f by (auto simp: from_first_def)
  obtain Y M where YM: "march y m = (Y, M)"
    by (cases "march y m")
  have Y: "0 \<le> Y"
    using march_bounds [OF YM b(4,5,1,2)] by simp
  let ?n = "greg_start Y + day_of_year M d - 32045"
  have n: "GregorianToSdn y m d = ?n"
    using GregorianToSdn_number [OF v f] y YM by simp
  have "greg_start (1469800 + 1) = 536833791"
    by (simp add: greg_start_def)
  moreover have "astronomical y + 4800 \<le> 1469800"
    using y by (simp add: astronomical_def)
  ultimately have up: "?n \<le> 536838867"
    using gregorian.early_year [OF YM v Y, of 1469800] by linarith
  have low: "1 \<le> ?n"
  proof (cases "y = - 4714")
    case True
    then have "Y = 87" "m = 11 \<and> 25 \<le> d \<and> M = 8 \<or> m = 12 \<and> M = 9"
      using YM f b by (auto simp: march_def astronomical_def from_first_def split: if_splits)
    then show ?thesis
      using b(3) by (auto simp: greg_start_def day_of_year_def)
  next
    case False
    then have "87 < astronomical y + 4800"
      using b(4,5) by (auto simp: astronomical_def)
    moreover have "greg_start 87 = 31776"
      by (simp add: greg_start_def)
    ultimately show ?thesis
      using gregorian.late_year [OF YM b(1-3), of 87] by simp
  qed
  have "date_of_day greg_split (?n + 32044) = (y, m, d)"
    using gregorian.date_day [OF v YM Y] low by (simp add: algebra_simps)
  then show ?thesis
    unfolding n using SdnToGregorian_day [OF low up] low by simp
qed

lemma julian_date:
  assumes v: "valid_date julian_leap (y, m, d)" and f: "from_first (- 4713, 1, 2) (y, m, d)" and y: "y \<le> 1465000"
  shows "1 \<le> JulianToSdn y m d \<and> SdnToJulian (JulianToSdn y m d) = (y, m, d)"
proof -
  have b: "1 \<le> m" "m \<le> 12" "1 \<le> d" "y \<noteq> 0" "- 4713 \<le> y"
    using v f by (auto simp: from_first_def)
  obtain Y M where YM: "march y m = (Y, M)"
    by (cases "march y m")
  have Y: "0 \<le> Y" "0 \<le> M"
    using march_bounds [OF YM b(4) _ b(1,2)] b(5) by simp_all
  let ?n = "julian_start Y + day_of_year M d - 32083"
  have n: "JulianToSdn y m d = ?n"
    using JulianToSdn_number [OF v f] y YM by simp
  have "julian_start (1469800 + 1) = 536844815"
    by (simp add: julian_start_def)
  moreover have "astronomical y + 4800 \<le> 1469800"
    using y by (simp add: astronomical_def)
  ultimately have up: "?n \<le> 536838829"
    using julian.early_year [OF YM v Y(1), of 1469800] by linarith
  have low: "1 \<le> ?n"
  proof (cases "y = - 4713")
    case True
    then have "Y = 88 \<or> Y = 87 \<and> (M = 10 \<and> 2 \<le> d \<or> M = 11)"
      using YM f b by (auto simp: march_def astronomical_def from_first_def split: if_splits)
    moreover have "0 \<le> (153 * M + 2) div 5"
      using Y(2) by (simp add: pos_imp_zdiv_nonneg_iff)
    ultimately show ?thesis
      using b(3) by (auto simp: julian_start_def day_of_year_def)
  next
    case False
    then have "88 < astronomical y + 4800"
      using b(4,5) by (auto simp: astronomical_def)
    moreover have "julian_start 88 = 32142"
      by (simp add: julian_start_def)
    ultimately show ?thesis
      using julian.late_year [OF YM b(1-3), of 88] by simp
  qed
  have "date_of_day julian_split (?n + 32082) = (y, m, d)"
    using julian.date_day [OF v YM Y(1)] low by (simp add: algebra_simps)
  then show ?thesis
    unfolding n using SdnToJulian_day [OF low up] low by simp
qed

subsection \<open>The French republican calendar and the days of the week\<close>

lemma french_day:
  assumes "FIRST_VALID \<le> n" "n \<le> LAST_VALID"
  shows "case SdnToFrench n of (y, m, d) \<Rightarrow> FrenchToSdn y m d = n"
proof -
  define k where "k = n - FRENCH_SDN_OFFSET"
  define y where "y = (4 * k - 1) div 1461"
  define D where "D = ((4 * k - 1) mod 1461) div 4"
  have k: "366 \<le> k" "k \<le> 5478"
    using assms by (simp_all add: k_def)
  have y: "1 \<le> y" "y \<le> 14"
    using k by (simp_all add: y_def)
  have D: "0 \<le> D" "D \<le> 365"
    using pos_mod_bound [of 1461 "4 * k - 1"] by (simp_all add: D_def)
  then have f: "0 \<le> D div 30" "D div 30 \<le> 12" "0 \<le> D mod 30" "D mod 30 < 30"
    by simp_all
  have "(1461 * y) div 4 + D = k - 1"
    unfolding D_def y_def by (rule div_complement) (simp_all add: algebra_simps)
  moreover have "SdnToFrench n = (y, D div 30 + 1, D mod 30 + 1)"
    using assms k D by (simp add: SdnToFrench_def Let_def k_def [symmetric] y_def D_def c_div_pos c_mod_pos mult.commute)
  moreover have "FrenchToSdn y (D div 30 + 1) (D mod 30 + 1) = (1461 * y) div 4 + D + 1 + FRENCH_SDN_OFFSET"
    using y D f by (simp add: FrenchToSdn_def c_div_pos mult.commute not_less not_le)
  ultimately show ?thesis
    by (simp add: k_def)
qed

lemma day_of_week: "1 \<le> n \<Longrightarrow> n \<le> 536838829 \<Longrightarrow> DayOfWeek n = (n + 1) mod 7"
  by (simp add: DayOfWeek_def Let_def i32_id c_mod_pos)

end
