(* ===== verification/Cal_Properties.thy ===== *)
theory Cal_Properties
  imports Cal_Facts
begin

text \<open>The properties of the calendars, each with an instance.\<close>

unbundle bit_operations_syntax

subsection \<open>The molad\<close>

lemma uint_small: "0 \<le> n \<Longrightarrow> n < 4294967296 \<Longrightarrow> uint (word_of_int n :: ulong) = n"
  by (simp add: uint_word_of_int)

lemma uint_half: "0 \<le> n \<Longrightarrow> n < 65536 \<Longrightarrow> uint (word_of_int n :: ulong) = n"
  by (rule uint_small) simp_all

lemma word_halves:
  fixes a b :: ulong
  assumes "uint a < 65536" "uint b < 65536"
  shows "uint (push_bit 16 a OR b) = 65536 * uint a + uint b"
proof -
  have b: "b = take_bit 16 b"
    using assms(2) by (simp add: word_uint_eq_iff unsigned_take_bit_eq take_bit_int_eq_self)
  have "push_bit 16 a OR b = push_bit 16 a + b"
    by (subst (1 2) b, rule disjunctive_add [symmetric]) (auto simp: bit_simps)
  also have "\<dots> = word_of_int (65536 * uint a + uint b)"
    by (simp add: push_bit_eq_mult mult.commute)
  finally have "uint (push_bit 16 a OR b) = uint (word_of_int (65536 * uint a + uint b) :: ulong)"
    by (rule arg_cong)
  also have "\<dots> = 65536 * uint a + uint b"
    using assms by (intro uint_small) simp_all
  finally show ?thesis .
qed

lemma word_halves_int:
  assumes "0 \<le> m" "m < 65536" "0 \<le> n" "n < 65536"
  shows "push_bit 16 (word_of_int m) OR word_of_int n = (word_of_int (65536 * m + n) :: ulong)"
proof -
  have u: "uint (word_of_int (65536 * m + n) :: ulong) = 65536 * m + n"
    using assms by (intro uint_small) simp_all
  show ?thesis
    unfolding word_uint_eq_iff u using assms by (subst word_halves) (simp_all add: uint_half)
qed

lemma molad_sum:
  fixes R1 :: int
  assumes "R1 = 65536 * a + l" "R2 = 25920 * d2 + m" "S = 25920 * d1 + h" "R1 = 31524 + c * 45971" "R2 = a + c * 2744" "S = 65536 * m + l"
  shows "(65536 * d2 + d1) * 25920 + h = 31524 + c * 179876755"
proof -
  have "(65536 * d2 + d1) * 25920 + h = 65536 * (25920 * d2 + m) + l"
    using assms(3,6) by simp
  also have "\<dots> = (65536 * a + l) + c * (2744 * 65536)"
    unfolding assms(2) [symmetric] assms(5) by simp
  also have "\<dots> = 31524 + c * 179876755"
    unfolding assms(1) [symmetric] assms(4) by simp
  finally show ?thesis .
qed

lemma ulong_day:
  assumes "0 \<le> n" "n < 4294967296"
  shows "word_of_int n div 25920 = (word_of_int (n div 25920) :: ulong)"
    and "word_of_int n - word_of_int (n div 25920) * 25920 = (word_of_int (n mod 25920) :: ulong)"
proof -
  show "word_of_int n div 25920 = (word_of_int (n div 25920) :: ulong)"
    using assms by (simp add: word_uint_eq_iff uint_div uint_small)
  show "word_of_int n - word_of_int (n div 25920) * 25920 = (word_of_int (n mod 25920) :: ulong)"
    by (subst minus_div_mult_eq_mod [symmetric]) simp
qed

lemma ulong_halves:
  assumes "0 \<le> n" "n < 4294967296"
  shows "drop_bit 16 (word_of_int n) = (word_of_int (n div 65536) :: ulong)"
    and "word_of_int n AND 0xFFFF = (word_of_int (n mod 65536) :: ulong)"
proof -
  show "drop_bit 16 (word_of_int n) = (word_of_int (n div 65536) :: ulong)"
    using assms by (simp add: word_uint_eq_iff drop_bit_eq_div uint_div uint_small)
  have "word_of_int n AND 0xFFFF = take_bit 16 (word_of_int n :: ulong)"
    by (simp add: take_bit_eq_mask mask_eq_exp_minus_1)
  then have "uint (word_of_int n AND 0xFFFF :: ulong) = n mod 65536"
    using assms by (simp add: take_bit_eq_mod uint_mod uint_small)
  then show "word_of_int n AND 0xFFFF = (word_of_int (n mod 65536) :: ulong)"
    by (simp only: word_uint_eq_iff uint_half pos_mod_sign pos_mod_bound zero_less_numeral)
qed

text \<open>The parts of the product as integers: the low product, the high one with the carry, and the remainder with the low half.\<close>

abbreviation low_product :: "int \<Rightarrow> int" where "low_product c \<equiv> 31524 + c * 45971"
abbreviation high_product :: "int \<Rightarrow> int" where "high_product c \<equiv> low_product c div 65536 + c * 2744"
abbreviation rest_product :: "int \<Rightarrow> int" where "rest_product c \<equiv> 65536 * (high_product c mod 25920) + low_product c mod 65536"

lemma molad_words:
  assumes c: "0 \<le> c" "c \<le> 93427"
  shows "MoladOfMetonicCycle c =
    (sint (word_of_int (65536 * (high_product c div 25920) + rest_product c div 25920) :: ulong),
     sint (word_of_int (rest_product c mod 25920) :: ulong))"
proof -
  define R1 R2 where "R1 = low_product c" and "R2 = high_product c"
  define S where "S = rest_product c"
  have b: "0 \<le> R1" "R1 < 4294967296" "0 \<le> R2" "R2 < 300000000"
    using c by (simp_all add: R1_def R2_def)
  have h: "0 \<le> R2 mod 25920" "R2 mod 25920 < 65536" "0 \<le> R1 mod 65536" "R1 mod 65536 < 65536" "0 \<le> R2 div 25920" "R2 div 25920 < 65536"
    using b pos_mod_bound [of 25920 R2] by simp_all
  have S: "S = 65536 * (R2 mod 25920) + R1 mod 65536"
    by (simp only: S_def R1_def R2_def)
  have bS: "0 \<le> S" "S < 25920 * 65536" "0 \<le> S div 25920" "S div 25920 < 65536"
    using h pos_mod_bound [of 25920 R2] by (simp_all add: S)
  have r1: "31524 + word_of_int c * 45971 = (word_of_int R1 :: ulong)"
    by (simp add: R1_def)
  have r2: "word_of_int (R1 div 65536) + word_of_int c * 2744 = (word_of_int R2 :: ulong)"
    by (simp add: R1_def R2_def)
  show ?thesis
    unfolding S_def [symmetric] unfolding R2_def [symmetric]
    using b bS ulong_halves [of R1] ulong_day [of R2] ulong_day [of S] word_halves_int [OF h(1-4)] word_halves_int [OF h(5,6) bS(3,4)]
    by (simp add: MoladOfMetonicCycle_def Let_def r1 r2 S [symmetric])
qed

lemma sint_halves:
  "0 \<le> m \<Longrightarrow> m < 20000 \<Longrightarrow> 0 \<le> n \<Longrightarrow> n < 65536 \<Longrightarrow> sint (word_of_int (65536 * m + n) :: ulong) = 65536 * m + n"
  by (rule sint_of_int_range) (simp_all add: long_bounds)

lemma molad_exact:
  assumes c: "0 \<le> c" "c \<le> 93427"
  shows "\<exists>d h. MoladOfMetonicCycle c = (d, h) \<and> 0 \<le> h \<and> h < 25920 \<and> d * 25920 + h = 31524 + c * 179876755"
proof -
  define S where "S = rest_product c"
  have d: "0 \<le> high_product c div 25920" "high_product c div 25920 < 20000"
    using c by simp_all
  have "0 \<le> S" "S < 25920 * 65536"
    using pos_mod_bound [of 25920 "high_product c"] pos_mod_sign [of 25920 "high_product c"]
      pos_mod_bound [of 65536 "low_product c"] pos_mod_sign [of 65536 "low_product c"]
    unfolding S_def by linarith+
  then have S: "0 \<le> S div 25920" "S div 25920 < 65536"
    by simp_all
  have r: "0 \<le> S mod 25920" "S mod 25920 < 25920"
    by simp_all
  then have "sint (word_of_int (S mod 25920) :: ulong) = S mod 25920"
    using sint_halves [of 0 "S mod 25920"] by simp
  then have "MoladOfMetonicCycle c = (65536 * (high_product c div 25920) + S div 25920, S mod 25920)"
    unfolding molad_words [OF c] S_def [symmetric] sint_halves [OF d S] by (rule arg_cong)
  moreover have "(65536 * (high_product c div 25920) + S div 25920) * 25920 + S mod 25920 = 31524 + c * 179876755"
    by (rule molad_sum [where a = "low_product c div 65536"]) (simp_all add: S_def)
  ultimately show ?thesis
    using r by blast
qed

subsection \<open>The properties\<close>

text \<open>C36: The serial numbers count the days of the calendars: number 1 is November 25, 4714 before Christ in the Gregorian and
  January 2, 4713 before Christ in the Julian calendar, every further number is the next date by the rules of month lengths and
  leap years (without a year 0), and the date gives the number back, for all numbers whose product with 4 fits an integer. So does the French republican date for
  the years 1 to 14 of the Republic, and the day of the week, from 0 for a Sunday, advances by one each day.\<close>
theorem calendar_counts_days:
  assumes "1 \<le> n" "n \<le> 536838829"
  shows "SdnToGregorian n = (next_date greg_leap ^^ nat (n - 1)) (- 4714, 11, 25) \<and>
    (case SdnToGregorian n of (y, m, d) \<Rightarrow> valid_date greg_leap (y, m, d) \<and> GregorianToSdn y m d = n) \<and>
    SdnToJulian n = (next_date julian_leap ^^ nat (n - 1)) (- 4713, 1, 2) \<and>
    (case SdnToJulian n of (y, m, d) \<Rightarrow> valid_date julian_leap (y, m, d) \<and> JulianToSdn y m d = n) \<and>
    (FIRST_VALID \<le> n \<and> n \<le> LAST_VALID \<longrightarrow> (case SdnToFrench n of (y, m, d) \<Rightarrow> FrenchToSdn y m d = n)) \<and>
    DayOfWeek n = (n + 1) mod 7"
  using gregorian_day [OF assms] julian_day [OF assms] french_day [of n] day_of_week [OF assms] by auto

theorem calendar_counts_days_witness:
  "SdnToGregorian 38 = (- 4713, 1, 1) \<and> GregorianToSdn (- 4713) 1 1 = 38"
proof -
  have "(next_date greg_leap ^^ 37) (- 4714, 11, 25) = (- 4713, 1, 1)"
    by code_simp
  then have "SdnToGregorian 38 = (- 4713, 1, 1)"
    using calendar_counts_days [of 38] by simp
  with calendar_counts_days [of 38] show ?thesis
    by simp
qed

text \<open>C37: Every date of the Gregorian and of the Julian calendar from the first one to the end of the year 1465000 comes back
  from its serial number, which is positive.\<close>
theorem calendar_dates:
  assumes "valid_date greg_leap (y, m, d)" "from_first (- 4714, 11, 25) (y, m, d)" "y \<le> 1465000"
    and "valid_date julian_leap (y', m', d')" "from_first (- 4713, 1, 2) (y', m', d')" "y' \<le> 1465000"
  shows "1 \<le> GregorianToSdn y m d \<and> SdnToGregorian (GregorianToSdn y m d) = (y, m, d) \<and>
    1 \<le> JulianToSdn y' m' d' \<and> SdnToJulian (JulianToSdn y' m' d') = (y', m', d')"
  using gregorian_date [OF assms(1-3)] julian_date [OF assms(4-6)] by blast

theorem calendar_dates_witness:
  "1 \<le> GregorianToSdn 2000 2 29 \<and> SdnToGregorian (GregorianToSdn 2000 2 29) = (2000, 2, 29) \<and>
    1 \<le> JulianToSdn (- 1) 2 29 \<and> SdnToJulian (JulianToSdn (- 1) 2 29) = (- 1, 2, 29)"
  by (rule calendar_dates) (simp_all add: from_first_def month_length_def greg_leap_def julian_leap_def astronomical_def)

lemma dec_digits_length: "10 ^ k \<le> n \<Longrightarrow> k < length (dec_digits n)"
proof (induction k arbitrary: n)
  case 0
  then show ?case
    by (subst dec_digits.simps) simp
next
  case (Suc k)
  have "(1 :: int) \<le> 10 ^ k"
    by simp
  with Suc.prems have "\<not> n < 10"
    by (simp only: power_Suc)
  moreover have "10 ^ k \<le> n div 10"
    using Suc.prems by simp
  ultimately show ?case
    using Suc.IH by (subst dec_digits.simps) simp
qed

text \<open>C38: The functions that give a date as a string write it into ten bytes: every date with a month and a day of two digits and a year of
  four digits or more, before or after Christ, writes behind the end of the buffer.\<close>
theorem date_string_overflow:
  assumes "10 \<le> m" "10 \<le> d" "1000 \<le> \<bar>y\<bar>"
  shows "(SdnToGregorian n = (y, m, d) \<longrightarrow> cal_jdtogreg n = None) \<and> (SdnToJulian n = (y, m, d) \<longrightarrow> cal_jdtojul n = None) \<and>
    (SdnToJewish n = Some (y, m, d) \<longrightarrow> cal_jdtojewish n = None)"
proof -
  have "1 < length (dec_of_int m)" "1 < length (dec_of_int d)"
    using assms(1,2) dec_digits_length [of 1] by (simp_all add: dec_of_int_def)
  moreover have "3 < length (dec_of_int y)"
    using assms(3) dec_digits_length [of 3 y] dec_digits_length [of 3 "- y"] by (cases "y < 0") (simp_all add: dec_of_int_def)
  ultimately have "date_string (y, m, d) = None"
    by (simp add: date_string_def Let_def)
  then show ?thesis
    by (simp add: cal_jdtogreg_def cal_jdtojul_def cal_jdtojewish_def)
qed

theorem date_string_overflow_witness:
  "SdnToGregorian 2451544 = (1999, 12, 31) \<and> cal_jdtogreg 2451544 = None"
proof -
  have "SdnToGregorian 2451544 = (1999, 12, 31)"
    by code_simp
  then show ?thesis
    using date_string_overflow [of 12 31 1999 2451544] by simp
qed

text \<open>C39: The molad of a cycle of 19 years is exact, although the product of the cycle's number and its length needs 37 bits
  and the code has 32: for the cycles up to 93427 the two parts hold the whole.\<close>
theorem molad_of_cycle:
  assumes "0 \<le> c" "c \<le> 93427"
  shows "case MoladOfMetonicCycle c of (d, h) \<Rightarrow> 0 \<le> h \<and> h < HALAKIM_PER_DAY \<and>
    d * HALAKIM_PER_DAY + h = NEW_MOON_OF_CREATION + c * HALAKIM_PER_METONIC_CYCLE"
  using molad_exact [OF assms] by auto

theorem molad_of_cycle_witness:
  "case MoladOfMetonicCycle 303 of (d, h) \<Rightarrow> 0 \<le> h \<and> h < HALAKIM_PER_DAY \<and>
    d * HALAKIM_PER_DAY + h = NEW_MOON_OF_CREATION + 303 * HALAKIM_PER_METONIC_CYCLE"
  by (rule molad_of_cycle) simp_all

end
