(* ===== verification/Spec2Isabelle.thy ===== *)
theory Spec2Isabelle
  imports Hash_Properties Core_Properties Control_Correct Token_Properties
    Alloc_Properties Encoding_Properties Unserialize_Bounds
    String_Properties Var_Properties Cal_Properties
begin

text \<open>
  PHP 3, the interpreter of the PHP language in C (1997 to 2000): a scanner and an LALR parser whose
  actions run the script while it is parsed, a symbol table of values, and a library of functions.

  \<^bold>\<open>The parts and how they interact.\<close> The scanner (\<^verbatim>\<open>language-scanner.lex\<close>) makes tokens. The token
  caches (\<^verbatim>\<open>token_cache.c\<close>) record them, because there is no syntax tree: the body of a loop is run
  again by seeking to its first token, a function call seeks to the body of the function, and the
  parts of a \<^verbatim>\<open>for\<close> loop are put in their order of execution by exchanging tokens. The parser's
  actions (\<^verbatim>\<open>language-parser.y\<close>, \<^verbatim>\<open>control_structures_inline.h\<close>) run on every token, also in code that
  must not be executed; flags (\<^verbatim>\<open>Execute\<close>, \<^verbatim>\<open>ExecuteFlag\<close>, loop nesting and change levels) and stacks
  (\<^verbatim>\<open>stack.c\<close>) decide whether an action has an effect. Values (\<^verbatim>\<open>pval\<close>) live in hash tables
  (\<^verbatim>\<open>php3_hash.c\<close>): the symbol tables, arrays, objects, the tables of functions, constants
  (\<^verbatim>\<open>constants.c\<close>) and resources (\<^verbatim>\<open>list.c\<close>). The operators (\<^verbatim>\<open>operators.c\<close>) convert and combine
  values. Memory comes from the manager of \<^verbatim>\<open>alloc.c\<close>, which frees what a script leaves.

  \<^bold>\<open>The machine.\<close> The build that is modelled has 32 bit \<^verbatim>\<open>int\<close>, \<^verbatim>\<open>long\<close> and pointers, no threads, no
  DEBUG, no memory limit and no BC math. A \<^verbatim>\<open>long\<close> is a \<open>32 word\<close>, read with \<open>sint\<close> or \<open>uint\<close>; a
  \<^verbatim>\<open>double\<close> is an IEEE binary64 value given by its sign, significand and exponent (\<open>Php_Double\<close>), with
  the conversions \<^verbatim>\<open>strtod\<close>, \<^verbatim>\<open>%g\<close> and the casts defined by rounding. A string is the list of its
  \<^verbatim>\<open>len\<close> bytes. A read outside of an array, a use after free, a double free or a division that traps is
  the value \<open>None\<close>; failures that the code reports are values of \<open>status\<close> or \<open>option\<close>. Messages
  (\<^verbatim>\<open>php3_error\<close>) are not modelled.

  \<^bold>\<open>The theories and the code.\<close>

  \<^item> \<open>Php_Prelude\<close>: bytes, the status codes, \<^verbatim>\<open>isdigit\<close> and the like, lemmas on association lists.
  \<^item> Hash table, \<^verbatim>\<open>php3_hash.c\<close> and \<^verbatim>\<open>php3_hash.h\<close>. \<open>Hash_Model\<close> and \<open>Hash_Ops\<close> define every operation on a
    heap of buckets with the pointers of the code (\<^verbatim>\<open>pNext\<close>, \<^verbatim>\<open>pListNext\<close>, \<^verbatim>\<open>pListLast\<close>, \<^verbatim>\<open>arBuckets\<close>);
    loops over pointers are \<open>partial_function\<close>s, callbacks are functions with a state, and \<^verbatim>\<open>qsort\<close> is a parameter. \<open>Hash_Heap\<close> and \<open>Hash_Inv\<close> state the invariant
    \<open>hash_repr\<close> (each bucket once in the global list and once in its chain), \<open>Hash_Insert\<close> to
    \<open>Hash_Cursor\<close> prove that every operation keeps it and what it does to the list of entries.
    \<open>Php_Array\<close> gives the abstract array that the values hold and the locale \<open>table\<close> with its
    interpretations on the code's string and index operations; \<open>Php_Keys\<close> characterises the numeric keys.
  \<^item> Values and operators, \<^verbatim>\<open>php.h\<close> and \<^verbatim>\<open>operators.c\<close>: \<open>Php_Double\<close>, \<open>Php_Values\<close>, \<open>Php_Operators\<close>,
    with the facts on overflow, comparison and increments in \<open>Php_Arith\<close>.
  \<^item> Constants, \<^verbatim>\<open>constants.c\<close>: \<open>Php_Constants\<close>. Resources, \<^verbatim>\<open>list.c\<close>: \<open>Php_List\<close>. The stack of blocks,
    \<^verbatim>\<open>stack.c\<close>: \<open>Php_Stack\<close>. Their properties are in \<open>Core_Properties\<close>.
  \<^item> Control structures, \<^verbatim>\<open>control_structures_inline.h\<close> and the actions of \<^verbatim>\<open>language-parser.y\<close> that call
    it: \<open>Control_Model\<close> is the machine of flags, stacks and rewritten tokens, \<open>Control_Sem\<close> the
    structured semantics (no flags, no tokens) that it is proved to implement in \<open>Control_Skip\<close>,
    \<open>Control_Refine\<close> and \<open>Control_Correct\<close>. Expressions are a parameter: their value in a state and
    the state after them. A \<^verbatim>\<open>return\<close> is that of a function; outside of one it ends the file, which is left to the scanner. The rounds of a loop are bounded by fuel; the theorem holds for every
    fuel with which the structured semantics ends.
  \<^item> Token caches, \<^verbatim>\<open>token_cache.c\<close>: \<open>Token_Cache\<close> with the scanner as a parameter, \<open>Token_Facts\<close>,
    \<open>Token_Properties\<close>. A cache number has 12 bits and a token number 32 bits; the theorems hold for
    fewer than 2048 caches and \<open>2 ^ 20\<close> tokens each, and the overflow above is a theorem of its own.
  \<^item> Memory manager, \<^verbatim>\<open>alloc.c\<close>: \<open>Alloc_Model\<close>, \<open>Alloc_Facts\<close>, \<open>Alloc_Properties\<close>. The answers of
    \<^verbatim>\<open>malloc\<close> are an argument; the theorems ask for blocks below 2 GB.
  \<^item> Encodings, \<^verbatim>\<open>functions/base64.c\<close>, \<^verbatim>\<open>url.c\<close>, \<^verbatim>\<open>quot_print.c\<close>: \<open>Php_Encodings\<close>, \<open>Encoding_Properties\<close>.
    A buffer has the size the code allocates, computed in the integers of the code (\<^verbatim>\<open>int\<close>s of 32 bits that wrap around,
    made a \<^verbatim>\<open>size_t\<close> by the call of \<^verbatim>\<open>emalloc\<close>), and a write outside of it is an error value.
  \<^item> Serialization, \<^verbatim>\<open>functions/var.c\<close>: \<open>Php_Serialize\<close> (with \<^verbatim>\<open>var_dump\<close>), \<open>Serialize_Properties\<close>,
    \<open>Unserialize_Bounds\<close>. The depth of the recursive reader is fuel; the length of the text plus one is
    proved to be enough.

  \<^item> Strings, \<^verbatim>\<open>functions/string.c\<close>: \<open>Php_Strings\<close> (trimming, case, paths, searching, cutting), \<open>Php_Text\<close>
    (escaping, translating, replacing, similarity, \<^verbatim>\<open>strip_tags\<close>) and \<open>Php_Split\<close> (\<^verbatim>\<open>explode\<close>, \<^verbatim>\<open>implode\<close>, \<^verbatim>\<open>strtok\<close>,
    whose position in the string is a state between calls), with \<open>Text_Facts\<close>, \<open>Split_Facts\<close> and the
    properties in \<open>String_Properties\<close>. Loops over pointers keep the rest of the string and what was
    written; buffers have the size the code allocates.
  \<^item> Variables and functions, \<^verbatim>\<open>variables.c\<close>, \<^verbatim>\<open>control_structures_inline.h\<close>, \<^verbatim>\<open>language-parser.y\<close>. \<open>Var_Store\<close> is a
    store of \<^verbatim>\<open>pval\<close>s with addresses, and tables whose entries own a cell or point to one of another
    owner; \<open>Var_Ops\<close>, \<open>Var_Access\<close> and \<open>Var_Calls\<close> are the operations of the code on it: names, array
    elements (with the list of variables that were made for writing only and are taken away again),
    assignment, \<^verbatim>\<open>isset\<close>, \<^verbatim>\<open>unset\<close>, \<^verbatim>\<open>list\<close>, \<^verbatim>\<open>global\<close>, \<^verbatim>\<open>static\<close>, calls, classes and objects. The copy
    constructor has the number of tables as its fuel, which is enough because a value that does not
    contain itself is not deeper than there are tables (\<open>Var_Facts\<close>). \<open>Var_Rep\<close> represents values by trees,
    \<open>Var_Memory\<close> a set of variables by a map from cells to trees, with a footprint for each, so that
    variables share nothing; \<open>Var_Copy\<close>, \<open>Var_Focus\<close>, \<open>Var_Path\<close>, \<open>Var_Assign\<close>, \<open>Var_State\<close>, \<open>Var_Scope\<close>,
    \<open>Var_Probe\<close> and \<open>Var_View\<close> prove what each operation does to it and that nothing leaks. \<open>Var_Program\<close>
    puts the actions together as the grammar does for assignments, \<^verbatim>\<open>isset\<close> and \<^verbatim>\<open>unset\<close>, beside a semantics
    on an environment of trees; \<open>Var_Run\<close>, \<open>Var_Function\<close> and \<open>Var_Script\<close> prove the simulation for
    programs, calls by value and by reference, and scripts. \<open>Var_Properties\<close> states the results.
    Outside of the simulation (not of the model) are element assignments whose right side has an
    index, paths through objects and string offsets, and variables that share a cell by \<^verbatim>\<open>global\<close> or \<^verbatim>\<open>static\<close>.
  \<^item> Calendars, \<^verbatim>\<open>dl/calendar\<close>: \<open>Cal_Model\<close> (all conversions and the functions of the language on them, with 32
    bit integers and the 10 byte buffer of the date strings), \<open>Cal_Facts\<close> with the calendars as rules for the next date and
    the locale \<open>day_count\<close>, interpreted on the Julian and the Gregorian conversions, and \<open>Cal_Properties\<close>. Of the Jewish
    calendar, whose search for a cycle is a \<open>partial_function\<close>, only the arithmetic of the molad is proved.

  \<^bold>\<open>What the theorems show.\<close> The properties are numbered C1 and up in the order of their importance. Those
  on the token caches and the control structures show that running code while it is parsed, by
  rereading tokens, has the structured meaning. Those on the hash table show that any sequence of its
  operations is the same sequence on an ordered association list, with sorting, copying, merging and
  destruction. Those on the memory manager show that every block is freed exactly once. Those on
  variables show that the scripts of the simulated part of the language never touch freed memory or
  leak, that values are copied and parameters passed as the language promises, and where an assignment outside of that part frees too early. The others state
  the types of the operators, round trips, exact ranges of integer arithmetic, and the places where the code does
  something else than its documentation says. Those on the calendars show that day numbers count the dates
  by the rules of month lengths and leap years, and which dates overrun the buffer they are written into.

  \<^bold>\<open>Not modelled.\<close> The generated scanner and parser (tables of flex and bison); input, output,
  configuration, the web servers and the operating system; the bindings of database, graphics and
  other client libraries; the vendored regular expression libraries; the separate converter of
  PHP/FI 2 scripts. They have no logic that can be stated without those systems. Of what is modelled:
  notices and warnings, the evaluation of expressions inside of an index, and what a script does after a
  fatal error.
\<close>

end
